(* ===== verification/Prelude.thy ===== *)
theory Prelude
  imports Main "HOL-Library.Word" "HOL-Library.Monad_Syntax"
begin

text \<open>
  What every component shares: the C integer types at their width, memory reads and writes
  that fail outside the object they address, and the generic lemmas and fact collections the
  component theories rely on.
\<close>

unbundle bit_operations_syntax

section \<open>C integer types\<close>

type_synonym u8 = "8 word"
type_synonym u16 = "16 word"
type_synonym u32 = "32 word"
type_synonym u64 = "64 word"

text \<open>
  A signed C integer has the same bits as the unsigned one of its width; it is read through
  \<^const>\<open>sint\<close>. The synonyms only say how a value is meant to be read.
\<close>

type_synonym s16 = "16 word"
type_synonym s32 = "32 word"

text \<open>The character code of a character literal, as the byte the C source compares with.\<close>

definition ch :: "char \<Rightarrow> u8" where
  "ch c = of_nat (of_char c)"

text \<open>The bytes of a string literal, without the terminating zero.\<close>

definition bytes :: "string \<Rightarrow> u8 list" where
  "bytes s = map ch s"

section \<open>Memory objects\<close>

text \<open>
  A C array (or a block of memory addressed through one pointer) is a list of its elements; a
  pointer into it is the index. Reading or writing outside the object is undefined behaviour
  in C and is the value \<^const>\<open>None\<close> here.
\<close>

definition rd :: "'a list \<Rightarrow> nat \<Rightarrow> 'a option" where
  "rd xs i = (if i < length xs then Some (xs ! i) else None)"

definition wr :: "'a list \<Rightarrow> nat \<Rightarrow> 'a \<Rightarrow> 'a list option" where
  "wr xs i v = (if i < length xs then Some (xs[i := v]) else None)"

lemma rd_Some_iff: "rd xs i = Some v \<longleftrightarrow> i < length xs \<and> xs ! i = v"
  by (auto simp: rd_def)

lemma rd_None_iff: "rd xs i = None \<longleftrightarrow> length xs \<le> i"
  by (auto simp: rd_def)

lemma wr_Some_iff: "wr xs i v = Some ys \<longleftrightarrow> i < length xs \<and> ys = xs[i := v]"
  by (auto simp: wr_def)

lemma rd_in [simp]: "i < length xs \<Longrightarrow> rd xs i = Some (xs ! i)"
  by (simp add: rd_def)

lemma wr_in [simp]: "i < length xs \<Longrightarrow> wr xs i v = Some (xs[i := v])"
  by (simp add: wr_def)

lemma wr_length: "wr xs i v = Some ys \<Longrightarrow> length ys = length xs"
  by (auto simp: wr_Some_iff)

lemma drop_eq_ConsD:
  assumes "drop n xs = y # ys"
  shows "n < length xs" "xs ! n = y" "drop (Suc n) xs = ys"
proof -
  show n: "n < length xs" using assms by (cases "n < length xs") simp_all
  then show "xs ! n = y" using assms by (metis list.sel(1) hd_drop_conv_nth)
  show "drop (Suc n) xs = ys" using assms by (metis list.sel(3) tl_drop drop_Suc)
qed

section \<open>Words\<close>

lemma even_ucast: "even (ucast (d :: 'a::len word) :: 'b::len word) = even d"
  using bit_0 [of d] bit_0 [of "ucast d :: 'b word"] by (simp add: bit_simps)

lemma even_xor_word: "even (a XOR b :: 'a::len word) = (even a = even b)"
  by (simp add: even_xor_iff)

lemma xor_cancel_left: "(a XOR b = a XOR c) = (b = (c :: 'a::len word))"
  by (rule iffI, drule arg_cong[of _ _ "\<lambda>x. a XOR x"]) (simp_all flip: xor.assoc)

lemma xor_cancel_right: "(b XOR a = c XOR a) = (b = (c :: 'a::len word))"
  by (simp add: xor_cancel_left xor.commute[of _ a])

lemma drop_bit_ucast_u8: "ucast (drop_bit n (d :: u8)) = (drop_bit n (ucast d) :: u16)"
  by (rule bit_eqI) (auto simp: bit_simps dest: bit_imp_le_length)

lemma ucast_ucast_u8: "ucast (ucast (d :: u8) :: u16) = d"
  by (rule bit_eqI) (auto simp: bit_simps dest: bit_imp_le_length)


lemma sint_of_int_s32: "- (2 ^ 31) \<le> k \<Longrightarrow> k < 2 ^ 31 \<Longrightarrow> sint (of_int k :: s32) = k"
  by (simp add: signed_of_int signed_take_bit_int_eq_self)

lemma sint_of_nat_small: "n < 2 ^ 31 \<Longrightarrow> sint (of_nat n :: s32) = int n"
  using sint_of_int_s32 [of "int n"] by simp

lemma sint_neg_of_nat: "n < 2 ^ 31 \<Longrightarrow> sint (- of_nat n :: s32) = - int n"
  using sint_of_int_s32 [of "- int n"] by simp

text \<open>Clearing the low bits rounds down to a multiple of a power of two.\<close>

lemma and_not_mask: "x AND NOT (mask n) = push_bit n (drop_bit n x)" for x :: "'a::len word"
  by (rule bit_eqI) (auto simp: bit_simps)

lemma unat_align_down:
  "unat (x AND NOT (mask n)) = 2 ^ n * (unat x div 2 ^ n)" for x :: "'a::len word"
proof -
  have "2 ^ n * (unat x div 2 ^ n) < 2 ^ LENGTH('a)"
    using unsigned_less[of x, where ?'a = nat] by (rule order_le_less_trans[rotated]) simp
  moreover have "unat (push_bit n (drop_bit n x)) = take_bit LENGTH('a) (push_bit n (drop_bit n (unat x)))"
    by (simp add: unsigned_push_bit_eq unat_drop_bit_eq)
  ultimately show ?thesis
    by (simp add: and_not_mask push_bit_eq_mult drop_bit_eq_div take_bit_nat_eq_self mult.commute)
qed

section \<open>C strings\<close>

text \<open>
  A C string is the list of its bytes without the terminating zero, so a pointer into the
  string is a suffix of the list and the byte it shows at the end is zero.
\<close>

definition deref :: "u8 list \<Rightarrow> u8" where
  "deref s = (case s of [] \<Rightarrow> 0 | c # _ \<Rightarrow> c)"

definition is_digit :: "u8 \<Rightarrow> bool" where
  "is_digit c \<longleftrightarrow> ch CHR ''0'' \<le> c \<and> c \<le> ch CHR ''9''"

definition digit_byte :: "nat \<Rightarrow> u8" where
  "digit_byte d = of_nat d + ch CHR ''0''"

text \<open>The number a list of decimal digits, most significant first, stands for.\<close>

definition dec_value :: "nat list \<Rightarrow> nat" where
  "dec_value ds = foldl (\<lambda>v d. v * 10 + d) 0 ds"

text \<open>A fact about the ten digits is a computation.\<close>

lemma ball_less_10: "list_all P [0..<10] \<Longrightarrow> d < (10 :: nat) \<Longrightarrow> P d"
  by (simp add: list_all_iff)

lemma digit_byte_range: "d < 10 \<Longrightarrow> 48 \<le> digit_byte d \<and> digit_byte d \<le> 57"
  by (rule ball_less_10 [where P = "\<lambda>d. 48 \<le> digit_byte d \<and> digit_byte d \<le> 57"]) (code_simp, assumption)

lemma foldl_dec: "foldl (\<lambda>v d. v * 10 + d) a ds = a * 10 ^ length ds + dec_value ds"
proof (induction ds rule: rev_induct)
  case Nil then show ?case by (simp add: dec_value_def)
next
  case (snoc d ds) then show ?case by (simp add: dec_value_def algebra_simps)
qed

end
