(* ===== verification/Bench_Barrier.thy ===== *)
theory Bench_Barrier
  imports Prelude
begin

text \<open>
  The barrier of \<open>benchmarks/common/util.h\<close>: a shared counter and a shared flag, and a flag of each hart
  that changes with every barrier it enters. The harts run one access to shared memory at a time,
  interleaved in any order.
\<close>

section \<open>The program\<close>

text \<open>Where a hart is in \<open>barrier\<close>: what it does next.\<close>

datatype barrier_point =
    Out
  | Arrive
  | Reset
  | Flip
  | Wait

record barrier_state =
  sense :: s32
  count :: s32
  threadsense :: "nat \<Rightarrow> s32"
  at :: "nat \<Rightarrow> barrier_point"

definition barrier_init :: barrier_state where
  "barrier_init = \<lparr>sense = 0, count = 0, threadsense = (\<lambda>h. 0), at = (\<lambda>h. Out)\<rparr>"

definition goto :: "nat \<Rightarrow> barrier_point \<Rightarrow> barrier_state \<Rightarrow> barrier_state" where
  "goto h p st = st\<lparr>at := (at st)(h := p)\<rparr>"

definition barrier_step :: "nat \<Rightarrow> nat \<Rightarrow> barrier_state \<Rightarrow> barrier_state" where
  "barrier_step ncores h st = (case at st h of
     Out \<Rightarrow> goto h Arrive (st\<lparr>threadsense := (threadsense st)(h := if threadsense st h = 0 then 1 else 0)\<rparr>)
   | Arrive \<Rightarrow>
       let old = count st; st = st\<lparr>count := old + 1\<rparr>
       in goto h (if old = of_nat ncores - 1 then Reset else Wait) st
   | Reset \<Rightarrow> goto h Flip (st\<lparr>count := 0\<rparr>)
   | Flip \<Rightarrow> goto h Out (st\<lparr>sense := threadsense st h\<rparr>)
   | Wait \<Rightarrow> if sense st \<noteq> threadsense st h then st else goto h Out st)"

text \<open>
  \<open>run n entered left st\<close>: \<open>n\<close> harts reach \<open>st\<close>, the hart \<open>h\<close> having entered \<open>entered h\<close> barriers and left
  \<open>left h\<close> of them.
\<close>

definition count_enter :: "nat \<Rightarrow> barrier_state \<Rightarrow> (nat \<Rightarrow> nat) \<Rightarrow> nat \<Rightarrow> nat" where
  "count_enter h st entered = (if at st h = Out then entered(h := entered h + 1) else entered)"

definition count_leave :: "nat \<Rightarrow> barrier_state \<Rightarrow> barrier_state \<Rightarrow> (nat \<Rightarrow> nat) \<Rightarrow> nat \<Rightarrow> nat" where
  "count_leave h st st' left = (if at st h \<noteq> Out \<and> at st' h = Out then left(h := left h + 1) else left)"

inductive run :: "nat \<Rightarrow> (nat \<Rightarrow> nat) \<Rightarrow> (nat \<Rightarrow> nat) \<Rightarrow> barrier_state \<Rightarrow> bool" for n where
  start: "run n (\<lambda>h. 0) (\<lambda>h. 0) barrier_init"
| advance: "run n entered left st \<Longrightarrow> h < n \<Longrightarrow> st' = barrier_step n h st \<Longrightarrow>
    run n (count_enter h st entered) (count_leave h st st' left) st'"

inductive_cases run_cases: "run n entered left st"

section \<open>The invariant\<close>

text \<open>The flag of a hart is the parity of the barriers it has entered.\<close>

definition parity_flag :: "nat \<Rightarrow> s32" where
  "parity_flag k = (if odd k then 1 else 0)"

lemma parity_flag_Suc: "parity_flag (Suc k) = (if parity_flag k = 0 then 1 else 0)"
  by (simp add: parity_flag_def)

lemma parity_flag_neq: "parity_flag (Suc k) \<noteq> parity_flag k"
  by (simp add: parity_flag_def)

text \<open>The harts that have arrived at the barrier after the \<open>k\<close> completed ones\<close>

definition arrived :: "nat \<Rightarrow> nat \<Rightarrow> (nat \<Rightarrow> nat) \<Rightarrow> (nat \<Rightarrow> barrier_point) \<Rightarrow> nat set" where
  "arrived n k entered a = {h. h < n \<and> entered h = Suc k \<and> a h \<noteq> Arrive}"

definition placed_hart :: "nat \<Rightarrow> nat \<Rightarrow> nat \<Rightarrow> barrier_point \<Rightarrow> bool" where
  "placed_hart k e l p \<longleftrightarrow> (case p of
     Out \<Rightarrow> e = k \<and> l = k
   | Wait \<Rightarrow> (e = k \<or> e = Suc k) \<and> e = Suc l
   | _ \<Rightarrow> e = Suc k \<and> l = k)"

definition closing :: "barrier_point \<Rightarrow> bool" where
  "closing p \<longleftrightarrow> p = Reset \<or> p = Flip"

definition in_round :: "nat \<Rightarrow> nat \<Rightarrow> (nat \<Rightarrow> nat) \<Rightarrow> (nat \<Rightarrow> nat) \<Rightarrow> barrier_state \<Rightarrow> bool" where
  "in_round n k entered left st \<longleftrightarrow> sense st = parity_flag k \<and>
    (\<forall>h < n. threadsense st h = parity_flag (entered h) \<and> placed_hart k (entered h) (left h) (at st h)) \<and>
    count st = (if \<exists>h < n. at st h = Flip then 0 else of_nat (card (arrived n k entered (at st)))) \<and>
    (card (arrived n k entered (at st)) = n \<longleftrightarrow> (\<exists>h < n. closing (at st h))) \<and>
    (\<forall>h < n. \<forall>h' < n. closing (at st h) \<longrightarrow> closing (at st h') \<longrightarrow> h = h')"

lemma arrived_finite [simp]: "finite (arrived n k entered a)"
  by (simp add: arrived_def)

lemma arrived_card: "card (arrived n k entered a) \<le> n"
proof -
  have "card (arrived n k entered a) \<le> card {..<n}" by (rule card_mono) (auto simp: arrived_def)
  then show ?thesis by simp
qed

lemma arrived_full: "card (arrived n k entered a) = n \<Longrightarrow> h < n \<Longrightarrow> h \<in> arrived n k entered a"
proof -
  assume c: "card (arrived n k entered a) = n" "h < n"
  have "arrived n k entered a = {..<n}" by (rule card_subset_eq) (use c in \<open>auto simp: arrived_def\<close>)
  then show ?thesis using c by simp
qed

lemma goto_simps [simp]:
  "sense (goto h p st) = sense st" "count (goto h p st) = count st" "threadsense (goto h p st) = threadsense st"
  "at (goto h p st) = (at st)(h := p)"
  by (simp_all add: goto_def)

lemma placed_hart_simps [simp]:
  "placed_hart k e l Out \<longleftrightarrow> e = k \<and> l = k" "placed_hart k e l Arrive \<longleftrightarrow> e = Suc k \<and> l = k"
  "placed_hart k e l Reset \<longleftrightarrow> e = Suc k \<and> l = k" "placed_hart k e l Flip \<longleftrightarrow> e = Suc k \<and> l = k"
  "placed_hart k e l Wait \<longleftrightarrow> (e = k \<or> e = Suc k) \<and> e = Suc l"
  by (simp_all add: placed_hart_def)

lemma closing_simps [simp]: "\<not> closing Out" "\<not> closing Arrive" "\<not> closing Wait" "closing Reset" "closing Flip"
  by (simp_all add: closing_def)

lemma in_roundE:
  assumes "in_round n k entered left st"
  obtains "sense st = parity_flag k" "\<And>h. h < n \<Longrightarrow> threadsense st h = parity_flag (entered h)"
    "\<And>h. h < n \<Longrightarrow> placed_hart k (entered h) (left h) (at st h)"
    "count st = (if \<exists>h < n. at st h = Flip then 0 else of_nat (card (arrived n k entered (at st))))"
    "card (arrived n k entered (at st)) = n \<longleftrightarrow> (\<exists>h < n. closing (at st h))"
    "\<And>h h'. h < n \<Longrightarrow> h' < n \<Longrightarrow> closing (at st h) \<Longrightarrow> closing (at st h') \<Longrightarrow> h = h'"
  using assms unfolding in_round_def by blast

text \<open>A step that leaves the closing harts and the arrived ones alone\<close>

lemma in_round_keep:
  assumes "in_round n k entered left st" "h < n" "sense st' = sense st" "count st' = count st" "at st' = (at st)(h := p)"
    and "\<not> closing p" "\<not> closing (at st h)" "h \<in> arrived n k entered' (at st') \<longleftrightarrow> h \<in> arrived n k entered (at st)"
    and "\<And>h'. h' \<noteq> h \<Longrightarrow> entered' h' = entered h' \<and> left' h' = left h' \<and> threadsense st' h' = threadsense st h'"
    and "threadsense st' h = parity_flag (entered' h)" "placed_hart k (entered' h) (left' h) p"
  shows "in_round n k entered' left' st'"
proof -
  have c: "(\<exists>h < n. closing (at st' h)) \<longleftrightarrow> (\<exists>h < n. closing (at st h))" "\<And>h'. closing (at st' h') \<longleftrightarrow> closing (at st h')"
    using assms(5-7) by auto
  have "at st' h' = Flip \<longleftrightarrow> at st h' = Flip" for h' using assms(5-7) by (auto simp: closing_def)
  moreover have "arrived n k entered' (at st') = arrived n k entered (at st)"
  proof (rule set_eqI)
    fix h' show "h' \<in> arrived n k entered' (at st') \<longleftrightarrow> h' \<in> arrived n k entered (at st)"
      using assms(8) assms(9)[of h'] assms(5) by (cases "h' = h") (auto simp: arrived_def)
  qed
  ultimately show ?thesis
    using assms(1) assms(9-11) unfolding in_round_def c assms(3,4)
    by (simp add: assms(5)) metis
qed

lemma step_out:
  assumes "in_round n k entered left st" "h < n" "at st h = Out"
  shows "in_round n k (entered(h := entered h + 1)) left (barrier_step n h st)"
proof -
  have e: "entered h = k" "left h = k" "threadsense st h = parity_flag k"
    using assms by (auto elim!: in_roundE dest!: spec[of _ h])
  show ?thesis
    by (rule in_round_keep[OF assms(1,2), where p = Arrive])
      (use assms(3) e in \<open>auto simp: barrier_step_def arrived_def parity_flag_Suc\<close>)
qed

lemma step_wait:
  assumes "in_round n k entered left st" "h < n" "at st h = Wait"
  shows "in_round n k entered (count_leave h st (barrier_step n h st) left) (barrier_step n h st)"
    "at (barrier_step n h st) h = Out \<longleftrightarrow> entered h = k"
proof -
  have s: "sense st = parity_flag k" "threadsense st h = parity_flag (entered h)" "placed_hart k (entered h) (left h) Wait"
    using assms by (auto elim!: in_roundE dest!: spec[of _ h])
  have q: "sense st = threadsense st h \<longleftrightarrow> entered h = k" using s parity_flag_neq by (metis placed_hart_simps(5))
  show a: "at (barrier_step n h st) h = Out \<longleftrightarrow> entered h = k" using assms(3) q by (simp add: barrier_step_def)
  show "in_round n k entered (count_leave h st (barrier_step n h st) left) (barrier_step n h st)"
  proof (cases "entered h = k")
    case True
    show ?thesis
      by (rule in_round_keep[OF assms(1,2), where p = Out])
        (use True q assms(3) s in \<open>auto simp: barrier_step_def arrived_def count_leave_def\<close>)
  next
    case False
    then have "barrier_step n h st = st" using assms(3) q by (simp add: barrier_step_def)
    then show ?thesis using assms(1,3) by (simp add: count_leave_def)
  qed
qed

lemma step_reset:
  assumes "in_round n k entered left st" "h < n" "at st h = Reset"
  shows "in_round n k entered left (barrier_step n h st)"
proof -
  let ?st = "barrier_step n h st"
  have st: "sense ?st = sense st" "count ?st = 0" "threadsense ?st = threadsense st" "at ?st = (at st)(h := Flip)"
    using assms(3) by (simp_all add: barrier_step_def)
  have "arrived n k entered (at ?st) = arrived n k entered (at st)" using assms(3) by (auto simp: st arrived_def)
  moreover have "closing (at ?st h') \<longleftrightarrow> closing (at st h')" for h' using assms(3) by (simp add: st)
  moreover have "\<exists>h < n. at ?st h = Flip" using assms(2) by (auto simp: st)
  ultimately show ?thesis
    using assms unfolding in_round_def by (auto simp: st)
qed

lemma step_flip:
  assumes "in_round n k entered left st" "h < n" "at st h = Flip"
  shows "in_round n (Suc k) entered (left(h := left h + 1)) (barrier_step n h st)"
proof -
  let ?st = "barrier_step n h st"
  have st: "sense ?st = threadsense st h" "count ?st = count st" "threadsense ?st = threadsense st" "at ?st = (at st)(h := Out)"
    using assms(3) by (simp_all add: barrier_step_def)
  from assms(1) have p: "\<And>h. h < n \<Longrightarrow> threadsense st h = parity_flag (entered h)"
      "\<And>h. h < n \<Longrightarrow> placed_hart k (entered h) (left h) (at st h)"
    and c: "count st = 0" and f: "card (arrived n k entered (at st)) = n"
    and u: "\<And>h'. h' < n \<Longrightarrow> closing (at st h') \<Longrightarrow> h' = h"
    using assms(2,3) by (auto elim!: in_roundE)
  have w: "entered h' = Suc k \<and> at st h' = Wait" if "h' < n" "h' \<noteq> h" for h'
    using arrived_full[OF f that(1)] p(2)[OF that(1)] u[OF that(1)] that(2) by (cases "at st h'") (auto simp: arrived_def)
  have h: "entered h = Suc k" "left h = k" using p(2)[OF assms(2)] assms(3) by simp_all
  have a: "arrived n (Suc k) entered (at ?st) = {}" using w h by (fastforce simp: arrived_def)
  have nc: "\<not> closing (at ?st h')" if "h' < n" for h' using w[OF that] by (simp add: st)
  have fl: "\<not> (\<exists>h < n. at ?st h = Flip)" using w by (auto simp: st)
  have n: "0 \<noteq> n" using assms(2) by simp
  show ?thesis
    unfolding in_round_def a
  proof (intro conjI allI impI)
    show "sense ?st = parity_flag (Suc k)" using p(1)[OF assms(2)] h by (simp add: st)
    show "count ?st = (if \<exists>h < n. at ?st h = Flip then 0 else of_nat (card ({} :: nat set)))" using c fl by (simp add: st)
    show "card ({} :: nat set) = n \<longleftrightarrow> (\<exists>h < n. closing (at ?st h))" using nc n by auto
    fix h' assume h': "h' < n"
    show "threadsense ?st h' = parity_flag (entered h')" using p(1)[OF h'] by (simp add: st)
    show "placed_hart (Suc k) (entered h') ((left(h := left h + 1)) h') (at ?st h')"
      using w[OF h'] h p(2)[OF h'] by (cases "h' = h") (auto simp: st)
    fix h'' assume "closing (at ?st h')" then show "h' = h''" using nc[OF h'] by simp
  qed
qed

lemma step_arrive:
  assumes "in_round n k entered left st" "h < n" "at st h = Arrive" "n < 2 ^ 31"
  shows "in_round n k entered left (barrier_step n h st)"
proof -
  let ?st = "barrier_step n h st" and ?A = "arrived n k entered (at st)"
  from assms(1) have s: "sense st = parity_flag k" and p: "\<And>h. h < n \<Longrightarrow> threadsense st h = parity_flag (entered h)"
      "\<And>h. h < n \<Longrightarrow> placed_hart k (entered h) (left h) (at st h)"
    and c: "count st = (if \<exists>h < n. at st h = Flip then 0 else of_nat (card ?A))"
    and f: "card ?A = n \<longleftrightarrow> (\<exists>h < n. closing (at st h))" by (auto elim!: in_roundE)
  have h: "entered h = Suc k" "left h = k" using p(2)[OF assms(2)] assms(3) by simp_all
  have nA: "h \<notin> ?A" using assms(3) by (simp add: arrived_def)
  then have l: "card ?A < n" using arrived_card[of n k entered "at st"] arrived_full[of n k entered "at st" h] assms(2) by fastforce
  then have nc: "\<not> closing (at st h')" if "h' < n" for h' using f that by auto
  have nf: "\<not> (\<exists>h < n. at st h = Flip)" using nc by (metis closing_simps(5))
  then have c': "count st = of_nat (card ?A)" by (subst c) (rule if_not_P)
  have last: "count st = of_nat n - 1 \<longleftrightarrow> Suc (card ?A) = n"
  proof -
    have "of_nat (Suc (card ?A)) = (of_nat n :: s32) \<longleftrightarrow> Suc (card ?A) = n"
      using l assms(4) unfolding word_of_nat_eq_iff by (simp add: take_bit_nat_eq_self del: of_nat_Suc)
    then show ?thesis by (auto simp: c' algebra_simps)
  qed
  let ?q = "if Suc (card ?A) = n then Reset else Wait"
  have st: "sense ?st = sense st" "count ?st = of_nat (Suc (card ?A))" "threadsense ?st = threadsense st" "at ?st = (at st)(h := ?q)"
    using assms(3) last by (simp_all add: barrier_step_def Let_def c')
  have A: "arrived n k entered (at ?st) = insert h ?A" using h assms(2) by (auto simp: st arrived_def)
  have cA: "card (insert h ?A) = Suc (card ?A)" using nA by simp
  show ?thesis
    unfolding in_round_def A cA
  proof (intro conjI allI impI)
    show "sense ?st = parity_flag k" by (simp add: st s)
    have "\<not> (\<exists>h < n. at ?st h = Flip)" using nf by (auto simp: st)
    then show "count ?st = (if \<exists>h < n. at ?st h = Flip then 0 else of_nat (Suc (card ?A)))" unfolding st(2)
      by (rule if_not_P[symmetric])
    show "Suc (card ?A) = n \<longleftrightarrow> (\<exists>h < n. closing (at ?st h))" using nc assms(2) by (auto simp: st)
    fix h' assume h': "h' < n"
    show "threadsense ?st h' = parity_flag (entered h')" using p(1)[OF h'] by (simp add: st)
    show "placed_hart k (entered h') (left h') (at ?st h')" using p(2)[OF h'] h by (auto simp: st)
    fix h'' assume "h'' < n" "closing (at ?st h')" "closing (at ?st h'')"
    then show "h' = h''" using nc h' by (auto simp: st split: if_splits)
  qed
qed

lemma in_round_init: "0 < n \<Longrightarrow> in_round n 0 (\<lambda>h. 0) (\<lambda>h. 0) barrier_init"
  by (simp add: in_round_def barrier_init_def parity_flag_def arrived_def)

lemma run_in_round:
  assumes "run n entered left st" "0 < n" "n < 2 ^ 31"
  shows "\<exists>k. in_round n k entered left st"
  using assms(1)
proof (induction rule: run.induct)
  case start then show ?case using in_round_init[OF assms(2)] by blast
next
  case (advance entered left st h st')
  obtain k where k: "in_round n k entered left st" using advance.IH by blast
  have st': "st' = barrier_step n h st" by fact
  show ?case
  proof (cases "at st h")
    case Out
    then have "at st' h = Arrive" by (simp add: st' barrier_step_def)
    then show ?thesis using step_out[OF k advance.hyps(2) Out] Out unfolding st'[symmetric]
      by (intro exI) (simp add: count_enter_def count_leave_def del: fun_upd_apply)
  next
    case Arrive
    then have "at st' h \<noteq> Out" by (auto simp: st' barrier_step_def Let_def)
    then show ?thesis using step_arrive[OF k advance.hyps(2) Arrive assms(3)] Arrive unfolding st'[symmetric]
      by (intro exI) (simp add: count_enter_def count_leave_def del: fun_upd_apply)
  next
    case Reset
    then have "at st' h = Flip" by (simp add: st' barrier_step_def)
    then show ?thesis using step_reset[OF k advance.hyps(2) Reset] Reset unfolding st'[symmetric]
      by (intro exI) (simp add: count_enter_def count_leave_def del: fun_upd_apply)
  next
    case Flip
    then have "at st' h = Out" by (simp add: st' barrier_step_def)
    then show ?thesis using step_flip[OF k advance.hyps(2) Flip] Flip unfolding st'[symmetric]
      by (intro exI) (simp add: count_enter_def count_leave_def del: fun_upd_apply)
  next
    case Wait
    then show ?thesis using step_wait(1)[OF k advance.hyps(2) Wait] unfolding st'[symmetric]
      by (intro exI) (simp add: count_enter_def del: fun_upd_apply)
  qed
qed

section \<open>The barrier\<close>

lemma in_round_counts:
  assumes "in_round n k entered left st" "h < n"
  shows "left h \<le> k \<and> k \<le> entered h \<and> entered h \<le> Suc (left h) \<and> (at st h = Out \<longleftrightarrow> entered h = left h)"
proof -
  have "placed_hart k (entered h) (left h) (at st h)" using assms by (auto elim!: in_roundE)
  then show ?thesis by (cases "at st h") auto
qed

text \<open>When every hart is inside, a step of one of them goes on.\<close>

lemma some_hart_goes_on:
  assumes "in_round n k entered left st" "0 < n" "\<forall>h < n. at st h \<noteq> Out"
  shows "\<exists>h < n. at (barrier_step n h st) h \<noteq> at st h"
proof (cases "\<exists>h < n. at st h \<noteq> Wait")
  case True
  then obtain h where h: "h < n" "at st h \<noteq> Wait" "at st h \<noteq> Out" using assms(3) by blast
  then have "at (barrier_step n h st) h \<noteq> at st h" by (cases "at st h") (auto simp: barrier_step_def Let_def)
  then show ?thesis using h(1) by blast
next
  case False
  have p: "\<And>h. h < n \<Longrightarrow> placed_hart k (entered h) (left h) Wait" and f: "card (arrived n k entered (at st)) \<noteq> n"
    using assms(1) False by (auto elim!: in_roundE)
  have "\<exists>h < n. entered h = k"
  proof (rule ccontr)
    assume "\<not> (\<exists>h < n. entered h = k)"
    then have "arrived n k entered (at st) = {..<n}" using p False by (auto simp: arrived_def)
    then show False using f by simp
  qed
  then obtain h where h: "h < n" "entered h = k" by blast
  then show ?thesis using step_wait(2)[OF assms(1) h(1)] False by (metis barrier_point.distinct(7))
qed

text \<open>
  C6. The barrier works for any number of harts below 2^31, in every interleaving and any number of
  times in a row: no hart leaves a barrier before every hart has entered it; once one hart has left
  it, every hart that waits leaves with its next step; and while all harts are inside, some step
  goes on, so that they never wait for each other for ever.
\<close>

theorem barrier_separates:
  assumes "run n entered left st" "0 < n" "n < 2 ^ 31"
  shows "(\<forall>h < n. \<forall>h' < n. left h \<le> entered h') \<and>
    (\<forall>h < n. \<forall>h' < n. at st h = Wait \<longrightarrow> entered h \<le> left h' \<longrightarrow> at (barrier_step n h st) h = Out) \<and>
    ((\<forall>h < n. at st h \<noteq> Out) \<longrightarrow> (\<exists>h < n. at (barrier_step n h st) h \<noteq> at st h))"
proof -
  obtain k where k: "in_round n k entered left st" using run_in_round[OF assms] by blast
  have "left h \<le> entered h'" if "h < n" "h' < n" for h h'
    using in_round_counts[OF k that(1)] in_round_counts[OF k that(2)] by linarith
  moreover have "at (barrier_step n h st) h = Out" if "h < n" "h' < n" "at st h = Wait" "entered h \<le> left h'" for h h'
  proof -
    have "entered h = k" using in_round_counts[OF k that(1)] in_round_counts[OF k that(2)] that(4) by linarith
    then show ?thesis using step_wait(2)[OF k that(1,3)] by simp
  qed
  ultimately show ?thesis using some_hart_goes_on[OF k assms(2)] by blast
qed

text \<open>The state after a list of steps, the last one first\<close>

fun history :: "nat \<Rightarrow> nat list \<Rightarrow> (nat \<Rightarrow> nat) \<times> (nat \<Rightarrow> nat) \<times> barrier_state" where
  "history n [] = (\<lambda>h. 0, \<lambda>h. 0, barrier_init)"
| "history n (h # hs) = (case history n hs of (entered, left, st) \<Rightarrow>
    let st' = barrier_step n h st in (count_enter h st entered, count_leave h st st' left, st'))"

lemma history_run: "\<forall>h \<in> set hs. h < n \<Longrightarrow> history n hs = (entered, left, st) \<Longrightarrow> run n entered left st"
  by (induction hs arbitrary: entered left st) (auto simp: Let_def intro: run.intros split: prod.splits)

theorem barrier_separates_witness:
  "\<exists>entered left st. history 2 [1, 1, 1, 0, 1, 0] = (entered, left, st) \<and> at st 0 = Wait \<and> entered 0 \<le> left 1 \<and>
    (\<forall>h < 2. \<forall>h' < 2. left h \<le> entered h') \<and> at (barrier_step 2 0 st) 0 = Out"
proof -
  obtain entered left st where h: "history 2 [1, 1, 1, 0, 1, 0] = (entered, left, st)" by (metis prod_cases3)
  have r: "run 2 entered left st" by (rule history_run[OF _ h]) simp
  have w: "at st 0 = Wait" "entered 0 \<le> left 1"
    using h by (auto simp: barrier_init_def barrier_step_def goto_def count_enter_def count_leave_def Let_def)
  have "(0 :: nat) < 2" "(2 :: nat) < 2 ^ 31" by simp_all
  note b = barrier_separates[OF r this]
  have "at (barrier_step 2 0 st) 0 = Out" by (rule b[THEN conjunct2, THEN conjunct1, rule_format, of 0 1]) (use w in simp_all)
  then show ?thesis using h w b by blast
qed

end
