(* ===== verification/Bench_Harts.thy ===== *)
theory Bench_Harts
  imports Bench_Barrier
begin

text \<open>
  Programs that all harts run together, like those of \<open>mt-vvadd.c\<close> and \<open>mt-matmul.c\<close>: accesses to a shared
  memory, calls of the barrier of \<open>util.h\<close>, tests and \<open>exit\<close>. The harts take turns in any order, one
  statement or one step of the barrier at a time; a statement can be one turn when no other hart writes
  what it reads or writes before the next barrier, which \<open>shared_out\<close> states. The interface \<open>phases\<close> lists what such a program has to
  keep between two barriers, and gives what every fair schedule then leads to.
\<close>

section \<open>Harts and their turns\<close>

text \<open>
  \<open>Work\<close> accesses the memory, \<open>Test f\<close> is \<open>if (res) exit(res)\<close> for \<open>res = f memory\<close>, \<open>Quit f\<close> is
  \<open>exit(f memory)\<close>. An access out of bounds gives \<open>None\<close>.
\<close>

datatype 'm instr =
    Work "'m \<Rightarrow> 'm option"
  | Barrier
  | Test "'m \<Rightarrow> nat option"
  | Quit "'m \<Rightarrow> nat option"

record 'm machine =
  bar :: barrier_state
  shared :: 'm
  todo :: "nat \<Rightarrow> 'm instr list"
  exited :: "nat option"

definition power_up :: "(nat \<Rightarrow> 'm instr list) \<Rightarrow> 'm \<Rightarrow> 'm machine" where
  "power_up prog m = \<lparr>bar = barrier_init, shared = m, todo = prog, exited = None\<rparr>"

text \<open>The first call of \<open>exit\<close> ends the run of the whole machine.\<close>

definition hart_turn :: "nat \<Rightarrow> nat \<Rightarrow> 'm machine \<Rightarrow> 'm machine option" where
  "hart_turn n h st =
    (if exited st \<noteq> None then Some st
     else if at (bar st) h \<noteq> Out then Some (st\<lparr>bar := barrier_step n h (bar st)\<rparr>)
     else case todo st h of
       [] \<Rightarrow> Some st
     | Work f # is \<Rightarrow> do { m \<leftarrow> f (shared st); Some (st\<lparr>shared := m, todo := (todo st)(h := is)\<rparr>) }
     | Barrier # is \<Rightarrow> Some (st\<lparr>bar := barrier_step n h (bar st), todo := (todo st)(h := is)\<rparr>)
     | Test f # is \<Rightarrow> do {
         r \<leftarrow> f (shared st);
         Some (if r \<noteq> 0 then st\<lparr>exited := Some r\<rparr> else st\<lparr>todo := (todo st)(h := is)\<rparr>) }
     | Quit f # is \<Rightarrow> do { r \<leftarrow> f (shared st); Some (st\<lparr>exited := Some r\<rparr>) })"

text \<open>The state after \<open>k\<close> turns of the schedule \<open>s\<close>\<close>

fun turns :: "nat \<Rightarrow> (nat \<Rightarrow> nat) \<Rightarrow> 'm machine \<Rightarrow> nat \<Rightarrow> 'm machine option" where
  "turns n s st 0 = Some st"
| "turns n s st (Suc k) = do { st' \<leftarrow> turns n s st k; hart_turn n (s k) st' }"

definition fair :: "nat \<Rightarrow> (nat \<Rightarrow> nat) \<Rightarrow> bool" where
  "fair n s \<longleftrightarrow> (\<forall>k. s k < n) \<and> (\<forall>h < n. \<forall>k. \<exists>k' \<ge> k. s k' = h)"

lemma fair_round_robin: "0 < n \<Longrightarrow> fair n (\<lambda>k. k mod n)"
  unfolding fair_def
proof (intro conjI allI impI)
  fix h k assume "0 < n" "h < n"
  then have "k \<le> h + k * n" "(h + k * n) mod n = h" by (simp_all add: trans_le_add2)
  then show "\<exists>k' \<ge> k. k' mod n = h" by blast
qed simp

section \<open>Every turn that changes something brings the end nearer\<close>

definition rank :: "barrier_point \<Rightarrow> nat" where
  "rank p = (case p of Out \<Rightarrow> 0 | Arrive \<Rightarrow> 3 | Reset \<Rightarrow> 2 | Flip \<Rightarrow> 1 | Wait \<Rightarrow> 1)"

definition to_go :: "nat \<Rightarrow> 'm machine \<Rightarrow> nat" where
  "to_go n st = (\<Sum>h < n. 4 * length (todo st h) + rank (at (bar st) h))"

lemma sum_upd_less:
  fixes f g :: "nat \<Rightarrow> nat"
  assumes "h < n" "f h < g h" "\<And>i. i \<noteq> h \<Longrightarrow> f i = g i"
  shows "(\<Sum>i < n. f i) < (\<Sum>i < n. g i)"
  by (rule sum_strict_mono_ex1) (use assms in \<open>auto intro: order.strict_implies_order, metis less_imp_le order_refl\<close>)

lemma barrier_step_at: "i \<noteq> h \<Longrightarrow> at (barrier_step n h b) i = at b i"
  by (auto simp: barrier_step_def Let_def split: barrier_point.splits)

lemma barrier_step_rank: "at b h \<noteq> Out \<Longrightarrow> barrier_step n h b = b \<or> rank (at (barrier_step n h b) h) < rank (at b h)"
  by (auto simp: barrier_step_def Let_def rank_def split: barrier_point.splits)

lemma to_go_less:
  assumes "h < n" "4 * length (todo st' h) + rank (at (bar st') h) < 4 * length (todo st h) + rank (at (bar st) h)"
    and "\<And>i. i \<noteq> h \<Longrightarrow> todo st' i = todo st i \<and> at (bar st') i = at (bar st) i"
  shows "to_go n st' < to_go n st"
  unfolding to_go_def by (rule sum_upd_less[OF assms(1)]) (simp_all add: assms(2,3))

lemma turn_brings_nearer:
  assumes "hart_turn n h st = Some st'" "h < n"
  shows "st' = st \<or> exited st' \<noteq> None \<or> to_go n st' < to_go n st"
proof (cases "exited st = None")
  case False
  then show ?thesis using assms(1) by (simp add: hart_turn_def)
next
  case None: True
  show ?thesis
  proof (cases "at (bar st) h = Out")
    case False
    then have st': "st' = st\<lparr>bar := barrier_step n h (bar st)\<rparr>" using assms(1) None by (simp add: hart_turn_def)
    show ?thesis
    proof (cases "barrier_step n h (bar st) = bar st")
      case True then show ?thesis by (simp add: st')
    next
      case changed: False
      have "to_go n st' < to_go n st"
        by (rule to_go_less[OF assms(2)])
          (use barrier_step_rank[OF False, of n] changed in \<open>simp_all add: st' barrier_step_at\<close>)
      then show ?thesis by blast
    qed
  next
    case Out: True
    have less: "to_go n st' < to_go n st"
      if "todo st h = x # is" "todo st' = (todo st)(h := is)" "rank (at (bar st') h) < 4" "\<And>i. i \<noteq> h \<Longrightarrow> at (bar st') i = at (bar st) i" for x "is"
      by (rule to_go_less[OF assms(2)]) (use that Out in \<open>auto simp: rank_def\<close>)
    show ?thesis
    proof (cases "todo st h")
      case Nil then show ?thesis using assms(1) None Out by (simp add: hart_turn_def)
    next
      case (Cons x "is")
      show ?thesis
      proof (cases x)
        case (Work f)
        then have "todo st' = (todo st)(h := is)" "bar st' = bar st" using assms(1) None Out Cons
          by (auto simp: hart_turn_def split: Option.bind_splits)
        then show ?thesis using less[OF Cons] Out by (simp add: rank_def)
      next
        case Barrier
        then have "todo st' = (todo st)(h := is)" "bar st' = barrier_step n h (bar st)" using assms(1) None Out Cons
          by (auto simp: hart_turn_def)
        moreover have "rank (at (barrier_step n h (bar st)) h) < 4" using Out by (simp add: barrier_step_def rank_def)
        ultimately show ?thesis using less[OF Cons] by (simp add: barrier_step_at)
      next
        case (Test f)
        show ?thesis
        proof (cases "exited st' = None")
          case True
          then have "todo st' = (todo st)(h := is)" "bar st' = bar st" using assms(1) None Out Cons Test
            by (auto simp: hart_turn_def split: Option.bind_splits if_splits)
          then show ?thesis using less[OF Cons] Out by (simp add: rank_def)
        qed simp
      next
        case (Quit f)
        then show ?thesis using assms(1) None Out Cons by (auto simp: hart_turn_def split: Option.bind_splits)
      qed
    qed
  qed
qed

section \<open>Programs in phases\<close>

text \<open>A statement goes well from a memory: it stays in bounds, and leads to the next assertion or to the right exit code.\<close>

definition goes_well :: "'m instr \<Rightarrow> 'm \<Rightarrow> ('m \<Rightarrow> bool) \<Rightarrow> (nat \<Rightarrow> bool) \<Rightarrow> bool" where
  "goes_well i m Q R \<longleftrightarrow> (case i of
     Work f \<Rightarrow> \<exists>m'. f m = Some m' \<and> Q m'
   | Barrier \<Rightarrow> False
   | Test f \<Rightarrow> \<exists>r. f m = Some r \<and> (if r = 0 then Q m else R r)
   | Quit f \<Rightarrow> \<exists>r. f m = Some r \<and> R r)"

lemma goes_well_simps [simp]:
  "goes_well (Work f) m Q R \<longleftrightarrow> (\<exists>m'. f m = Some m' \<and> Q m')" "\<not> goes_well Barrier m Q R"
  "goes_well (Test g) m Q R \<longleftrightarrow> (\<exists>r. g m = Some r \<and> (if r = 0 then Q m else R r))"
  "goes_well (Quit g) m Q R \<longleftrightarrow> (\<exists>r. g m = Some r \<and> R r)"
  by (simp_all add: goes_well_def)

text \<open>What the harts have still to do when the part \<open>ops p h\<close> of the phase \<open>p\<close> is done, and from its start on\<close>

definition later :: "nat \<Rightarrow> (nat \<Rightarrow> nat \<Rightarrow> 'm instr list) \<Rightarrow> nat \<Rightarrow> nat \<Rightarrow> 'm instr list" where
  "later P ops p h = concat (map (\<lambda>q. Barrier # ops q h) [Suc p..<P])"

definition from_phase :: "nat \<Rightarrow> (nat \<Rightarrow> nat \<Rightarrow> 'm instr list) \<Rightarrow> nat \<Rightarrow> nat \<Rightarrow> 'm instr list" where
  "from_phase P ops p h = ops p h @ later P ops p h"

lemma later_unfold: "later P ops p h = (if Suc p < P then Barrier # from_phase P ops (Suc p) h else [])"
  by (simp add: later_def from_phase_def upt_conv_Cons)

text \<open>
  The contract of such a program: \<open>asserted p c m\<close> holds in the phase \<open>p\<close> when the hart \<open>h\<close> has done \<open>c h\<close>
  of its statements; every statement of every hart keeps it, and a phase leads to the next one.
\<close>

locale phases =
  fixes n P :: nat and ops :: "nat \<Rightarrow> nat \<Rightarrow> 'm instr list" and asserted :: "nat \<Rightarrow> (nat \<Rightarrow> nat) \<Rightarrow> 'm \<Rightarrow> bool"
    and accepted :: "nat \<Rightarrow> bool"
  assumes some_phase: "0 < P"
    and statement: "p < P \<Longrightarrow> h < n \<Longrightarrow> asserted p c m \<Longrightarrow> c h < length (ops p h) \<Longrightarrow> (\<forall>h' < n. c h' \<le> length (ops p h')) \<Longrightarrow>
      goes_well (ops p h ! c h) m (asserted p (c(h := Suc (c h)))) accepted"
    and following: "Suc p < P \<Longrightarrow> asserted p c m \<Longrightarrow> (\<forall>h < n. c h = length (ops p h)) \<Longrightarrow> asserted (Suc p) (\<lambda>h. 0) m"
    and final: "asserted (P - 1) c m \<Longrightarrow> h < n \<Longrightarrow> c h < length (ops (P - 1) h)"
begin

text \<open>Where a hart is when the phase \<open>p\<close> is going on: in it, waiting at its end, or still leaving the barrier before it\<close>

definition hart_at :: "nat \<Rightarrow> (nat \<Rightarrow> nat) \<Rightarrow> (nat \<Rightarrow> nat) \<Rightarrow> 'm machine \<Rightarrow> nat \<Rightarrow> bool" where
  "hart_at p c entered st h \<longleftrightarrow>
    (if at (bar st) h = Out then
       entered h = p \<and> c h \<le> length (ops p h) \<and> todo st h = drop (c h) (ops p h) @ later P ops p h
     else todo st h = from_phase P ops (entered h) h \<and>
       (entered h = Suc p \<and> Suc p < P \<and> c h = length (ops p h) \<or> entered h = p \<and> c h = 0))"

definition in_phase :: "nat \<Rightarrow> (nat \<Rightarrow> nat) \<Rightarrow> 'm machine \<Rightarrow> bool" where
  "in_phase p c st \<longleftrightarrow> 0 < n \<and> n < 2 ^ 31 \<and> p < P \<and> asserted p c (shared st) \<and>
    (\<exists>entered left. run n entered left (bar st) \<and> (\<forall>h < n. hart_at p c entered st h))"

definition sound :: "'m machine \<Rightarrow> bool" where
  "sound st \<longleftrightarrow> (case exited st of None \<Rightarrow> \<exists>p c. in_phase p c st | Some r \<Rightarrow> accepted r)"

definition powered :: "'m \<Rightarrow> 'm machine" where
  "powered m = power_up (from_phase P ops 0) m"

lemma sound_powered:
  assumes "0 < n" "n < 2 ^ 31" "asserted 0 (\<lambda>h. 0) m"
  shows "sound (powered m)"
proof -
  have "hart_at 0 (\<lambda>h. 0) (\<lambda>h. 0) (powered m) h" for h
    by (simp add: hart_at_def powered_def power_up_def barrier_init_def from_phase_def)
  moreover have "run n (\<lambda>h. 0) (\<lambda>h. 0) (bar (powered m))" by (simp add: powered_def power_up_def run.start)
  ultimately have "in_phase 0 (\<lambda>h. 0) (powered m)" using some_phase assms
    unfolding in_phase_def by (auto simp: powered_def power_up_def)
  then show ?thesis by (auto simp: sound_def powered_def power_up_def)
qed

text \<open>A statement of the phase\<close>

lemma hart_at_done: "hart_at p c entered st h \<Longrightarrow> c h \<le> length (ops p h)"
  by (auto simp: hart_at_def split: if_splits)

lemma other_harts_at:
  assumes "hart_at p c entered st h'" "h' \<noteq> h" "todo st' h' = todo st h'" "at (bar st') h' = at (bar st) h'"
    and "c' h' = c h'" "entered' h' = entered h'"
  shows "hart_at p c' entered' st' h'"
  using assms by (simp add: hart_at_def)

lemma statement_turn:
  assumes "in_phase p c st" "h < n" "exited st = None" "at (bar st) h = Out" "c h < length (ops p h)"
  shows "\<exists>st'. hart_turn n h st = Some st' \<and> st' \<noteq> st \<and> sound st'"
proof -
  obtain entered left where r: "run n entered left (bar st)" "\<And>h. h < n \<Longrightarrow> hart_at p c entered st h"
    and p: "p < P" "asserted p c (shared st)" and n: "0 < n" "n < 2 ^ 31" using assms(1) unfolding in_phase_def by blast
  let ?x = "ops p h ! c h" and ?is = "drop (Suc (c h)) (ops p h) @ later P ops p h" and ?c = "c(h := Suc (c h))"
  have t: "todo st h = ?x # ?is" "entered h = p" using r(2)[OF assms(2)] assms(4,5)
    by (simp_all add: hart_at_def Cons_nth_drop_Suc[symmetric])
  have "\<forall>h' < n. c h' \<le> length (ops p h')" using hart_at_done[OF r(2)] by blast
  then have w: "goes_well ?x (shared st) (asserted p ?c) accepted" by (rule statement[OF p(1) assms(2) p(2) assms(5)])
  have goes: "sound st' \<and> st' \<noteq> st" if st': "st' = st\<lparr>shared := m, todo := (todo st)(h := ?is)\<rparr>" "asserted p ?c m" for m st'
  proof
    have "hart_at p ?c entered st' h'" if "h' < n" for h'
    proof (cases "h' = h")
      case True
      then show ?thesis using assms(4,5) t(2) by (simp add: hart_at_def st')
    next
      case False
      show ?thesis by (rule other_harts_at[OF r(2)[OF that] False]) (use False in \<open>simp_all add: st'\<close>)
    qed
    moreover have "run n entered left (bar st')" "shared st' = m" using r(1) by (simp_all add: st')
    ultimately have "in_phase p ?c st'" unfolding in_phase_def using n p(1) st'(2) by blast
    moreover have "exited st' = None" using assms(3) by (simp add: st')
    ultimately show "sound st'" by (auto simp: sound_def)
    have "todo st' h \<noteq> todo st h" using t by (simp add: st')
    then show "st' \<noteq> st" by blast
  qed
  have over: "sound st' \<and> st' \<noteq> st" if "st' = st\<lparr>exited := Some r\<rparr>" "accepted r" for r st'
    using that assms(3) by (auto simp: sound_def) (metis machine.select_convs(4) machine.surjective machine.update_convs(4) option.distinct(1))
  show ?thesis
  proof (cases ?x)
    case (Work f)
    then obtain m where m: "f (shared st) = Some m" "asserted p ?c m" using w by auto
    then have "hart_turn n h st = Some (st\<lparr>shared := m, todo := (todo st)(h := ?is)\<rparr>)"
      using assms(3,4) t Work by (simp add: hart_turn_def)
    then show ?thesis using goes[OF refl m(2)] by blast
  next
    case Barrier
    then show ?thesis using w by simp
  next
    case (Test f)
    then obtain r where r: "f (shared st) = Some r" "if r = 0 then asserted p ?c (shared st) else accepted r" using w by auto
    show ?thesis
    proof (cases "r = 0")
      case True
      have "hart_turn n h st = Some (st\<lparr>shared := shared st, todo := (todo st)(h := ?is)\<rparr>)"
        using assms(3,4) t Test r True by (simp add: hart_turn_def)
      moreover have "asserted p ?c (shared st)" using r(2) True by simp
      ultimately show ?thesis using goes[OF refl] by blast
    next
      case False
      then have "hart_turn n h st = Some (st\<lparr>exited := Some r\<rparr>)" using assms(3,4) t Test r by (simp add: hart_turn_def)
      moreover have "accepted r" using r(2) False by simp
      ultimately show ?thesis using over[OF refl] by blast
    qed
  next
    case (Quit f)
    then obtain r where r: "f (shared st) = Some r" "accepted r" using w by auto
    then have "hart_turn n h st = Some (st\<lparr>exited := Some r\<rparr>)" using assms(3,4) t Quit by (simp add: hart_turn_def)
    then show ?thesis using over[OF refl r(2)] by blast
  qed
qed

text \<open>A hart that has finished its part enters the barrier.\<close>

lemma entering_turn:
  assumes "in_phase p c st" "h < n" "exited st = None" "at (bar st) h = Out" "c h = length (ops p h)" "Suc p < P"
  shows "\<exists>st'. hart_turn n h st = Some st' \<and> st' \<noteq> st \<and> sound st'"
proof -
  obtain entered left where r: "run n entered left (bar st)" "\<And>h. h < n \<Longrightarrow> hart_at p c entered st h"
    and p: "p < P" "asserted p c (shared st)" and n: "0 < n" "n < 2 ^ 31" using assms(1) unfolding in_phase_def by blast
  let ?b = "barrier_step n h (bar st)" and ?is = "from_phase P ops (Suc p) h"
  let ?st = "st\<lparr>bar := ?b, todo := (todo st)(h := ?is)\<rparr>" and ?entered = "entered(h := Suc (entered h))"
  have t: "todo st h = Barrier # ?is" "entered h = p" using r(2)[OF assms(2)] assms(4-6)
    by (simp_all add: hart_at_def later_unfold)
  have e: "count_enter h (bar st) entered = ?entered" using assms(4) by (simp add: count_enter_def)
  have b: "at ?b h = Arrive" using assms(4) by (simp add: barrier_step_def)
  have "hart_at p c ?entered ?st h'" if "h' < n" for h'
  proof (cases "h' = h")
    case True
    then show ?thesis using t(2) assms(5,6) b by (simp add: hart_at_def)
  next
    case False
    show ?thesis by (rule other_harts_at[OF r(2)[OF that] False]) (use False in \<open>simp_all add: barrier_step_at\<close>)
  qed
  moreover have "run n ?entered (count_leave h (bar st) ?b left) (bar ?st)"
    using run.advance[OF r(1) assms(2) refl] unfolding e by simp
  ultimately have "in_phase p c ?st" unfolding in_phase_def using n p by auto
  then have "sound ?st" using assms(3) by (auto simp: sound_def)
  moreover have "hart_turn n h st = Some ?st" using assms(3,4) t(1) by (simp add: hart_turn_def)
  moreover have "?st \<noteq> st" using b assms(4) by (metis barrier_point.distinct(1) machine.select_convs(1) machine.surjective machine.update_convs(1,3))
  ultimately show ?thesis by blast
qed

lemma run_counts:
  assumes "run n entered left b" "0 < n" "n < 2 ^ 31"
  obtains k where "\<And>h. h < n \<Longrightarrow> left h \<le> k \<and> k \<le> entered h \<and> entered h \<le> Suc (left h) \<and> (at b h = Out \<longleftrightarrow> entered h = left h)"
  using run_in_round[OF assms] in_round_counts by blast

text \<open>A hart inside the barrier; the first one to leave it begins the next phase.\<close>

lemma inside_turn:
  assumes "in_phase p c st" "h < n" "exited st = None" "at (bar st) h \<noteq> Out"
  shows "\<exists>st'. hart_turn n h st = Some st' \<and> sound st'"
proof -
  obtain entered left where r: "run n entered left (bar st)" "\<And>h. h < n \<Longrightarrow> hart_at p c entered st h"
    and p: "p < P" "asserted p c (shared st)" and n: "0 < n" "n < 2 ^ 31" using assms(1) unfolding in_phase_def by blast
  let ?b = "barrier_step n h (bar st)"
  let ?st = "st\<lparr>bar := ?b\<rparr>" and ?left = "count_leave h (bar st) ?b left"
  have e: "count_enter h (bar st) entered = entered" using assms(4) by (simp add: count_enter_def)
  have run: "run n entered ?left ?b" using run.advance[OF r(1) assms(2) refl] unfolding e by simp
  have others: "hart_at p c entered ?st h'" if "h' < n" "h' \<noteq> h" for h'
    by (rule other_harts_at[OF r(2)[OF that(1)] that(2)]) (use that in \<open>simp_all add: barrier_step_at\<close>)
  have h: "todo st h = from_phase P ops (entered h) h" "entered h = Suc p \<and> Suc p < P \<and> c h = length (ops p h) \<or> entered h = p \<and> c h = 0"
    using r(2)[OF assms(2)] assms(4) by (simp_all add: hart_at_def)
  have stays: "in_phase p c ?st" if "hart_at p c entered ?st h"
    unfolding in_phase_def using n p run others that by (metis machine.select_convs(1,2) machine.surjective machine.update_convs(1))
  have "\<exists>p c. in_phase p c ?st"
  proof (cases "at ?b h = Out")
    case False
    then have "hart_at p c entered ?st h" using h by (simp add: hart_at_def)
    then show ?thesis using stays by blast
  next
    case Out: True
    from h(2) show ?thesis
    proof
      assume "entered h = p \<and> c h = 0"
      then have "hart_at p c entered ?st h" using h(1) Out by (simp add: hart_at_def from_phase_def)
      then show ?thesis using stays by blast
    next
      assume e: "entered h = Suc p \<and> Suc p < P \<and> c h = length (ops p h)"
      obtain k where k: "\<And>h. h < n \<Longrightarrow> ?left h \<le> k \<and> k \<le> entered h \<and> entered h \<le> Suc (?left h) \<and> (at ?b h = Out \<longleftrightarrow> entered h = ?left h)"
        by (rule run_counts[OF run n]) blast
      have all: "entered h' = Suc p \<and> c h' = length (ops p h') \<and> at (bar st) h' \<noteq> Out \<and> todo st h' = from_phase P ops (Suc p) h'" if "h' < n" for h'
      proof -
        have "Suc p \<le> entered h'" using k[OF assms(2)] k[OF that] e Out by linarith
        then show ?thesis using r(2)[OF that] by (auto simp: hart_at_def split: if_splits)
      qed
      have "hart_at (Suc p) (\<lambda>h. 0) entered ?st h'" if "h' < n" for h'
        using all[OF that] Out by (cases "h' = h") (simp_all add: hart_at_def from_phase_def barrier_step_at)
      moreover have "asserted (Suc p) (\<lambda>h. 0) (shared st)"
        by (rule following[OF _ p(2)]) (use e all in simp_all)
      ultimately have "in_phase (Suc p) (\<lambda>h. 0) ?st" unfolding in_phase_def using n e run by auto
      then show ?thesis by blast
    qed
  qed
  then have "sound ?st" using assms(3) by (simp add: sound_def)
  moreover have "hart_turn n h st = Some ?st" using assms(3,4) by (simp add: hart_turn_def)
  ultimately show ?thesis by blast
qed

text \<open>Outside the barrier every hart has something to do.\<close>

lemma outside_turn:
  assumes "in_phase p c st" "h < n" "exited st = None" "at (bar st) h = Out"
  shows "\<exists>st'. hart_turn n h st = Some st' \<and> st' \<noteq> st \<and> sound st'"
proof (cases "c h < length (ops p h)")
  case True
  then show ?thesis by (rule statement_turn[OF assms])
next
  case False
  have p: "p < P" "asserted p c (shared st)" "c h \<le> length (ops p h)"
    using assms(1,2) hart_at_done unfolding in_phase_def by blast+
  have "Suc p < P"
  proof (rule ccontr)
    assume "\<not> Suc p < P"
    then have "p = P - 1" using p(1) by linarith
    then show False using final[of c "shared st" h] p(2) assms(2) False by simp
  qed
  then show ?thesis using entering_turn[OF assms] False p(3) by simp
qed

lemma turn_sound:
  assumes "sound st" "h < n"
  shows "\<exists>st'. hart_turn n h st = Some st' \<and> sound st'"
proof (cases "exited st")
  case None
  then obtain p c where "in_phase p c st" using assms(1) by (auto simp: sound_def)
  then show ?thesis using inside_turn[OF _ assms(2) None] outside_turn[OF _ assms(2) None] by blast
next
  case (Some r)
  then show ?thesis using assms(1) by (simp add: hart_turn_def)
qed

lemma some_turn_changes:
  assumes "sound st" "exited st = None"
  shows "\<exists>h < n. \<exists>st'. hart_turn n h st = Some st' \<and> st' \<noteq> st"
proof -
  obtain p c where i: "in_phase p c st" using assms by (auto simp: sound_def)
  then obtain entered left where r: "run n entered left (bar st)" and n: "0 < n" "n < 2 ^ 31" unfolding in_phase_def by blast
  show ?thesis
  proof (cases "\<exists>h < n. at (bar st) h = Out")
    case True
    then show ?thesis using outside_turn[OF i _ assms(2)] by blast
  next
    case False
    then obtain h where h: "h < n" "at (barrier_step n h (bar st)) h \<noteq> at (bar st) h" "at (bar st) h \<noteq> Out"
      using run_in_round[OF r n] some_hart_goes_on n(1) by blast
    then have "hart_turn n h st = Some (st\<lparr>bar := barrier_step n h (bar st)\<rparr>)" using assms(2) by (simp add: hart_turn_def)
    moreover have "st\<lparr>bar := barrier_step n h (bar st)\<rparr> \<noteq> st" using h(2) by (metis machine.select_convs(1) machine.surjective machine.update_convs(1))
    ultimately show ?thesis using h(1) by blast
  qed
qed

lemma turns_sound:
  assumes "fair n s" "sound (powered m)"
  shows "\<exists>st. turns n s (powered m) k = Some st \<and> sound st"
proof (induction k)
  case 0 then show ?case using assms(2) by simp
next
  case (Suc k)
  then obtain st where "turns n s (powered m) k = Some st" "sound st" by blast
  moreover have "s k < n" using assms by (simp add: fair_def)
  ultimately show ?case using turn_sound by auto
qed

text \<open>As long as no hart has exited, a fair schedule comes to a turn that changes the state.\<close>

lemma some_turn_comes:
  assumes "fair n s" "sound (powered m)" "turns n s (powered m) k = Some st" "exited st = None"
  shows "\<exists>k' st'. turns n s (powered m) k' = Some st' \<and> (exited st' \<noteq> None \<or> to_go n st' < to_go n st)"
proof -
  have snd: "sound st" using turns_sound[OF assms(1,2), of k] assms(3) by simp
  obtain h st1 where h: "h < n" "hart_turn n h st = Some st1" "st1 \<noteq> st" using some_turn_changes[OF snd assms(4)] by blast
  obtain k1 where k1: "k \<le> k1" "s k1 = h" using assms(1) h(1) unfolding fair_def by blast
  have "(\<exists>k' st'. turns n s (powered m) k' = Some st' \<and> (exited st' \<noteq> None \<or> to_go n st' < to_go n st)) \<or> turns n s (powered m) (k + d) = Some st" for d
  proof (induction d)
    case 0 then show ?case using assms(3) by simp
  next
    case (Suc d)
    then show ?case
    proof
      assume t: "turns n s (powered m) (k + d) = Some st"
      have "s (k + d) < n" using assms(1) by (simp add: fair_def)
      then obtain st' where st': "hart_turn n (s (k + d)) st = Some st'" using turn_sound[OF snd] by blast
      then have "turns n s (powered m) (k + Suc d) = Some st'" using t by simp
      then show ?thesis using turn_brings_nearer[OF st' \<open>s (k + d) < n\<close>] by blast
    qed blast
  qed
  from this[of "k1 - k"] k1(1) have "(\<exists>k' st'. turns n s (powered m) k' = Some st' \<and> (exited st' \<noteq> None \<or> to_go n st' < to_go n st)) \<or> turns n s (powered m) k1 = Some st"
    by simp
  then show ?thesis
  proof
    assume "turns n s (powered m) k1 = Some st"
    then have "turns n s (powered m) (Suc k1) = Some st1" using h(2) k1(2) by simp
    then show ?thesis using turn_brings_nearer[OF h(2,1)] h(3) by blast
  qed
qed

text \<open>Every fair schedule makes the program exit, with a code that is right.\<close>

lemma fair_exits:
  assumes "fair n s" "0 < n" "n < 2 ^ 31" "asserted 0 (\<lambda>h. 0) m"
  shows "\<exists>k st r. turns n s (powered m) k = Some st \<and> exited st = Some r \<and> accepted r"
proof -
  note init = sound_powered[OF assms(2-4)]
  have "\<exists>k' st'. turns n s (powered m) k' = Some st' \<and> exited st' \<noteq> None" if "turns n s (powered m) k = Some st" for k st
    using that
  proof (induction "to_go n st" arbitrary: k st rule: less_induct)
    case less
    then show ?case using some_turn_comes[OF assms(1) init less.prems] by blast
  qed
  from this[of 0 "powered m"] obtain k st where k: "turns n s (powered m) k = Some st" "exited st \<noteq> None" by auto
  then have "sound st" using turns_sound[OF assms(1) init, of k] by simp
  moreover obtain r where "exited st = Some r" using k(2) by blast
  ultimately show ?thesis using k(1) by (auto simp: sound_def)
qed

text \<open>And every run of the schedule stays in bounds and exits with no other code.\<close>

lemma fair_in_bounds:
  assumes "fair n s" "0 < n" "n < 2 ^ 31" "asserted 0 (\<lambda>h. 0) m"
  shows "\<exists>st. turns n s (powered m) k = Some st \<and> (\<forall>r. exited st = Some r \<longrightarrow> accepted r)"
  using turns_sound[OF assms(1) sound_powered[OF assms(2-4)], of k] by (auto simp: sound_def)

end

section \<open>Elements written by the harts of a phase\<close>

definition done_cells :: "nat \<Rightarrow> (nat \<Rightarrow> nat list) \<Rightarrow> (nat \<Rightarrow> nat) \<Rightarrow> nat set" where
  "done_cells n f c = {f h ! t | h t. h < n \<and> t < c h}"

definition shared_out :: "nat \<Rightarrow> (nat \<Rightarrow> nat list) \<Rightarrow> bool" where
  "shared_out n f \<longleftrightarrow> (\<forall>h < n. distinct (f h)) \<and> (\<forall>h < n. \<forall>h' < n. h \<noteq> h' \<longrightarrow> set (f h) \<inter> set (f h') = {})"

lemma done_cells_none [simp]: "done_cells n f (\<lambda>h. 0) = {}"
  by (simp add: done_cells_def)

lemma done_cells_next: "h < n \<Longrightarrow> done_cells n f (c(h := Suc (c h))) = insert (f h ! c h) (done_cells n f c)"
  unfolding done_cells_def
proof (intro set_eqI iffI, goal_cases)
  case (1 x) then show ?case by (force simp: less_Suc_eq split: if_splits)
next
  case (2 x)
  then consider "x = f h ! c h" | h' t where "x = f h' ! t" "h' < n" "t < c h'" by blast
  then show ?case
  proof cases
    case 1 then show ?thesis using \<open>h < n\<close> by - (rule CollectI, rule exI[of _ h], rule exI[of _ "c h"], simp)
  next
    case 2 then show ?thesis by - (rule CollectI, rule exI[of _ h'], rule exI[of _ t], auto)
  qed
qed

lemma done_cells_all: "\<forall>h < n. c h = length (f h) \<Longrightarrow> done_cells n f c = (\<Union>h < n. set (f h))"
  by (fastforce simp: done_cells_def set_conv_nth)

lemma done_cells_fresh:
  assumes "shared_out n f" "h < n" "c h < length (f h)" "\<forall>h' < n. c h' \<le> length (f h')"
  shows "f h ! c h \<notin> done_cells n f c"
proof
  assume "f h ! c h \<in> done_cells n f c"
  then obtain h' t where h': "h' < n" "t < c h'" "f h ! c h = f h' ! t" by (auto simp: done_cells_def)
  then have t: "t < length (f h')" using assms(4) by fastforce
  show False
  proof (cases "h' = h")
    case True
    then show ?thesis using assms(1-3) h' t by (auto simp: shared_out_def nth_eq_iff_index_eq)
  next
    case False
    have "f h ! c h \<in> set (f h) \<inter> set (f h')" using nth_mem[OF assms(3)] nth_mem[OF t] h'(3) by simp
    then show ?thesis using assms(1,2) h'(1) False by (auto simp: shared_out_def)
  qed
qed

text \<open>The elements of \<open>D\<close> have their new contents \<open>g\<close>, the others the old ones.\<close>

definition half_done :: "(nat \<Rightarrow> 'a) \<Rightarrow> 'a list \<Rightarrow> nat set \<Rightarrow> 'a list \<Rightarrow> bool" where
  "half_done g old D m \<longleftrightarrow> length m = length old \<and> (\<forall>i < length old. m ! i = (if i \<in> D then g i else old ! i))"

lemma half_done_none: "half_done g old {} m \<longleftrightarrow> m = old"
  by (auto simp: half_done_def intro: nth_equalityI)

lemma half_done_next: "half_done g old D m \<Longrightarrow> i < length old \<Longrightarrow> half_done g old (insert i D) (m[i := g i])"
  by (auto simp: half_done_def nth_list_update)

lemma half_done_all: "half_done ((!) xs) old {0..<k} m \<Longrightarrow> length old = k \<Longrightarrow> length xs = k \<Longrightarrow> m = xs"
  by (auto simp: half_done_def intro: nth_equalityI)

end
