(* ===== verification/C_Loops.thy ===== *)
theory C_Loops
  imports Prelude
begin

text \<open>
  Counting loops over a state that may fail, and what they do to arrays: the rule for an
  invariant, the closed form of a loop that updates one array element per turn, and the nested
  loop over the rows and columns of a square matrix.
\<close>

section \<open>Counting loops\<close>

text \<open>
  \<open>for (i = lo; i < lo + n; i++) body\<close>; the loop fails when the body fails.
\<close>

fun for_up :: "nat \<Rightarrow> nat \<Rightarrow> (nat \<Rightarrow> 's \<Rightarrow> 's option) \<Rightarrow> 's \<Rightarrow> 's option" where
  "for_up 0 i body s = Some s"
| "for_up (Suc n) i body s = do { s' \<leftarrow> body i s; for_up n (i + 1) body s' }"

definition for_range :: "nat \<Rightarrow> nat \<Rightarrow> (nat \<Rightarrow> 's \<Rightarrow> 's option) \<Rightarrow> 's \<Rightarrow> 's option" where
  "for_range lo hi body s = for_up (hi - lo) lo body s"

lemma for_up_invariant:
  assumes "P lo s"
    and "\<And>i s. lo \<le> i \<Longrightarrow> i < lo + n \<Longrightarrow> P i s \<Longrightarrow> \<exists>s'. body i s = Some s' \<and> P (i + 1) s'"
  shows "\<exists>s'. for_up n lo body s = Some s' \<and> P (lo + n) s'"
  using assms
proof (induction n arbitrary: lo s)
  case 0 then show ?case by simp
next
  case (Suc n)
  obtain s1 where s1: "body lo s = Some s1" "P (lo + 1) s1" using Suc.prems by force
  have "\<exists>s'. for_up n (lo + 1) body s1 = Some s' \<and> P (lo + 1 + n) s'"
    by (rule Suc.IH[OF s1(2)]) (use Suc.prems(2) in auto)
  with s1(1) show ?case by simp
qed

lemma for_range_invariant:
  assumes "P lo s" and "lo \<le> hi"
    and "\<And>i s. lo \<le> i \<Longrightarrow> i < hi \<Longrightarrow> P i s \<Longrightarrow> \<exists>s'. body i s = Some s' \<and> P (i + 1) s'"
  shows "\<exists>s'. for_range lo hi body s = Some s' \<and> P hi s'"
  using for_up_invariant[of P lo s "hi - lo" body] assms by (simp add: for_range_def)

text \<open>A loop whose body never fails is a fold.\<close>

lemma for_up_fold: 
  assumes "\<And>i s. lo \<le> i \<Longrightarrow> i < lo + n \<Longrightarrow> body i s = Some (f i s)"
  shows "for_up n lo body s = Some (fold f [lo..<lo + n] s)"
  using assms
proof (induction n arbitrary: lo s)
  case 0 then show ?case by simp
next
  case (Suc n)
  have "[lo..<lo + Suc n] = lo # [Suc lo..<Suc lo + n]" by (simp add: upt_conv_Cons)
  with Suc.IH[of "lo + 1" "f lo s"] Suc.prems show ?case by simp
qed

lemma for_up_cong:
  assumes "\<And>i s. lo \<le> i \<Longrightarrow> i < lo + n \<Longrightarrow> body i s = body' i s"
  shows "for_up n lo body s = for_up n lo body' s"
  using assms by (induction n arbitrary: lo s) (auto split: Option.bind_split)

lemma for_up_add: "for_up (m + n) lo body s = do { s' \<leftarrow> for_up m lo body s; for_up n (lo + m) body s' }"
  by (induction m arbitrary: lo s) (auto split: Option.bind_split)

lemma for_up_shift: "for_up n (lo + d) body s = for_up n lo (\<lambda>i. body (i + d)) s"
proof (induction n arbitrary: lo s)
  case 0 then show ?case by simp
next
  case (Suc n)
  show ?case using Suc.IH[of "Suc lo"] by (auto split: Option.bind_split)
qed

text \<open>A loop that updates element \<open>i\<close> of an array in turn \<open>i\<close>.\<close>

lemma for_up_update:
  assumes "\<And>i xs. lo \<le> i \<Longrightarrow> i < lo + n \<Longrightarrow> length xs = L \<Longrightarrow> body i xs = Some (xs[i := g i (xs ! i)])"
    and "length xs = L"
  shows "\<exists>ys. for_up n lo body xs = Some ys \<and> length ys = L \<and>
    (\<forall>k < L. ys ! k = (if lo \<le> k \<and> k < lo + n then g k (xs ! k) else xs ! k))"
  using assms
proof (induction n arbitrary: lo xs)
  case 0 then show ?case by auto
next
  case (Suc n)
  let ?xs = "xs[lo := g lo (xs ! lo)]"
  have "\<exists>ys. for_up n (lo + 1) body ?xs = Some ys \<and> length ys = L \<and>
    (\<forall>k < L. ys ! k = (if lo + 1 \<le> k \<and> k < lo + 1 + n then g k (?xs ! k) else ?xs ! k))"
    by (rule Suc.IH) (use Suc.prems in auto)
  then obtain ys where ys: "for_up n (lo + 1) body ?xs = Some ys" "length ys = L"
    "\<forall>k < L. ys ! k = (if lo + 1 \<le> k \<and> k < lo + 1 + n then g k (?xs ! k) else ?xs ! k)"
    by blast
  have "for_up (Suc n) lo body xs = Some ys" using Suc.prems ys(1) by simp
  moreover have "\<forall>k < L. ys ! k = (if lo \<le> k \<and> k < lo + Suc n then g k (xs ! k) else xs ! k)"
    using ys(3) Suc.prems(2) by (auto simp: nth_list_update not_less_eq_eq dest: le_antisym)
  ultimately show ?case using ys(2) by blast
qed

lemma for_range_update:
  assumes "\<And>i xs. i < n \<Longrightarrow> length xs = length xs0 \<Longrightarrow> body i xs = Some (xs[i := g i (xs ! i)])"
    and "n \<le> length xs0"
  shows "for_range 0 n body xs0 = Some (map (\<lambda>k. g k (xs0 ! k)) [0..<n] @ drop n xs0)"
proof -
  have "\<exists>ys. for_up n 0 body xs0 = Some ys \<and> length ys = length xs0 \<and>
    (\<forall>k < length xs0. ys ! k = (if 0 \<le> k \<and> k < 0 + n then g k (xs0 ! k) else xs0 ! k))"
    by (rule for_up_update[OF _ refl]) (use assms(1) in simp)
  then obtain ys where ys: "for_up n 0 body xs0 = Some ys" "length ys = length xs0"
    "\<forall>k < length xs0. ys ! k = (if k < n then g k (xs0 ! k) else xs0 ! k)" by auto
  have "ys = map (\<lambda>k. g k (xs0 ! k)) [0..<n] @ drop n xs0"
    using ys(2,3) assms(2) by (intro nth_equalityI) (auto simp: nth_append)
  then show ?thesis using ys(1) by (simp add: for_range_def)
qed

section \<open>Loops over a square matrix\<close>

text \<open>The two nested loops over a matrix are one loop over its elements.\<close>

lemma for_up_flatten:
  assumes "\<And>i j s. i < m \<Longrightarrow> j < n \<Longrightarrow> body i j s = flat (i * n + j) s"
  shows "for_up m 0 (\<lambda>i. for_up n 0 (body i)) s = for_up (m * n) 0 flat s"
  using assms
proof (induction m arbitrary: s)
  case 0 then show ?case by simp
next
  case (Suc m)
  have row: "for_up n 0 (body m) s' = for_up n (m * n) flat s'" for s'
    using for_up_shift[of n 0 "m * n" flat] Suc.prems[of m]
    by (auto intro!: for_up_cong simp: add.commute)
  have "for_up (m + 1) 0 (\<lambda>i. for_up n 0 (body i)) s =
      do { s' \<leftarrow> for_up m 0 (\<lambda>i. for_up n 0 (body i)) s; for_up n 0 (body m) s' }"
    unfolding for_up_add by (auto split: Option.bind_split)
  also have "\<dots> = for_up (m * n + n) 0 flat s"
    using Suc by (simp add: for_up_add row)
  finally show ?case by (simp add: add.commute)
qed

lemma square_index_less: "i < n \<Longrightarrow> j < n \<Longrightarrow> i * n + j < n * (n :: nat)"
proof -
  assume "i < n" "j < n"
  then have "i * n + j < i * n + n" by simp
  also have "\<dots> = (i + 1) * n" by simp
  also have "\<dots> \<le> n * n" using \<open>i < n\<close> by (intro mult_le_mono1) simp
  finally show ?thesis .
qed

text \<open>
  The matrix of dimension \<open>n\<close> in the first \<open>n * n\<close> elements of an array, written element by
  element, with the rest of the array as it was.
\<close>

definition square :: "nat \<Rightarrow> (nat \<Rightarrow> nat \<Rightarrow> 'a) \<Rightarrow> 'a list \<Rightarrow> 'a list" where
  "square n g xs = map (\<lambda>k. g (k div n) (k mod n)) [0..<n * n] @ drop (n * n) xs"

lemma square_nth: "i < n \<Longrightarrow> j < n \<Longrightarrow> square n g xs ! (i * n + j) = g i j"
  using square_index_less[of i n j] by (simp add: square_def nth_append)

lemma square_length: "n * n \<le> length xs \<Longrightarrow> length (square n g xs) = length xs"
  by (simp add: square_def)

lemma square_drop: "drop (n * n) (square n g xs) = drop (n * n) xs"
  by (simp add: square_def)

lemma square_cong:
  assumes "\<And>i j. i < n \<Longrightarrow> j < n \<Longrightarrow> g i j = h i j" "drop (n * n) xs = drop (n * n) ys"
  shows "square n g xs = square n h ys"
proof -
  have "g (k div n) (k mod n) = h (k div n) (k mod n)" if "k < n * n" for k
    using that assms(1) by (cases n) (simp_all add: less_mult_imp_div_less)
  then show ?thesis using assms(2) by (simp add: square_def)
qed

lemma square_id: "n * n \<le> length xs \<Longrightarrow> square n (\<lambda>i j. xs ! (i * n + j)) xs = xs"
  by (rule nth_equalityI) (auto simp: square_def nth_append)

text \<open>A nested loop that updates every element of a square matrix once.\<close>

lemma for_square_update:
  assumes "\<And>i j xs. i < n \<Longrightarrow> j < n \<Longrightarrow> length xs = length xs0 \<Longrightarrow>
      body i j xs = Some (xs[i * n + j := g i j (xs ! (i * n + j))])"
    and "n * n \<le> length xs0"
  shows "for_range 0 n (\<lambda>i. for_range 0 n (body i)) xs0 =
    Some (square n (\<lambda>i j. g i j (xs0 ! (i * n + j))) xs0)"
proof -
  let ?flat = "\<lambda>k. body (k div n) (k mod n)"
  have eq: "for_range 0 n (\<lambda>i. for_range 0 n (body i)) xs0 = for_up (n * n) 0 ?flat xs0"
    unfolding for_range_def by (simp add: for_up_flatten[where flat = ?flat])
  have "\<exists>ys. for_up (n * n) 0 ?flat xs0 = Some ys \<and> length ys = length xs0 \<and> (\<forall>k < length xs0.
    ys ! k = (if 0 \<le> k \<and> k < 0 + n * n then g (k div n) (k mod n) (xs0 ! k) else xs0 ! k))"
  proof (rule for_up_update[OF _ refl])
    fix k and ys :: "'a list" assume k: "k < 0 + n * n" "length ys = length xs0"
    then have "0 < n" by (cases n) auto
    then have "k div n < n" "k mod n < n" using k(1) by (simp_all add: less_mult_imp_div_less)
    from assms(1)[OF this k(2)] show "?flat k ys = Some (ys[k := g (k div n) (k mod n) (ys ! k)])"
      by simp
  qed
  then obtain ys where ys: "for_up (n * n) 0 ?flat xs0 = Some ys" "length ys = length xs0"
    "\<forall>k < length xs0. ys ! k = (if k < n * n then g (k div n) (k mod n) (xs0 ! k) else xs0 ! k)"
    by auto
  have "ys = square n (\<lambda>i j. g i j (xs0 ! (i * n + j))) xs0"
    using ys(2,3) assms(2) by (intro nth_equalityI) (auto simp: square_def nth_append)
  then show ?thesis using eq ys(1) by simp
qed

section \<open>Accumulating into one element\<close>

text \<open>An inner loop that adds a term per turn to one element of the result.\<close>

lemma for_up_accumulate:
  fixes C :: "'a::comm_monoid_add list"
  assumes "\<And>k. lo \<le> k \<Longrightarrow> k < lo + n \<Longrightarrow> f k = Some (g k)" and "x < length C"
  shows "for_up n lo (\<lambda>k C. do { t \<leftarrow> f k; c \<leftarrow> rd C x; wr C x (c + t) }) C =
    Some (C[x := C ! x + (\<Sum>k = lo..<lo + n. g k)])"
  using assms
proof (induction n arbitrary: lo C)
  case 0 then show ?case by simp
next
  case (Suc n)
  have "for_up n (lo + 1) (\<lambda>k C. do { t \<leftarrow> f k; c \<leftarrow> rd C x; wr C x (c + t) }) (C[x := C ! x + g lo]) =
    Some (C[x := C ! x + g lo, x := C[x := C ! x + g lo] ! x + (\<Sum>k = lo + 1..<lo + 1 + n. g k)])"
    by (rule Suc.IH) (use Suc.prems in auto)
  moreover have "(\<Sum>k = lo..<Suc (lo + n). g k) = g lo + (\<Sum>k = Suc lo..<Suc (lo + n). g k)"
    by (rule sum.atLeast_Suc_lessThan) simp
  ultimately show ?case using Suc.prems by (simp add: add.assoc)
qed

lemma for_range_accumulate:
  fixes C :: "'a::comm_monoid_add list"
  assumes "\<And>k. k < n \<Longrightarrow> f k = Some (g k)" and "x < length C"
  shows "for_range 0 n (\<lambda>k C. do { t \<leftarrow> f k; c \<leftarrow> rd C x; wr C x (c + t) }) C =
    Some (C[x := C ! x + (\<Sum>k < n. g k)])"
  using for_up_accumulate[of 0 n f g x C] assms by (simp add: for_range_def lessThan_atLeast0)

end
