(* ===== verification/Bench_Qsort.thy ===== *)
theory Bench_Qsort
  imports C_Loops "HOL-Library.Multiset"
begin

text \<open>
  The quicksort benchmark: \<open>insertion_sort\<close>, \<open>selection_sort\<close> and \<open>sort\<close> of \<open>qsort_main.c\<close>, with its
  explicit stack of 50 pointers. A pointer into the array is an index.
\<close>

section \<open>Macros and pointer accesses\<close>

definition swap :: "s32 list \<Rightarrow> nat \<Rightarrow> nat \<Rightarrow> s32 list option" where
  "swap arr a b = do {
     temp \<leftarrow> rd arr a;
     y \<leftarrow> rd arr b;
     arr \<leftarrow> wr arr a y;
     wr arr b temp }"

definition swap_if_greater :: "s32 list \<Rightarrow> nat \<Rightarrow> nat \<Rightarrow> s32 list option" where
  "swap_if_greater arr a b = do {
     x \<leftarrow> rd arr a;
     y \<leftarrow> rd arr b;
     if sint x > sint y then swap arr a b else Some arr }"

text \<open>The element \<open>d\<close> places before a pointer; there is none before the array.\<close>

definition rd_back :: "'a list \<Rightarrow> nat \<Rightarrow> nat \<Rightarrow> 'a option" where
  "rd_back xs p d = (if d \<le> p then rd xs (p - d) else None)"

definition wr_back :: "'a list \<Rightarrow> nat \<Rightarrow> nat \<Rightarrow> 'a \<Rightarrow> 'a list option" where
  "wr_back xs p d v = (if d \<le> p then wr xs (p - d) v else None)"

section \<open>Insertion and selection sort\<close>

text \<open>The inner loop moves greater elements up; it ends before \<open>base\<close>, where the array starts.\<close>

fun shift_loop :: "nat \<Rightarrow> s32 \<Rightarrow> nat \<Rightarrow> s32 list \<Rightarrow> (nat \<times> s32 list) option" where
  "shift_loop base val 0 arr = None"
| "shift_loop base val (Suc j) arr = do {
     x \<leftarrow> rd arr j;
     if sint val < sint x then do {
       arr \<leftarrow> wr arr (Suc j) x;
       if j = base then Some (j, arr) else shift_loop base val j arr }
     else Some (Suc j, arr) }"

definition insert_step :: "nat \<Rightarrow> nat \<Rightarrow> s32 list \<Rightarrow> s32 list option" where
  "insert_step base i arr = do {
     val \<leftarrow> rd arr i;
     (j, arr) \<leftarrow> shift_loop base val i arr;
     wr arr j val }"

definition insertion_sort :: "nat \<Rightarrow> nat \<Rightarrow> s32 list \<Rightarrow> s32 list option" where
  "insertion_sort n base = for_range (base + 1) (base + n) (insert_step base)"

definition selection_sort :: "nat \<Rightarrow> s32 list \<Rightarrow> s32 list option" where
  "selection_sort n = for_range 0 (n - 1) (\<lambda>i. for_range (i + 1) n (\<lambda>j arr. swap_if_greater arr i j))"

section \<open>Quicksort\<close>

definition INSERTION_THRESHOLD :: nat where
  "INSERTION_THRESHOLD = 10"

definition NSTACK :: nat where
  "NSTACK = 50"

text \<open>\<open>while (*i++ < a);\<close> and \<open>while (*(j-- - 2) > a);\<close>\<close>

partial_function (option) scan_up :: "s32 list \<Rightarrow> s32 \<Rightarrow> nat \<Rightarrow> nat option" where
  "scan_up arr a i = do {
     x \<leftarrow> rd arr i;
     if sint x < sint a then scan_up arr a (i + 1) else Some (i + 1) }"

partial_function (option) scan_down :: "s32 list \<Rightarrow> s32 \<Rightarrow> nat \<Rightarrow> nat option" where
  "scan_down arr a j = do {
     x \<leftarrow> rd_back arr j 2;
     if sint x > sint a then scan_down arr a (j - 1) else Some (j - 1) }"

partial_function (option) partition_loop :: "s32 \<Rightarrow> nat \<Rightarrow> nat \<Rightarrow> s32 list \<Rightarrow> (nat \<times> nat \<times> s32 list) option" where
  "partition_loop a i j arr = do {
     i \<leftarrow> scan_up arr a i;
     j \<leftarrow> scan_down arr a j;
     if j < i then Some (i, j, arr)
     else do {
       arr \<leftarrow> swap arr (i - 1) (j - 1);
       partition_loop a i j arr } }"

text \<open>The median of three becomes the partitioning element; the two others bound the scans.\<close>

definition choose_median :: "nat \<Rightarrow> nat \<Rightarrow> s32 list \<Rightarrow> s32 list option" where
  "choose_median l ir arr = do {
     arr \<leftarrow> swap arr ((l + ir) div 2 - 1) l;
     arr \<leftarrow> swap_if_greater arr (l - 1) (ir - 1);
     arr \<leftarrow> swap_if_greater arr l (ir - 1);
     swap_if_greater arr (l - 1) l }"

definition partition_step :: "nat \<Rightarrow> nat \<Rightarrow> s32 list \<Rightarrow> (nat \<times> nat \<times> s32 list) option" where
  "partition_step l ir arr = do {
     arr \<leftarrow> choose_median l ir arr;
     a \<leftarrow> rd arr l;
     (i, j, arr) \<leftarrow> partition_loop a (l + 1) ir arr;
     x \<leftarrow> rd_back arr j 1;
     arr \<leftarrow> wr arr l x;
     arr \<leftarrow> wr_back arr j 1 a;
     Some (i, j, arr) }"

partial_function (option) quick_loop :: "nat \<Rightarrow> nat \<Rightarrow> nat list \<Rightarrow> nat \<Rightarrow> s32 list \<Rightarrow> s32 list option" where
  "quick_loop l ir stack stackp arr =
    (if int ir - int l < int INSERTION_THRESHOLD then do {
       arr \<leftarrow> insertion_sort (ir + 1 - l) (l - 1) arr;
       if stackp = 0 then Some arr
       else do {
         ir \<leftarrow> rd stack stackp;
         l \<leftarrow> rd_back stack stackp 1;
         quick_loop l ir stack (stackp - 2) arr } }
     else do {
       (i, j, arr) \<leftarrow> partition_step l ir arr;
       let stackp = stackp + 2;
       if int ir - int i + 1 \<ge> int j - int l then do {
         stack \<leftarrow> wr stack stackp ir;
         stack \<leftarrow> wr_back stack stackp 1 i;
         quick_loop l (j - 1) stack stackp arr }
       else do {
         stack \<leftarrow> wr stack stackp (j - 1);
         stack \<leftarrow> wr_back stack stackp 1 l;
         quick_loop i ir stack stackp arr } })"

text \<open>The stack is an uninitialised array.\<close>

definition quicksort :: "nat list \<Rightarrow> nat \<Rightarrow> s32 list \<Rightarrow> s32 list option" where
  "quicksort stack n arr = quick_loop 1 n stack 0 arr"

section \<open>Rearranging a part of an array\<close>

definition rearranged :: "nat \<Rightarrow> nat \<Rightarrow> 'a list \<Rightarrow> 'a list \<Rightarrow> bool" where
  "rearranged lo hi xs ys \<longleftrightarrow> length ys = length xs \<and> mset ys = mset xs \<and> (\<forall>k. k < lo \<or> hi \<le> k \<longrightarrow> ys ! k = xs ! k)"

definition ordered :: "nat \<Rightarrow> nat \<Rightarrow> s32 list \<Rightarrow> bool" where
  "ordered lo hi xs \<longleftrightarrow> (\<forall>i j. lo \<le> i \<longrightarrow> i < j \<longrightarrow> j < hi \<longrightarrow> sint (xs ! i) \<le> sint (xs ! j))"

lemma rearranged_refl [simp]: "rearranged lo hi xs xs"
  by (simp add: rearranged_def)

lemma rearranged_trans: "rearranged lo hi xs ys \<Longrightarrow> rearranged lo hi ys zs \<Longrightarrow> rearranged lo hi xs zs"
  by (simp add: rearranged_def)

lemma rearranged_mono: "rearranged lo hi xs ys \<Longrightarrow> lo' \<le> lo \<Longrightarrow> hi \<le> hi' \<Longrightarrow> rearranged lo' hi' xs ys"
  by (simp add: rearranged_def)

lemma rearranged_length: "rearranged lo hi xs ys \<Longrightarrow> length ys = length xs"
  by (simp add: rearranged_def)

lemma rearranged_outside: "rearranged lo hi xs ys \<Longrightarrow> k < lo \<or> hi \<le> k \<Longrightarrow> ys ! k = xs ! k"
  unfolding rearranged_def by blast

lemma rearranged_segment:
  assumes "rearranged lo hi xs ys" "lo \<le> hi" "hi \<le> length xs"
  shows "mset (take (hi - lo) (drop lo ys)) = mset (take (hi - lo) (drop lo xs))"
proof -
  have l: "length ys = length xs" and m: "mset ys = mset xs" and o: "\<And>k. k < lo \<or> hi \<le> k \<Longrightarrow> ys ! k = xs ! k"
    using assms(1) unfolding rearranged_def by blast+
  have "take lo ys = take lo xs" using l o assms(2,3) by (intro nth_equalityI) simp_all
  moreover have "drop hi ys = drop hi xs" using l o assms(3) by (intro nth_equalityI) simp_all
  moreover have "zs = take lo zs @ take (hi - lo) (drop lo zs) @ drop hi zs" for zs :: "'a list"
    using append_take_drop_id[of "hi - lo" "drop lo zs"] assms(2) by simp
  then have "mset zs = mset (take lo zs) + mset (take (hi - lo) (drop lo zs)) + mset (drop hi zs)" for zs :: "'a list"
    by (metis mset_append add.assoc)
  ultimately show ?thesis using m by (metis add_left_cancel add_right_cancel)
qed

lemma rearranged_ball:
  assumes "rearranged lo hi xs ys" "hi \<le> length xs" "\<And>k. lo \<le> k \<Longrightarrow> k < hi \<Longrightarrow> P (xs ! k)" "lo \<le> k" "k < hi"
  shows "P (ys ! k)"
proof -
  have l: "length ys = length xs" using assms(1) by (rule rearranged_length)
  have "ys ! k \<in> set (take (hi - lo) (drop lo ys))" using assms(2,4,5) l
    by (auto simp: in_set_conv_nth intro!: exI[of _ "k - lo"])
  then have "ys ! k \<in> set (take (hi - lo) (drop lo xs))"
    using mset_eq_setD[OF rearranged_segment[OF assms(1) _ assms(2)]] assms(4,5) by simp
  then obtain i where "i < hi - lo" "ys ! k = xs ! (lo + i)" using assms(2) by (auto simp: in_set_conv_nth)
  then show ?thesis using assms(3)[of "lo + i"] by simp
qed

lemma swap_rearranged:
  assumes "a < length xs" "b < length xs" "lo \<le> a" "lo \<le> b" "a < hi" "b < hi"
  shows "\<exists>ys. swap xs a b = Some ys \<and> rearranged lo hi xs ys \<and> ys = xs[a := xs ! b, b := xs ! a]"
proof -
  have "mset (xs[a := xs ! b, b := xs ! a]) = mset xs" by (rule mset_swap[OF assms(2,1)])
  then show ?thesis using assms by (simp add: swap_def rearranged_def nth_list_update)
qed

lemma swap_if_greater_rearranged:
  assumes "a < length xs" "b < length xs" "lo \<le> a" "lo \<le> b" "a < hi" "b < hi" "a \<noteq> b"
  shows "\<exists>ys. swap_if_greater xs a b = Some ys \<and> rearranged lo hi xs ys \<and> sint (ys ! a) = min (sint (xs ! a)) (sint (xs ! b)) \<and>
    sint (ys ! b) = max (sint (xs ! a)) (sint (xs ! b)) \<and> (\<forall>k. k \<noteq> a \<and> k \<noteq> b \<longrightarrow> ys ! k = xs ! k)"
  using swap_rearranged[of a xs b lo hi] assms by (auto simp: swap_if_greater_def)

section \<open>The small sorts\<close>

text \<open>While \<open>v\<close>, taken from \<open>i\<close>, is on its way down to the hole \<open>j\<close>\<close>

definition sinking :: "nat \<Rightarrow> nat \<Rightarrow> s32 list \<Rightarrow> s32 \<Rightarrow> nat \<Rightarrow> s32 list \<Rightarrow> bool" where
  "sinking base i arr0 v j arr \<longleftrightarrow> base \<le> j \<and> j \<le> i \<and> rearranged base (i + 1) arr0 (arr[j := v]) \<and>
    (\<forall>k m. base \<le> k \<longrightarrow> k < m \<longrightarrow> m \<le> i \<longrightarrow> k \<noteq> j \<longrightarrow> m \<noteq> j \<longrightarrow> sint (arr ! k) \<le> sint (arr ! m)) \<and>
    (\<forall>k. j < k \<longrightarrow> k \<le> i \<longrightarrow> sint v < sint (arr ! k))"

lemma sinking_step:
  assumes "sinking base i arr0 v (Suc j) arr" "base \<le> j" "i < length arr0" "sint v < sint (arr ! j)"
  shows "sinking base i arr0 v j (arr[Suc j := arr ! j])"
proof -
  have r: "rearranged base (i + 1) arr0 (arr[Suc j := v])" and b: "Suc j \<le> i" using assms(1) by (simp_all add: sinking_def)
  have l: "length arr = length arr0" using rearranged_length[OF r] by simp
  have "rearranged base (i + 1) (arr[Suc j := v]) (arr[Suc j := v, j := v, Suc j := arr ! j])"
    using swap_rearranged[of j "arr[Suc j := v]" "Suc j" base "i + 1"] l b assms(2,3) by auto
  moreover have "arr[Suc j := v, j := v, Suc j := arr ! j] = arr[Suc j := arr ! j, j := v]"
    by (simp add: list_update_swap)
  ultimately have "rearranged base (i + 1) arr0 (arr[Suc j := arr ! j, j := v])" using r rearranged_trans by metis
  then show ?thesis
    using assms l unfolding sinking_def by (auto simp: nth_list_update less_Suc_eq)
qed

lemma shift_loop_sinks:
  assumes "sinking base i arr0 v j arr" "base < j" "i < length arr0"
  shows "\<exists>j' arr'. shift_loop base v j arr = Some (j', arr') \<and> sinking base i arr0 v j' arr' \<and>
    (j' = base \<or> sint (arr' ! (j' - 1)) \<le> sint v)"
  using assms
proof (induction j arbitrary: arr)
  case 0 then show ?case by simp
next
  case (Suc j)
  have l: "length arr = length arr0" "Suc j \<le> i" using Suc.prems(1) by (auto simp: sinking_def dest: rearranged_length)
  show ?case
  proof (cases "sint v < sint (arr ! j)")
    case True
    let ?arr = "arr[Suc j := arr ! j]"
    have s: "sinking base i arr0 v j ?arr" by (rule sinking_step) (use Suc.prems True in simp_all)
    show ?thesis
    proof (cases "j = base")
      case jb: True
      then show ?thesis using s True l Suc.prems(3) by auto
    next
      case False
      then have "base < j" using Suc.prems(2) by simp
      from Suc.IH[OF s this Suc.prems(3)] show ?thesis using True False l Suc.prems(3) by simp
    qed
  next
    case False
    then show ?thesis using Suc.prems l by simp
  qed
qed

lemma insert_step_ordered:
  assumes "ordered base i arr" "base < i" "i < length arr"
  shows "\<exists>arr'. insert_step base i arr = Some arr' \<and> rearranged base (i + 1) arr arr' \<and> ordered base (i + 1) arr'"
proof -
  let ?v = "arr ! i"
  have "sinking base i arr ?v i arr" using assms by (auto simp: sinking_def ordered_def)
  from shift_loop_sinks[OF this assms(2,3)] obtain j arr' where s: "shift_loop base ?v i arr = Some (j, arr')"
    "sinking base i arr ?v j arr'" "j = base \<or> sint (arr' ! (j - 1)) \<le> sint ?v" by blast
  have r: "rearranged base (i + 1) arr (arr'[j := ?v])" and j: "base \<le> j" "j \<le> i"
    and o: "\<And>k m. base \<le> k \<Longrightarrow> k < m \<Longrightarrow> m \<le> i \<Longrightarrow> k \<noteq> j \<Longrightarrow> m \<noteq> j \<Longrightarrow> sint (arr' ! k) \<le> sint (arr' ! m)"
    and g: "\<And>k. j < k \<Longrightarrow> k \<le> i \<Longrightarrow> sint ?v < sint (arr' ! k)"
    using s(2) unfolding sinking_def by blast+
  have l: "length arr' = length arr" using rearranged_length[OF r] by simp
  have low: "sint (arr' ! k) \<le> sint ?v" if "base \<le> k" "k < j" for k
    using s(3) o[of k "j - 1"] that j by (cases "k = j - 1") force+
  have "ordered base (i + 1) (arr'[j := ?v])"
    unfolding ordered_def
  proof (intro allI impI)
    fix k m assume km: "base \<le> k" "k < m" "m < i + 1"
    show "sint (arr'[j := ?v] ! k) \<le> sint (arr'[j := ?v] ! m)"
      using km o[of k m] low[of k] g[of m] l assms(3) j by (simp add: nth_list_update order_less_imp_le)
  qed
  then show ?thesis using r s(1) j l assms(3) by (simp add: insert_step_def)
qed

lemma insertion_sort_ordered:
  assumes "base + n \<le> length arr"
  shows "\<exists>arr'. insertion_sort n base arr = Some arr' \<and> rearranged base (base + n) arr arr' \<and> ordered base (base + n) arr'"
proof (cases "n \<le> 1")
  case True
  then have "insertion_sort n base arr = Some arr" by (auto simp: insertion_sort_def for_range_def le_Suc_eq)
  then show ?thesis using True by (auto simp: ordered_def)
next
  case False
  let ?P = "\<lambda>i arr'. rearranged base i arr arr' \<and> ordered base i arr'"
  have "\<exists>arr'. for_range (base + 1) (base + n) (insert_step base) arr = Some arr' \<and> ?P (base + n) arr'"
  proof (rule for_range_invariant)
    show "?P (base + 1) arr" by (simp add: ordered_def)
    fix i arr' assume i: "base + 1 \<le> i" "i < base + n" "?P i arr'"
    then have "length arr' = length arr" by (auto dest: rearranged_length)
    then obtain arr'' where "insert_step base i arr' = Some arr''" "rearranged base (i + 1) arr' arr''" "ordered base (i + 1) arr''"
      using insert_step_ordered[of base i arr'] i assms by auto
    moreover have "rearranged base (i + 1) arr arr'" using i(3) by (auto intro: rearranged_mono)
    ultimately show "\<exists>arr''. insert_step base i arr' = Some arr'' \<and> ?P (i + 1) arr''" using rearranged_trans by blast
  qed (use False in simp)
  then show ?thesis by (simp add: insertion_sort_def)
qed

text \<open>After turn \<open>i\<close> of the outer loop the first \<open>i\<close> elements are final.\<close>

lemma selection_inner:
  assumes "i < n" "n \<le> length arr"
  shows "\<exists>arr'. for_range (i + 1) n (\<lambda>j arr. swap_if_greater arr i j) arr = Some arr' \<and> rearranged i n arr arr' \<and>
    (\<forall>m. i < m \<longrightarrow> m < n \<longrightarrow> sint (arr' ! i) \<le> sint (arr' ! m))"
proof -
  let ?P = "\<lambda>j arr'. rearranged i n arr arr' \<and> (\<forall>m. i < m \<longrightarrow> m < j \<longrightarrow> sint (arr' ! i) \<le> sint (arr' ! m))"
  have "\<exists>arr'. for_range (i + 1) n (\<lambda>j arr. swap_if_greater arr i j) arr = Some arr' \<and> ?P n arr'"
  proof (rule for_range_invariant[where P = ?P])
    fix j arr' assume j: "i + 1 \<le> j" "j < n" "?P j arr'"
    then have l: "length arr' = length arr" by (auto dest: rearranged_length)
    obtain ys where ys: "swap_if_greater arr' i j = Some ys" "rearranged i n arr' ys"
      "sint (ys ! i) = min (sint (arr' ! i)) (sint (arr' ! j))" "sint (ys ! j) = max (sint (arr' ! i)) (sint (arr' ! j))"
      "\<forall>k. k \<noteq> i \<and> k \<noteq> j \<longrightarrow> ys ! k = arr' ! k"
      using swap_if_greater_rearranged[of i arr' j i n] j assms l by auto
    have "sint (ys ! i) \<le> sint (ys ! m)" if "i < m" "m < j + 1" for m
    proof (cases "m = j")
      case False
      then have "sint (arr' ! i) \<le> sint (arr' ! m)" using j(3) that by simp
      then show ?thesis using ys(3,5) that False by simp
    qed (simp add: ys(3,4))
    then show "\<exists>ys. swap_if_greater arr' i j = Some ys \<and> ?P (j + 1) ys"
      using ys(1,2) j(3) rearranged_trans by blast
  qed (use assms in simp_all)
  then show ?thesis .
qed

lemma selection_sort_ordered:
  assumes "n \<le> length arr"
  shows "\<exists>arr'. selection_sort n arr = Some arr' \<and> rearranged 0 n arr arr' \<and> ordered 0 n arr'"
proof -
  let ?P = "\<lambda>i arr'. rearranged 0 n arr arr' \<and> (\<forall>k m. k < i \<longrightarrow> k < m \<longrightarrow> m < n \<longrightarrow> sint (arr' ! k) \<le> sint (arr' ! m))"
  have "\<exists>arr'. for_range 0 (n - 1) (\<lambda>i. for_range (i + 1) n (\<lambda>j arr. swap_if_greater arr i j)) arr = Some arr' \<and> ?P (n - 1) arr'"
  proof (rule for_range_invariant[where P = ?P])
    fix i arr' assume i: "0 \<le> i" "i < n - 1" "?P i arr'"
    then have l: "n \<le> length arr'" and n: "i < n" using assms by (auto dest: rearranged_length)
    obtain ys where ys: "for_range (i + 1) n (\<lambda>j arr. swap_if_greater arr i j) arr' = Some ys" "rearranged i n arr' ys"
      "\<And>m. i < m \<Longrightarrow> m < n \<Longrightarrow> sint (ys ! i) \<le> sint (ys ! m)"
      using selection_inner[OF _ l, of i] n by blast
    have "sint (ys ! k) \<le> sint (ys ! m)" if km: "k < i + 1" "k < m" "m < n" for k m
    proof (cases "k = i")
      case True then show ?thesis using ys(3) km by simp
    next
      case False
      then have k: "k < i" "ys ! k = arr' ! k" using km rearranged_outside[OF ys(2), of k] by simp_all
      show ?thesis
      proof (cases "m < i")
        case True then show ?thesis using i(3) k km rearranged_outside[OF ys(2), of m] by simp
      next
        case False
        have "sint (arr' ! k) \<le> sint (ys ! m)"
          by (rule rearranged_ball[OF ys(2) l]) (use i(3) k km False in auto)
        then show ?thesis using k(2) by simp
      qed
    qed
    moreover have "rearranged 0 n arr ys" using i(3) ys(2) by (blast intro: rearranged_trans rearranged_mono[of i n])
    ultimately show "\<exists>ys. for_range (i + 1) n (\<lambda>j arr. swap_if_greater arr i j) arr' = Some ys \<and> ?P (i + 1) ys"
      using ys(1) by blast
  qed simp_all
  then obtain arr' where "selection_sort n arr = Some arr'" "?P (n - 1) arr'" by (auto simp: selection_sort_def)
  then show ?thesis by (intro exI[of _ arr']) (auto simp: ordered_def)
qed

section \<open>Partitioning\<close>

lemma scan_up_finds:
  assumes "i \<le> k" "k < length arr" "sint a \<le> sint (arr ! k)"
  shows "\<exists>m. scan_up arr a i = Some (m + 1) \<and> i \<le> m \<and> m \<le> k \<and> sint a \<le> sint (arr ! m) \<and>
    (\<forall>q. i \<le> q \<longrightarrow> q < m \<longrightarrow> sint (arr ! q) < sint a)"
  using assms
proof (induction "k - i" arbitrary: i)
  case 0
  then have "i = k" by simp
  then show ?case using 0 by (subst scan_up.simps) auto
next
  case (Suc d)
  show ?case
  proof (cases "sint (arr ! i) < sint a")
    case True
    then have "i \<noteq> k" using Suc.prems by auto
    then have d: "d = k - (i + 1)" "i + 1 \<le> k" using Suc.hyps(2) Suc.prems(1) by simp_all
    obtain m where m: "scan_up arr a (i + 1) = Some (m + 1)" "i + 1 \<le> m" "m \<le> k" "sint a \<le> sint (arr ! m)"
      "\<forall>q. i + 1 \<le> q \<longrightarrow> q < m \<longrightarrow> sint (arr ! q) < sint a"
      using Suc.hyps(1)[OF d Suc.prems(2,3)] by blast
    have "sint (arr ! q) < sint a" if "i \<le> q" "q < m" for q using m(5) that True by (cases "q = i") auto
    then show ?thesis using m True Suc.prems by (subst scan_up.simps) auto
  next
    case False
    then show ?thesis using Suc.prems by (subst scan_up.simps) auto
  qed
qed

lemma scan_down_finds:
  assumes "k + 2 \<le> j" "j \<le> length arr + 1" "sint (arr ! k) \<le> sint a"
  shows "\<exists>m. scan_down arr a j = Some (m + 1) \<and> k \<le> m \<and> m + 2 \<le> j \<and> sint (arr ! m) \<le> sint a \<and>
    (\<forall>q. m < q \<longrightarrow> q + 2 \<le> j \<longrightarrow> sint a < sint (arr ! q))"
  using assms
proof (induction "j - (k + 2)" arbitrary: j)
  case 0
  then have "j = k + 2" by simp
  then show ?case using 0 by (subst scan_down.simps) (auto simp: rd_back_def)
next
  case (Suc d)
  have r: "rd_back arr j 2 = Some (arr ! (j - 2))" using Suc.prems by (simp add: rd_back_def)
  show ?case
  proof (cases "sint (arr ! (j - 2)) > sint a")
    case True
    have d: "d = (j - 1) - (k + 2)" "k + 2 \<le> j - 1" "j - 1 \<le> length arr + 1" using Suc.prems Suc.hyps(2) by simp_all
    obtain m where m: "scan_down arr a (j - 1) = Some (m + 1)" "k \<le> m" "m + 2 \<le> j - 1" "sint (arr ! m) \<le> sint a"
      "\<forall>q. m < q \<longrightarrow> q + 2 \<le> j - 1 \<longrightarrow> sint a < sint (arr ! q)"
      using Suc.hyps(1)[OF d Suc.prems(3)] by blast
    have "sint a < sint (arr ! q)" if "m < q" "q + 2 \<le> j" for q
      using m(5) that True by (cases "q = j - 2") auto
    then show ?thesis using m True r by (subst scan_down.simps) auto
  next
    case False
    then show ?thesis using Suc.prems r by (subst scan_down.simps) (auto intro!: exI[of _ "j - 2"])
  qed
qed

text \<open>At the head of the partition loop, between \<open>l\<close> and \<open>ir\<close> with the element \<open>a\<close>\<close>

definition parting :: "nat \<Rightarrow> nat \<Rightarrow> s32 \<Rightarrow> nat \<Rightarrow> nat \<Rightarrow> s32 list \<Rightarrow> bool" where
  "parting l ir a i j arr \<longleftrightarrow> l < i \<and> i < ir \<and> i \<le> j \<and> j \<le> ir \<and> l + 2 \<le> j \<and> ir \<le> length arr \<and> arr ! l = a \<and>
    (\<forall>k. l < k \<longrightarrow> k < i \<longrightarrow> sint (arr ! k) \<le> sint a) \<and> (\<forall>k. j \<le> k + 1 \<longrightarrow> k < ir \<longrightarrow> sint a \<le> sint (arr ! k))"

text \<open>Its result: what is below \<open>j\<close> is not above \<open>a\<close>, what is between \<open>j\<close> and \<open>i - 1\<close> is \<open>a\<close>, the rest is not below \<open>a\<close>.\<close>

definition parted :: "nat \<Rightarrow> nat \<Rightarrow> s32 \<Rightarrow> nat \<Rightarrow> nat \<Rightarrow> s32 list \<Rightarrow> bool" where
  "parted l ir a i j arr \<longleftrightarrow> l < j \<and> j < i \<and> i \<le> ir \<and>
    (\<forall>k. l < k \<longrightarrow> k < j \<longrightarrow> sint (arr ! k) \<le> sint a) \<and> (\<forall>k. j \<le> k \<longrightarrow> k + 1 < i \<longrightarrow> sint (arr ! k) = sint a) \<and>
    (\<forall>k. j \<le> k \<longrightarrow> k < ir \<longrightarrow> sint a \<le> sint (arr ! k))"

lemma partition_loop_parts:
  assumes "parting l ir a i j arr"
  shows "\<exists>i' j' arr'. partition_loop a i j arr = Some (i', j', arr') \<and> rearranged (l + 1) ir arr arr' \<and> parted l ir a i' j' arr'"
  using assms
proof (induction "ir - i" arbitrary: i j arr rule: less_induct)
  case less
  from less.prems have b: "l < i" "i < ir" "i \<le> j" "j \<le> ir" "l + 2 \<le> j" "ir \<le> length arr" "arr ! l = a"
    and lo: "\<And>k. l < k \<Longrightarrow> k < i \<Longrightarrow> sint (arr ! k) \<le> sint a"
    and hi: "\<And>k. j \<le> k + 1 \<Longrightarrow> k < ir \<Longrightarrow> sint a \<le> sint (arr ! k)" unfolding parting_def by blast+
  have s: "sint a \<le> sint (arr ! max i (j - 1))" by (rule hi) (use b in auto)
  have mx: "i \<le> max i (j - 1)" "max i (j - 1) < length arr" using b by auto
  obtain p where p: "scan_up arr a i = Some (p + 1)" "i \<le> p" "p \<le> max i (j - 1)" "sint a \<le> sint (arr ! p)"
    "\<And>q. i \<le> q \<Longrightarrow> q < p \<Longrightarrow> sint (arr ! q) < sint a"
    using scan_up_finds[OF _ _ s, of i] mx by blast
  obtain q where q: "scan_down arr a j = Some (q + 1)" "l \<le> q" "q + 2 \<le> j" "sint (arr ! q) \<le> sint a"
    "\<And>k. q < k \<Longrightarrow> k + 2 \<le> j \<Longrightarrow> sint a < sint (arr ! k)"
    using scan_down_finds[of l j arr a] b by auto
  have lo': "sint (arr ! k) \<le> sint a" if "l < k" "k < p" for k
    using lo[of k] p(5)[of k] that by (cases "k < i") auto
  have hi': "sint a \<le> sint (arr ! k)" if "q < k" "k < ir" for k
    using hi[of k] q(5)[of k] that by (cases "k + 2 \<le> j") auto
  show ?case
  proof (cases "q < p")
    case True
    then have "partition_loop a i j arr = Some (p + 1, q + 1, arr)" using p(1) q(1) by (subst partition_loop.simps) simp
    moreover have "parted l ir a (p + 1) (q + 1) arr"
      unfolding parted_def using b p(2,3) q(2,3) True lo' hi' by (auto intro: order_antisym)
    ultimately show ?thesis by auto
  next
    case False
    then have pq: "p \<le> q" "q < length arr" "p < length arr" using b q(3) by simp_all
    obtain ys where ys: "swap arr p q = Some ys" "rearranged (l + 1) ir arr ys" "ys = arr[p := arr ! q, q := arr ! p]"
      using swap_rearranged[of p arr q "l + 1" ir] pq b p(2) q(3) by auto
    have eq: "partition_loop a i j arr = partition_loop a (p + 1) (q + 1) ys"
      using p(1) q(1) ys(1) pq(1) by (subst partition_loop.simps) simp
    have "parting l ir a (p + 1) (q + 1) ys"
      unfolding parting_def
    proof (intro conjI allI impI)
      show "ys ! l = a" using b p(2) pq by (simp add: ys(3))
      fix k
      show "sint (ys ! k) \<le> sint a" if "l < k" "k < p + 1"
        using lo'[of k] that q(4) pq by (auto simp: ys(3) nth_list_update)
      show "sint a \<le> sint (ys ! k)" if "q + 1 \<le> k + 1" "k < ir"
        using hi'[of k] that p(4) pq by (auto simp: ys(3) nth_list_update)
    qed (use b p(2) q(3) pq in \<open>auto simp: ys(3)\<close>)
    moreover have "ir - (p + 1) < ir - i" using p(2) b by simp
    ultimately obtain i' j' arr' where r: "partition_loop a (p + 1) (q + 1) ys = Some (i', j', arr')"
      "rearranged (l + 1) ir ys arr'" "parted l ir a i' j' arr'" using less.hyps by blast
    then show ?thesis using eq rearranged_trans[OF ys(2) r(2)] by auto
  qed
qed

text \<open>The array around the elements equal to the partitioning element\<close>

definition split_at :: "nat \<Rightarrow> nat \<Rightarrow> nat \<Rightarrow> nat \<Rightarrow> int \<Rightarrow> s32 list \<Rightarrow> bool" where
  "split_at lo m1 m2 hi v arr \<longleftrightarrow> (\<forall>k. lo \<le> k \<longrightarrow> k < m1 \<longrightarrow> sint (arr ! k) \<le> v) \<and>
    (\<forall>k. m1 \<le> k \<longrightarrow> k < m2 \<longrightarrow> sint (arr ! k) = v) \<and> (\<forall>k. m2 \<le> k \<longrightarrow> k < hi \<longrightarrow> v \<le> sint (arr ! k))"

text \<open>What the choice of the partitioning element establishes\<close>

lemma three_sorted:
  "p = (r :: int) \<Longrightarrow> x = y \<Longrightarrow> r = min u v \<Longrightarrow> w = max u v \<Longrightarrow> s = min t w \<Longrightarrow> y = max t w \<Longrightarrow> m = min p s \<Longrightarrow> n = max p s \<Longrightarrow>
    m \<le> n \<and> n \<le> x"
  by (simp add: min_def max_def split: if_splits)

lemma choose_median_orders:
  assumes "1 \<le> l" "l + 10 \<le> ir" "ir \<le> length arr"
  shows "\<exists>arr'. choose_median l ir arr = Some arr' \<and> rearranged (l - 1) ir arr arr' \<and>
    sint (arr' ! (l - 1)) \<le> sint (arr' ! l) \<and> sint (arr' ! l) \<le> sint (arr' ! (ir - 1))"
proof -
  let ?n = "length arr"
  have n: "l - 1 < ?n" "ir - 1 < ?n" "l < ?n" "l - 1 \<le> l - 1" "l - 1 \<le> ir - 1" "l - 1 \<le> l" "l - 1 < ir" "ir - 1 < ir" "l < ir"
    "l - 1 \<noteq> ir - 1" "l \<noteq> ir - 1" "l - 1 \<noteq> l" using assms by linarith+
  have m: "(l + ir) div 2 - 1 < ?n" "l - 1 \<le> (l + ir) div 2 - 1" "(l + ir) div 2 - 1 < ir" using assms by linarith+
  obtain a1 where a1: "swap arr ((l + ir) div 2 - 1) l = Some a1" "rearranged (l - 1) ir arr a1"
    using swap_rearranged[OF m(1) n(3) m(2) n(6) m(3) n(9)] by (elim exE conjE)
  have l1: "length a1 = length arr" using a1(2) by (rule rearranged_length)
  obtain a2 where a2: "swap_if_greater a1 (l - 1) (ir - 1) = Some a2" "rearranged (l - 1) ir a1 a2"
    "sint (a2 ! (l - 1)) = min (sint (a1 ! (l - 1))) (sint (a1 ! (ir - 1)))"
    "sint (a2 ! (ir - 1)) = max (sint (a1 ! (l - 1))) (sint (a1 ! (ir - 1)))"
    using swap_if_greater_rearranged[of "l - 1" a1 "ir - 1" "l - 1" ir, unfolded l1, OF n(1,2,4,5,7,8,10)] by blast
  have l2: "length a2 = length arr" using rearranged_length[OF a2(2)] l1 by simp
  obtain a3 where a3: "swap_if_greater a2 l (ir - 1) = Some a3" "rearranged (l - 1) ir a2 a3"
    "sint (a3 ! l) = min (sint (a2 ! l)) (sint (a2 ! (ir - 1)))"
    "sint (a3 ! (ir - 1)) = max (sint (a2 ! l)) (sint (a2 ! (ir - 1)))"
    "\<forall>k. k \<noteq> l \<and> k \<noteq> ir - 1 \<longrightarrow> a3 ! k = a2 ! k"
    using swap_if_greater_rearranged[of l a2 "ir - 1" "l - 1" ir, unfolded l2, OF n(3,2,6,5,9,8,11)] by blast
  have l3: "length a3 = length arr" using rearranged_length[OF a3(2)] l2 by simp
  obtain a4 where a4: "swap_if_greater a3 (l - 1) l = Some a4" "rearranged (l - 1) ir a3 a4"
    "sint (a4 ! (l - 1)) = min (sint (a3 ! (l - 1))) (sint (a3 ! l))"
    "sint (a4 ! l) = max (sint (a3 ! (l - 1))) (sint (a3 ! l))"
    "\<forall>k. k \<noteq> l - 1 \<and> k \<noteq> l \<longrightarrow> a4 ! k = a3 ! k"
    using swap_if_greater_rearranged[of "l - 1" a3 l "l - 1" ir, unfolded l3, OF n(1,3,4,6,7,9,12)] by blast
  have "a3 ! (l - 1) = a2 ! (l - 1)" by (rule a3(5)[rule_format]) (use n in simp)
  moreover have "a4 ! (ir - 1) = a3 ! (ir - 1)" by (rule a4(5)[rule_format]) (use n in simp)
  ultimately have "sint (a4 ! (l - 1)) \<le> sint (a4 ! l) \<and> sint (a4 ! l) \<le> sint (a4 ! (ir - 1))"
    by (intro three_sorted[OF _ _ a2(3,4) a3(3,4) a4(3,4)]) (simp_all only:)
  moreover have "rearranged (l - 1) ir arr a4" by (rule rearranged_trans[OF rearranged_trans[OF rearranged_trans[OF a1(2) a2(2)] a3(2)] a4(2)])
  ultimately show ?thesis using a1(1) a2(1) a3(1) a4(1) by (simp add: choose_median_def)
qed

lemma partition_step_splits:
  assumes "1 \<le> l" "l + 10 \<le> ir" "ir \<le> length arr"
  shows "\<exists>i j arr' v. partition_step l ir arr = Some (i, j, arr') \<and> rearranged (l - 1) ir arr arr' \<and>
    l < j \<and> j < i \<and> i \<le> ir \<and> split_at (l - 1) (j - 1) (i - 1) ir v arr'"
proof -
  obtain b where b: "choose_median l ir arr = Some b" "rearranged (l - 1) ir arr b"
    "sint (b ! (l - 1)) \<le> sint (b ! l)" "sint (b ! l) \<le> sint (b ! (ir - 1))"
    using choose_median_orders[OF assms] by blast
  let ?a = "b ! l"
  have lb: "length b = length arr" using b(2) by (rule rearranged_length)
  have "k = ir - 1" if "ir \<le> k + 1" "k < ir" for k using that by simp
  then have "parting l ir ?a (l + 1) ir b"
    unfolding parting_def using assms lb b(4) by auto
  from partition_loop_parts[OF this] obtain i j c where c: "partition_loop ?a (l + 1) ir b = Some (i, j, c)"
    "rearranged (l + 1) ir b c" "parted l ir ?a i j c" by blast
  have p: "l < j" "j < i" "i \<le> ir" and lo: "\<And>k. l < k \<Longrightarrow> k < j \<Longrightarrow> sint (c ! k) \<le> sint ?a"
    and mid: "\<And>k. j \<le> k \<Longrightarrow> k + 1 < i \<Longrightarrow> sint (c ! k) = sint ?a"
    and hi: "\<And>k. j \<le> k \<Longrightarrow> k < ir \<Longrightarrow> sint ?a \<le> sint (c ! k)" using c(3) unfolding parted_def by blast+
  have lc: "length c = length arr" using rearranged_length[OF c(2)] lb by simp
  have cl: "c ! l = ?a" "c ! (l - 1) = b ! (l - 1)" by (rule rearranged_outside[OF c(2)], use assms(1) in linarith)+
  let ?d = "c[l := c ! (j - 1), j - 1 := ?a]"
  have d: "rearranged (l - 1) ir c ?d" using swap_rearranged[of l c "j - 1" "l - 1" ir] p assms lc cl by auto
  have "l < length b" "1 \<le> j" "j - 1 < length c" "l < length c" using p assms lb lc by linarith+
  then have "partition_step l ir arr = Some (i, j, ?d)"
    using b(1) c(1) by (simp add: partition_step_def rd_back_def wr_back_def)
  moreover have "rearranged (l - 1) ir arr ?d"
    by (rule rearranged_trans[OF rearranged_trans[OF b(2) rearranged_mono[OF c(2)]] d]) simp_all
  moreover have "split_at (l - 1) (j - 1) (i - 1) ir (sint ?a) ?d"
    unfolding split_at_def
  proof (intro conjI allI impI)
    fix k
    show "sint (?d ! k) \<le> sint ?a" if "l - 1 \<le> k" "k < j - 1"
    proof -
      consider "k = l - 1" "k \<noteq> l" | "k = l" | "l < k" using \<open>l - 1 \<le> k\<close> assms(1) by linarith
      then show ?thesis
      proof cases
        case 2
        then have "l < j - 1" using \<open>k < j - 1\<close> by simp
        then show ?thesis using lo[of "j - 1"] 2 p assms lc by simp
      qed (use lo[of k] that p assms lc cl b(3) in auto)
    qed
    show "sint (?d ! k) = sint ?a" if "j - 1 \<le> k" "k < i - 1"
      using mid[of k] that p assms lc by (cases "k = j - 1") auto
    show "sint ?a \<le> sint (?d ! k)" if "i - 1 \<le> k" "k < ir"
      using hi[of k] that p assms lc by simp
  qed
  ultimately show ?thesis using p by blast
qed

section \<open>The loop over the pending parts\<close>

lemma split_at_low: "split_at lo m1 m2 hi v xs \<Longrightarrow> rearranged lo m1 xs ys \<Longrightarrow> m1 \<le> length xs \<Longrightarrow> m1 \<le> m2 \<Longrightarrow> split_at lo m1 m2 hi v ys"
  using rearranged_ball[of lo m1 xs ys "\<lambda>x. sint x \<le> v"] rearranged_outside[of lo m1 xs ys]
  by (simp add: split_at_def)

lemma split_at_high: "split_at lo m1 m2 hi v xs \<Longrightarrow> rearranged m2 hi xs ys \<Longrightarrow> hi \<le> length xs \<Longrightarrow> m1 \<le> m2 \<Longrightarrow> split_at lo m1 m2 hi v ys"
  using rearranged_ball[of m2 hi xs ys "\<lambda>x. v \<le> sint x"] rearranged_outside[of m2 hi xs ys]
  by (simp add: split_at_def)

lemma ordered_cong: "ordered lo hi xs \<Longrightarrow> (\<And>k. lo \<le> k \<Longrightarrow> k < hi \<Longrightarrow> ys ! k = xs ! k) \<Longrightarrow> ordered lo hi ys"
  by (simp add: ordered_def)

lemma ordered_join:
  assumes "split_at lo m1 m2 hi v xs" "ordered lo m1 xs" "ordered m2 hi xs"
  shows "ordered lo hi xs"
  unfolding ordered_def
proof (intro allI impI)
  fix i j assume ij: "lo \<le> i" "i < j" "j < hi"
  have le: "sint (xs ! k) \<le> v" if "lo \<le> k" "k < m2" for k using assms(1) that by (cases "k < m1") (auto simp: split_at_def)
  have ge: "v \<le> sint (xs ! k)" if "m1 \<le> k" "k < hi" for k using assms(1) that by (cases "k < m2") (auto simp: split_at_def)
  consider "j < m1" | "m2 \<le> i" | "i < m2" "m1 \<le> j" by linarith
  then show "sint (xs ! i) \<le> sint (xs ! j)"
  proof cases
    case 3 then show ?thesis using le[of i] ge[of j] ij by simp
  qed (use assms(2,3) ij in \<open>auto simp: ordered_def\<close>)
qed

text \<open>What follows when a part is done: the end, or the part on top of the stack\<close>

definition sort_pop :: "nat list \<Rightarrow> nat \<Rightarrow> s32 list \<Rightarrow> s32 list option" where
  "sort_pop stack stackp arr = (if stackp = 0 then Some arr else do {
     ir \<leftarrow> rd stack stackp;
     l \<leftarrow> rd_back stack stackp 1;
     quick_loop l ir stack (stackp - 2) arr })"

lemma quick_loop_small:
  "int ir - int l < 10 \<Longrightarrow> insertion_sort (ir + 1 - l) (l - 1) arr = Some arr' \<Longrightarrow> quick_loop l ir stack stackp arr = sort_pop stack stackp arr'"
  by (subst quick_loop.simps) (simp add: INSERTION_THRESHOLD_def sort_pop_def)

text \<open>The two pushes write above the stack pointer.\<close>

lemma push_two:
  assumes "length stack = NSTACK" "stackp + 2 < NSTACK"
  shows "wr stack (stackp + 2) x = Some (stack[stackp + 2 := x])"
    "wr_back (stack[stackp + 2 := x]) (stackp + 2) 1 y = Some (stack[stackp + 2 := x, stackp + 1 := y])"
  using assms by (simp_all add: wr_back_def)

lemma pop_two:
  assumes "length stack = NSTACK" "stackp + 2 < NSTACK" "stack ! (stackp + 2) = x" "stack ! (stackp + 1) = y"
  shows "sort_pop stack (stackp + 2) arr = quick_loop y x stack stackp arr"
  using assms by (simp add: sort_pop_def rd_back_def)

definition room :: "nat \<Rightarrow> nat \<Rightarrow> bool" where
  "room s d \<longleftrightarrow> (s + 1) * 2 ^ d < 12 * 2 ^ 24"

lemma room_push: "room s d \<Longrightarrow> 11 \<le> s \<Longrightarrow> 2 * d + 2 < NSTACK"
proof (rule ccontr)
  assume r: "room s d" "11 \<le> s" and "\<not> 2 * d + 2 < NSTACK"
  then have "24 \<le> d" by (simp add: NSTACK_def)
  then have "(2 :: nat) ^ 24 \<le> 2 ^ d" by (rule power_increasing) simp
  then have "12 * (2 :: nat) ^ 24 \<le> (s + 1) * 2 ^ d" using r(2) by (intro mult_mono) simp_all
  then show False using r(1) by (simp add: room_def)
qed

lemma room_half: "room s d \<Longrightarrow> 2 * (s' + 1) \<le> s + 1 \<Longrightarrow> room s' (d + 1)"
proof -
  assume r: "room s d" "2 * (s' + 1) \<le> s + 1"
  have "(s' + 1) * 2 ^ (d + 1) = 2 * (s' + 1) * 2 ^ d" by simp
  also have "\<dots> \<le> (s + 1) * 2 ^ d" using r(2) by (rule mult_le_mono1)
  finally show ?thesis using r(1) by (simp add: room_def)
qed

lemma room_less: "room s d \<Longrightarrow> s' \<le> s \<Longrightarrow> room s' d"
  unfolding room_def by (meson add_le_mono1 le_less_trans mult_le_mono1)

text \<open>With \<open>d\<close> parts pending, the loop orders the part from \<open>l\<close> to \<open>ir\<close> and goes on with what is pending.\<close>

definition sorts_part :: "nat \<Rightarrow> nat \<Rightarrow> nat \<Rightarrow> bool" where
  "sorts_part l ir d \<longleftrightarrow> (\<forall>arr stack. ir \<le> length arr \<longrightarrow> length stack = NSTACK \<longrightarrow>
    (\<exists>arr' stack'. quick_loop l ir stack (2 * d) arr = sort_pop stack' (2 * d) arr' \<and>
      rearranged (l - 1) ir arr arr' \<and> ordered (l - 1) ir arr' \<and> length stack' = NSTACK \<and> (\<forall>k \<le> 2 * d. stack' ! k = stack ! k)))"

lemma sorts_partE:
  assumes "sorts_part l ir d" "ir \<le> length arr" "length stack = NSTACK"
  obtains arr' stack' where "quick_loop l ir stack (2 * d) arr = sort_pop stack' (2 * d) arr'" "rearranged (l - 1) ir arr arr'"
    "ordered (l - 1) ir arr'" "length stack' = NSTACK" "\<forall>k \<le> 2 * d. stack' ! k = stack ! k"
  using assms unfolding sorts_part_def by blast

text \<open>The part \<open>l1\<close>, \<open>ir1\<close> is run with the other one on the stack, which is popped afterwards.\<close>

lemma two_parts:
  assumes "sorts_part l1 ir1 (d + 1)" "sorts_part l2 ir2 d" "ir1 \<le> length arr" "ir2 \<le> length arr"
    and "length stack = NSTACK" "2 * d + 2 < NSTACK"
  shows "\<exists>brr crr stack'. quick_loop l1 ir1 (stack[2 * d + 2 := ir2, 2 * d + 1 := l2]) (2 * d + 2) arr = sort_pop stack' (2 * d) crr \<and>
    rearranged (l1 - 1) ir1 arr brr \<and> ordered (l1 - 1) ir1 brr \<and> rearranged (l2 - 1) ir2 brr crr \<and> ordered (l2 - 1) ir2 crr \<and>
    length stack' = NSTACK \<and> (\<forall>k \<le> 2 * d. stack' ! k = stack ! k)"
proof -
  let ?stk = "stack[2 * d + 2 := ir2, 2 * d + 1 := l2]"
  have "length ?stk = NSTACK" using assms(5) by simp
  then obtain brr stk1 where b: "quick_loop l1 ir1 ?stk (2 * (d + 1)) arr = sort_pop stk1 (2 * (d + 1)) brr"
    "rearranged (l1 - 1) ir1 arr brr" "ordered (l1 - 1) ir1 brr" "length stk1 = NSTACK" "\<forall>k \<le> 2 * (d + 1). stk1 ! k = ?stk ! k"
    by (rule sorts_partE[OF assms(1,3)])
  have top: "stk1 ! (2 * d + 2) = ir2" "stk1 ! (2 * d + 1) = l2" and low: "\<forall>k \<le> 2 * d. stk1 ! k = stack ! k"
    using b(5) assms(5,6) by simp_all
  have "ir2 \<le> length brr" using assms(4) rearranged_length[OF b(2)] by simp
  then obtain crr stk2 where c: "quick_loop l2 ir2 stk1 (2 * d) brr = sort_pop stk2 (2 * d) crr"
    "rearranged (l2 - 1) ir2 brr crr" "ordered (l2 - 1) ir2 crr" "length stk2 = NSTACK" "\<forall>k \<le> 2 * d. stk2 ! k = stk1 ! k"
    using b(4) by (rule sorts_partE[OF assms(2)])
  have "quick_loop l1 ir1 ?stk (2 * d + 2) arr = sort_pop stk2 (2 * d) crr"
    using b(1) pop_two[OF b(4) assms(6) top] c(1) by simp
  then show ?thesis using b(2,3) c(2-5) low by auto
qed

lemma low_then_high:
  assumes "split_at lo m1 m2 hi v xs" "lo \<le> m1" "m1 \<le> m2" "m2 \<le> hi" "hi \<le> length xs"
    and "rearranged lo m1 xs ys" "ordered lo m1 ys" "rearranged m2 hi ys zs" "ordered m2 hi zs"
  shows "rearranged lo hi xs zs \<and> ordered lo hi zs"
proof
  have l: "length ys = length xs" using assms(6) by (rule rearranged_length)
  have "rearranged lo hi xs ys" by (rule rearranged_mono[OF assms(6)]) (use assms(3,4) in simp_all)
  moreover have "rearranged lo hi ys zs" by (rule rearranged_mono[OF assms(8)]) (use assms(2,3) in simp_all)
  ultimately show "rearranged lo hi xs zs" by (rule rearranged_trans)
  have "split_at lo m1 m2 hi v ys" by (rule split_at_low[OF assms(1,6)]) (use assms(3-5) in simp_all)
  then have "split_at lo m1 m2 hi v zs" by (rule split_at_high[OF _ assms(8)]) (use assms(3,5) l in simp_all)
  moreover have "ordered lo m1 zs"
    by (rule ordered_cong[OF assms(7)]) (rule rearranged_outside[OF assms(8)], use assms(3) in simp)
  ultimately show "ordered lo hi zs" using assms(9) by (rule ordered_join)
qed

lemma high_then_low:
  assumes "split_at lo m1 m2 hi v xs" "lo \<le> m1" "m1 \<le> m2" "m2 \<le> hi" "hi \<le> length xs"
    and "rearranged m2 hi xs ys" "ordered m2 hi ys" "rearranged lo m1 ys zs" "ordered lo m1 zs"
  shows "rearranged lo hi xs zs \<and> ordered lo hi zs"
proof
  have l: "length ys = length xs" using assms(6) by (rule rearranged_length)
  have "rearranged lo hi xs ys" by (rule rearranged_mono[OF assms(6)]) (use assms(2,3) in simp_all)
  moreover have "rearranged lo hi ys zs" by (rule rearranged_mono[OF assms(8)]) (use assms(3,4) in simp_all)
  ultimately show "rearranged lo hi xs zs" by (rule rearranged_trans)
  have "split_at lo m1 m2 hi v ys" by (rule split_at_high[OF assms(1,6,5,3)])
  then have "split_at lo m1 m2 hi v zs" by (rule split_at_low[OF _ assms(8)]) (use assms(3-5) l in simp_all)
  moreover have "ordered m2 hi zs"
    by (rule ordered_cong[OF assms(7)]) (rule rearranged_outside[OF assms(8)], use assms(3) in simp)
  ultimately show "ordered lo hi zs" by (rule ordered_join[OF _ assms(9)])
qed

lemma small_part: "int ir - int l < 10 \<Longrightarrow> 1 \<le> l \<Longrightarrow> l \<le> ir + 1 \<Longrightarrow> sorts_part l ir d"
  unfolding sorts_part_def
proof (intro allI impI)
  fix arr :: "s32 list" and stack :: "nat list"
  assume s: "int ir - int l < 10" "1 \<le> l" "l \<le> ir + 1" and a: "ir \<le> length arr" "length stack = NSTACK"
  have n: "l - 1 + (ir + 1 - l) = ir" "l - 1 + (ir + 1 - l) \<le> length arr" using s a by linarith+
  obtain arr' where i: "insertion_sort (ir + 1 - l) (l - 1) arr = Some arr'" "rearranged (l - 1) ir arr arr'" "ordered (l - 1) ir arr'"
    using insertion_sort_ordered[OF n(2)] unfolding n(1) by blast
  show "\<exists>arr' stack'. quick_loop l ir stack (2 * d) arr = sort_pop stack' (2 * d) arr' \<and> rearranged (l - 1) ir arr arr' \<and>
    ordered (l - 1) ir arr' \<and> length stack' = NSTACK \<and> (\<forall>k \<le> 2 * d. stack' ! k = stack ! k)"
    by (rule exI[of _ arr'], rule exI[of _ stack]) (use i a quick_loop_small[OF s(1) i(1)] in simp)
qed

text \<open>The part that is run first is at most half of the elements.\<close>

lemma half_part:
  assumes "l < j" "j < i" "i \<le> ir"
  shows "(int j - int l \<le> int ir - int i + 1 \<longrightarrow> 2 * (j - 1 + 1 - l + 1) \<le> ir + 1 - l + 1) \<and>
    (\<not> int j - int l \<le> int ir - int i + 1 \<longrightarrow> 2 * (ir + 1 - i + 1) \<le> ir + 1 - l + 1)"
proof -
  obtain a b c where "j = Suc (l + a)" "i = Suc (j + b)" "ir = i + c"
    using assms by (auto simp: less_iff_Suc_add le_iff_add)
  then show ?thesis by simp
qed

lemma quick_loop_orders: "1 \<le> l \<Longrightarrow> l \<le> ir + 1 \<Longrightarrow> room (ir + 1 - l) d \<Longrightarrow> sorts_part l ir d"
proof (induction "ir + 1 - l" arbitrary: l ir d rule: less_induct)
  case less
  note b = less.prems
  show ?case
  proof (cases "int ir - int l < 10")
    case True then show ?thesis using b by (intro small_part)
  next
    case False
    then have big: "l + 10 \<le> ir" by linarith
    then have np: "2 * d + 2 < NSTACK" by (intro room_push[OF b(3)]) simp
    show ?thesis
      unfolding sorts_part_def
    proof (intro allI impI)
      fix arr :: "s32 list" and stack :: "nat list" assume a: "ir \<le> length arr" "length stack = NSTACK"
      obtain i j brr v where p: "partition_step l ir arr = Some (i, j, brr)" "rearranged (l - 1) ir arr brr"
        "l < j" "j < i" "i \<le> ir" "split_at (l - 1) (j - 1) (i - 1) ir v brr"
        using partition_step_splits[OF b(1) big a(1)] by blast
      have lb: "j - 1 \<le> length brr" "ir \<le> length brr" using rearranged_length[OF p(2)] a(1) p(3-5) by linarith+
      have m: "l - 1 \<le> j - 1" "j - 1 \<le> i - 1" "i - 1 \<le> ir" using p(3-5) by linarith+
      have n: "1 \<le> i" "l \<le> j - 1 + 1" "i \<le> ir + 1" "j - 1 + 1 - l < ir + 1 - l" "ir + 1 - i < ir + 1 - l"
        "j - 1 + 1 - l \<le> ir + 1 - l" "ir + 1 - i \<le> ir + 1 - l" using b(1) p(3-5) by linarith+
      note left = less.hyps[OF n(4) b(1) n(2)] and right = less.hyps[OF n(5) n(1) n(3)]
      note push = push_two[OF a(2) np]
      show "\<exists>arr' stack'. quick_loop l ir stack (2 * d) arr = sort_pop stack' (2 * d) arr' \<and> rearranged (l - 1) ir arr arr' \<and>
        ordered (l - 1) ir arr' \<and> length stack' = NSTACK \<and> (\<forall>k \<le> 2 * d. stack' ! k = stack ! k)"
      proof (cases "int ir - int i + 1 \<ge> int j - int l")
        case True
        then have "2 * (j - 1 + 1 - l + 1) \<le> ir + 1 - l + 1" by (rule half_part[OF p(3-5), THEN conjunct1, rule_format])
        then obtain crr drr stk where r: "quick_loop l (j - 1) (stack[2 * d + 2 := ir, 2 * d + 1 := i]) (2 * d + 2) brr = sort_pop stk (2 * d) drr"
          "rearranged (l - 1) (j - 1) brr crr" "ordered (l - 1) (j - 1) crr" "rearranged (i - 1) ir crr drr" "ordered (i - 1) ir drr"
          "length stk = NSTACK" "\<forall>k \<le> 2 * d. stk ! k = stack ! k"
          using two_parts[OF left[OF room_half[OF b(3)]] right[OF room_less[OF b(3) n(7)]] lb a(2) np] by blast
        have "quick_loop l ir stack (2 * d) arr = sort_pop stk (2 * d) drr"
          using False True p(1) push r(1) by (subst quick_loop.simps) (simp add: INSERTION_THRESHOLD_def Let_def)
        then show ?thesis
          using low_then_high[OF p(6) m lb(2) r(2-5)] rearranged_trans[OF p(2)] r(6,7) by blast
      next
        case less_right: False
        then have "2 * (ir + 1 - i + 1) \<le> ir + 1 - l + 1" by (rule half_part[OF p(3-5), THEN conjunct2, rule_format])
        then obtain crr drr stk where r: "quick_loop i ir (stack[2 * d + 2 := j - 1, 2 * d + 1 := l]) (2 * d + 2) brr = sort_pop stk (2 * d) drr"
          "rearranged (i - 1) ir brr crr" "ordered (i - 1) ir crr" "rearranged (l - 1) (j - 1) crr drr" "ordered (l - 1) (j - 1) drr"
          "length stk = NSTACK" "\<forall>k \<le> 2 * d. stk ! k = stack ! k"
          using two_parts[OF right[OF room_half[OF b(3)]] left[OF room_less[OF b(3) n(6)]] lb(2,1) a(2) np] by blast
        have "quick_loop l ir stack (2 * d) arr = sort_pop stk (2 * d) drr"
          using False less_right p(1) push r(1) by (subst quick_loop.simps) (simp add: INSERTION_THRESHOLD_def Let_def)
        then show ?thesis
          using high_then_low[OF p(6) m lb(2) r(2-5)] rearranged_trans[OF p(2)] r(6,7) by blast
      qed
    qed
  qed
qed

lemma ordered_sorted: "hi \<le> length xs \<Longrightarrow> ordered 0 hi xs \<Longrightarrow> sorted (map sint (take hi xs))"
  by (auto simp: sorted_iff_nth_mono_less ordered_def)

lemma inj_sint: "inj_on sint A"
  by (auto simp: inj_on_def intro: signed_word_eqI)

lemma ordered_sort_key:
  assumes "rearranged 0 n xs ys" "ordered 0 n ys" "n \<le> length xs"
  shows "ys = sort_key sint (take n xs) @ drop n xs"
proof -
  have l: "length ys = length xs" using assms(1) by (rule rearranged_length)
  have "mset (take n ys) = mset (take n xs)" using rearranged_segment[OF assms(1) _ assms(3)] by simp
  then have "sort_key sint (take n xs) = take n ys"
    using ordered_sorted[of n ys] assms(2,3) l by (intro sort_key_inj_key_eq inj_sint) simp_all
  moreover have "drop n ys = drop n xs"
    using rearranged_outside[OF assms(1)] l by (intro nth_equalityI) simp_all
  ultimately show ?thesis by (metis append_take_drop_id)
qed

lemma quicksort_correct:
  assumes "n \<le> length arr" "n + 1 < 12 * 2 ^ 24" "length stack = NSTACK"
  shows "quicksort stack n arr = Some (sort_key sint (take n arr) @ drop n arr)"
proof -
  have "sorts_part 1 n 0" by (rule quick_loop_orders) (use assms(2) in \<open>simp_all add: room_def\<close>)
  then obtain arr' stack' where "quick_loop 1 n stack (2 * 0) arr = sort_pop stack' (2 * 0) arr'" "rearranged (1 - 1) n arr arr'"
    "ordered (1 - 1) n arr'" using assms(1,3) by (rule sorts_partE)
  then show ?thesis using ordered_sort_key[of n arr arr'] assms(1) by (simp add: quicksort_def sort_pop_def)
qed

text \<open>
  C2. \<open>sort\<close> with a stack of 50 pointers sorts every array of fewer than 201326591 elements, which take 768
  MiB: it returns, reads and writes neither the array nor the stack out of bounds, leaves the
  elements in ascending order and changes nothing behind the first \<open>n\<close>.
\<close>

theorem quicksort_sorts:
  assumes "n \<le> length arr" "n + 1 < 12 * 2 ^ 24" "length stack = NSTACK"
  shows "quicksort stack n arr = Some (sort_key sint (take n arr) @ drop n arr)"
  by (rule quicksort_correct[OF assms])

theorem quicksort_sorts_witness:
  "quicksort (replicate 50 0) 12 [5, 3, 9, 1, - 4, 7, 7, 0, 2, 8, 6, 4, 1] =
    Some (sort_key sint [5, 3, 9, 1, - 4, 7, 7, 0, 2, 8, 6, 4] @ [1])"
  using quicksort_sorts[of 12 "[5, 3, 9, 1, - 4, 7, 7, 0, 2, 8, 6, 4, 1]" "replicate 50 0"] by (simp add: NSTACK_def)

end
