(* ===== verification/Bench_Rsort.thy ===== *)
theory Bench_Rsort
  imports Bench_Qsort
begin

text \<open>
  The radix sort benchmark \<open>rsort.c\<close>: four passes over the bytes of 32-bit elements, from the lowest
  up, each a stable counting sort from one array into the other. A pointer that runs down from
  \<open>&arr[n - 1]\<close> is the number of elements that are left.
\<close>

section \<open>The program\<close>

definition LOG_BASE :: nat where
  "LOG_BASE = 8"

definition BASE :: nat where
  "BASE = 2 ^ LOG_BASE"

definition digit_of :: "nat \<Rightarrow> u32 \<Rightarrow> nat" where
  "digit_of log_exp x = unat (drop_bit log_exp x mod of_nat BASE)"

text \<open>The macro adds and gives the old value, \<open>(*ptr += inc) - inc\<close>.\<close>

definition fetch_add :: "u32 list \<Rightarrow> nat \<Rightarrow> u32 \<Rightarrow> (u32 \<times> u32 list) option" where
  "fetch_add bucket k inc = do {
     v \<leftarrow> rd bucket k;
     bucket \<leftarrow> wr bucket k (v + inc);
     Some (v + inc - inc, bucket) }"

definition clear_buckets :: "u32 list \<Rightarrow> u32 list option" where
  "clear_buckets = for_range 0 BASE (\<lambda>b bucket. wr bucket b 0)"

definition count_one :: "nat \<Rightarrow> u32 \<Rightarrow> u32 list \<Rightarrow> u32 list option" where
  "count_one log_exp a bucket = do { (_, bucket) \<leftarrow> fetch_add bucket (digit_of log_exp a) 1; Some bucket }"

function count_by_four :: "nat \<Rightarrow> nat \<Rightarrow> u32 list \<Rightarrow> nat \<Rightarrow> u32 list \<Rightarrow> (nat \<times> u32 list) option" where
  "count_by_four log_exp n arr p bucket =
    (if int p < int n - 3 then do {
       a0 \<leftarrow> rd arr p;
       a1 \<leftarrow> rd arr (p + 1);
       a2 \<leftarrow> rd arr (p + 2);
       a3 \<leftarrow> rd arr (p + 3);
       bucket \<leftarrow> count_one log_exp a0 bucket;
       bucket \<leftarrow> count_one log_exp a1 bucket;
       bucket \<leftarrow> count_one log_exp a2 bucket;
       bucket \<leftarrow> count_one log_exp a3 bucket;
       count_by_four log_exp n arr (p + 4) bucket }
     else Some (p, bucket))"
  by pat_completeness auto
termination by (relation "measure (\<lambda>(log_exp, n, arr, p, bucket). n - p)") auto

definition count_all :: "nat \<Rightarrow> nat \<Rightarrow> u32 list \<Rightarrow> u32 list \<Rightarrow> u32 list option" where
  "count_all log_exp n arr bucket = do {
     (p, bucket) \<leftarrow> count_by_four log_exp n arr 0 bucket;
     for_range p n (\<lambda>p bucket. do {
       a \<leftarrow> rd arr p;
       v \<leftarrow> rd bucket (digit_of log_exp a);
       wr bucket (digit_of log_exp a) (v + 1) }) bucket }"

text \<open>\<open>prev += fetch_add(&bucket[b], prev);\<close>\<close>

definition add_up :: "nat \<Rightarrow> u32 \<times> u32 list \<Rightarrow> (u32 \<times> u32 list) option" where
  "add_up b = (\<lambda>(prev, bucket). do { (v, bucket) \<leftarrow> fetch_add bucket b prev; Some (prev + v, bucket) })"

definition add_up_all :: "u32 list \<Rightarrow> u32 list option" where
  "add_up_all bucket = do {
     prev \<leftarrow> rd bucket 0;
     st \<leftarrow> add_up 1 (prev, bucket);
     (prev, bucket) \<leftarrow> for_range 0 ((BASE - 2) div 2) (\<lambda>t st. do {
       st \<leftarrow> add_up (2 + 2 * t) st;
       add_up (2 + 2 * t + 1) st }) st;
     Some bucket }"

text \<open>\<open>s = scratch + fetch_add(pb, -1)\<close>, before which the element goes\<close>

definition place_by_four :: "nat \<Rightarrow> u32 list \<Rightarrow> nat \<Rightarrow> u32 list \<Rightarrow> u32 list \<Rightarrow> (u32 list \<times> u32 list) option" where
  "place_by_four log_exp arr q bucket scratch = do {
     a0 \<leftarrow> rd_back arr q 1;
     a1 \<leftarrow> rd_back arr q 2;
     a2 \<leftarrow> rd_back arr q 3;
     a3 \<leftarrow> rd_back arr q 4;
     (s0, bucket) \<leftarrow> fetch_add bucket (digit_of log_exp a0) (- 1);
     (s1, bucket) \<leftarrow> fetch_add bucket (digit_of log_exp a1) (- 1);
     (s2, bucket) \<leftarrow> fetch_add bucket (digit_of log_exp a2) (- 1);
     (s3, bucket) \<leftarrow> fetch_add bucket (digit_of log_exp a3) (- 1);
     scratch \<leftarrow> wr_back scratch (unat s0) 1 a0;
     scratch \<leftarrow> wr_back scratch (unat s1) 1 a1;
     scratch \<leftarrow> wr_back scratch (unat s2) 1 a2;
     scratch \<leftarrow> wr_back scratch (unat s3) 1 a3;
     Some (bucket, scratch) }"

definition place_one :: "nat \<Rightarrow> u32 list \<Rightarrow> nat \<Rightarrow> u32 list \<Rightarrow> u32 list \<Rightarrow> (u32 list \<times> u32 list) option" where
  "place_one log_exp arr q bucket scratch = do {
     a \<leftarrow> rd_back arr q 1;
     v \<leftarrow> rd bucket (digit_of log_exp a);
     bucket \<leftarrow> wr bucket (digit_of log_exp a) (v - 1);
     scratch \<leftarrow> wr scratch (unat (v - 1)) a;
     Some (bucket, scratch) }"

function place_all :: "nat \<Rightarrow> u32 list \<Rightarrow> nat \<Rightarrow> u32 list \<Rightarrow> u32 list \<Rightarrow> (u32 list \<times> u32 list) option" where
  "place_all log_exp arr q bucket scratch =
    (if 4 \<le> q then do {
       (bucket, scratch) \<leftarrow> place_by_four log_exp arr q bucket scratch;
       place_all log_exp arr (q - 4) bucket scratch }
     else if 1 \<le> q then do {
       (bucket, scratch) \<leftarrow> place_one log_exp arr q bucket scratch;
       place_all log_exp arr (q - 1) bucket scratch }
     else Some (bucket, scratch))"
  by pat_completeness auto
termination by (relation "measure (\<lambda>(log_exp, arr, q, bucket, scratch). q)") auto

definition radix_pass :: "nat \<Rightarrow> nat \<Rightarrow> u32 list \<Rightarrow> u32 list \<Rightarrow> u32 list \<Rightarrow> (u32 list \<times> u32 list) option" where
  "radix_pass log_exp n bucket arr scratch = do {
     bucket \<leftarrow> clear_buckets bucket;
     bucket \<leftarrow> count_all log_exp n arr bucket;
     bucket \<leftarrow> add_up_all bucket;
     place_all log_exp arr n bucket scratch }"

text \<open>The two arrays change places after every pass; \<open>same\<close> says that \<open>arr\<close> is \<open>arrIn\<close>.\<close>

function radix_loop :: "nat \<Rightarrow> nat \<Rightarrow> bool \<Rightarrow> u32 list \<Rightarrow> u32 list \<Rightarrow> u32 list \<Rightarrow> (bool \<times> u32 list \<times> u32 list) option" where
  "radix_loop log_exp n same bucket arr scratch =
    (if log_exp < 8 * 4 then do {
       (bucket, scratch) \<leftarrow> radix_pass log_exp n bucket arr scratch;
       radix_loop (log_exp + LOG_BASE) n (\<not> same) bucket scratch arr }
     else Some (same, arr, scratch))"
  by pat_completeness auto
termination by (relation "measure (\<lambda>(log_exp, n, same, bucket, arr, scratch). 32 - log_exp)") (auto simp: LOG_BASE_def)

text \<open>The contents of \<open>arrIn\<close> and \<open>scratchIn\<close> at the end. The buckets are uninitialised.\<close>

definition rsort :: "u32 list \<Rightarrow> nat \<Rightarrow> u32 list \<Rightarrow> u32 list \<Rightarrow> (u32 list \<times> u32 list) option" where
  "rsort buckets n arrIn scratchIn = do {
     (same, arr, scratch) \<leftarrow> radix_loop 0 n True buckets arrIn scratchIn;
     if same then Some (arr, scratch)
     else if n \<le> length arr \<and> n \<le> length scratch then Some (scratch, take n scratch @ drop n arr)
     else None }"

section \<open>Stable sorting by a key\<close>

lemma sorted_three:
  assumes "sorted (map f ys)"
  shows "ys = filter (\<lambda>y. f y < d) ys @ filter (\<lambda>y. f y = d) ys @ filter (\<lambda>y. d < (f y :: nat)) ys"
  using assms
proof (induction ys)
  case Nil then show ?case by simp
next
  case (Cons y ys)
  have e: "filter (\<lambda>z. f z < d) ys = []" if "d \<le> f y" using Cons.prems that by (auto simp: filter_empty_conv)
  have "filter (\<lambda>z. f z = d) ys = []" if "d < f y" using Cons.prems that by (auto simp: filter_empty_conv)
  then show ?case using Cons e by (cases "f y" d rule: linorder_cases) auto
qed

lemma sort_key_nth:
  assumes "k < length (filter (\<lambda>x. f x = d) xs)"
  shows "sort_key f xs ! (length (filter (\<lambda>x. f x < d) xs) + k) = filter (\<lambda>x. f x = (d :: nat)) xs ! k"
proof -
  let ?ys = "sort_key f xs"
  have l: "length (filter (\<lambda>y. f y < d) ?ys) = length (filter (\<lambda>x. f x < d) xs)"
    by (metis mset_filter mset_sort size_mset)
  have e: "filter (\<lambda>y. f y = d) ?ys = filter (\<lambda>x. f x = d) xs" by (simp add: sort_key_stable)
  have "?ys = filter (\<lambda>y. f y < d) ?ys @ filter (\<lambda>y. f y = d) ?ys @ filter (\<lambda>y. d < f y) ?ys"
    by (rule sorted_three) simp
  then have "?ys ! (length (filter (\<lambda>x. f x < d) xs) + k) =
    (filter (\<lambda>y. f y < d) ?ys @ filter (\<lambda>y. f y = d) ?ys @ filter (\<lambda>y. d < f y) ?ys) ! (length (filter (\<lambda>x. f x < d) xs) + k)"
    by (rule arg_cong)
  also have "\<dots> = filter (\<lambda>x. f x = d) xs ! k" using assms by (simp add: nth_append l e)
  finally show ?thesis .
qed

text \<open>Where a stable sort puts the element \<open>p\<close>\<close>

definition place_of :: "('a \<Rightarrow> nat) \<Rightarrow> 'a list \<Rightarrow> nat \<Rightarrow> nat" where
  "place_of f xs p = length (filter (\<lambda>x. f x < f (xs ! p)) xs) + length (filter (\<lambda>x. f x = f (xs ! p)) (take p xs))"

lemma filter_take_nth:
  assumes "p < length xs" "P (xs ! p)"
  shows "length (filter P (take p xs)) < length (filter P xs)" "filter P xs ! length (filter P (take p xs)) = xs ! p"
proof -
  have "filter P xs = filter P (take p xs) @ xs ! p # filter P (drop (Suc p) xs)"
    using assms by (subst id_take_nth_drop[OF assms(1)]) simp
  then show "length (filter P (take p xs)) < length (filter P xs)" "filter P xs ! length (filter P (take p xs)) = xs ! p"
    by simp_all
qed

lemma place_of_nth: "p < length xs \<Longrightarrow> sort_key f xs ! place_of f xs p = xs ! p"
  using sort_key_nth[of _ f "f (xs ! p)" xs] filter_take_nth[of p xs "\<lambda>x. f x = f (xs ! p)"] by (simp add: place_of_def)

lemma filters_le: "length (filter (\<lambda>x. f x < d) xs) + length (filter (\<lambda>x. f x = (d :: nat)) xs) \<le> length xs"
  by (induction xs) auto

lemma place_of_less: "p < length xs \<Longrightarrow> place_of f xs p < length xs"
  using filters_le[of f "f (xs ! p)" xs] filter_take_nth(1)[of p xs "\<lambda>x. f x = f (xs ! p)"] by (simp add: place_of_def)

lemma filter_index: "k < length (filter P xs) \<Longrightarrow> \<exists>p < length xs. P (xs ! p) \<and> length (filter P (take p xs)) = k"
proof (induction xs rule: rev_induct)
  case Nil then show ?case by simp
next
  case (snoc x xs)
  show ?case
  proof (cases "k < length (filter P xs)")
    case True
    then obtain p where "p < length xs" "P (xs ! p)" "length (filter P (take p xs)) = k" using snoc.IH by blast
    then show ?thesis by (intro exI[of _ p]) (simp add: nth_append)
  next
    case False
    then show ?thesis using snoc.prems by (intro exI[of _ "length xs"]) (auto split: if_splits)
  qed
qed

lemma place_of_onto:
  assumes "m < length xs"
  shows "\<exists>p < length xs. place_of f xs p = m"
proof -
  let ?ys = "sort_key f xs" and ?d = "f (sort_key f xs ! m)"
  have y: "?ys = filter (\<lambda>y. f y < ?d) ?ys @ filter (\<lambda>y. f y = ?d) ?ys @ filter (\<lambda>y. ?d < f y) ?ys"
    by (rule sorted_three) simp
  have l: "length (filter (\<lambda>y. f y < ?d) ?ys) = length (filter (\<lambda>x. f x < ?d) xs)"
    by (metis mset_filter mset_sort size_mset)
  have e: "filter (\<lambda>y. f y = ?d) ?ys = filter (\<lambda>x. f x = ?d) xs" by (simp add: sort_key_stable)
  let ?a = "length (filter (\<lambda>x. f x < ?d) xs)" and ?b = "length (filter (\<lambda>x. f x = ?d) xs)"
  have m: "?ys ! m = (filter (\<lambda>y. f y < ?d) ?ys @ filter (\<lambda>y. f y = ?d) ?ys @ filter (\<lambda>y. ?d < f y) ?ys) ! m"
    using y by (rule arg_cong)
  have lm: "length (filter (\<lambda>y. f y < ?d) ?ys) + length (filter (\<lambda>y. f y = ?d) ?ys) + length (filter (\<lambda>y. ?d < f y) ?ys) = length xs"
    using arg_cong[OF y, of length] by simp
  have am: "?a \<le> m"
  proof (rule ccontr)
    assume "\<not> ?a \<le> m"
    then have s: "m < length (filter (\<lambda>y. f y < ?d) ?ys)" using l by simp
    then have "?ys ! m = filter (\<lambda>y. f y < ?d) ?ys ! m" using m by (simp add: nth_append)
    then show False using nth_mem[OF s] by auto
  qed
  have "m < ?a + ?b"
  proof (rule ccontr)
    assume n: "\<not> m < ?a + ?b"
    then have s: "m - ?a - ?b < length (filter (\<lambda>y. ?d < f y) ?ys)" using lm l e assms by simp
    have nb: "\<not> m - ?a < ?b" "\<not> m < ?a" using n am by linarith+
    have "?ys ! m = filter (\<lambda>y. ?d < f y) ?ys ! (m - ?a - ?b)" using m nb by (simp add: nth_append l e)
    then show False using nth_mem[OF s] by auto
  qed
  then have "m - ?a < ?b" using am by linarith
  from filter_index[OF this] obtain p where "p < length xs" "f (xs ! p) = ?d" "length (filter (\<lambda>x. f x = ?d) (take p xs)) = m - ?a"
    by blast
  then show ?thesis using \<open>?a \<le> m\<close> by (intro exI[of _ p]) (simp add: place_of_def)
qed

section \<open>Counting\<close>

lemma digit_less: "digit_of e x < BASE"
proof -
  have "drop_bit e x mod of_nat BASE < (of_nat BASE :: u32)" by (rule word_mod_less_divisor) (simp add: BASE_def LOG_BASE_def)
  then show ?thesis by (simp add: digit_of_def word_less_nat_alt BASE_def LOG_BASE_def)
qed

lemma fetch_add_in: "k < length bucket \<Longrightarrow> fetch_add bucket k inc = Some (bucket ! k, bucket[k := bucket ! k + inc])"
  by (simp add: fetch_add_def)

text \<open>How many elements have the digit \<open>d\<close>, and how many a smaller one\<close>

definition tally :: "nat \<Rightarrow> u32 list \<Rightarrow> nat \<Rightarrow> nat" where
  "tally e xs d = length (filter (\<lambda>x. digit_of e x = d) xs)"

definition below :: "nat \<Rightarrow> u32 list \<Rightarrow> nat \<Rightarrow> nat" where
  "below e xs d = length (filter (\<lambda>x. digit_of e x < d) xs)"

lemma below_Suc: "below e xs (Suc d) = below e xs d + tally e xs d"
  unfolding below_def tally_def by (induction xs) (auto simp: less_Suc_eq)

lemma tally_snoc: "p < length xs \<Longrightarrow> tally e (take (Suc p) xs) d = tally e (take p xs) d + (if digit_of e (xs ! p) = d then 1 else 0)"
  by (simp add: tally_def take_Suc_conv_app_nth)

definition counted_to :: "nat \<Rightarrow> u32 list \<Rightarrow> nat \<Rightarrow> u32 list \<Rightarrow> bool" where
  "counted_to e xs p bucket \<longleftrightarrow> length bucket = BASE \<and> (\<forall>d < BASE. bucket ! d = of_nat (tally e (take p xs) d))"

lemma counted_step:
  assumes "counted_to e xs p bucket" "p < length xs" "a = xs ! p"
  shows "counted_to e xs (p + 1) (bucket[digit_of e a := bucket ! digit_of e a + 1])"
  using assms digit_less[of e a] by (auto simp: counted_to_def nth_list_update tally_snoc)

lemma count_one_counts:
  assumes "counted_to e xs p bucket" "p < length xs" "a = xs ! p"
  shows "\<exists>bucket'. count_one e a bucket = Some bucket' \<and> counted_to e xs (p + 1) bucket'"
proof -
  have "digit_of e a < length bucket" using assms(1) digit_less by (simp add: counted_to_def)
  then show ?thesis using counted_step[OF assms] by (simp add: count_one_def fetch_add_in)
qed

lemma clear_counts:
  assumes "length bucket = BASE"
  shows "\<exists>bucket'. clear_buckets bucket = Some bucket' \<and> counted_to e xs 0 bucket'"
proof -
  have "clear_buckets bucket = Some (map (\<lambda>k. 0) [0..<BASE] @ drop BASE bucket)"
    unfolding clear_buckets_def by (rule for_range_update) (use assms in simp_all)
  then show ?thesis using assms by (simp add: counted_to_def tally_def map_replicate_const)
qed

lemma count_by_four_counts:
  assumes "counted_to e xs p bucket" "n = length xs" "take n arr = xs" "n \<le> length arr" "p \<le> n"
  shows "\<exists>p' bucket'. count_by_four e n arr p bucket = Some (p', bucket') \<and> counted_to e xs p' bucket' \<and> p' \<le> n"
  using assms
proof (induction "n - p" arbitrary: p bucket rule: less_induct)
  case less
  show ?case
  proof (cases "int p < int n - 3")
    case True
    then have p: "p < length xs" "p + 1 < length xs" "p + 1 + 1 < length xs" "p + 1 + 1 + 1 < length xs" using less.prems(2) by linarith+
    have e: "arr ! k = xs ! k" if "k < length xs" for k using that less.prems(2-4) by (metis nth_take)
    obtain b1 where b1: "count_one e (xs ! p) bucket = Some b1" "counted_to e xs (p + 1) b1"
      using count_one_counts[OF less.prems(1) p(1) refl] by blast
    obtain b2 where b2: "count_one e (xs ! (p + 1)) b1 = Some b2" "counted_to e xs (p + 1 + 1) b2"
      using count_one_counts[OF b1(2) p(2) refl] by blast
    obtain b3 where b3: "count_one e (xs ! (p + 2)) b2 = Some b3" "counted_to e xs (p + 1 + 1 + 1) b3"
      using count_one_counts[OF b2(2) p(3) refl] by auto
    obtain b4 where b4: "count_one e (xs ! (p + 3)) b3 = Some b4" "counted_to e xs (p + 4) b4"
      using count_one_counts[OF b3(2) p(4) refl] by (auto simp: numeral_eq_Suc)
    have r: "rd arr (p + k) = Some (xs ! (p + k))" if "k < 4" for k using that p e less.prems(2,4) by auto
    have "count_by_four e n arr p bucket = count_by_four e n arr (p + 4) b4"
      using True r[of 0] r[of 1] r[of 2] r[of 3] b1(1) b2(1) b3(1) b4(1) by (subst count_by_four.simps) simp
    moreover have "\<exists>p' bucket'. count_by_four e n arr (p + 4) b4 = Some (p', bucket') \<and> counted_to e xs p' bucket' \<and> p' \<le> n"
      by (rule less.hyps) (use True b4(2) less.prems in auto)
    ultimately show ?thesis by simp
  next
    case False
    then have "count_by_four e n arr p bucket = Some (p, bucket)" by (subst count_by_four.simps) (simp only: if_False)
    then show ?thesis using less.prems by simp
  qed
qed

lemma count_all_counts:
  assumes "counted_to e xs 0 bucket" "n = length xs" "take n arr = xs" "n \<le> length arr"
  shows "\<exists>bucket'. count_all e n arr bucket = Some bucket' \<and> counted_to e xs n bucket'"
proof -
  obtain p b where p: "count_by_four e n arr 0 bucket = Some (p, b)" "counted_to e xs p b" "p \<le> n"
    using count_by_four_counts[OF assms(1-4)] by auto
  have "\<exists>b'. for_range p n (\<lambda>p bucket. do {
       a \<leftarrow> rd arr p;
       v \<leftarrow> rd bucket (digit_of e a);
       wr bucket (digit_of e a) (v + 1) }) b = Some b' \<and> counted_to e xs n b'"
  proof (rule for_range_invariant[where P = "counted_to e xs"])
    fix i b assume i: "p \<le> i" "i < n" "counted_to e xs i b"
    have a: "arr ! i = xs ! i" "i < length xs" using i(2) assms(2,3) by (metis nth_take, simp)
    have "digit_of e (xs ! i) < length b" using i(3) digit_less by (simp add: counted_to_def)
    then show "\<exists>b'. do {
       a \<leftarrow> rd arr i;
       v \<leftarrow> rd b (digit_of e a);
       wr b (digit_of e a) (v + 1) } = Some b' \<and> counted_to e xs (i + 1) b'"
      using counted_step[OF i(3) a(2) refl] a(1) i(2) assms(4) by simp
  qed (use p in simp_all)
  then show ?thesis using p(1) by (simp add: count_all_def)
qed

section \<open>Adding up\<close>

definition added_to :: "nat \<Rightarrow> u32 list \<Rightarrow> nat \<Rightarrow> u32 \<times> u32 list \<Rightarrow> bool" where
  "added_to e xs b st \<longleftrightarrow> (case st of (prev, bucket) \<Rightarrow> length bucket = BASE \<and> prev = of_nat (below e xs b) \<and>
    (\<forall>d < BASE. bucket ! d = of_nat (if d < b then below e xs (d + 1) else tally e xs d)))"

lemma add_up_adds:
  assumes "added_to e xs b st" "b < BASE"
  shows "\<exists>st'. add_up b st = Some st' \<and> added_to e xs (b + 1) st'"
proof -
  obtain prev bucket where st: "st = (prev, bucket)" by (cases st)
  have a: "length bucket = BASE" "prev = of_nat (below e xs b)" "bucket ! b = of_nat (tally e xs b)"
    and d: "\<forall>d < BASE. bucket ! d = of_nat (if d < b then below e xs (d + 1) else tally e xs d)"
    using assms by (auto simp: added_to_def st)
  have "add_up b st = Some (prev + bucket ! b, bucket[b := bucket ! b + prev])"
    using a(1) assms(2) by (simp add: add_up_def st fetch_add_in)
  moreover have "added_to e xs (b + 1) (prev + bucket ! b, bucket[b := bucket ! b + prev])"
    using a d by (auto simp: added_to_def nth_list_update below_Suc less_Suc_eq)
  ultimately show ?thesis by blast
qed

lemma add_up_all_adds:
  assumes "counted_to e xs n bucket" "n = length xs"
  shows "\<exists>bucket'. add_up_all bucket = Some bucket' \<and> length bucket' = BASE \<and> (\<forall>d < BASE. bucket' ! d = of_nat (below e xs (d + 1)))"
proof -
  have b: "length bucket = BASE" "\<forall>d < BASE. bucket ! d = of_nat (tally e xs d)" "0 < length bucket"
    using assms by (simp_all add: counted_to_def BASE_def)
  have z: "below e xs 0 = 0" by (simp add: below_def)
  have "added_to e xs 1 (bucket ! 0, bucket)"
    using b below_Suc[of e xs 0] by (auto simp: added_to_def z)
  moreover have "1 < BASE" by (simp add: BASE_def LOG_BASE_def)
  ultimately obtain st where st: "add_up 1 (bucket ! 0, bucket) = Some st" "added_to e xs 2 st"
    using add_up_adds[of e xs 1, unfolded one_add_one] by blast
  let ?P = "\<lambda>t. added_to e xs (2 + 2 * t)"
  have "\<exists>st'. for_range 0 ((BASE - 2) div 2) (\<lambda>t st. do { st \<leftarrow> add_up (2 + 2 * t) st; add_up (2 + 2 * t + 1) st }) st = Some st' \<and>
    ?P ((BASE - 2) div 2) st'"
  proof (rule for_range_invariant[where P = ?P])
    fix t st assume t: "t < (BASE - 2) div 2" "?P t st"
    then have l: "2 + 2 * t < BASE" "2 + 2 * t + 1 < BASE" by (simp_all add: BASE_def LOG_BASE_def)
    obtain st1 where s1: "add_up (2 + 2 * t) st = Some st1" "added_to e xs (2 + 2 * t + 1) st1" using add_up_adds[OF t(2) l(1)] by blast
    obtain st2 where s2: "add_up (2 + 2 * t + 1) st1 = Some st2" "added_to e xs (2 + 2 * t + 1 + 1) st2" using add_up_adds[OF s1(2) l(2)] by blast
    show "\<exists>st'. do { st \<leftarrow> add_up (2 + 2 * t) st; add_up (2 + 2 * t + 1) st } = Some st' \<and> ?P (t + 1) st'"
      using s1(1) s2 by simp
  qed (use st(2) in simp_all)
  then obtain prev bucket' where r: "for_range 0 ((BASE - 2) div 2) (\<lambda>t st. do { st \<leftarrow> add_up (2 + 2 * t) st; add_up (2 + 2 * t + 1) st }) st =
    Some (prev, bucket')" "?P ((BASE - 2) div 2) (prev, bucket')" by fast
  have "2 + 2 * ((BASE - 2) div 2) = BASE" by (simp add: BASE_def LOG_BASE_def)
  then have "length bucket' = BASE" "\<forall>d < BASE. bucket' ! d = of_nat (below e xs (d + 1))"
    using r(2) by (simp_all add: added_to_def)
  then show ?thesis using b(3) st(1) r(1) by (simp add: add_up_all_def)
qed

section \<open>Placing\<close>

definition placed :: "nat \<Rightarrow> u32 list \<Rightarrow> u32 list \<Rightarrow> nat \<Rightarrow> u32 list \<times> u32 list \<Rightarrow> bool" where
  "placed e xs tail q st \<longleftrightarrow> (case st of (bucket, scratch) \<Rightarrow> length bucket = BASE \<and> length scratch = length xs + length tail \<and>
    drop (length xs) scratch = tail \<and> (\<forall>d < BASE. bucket ! d = of_nat (below e xs d + tally e (take q xs) d)) \<and>
    (\<forall>p. q \<le> p \<longrightarrow> p < length xs \<longrightarrow> scratch ! place_of (digit_of e) xs p = xs ! p))"

lemma place_of_digit: "place_of (digit_of e) xs p = below e xs (digit_of e (xs ! p)) + tally e (take p xs) (digit_of e (xs ! p))"
  by (simp add: place_of_def below_def tally_def)

lemma place_step:
  fixes a :: u32
  assumes "placed e xs tail (Suc p) (bucket, scratch)" "p < length xs" "length xs < 2 ^ 32" "a = xs ! p"
  defines "d \<equiv> digit_of e a" and "m \<equiv> place_of (digit_of e) xs p"
  shows "d < length bucket" "m < length scratch" "unat (bucket ! d) = Suc m" "unat (bucket ! d - 1) = m"
    "placed e xs tail p (bucket[d := bucket ! d - 1], scratch[m := a])"
proof -
  have b: "length bucket = BASE" "length scratch = length xs + length tail" "drop (length xs) scratch = tail"
    "\<forall>d < BASE. bucket ! d = of_nat (below e xs d + tally e (take (Suc p) xs) d)"
    and s: "\<forall>q. Suc p \<le> q \<longrightarrow> q < length xs \<longrightarrow> scratch ! place_of (digit_of e) xs q = xs ! q"
    using assms(1) unfolding placed_def prod.case by blast+
  have d: "d < BASE" unfolding d_def by (rule digit_less)
  have m: "m < length xs" unfolding m_def by (rule place_of_less[OF assms(2)])
  have v: "bucket ! d = of_nat (Suc m)"
    using b(4) d tally_snoc[OF assms(2), of e d] by (simp add: m_def place_of_digit d_def assms(4))
  show "d < length bucket" "m < length scratch" using d m b by simp_all
  show u: "unat (bucket ! d) = Suc m" using v m assms(3) by (simp only: v unat_of_nat) simp
  have v1: "bucket ! d - 1 = of_nat m" by (simp add: v)
  show "unat (bucket ! d - 1) = m" using m assms(3) by (simp add: v1 unat_of_nat)
  have n: "scratch[m := a] ! place_of (digit_of e) xs q = xs ! q" if q: "p \<le> q" "q < length xs" for q
  proof (cases "place_of (digit_of e) xs q = m")
    case True
    then have "xs ! q = xs ! p" using place_of_nth[OF q(2), of "digit_of e"] place_of_nth[OF assms(2), of "digit_of e"] by (simp add: m_def)
    then show ?thesis using True m b(2) assms(4) by simp
  next
    case False
    then have "q \<noteq> p" by (auto simp: m_def)
    then show ?thesis using False s q by simp
  qed
  have "drop (length xs) (scratch[m := a]) = tail" using b(3) m by simp
  moreover have "bucket[d := bucket ! d - 1] ! c = of_nat (below e xs c + tally e (take p xs) c)" if "c < BASE" for c
    using b(1,4) d v1 that tally_snoc[OF assms(2), of e c]
    by (cases "c = d") (auto simp: nth_list_update m_def place_of_digit d_def assms(4))
  ultimately show "placed e xs tail p (bucket[d := bucket ! d - 1], scratch[m := a])"
    using b(1,2) n unfolding placed_def prod.case by simp
qed

lemma place_one_places:
  assumes "placed e xs tail q (bucket, scratch)" "1 \<le> q" "q \<le> length xs" "length xs < 2 ^ 32"
    and "\<And>k. k < length xs \<Longrightarrow> rd arr k = Some (xs ! k)"
  shows "\<exists>st. place_one e arr q bucket scratch = Some st \<and> placed e xs tail (q - 1) st"
proof -
  obtain p where p: "q = Suc p" using assms(2) by (cases q) simp_all
  have l: "p < length xs" using assms(3) p by simp
  note s = place_step[OF assms(1)[unfolded p] l assms(4) refl]
  show ?thesis using s assms(5)[OF l] by (simp add: place_one_def p rd_back_def)
qed

lemma fetch_and_place:
  assumes "placed e xs tail q (bucket, scratch)" "1 \<le> q" "q \<le> length xs" "length xs < 2 ^ 32"
  obtains v bucket' scratch' where "fetch_add bucket (digit_of e (xs ! (q - 1))) (- 1) = Some (v, bucket')"
    "wr_back scratch (unat v) 1 (xs ! (q - 1)) = Some scratch'" "placed e xs tail (q - 1) (bucket', scratch')"
proof -
  obtain p where p: "q = Suc p" using assms(2) by (cases q) simp_all
  have l: "p < length xs" using assms(3) p by simp
  note s = place_step[OF assms(1)[unfolded p] l assms(4) refl]
  show thesis
    by (rule that[OF fetch_add_in]) (use s p in \<open>simp_all add: wr_back_def\<close>)
qed

lemma place_by_four_places:
  assumes "placed e xs tail q (bucket, scratch)" "4 \<le> q" "q \<le> length xs" "length xs < 2 ^ 32"
    and "\<And>k. k < length xs \<Longrightarrow> rd arr k = Some (xs ! k)"
  shows "\<exists>st. place_by_four e arr q bucket scratch = Some st \<and> placed e xs tail (q - 4) st"
proof -
  have q: "q - 1 - 1 = q - 2" "q - 2 - 1 = q - 3" "q - 3 - 1 = q - 4" by simp_all
  have n: "1 \<le> q" "1 \<le> q - 1" "1 \<le> q - 2" "1 \<le> q - 3" "q - 1 \<le> length xs" "q - 2 \<le> length xs" "q - 3 \<le> length xs"
    using assms(2,3) by linarith+
  have r: "rd_back arr q k = Some (xs ! (q - k))" if "1 \<le> k" "k \<le> 4" for k
    using assms(2,3,5) that by (auto simp: rd_back_def)
  obtain v0 b0 s0 where a0: "fetch_add bucket (digit_of e (xs ! (q - 1))) (- 1) = Some (v0, b0)"
    "wr_back scratch (unat v0) 1 (xs ! (q - 1)) = Some s0" "placed e xs tail (q - 1) (b0, s0)"
    by (rule fetch_and_place[OF assms(1) n(1) assms(3,4)])
  obtain v1 b1 s1 where a1: "fetch_add b0 (digit_of e (xs ! (q - 2))) (- 1) = Some (v1, b1)"
    "wr_back s0 (unat v1) 1 (xs ! (q - 2)) = Some s1" "placed e xs tail (q - 2) (b1, s1)"
    by (rule fetch_and_place[OF a0(3) n(2,5) assms(4), unfolded q])
  obtain v2 b2 s2 where a2: "fetch_add b1 (digit_of e (xs ! (q - 3))) (- 1) = Some (v2, b2)"
    "wr_back s1 (unat v2) 1 (xs ! (q - 3)) = Some s2" "placed e xs tail (q - 3) (b2, s2)"
    by (rule fetch_and_place[OF a1(3) n(3,6) assms(4), unfolded q])
  obtain v3 b3 s3 where a3: "fetch_add b2 (digit_of e (xs ! (q - 4))) (- 1) = Some (v3, b3)"
    "wr_back s2 (unat v3) 1 (xs ! (q - 4)) = Some s3" "placed e xs tail (q - 4) (b3, s3)"
    by (rule fetch_and_place[OF a2(3) n(4,7) assms(4), unfolded q])
  have "place_by_four e arr q bucket scratch = Some (b3, s3)"
    unfolding place_by_four_def using r[of 1] r[of 2] r[of 3] r[of 4] a0 a1 a2 a3 by simp
  then show ?thesis using a3(3) by blast
qed

lemma place_all_places:
  assumes "placed e xs tail q st" "q \<le> length xs" "length xs < 2 ^ 32" "\<And>k. k < length xs \<Longrightarrow> rd arr k = Some (xs ! k)"
  shows "\<exists>st'. place_all e arr q (fst st) (snd st) = Some st' \<and> placed e xs tail 0 st'"
  using assms(1,2)
proof (induction q arbitrary: st rule: less_induct)
  case (less q)
  obtain b s where st: "st = (b, s)" by (cases st)
  consider "4 \<le> q" | "1 \<le> q" "\<not> 4 \<le> q" | "q = 0" by linarith
  then show ?case
  proof cases
    case 1
    obtain st1 where s1: "place_by_four e arr q b s = Some st1" "placed e xs tail (q - 4) st1"
      using place_by_four_places[OF less.prems(1)[unfolded st] 1 less.prems(2) assms(3,4)] by blast
    have "\<exists>st'. place_all e arr (q - 4) (fst st1) (snd st1) = Some st' \<and> placed e xs tail 0 st'"
      by (rule less.IH[OF _ s1(2)]) (use 1 less.prems(2) in simp_all)
    then show ?thesis using 1 s1(1) by (subst place_all.simps) (simp add: st split_beta del: place_all.simps)
  next
    case 2
    obtain st1 where s1: "place_one e arr q b s = Some st1" "placed e xs tail (q - 1) st1"
      using place_one_places[OF less.prems(1)[unfolded st] 2(1) less.prems(2) assms(3,4)] by blast
    have "\<exists>st'. place_all e arr (q - 1) (fst st1) (snd st1) = Some st' \<and> placed e xs tail 0 st'"
      by (rule less.IH[OF _ s1(2)]) (use 2 less.prems(2) in simp_all)
    then show ?thesis using 2 s1(1) by (subst place_all.simps) (simp add: st split_beta del: place_all.simps)
  next
    case 3
    then show ?thesis using less.prems by (subst place_all.simps) (simp add: st)
  qed
qed

lemma placed_sorted:
  assumes "placed e xs tail 0 (bucket, scratch)"
  shows "scratch = sort_key (digit_of e) xs @ tail"
proof -
  have l: "length scratch = length xs + length tail" and d: "drop (length xs) scratch = tail"
    and s: "\<And>p. p < length xs \<Longrightarrow> scratch ! place_of (digit_of e) xs p = xs ! p"
    using assms unfolding placed_def prod.case by blast+
  have "scratch ! m = sort_key (digit_of e) xs ! m" if m: "m < length xs" for m
  proof -
    obtain p where p: "p < length xs" "place_of (digit_of e) xs p = m" using place_of_onto[OF m] by blast
    then show ?thesis using s[OF p(1)] place_of_nth[OF p(1), of "digit_of e"] by simp
  qed
  then have "take (length xs) scratch = sort_key (digit_of e) xs" using l by (intro nth_equalityI) simp_all
  then show ?thesis using d append_take_drop_id[of "length xs" scratch] by simp
qed

section \<open>Passes\<close>

lemma radix_pass_sorts:
  assumes "length bucket = BASE" "length xs = n" "length ys = n" "n < 2 ^ 32"
  shows "\<exists>bucket'. radix_pass e n bucket (xs @ u) (ys @ v) = Some (bucket', sort_key (digit_of e) xs @ v) \<and> length bucket' = BASE"
proof -
  obtain b1 where b1: "clear_buckets bucket = Some b1" "counted_to e xs 0 b1" using clear_counts[OF assms(1)] by blast
  obtain b2 where b2: "count_all e n (xs @ u) b1 = Some b2" "counted_to e xs n b2"
    using count_all_counts[OF b1(2) assms(2)[symmetric], of "xs @ u"] assms(2) by auto
  obtain b3 where b3: "add_up_all b2 = Some b3" "length b3 = BASE" "\<forall>d < BASE. b3 ! d = of_nat (below e xs (d + 1))"
    using add_up_all_adds[OF b2(2)] assms(2) by blast
  have "placed e xs v n (b3, ys @ v)" using b3(2,3) assms(2,3) by (simp add: placed_def below_Suc)
  then have "\<exists>st'. place_all e (xs @ u) n (fst (b3, ys @ v)) (snd (b3, ys @ v)) = Some st' \<and> placed e xs v 0 st'"
    by (rule place_all_places) (use assms(2,4) in \<open>simp_all add: nth_append\<close>)
  then obtain b4 zs where z: "place_all e (xs @ u) n b3 (ys @ v) = Some (b4, zs)" "placed e xs v 0 (b4, zs)"
    by (metis fst_conv snd_conv surj_pair)
  have "length b4 = BASE" using z(2) by (simp add: placed_def)
  then show ?thesis using b1(1) b2(1) b3(1) z(1) placed_sorted[OF z(2)] by (simp add: radix_pass_def del: place_all.simps)
qed

text \<open>A stable sort by the next digit of what is sorted by the digits below it\<close>

lemma digit_split: "e + 8 \<le> 32 \<Longrightarrow> unat x mod 2 ^ (e + 8) = 2 ^ e * digit_of e x + unat x mod 2 ^ e"
proof -
  assume e: "e + 8 \<le> 32"
  have "digit_of e x = unat x div 2 ^ e mod 2 ^ 8"
    by (simp add: digit_of_def unat_mod unat_drop_bit_eq drop_bit_eq_div[of e "unat x"] BASE_def LOG_BASE_def)
  then show ?thesis by (simp add: power_add mod_mult2_eq)
qed

lemma sorted_filterD:
  assumes "sorted (map f (filter P ys))" "i < j" "j < length ys" "P (ys ! i)" "P (ys ! j)"
  shows "f (ys ! i) \<le> (f (ys ! j) :: nat)"
proof -
  have "filter P ys = filter P (take j ys) @ ys ! j # filter P (drop (Suc j) ys)"
    using assms(3,5) by (subst id_take_nth_drop[OF assms(3)]) simp
  then have "\<forall>x \<in> set (filter P (take j ys)). f x \<le> f (ys ! j)" using assms(1) by (auto simp: sorted_append)
  moreover have "ys ! i \<in> set (take j ys)" using assms(2,3) by (auto simp: in_set_conv_nth)
  ultimately show ?thesis using assms(4) by simp
qed

lemma next_digit:
  assumes "sorted (map (\<lambda>x. unat x mod 2 ^ e) xs)" "e + 8 \<le> 32"
  shows "sorted (map (\<lambda>x. unat x mod 2 ^ (e + 8)) (sort_key (digit_of e) xs))"
proof -
  let ?ys = "sort_key (digit_of e) xs"
  have "unat (?ys ! i) mod 2 ^ (e + 8) \<le> unat (?ys ! j) mod 2 ^ (e + 8)" if ij: "i < j" "j < length ?ys" for i j
  proof -
    have "digit_of e (?ys ! i) \<le> digit_of e (?ys ! j)"
      using sorted_nth_mono[of "map (digit_of e) ?ys" i j] ij by simp
    then consider "digit_of e (?ys ! i) + 1 \<le> digit_of e (?ys ! j)" | "digit_of e (?ys ! i) = digit_of e (?ys ! j)" by linarith
    then show ?thesis
    proof cases
      case 1
      then have "2 ^ e * (digit_of e (?ys ! i) + 1) \<le> 2 ^ e * digit_of e (?ys ! j)" by (rule mult_le_mono2)
      moreover have "unat (?ys ! i) mod 2 ^ e < 2 ^ e" by simp
      ultimately show ?thesis unfolding digit_split[OF assms(2)] distrib_left mult_1_right by linarith
    next
      case 2
      let ?P = "\<lambda>x. digit_of e x = digit_of e (?ys ! j)"
      have "filter ?P ?ys = filter ?P xs" by (simp add: sort_key_stable)
      then have "sorted (map (\<lambda>x. unat x mod 2 ^ e) (filter ?P ?ys))" using sorted_filter[OF assms(1)] by simp
      from sorted_filterD[OF this ij 2 refl] show ?thesis unfolding digit_split[OF assms(2)] using 2 by simp
    qed
  qed
  then show ?thesis by (simp add: sorted_iff_nth_mono_less)
qed

text \<open>The four passes\<close>

definition pass_of :: "nat \<Rightarrow> u32 list \<Rightarrow> u32 list" where
  "pass_of e xs = sort_key (digit_of e) xs"

lemma radix_loop_step:
  assumes "e < 32" "length bucket = BASE" "length xs = n" "length ys = n" "n < 2 ^ 32"
  shows "\<exists>bucket'. radix_loop e n same bucket (xs @ u) (ys @ v) = radix_loop (e + 8) n (\<not> same) bucket' (pass_of e xs @ v) (xs @ u) \<and>
    length bucket' = BASE"
  using radix_pass_sorts[OF assms(2-5), of e u v] assms(1)
  by (subst radix_loop.simps) (auto simp: LOG_BASE_def pass_of_def simp del: radix_loop.simps)

lemma pass_of_length [simp]: "length (pass_of e xs) = length xs"
  by (simp add: pass_of_def)

lemma radix_loop_sorts:
  assumes "length bucket = BASE" "length xs = n" "length ys = n" "n < 2 ^ 32"
  shows "radix_loop 0 n True bucket (xs @ u) (ys @ v) =
    Some (True, pass_of 24 (pass_of 16 (pass_of 8 (pass_of 0 xs))) @ u, pass_of 16 (pass_of 8 (pass_of 0 xs)) @ v)"
proof -
  obtain b1 where 1: "radix_loop 0 n True bucket (xs @ u) (ys @ v) = radix_loop 8 n False b1 (pass_of 0 xs @ v) (xs @ u)" "length b1 = BASE"
    using radix_loop_step[of 0 bucket xs n ys True u v] assms by auto
  obtain b2 where 2: "radix_loop 8 n False b1 (pass_of 0 xs @ v) (xs @ u) =
      radix_loop 16 n True b2 (pass_of 8 (pass_of 0 xs) @ u) (pass_of 0 xs @ v)" "length b2 = BASE"
    using radix_loop_step[of 8 b1 "pass_of 0 xs" n xs False v u] 1(2) assms by auto
  obtain b3 where 3: "radix_loop 16 n True b2 (pass_of 8 (pass_of 0 xs) @ u) (pass_of 0 xs @ v) =
      radix_loop 24 n False b3 (pass_of 16 (pass_of 8 (pass_of 0 xs)) @ v) (pass_of 8 (pass_of 0 xs) @ u)" "length b3 = BASE"
    using radix_loop_step[of 16 b2 "pass_of 8 (pass_of 0 xs)" n "pass_of 0 xs" True u v] 2(2) assms by auto
  obtain b4 where 4: "radix_loop 24 n False b3 (pass_of 16 (pass_of 8 (pass_of 0 xs)) @ v) (pass_of 8 (pass_of 0 xs) @ u) =
      radix_loop 32 n True b4 (pass_of 24 (pass_of 16 (pass_of 8 (pass_of 0 xs))) @ u) (pass_of 16 (pass_of 8 (pass_of 0 xs)) @ v)"
    using radix_loop_step[of 24 b3 "pass_of 16 (pass_of 8 (pass_of 0 xs))" n "pass_of 8 (pass_of 0 xs)" False v u] 3(2) assms by auto
  show ?thesis unfolding 1(1) 2(1) 3(1) 4 by (subst radix_loop.simps) simp
qed

lemma four_passes_sort: "pass_of 24 (pass_of 16 (pass_of 8 (pass_of 0 xs))) = sort xs"
proof -
  have "sorted (map (\<lambda>x. unat x mod 2 ^ 0) xs)" by (simp add: sorted_iff_nth_mono)
  from next_digit[OF this] have "sorted (map (\<lambda>x. unat x mod 2 ^ 8) (pass_of 0 xs))" by (simp add: pass_of_def)
  from next_digit[OF this] have "sorted (map (\<lambda>x. unat x mod 2 ^ 16) (pass_of 8 (pass_of 0 xs)))" by (simp add: pass_of_def)
  from next_digit[OF this] have "sorted (map (\<lambda>x. unat x mod 2 ^ 24) (pass_of 16 (pass_of 8 (pass_of 0 xs))))" by (simp add: pass_of_def)
  from next_digit[OF this] have s: "sorted (map (\<lambda>x. unat x mod 2 ^ 32) (pass_of 24 (pass_of 16 (pass_of 8 (pass_of 0 xs)))))"
    by (simp add: pass_of_def)
  have "unat x mod 2 ^ 32 = unat x" for x :: u32 using unsigned_less[of x, where ?'a = nat] by simp
  then have "sorted (pass_of 24 (pass_of 16 (pass_of 8 (pass_of 0 xs))))"
    using s by (simp add: sorted_iff_nth_mono word_le_nat_alt)
  moreover have "mset (pass_of 24 (pass_of 16 (pass_of 8 (pass_of 0 xs)))) = mset xs" by (simp add: pass_of_def)
  ultimately show ?thesis by (metis properties_for_sort)
qed

lemma rsort_result:
  assumes "n \<le> length arr" "n \<le> length scratch" "n < 2 ^ 32" "length buckets = BASE"
  shows "rsort buckets n arr scratch = Some (sort (take n arr) @ drop n arr, pass_of 16 (pass_of 8 (pass_of 0 (take n arr))) @ drop n scratch)"
proof -
  have "radix_loop 0 n True buckets (take n arr @ drop n arr) (take n scratch @ drop n scratch) =
    Some (True, pass_of 24 (pass_of 16 (pass_of 8 (pass_of 0 (take n arr)))) @ drop n arr,
      pass_of 16 (pass_of 8 (pass_of 0 (take n arr))) @ drop n scratch)"
    by (rule radix_loop_sorts[OF assms(4)]) (use assms in simp_all)
  then show ?thesis using assms(1) by (simp add: rsort_def four_passes_sort)
qed

lemma rsort_correct:
  assumes "n \<le> length arr" "n \<le> length scratch" "n < 2 ^ 32" "length buckets = BASE"
  shows "\<exists>scratch'. rsort buckets n arr scratch = Some (sort (take n arr) @ drop n arr, scratch') \<and> length scratch' = length scratch"
  using rsort_result[OF assms] assms by simp

text \<open>
  C8. The radix sort returns for every array: \<open>arrIn\<close> ends with its first \<open>n\<close> elements in ascending order,
  both arrays and the buckets are accessed within their bounds, and nothing behind the \<open>n\<close> elements
  of either array changes.
\<close>

theorem rsort_sorts:
  assumes "n \<le> length arr" "n \<le> length scratch" "n < 2 ^ 32" "length buckets = BASE"
  shows "\<exists>scratch'. rsort buckets n arr scratch = Some (sort (take n arr) @ drop n arr, scratch') \<and> drop n scratch' = drop n scratch"
  using rsort_result[OF assms] assms(1) by simp

theorem rsort_sorts_witness:
  "\<exists>scratch'. rsort (replicate 256 7) 5 [70000, 3, 0x80000000, 255, 256, 9] [0, 0, 0, 0, 0, 1, 2] =
    Some (sort [70000, 3, 0x80000000, 255, 256] @ [9], scratch') \<and> drop 5 scratch' = [1, 2]"
  using rsort_sorts[of 5 "[70000, 3, 0x80000000, 255, 256, 9]" "[0, 0, 0, 0, 0, 1, 2]" "replicate 256 7"]
  by (simp add: BASE_def LOG_BASE_def)

end
