(* ===== verification/Bench_Kernels.thy ===== *)
theory Bench_Kernels
  imports Bench_Rsort
begin

text \<open>
  The small benchmarks, \<open>multiply.c\<close>, \<open>median.c\<close> and \<open>vvadd_main.c\<close>, the function of \<open>util.h\<close> that
  compares the results with the reference data, and the programs around these and the two sorts. The
  data sets are parameters.
\<close>

section \<open>util.h\<close>

text \<open>\<open>verify\<close> gives the number of the first element that differs, from 1 on, or 0.\<close>

function verify_from :: "nat \<Rightarrow> nat \<Rightarrow> s32 list \<Rightarrow> s32 list \<Rightarrow> nat option" where
  "verify_from i n test expected =
    (if i < n div 2 * 2 then do {
       t0 \<leftarrow> rd test i;
       t1 \<leftarrow> rd test (i + 1);
       v0 \<leftarrow> rd expected i;
       v1 \<leftarrow> rd expected (i + 1);
       if t0 \<noteq> v0 then Some (i + 1)
       else if t1 \<noteq> v1 then Some (i + 2)
       else verify_from (i + 2) n test expected }
     else if n mod 2 \<noteq> 0 then do {
       t \<leftarrow> rd test (n - 1);
       v \<leftarrow> rd expected (n - 1);
       Some (if t \<noteq> v then n else 0) }
     else Some 0)"
  by pat_completeness auto
termination by (relation "measure (\<lambda>(i, n, test, expected). n - i)") auto

definition verify :: "nat \<Rightarrow> s32 list \<Rightarrow> s32 list \<Rightarrow> nat option" where
  "verify = verify_from 0"

text \<open>
  \<open>verifyDouble\<close> compares floating-point numbers; \<open>eq\<close> is their equality, which does not hold between a
  NaN and itself.
\<close>

function verify_double_from :: "nat \<Rightarrow> ('a \<Rightarrow> 'a \<Rightarrow> bool) \<Rightarrow> nat \<Rightarrow> 'a list \<Rightarrow> 'a list \<Rightarrow> nat option" where
  "verify_double_from i eq n test expected =
    (if i < n div 2 * 2 then do {
       t0 \<leftarrow> rd test i;
       t1 \<leftarrow> rd test (i + 1);
       v0 \<leftarrow> rd expected i;
       v1 \<leftarrow> rd expected (i + 1);
       let eq1 = eq t0 v0;
       let eq2 = eq t1 v1;
       if \<not> (eq1 \<and> eq2) then Some (i + 1 + of_bool eq1)
       else verify_double_from (i + 2) eq n test expected }
     else if n mod 2 \<noteq> 0 then do {
       t \<leftarrow> rd test (n - 1);
       v \<leftarrow> rd expected (n - 1);
       Some (if \<not> eq t v then n else 0) }
     else Some 0)"
  by pat_completeness auto
termination by (relation "measure (\<lambda>(i, eq, n, test, expected). n - i)") auto

definition verifyDouble :: "('a \<Rightarrow> 'a \<Rightarrow> bool) \<Rightarrow> nat \<Rightarrow> 'a list \<Rightarrow> 'a list \<Rightarrow> nat option" where
  "verifyDouble = verify_double_from 0"

section \<open>multiply.c\<close>

definition multiply_turn :: "s32 \<times> s32 \<times> s32 \<Rightarrow> s32 \<times> s32 \<times> s32" where
  "multiply_turn = (\<lambda>(x, y, result).
     let result = (if x AND 1 = 1 then result + y else result)
     in (signed_drop_bit 1 x, push_bit 1 y, result))"

definition multiply :: "s32 \<Rightarrow> s32 \<Rightarrow> s32" where
  "multiply x y = snd (snd ((multiply_turn ^^ 32) (x, y, 0)))"

definition multiply_all :: "nat \<Rightarrow> s32 list \<Rightarrow> s32 list \<Rightarrow> s32 list \<Rightarrow> s32 list option" where
  "multiply_all n xs ys = for_range 0 n (\<lambda>i results. do {
     x \<leftarrow> rd xs i;
     y \<leftarrow> rd ys i;
     wr results i (multiply x y) })"

definition multiply_main :: "bool \<Rightarrow> nat \<Rightarrow> s32 list \<Rightarrow> s32 list \<Rightarrow> s32 list \<Rightarrow> s32 list \<Rightarrow> nat option" where
  "multiply_main PREALLOCATE n input1 input2 verify_data results = do {
     results \<leftarrow> (if PREALLOCATE then multiply_all n input1 input2 results else Some results);
     results \<leftarrow> multiply_all n input1 input2 results;
     verify n results verify_data }"

section \<open>median.c\<close>

definition median_of :: "s32 \<Rightarrow> s32 \<Rightarrow> s32 \<Rightarrow> s32" where
  "median_of A B C =
    (if sint A < sint B then
       if sint B < sint C then B else if sint C < sint A then A else C
     else
       if sint A < sint C then A else if sint C < sint B then B else C)"

definition median :: "nat \<Rightarrow> s32 list \<Rightarrow> s32 list \<Rightarrow> s32 list option" where
  "median n input results = do {
     results \<leftarrow> wr results 0 0;
     results \<leftarrow> wr_back results n 1 0;
     for_range 1 (n - 1) (\<lambda>i results. do {
       A \<leftarrow> rd_back input i 1;
       B \<leftarrow> rd input i;
       C \<leftarrow> rd input (i + 1);
       wr results i (median_of A B C) }) results }"

definition median_main :: "bool \<Rightarrow> nat \<Rightarrow> s32 list \<Rightarrow> s32 list \<Rightarrow> s32 list \<Rightarrow> nat option" where
  "median_main PREALLOCATE n input verify_data results = do {
     results \<leftarrow> (if PREALLOCATE then median n input results else Some results);
     results \<leftarrow> median n input results;
     verify n results verify_data }"

section \<open>vvadd\_main.c\<close>

definition vvadd :: "nat \<Rightarrow> s32 list \<Rightarrow> s32 list \<Rightarrow> s32 list \<Rightarrow> s32 list option" where
  "vvadd n a b = for_range 0 n (\<lambda>i c. do {
     x \<leftarrow> rd a i;
     y \<leftarrow> rd b i;
     wr c i (x + y) })"

definition vvadd_main :: "bool \<Rightarrow> nat \<Rightarrow> s32 list \<Rightarrow> s32 list \<Rightarrow> s32 list \<Rightarrow> s32 list \<Rightarrow> nat option" where
  "vvadd_main PREALLOCATE n input1 input2 verify_data results = do {
     results \<leftarrow> (if PREALLOCATE then vvadd n input1 input2 results else Some results);
     results \<leftarrow> vvadd n input1 input2 results;
     verify n results verify_data }"

section \<open>The programs of the two sorts\<close>

definition qsort_main :: "bool \<Rightarrow> nat list \<Rightarrow> nat \<Rightarrow> s32 list \<Rightarrow> s32 list \<Rightarrow> nat option" where
  "qsort_main PREALLOCATE stack n input verify_data = do {
     verify_data \<leftarrow> (if PREALLOCATE then quicksort stack n verify_data else Some verify_data);
     r \<leftarrow> (if PREALLOCATE then verify n input input else Some 0);
     if r \<noteq> 0 then Some 1
     else do {
       input \<leftarrow> quicksort stack n input;
       verify n input verify_data } }"

definition rsort_main :: "bool \<Rightarrow> u32 list \<Rightarrow> nat \<Rightarrow> u32 list \<Rightarrow> u32 list \<Rightarrow> nat option" where
  "rsort_main PREALLOCATE buckets n input verify_data = do {
     let scratch = replicate n 0;
     (verify_data, scratch) \<leftarrow> (if PREALLOCATE then rsort buckets n verify_data scratch else Some (verify_data, scratch));
     r \<leftarrow> (if PREALLOCATE then verify n input input else Some 0);
     if r \<noteq> 0 then Some 1
     else do {
       (input, scratch) \<leftarrow> rsort buckets n input scratch;
       verify n input verify_data } }"

section \<open>What verify finds\<close>

lemma all_below: "0 < n \<Longrightarrow> (\<forall>k < n. Q k) \<longleftrightarrow> (\<forall>k < n - 1. Q k) \<and> Q (n - 1)" for n :: nat
  by (cases n) (auto simp: less_Suc_eq)

lemma verify_double_result:
  assumes "even i" "i \<le> n" "n \<le> length test" "n \<le> length expected" "\<forall>k < i. eq (test ! k) (expected ! k)"
  shows "\<exists>r. verify_double_from i eq n test expected = Some r \<and> (if r = 0 then \<forall>k < n. eq (test ! k) (expected ! k)
    else r \<le> n \<and> \<not> eq (test ! (r - 1)) (expected ! (r - 1)) \<and> (\<forall>k < r - 1. eq (test ! k) (expected ! k)))"
  using assms
proof (induction "n - i" arbitrary: i rule: less_induct)
  case less
  let ?Q = "\<lambda>k. eq (test ! k) (expected ! k)"
  show ?case
  proof (cases "i < n div 2 * 2")
    case True
    have "n div 2 * 2 \<le> n" "even (n div 2 * 2)" by simp_all
    then have i: "i + 1 < n" using True less.prems(1) by presburger
    show ?thesis
    proof (cases "?Q i \<and> ?Q (i + 1)")
      case eq: True
      have "\<forall>k < i + 2. ?Q k" using less.prems(5) eq by (auto simp: less_Suc_eq numeral_eq_Suc)
      then have "\<exists>r. verify_double_from (i + 2) eq n test expected = Some r \<and> (if r = 0 then \<forall>k < n. ?Q k
        else r \<le> n \<and> \<not> ?Q (r - 1) \<and> (\<forall>k < r - 1. ?Q k))"
        by (intro less.hyps) (use i less.prems in auto)
      then show ?thesis using True eq i less.prems by (subst verify_double_from.simps) (simp del: verify_double_from.simps)
    next
      case False
      then show ?thesis using True i less.prems
        by (subst verify_double_from.simps) (auto simp: less_Suc_eq Let_def simp del: verify_double_from.simps)
    qed
  next
    case False
    show ?thesis
    proof (cases "n mod 2 = 0")
      case True
      then have "i = n" using False less.prems(2) by presburger
      then show ?thesis using False True less.prems(5) by (subst verify_double_from.simps) simp
    next
      case odd: False
      then have "i = n - 1" "0 < n" using False less.prems(1,2) by presburger+
      then show ?thesis using False odd less.prems(3-5)
        by (subst verify_double_from.simps) (simp add: all_below[OF \<open>0 < n\<close>] del: verify_double_from.simps)
    qed
  qed
qed

text \<open>On integers the two functions agree.\<close>

lemma verify_double_eq: "verify_double_from i (=) n test expected = verify_from i n test expected"
proof (induction "n - i" arbitrary: i rule: less_induct)
  case less
  then have "i < n div 2 * 2 \<Longrightarrow> verify_double_from (i + 2) (=) n test expected = verify_from (i + 2) n test expected" by simp
  then show ?case
    by (subst verify_double_from.simps, subst verify_from.simps) (auto simp: Let_def simp del: verify_double_from.simps verify_from.simps split: Option.bind_split)
qed

lemma verify_eq: "verify = verifyDouble (=)"
  by (intro ext) (simp only: verify_def verifyDouble_def verify_double_eq)

lemma verifyDouble_returns:
  "n \<le> length test \<Longrightarrow> n \<le> length expected \<Longrightarrow> \<exists>r. verifyDouble eq n test expected = Some r"
  using verify_double_result[of 0 n test expected eq] by (auto simp: verifyDouble_def simp del: verify_double_from.simps)

lemma verify_zero:
  assumes "n \<le> length test" "n \<le> length expected"
  shows "verify n test expected = Some 0 \<longleftrightarrow> take n test = take n expected"
proof -
  obtain r where r: "verify n test expected = Some r" "if r = 0 then \<forall>k < n. test ! k = expected ! k
    else r \<le> n \<and> test ! (r - 1) \<noteq> expected ! (r - 1) \<and> (\<forall>k < r - 1. test ! k = expected ! k)"
    using verify_double_result[of 0 n test expected "(=)"] assms by (auto simp: verify_eq verifyDouble_def)
  have "take n test = take n expected \<longleftrightarrow> (\<forall>k < n. test ! k = expected ! k)"
    using assms by (auto simp: list_eq_iff_nth_eq)
  then show ?thesis using r by (cases "r = 0") auto
qed

lemma verify_returns:
  assumes "n \<le> length test" "n \<le> length expected"
  shows "\<exists>r \<le> n. verify n test expected = Some r"
  using verify_double_result[of 0 n test expected "(=)"] assms by (force simp: verify_eq verifyDouble_def split: if_splits)

section \<open>multiply\<close>

lemma halves: "x = 2 * signed_drop_bit 1 x + (x AND 1)" for x :: s32
proof -
  have "2 * signed_drop_bit 1 x = push_bit 1 (signed_drop_bit 1 x)" by (simp add: push_bit_eq_mult)
  also have "\<dots> = x AND NOT 1"
    by (rule bit_eqI) (auto simp: bit_push_bit_iff bit_signed_drop_bit_iff bit_and_iff bit_not_iff bit_1_iff simp del: push_bit_Suc push_bit_numeral)
  finally have e: "2 * signed_drop_bit 1 x = x AND NOT 1" .
  have "(x AND NOT 1) + (x AND 1) = (x AND NOT 1) OR (x AND 1)"
    by (rule disjunctive_add_eq_or) (rule bit_eqI, auto simp: bit_simps)
  also have "\<dots> = x" by (rule bit_eqI) (auto simp: bit_simps)
  finally have "(x AND NOT 1) + (x AND 1) = x" .
  then show ?thesis unfolding e by (rule sym)
qed

text \<open>A turn keeps the sum of the result and the product that is left.\<close>

lemma multiply_turn_keeps: "multiply_turn (x, y, result) = (x', y', result') \<Longrightarrow> result' + x' * y' = result + x * y"
proof -
  assume "multiply_turn (x, y, result) = (x', y', result')"
  then have t: "x' = signed_drop_bit 1 x" "y' = 2 * y" "result' = (if x AND 1 = 1 then result + y else result)"
    by (auto simp: multiply_turn_def Let_def push_bit_eq_mult)
  have "x AND 1 = 0 \<or> x AND 1 = 1" by (simp add: and_one_eq mod_2_eq_odd)
  moreover have "x * y = 2 * signed_drop_bit 1 x * y + (x AND 1) * y" by (subst halves[of x]) (simp add: distrib_right)
  ultimately show ?thesis by (auto simp: t ac_simps)
qed

lemma multiply_turns:
  "(multiply_turn ^^ k) (x, y, 0) = (x', y', result) \<Longrightarrow> result + x' * y' = x * y \<and> y' = push_bit k y"
proof (induction k arbitrary: x' y' result)
  case 0 then show ?case by simp
next
  case (Suc k)
  obtain a b c where s: "(multiply_turn ^^ k) (x, y, 0) = (a, b, c)" by (metis prod_cases3)
  then have t: "multiply_turn (a, b, c) = (x', y', result)" using Suc.prems by simp
  have "y' = push_bit 1 b" using t by (auto simp: multiply_turn_def Let_def)
  moreover have "push_bit 1 (push_bit k y) = push_bit (Suc k) y" by simp
  ultimately show ?case using Suc.IH[OF s] multiply_turn_keeps[OF t] by metis
qed

lemma multiply_mult: "multiply x y = x * y"
proof -
  obtain a b c where s: "(multiply_turn ^^ 32) (x, y, 0) = (a, b, c)" by (metis prod_cases3)
  have "push_bit 32 y = 0" by (rule bit_eqI) (auto simp: bit_simps dest: bit_imp_le_length)
  then have "c = x * y" using multiply_turns[OF s] by (elim conjE) simp
  then show ?thesis using s by (simp add: multiply_def)
qed

section \<open>median\<close>

text \<open>The median of three is the middle one in order.\<close>

lemma median_of_middle: "median_of A B C = sort_key sint [A, B, C] ! 1"
  by (auto simp: median_of_def intro: signed_word_eqI signed_word_eqI[OF sym])

lemma median_filters:
  assumes "0 < n" "n \<le> length input" "n \<le> length results"
  shows "median n input results = Some (map (\<lambda>i. if i = 0 \<or> i = n - 1 then 0
    else sort_key sint [input ! (i - 1), input ! i, input ! (i + 1)] ! 1) [0..<n] @ drop n results)"
proof -
  let ?r = "results[0 := 0, n - 1 := 0]" and ?m = "\<lambda>i. median_of (input ! (i - 1)) (input ! i) (input ! (i + 1))"
  let ?body = "\<lambda>i results. do {
      A \<leftarrow> rd_back input i 1;
      B \<leftarrow> rd input i;
      C \<leftarrow> rd input (i + 1);
      wr results i (median_of A B C) }"
  have "\<exists>ys. for_up (n - 1 - 1) 1 ?body ?r = Some ys \<and> length ys = length results \<and>
    (\<forall>k < length results. ys ! k = (if 1 \<le> k \<and> k < 1 + (n - 1 - 1) then ?m k else ?r ! k))"
    by (rule for_up_update) (use assms in \<open>auto simp: rd_back_def\<close>)
  then obtain ys where ys: "for_up (n - 1 - 1) 1 ?body ?r = Some ys" "length ys = length results"
    "\<And>k. k < length results \<Longrightarrow> ys ! k = (if 1 \<le> k \<and> k < 1 + (n - 1 - 1) then ?m k else ?r ! k)" by blast
  have "ys = map (\<lambda>i. if i = 0 \<or> i = n - 1 then 0 else ?m i) [0..<n] @ drop n results"
    using ys(2,3) assms by (intro nth_equalityI) (auto simp: nth_append nth_list_update)
  moreover have "0 < length results" "n - 1 < length results" using assms by linarith+
  then have "median n input results = Some ys"
    using assms ys(1) by (simp add: median_def wr_back_def for_range_def)
  ultimately show ?thesis by (simp add: median_of_middle)
qed

section \<open>The other kernels\<close>

lemma multiply_all_multiplies:
  assumes "n \<le> length xs" "n \<le> length ys" "n \<le> length results"
  shows "multiply_all n xs ys results = Some (map (\<lambda>i. xs ! i * ys ! i) [0..<n] @ drop n results)"
  unfolding multiply_all_def by (rule for_range_update) (use assms in \<open>auto simp: multiply_mult\<close>)

lemma vvadd_adds:
  assumes "n \<le> length a" "n \<le> length b" "n \<le> length c"
  shows "vvadd n a b c = Some (map (\<lambda>i. a ! i + b ! i) [0..<n] @ drop n c)"
  unfolding vvadd_def by (rule for_range_update) (use assms in auto)

section \<open>The programs\<close>

text \<open>A program whose kernel writes \<open>out\<close> accepts exactly the reference data that begins with it.\<close>

lemma verified:
  assumes "n \<le> length expected" "length out = n"
  shows "verify n (out @ rest) expected = Some 0 \<longleftrightarrow> take n expected = out"
  using verify_zero[of n "out @ rest" expected] assms by auto

lemma same_verified: "n \<le> length xs \<Longrightarrow> verify n xs xs = Some 0"
  by (simp add: verify_zero)

lemma kernel_main:
  assumes k: "\<And>r. n \<le> length r \<Longrightarrow> work r = Some (out @ drop n r)" and l: "length out = n" "n \<le> length results" "n \<le> length expected"
  shows "do {
      results \<leftarrow> (if pre then work results else Some results);
      results \<leftarrow> work results;
      verify n results expected } = Some 0 \<longleftrightarrow> take n expected = out"
  using k[OF l(2)] k[of "out @ drop n results"] l verified[OF l(3,1)] by simp

lemma multiply_main_accepts:
  assumes "n \<le> length x" "n \<le> length y" "n \<le> length expected" "n \<le> length results"
  shows "multiply_main pre n x y expected results = Some 0 \<longleftrightarrow> take n expected = map (\<lambda>i. x ! i * y ! i) [0..<n]"
  unfolding multiply_main_def by (rule kernel_main) (use assms multiply_all_multiplies in simp_all)

lemma median_main_accepts:
  assumes "n \<le> length x" "n \<le> length expected" "n \<le> length results" "0 < n"
  shows "median_main pre n x expected results = Some 0 \<longleftrightarrow> take n expected =
    map (\<lambda>i. if i = 0 \<or> i = n - 1 then 0 else sort_key sint [x ! (i - 1), x ! i, x ! (i + 1)] ! 1) [0..<n]"
  unfolding median_main_def by (rule kernel_main, rule median_filters) (use assms in simp_all)

lemma vvadd_main_accepts:
  assumes "n \<le> length x" "n \<le> length y" "n \<le> length expected" "n \<le> length results"
  shows "vvadd_main pre n x y expected results = Some 0 \<longleftrightarrow> take n expected = map (\<lambda>i. x ! i + y ! i) [0..<n]"
  unfolding vvadd_main_def by (rule kernel_main) (use assms vvadd_adds in simp_all)

text \<open>With \<open>PREALLOCATE\<close> the programs sort the reference data as well, so that any order of them is accepted.\<close>

lemma qsort_main_accepts:
  assumes "n \<le> length x" "n \<le> length expected" "n + 1 < 12 * 2 ^ 24" "length stack = NSTACK"
  shows "qsort_main pre stack n x expected = Some 0 \<longleftrightarrow>
    (if pre then sort_key sint (take n expected) else take n expected) = sort_key sint (take n x)"
proof -
  have q: "quicksort stack n zs = Some (sort_key sint (take n zs) @ drop n zs)" if "n \<le> length zs" for zs
    by (rule quicksort_correct[OF that assms(3,4)])
  have "verify n (sort_key sint (take n x) @ drop n x) (sort_key sint (take n expected) @ drop n expected) = Some 0 \<longleftrightarrow>
      sort_key sint (take n expected) = sort_key sint (take n x)"
    by (subst verified) (use assms in auto)
  moreover have "verify n (sort_key sint (take n x) @ drop n x) expected = Some 0 \<longleftrightarrow> take n expected = sort_key sint (take n x)"
    by (rule verified) (use assms in auto)
  ultimately show ?thesis using q assms(1,2) same_verified[OF assms(1)] by (simp add: qsort_main_def)
qed

lemma rsort_main_accepts:
  assumes "n \<le> length x" "n \<le> length expected" "n < 2 ^ 32" "length buckets = BASE"
  shows "rsort_main pre buckets n x expected = Some 0 \<longleftrightarrow>
    (if pre then sort (take n expected) else take n expected) = sort (take n x)"
proof -
  have q: "\<exists>s'. rsort buckets n zs s = Some (sort (take n zs) @ drop n zs, s') \<and> length s' = length s"
    if "n \<le> length zs" "n \<le> length s" for zs s
    by (rule rsort_correct[OF that assms(3,4)])
  obtain s1 where 1: "rsort buckets n expected (replicate n 0) = Some (sort (take n expected) @ drop n expected, s1)" "length s1 = n"
    using q[OF assms(2), of "replicate n 0"] by auto
  obtain s2 where 2: "rsort buckets n x s1 = Some (sort (take n x) @ drop n x, s2)" using q[OF assms(1), of s1] 1(2) by auto
  obtain s3 where 3: "rsort buckets n x (replicate n 0) = Some (sort (take n x) @ drop n x, s3)" using q[OF assms(1), of "replicate n 0"] by auto
  have "verify n (sort (take n x) @ drop n x) (sort (take n expected) @ drop n expected) = Some 0 \<longleftrightarrow>
      sort (take n expected) = sort (take n x)"
    by (subst verified) (use assms in auto)
  moreover have "verify n (sort (take n x) @ drop n x) expected = Some 0 \<longleftrightarrow> take n expected = sort (take n x)"
    by (rule verified) (use assms in auto)
  ultimately show ?thesis using 1(1) 2 3 same_verified[OF assms(1)] by (simp add: rsort_main_def)
qed



end
