(* ===== verification/Mt_Lib.thy ===== *)
theory Mt_Lib
  imports C_Loops
begin

text \<open>
  What the matrix multiplications under \<open>mt/\<close> share: statements that add a product to an array
  element, unrolled blocks and loops of such statements, blocks that work on local copies of
  some elements, and the sum each element receives in the end. The elements are the C type
  \<open>int\<close> (\<open>data_t\<close> of \<open>dataset.h\<close>), so sums and products are reduced to 32 bits.
\<close>

section \<open>Statements\<close>

text \<open>\<open>X[x] += t\<close> and \<open>X[x] += A[a] * B[b]\<close>\<close>

definition add_at :: "nat \<Rightarrow> s32 \<Rightarrow> s32 list \<Rightarrow> s32 list option" where
  "add_at x t X = do { c \<leftarrow> rd X x; wr X x (c + t) }"

definition mac :: "s32 list \<Rightarrow> s32 list \<Rightarrow> nat \<Rightarrow> nat \<Rightarrow> nat \<Rightarrow> s32 list \<Rightarrow> s32 list option" where
  "mac A B a b x X = do { u \<leftarrow> rd A a; v \<leftarrow> rd B b; add_at x (u * v) X }"

text \<open>The same statement for each element of a list of indices, in turn.\<close>

fun each :: "'i list \<Rightarrow> ('i \<Rightarrow> 's \<Rightarrow> 's option) \<Rightarrow> 's \<Rightarrow> 's option" where
  "each [] body s = Some s"
| "each (i # is) body s = do { s \<leftarrow> body i s; each is body s }"

text \<open>\<open>for (i = lo; i < hi; i += st)\<close>\<close>

definition steps :: "nat \<Rightarrow> nat \<Rightarrow> nat \<Rightarrow> nat list" where
  "steps lo hi st = map (\<lambda>q. lo + q * st) [0..<(hi - lo + st - 1) div st]"

text \<open>Reading \<open>n\<close> elements into locals, and writing \<open>n\<close> locals back.\<close>

definition load :: "'a list \<Rightarrow> (nat \<Rightarrow> nat) \<Rightarrow> nat \<Rightarrow> 'a list option" where
  "load X f n = those (map (\<lambda>p. rd X (f p)) [0..<n])"

definition store :: "'a list \<Rightarrow> (nat \<Rightarrow> nat) \<Rightarrow> nat \<Rightarrow> 'a list \<Rightarrow> 'a list option" where
  "store temps f n X = each [0..<n] (\<lambda>p X. do { t \<leftarrow> rd temps p; wr X (f p) t }) X"

lemma load_eq: "(\<And>p. p < n \<Longrightarrow> f p < length X) \<Longrightarrow> load X f n = Some (map (\<lambda>p. X ! f p) [0..<n])"
proof -
  assume "\<And>p. p < n \<Longrightarrow> f p < length X"
  then have "those (map (\<lambda>p. rd X (f p)) ps) = Some (map (\<lambda>p. X ! f p) ps)" if "set ps \<subseteq> {..<n}" for ps
    using that by (induction ps) auto
  from this[of "[0..<n]"] show ?thesis by (simp add: load_def atLeast0LessThan)
qed

lemma each_cong: "(\<And>i s. i \<in> set is \<Longrightarrow> f i s = g i s) \<Longrightarrow> each is f s = each is g s"
  by (induction "is" arbitrary: s) (auto split: Option.bind_split)

section \<open>The effect of a sequence of additions\<close>

text \<open>The sum an element receives from a list of additions.\<close>

definition tgt :: "(nat \<times> s32) list \<Rightarrow> nat \<Rightarrow> s32" where
  "tgt us x = sum_list (map (\<lambda>(y, t). if y = x then t else 0) us)"

definition bump :: "(nat \<times> s32) list \<Rightarrow> s32 list \<Rightarrow> s32 list" where
  "bump us X = map (\<lambda>x. X ! x + tgt us x) [0..<length X]"

lemma tgt_simps [simp]:
  "tgt [] x = 0" "tgt ((y, t) # us) x = (if y = x then t else 0) + tgt us x" "tgt (us @ vs) x = tgt us x + tgt vs x"
  by (simp_all add: tgt_def)

lemma tgt_concat: "tgt (concat (map f is)) x = sum_list (map (\<lambda>i. tgt (f i) x) is)"
  by (induction "is") simp_all

lemma tgt_upt: "sum_list (map f [lo..<hi]) = sum f {lo..<hi}" for f :: "nat \<Rightarrow> 'a::comm_monoid_add"
  by (simp add: interv_sum_list_conv_sum_set_nat)

lemma bump_length [simp]: "length (bump us X) = length X"
  by (simp add: bump_def)

lemma bump_nth: "x < length X \<Longrightarrow> bump us X ! x = X ! x + tgt us x"
  by (simp add: bump_def)

lemma bump_Nil [simp]: "bump [] X = X"
  by (simp add: bump_def map_nth)

lemma bump_bump: "bump us (bump vs X) = bump (vs @ us) X"
  by (rule nth_equalityI) (simp_all add: bump_nth add.assoc)

lemma bump_cong: "(\<And>x. x < length X \<Longrightarrow> tgt us x = tgt vs x) \<Longrightarrow> bump us X = bump vs X"
  by (simp add: bump_def)

lemma add_at_bump: "x < length X \<Longrightarrow> add_at x t X = Some (bump [(x, t)] X)"
  by (auto simp: add_at_def bump_nth nth_list_update intro!: nth_equalityI)

lemma mac_bump: "x < length X \<Longrightarrow> a < length A \<Longrightarrow> b < length B \<Longrightarrow> mac A B a b x X = Some (bump [(x, A ! a * B ! b)] X)"
  by (simp add: mac_def add_at_bump)

lemma each_bump:
  assumes "\<And>i X. i \<in> set is \<Longrightarrow> length X = L \<Longrightarrow> body i X = Some (bump (f i) X)" "length X = L"
  shows "each is body X = Some (bump (concat (map f is)) X)"
  using assms by (induction "is" arbitrary: X) (simp_all add: bump_bump)

text \<open>Additions to local copies, written back, are additions to the elements.\<close>

lemma each_snoc: "each (is @ [j]) b s = do { s \<leftarrow> each is b s; b j s }"
  by (induction "is" arbitrary: s) (auto split: Option.bind_split)

lemma store_temps:
  assumes "length temps = n" "\<And>p. p < n \<Longrightarrow> f p < length X" "inj_on f {..<n}"
  shows "\<exists>Y. store temps f n X = Some Y \<and> length Y = length X \<and>
    (\<forall>p < n. Y ! f p = temps ! p) \<and> (\<forall>x < length X. x \<notin> f ` {..<n} \<longrightarrow> Y ! x = X ! x)"
proof -
  have "\<exists>Y. each [0..<m] (\<lambda>p X. do { t \<leftarrow> rd temps p; wr X (f p) t }) X = Some Y \<and> length Y = length X \<and>
    (\<forall>p < m. Y ! f p = temps ! p) \<and> (\<forall>x < length X. x \<notin> f ` {..<m} \<longrightarrow> Y ! x = X ! x)" if "m \<le> n" for m
    using that
  proof (induction m)
    case 0 then show ?case by simp
  next
    case (Suc m)
    then obtain Y where Y: "each [0..<m] (\<lambda>p X. do { t \<leftarrow> rd temps p; wr X (f p) t }) X = Some Y" "length Y = length X"
      "\<forall>p < m. Y ! f p = temps ! p" "\<forall>x < length X. x \<notin> f ` {..<m} \<longrightarrow> Y ! x = X ! x"
      by auto
    have ne: "f p \<noteq> f m" if "p < m" for p
      using inj_onD[OF assms(3), of p m] that Suc.prems by auto
    then show ?case using Y Suc.prems assms(1,2)
      by (simp add: each_snoc) (auto simp: nth_list_update less_Suc_eq ne ne[symmetric])
  qed
  then show ?thesis unfolding store_def by blast
qed

lemma tgt_other: "\<forall>(y, t) \<in> set us. y \<noteq> x \<Longrightarrow> tgt us x = 0"
  by (induction us) auto

lemma tgt_rename:
  assumes "inj_on f {..<n}" "\<forall>(y, t) \<in> set us. y < n" "p < n"
  shows "tgt (map (\<lambda>(y, t). (f y, t)) us) (f p) = tgt us p"
  using assms(2)
proof (induction us)
  case Nil then show ?case by simp
next
  case (Cons u us)
  obtain y t where u: "u = (y, t)" by (cases u)
  have "f y = f p \<longleftrightarrow> y = p" using Cons.prems u assms(1,3) by (auto dest: inj_onD)
  then show ?case using Cons u by simp
qed

lemma store_bump:
  assumes "\<And>p. p < n \<Longrightarrow> f p < length X" "inj_on f {..<n}" "\<forall>(y, t) \<in> set us. y < n"
  shows "store (bump us (map (\<lambda>p. X ! f p) [0..<n])) f n X = Some (bump (map (\<lambda>(y, t). (f y, t)) us) X)"
proof -
  let ?temps = "bump us (map (\<lambda>p. X ! f p) [0..<n])"
  obtain Y where Y: "store ?temps f n X = Some Y" "length Y = length X"
    "\<forall>p < n. Y ! f p = ?temps ! p" "\<forall>x < length X. x \<notin> f ` {..<n} \<longrightarrow> Y ! x = X ! x"
    using store_temps[of ?temps n f X] assms(1,2) by auto
  have "Y ! x = bump (map (\<lambda>(y, t). (f y, t)) us) X ! x" if x: "x < length X" for x
  proof (cases "x \<in> f ` {..<n}")
    case True
    then obtain p where p: "p < n" "x = f p" by auto
    then show ?thesis using Y(3) x tgt_rename[OF assms(2,3) p(1)] by (simp add: bump_nth)
  next
    case False
    have "tgt (map (\<lambda>(y, t). (f y, t)) us) x = 0"
      by (rule tgt_other) (use False assms(3) in fastforce)
    then show ?thesis using Y(4) x False by (simp add: bump_nth)
  qed
  then show ?thesis using Y(1,2) by (auto intro: nth_equalityI)
qed

section \<open>The product of two square matrices\<close>

definition prod_term :: "nat \<Rightarrow> s32 list \<Rightarrow> s32 list \<Rightarrow> nat \<Rightarrow> nat \<Rightarrow> nat \<Rightarrow> s32" where
  "prod_term n A B j k i = A ! (j * n + k) * B ! (k * n + i)"

definition product :: "nat \<Rightarrow> s32 list \<Rightarrow> s32 list \<Rightarrow> nat \<Rightarrow> nat \<Rightarrow> s32" where
  "product n A B j i = (\<Sum>k < n. prod_term n A B j k i)"

text \<open>
  \<open>C'\<close> is \<open>C\<close> with the elements of the product at the positions \<open>R\<close> (row, column) added; the
  rest of the array is unchanged.
\<close>

definition adds_product :: "nat \<Rightarrow> (nat \<times> nat) set \<Rightarrow> s32 list \<Rightarrow> s32 list \<Rightarrow> s32 list \<Rightarrow> s32 list \<Rightarrow> bool" where
  "adds_product n R A B C C' \<longleftrightarrow> length C' = length C \<and> drop (n * n) C' = drop (n * n) C \<and>
    (\<forall>j < n. \<forall>i < n. C' ! (i + j * n) = C ! (i + j * n) + (if (j, i) \<in> R then product n A B j i else 0))"

lemma index_eq: "i < n \<Longrightarrow> i' < n \<Longrightarrow> i' + j' * n = i + j * n \<longleftrightarrow> i' = i \<and> j' = (j :: nat)"
proof
  assume i: "i < n" "i' < n" and e: "i' + j' * n = i + j * n"
  have "(i' + j' * n) mod n = i'" "(i + j * n) mod n = i" using i by simp_all
  then have "i' = i" using e by simp
  then show "i' = i \<and> j' = j" using e i by simp
qed simp

lemma pick:
  fixes T :: "nat \<Rightarrow> nat \<Rightarrow> nat \<Rightarrow> 'a::comm_monoid_add"
  assumes "finite J" "finite I" "I \<subseteq> {..<n}" "i < n"
  shows "(\<Sum>j' \<in> J. \<Sum>k \<in> K. \<Sum>i' \<in> I. if i' + j' * n = i + j * n then T j' k i' else 0) =
    (if j \<in> J \<and> i \<in> I then \<Sum>k \<in> K. T j k i else 0)"
proof -
  have "(\<Sum>i' \<in> I. if i' + j' * n = i + j * n then T j' k i' else 0) =
      (if j' = j then if i \<in> I then T j k i else 0 else 0)" for j' k
  proof -
    have "(\<Sum>i' \<in> I. if i' + j' * n = i + j * n then T j' k i' else 0) =
        (\<Sum>i' \<in> I. if i = i' then (if j' = j then T j k i else 0) else 0)"
      by (rule sum.cong) (use index_eq[OF assms(4)] assms(3) in auto)
    then show ?thesis using assms(2) by simp
  qed
  then have "(\<Sum>j' \<in> J. \<Sum>k \<in> K. \<Sum>i' \<in> I. if i' + j' * n = i + j * n then T j' k i' else 0) =
      (\<Sum>j' \<in> J. if j = j' then \<Sum>k \<in> K. if i \<in> I then T j k i else 0 else 0)"
    by (intro sum.cong refl) simp
  then show ?thesis using assms(1) by simp
qed

text \<open>A sum over tiles is the sum over all of them.\<close>

lemma sum_tiles: "(\<Sum>m < M. \<Sum>r < R. f (r + R * m)) = (\<Sum>k < R * M. f k)"
  for f :: "nat \<Rightarrow> 'a::comm_monoid_add"
proof -
  have "(\<Sum>m < M. \<Sum>r < R. f (r + R * m)) = (\<Sum>m < M. sum f {m * R..<m * R + R})"
  proof (rule sum.cong[OF refl])
    fix m
    show "(\<Sum>r < R. f (r + R * m)) = sum f {m * R..<m * R + R}"
      using sum.shift_bounds_nat_ivl[of f 0 "m * R" R] by (simp add: atLeast0LessThan mult.commute add.commute)
  qed
  then show ?thesis using sum.nat_group[of f R M] by (simp add: mult.commute)
qed

lemma sum_tiles2: "(\<Sum>m < M. \<Sum>n < N. \<Sum>r < R. \<Sum>b < S. g (r + R * m) (b + S * n)) = (\<Sum>k < R * M. \<Sum>i < S * N. g k i)"
  for g :: "nat \<Rightarrow> nat \<Rightarrow> 'a::comm_monoid_add"
proof -
  have "(\<Sum>n < N. \<Sum>r < R. \<Sum>b < S. g (r + R * m) (b + S * n)) = (\<Sum>r < R. \<Sum>i < S * N. g (r + R * m) i)" for m
    by (subst sum.swap) (simp add: sum_tiles)
  then show ?thesis using sum_tiles[of "\<lambda>k. \<Sum>i < S * N. g k i" R M] by simp
qed

text \<open>The updates of a loop nest in any order add the product when their sums are those of the product.\<close>

lemma bump_adds_product:
  assumes "\<And>i j. i < n \<Longrightarrow> j < n \<Longrightarrow> tgt us (i + j * n) = (if (j, i) \<in> R then product n A B j i else 0)"
    and "\<And>y t. (y, t) \<in> set us \<Longrightarrow> y < n * n" and "n * n \<le> length C"
  shows "adds_product n R A B C (bump us C)"
proof -
  have "i + j * n < n * n" if "i < n" "j < n" for i j
    using square_index_less[OF that(2,1)] by (simp add: add.commute)
  then have "\<forall>j < n. \<forall>i < n. bump us C ! (i + j * n) =
      C ! (i + j * n) + (if (j, i) \<in> R then product n A B j i else 0)"
    using assms(1,3) by (intro allI impI, subst bump_nth) (force, simp)
  moreover have "drop (n * n) (bump us C) = drop (n * n) C"
  proof (rule nth_equalityI)
    fix x assume x: "x < length (drop (n * n) (bump us C))"
    have "tgt us (n * n + x) = 0" by (rule tgt_other) (use assms(2) in fastforce)
    then show "drop (n * n) (bump us C) ! x = drop (n * n) C ! x" using x assms(3) by (simp add: bump_nth)
  qed simp
  ultimately show ?thesis by (simp add: adds_product_def)
qed

lemma adds_product_length: "adds_product n R A B C C' \<Longrightarrow> length C' = length C"
  by (simp add: adds_product_def)

lemma adds_product_refl: "adds_product n {} A B C C"
  by (simp add: adds_product_def)

lemma adds_product_trans:
  assumes "adds_product n R A B C C'" "adds_product n R' A B C' C''" "R \<inter> R' = {}"
  shows "adds_product n (R \<union> R') A B C C''"
  using assms unfolding adds_product_def by (auto simp: add.assoc)

lemma adds_product_cong:
  "adds_product n R A B C C' \<Longrightarrow> (\<And>j i. j < n \<Longrightarrow> i < n \<Longrightarrow> (j, i) \<in> R \<longleftrightarrow> (j, i) \<in> R') \<Longrightarrow> adds_product n R' A B C C'"
  unfolding adds_product_def by auto

text \<open>Steps that add disjoint parts add their union, in whatever order they run.\<close>

lemma each_adds_product:
  assumes "\<And>x C. x \<in> set xs \<Longrightarrow> length C = L \<Longrightarrow> \<exists>C'. body x C = Some C' \<and> adds_product n (R x) A B C C'"
    and "distinct xs" "\<And>x y. x \<in> set xs \<Longrightarrow> y \<in> set xs \<Longrightarrow> x \<noteq> y \<Longrightarrow> R x \<inter> R y = {}" "length C = L"
  shows "\<exists>C'. each xs body C = Some C' \<and> adds_product n (\<Union>x \<in> set xs. R x) A B C C'"
  using assms
proof (induction xs arbitrary: C)
  case Nil then show ?case by (simp add: adds_product_refl)
next
  case (Cons x xs)
  obtain C1 where C1: "body x C = Some C1" "adds_product n (R x) A B C C1"
    using Cons.prems(1)[of x C] Cons.prems(4) by auto
  then have l: "length C1 = L" using Cons.prems(4) by (simp add: adds_product_length)
  obtain C2 where C2: "each xs body C1 = Some C2" "adds_product n (\<Union>x \<in> set xs. R x) A B C1 C2"
  proof (rule exE[OF Cons.IH[OF _ _ _ l]], goal_cases)
    case (1 x C) then show ?case using Cons.prems(1) by simp
  next
    case 2 then show ?case using Cons.prems(2) by simp
  next
    case (3 x y) then show ?case using Cons.prems(3) by simp
  qed blast
  have d: "R x \<inter> (\<Union>x \<in> set xs. R x) = {}" using Cons.prems(2,3) by fastforce
  show ?case using C1(1) C2(1) adds_product_trans[OF C1(2) C2(2) d] by simp
qed

text \<open>The two cores in either order.\<close>

lemma both_cores:
  assumes "\<And>C. length C = L \<Longrightarrow> \<exists>C'. body 0 C = Some C' \<and> adds_product n R A B C C'"
    and "\<And>C. length C = L \<Longrightarrow> \<exists>C'. body (1 :: nat) C = Some C' \<and> adds_product n R' A B C C'"
    and "R \<inter> R' = {}" "\<And>j i. j < n \<Longrightarrow> i < n \<Longrightarrow> (j, i) \<in> R \<union> R'" "length C = L"
    and "distinct ids" "set ids = {0, 1}"
  shows "\<exists>C'. each ids body C = Some C' \<and> adds_product n UNIV A B C C'"
proof -
  have "\<exists>C'. each ids body C = Some C' \<and>
      adds_product n (\<Union>x \<in> set ids. if x = 0 then R else R') A B C C'"
  proof (rule each_adds_product[OF _ assms(6) _ assms(5)], goal_cases)
    case (1 x D)
    then have "x = 0 \<or> x = 1" unfolding assms(7) by simp
    then show ?case using assms(1,2)[OF 1(2)] by (elim disjE) simp_all
  next
    case (2 x y)
    then have "(x = 0 \<and> y = 1) \<or> (x = 1 \<and> y = 0)" unfolding assms(7) by auto
    then show ?case using assms(3) by (elim disjE) (simp_all add: Int_commute)
  qed
  then obtain C' where C': "each ids body C = Some C'"
    "adds_product n (\<Union>x \<in> set ids. if x = 0 then R else R') A B C C'" by blast
  have "(\<Union>x \<in> set ids. if x = 0 then R else R') = R \<union> R'" unfolding assms(7) by auto
  then have "adds_product n UNIV A B C C'" using adds_product_cong[OF C'(2)] assms(4) by simp
  then show ?thesis using C'(1) by blast
qed

end
