(* ===== verification/Mt_Terms.thy ===== *)
theory Mt_Terms
  imports Mt_Lib
begin

text \<open>
  A calculus for loop nests that add terms to array elements: \<open>does g F L T body\<close> states that
  \<open>body\<close>, run on any array of \<open>L\<close> elements, succeeds and adds every term \<open>t\<close> of the set \<open>T\<close>, whose
  value is \<open>F t\<close>, to the element \<open>g t\<close>. The rules follow the program: single statements, sequences,
  loops, blocks that work on local copies. \<open>puts\<close> is the same for code that overwrites elements.
\<close>

section \<open>Adding terms\<close>

definition does :: "('t \<Rightarrow> nat) \<Rightarrow> ('t \<Rightarrow> s32) \<Rightarrow> nat \<Rightarrow> 't set \<Rightarrow> (s32 list \<Rightarrow> s32 list option) \<Rightarrow> bool" where
  "does g F L T body \<longleftrightarrow> finite T \<and> (\<forall>X. length X = L \<longrightarrow> (\<exists>X'. body X = Some X' \<and> length X' = L \<and>
    (\<forall>x < L. X' ! x = X ! x + (\<Sum>t \<in> {t \<in> T. g t = x}. F t))))"

lemma doesD:
  assumes "does g F L T body" "length X = L"
  obtains X' where "body X = Some X'" "length X' = L" "\<And>x. x < L \<Longrightarrow> X' ! x = X ! x + (\<Sum>t \<in> {t \<in> T. g t = x}. F t)"
  using assms unfolding does_def by blast

lemma does_finite: "does g F L T body \<Longrightarrow> finite T"
  by (simp add: does_def)

lemma does_cong:
  assumes "does g F L T body" "\<And>X. length X = L \<Longrightarrow> body' X = body X" "T' = T"
  shows "does g F L T' body'"
  using assms unfolding does_def by simp

lemma does_skip: "does g F L {} Some"
  by (simp add: does_def)

lemma does_sum:
  assumes "finite T" "\<And>t. t \<in> T \<Longrightarrow> g t = x" "x < L" "v = (\<Sum>t \<in> T. F t)"
  shows "does g F L T (add_at x v)"
  unfolding does_def
proof (intro conjI allI impI assms(1))
  fix X :: "s32 list" assume X: "length X = L"
  have "{t \<in> T. g t = y} = (if y = x then T else {})" for y using assms(2) by auto
  then show "\<exists>X'. add_at x v X = Some X' \<and> length X' = L \<and>
      (\<forall>y < L. X' ! y = X ! y + (\<Sum>t \<in> {t \<in> T. g t = y}. F t))"
    using X assms(3,4) by (auto simp: add_at_bump bump_nth)
qed

lemma does_one: "g t < L \<Longrightarrow> x = g t \<Longrightarrow> v = F t \<Longrightarrow> does g F L {t} (add_at x v)"
  by (rule does_sum) auto

lemma does_bind:
  assumes "does g F L T b" "does g F L T' b'" "T \<inter> T' = {}"
  shows "does g F L (T \<union> T') (\<lambda>X. Option.bind (b X) b')"
  unfolding does_def
proof (intro conjI allI impI)
  show "finite (T \<union> T')" using assms(1,2) by (simp add: does_def)
  fix X :: "s32 list" assume X: "length X = L"
  obtain X1 where X1: "b X = Some X1" "length X1 = L" "\<And>x. x < L \<Longrightarrow> X1 ! x = X ! x + (\<Sum>t \<in> {t \<in> T. g t = x}. F t)"
    using doesD[OF assms(1) X] by blast
  obtain X2 where X2: "b' X1 = Some X2" "length X2 = L" "\<And>x. x < L \<Longrightarrow> X2 ! x = X1 ! x + (\<Sum>t \<in> {t \<in> T'. g t = x}. F t)"
    using doesD[OF assms(2) X1(2)] by blast
  have "(\<Sum>t \<in> {t \<in> T \<union> T'. g t = x}. F t) = (\<Sum>t \<in> {t \<in> T. g t = x}. F t) + (\<Sum>t \<in> {t \<in> T'. g t = x}. F t)" for x
  proof -
    have "{t \<in> T \<union> T'. g t = x} = {t \<in> T. g t = x} \<union> {t \<in> T'. g t = x}" by auto
    moreover have "{t \<in> T. g t = x} \<inter> {t \<in> T'. g t = x} = {}" using assms(3) by auto
    ultimately show ?thesis using does_finite[OF assms(1)] does_finite[OF assms(2)] by (simp add: sum.union_disjoint)
  qed
  then show "\<exists>X'. Option.bind (b X) b' = Some X' \<and> length X' = L \<and>
      (\<forall>x < L. X' ! x = X ! x + (\<Sum>t \<in> {t \<in> T \<union> T'. g t = x}. F t))"
    using X1 X2 by (auto simp: add.assoc)
qed

text \<open>The passes of a loop, given by the parts \<open>S i\<close> they contribute, split the set \<open>U\<close>.\<close>

definition splits :: "'i list \<Rightarrow> ('i \<Rightarrow> 'a set) \<Rightarrow> 'a set \<Rightarrow> bool" where
  "splits is S U \<longleftrightarrow> distinct is \<and> (\<forall>i \<in> set is. \<forall>j \<in> set is. i \<noteq> j \<longrightarrow> S i \<inter> S j = {}) \<and> (\<Union>i \<in> set is. S i) = U"

lemma does_each:
  assumes "splits is T U" "\<And>i. i \<in> set is \<Longrightarrow> does g F L (T i) (body i)"
  shows "does g F L U (each is body)"
  using assms
proof (induction "is" arbitrary: U)
  case Nil then show ?case by (simp add: splits_def does_def)
next
  case (Cons i "is")
  let ?U = "\<Union>j \<in> set is. T j"
  have s: "splits is T ?U" "T i \<inter> ?U = {}" "U = T i \<union> ?U"
    using Cons.prems(1) by (auto simp: splits_def)
  have "does g F L (T i \<union> ?U) (\<lambda>X. Option.bind (body i X) (each is body))"
    by (rule does_bind[OF Cons.prems(2) Cons.IH s(2)]) (use s(1) Cons.prems(2) in auto)
  then show ?case using s(3) by (simp add: does_def)
qed

subsection \<open>How loops split a range\<close>

lemma splits_rev [simp]: "splits (rev is) S U \<longleftrightarrow> splits is S U"
  by (simp add: splits_def)

lemma splits_upt: "splits [lo..<hi] (\<lambda>i. {i}) {lo..<hi}"
  by (auto simp: splits_def)

lemma splits_unroll: "splits [0..<w] (\<lambda>p. {a + p}) {a..<a + w}"
proof -
  have "(\<Union>p \<in> set [0..<w]. {a + p}) = {a..<a + w}"
    using image_add_atLeastLessThan[of a 0 w] by (simp add: add.commute image_image UNION_singleton_eq_range)
  then show ?thesis by (simp add: splits_def)
qed

lemma tiles:
  assumes "0 < st"
  shows "(\<Union>q \<in> {0..<m}. {lo + q * st..<lo + q * st + st}) = {lo..<lo + m * st :: nat}"
proof (intro set_eqI iffI)
  fix x assume "x \<in> (\<Union>q \<in> {0..<m}. {lo + q * st..<lo + q * st + st})"
  then obtain q where q: "q < m" "lo + q * st \<le> x" "x < lo + q * st + st" by auto
  have "Suc q * st \<le> m * st" using q(1) by (intro mult_le_mono1) simp
  then show "x \<in> {lo..<lo + m * st}" using q by simp
next
  fix x assume x: "x \<in> {lo..<lo + m * st}"
  let ?q = "(x - lo) div st"
  have q: "?q < m" using x assms by (intro less_mult_imp_div_less) auto
  have "?q * st \<le> x - lo" "x - lo < st + ?q * st" "lo \<le> x"
    using x assms dividend_less_times_div[of st "x - lo"] by (simp_all add: mult.commute del: minus_div_mult_eq_mod)
  then have "lo + ?q * st \<le> x \<and> x < lo + ?q * st + st" by linarith
  then show "x \<in> (\<Union>q \<in> {0..<m}. {lo + q * st..<lo + q * st + st})" using q by (intro UN_I[of ?q]) auto
qed

lemma tiles_disjoint: "q \<noteq> r \<Longrightarrow> {lo + q * st..<lo + q * st + st} \<inter> {lo + r * st..<lo + r * st + st} = ({} :: nat set)"
proof -
  have *: "{lo + q * st..<lo + q * st + st} \<inter> {lo + r * st..<lo + r * st + st} = {}" if "q < r" for q r :: nat
  proof -
    have "Suc q * st \<le> r * st" using that by (intro mult_le_mono1) simp
    then show ?thesis by auto
  qed
  assume "q \<noteq> r"
  then show ?thesis using *[of q r] *[of r q] by (cases "q < r") (auto simp: Int_commute)
qed

lemma steps_count:
  fixes st hi lo :: nat
  assumes "st dvd hi - lo" "0 < st"
  shows "(hi - lo + st - 1) div st = (hi - lo) div st"
proof -
  obtain m where m: "hi - lo = st * m" using assms(1) by (auto elim: dvdE)
  have "(st * m + (st - 1)) div st = m" by (rule div_nat_eqI) (use assms(2) in \<open>simp_all add: mult.commute\<close>)
  then show ?thesis using m assms(2) by simp
qed

lemma splits_map_tiles:
  assumes "0 < st" "\<And>q. q < m \<Longrightarrow> S (f q) = {lo + q * st..<lo + q * st + st}" "inj_on f {0..<m}"
  shows "splits (map f [0..<m]) S {lo..<lo + m * st}"
  unfolding splits_def
proof (intro conjI ballI impI)
  show "distinct (map f [0..<m])" using assms(3) by (simp add: distinct_map)
  show "(\<Union>i \<in> set (map f [0..<m]). S i) = {lo..<lo + m * st}"
    using assms(2) tiles[OF assms(1), where m = m and lo = lo] by simp
  fix i j assume "i \<in> set (map f [0..<m])" "j \<in> set (map f [0..<m])" "i \<noteq> j"
  then obtain q r where "q < m" "r < m" "i = f q" "j = f r" by auto
  with \<open>i \<noteq> j\<close> have "q \<noteq> r" by auto
  with \<open>q < m\<close> \<open>r < m\<close> \<open>i = f q\<close> \<open>j = f r\<close> show "S i \<inter> S j = {}" using assms(2) tiles_disjoint[where lo = lo and st = st and q = q and r = r] by (simp del: Int_atLeastLessThan)
qed

lemma splits_steps:
  assumes "lo \<le> hi" "st dvd hi - lo" "0 < st"
  shows "splits (steps lo hi st) (\<lambda>i. {i..<i + st}) {lo..<hi}"
proof -
  have "lo + (hi - lo) div st * st = hi" using assms by simp
  then show ?thesis
    unfolding steps_def steps_count[OF assms(2,3)]
    using splits_map_tiles[of st "(hi - lo) div st" "\<lambda>i. {i..<i + st}" "\<lambda>q. lo + q * st" lo] assms(3)
    by (simp add: inj_on_def)
qed

lemma steps_mem:
  assumes "i \<in> set (steps lo hi st)" "st dvd hi - lo" "0 < st"
  shows "lo \<le> i" "i + st \<le> hi" "st dvd i - lo"
proof -
  obtain q where q: "q < (hi - lo) div st" "i = lo + q * st"
    using assms(1) unfolding steps_def steps_count[OF assms(2,3)] by auto
  have "Suc q * st \<le> (hi - lo) div st * st" using q(1) by (intro mult_le_mono1) simp
  then have "Suc q * st \<le> hi - lo" using assms(2) by simp
  then show "lo \<le> i" "i + st \<le> hi" "st dvd i - lo" using q(2) assms(3) by auto
qed

text \<open>\<open>for (i = hi - 1; i >= lo; i -= st)\<close>\<close>

definition downs :: "nat \<Rightarrow> nat \<Rightarrow> nat \<Rightarrow> nat list" where
  "downs lo hi st = map (\<lambda>q. hi - 1 - q * st) [0..<(hi - lo + st - 1) div st]"

lemma downs_eq:
  assumes "lo \<le> hi" "st dvd hi - lo" "0 < st"
  shows "downs lo hi st = map (\<lambda>q. lo + q * st + (st - 1)) (rev [0..<(hi - lo) div st])"
proof -
  obtain m where m: "hi = lo + m * st" using assms(1,2) by (metis dvdE le_add_diff_inverse mult.commute)
  have "lo + m * st - 1 - q * st = lo + (m - 1 - q) * st + (st - 1)" if q: "q < m" for q
  proof -
    have e: "m = Suc (q + (m - 1 - q))" using q by simp
    have "m * st = st + (q * st + (m - 1 - q) * st)" by (subst e) (simp only: mult_Suc add_mult_distrib)
    then show ?thesis using assms(3) by simp
  qed
  then have "downs lo hi st = map (\<lambda>q. lo + (m - 1 - q) * st + (st - 1)) [0..<m]"
    unfolding downs_def steps_count[OF assms(2,3)] using m assms(3) by simp
  also have "\<dots> = map (\<lambda>q. lo + q * st + (st - 1)) (map (\<lambda>q. m - 1 - q) [0..<m])" by simp
  also have "map (\<lambda>q. m - 1 - q) [0..<m] = rev [0..<m]"
    by (rule nth_equalityI) (simp_all add: rev_nth)
  finally show ?thesis using m assms(3) by simp
qed

lemma splits_downs:
  assumes "lo \<le> hi" "st dvd hi - lo" "0 < st"
  shows "splits (downs lo hi st) (\<lambda>i. {i - (st - 1)..<i + 1}) {lo..<hi}"
proof -
  have "lo + (hi - lo) div st * st = hi" using assms by simp
  moreover have "splits (map (\<lambda>q. lo + q * st + (st - 1)) [0..<(hi - lo) div st]) (\<lambda>i. {i - (st - 1)..<i + 1})
      {lo..<lo + (hi - lo) div st * st}"
  proof (rule splits_map_tiles)
    show "inj_on (\<lambda>q. lo + q * st + (st - 1)) {0..<(hi - lo) div st}"
    proof (rule inj_onI)
      fix x y assume "lo + x * st + (st - 1) = lo + y * st + (st - 1)"
      then have "x * st = y * st" by linarith
      then show "x = y" using assms(3) by simp
    qed
  qed (use assms(3) in simp_all)
  ultimately show ?thesis unfolding downs_eq[OF assms] rev_map[symmetric] splits_rev by simp
qed

lemma downs_mem:
  assumes "i \<in> set (downs lo hi st)" "lo \<le> hi" "st dvd hi - lo" "0 < st"
  obtains i0 where "i = i0 + (st - 1)" "lo \<le> i0" "i0 + st \<le> hi" "st dvd i0 - lo"
proof -
  obtain q where q: "q < (hi - lo) div st" "i = lo + q * st + (st - 1)"
    using assms(1) unfolding downs_eq[OF assms(2-4)] by auto
  have "Suc q * st \<le> (hi - lo) div st * st" using q(1) by (intro mult_le_mono1) simp
  then have "Suc q * st \<le> hi - lo" using assms(3) by simp
  then show ?thesis using q(2) assms(4) by (intro that[of "lo + q * st"]) auto
qed

text \<open>The cores, each with its share.\<close>

lemma splits_cores:
  fixes s ncores :: nat
  assumes "distinct ids" "set ids = {0..<ncores}" "0 < s"
  shows "splits ids (\<lambda>q. {q * s..<(q + 1) * s}) {0..<ncores * s}"
  unfolding splits_def assms(2)
proof (intro conjI ballI impI assms(1))
  show "(\<Union>q \<in> {0..<ncores}. {q * s..<(q + 1) * s}) = {0..<ncores * s}"
    using tiles[OF assms(3), where m = ncores and lo = 0] by (simp add: add.commute)
  show "{q * s..<(q + 1) * s} \<inter> {r * s..<(r + 1) * s} = {}" if "q \<noteq> r" for q r
    using tiles_disjoint[OF that, where lo = 0 and st = s] by (simp add: add.commute)
qed

section \<open>Local copies\<close>

lemma does_block:
  assumes "does h F m T body" "\<And>p. p < m \<Longrightarrow> f p < L" "inj_on f {..<m}" "\<And>t. t \<in> T \<Longrightarrow> h t < m \<and> f (h t) = g t"
  shows "does g F L T (\<lambda>X. do { temps \<leftarrow> load X f m; temps \<leftarrow> body temps; store temps f m X })"
  unfolding does_def
proof (intro conjI allI impI does_finite[OF assms(1)])
  fix X :: "s32 list" assume X: "length X = L"
  let ?t0 = "map (\<lambda>p. X ! f p) [0..<m]"
  have l: "load X f m = Some ?t0" by (rule load_eq) (use assms(2) X in simp)
  have "length ?t0 = m" by simp
  from doesD[OF assms(1) this] obtain ts where
    ts: "body ?t0 = Some ts" "length ts = m" "\<And>p. p < m \<Longrightarrow> ts ! p = ?t0 ! p + (\<Sum>t \<in> {t \<in> T. h t = p}. F t)"
    by blast
  obtain Y where Y: "store ts f m X = Some Y" "length Y = length X" "\<forall>p < m. Y ! f p = ts ! p"
    "\<forall>x < length X. x \<notin> f ` {..<m} \<longrightarrow> Y ! x = X ! x"
    using store_temps[OF ts(2), of f X] assms(2,3) X by blast
  have "Y ! x = X ! x + (\<Sum>t \<in> {t \<in> T. g t = x}. F t)" if x: "x < L" for x
  proof (cases "x \<in> f ` {..<m}")
    case True
    then obtain p where p: "p < m" "x = f p" by auto
    have "{t \<in> T. g t = x} = {t \<in> T. h t = p}"
      using assms(4) p inj_onD[OF assms(3)] by (metis (no_types, lifting) lessThan_iff)
    then show ?thesis using Y(3) ts(3)[OF p(1)] p by simp
  next
    case False
    have "{t \<in> T. g t = x} = {}"
    proof (rule ccontr)
      assume "{t \<in> T. g t = x} \<noteq> {}"
      then obtain t where "t \<in> T" "g t = x" by auto
      then show False using False assms(4)[of t] by (metis imageI lessThan_iff)
    qed
    then have "(\<Sum>t \<in> {t \<in> T. g t = x}. F t) = 0" by (simp only: sum.empty)
    then show ?thesis using Y(4) X x False by simp
  qed
  then show "\<exists>X'. (do { temps \<leftarrow> load X f m; temps \<leftarrow> body temps; store temps f m X }) = Some X' \<and>
      length X' = L \<and> (\<forall>x < L. X' ! x = X ! x + (\<Sum>t \<in> {t \<in> T. g t = x}. F t))"
    using l ts(1) Y(1,2) X by auto
qed

section \<open>Overwriting elements\<close>

definition puts :: "(nat \<Rightarrow> s32) \<Rightarrow> nat \<Rightarrow> nat set \<Rightarrow> (s32 list \<Rightarrow> s32 list option) \<Rightarrow> bool" where
  "puts V L P body \<longleftrightarrow> (\<forall>X. length X = L \<longrightarrow> (\<exists>X'. body X = Some X' \<and> length X' = L \<and>
    (\<forall>x < L. X' ! x = (if x \<in> P then V x else X ! x))))"

lemma putsD:
  assumes "puts V L P body" "length X = L"
  obtains X' where "body X = Some X'" "length X' = L" "\<And>x. x < L \<Longrightarrow> X' ! x = (if x \<in> P then V x else X ! x)"
  using assms unfolding puts_def by blast

lemma puts_cong:
  assumes "puts V L P body" "\<And>X. length X = L \<Longrightarrow> body' X = body X" "P' = P"
  shows "puts V L P' body'"
  using assms unfolding puts_def by simp

lemma puts_skip: "puts V L {} Some"
  by (simp add: puts_def)

lemma puts_one: "x < L \<Longrightarrow> v = V x \<Longrightarrow> puts V L {x} (\<lambda>X. wr X x v)"
  by (simp add: puts_def nth_list_update)

lemma puts_bind:
  assumes "puts V L P b" "puts V L P' b'"
  shows "puts V L (P \<union> P') (\<lambda>X. Option.bind (b X) b')"
  unfolding puts_def
proof (intro allI impI)
  fix X :: "s32 list" assume X: "length X = L"
  obtain X1 where X1: "b X = Some X1" "length X1 = L" "\<And>x. x < L \<Longrightarrow> X1 ! x = (if x \<in> P then V x else X ! x)"
    using putsD[OF assms(1) X] by blast
  obtain X2 where X2: "b' X1 = Some X2" "length X2 = L" "\<And>x. x < L \<Longrightarrow> X2 ! x = (if x \<in> P' then V x else X1 ! x)"
    using putsD[OF assms(2) X1(2)] by blast
  show "\<exists>X'. Option.bind (b X) b' = Some X' \<and> length X' = L \<and> (\<forall>x < L. X' ! x = (if x \<in> P \<union> P' then V x else X ! x))"
    using X1 X2 by auto
qed

lemma puts_each:
  assumes "\<And>i. i \<in> set is \<Longrightarrow> puts V L (P i) (body i)"
  shows "puts V L (\<Union>i \<in> set is. P i) (each is body)"
  using assms
proof (induction "is")
  case Nil then show ?case by (simp add: puts_def)
next
  case (Cons i "is")
  have "puts V L (P i \<union> (\<Union>i \<in> set is. P i)) (\<lambda>X. Option.bind (body i X) (each is body))"
    by (rule puts_bind) (use Cons in auto)
  then show ?case by (simp add: puts_def)
qed

lemma puts_block:
  assumes "does h F m T body" "\<And>p. p < m \<Longrightarrow> f p < L" "inj_on f {..<m}"
    and "\<And>p. p < m \<Longrightarrow> V (f p) = (\<Sum>t \<in> {t \<in> T. h t = p}. F t)"
  shows "puts V L (f ` {..<m}) (\<lambda>X. do { temps \<leftarrow> body (replicate m 0); store temps f m X })"
  unfolding puts_def
proof (intro allI impI)
  fix X :: "s32 list" assume X: "length X = L"
  have "length (replicate m (0 :: s32)) = m" by simp
  from doesD[OF assms(1) this] obtain ts where ts: "body (replicate m 0) = Some ts" "length ts = m"
    "\<And>p. p < m \<Longrightarrow> ts ! p = replicate m 0 ! p + (\<Sum>t \<in> {t \<in> T. h t = p}. F t)" by blast
  obtain Y where Y: "store ts f m X = Some Y" "length Y = length X" "\<forall>p < m. Y ! f p = ts ! p"
    "\<forall>x < length X. x \<notin> f ` {..<m} \<longrightarrow> Y ! x = X ! x"
    using store_temps[OF ts(2), of f X] assms(2,3) X by blast
  have "\<forall>p < m. Y ! f p = V (f p)" using Y(3) ts(3) assms(4) by simp
  then have "\<forall>x < L. Y ! x = (if x \<in> f ` {..<m} then V x else X ! x)" using Y(4) X by auto
  then show "\<exists>X'. (do { temps \<leftarrow> body (replicate m 0); store temps f m X }) = Some X' \<and> length X' = L \<and>
      (\<forall>x < L. X' ! x = (if x \<in> f ` {..<m} then V x else X ! x))"
    using ts(1) Y(1,2) X by auto
qed

section \<open>The terms of a matrix product\<close>

text \<open>The term \<open>A[j*n+k] * B[k*n+i]\<close> is named by \<open>(j, k, i)\<close> and belongs to \<open>C[i+j*n]\<close>.\<close>

fun cell :: "nat \<Rightarrow> nat \<times> nat \<times> nat \<Rightarrow> nat" where
  "cell n (j, k, i) = i + j * n"

fun trm :: "nat \<Rightarrow> s32 list \<Rightarrow> s32 list \<Rightarrow> nat \<times> nat \<times> nat \<Rightarrow> s32" where
  "trm n A B (j, k, i) = A ! (j * n + k) * B ! (k * n + i)"

abbreviation adds :: "nat \<Rightarrow> s32 list \<Rightarrow> s32 list \<Rightarrow> nat \<Rightarrow> (nat \<times> nat \<times> nat) set \<Rightarrow> (s32 list \<Rightarrow> s32 list option) \<Rightarrow> bool" where
  "adds n A B \<equiv> does (cell n) (trm n A B)"

lemma splits_times:
  assumes "splits is S U"
  shows "splits is (\<lambda>x. S x \<times> Z) (U \<times> Z)" "splits is (\<lambda>x. Z \<times> S x) (Z \<times> U)"
proof -
  have d: "S x \<inter> S y = {}" if "x \<in> set is" "y \<in> set is" "x \<noteq> y" for x y
    using assms that unfolding splits_def by blast
  show "splits is (\<lambda>x. S x \<times> Z) (U \<times> Z)" "splits is (\<lambda>x. Z \<times> S x) (Z \<times> U)"
    using assms d unfolding splits_def by (auto simp: Times_Int_Times)
qed

lemma does_rows: "splits is J U \<Longrightarrow> (\<And>x. x \<in> set is \<Longrightarrow> does g F L (J x \<times> K \<times> I) (body x)) \<Longrightarrow> does g F L (U \<times> K \<times> I) (each is body)"
  by (rule does_each[OF splits_times(1)])

lemma does_sums: "splits is K U \<Longrightarrow> (\<And>x. x \<in> set is \<Longrightarrow> does g F L (J \<times> K x \<times> I) (body x)) \<Longrightarrow> does g F L (J \<times> U \<times> I) (each is body)"
  by (rule does_each[OF splits_times(2)[OF splits_times(1)]])

lemma does_cols: "splits is I U \<Longrightarrow> (\<And>x. x \<in> set is \<Longrightarrow> does g F L (J \<times> K \<times> I x) (body x)) \<Longrightarrow> does g F L (J \<times> K \<times> U) (each is body)"
  by (rule does_each[OF splits_times(2)[OF splits_times(2)]])

lemma cell_less: "i < n \<Longrightarrow> j < n \<Longrightarrow> i + j * n < n * (n :: nat)"
  using square_index_less[of j n i] by (simp add: add.commute)

lemma row_less: "j < n \<Longrightarrow> k < n \<Longrightarrow> n * n \<le> L \<Longrightarrow> j * n + k < (L :: nat)"
  using square_index_less[of j n k] by simp

lemma sum_cell:
  assumes "\<And>j k i. (j, k, i) \<in> J \<times> {0..<n} \<times> I \<Longrightarrow> h (j, k, i) = p \<longleftrightarrow> j = j0 \<and> i = i0" "j0 \<in> J" "i0 \<in> I"
  shows "(\<Sum>t \<in> {t \<in> J \<times> {0..<n} \<times> I. h t = p}. trm n A B t) = product n A B j0 i0"
proof -
  have "{t \<in> J \<times> {0..<n} \<times> I. h t = p} = (\<lambda>k. (j0, k, i0)) ` {..<n}"
  proof (intro set_eqI)
    fix t :: "nat \<times> nat \<times> nat"
    obtain j k i where t: "t = (j, k, i)" by (cases t)
    show "t \<in> {t \<in> J \<times> {0..<n} \<times> I. h t = p} \<longleftrightarrow> t \<in> (\<lambda>k. (j0, k, i0)) ` {..<n}"
      using assms(1)[of j k i] assms(2,3) unfolding t by auto
  qed
  moreover have "inj_on (\<lambda>k. (j0, k, i0)) {..<n}" by (simp add: inj_on_def)
  ultimately show ?thesis by (simp add: sum.reindex product_def prod_term_def)
qed

text \<open>Code that adds all terms of some rows and columns adds that part of the product.\<close>

lemma adds_adds_product:
  assumes "adds n A B L (J \<times> {0..<n} \<times> I) body" "J \<subseteq> {0..<n}" "I \<subseteq> {0..<n}" "n * n \<le> L" "length C = L"
  shows "\<exists>C'. body C = Some C' \<and> adds_product n (J \<times> I) A B C C'"
proof -
  obtain C' where C': "body C = Some C'" "length C' = L"
    "\<And>x. x < L \<Longrightarrow> C' ! x = C ! x + (\<Sum>t \<in> {t \<in> J \<times> {0..<n} \<times> I. cell n t = x}. trm n A B t)"
    using doesD[OF assms(1,5)] by blast
  have "C' ! (i + j * n) = C ! (i + j * n) + (if (j, i) \<in> J \<times> I then product n A B j i else 0)" if "j < n" "i < n" for j i
  proof (cases "(j, i) \<in> J \<times> I")
    case True
    have "(\<Sum>t \<in> {t \<in> J \<times> {0..<n} \<times> I. cell n t = i + j * n}. trm n A B t) = product n A B j i"
      by (rule sum_cell) (use True assms(2,3) index_eq[OF that(2)] in auto)
    then show ?thesis using C'(3)[of "i + j * n"] cell_less[OF that(2,1)] assms(4) True by simp
  next
    case False
    have "{t \<in> J \<times> {0..<n} \<times> I. cell n t = i + j * n} = {}"
      using False assms(2,3) index_eq[OF that(2)] by auto
    then have "(\<Sum>t \<in> {t \<in> J \<times> {0..<n} \<times> I. cell n t = i + j * n}. trm n A B t) = 0" by (simp only: sum.empty)
    then show ?thesis using C'(3)[of "i + j * n"] cell_less[OF that(2,1)] assms(4) False by auto
  qed
  moreover have "drop (n * n) C' = drop (n * n) C"
  proof (rule nth_equalityI)
    fix x assume "x < length (drop (n * n) C')"
    then have x: "n * n + x < L" using C'(2) by simp
    have "{t \<in> J \<times> {0..<n} \<times> I. cell n t = n * n + x} = {}"
    proof (rule ccontr)
      assume "{t \<in> J \<times> {0..<n} \<times> I. cell n t = n * n + x} \<noteq> {}"
      then obtain j i where "j \<in> J" "i \<in> I" "i + j * n = n * n + x" by auto
      moreover have "i + j * n < n * n" using \<open>j \<in> J\<close> \<open>i \<in> I\<close> assms(2,3) by (intro cell_less) auto
      ultimately show False by simp
    qed
    then have "(\<Sum>t \<in> {t \<in> J \<times> {0..<n} \<times> I. cell n t = n * n + x}. trm n A B t) = 0" by (simp only: sum.empty)
    then show "drop (n * n) C' ! x = drop (n * n) C ! x" using C'(2) C'(3)[OF x] assms(5) x by simp
  qed (use C' assms in simp)
  ultimately have "adds_product n (J \<times> I) A B C C'" using C'(2) assms(5) by (simp add: adds_product_def)
  then show ?thesis using C'(1) by blast
qed

end
