(* ===== verification/Mt_Kernels.thy ===== *)
theory Mt_Kernels
  imports Mt_Terms
begin

text \<open>
  Register blocks: the local variables of the unrolled multiplications, which hold \<open>R\<close> rows and \<open>W\<close>
  columns of \<open>C\<close> while terms are added, and what it means that a piece of code computes its block.
\<close>

section \<open>Register blocks\<close>

text \<open>The local \<open>W * r + c\<close> receives the product of \<open>as[r]\<close> and \<open>bs[c]\<close>.\<close>

definition outer :: "s32 list \<Rightarrow> s32 list \<Rightarrow> s32 list \<Rightarrow> s32 list option" where
  "outer as bs = each [0..<length as] (\<lambda>r. each [0..<length bs] (\<lambda>c.
     add_at (length bs * r + c) (as ! r * bs ! c)))"

definition reg_step :: "s32 list \<Rightarrow> s32 list \<Rightarrow> (nat \<Rightarrow> nat) \<Rightarrow> nat \<Rightarrow> (nat \<Rightarrow> nat) \<Rightarrow> nat \<Rightarrow> s32 list \<Rightarrow> s32 list option" where
  "reg_step A B f R h W temps = do {
     as \<leftarrow> load A f R;
     bs \<leftarrow> load B h W;
     outer as bs temps }"

fun blk :: "nat \<Rightarrow> nat \<Rightarrow> nat \<Rightarrow> nat \<times> nat \<times> nat \<Rightarrow> nat" where
  "blk j i W (j', k, i') = W * (j' - j) + (i' - i)"

lemma blk_less: "r < R \<Longrightarrow> c < W \<Longrightarrow> W * r + c < R * (W :: nat)"
proof -
  assume "r < R" "c < W"
  then have "W * Suc r \<le> W * R" by (intro mult_le_mono2) simp
  then show ?thesis using \<open>c < W\<close> by (simp add: mult.commute)
qed

lemma does_term: "g (j, k, i) < L \<Longrightarrow> x = g (j, k, i) \<Longrightarrow> v = F (j, k, i) \<Longrightarrow> does g F L ({j} \<times> {k} \<times> {i}) (add_at x v)"
  using does_one[of g "(j, k, i)" L x v F] by simp

lemma does_outer:
  assumes "length as = R" "length bs = W" "\<And>r. r < R \<Longrightarrow> as ! r = A ! ((j + r) * n + k)" "\<And>c. c < W \<Longrightarrow> bs ! c = B ! (k * n + (i + c))"
    and "m = R * W"
  shows "does (blk j i W) (trm n A B) m ({j..<j + R} \<times> {k} \<times> {i..<i + W}) (outer as bs)"
  unfolding outer_def assms(1,2)
proof (rule does_rows[OF splits_unroll])
  fix r assume r: "r \<in> set [0..<R]"
  show "does (blk j i W) (trm n A B) m ({j + r} \<times> {k} \<times> {i..<i + W})
      (each [0..<W] (\<lambda>c. add_at (W * r + c) (as ! r * bs ! c)))"
  proof (rule does_cols[OF splits_unroll])
    fix c assume c: "c \<in> set [0..<W]"
    show "does (blk j i W) (trm n A B) m ({j + r} \<times> {k} \<times> {i + c}) (add_at (W * r + c) (as ! r * bs ! c))"
      by (rule does_term) (use r c assms(3-5) blk_less[of r R c W] in simp_all)
  qed
qed

lemma does_reg_step:
  assumes "\<And>r. r < R \<Longrightarrow> f r < length A' \<and> A' ! f r = A ! ((j + r) * n + k)"
    and "\<And>c. c < W \<Longrightarrow> h c < length B' \<and> B' ! h c = B ! (k * n + (i + c))" "m = R * W"
  shows "does (blk j i W) (trm n A B) m ({j..<j + R} \<times> {k} \<times> {i..<i + W}) (reg_step A' B' f R h W)"
proof -
  have "load A' f R = Some (map (\<lambda>p. A' ! f p) [0..<R])" "load B' h W = Some (map (\<lambda>p. B' ! h p) [0..<W])"
    using assms(1,2) by (simp_all add: load_eq)
  moreover have "does (blk j i W) (trm n A B) m ({j..<j + R} \<times> {k} \<times> {i..<i + W})
      (outer (map (\<lambda>p. A' ! f p) [0..<R]) (map (\<lambda>p. B' ! h p) [0..<W]))"
    by (rule does_outer) (use assms in simp_all)
  ultimately show ?thesis by (simp add: does_cong reg_step_def)
qed

text \<open>Blocks of \<open>C\<close>: \<open>f\<close> gives the place of each local.\<close>

definition block_at :: "nat \<Rightarrow> nat \<Rightarrow> nat \<Rightarrow> nat \<Rightarrow> nat \<Rightarrow> nat \<Rightarrow> (nat \<Rightarrow> nat) \<Rightarrow> bool" where
  "block_at n j R i W m f \<longleftrightarrow> m = R * W \<and> j + R \<le> n \<and> i + W \<le> n \<and>
    (\<forall>r < R. \<forall>c < W. f (W * r + c) = i + c + (j + r) * n)"

lemma block_at_pos:
  assumes "block_at n j R i W m f" "p < m"
  obtains r c where "r < R" "c < W" "p = W * r + c" "f p = i + c + (j + r) * n"
proof -
  have "0 < W" using assms by (cases W) (simp_all add: block_at_def)
  then have "p mod W < W" "p = W * (p div W) + p mod W" by simp_all
  moreover have "p div W < R" using assms by (intro less_mult_imp_div_less) (simp add: block_at_def)
  moreover have "f (W * (p div W) + p mod W) = i + p mod W + (j + p div W) * n"
    using assms(1) \<open>p mod W < W\<close> \<open>p div W < R\<close> unfolding block_at_def by blast
  ultimately show ?thesis using that by simp
qed

lemma block_at_less: "block_at n j R i W m f \<Longrightarrow> n * n \<le> L \<Longrightarrow> p < m \<Longrightarrow> f p < L"
proof -
  assume b: "block_at n j R i W m f" "p < m" and L: "n * n \<le> L"
  obtain r c where rc: "r < R" "c < W" "f p = i + c + (j + r) * n" using block_at_pos[OF b] by metis
  have "i + c + (j + r) * n < n * n" by (rule cell_less) (use rc b(1) in \<open>auto simp: block_at_def\<close>)
  then show ?thesis using rc L by simp
qed

lemma block_at_inj: "block_at n j R i W m f \<Longrightarrow> inj_on f {..<m}"
proof (rule inj_onI)
  fix p q assume b: "block_at n j R i W m f" and "p \<in> {..<m}" "q \<in> {..<m}" and e: "f p = f q"
  then obtain r c r' c' where p: "r < R" "c < W" "p = W * r + c" "f p = i + c + (j + r) * n"
    and q: "r' < R" "c' < W" "q = W * r' + c'" "f q = i + c' + (j + r') * n"
    using block_at_pos[OF b] by (metis lessThan_iff)
  have "i + c < n" "i + c' < n" using b p q by (auto simp: block_at_def)
  then have "i + c' = i + c \<and> j + r' = j + r" using index_eq[of "i + c" n "i + c'" "j + r'" "j + r"] e p(4) q(4) by simp
  then show "p = q" using p q by simp
qed

lemma block_at_cell:
  assumes "block_at n j R i W m f" "j \<le> j'" "j' < j + R" "i \<le> i'" "i' < i + W"
  shows "blk j i W (j', k, i') < m \<and> f (blk j i W (j', k, i')) = i' + j' * n"
proof -
  obtain r c where "j' = j + r" "i' = i + c" using assms(2,4) le_Suc_ex by blast
  then show ?thesis using assms blk_less[of r R c W] by (simp add: block_at_def)
qed

lemma adds_block:
  assumes "does (blk j i W) (trm n A B) m ({j..<j + R} \<times> K \<times> {i..<i + W}) body" "block_at n j R i W m f" "n * n \<le> L"
  shows "adds n A B L ({j..<j + R} \<times> K \<times> {i..<i + W})
    (\<lambda>X. do { temps \<leftarrow> load X f m; temps \<leftarrow> body temps; store temps f m X })"
proof (rule does_block[OF assms(1) block_at_less[OF assms(2,3)] block_at_inj[OF assms(2)]])
  fix t assume "t \<in> {j..<j + R} \<times> K \<times> {i..<i + W}"
  then obtain j' k i' where t: "t = (j', k, i')" "j \<le> j'" "j' < j + R" "i \<le> i'" "i' < i + W" by auto
  then show "blk j i W t < m \<and> f (blk j i W t) = cell n t"
    using block_at_cell[OF assms(2) t(2-5), of k] by simp
qed

section \<open>Elements of the product\<close>

definition entry :: "nat \<Rightarrow> s32 list \<Rightarrow> s32 list \<Rightarrow> nat \<Rightarrow> s32" where
  "entry n A B x = product n A B (x div n) (x mod n)"

definition cells :: "nat \<Rightarrow> nat set \<Rightarrow> nat set \<Rightarrow> nat set" where
  "cells n J I = (\<lambda>(j, i). i + j * n) ` (J \<times> I)"

abbreviation fills :: "nat \<Rightarrow> s32 list \<Rightarrow> s32 list \<Rightarrow> nat \<Rightarrow> nat set \<Rightarrow> nat set \<Rightarrow> (s32 list \<Rightarrow> s32 list option) \<Rightarrow> bool" where
  "fills n A B L J I \<equiv> puts (entry n A B) L (cells n J I)"

lemma entry_cell [simp]: "i < n \<Longrightarrow> entry n A B (i + j * n) = product n A B j i"
  by (simp add: entry_def)

lemma puts_rows:
  assumes "splits is J U" "\<And>x. x \<in> set is \<Longrightarrow> puts V L (cells n (J x) I) (body x)"
  shows "puts V L (cells n U I) (each is body)"
proof -
  have "(\<Union>x \<in> set is. cells n (J x) I) = cells n U I" using assms(1) by (auto simp: splits_def cells_def)
  then show ?thesis using puts_each[of "is" V L "\<lambda>x. cells n (J x) I" body] assms(2) by simp
qed

lemma puts_cols:
  assumes "splits is I U" "\<And>x. x \<in> set is \<Longrightarrow> puts V L (cells n J (I x)) (body x)"
  shows "puts V L (cells n J U) (each is body)"
proof -
  have "(\<Union>x \<in> set is. cells n J (I x)) = cells n J U" using assms(1) by (auto simp: splits_def cells_def)
  then show ?thesis using puts_each[of "is" V L "\<lambda>x. cells n J (I x)" body] assms(2) by simp
qed

lemma puts_cell: "i + j * n < L \<Longrightarrow> x = i + j * n \<Longrightarrow> v = V x \<Longrightarrow> puts V L (cells n {j} {i}) (\<lambda>X. wr X x v)"
  by (simp add: cells_def puts_one)

lemma fills_block:
  assumes "does (blk j i W) (trm n A B) m ({j..<j + R} \<times> {0..<n} \<times> {i..<i + W}) body" "block_at n j R i W m f" "n * n \<le> L"
  shows "fills n A B L {j..<j + R} {i..<i + W} (\<lambda>X. do { temps \<leftarrow> body (replicate m 0); store temps f m X })"
proof -
  have "cells n {j..<j + R} {i..<i + W} = f ` {..<m}"
  proof (intro set_eqI iffI)
    fix x assume "x \<in> cells n {j..<j + R} {i..<i + W}"
    then obtain j' i' where x: "j \<le> j'" "j' < j + R" "i \<le> i'" "i' < i + W" "x = i' + j' * n" by (auto simp: cells_def)
    then show "x \<in> f ` {..<m}"
      using block_at_cell[OF assms(2) x(1-4), of 0] by (intro image_eqI[of _ _ "blk j i W (j', 0, i')"]) simp_all
  next
    fix x assume "x \<in> f ` {..<m}"
    then obtain p where p: "p < m" "x = f p" by auto
    then obtain r c where "r < R" "c < W" "f p = i + c + (j + r) * n" using block_at_pos[OF assms(2)] by metis
    then show "x \<in> cells n {j..<j + R} {i..<i + W}"
      unfolding cells_def p(2) by (intro image_eqI[of _ _ "(j + r, i + c)"]) simp_all
  qed
  moreover have "puts (entry n A B) L (f ` {..<m}) (\<lambda>X. do { temps \<leftarrow> body (replicate m 0); store temps f m X })"
  proof (rule puts_block[OF assms(1) block_at_less[OF assms(2,3)] block_at_inj[OF assms(2)]])
    fix p assume "p < m"
    then obtain r c where rc: "r < R" "c < W" "p = W * r + c" "f p = i + c + (j + r) * n"
      using block_at_pos[OF assms(2)] by metis
    have "(\<Sum>t \<in> {t \<in> {j..<j + R} \<times> {0..<n} \<times> {i..<i + W}. blk j i W t = p}. trm n A B t) = product n A B (j + r) (i + c)"
    proof (rule sum_cell)
      fix j' k i' assume m: "(j', k, i') \<in> {j..<j + R} \<times> {0..<n} \<times> {i..<i + W}"
      then have "j \<le> j'" "i \<le> i'" by auto
      then obtain r' c' where e: "j' = j + r'" "i' = i + c'" using le_Suc_ex by metis
      then have "c' < W" using m by auto
      then show "blk j i W (j', k, i') = p \<longleftrightarrow> j' = j + r \<and> i' = i + c"
        using index_eq[OF rc(2) \<open>c' < W\<close>, of r' r] unfolding e rc(3) by (simp add: mult.commute add.commute conj_commute)
    qed (use rc in auto)
    moreover have "i + c < n" using assms(2) rc(2) by (simp add: block_at_def)
    ultimately show "entry n A B (f p) = (\<Sum>t \<in> {t \<in> {j..<j + R} \<times> {0..<n} \<times> {i..<i + W}. blk j i W t = p}. trm n A B t)"
      using rc(4) by simp
  qed
  ultimately show ?thesis by simp
qed

definition is_product :: "nat \<Rightarrow> s32 list \<Rightarrow> s32 list \<Rightarrow> s32 list \<Rightarrow> s32 list \<Rightarrow> bool" where
  "is_product n A B C C' \<longleftrightarrow> length C' = length C \<and> drop (n * n) C' = drop (n * n) C \<and>
    (\<forall>j < n. \<forall>i < n. C' ! (i + j * n) = product n A B j i)"

lemma fills_product:
  assumes "fills n A B L {0..<n} {0..<n} body" "n * n \<le> L" "length C = L"
  shows "\<exists>C'. body C = Some C' \<and> is_product n A B C C'"
proof -
  obtain C' where C': "body C = Some C'" "length C' = L"
    "\<And>x. x < L \<Longrightarrow> C' ! x = (if x \<in> cells n {0..<n} {0..<n} then entry n A B x else C ! x)"
    using putsD[OF assms(1,3)] by blast
  have "C' ! (i + j * n) = product n A B j i" if "j < n" "i < n" for j i
  proof -
    have "i + j * n \<in> cells n {0..<n} {0..<n}" unfolding cells_def using that by (intro image_eqI[of _ _ "(j, i)"]) auto
    then show ?thesis using C'(3)[of "i + j * n"] cell_less[OF that(2,1)] assms(2) that by simp
  qed
  moreover have "n * n + x \<notin> cells n {0..<n} {0..<n}" for x
  proof
    assume "n * n + x \<in> cells n {0..<n} {0..<n}"
    then obtain j i where "j < n" "i < n" "n * n + x = i + j * n" by (auto simp: cells_def)
    then show False using cell_less[of i n j] by simp
  qed
  then have "drop (n * n) C' = drop (n * n) C"
    using C' assms by (intro nth_equalityI) simp_all
  ultimately show ?thesis using C' assms(3) by (auto simp: is_product_def)
qed

section \<open>Reads\<close>

lemma adds_term:
  "i < n \<Longrightarrow> j < n \<Longrightarrow> n * n \<le> L \<Longrightarrow> x = i + j * n \<Longrightarrow> v = A ! (j * n + k) * B ! (k * n + i) \<Longrightarrow>
    adds n A B L ({j} \<times> {k} \<times> {i}) (add_at x v)"
  by (rule does_term) (use cell_less[of i n j] in simp_all)

text \<open>Four terms summed before they are added.\<close>

definition dot4 :: "s32 list \<Rightarrow> s32 list \<Rightarrow> s32" where
  "dot4 as bs = as ! 0 * bs ! 0 + as ! 1 * bs ! 1 + as ! 2 * bs ! 2 + as ! 3 * bs ! 3"

lemma does_dot4:
  assumes "g (j, k, i) < L" "\<And>m. m < 4 \<Longrightarrow> g (j, k + m, i) = x"
    and "\<And>m. m < 4 \<Longrightarrow> F (j, k + m, i) = as ! m * bs ! m"
  shows "does g F L ({j} \<times> {k..<k + 4} \<times> {i}) (add_at x (dot4 as bs))"
proof (rule does_sum)
  have "(\<Sum>t \<in> {j} \<times> {k..<k + 4} \<times> {i}. F t) = (\<Sum>m \<in> {k..<k + 4}. F (j, m, i))"
    by (rule sum.reindex_bij_witness[of _ "\<lambda>m. (j, m, i)" "\<lambda>(j, m, i). m"]) auto
  also have "\<dots> = (\<Sum>m \<in> {0..<4}. F (j, k + m, i))"
    using sum.shift_bounds_nat_ivl[of "\<lambda>m. F (j, m, i)" 0 k 4] by (simp add: add.commute)
  also have "{0..<4 :: nat} = {0, 1, 2, 3}" by auto
  finally show "dot4 as bs = (\<Sum>t \<in> {j} \<times> {k..<k + 4} \<times> {i}. F t)"
    using assms(3)[of 0] assms(3)[of 1] assms(3)[of 2] assms(3)[of 3] by (simp add: dot4_def add.assoc)
  fix t assume "t \<in> {j} \<times> {k..<k + 4} \<times> {i}"
  then obtain k' where "t = (j, k', i)" "k \<le> k'" "k' < k + 4" by auto
  moreover from this(2) obtain m where "k' = k + m" using le_Suc_ex by blast
  ultimately have "t = (j, k + m, i)" "m < 4" by simp_all
  then show "g t = x" using assms(2) by simp
qed (use assms(1) assms(2)[of 0] in simp_all)

lemma does_pair:
  fixes k :: nat
  assumes "x < L" "g (j, k, i) = x" "g (j, k + 1, i) = x" "v = F (j, k, i) + F (j, k + 1, i)"
  shows "does g F L ({j} \<times> {k..<k + 2} \<times> {i}) (add_at x v)"
proof -
  have "{j} \<times> {k..<k + 2} \<times> {i} = {(j, k, i), (j, k + 1, i)}" by auto
  then show ?thesis by (intro does_sum) (use assms in auto)
qed

type_synonym matmul_fun = "nat \<Rightarrow> nat \<Rightarrow> nat \<Rightarrow> s32 list \<Rightarrow> s32 list \<Rightarrow> s32 list \<Rightarrow> s32 list option"

lemma cell_in: "i < n \<Longrightarrow> j < n \<Longrightarrow> n * n \<le> L \<Longrightarrow> i + j * n < (L :: nat)"
  using cell_less[of i n j] by simp

lemma does_rd:
  assumes "a < length A" "does g F L T (body (A ! a))"
  shows "does g F L T (\<lambda>X. do { v \<leftarrow> rd A a; body v X })"
  using assms by (simp add: does_cong)

lemma does_load:
  assumes "\<And>p. p < m \<Longrightarrow> f p < length A" "does g F L T (body (map (\<lambda>p. A ! f p) [0..<m]))"
  shows "does g F L T (\<lambda>X. do { vs \<leftarrow> load A f m; body vs X })"
  using assms by (simp add: load_eq does_cong)

lemma does_mac:
  "a < length A \<Longrightarrow> b < length B \<Longrightarrow> g (j, k, i) < L \<Longrightarrow> x = g (j, k, i) \<Longrightarrow> A ! a * B ! b = F (j, k, i) \<Longrightarrow>
    does g F L ({j} \<times> {k} \<times> {i}) (mac A B a b x)"
  unfolding mac_def by (intro does_rd does_term) auto

lemma puts_rd:
  assumes "a < length A" "puts V L P (body (A ! a))"
  shows "puts V L P (\<lambda>X. do { v \<leftarrow> rd A a; body v X })"
  using assms by (simp add: puts_cong)

lemma does_two:
  assumes "does g F L T b" "does g F L T' b'" "T \<inter> T' = {}" "U = T \<union> T'"
  shows "does g F L U (\<lambda>X. Option.bind (b X) b')"
  using does_bind[OF assms(1-3)] assms(4) by simp

text \<open>The shares \<open>[q * s..<(q + 1) * s]\<close> of the rows or columns, one for each core.\<close>

lemma share_le: "q < ncores \<Longrightarrow> ncores dvd lda \<Longrightarrow> (q + 1) * (lda div ncores) \<le> (lda :: nat)"
  by (metis Suc_eq_plus1 Suc_leI dvd_mult_div_cancel mult_le_mono1)

lemma splits_shares:
  fixes lda ncores :: nat
  assumes "distinct ids" "set ids = {0..<ncores}" "ncores dvd lda" "0 < lda"
  shows "splits ids (\<lambda>q. {q * (lda div ncores)..<(q + 1) * (lda div ncores)}) {0..<lda}"
proof -
  have "0 < lda div ncores" using assms(3,4) dvd_div_eq_0_iff[of ncores lda] by auto
  then show ?thesis using splits_cores[OF assms(1,2), of "lda div ncores"] assms(3) by simp
qed

text \<open>Shares with a stride: the rows or columns \<open>x\<close> with \<open>x mod ncores = q\<close>.\<close>

definition stride :: "nat \<Rightarrow> nat \<Rightarrow> nat \<Rightarrow> nat set" where
  "stride ncores lda q = {x \<in> {0..<lda}. x mod ncores = q}"

lemma splits_stride_cores: "distinct ids \<Longrightarrow> set ids = {0..<ncores} \<Longrightarrow> 0 < ncores \<Longrightarrow> splits ids (stride ncores lda) {0..<lda}"
  by (auto simp: splits_def stride_def)

lemma steps_stride:
  assumes "w * ncores dvd lda" "q < ncores" "0 < (w :: nat)"
  shows "steps q lda (w * ncores) = map (\<lambda>t. q + t * (w * ncores)) [0..<lda div (w * ncores)]"
proof -
  obtain m where m: "lda = w * ncores * m" using assms(1) by (auto elim: dvdE)
  have "1 * ncores \<le> w * ncores" using assms(3) by (intro mult_le_mono1) simp
  then have w: "0 < w * ncores" "q < w * ncores" using assms(2) by linarith+
  have "(w * ncores * m - q + w * ncores - 1) div (w * ncores) = m"
  proof (cases m)
    case 0 then show ?thesis using w by simp
  next
    case (Suc m')
    then have "q \<le> w * ncores * m" using w by simp
    then show ?thesis using w by (intro div_nat_eqI) (simp_all add: mult.commute)
  qed
  then show ?thesis using m w by (simp add: steps_def)
qed

lemma splits_stride:
  assumes "w * ncores dvd lda" "q < ncores" "0 < w"
  shows "splits (steps q lda (w * ncores)) (\<lambda>j. (\<lambda>r. j + r * ncores) ` {0..<w}) (stride ncores lda q)"
proof -
  let ?m = "lda div (w * ncores)"
  have lda: "lda = ?m * w * ncores" using assms(1) by (simp add: mult.assoc)
  have w: "0 < w * ncores" using assms(2,3) by simp
  have x: "q + t * (w * ncores) + r * ncores = q + (t * w + r) * ncores" for t r by (simp add: algebra_simps)
  have d: "(q + u * ncores) div ncores = u" "(q + u * ncores) mod ncores = q" for u using assms(2) by simp_all
  have "t = t'" if "r < w" "r' < w" "q + t * (w * ncores) + r * ncores = q + t' * (w * ncores) + r' * ncores" for t t' r r' :: nat
  proof -
    have "t * w + r = t' * w + r'" using that(3) d(1) unfolding x by metis
    then show ?thesis using index_eq[OF that(2,1), of t t'] by (simp add: add.commute)
  qed
  note same = this
  have dis: "(\<lambda>r. q + t * (w * ncores) + r * ncores) ` {0..<w} \<inter> (\<lambda>r. q + t' * (w * ncores) + r * ncores) ` {0..<w} = {}"
    if ne: "t \<noteq> t'" for t t'
  proof (rule equals0I, elim IntE imageE)
    fix y r r' assume "y = q + t * (w * ncores) + r * ncores" "r \<in> {0..<w}"
      "y = q + t' * (w * ncores) + r' * ncores" "r' \<in> {0..<w}"
    then show False using same[of r r' t t'] ne by simp
  qed
  have "(\<Union>t \<in> {0..<?m}. (\<lambda>r. q + t * (w * ncores) + r * ncores) ` {0..<w}) = stride ncores lda q"
  proof (intro set_eqI iffI)
    fix y assume "y \<in> (\<Union>t \<in> {0..<?m}. (\<lambda>r. q + t * (w * ncores) + r * ncores) ` {0..<w})"
    then obtain t r where tr: "t < ?m" "r < w" "y = q + (t * w + r) * ncores" unfolding x by auto
    have "Suc t * w \<le> ?m * w" using tr(1) by (intro mult_le_mono1) simp
    then have "Suc (t * w + r) * ncores \<le> ?m * w * ncores" using tr(2) by (intro mult_le_mono1) simp
    then have "y < lda" using tr(3) assms(2) lda by simp
    then show "y \<in> stride ncores lda q" using tr(3) d(2) by (simp add: stride_def)
  next
    fix y assume "y \<in> stride ncores lda q"
    then have y: "y < lda" "y = q + (y div ncores) * ncores" unfolding stride_def
      by (auto simp: mult.commute[of "_ div _"] add.commute)
    let ?u = "y div ncores"
    have "?u < ?m * w" using y(1) lda by (intro less_mult_imp_div_less) simp
    then have "?u div w < ?m" by (rule less_mult_imp_div_less)
    moreover have "?u mod w < w" using assms(3) by simp
    moreover have "y = q + (?u div w * w + ?u mod w) * ncores" using y(2) by simp
    ultimately show "y \<in> (\<Union>t \<in> {0..<?m}. (\<lambda>r. q + t * (w * ncores) + r * ncores) ` {0..<w})"
      unfolding x by (intro UN_I[of "?u div w"] image_eqI[of _ _ "?u mod w"]) simp_all
  qed
  moreover have "inj_on (\<lambda>t. q + t * (w * ncores)) {0..<?m}" using w by (simp add: inj_on_def)
  moreover have "(\<lambda>r. x + r * ncores) ` {0..<w} \<inter> (\<lambda>r. y + r * ncores) ` {0..<w} = {}"
    if xy: "x \<in> (\<lambda>t. q + t * (w * ncores)) ` {0..<?m}" "y \<in> (\<lambda>t. q + t * (w * ncores)) ` {0..<?m}" "x \<noteq> y" for x y
  proof -
    obtain t t' where "x = q + t * (w * ncores)" "y = q + t' * (w * ncores)" using xy(1,2) by (elim imageE)
    then show ?thesis using dis[of t t'] xy(3) by (cases "t = t'") simp_all
  qed
  ultimately show ?thesis unfolding steps_stride[OF assms] splits_def
    by (intro conjI ballI impI) (simp_all add: distinct_map)
qed

lemma splits_stride_unroll: "0 < ncores \<Longrightarrow> splits [0..<w] (\<lambda>r. {j + r * ncores}) ((\<lambda>r. j + r * ncores) ` {0..<w})"
  for ncores :: nat
  by (auto simp: splits_def)

lemma stride_less: "x \<in> set (steps q lda (w * ncores)) \<Longrightarrow> r < w \<Longrightarrow> w * ncores dvd lda \<Longrightarrow> q < ncores \<Longrightarrow> x + r * ncores < lda"
proof -
  assume "x \<in> set (steps q lda (w * ncores))" "r < w" and s: "w * ncores dvd lda" "q < ncores"
  then have "x + r * ncores \<in> stride ncores lda q"
    using splits_stride[OF s] unfolding splits_def by fastforce
  then show ?thesis by (simp add: stride_def)
qed

lemma steps_iff:
  assumes "0 < st"
  shows "x \<in> set (steps lo hi st) \<longleftrightarrow> (\<exists>t. x = lo + t * st \<and> x < hi)"
proof -
  have *: "t < (hi - lo + st - 1) div st \<longleftrightarrow> lo + t * st < hi" for t
  proof -
    have "t < (hi - lo + st - 1) div st \<longleftrightarrow> Suc t * st \<le> hi - lo + st - 1"
      using less_eq_div_iff_mult_less_eq[OF assms, of "Suc t"] by (simp add: Suc_le_eq)
    then show ?thesis using assms by auto
  qed
  have "x \<in> set (steps lo hi st) \<longleftrightarrow> (\<exists>t. x = lo + t * st \<and> t < (hi - lo + st - 1) div st)"
    unfolding steps_def set_map set_upt image_iff by (simp only: Bex_def atLeastLessThan_iff) blast
  also have "\<dots> \<longleftrightarrow> (\<exists>t. x = lo + t * st \<and> x < hi)" unfolding * by (rule ex_cong1) blast
  finally show ?thesis .
qed

lemma distinct_steps: "0 < st \<Longrightarrow> distinct (steps lo hi st)"
  by (simp add: steps_def distinct_map inj_on_def)

text \<open>Blocks of \<open>w\<close> rows given to the cores in turn.\<close>

definition bstride :: "nat \<Rightarrow> nat \<Rightarrow> nat \<Rightarrow> nat \<Rightarrow> nat set" where
  "bstride w ncores lda q = {x \<in> {0..<lda}. x div w mod ncores = q}"

lemma splits_bstride_cores: "distinct ids \<Longrightarrow> set ids = {0..<ncores} \<Longrightarrow> 0 < ncores \<Longrightarrow> splits ids (bstride w ncores lda) {0..<lda}"
  by (auto simp: splits_def bstride_def)

lemma bstride_mem:
  assumes "j \<in> set (steps (w * q) lda (w * ncores))" "w dvd lda" "0 < w" "q < ncores"
  obtains t where "j = w * (q + t * ncores)" "j + w \<le> lda"
proof -
  obtain t where t: "j = w * q + t * (w * ncores)" "j < lda" using assms(1,3,4) by (auto simp: steps_iff)
  then have j: "j = w * (q + t * ncores)" by (simp add: algebra_simps)
  obtain m where m: "lda = w * m" using assms(2) by (auto elim: dvdE)
  have "Suc (q + t * ncores) \<le> m" using t(2) j m assms(3) by simp
  then have "w * Suc (q + t * ncores) \<le> lda" unfolding m by (rule mult_le_mono2)
  then show ?thesis using that[OF j] j by simp
qed

lemma splits_bstride:
  assumes "w dvd lda" "0 < w" "q < ncores"
  shows "splits (steps (w * q) lda (w * ncores)) (\<lambda>j. {j..<j + w}) (bstride w ncores lda q)"
proof -
  have st: "0 < w * ncores" using assms by simp
  have d: "x div w = u" if "x \<in> {w * u..<w * u + w}" for x u
    using that by (intro div_nat_eqI) (simp_all add: mult.commute)
  have "{j..<j + w} \<inter> {j'..<j' + w} = {}"
    if j: "j \<in> set (steps (w * q) lda (w * ncores))" "j' \<in> set (steps (w * q) lda (w * ncores))" "j \<noteq> j'" for j j'
  proof (rule equals0I)
    fix x assume x: "x \<in> {j..<j + w} \<inter> {j'..<j' + w}"
    obtain t t' where "j = w * (q + t * ncores)" "j' = w * (q + t' * ncores)"
      using bstride_mem[OF j(1) assms] bstride_mem[OF j(2) assms] by metis
    then show False using x d[of x "q + t * ncores"] d[of x "q + t' * ncores"] j(3) by auto
  qed
  moreover have "(\<Union>j \<in> set (steps (w * q) lda (w * ncores)). {j..<j + w}) = bstride w ncores lda q"
  proof (intro set_eqI iffI)
    fix x assume "x \<in> (\<Union>j \<in> set (steps (w * q) lda (w * ncores)). {j..<j + w})"
    then obtain j where j: "j \<in> set (steps (w * q) lda (w * ncores))" "x \<in> {j..<j + w}" by auto
    obtain t where "j = w * (q + t * ncores)" "j + w \<le> lda" using bstride_mem[OF j(1) assms] .
    then show "x \<in> bstride w ncores lda q" using j(2) d[of x "q + t * ncores"] assms(3) by (auto simp: bstride_def)
  next
    fix x assume x: "x \<in> bstride w ncores lda q"
    let ?u = "x div w"
    have "?u mod ncores = q" using x by (simp add: bstride_def)
    then have u: "?u = q + ?u div ncores * ncores" by (metis add.commute div_mult_mod_eq)
    have "w * ?u = w * (q + ?u div ncores * ncores)" using u by (rule arg_cong)
    then have "w * ?u = w * q + ?u div ncores * (w * ncores)" by (simp only: algebra_simps)
    moreover have "w * ?u < lda" using x le_less_trans[OF times_div_less_eq_dividend[of w x], of lda] by (simp add: bstride_def)
    ultimately have "w * ?u \<in> set (steps (w * q) lda (w * ncores))" using steps_iff[OF st] by blast
    moreover have "x \<in> {w * ?u..<w * ?u + w}" using assms(2) dividend_less_times_div[of w x] by simp
    ultimately show "x \<in> (\<Union>j \<in> set (steps (w * q) lda (w * ncores)). {j..<j + w})" by blast
  qed
  ultimately show ?thesis using st by (simp add: splits_def distinct_steps)
qed

section \<open>Transposed copies\<close>

definition transposed :: "nat \<Rightarrow> s32 list \<Rightarrow> nat \<Rightarrow> s32" where
  "transposed n B x = B ! (x mod n * n + x div n)"

lemma transposed_cell [simp]: "k < n \<Longrightarrow> transposed n B (k + i * n) = B ! (k * n + i)"
  by (simp add: transposed_def)

lemma puts_transposed:
  assumes "puts (transposed n B) L (cells n {lo..<hi} {0..<n}) body" "length T = L" "n * n \<le> L" "hi \<le> n"
  shows "\<exists>T'. body T = Some T' \<and> length T' = L \<and> (\<forall>i \<in> {lo..<hi}. \<forall>k < n. T' ! (i * n + k) = B ! (k * n + i)) \<and>
    (\<forall>x < L. x \<notin> cells n {lo..<hi} {0..<n} \<longrightarrow> T' ! x = T ! x)"
proof -
  obtain T' where T': "body T = Some T'" "length T' = L"
    "\<And>x. x < L \<Longrightarrow> T' ! x = (if x \<in> cells n {lo..<hi} {0..<n} then transposed n B x else T ! x)"
    using putsD[OF assms(1,2)] by blast
  have "T' ! (i * n + k) = B ! (k * n + i)" if "i \<in> {lo..<hi}" "k < n" for i k
  proof -
    have "i * n + k \<in> cells n {lo..<hi} {0..<n}"
      unfolding cells_def using that by (intro image_eqI[of _ _ "(i, k)"]) auto
    then show ?thesis using T'(3)[of "i * n + k"] row_less[of i n k L] that assms(3,4) transposed_cell[OF that(2), of B i]
      by (simp add: add.commute)
  qed
  then show ?thesis using T' by auto
qed

section \<open>Two cores\<close>

text \<open>
  The shape of the multiplications written for two cores: core 0 runs \<open>core0\<close>, core 1 runs \<open>core1\<close>, a
  single core runs both, and further cores have nothing to do.
\<close>

definition two_cores :: "('s \<Rightarrow> 's option) \<Rightarrow> ('s \<Rightarrow> 's option) \<Rightarrow> nat \<Rightarrow> nat \<Rightarrow> 's \<Rightarrow> 's option" where
  "two_cores core0 core1 coreid ncores C = do {
     C \<leftarrow> (if coreid = 0 then core0 C else Some C);
     if coreid = 1 \<or> ncores = 1 then core1 C else Some C }"

lemma each_Nil: "each [] f = Some"
  by (rule ext) simp

lemma two_cores_parts:
  "two_cores f0 f1 0 1 = (\<lambda>C. Option.bind (f0 C) f1)"
  "ncores \<noteq> 1 \<Longrightarrow> two_cores f0 f1 0 ncores = f0"
  "ncores \<noteq> 1 \<Longrightarrow> two_cores f0 f1 1 ncores = f1"
  "ncores \<noteq> 1 \<Longrightarrow> 1 < q \<Longrightarrow> two_cores f0 f1 q ncores = Some"
  unfolding two_cores_def fun_eq_iff by simp_all

lemma cores_cases:
  fixes ncores :: nat
  assumes "distinct ids" "set ids = {0..<ncores}" "0 < ncores"
  obtains "ncores = 1" "ids = [0]" | "ncores \<noteq> 1" "0 \<in> set ids" "1 \<in> set ids"
proof (cases "ncores = 1")
  case True
  then have "set ids = {0}" using assms(2) by simp
  moreover from this have "length ids = 1" using distinct_card[OF assms(1)] by simp
  moreover from this obtain x where "ids = [x]" by (auto simp: length_Suc_conv)
  ultimately have "ids = [0]" by simp
  then show ?thesis using True that(1) by blast
next
  case False
  then have "0 \<in> set ids" "1 \<in> set ids" unfolding assms(2) using assms(3) by simp_all
  then show ?thesis using False that(2) by blast
qed

lemma cores_does:
  assumes "ncores = 1 \<Longrightarrow> does g F L (T0 \<union> T1) (f 0)" "ncores \<noteq> 1 \<Longrightarrow> does g F L T0 (f 0)" "ncores \<noteq> 1 \<Longrightarrow> does g F L T1 (f (1 :: nat))"
    and "\<And>q. ncores \<noteq> 1 \<Longrightarrow> 1 < q \<Longrightarrow> q < ncores \<Longrightarrow> f q = Some" "T0 \<inter> T1 = {}"
    and "distinct ids" "set ids = {0..<ncores}" "0 < ncores"
  shows "does g F L (T0 \<union> T1) (each ids f)"
  using assms(6-8)
proof (cases rule: cores_cases)
  case 1
  have "each ids f X = f 0 X" for X using 1 by (simp add: each_Nil)
  then show ?thesis using assms(1)[OF 1(1)] by (simp add: does_cong)
next
  case 2
  let ?T = "\<lambda>q. if q = 0 then T0 else if q = (1 :: nat) then T1 else {}"
  show ?thesis
  proof (rule does_each)
    have "(\<Union>q \<in> set ids. ?T q) = T0 \<union> T1" using 2(2,3) by (auto split: if_splits)
    moreover have "?T i \<inter> ?T j = {}" if "i \<noteq> j" for i j using that assms(5) by auto
    ultimately show "splits ids ?T (T0 \<union> T1)" using assms(6) by (simp add: splits_def)
    show "does g F L (?T q) (f q)" if "q \<in> set ids" for q
      using that assms(7) assms(2,3)[OF 2(1)] assms(4)[OF 2(1), of q] does_skip[of g F L]
      by (cases "q = 0"; cases "q = 1") simp_all
  qed
qed

lemma two_cores_does:
  assumes "does g F L T0 (f0 :: s32 list \<Rightarrow> s32 list option)" "does g F L T1 f1" "T0 \<inter> T1 = {}"
    and "\<And>q. q < ncores \<Longrightarrow> f q = two_cores f0 f1 q ncores"
    and "distinct ids" "set ids = {0..<ncores}" "0 < ncores"
  shows "does g F L (T0 \<union> T1) (each ids f)"
  by (rule cores_does) (use assms two_cores_parts(2,3)[of ncores f0 f1] two_cores_parts(4)[of ncores _ f0 f1] two_cores_parts(1)[of f0 f1] does_bind[OF assms(1-3)] in auto)

lemma cores_puts:
  assumes "ncores = 1 \<Longrightarrow> puts V L (P0 \<union> P1) (f 0)" "ncores \<noteq> 1 \<Longrightarrow> puts V L P0 (f 0)" "ncores \<noteq> 1 \<Longrightarrow> puts V L P1 (f (1 :: nat))"
    and "\<And>q. ncores \<noteq> 1 \<Longrightarrow> 1 < q \<Longrightarrow> q < ncores \<Longrightarrow> f q = Some"
    and "distinct ids" "set ids = {0..<ncores}" "0 < ncores"
  shows "puts V L (P0 \<union> P1) (each ids f)"
  using assms(5-7)
proof (cases rule: cores_cases)
  case 1
  have "each ids f X = f 0 X" for X using 1 by (simp add: each_Nil)
  then show ?thesis using assms(1)[OF 1(1)] by (simp add: puts_cong)
next
  case 2
  let ?P = "\<lambda>q. if q = 0 then P0 else if q = (1 :: nat) then P1 else {}"
  have "puts V L (\<Union>q \<in> set ids. ?P q) (each ids f)"
  proof (rule puts_each)
    show "puts V L (?P q) (f q)" if "q \<in> set ids" for q
      using that assms(6) assms(2,3)[OF 2(1)] assms(4)[OF 2(1), of q] puts_skip[of V L]
      by (cases "q = 0"; cases "q = 1") simp_all
  qed
  moreover have "(\<Union>q \<in> set ids. ?P q) = P0 \<union> P1" using 2(2,3) by (auto split: if_splits)
  ultimately show ?thesis by simp
qed

lemma two_cores_puts:
  assumes "puts V L P0 (f0 :: s32 list \<Rightarrow> s32 list option)" "puts V L P1 f1"
    and "\<And>q. q < ncores \<Longrightarrow> f q = two_cores f0 f1 q ncores"
    and "distinct ids" "set ids = {0..<ncores}" "0 < ncores"
  shows "puts V L (P0 \<union> P1) (each ids f)"
  by (rule cores_puts) (use assms two_cores_parts(2,3)[of ncores f0 f1] two_cores_parts(4)[of ncores _ f0 f1] two_cores_parts(1)[of f0 f1] puts_bind[OF assms(1,2)] in auto)

text \<open>An early return of the cores above 1 changes nothing.\<close>

lemma two_cores_return: "(\<lambda>C. if coreid > 1 then Some C else two_cores f0 f1 coreid ncores C) = two_cores f0 f1 coreid ncores"
  if "coreid < ncores"
  using that by (auto simp: fun_eq_iff two_cores_def)

lemma all_terms:
  assumes "adds n A B L ({0..<n} \<times> {0..<n} \<times> {0..<n}) body" "n * n \<le> L" "length C = L"
  shows "\<exists>C'. body C = Some C' \<and> adds_product n UNIV A B C C'"
proof -
  obtain C' where "body C = Some C'" "adds_product n ({0..<n} \<times> {0..<n}) A B C C'"
    using adds_adds_product[OF assms(1) _ _ assms(2,3)] by auto
  then show ?thesis using adds_product_cong[of n "{0..<n} \<times> {0..<n}" A B C C' UNIV] by auto
qed

end
