(* ===== verification/Mt_Vvadd.thy ===== *)
theory Mt_Vvadd
  imports Mt_Kernels
begin

text \<open>
  \<open>vvadd0.c\<close> to \<open>vvadd4.c\<close>: every core adds its part of two arrays of \<open>n\<close> elements. \<open>data_t\<close> is \<open>double\<close>;
  the code only adds elements, so the element type and its addition \<open>add\<close> are parameters. \<open>mt-vvadd.c\<close>
  calls the code once with three arrays and once with \<open>z\<close> the same array as \<open>x\<close>: \<open>rdx Z i\<close> reads \<open>x[i]\<close>
  when the result array holds \<open>Z\<close>.
\<close>

type_synonym 'a source = "'a list \<Rightarrow> nat \<Rightarrow> 'a option"
type_synonym 'a vvadd_fun = "('a \<Rightarrow> 'a \<Rightarrow> 'a) \<Rightarrow> nat \<Rightarrow> nat \<Rightarrow> nat \<Rightarrow> 'a source \<Rightarrow> 'a list \<Rightarrow> 'a list \<Rightarrow> 'a list option"

text \<open>\<open>z[i] = x[i] + y[i]\<close>\<close>

definition vv_at :: "('a \<Rightarrow> 'a \<Rightarrow> 'a) \<Rightarrow> 'a source \<Rightarrow> 'a list \<Rightarrow> nat \<Rightarrow> 'a list \<Rightarrow> 'a list option" where
  "vv_at add rdx y i Z = do { a \<leftarrow> rdx Z i; b \<leftarrow> rd y i; wr Z i (add a b) }"

definition vvadd0 :: "'a vvadd_fun" where
  "vvadd0 add coreid ncores n rdx y Z = (
     if ncores = 0 \<or> n div ncores = 0 then None
     else let leftover = n mod (n div ncores) in do {
       Z \<leftarrow> each [coreid * (n div ncores)..<(coreid + 1) * (n div ncores)] (vv_at add rdx y) Z;
       each (steps (n - leftover + coreid) n ncores) (vv_at add rdx y) Z })"

definition vvadd1 :: "'a vvadd_fun" where
  "vvadd1 add coreid ncores n rdx y = each (steps (coreid * 4) n (8 * ncores)) (\<lambda>i Z. do {
     Z \<leftarrow> each [0..<4] (\<lambda>m. vv_at add rdx y (i + m)) Z;
     each [0..<4] (\<lambda>m. vv_at add rdx y (i + ncores * 4 + m)) Z })"

definition vvadd2 :: "'a vvadd_fun" where
  "vvadd2 add coreid ncores n rdx y = each (steps coreid n (2 * ncores)) (\<lambda>i Z. do {
     Z \<leftarrow> vv_at add rdx y i Z;
     vv_at add rdx y (i + ncores) Z })"

definition vvadd4 :: "'a vvadd_fun" where
  "vvadd4 add coreid ncores n rdx y = each (steps coreid n ncores) (vv_at add rdx y)"

text \<open>
  The unrolled loop of \<open>vvadd3\<close>: a pass copies \<open>k\<close> elements, the first time from the \<open>case\<close> label on, then
  eight. \<open>c\<close> is a \<open>size_t\<close>.
\<close>

function vvadd3_loop :: "('a \<Rightarrow> 'a \<Rightarrow> 'a) \<Rightarrow> 'a source \<Rightarrow> 'a list \<Rightarrow> nat \<Rightarrow> 64 word \<Rightarrow> nat \<Rightarrow> 'a list \<Rightarrow> 'a list option" where
  "vvadd3_loop add rdx y k c i Z = do {
     Z \<leftarrow> each [0..<k] (\<lambda>m. vv_at add rdx y (i + m)) Z;
     let c = c - 1;
     if 0 < c then vvadd3_loop add rdx y 8 c (i + k) Z else Some Z }"
  by pat_completeness auto
termination
proof (relation "measure (\<lambda>(add, rdx, y, k, c, i, Z). unat (c - 1))", simp_all)
  fix c :: "64 word" assume "0 < c - 1"
  then have ne: "c - 1 \<noteq> 0" by (simp only: word_gt_0)
  have "unat (c - 1 - 1) < unat (c - 1)"
    unfolding unat_minus_one[OF ne] using ne by (metis diff_less unat_0_iff neq0_conv zero_less_one)
  then show "unat (c - 2) < unat (c - 1)" by (simp add: diff_diff_eq)
qed

declare vvadd3_loop.simps [simp del]

definition vvadd3 :: "'a vvadd_fun" where
  "vvadd3 add coreid ncores n rdx y Z = (
     if ncores = 0 then None
     else let count = n div ncores; c = (word_of_nat count + 7) div 8 :: 64 word
       in vvadd3_loop add rdx y (if count mod 8 = 0 then 8 else count mod 8) c (coreid * (n div ncores)) Z)"

section \<open>Additions of some elements\<close>

text \<open>What the code needs of the array \<open>x\<close>: a write to \<open>z[i]\<close> does not change the other elements.\<close>

locale vv_source =
  fixes rdx :: "'a source"
  assumes rdx_other: "j \<noteq> i \<Longrightarrow> rdx (Z[i := v]) j = rdx Z j"
begin

text \<open>The elements \<open>D\<close> are added, the others are as in \<open>Z0\<close> and still to be read as in \<open>X\<close>.\<close>

definition vv_inv :: "('a \<Rightarrow> 'a \<Rightarrow> 'a) \<Rightarrow> 'a list \<Rightarrow> 'a list \<Rightarrow> 'a list \<Rightarrow> nat set \<Rightarrow> 'a list \<Rightarrow> bool" where
  "vv_inv add X y Z0 D Z \<longleftrightarrow> length Z = length Z0 \<and>
    (\<forall>i < length Z0. if i \<in> D then Z ! i = add (X ! i) (y ! i) else Z ! i = Z0 ! i \<and> rdx Z i = Some (X ! i))"

definition vv_adds :: "('a \<Rightarrow> 'a \<Rightarrow> 'a) \<Rightarrow> 'a list \<Rightarrow> 'a list \<Rightarrow> 'a list \<Rightarrow> nat set \<Rightarrow> ('a list \<Rightarrow> 'a list option) \<Rightarrow> bool" where
  "vv_adds add X y Z0 P body \<longleftrightarrow> (\<forall>D Z. D \<inter> P = {} \<longrightarrow> vv_inv add X y Z0 D Z \<longrightarrow>
    (\<exists>Z'. body Z = Some Z' \<and> vv_inv add X y Z0 (D \<union> P) Z'))"

lemma adds_one: "i < length Z0 \<Longrightarrow> length y = length Z0 \<Longrightarrow> vv_adds add X y Z0 {i} (vv_at add rdx y i)"
  unfolding vv_adds_def
proof (intro allI impI)
  fix D Z assume i: "i < length Z0" "length y = length Z0" "D \<inter> {i} = {}" and Z: "vv_inv add X y Z0 D Z"
  then have "rdx Z i = Some (X ! i)" "length Z = length Z0" by (auto simp: vv_inv_def)
  then have "vv_at add rdx y i Z = Some (Z[i := add (X ! i) (y ! i)])" using i by (simp add: vv_at_def)
  moreover have "vv_inv add X y Z0 (D \<union> {i}) (Z[i := add (X ! i) (y ! i)])"
    using Z i unfolding vv_inv_def by (auto simp: nth_list_update rdx_other)
  ultimately show "\<exists>Z'. vv_at add rdx y i Z = Some Z' \<and> vv_inv add X y Z0 (D \<union> {i}) Z'" by blast
qed

lemma adds_two:
  assumes "vv_adds add X y Z0 P b" "vv_adds add X y Z0 P' b'" "P \<inter> P' = {}" "U = P \<union> P'"
  shows "vv_adds add X y Z0 U (\<lambda>Z. Option.bind (b Z) b')"
  unfolding vv_adds_def assms(4)
proof (intro allI impI)
  fix D Z assume D: "D \<inter> (P \<union> P') = {}" and Z: "vv_inv add X y Z0 D Z"
  then obtain Z1 where Z1: "b Z = Some Z1" "vv_inv add X y Z0 (D \<union> P) Z1"
    using assms(1) unfolding vv_adds_def by blast
  moreover have "(D \<union> P) \<inter> P' = {}" using D assms(3) by blast
  ultimately obtain Z2 where "b' Z1 = Some Z2" "vv_inv add X y Z0 (D \<union> P \<union> P') Z2"
    using assms(2) unfolding vv_adds_def by blast
  then show "\<exists>Z'. Option.bind (b Z) b' = Some Z' \<and> vv_inv add X y Z0 (D \<union> (P \<union> P')) Z'"
    using Z1(1) by (simp add: Un_assoc)
qed

lemma adds_none: "vv_adds add X y Z0 {} Some"
  by (simp add: vv_adds_def)

lemma adds_each:
  assumes "splits is P U" "\<And>i. i \<in> set is \<Longrightarrow> vv_adds add X y Z0 (P i) (body i)"
  shows "vv_adds add X y Z0 U (each is body)"
  using assms
proof (induction "is" arbitrary: U)
  case Nil then show ?case by (simp add: splits_def vv_adds_def)
next
  case (Cons i "is")
  let ?U = "\<Union>j \<in> set is. P j"
  have s: "splits is P ?U" "P i \<inter> ?U = {}" "U = P i \<union> ?U"
    using Cons.prems(1) by (auto simp: splits_def)
  have "vv_adds add X y Z0 U (\<lambda>Z. Option.bind (body i Z) (each is body))"
    by (rule adds_two[OF Cons.prems(2) Cons.IH s(2,3)]) (use s(1) Cons.prems(2) in auto)
  then show ?case by (simp add: vv_adds_def)
qed

text \<open>All elements added: the sum of the arrays.\<close>

lemma adds_all:
  assumes "vv_adds add X y Z0 {0..<length Z0} body" "\<And>i. i < length Z0 \<Longrightarrow> rdx Z0 i = Some (X ! i)"
    and "length X = length Z0" "length y = length Z0"
  shows "body Z0 = Some (map2 add X y)"
proof -
  have "vv_inv add X y Z0 {} Z0" using assms(2) by (simp add: vv_inv_def)
  then obtain Z where Z: "body Z0 = Some Z" "vv_inv add X y Z0 {0..<length Z0} Z"
    using assms(1) unfolding vv_adds_def by (metis Int_empty_left Un_empty_left)
  have "Z = map2 add X y" by (rule nth_equalityI) (use Z(2) assms(3,4) in \<open>auto simp: vv_inv_def\<close>)
  then show ?thesis using Z(1) by simp
qed

lemma adds_rest:
  assumes "vv_adds add X y Z0 P body" "\<And>i. i < length Z0 \<Longrightarrow> rdx Z0 i = Some (X ! i)"
  shows "\<exists>Z. body Z0 = Some Z \<and> length Z = length Z0 \<and> (\<forall>i < length Z0. Z ! i = (if i \<in> P then add (X ! i) (y ! i) else Z0 ! i))"
proof -
  have "vv_inv add X y Z0 {} Z0" using assms(2) by (simp add: vv_inv_def)
  then obtain Z where Z: "body Z0 = Some Z" "vv_inv add X y Z0 P Z"
    using assms(1) unfolding vv_adds_def by (metis Int_empty_left Un_empty_left)
  then show ?thesis by (intro exI[of _ Z]) (auto simp: vv_inv_def)
qed

end

section \<open>How the parts of the cores split the arrays\<close>

lemma splits_every:
  assumes "q < ncores"
  shows "splits (steps q n ncores) (\<lambda>i. {i}) (stride ncores n q)"
proof -
  have "set (steps q n ncores) = stride ncores n q"
  proof (intro set_eqI)
    fix x
    have "x mod ncores = q \<longleftrightarrow> (\<exists>t. x = q + t * ncores)"
      using assms by (metis add.commute div_mult_mod_eq mod_less mod_mult_self1)
    then show "x \<in> set (steps q n ncores) \<longleftrightarrow> x \<in> stride ncores n q"
      using steps_iff[of ncores x q n] assms by (auto simp: stride_def)
  qed
  then show ?thesis using distinct_steps[of ncores q n] assms by (simp add: splits_def)
qed

text \<open>\<open>vvadd1\<close>: a pass takes two groups of four elements.\<close>

lemma splits_eights:
  assumes "8 * ncores dvd n" "q < ncores"
  shows "splits (steps (q * 4) n (8 * ncores)) (\<lambda>i. {i..<i + 4} \<union> {i + ncores * 4..<i + ncores * 4 + 4}) (bstride 4 ncores n q)"
proof -
  let ?P = "\<lambda>i. {i..<i + 4} \<union> {i + ncores * 4..<i + ncores * 4 + 4}"
  have st: "0 < 8 * ncores" using assms(2) by simp
  have P: "x \<in> ?P (q * 4 + s * (8 * ncores)) \<longleftrightarrow> x div 4 mod ncores = q \<and> x div 4 div ncores div 2 = s" for x s
  proof -
    have g: "x \<in> {4 * u..<4 * u + 4} \<longleftrightarrow> x div 4 = u" for u by auto
    have "q * 4 + s * (8 * ncores) = 4 * (q + 2 * s * ncores)" "q * 4 + s * (8 * ncores) + ncores * 4 = 4 * (q + (2 * s + 1) * ncores)"
      by (simp_all add: algebra_simps)
    then have "x \<in> ?P (q * 4 + s * (8 * ncores)) \<longleftrightarrow> x div 4 = q + 2 * s * ncores \<or> x div 4 = q + (2 * s + 1) * ncores"
      using g by (simp only: Un_iff)
    also have "\<dots> \<longleftrightarrow> x div 4 mod ncores = q \<and> (x div 4 div ncores = 2 * s \<or> x div 4 div ncores = 2 * s + 1)"
    proof -
      have "x div 4 = q + v * ncores \<longleftrightarrow> x div 4 mod ncores = q \<and> x div 4 div ncores = v" for v
      proof
        assume "x div 4 = q + v * ncores"
        then show "x div 4 mod ncores = q \<and> x div 4 div ncores = v" using assms(2) by simp
      next
        assume "x div 4 mod ncores = q \<and> x div 4 div ncores = v"
        then show "x div 4 = q + v * ncores" by (metis add.commute div_mult_mod_eq)
      qed
      then show ?thesis by blast
    qed
    also have "\<dots> \<longleftrightarrow> x div 4 mod ncores = q \<and> x div 4 div ncores div 2 = s" by (metis Suc_eq_plus1 dvd_mult_div_cancel even_Suc_div_two even_two_times_div_two nonzero_mult_div_cancel_left odd_two_times_div_two_succ zero_neq_numeral dvd_triv_left)
    finally show ?thesis .
  qed
  obtain m where m: "n = 8 * ncores * m" using assms(1) by (auto elim: dvdE)
  have lt: "x < n \<longleftrightarrow> x div 4 div ncores div 2 < m" for x
  proof -
    have "x div 4 div ncores div 2 = x div (4 * ncores * 2)" unfolding div_mult2_eq ..
    moreover have "x div (4 * ncores * 2) < m \<longleftrightarrow> x < m * (4 * ncores * 2)"
      by (rule div_less_iff_less_mult) (use assms(2) in simp)
    moreover have "m * (4 * ncores * 2) = n" unfolding m by simp
    ultimately show ?thesis by (simp only:)
  qed
  have s: "i \<in> set (steps (q * 4) n (8 * ncores)) \<longleftrightarrow> (\<exists>s. i = q * 4 + s * (8 * ncores) \<and> s < m)" for i
  proof -
    have "q * 4 + s * (8 * ncores) < n \<longleftrightarrow> s < m" for s
    proof -
      have "q * 4 + s * (8 * ncores) \<in> ?P (q * 4 + s * (8 * ncores))" by simp
      then show ?thesis using P[of "q * 4 + s * (8 * ncores)" s] lt[of "q * 4 + s * (8 * ncores)"] by simp
    qed
    then show ?thesis unfolding steps_iff[OF st] by blast
  qed
  have "?P i \<inter> ?P j = {}" if ij: "i \<in> set (steps (q * 4) n (8 * ncores))" "j \<in> set (steps (q * 4) n (8 * ncores))" "i \<noteq> j" for i j
  proof (rule equals0I)
    fix x assume x: "x \<in> ?P i \<inter> ?P j"
    obtain s s' where e: "i = q * 4 + s * (8 * ncores)" "j = q * 4 + s' * (8 * ncores)" using ij(1,2) unfolding s by blast
    have "x div 4 div ncores div 2 = s" using conjunct2[OF iffD1[OF P IntD1[OF x[unfolded e]]]] .
    moreover have "x div 4 div ncores div 2 = s'" using conjunct2[OF iffD1[OF P IntD2[OF x[unfolded e]]]] .
    ultimately show False using ij(3) e by simp
  qed
  moreover have "(\<Union>i \<in> set (steps (q * 4) n (8 * ncores)). ?P i) = bstride 4 ncores n q"
  proof (intro set_eqI iffI)
    fix x assume "x \<in> (\<Union>i \<in> set (steps (q * 4) n (8 * ncores)). ?P i)"
    then obtain i where i: "i \<in> set (steps (q * 4) n (8 * ncores))" "x \<in> ?P i" by (rule UN_E)
    from i(1) obtain s' where e: "i = q * 4 + s' * (8 * ncores)" "s' < m" unfolding s by blast
    have "x div 4 mod ncores = q \<and> x div 4 div ncores div 2 = s'" by (rule iffD1[OF P i(2)[unfolded e(1)]])
    then show "x \<in> bstride 4 ncores n q" using lt[of x] e(2) by (simp add: bstride_def)
  next
    fix x assume "x \<in> bstride 4 ncores n q"
    then have x: "x div 4 mod ncores = q" "x div 4 div ncores div 2 < m" using lt[of x] by (simp_all add: bstride_def)
    let ?i = "q * 4 + x div 4 div ncores div 2 * (8 * ncores)"
    have "x \<in> ?P ?i" by (rule iffD2[OF P]) (use x(1) in simp)
    moreover have "?i \<in> set (steps (q * 4) n (8 * ncores))" unfolding s using x(2) by blast
    ultimately show "x \<in> (\<Union>i \<in> set (steps (q * 4) n (8 * ncores)). ?P i)" by (rule UN_I[rotated])
  qed
  ultimately show ?thesis using st by (simp add: splits_def distinct_steps)
qed

lemma eights:
  assumes "0 < (count :: nat)" "k = (if count mod 8 = 0 then 8 else count mod 8)"
  shows "k + 8 * ((count + 7) div 8 - 1) = count"
proof -
  obtain q r where c: "count = 8 * q + r" "r < 8" by (metis mult_div_mod_eq mod_less_divisor zero_less_numeral)
  have m: "count mod 8 = r" using c by simp
  show ?thesis
  proof (cases "r = 0")
    case True
    then have "(count + 7) div 8 = q" using c by (intro div_nat_eqI) simp_all
    then show ?thesis using assms m c True by simp
  next
    case False
    then have "(count + 7) div 8 = q + 1" using c by (intro div_nat_eqI) simp_all
    then show ?thesis using assms m c False by simp
  qed
qed

section \<open>The five variants\<close>

context vv_source
begin

lemma vvadd4_adds:
  assumes "length Z0 = n" "length y = n" "distinct ids" "set ids = {0..<ncores}" "0 < ncores"
  shows "vv_adds add X y Z0 {0..<n} (each ids (\<lambda>q. vvadd4 add q ncores n rdx y))"
  unfolding vvadd4_def
proof (rule adds_each[OF splits_stride_cores[OF assms(3-5)]], rule adds_each[OF splits_every])
  fix q i assume "q \<in> set ids" "i \<in> set (steps q n ncores)"
  then show "vv_adds add X y Z0 {i} (vv_at add rdx y i)"
    by (intro adds_one) (use assms steps_iff[of ncores i q n] in auto)
qed (use assms in simp)

lemma vvadd2_adds:
  assumes "length Z0 = n" "length y = n" "distinct ids" "set ids = {0..<ncores}" "0 < ncores" "2 * ncores dvd n"
  shows "vv_adds add X y Z0 {0..<n} (each ids (\<lambda>q. vvadd2 add q ncores n rdx y))"
  unfolding vvadd2_def
proof (rule adds_each[OF splits_stride_cores[OF assms(3-5)]], rule adds_each[OF splits_stride[OF assms(6)]])
  fix q i assume q: "q \<in> set ids" and i: "i \<in> set (steps q n (2 * ncores))"
  then have "i < n" "i + ncores < n" using stride_less[OF i, of 0] stride_less[OF i, of 1] assms(4,6) by simp_all
  moreover have "(\<lambda>r. i + r * ncores) ` {0..<2} = {i} \<union> {i + ncores}" by (auto simp: numeral_2_eq_2 less_Suc_eq)
  ultimately show "vv_adds add X y Z0 ((\<lambda>r. i + r * ncores) ` {0..<2}) (\<lambda>Z. do { Z \<leftarrow> vv_at add rdx y i Z; vv_at add rdx y (i + ncores) Z })"
    by (intro adds_two[OF adds_one adds_one]) (use assms in simp_all)
qed (use assms in simp_all)

lemma adds_range:
  assumes "i + k \<le> length Z0" "length y = length Z0"
  shows "vv_adds add X y Z0 {i..<i + k} (each [0..<k] (\<lambda>m. vv_at add rdx y (i + m)))"
  by (rule adds_each[OF splits_unroll], rule adds_one) (use assms in simp_all)

lemma vvadd1_adds:
  assumes "length Z0 = n" "length y = n" "distinct ids" "set ids = {0..<ncores}" "0 < ncores" "8 * ncores dvd n"
  shows "vv_adds add X y Z0 {0..<n} (each ids (\<lambda>q. vvadd1 add q ncores n rdx y))"
  unfolding vvadd1_def
proof (rule adds_each[OF splits_bstride_cores[OF assms(3-5)]], rule adds_each[OF splits_eights[OF assms(6)]])
  fix q i assume q: "q \<in> set ids" and i: "i \<in> set (steps (q * 4) n (8 * ncores))"
  have "i + ncores * 4 + 3 \<in> bstride 4 ncores n q"
    using splits_eights[OF assms(6), of q] q assms(4) i unfolding splits_def by fastforce
  then have "i + ncores * 4 + 4 \<le> n" by (simp add: bstride_def)
  moreover have "{i..<i + 4} \<inter> {i + ncores * 4..<i + ncores * 4 + 4} = {}" using assms(5) by auto
  ultimately show "vv_adds add X y Z0 ({i..<i + 4} \<union> {i + ncores * 4..<i + ncores * 4 + 4}) (\<lambda>Z. do {
      Z \<leftarrow> each [0..<4] (\<lambda>m. vv_at add rdx y (i + m)) Z;
      each [0..<4] (\<lambda>m. vv_at add rdx y (i + ncores * 4 + m)) Z })"
    by (intro adds_two[OF adds_range adds_range]) (use assms in simp_all)
qed (use assms in simp)

text \<open>\<open>vvadd0\<close>: the shares of the cores and the last \<open>n mod (n div ncores)\<close> elements.\<close>

lemma vvadd0_adds:
  assumes "length Z0 = n" "length y = n" "distinct ids" "set ids = {0..<ncores}" "0 < ncores" "ncores \<le> n"
  shows "vv_adds add X y Z0 ({0..<ncores * (n div ncores)} \<union> {n - n mod (n div ncores)..<n}) (each ids (\<lambda>q. vvadd0 add q ncores n rdx y))"
proof -
  let ?d = "n div ncores"
  define l where "l = n - n mod ?d"
  let ?L = "\<lambda>q. {x \<in> {l..<n}. (x - l) mod ncores = q}"
  have d: "0 < ?d" using assms(5,6) by (simp add: div_greater_zero_iff)
  have le: "(q + 1) * ?d \<le> ncores * ?d" if "q < ncores" for q using that by (intro mult_le_mono1) simp
  have nd: "ncores * ?d \<le> n" by simp
  have lle: "ncores * ?d \<le> l"
  proof -
    have "ncores \<le> n div ?d" using d nd by (simp add: less_eq_div_iff_mult_less_eq)
    then have "ncores * ?d \<le> n div ?d * ?d" by (rule mult_le_mono1)
    then show ?thesis by (simp add: l_def minus_mod_eq_div_mult)
  qed
  have s: "splits ids (\<lambda>q. {q * ?d..<(q + 1) * ?d} \<union> ?L q) ({0..<ncores * ?d} \<union> {l..<n})"
  proof -
    have c: "splits ids (\<lambda>q. {q * ?d..<(q + 1) * ?d}) {0..<ncores * ?d}" by (rule splits_cores[OF assms(3,4) d])
    then have "({i * ?d..<(i + 1) * ?d} \<union> ?L i) \<inter> ({j * ?d..<(j + 1) * ?d} \<union> ?L j) = {}"
      if ij: "i \<in> set ids" "j \<in> set ids" "i \<noteq> j" for i j
    proof -
      have "{i * ?d..<(i + 1) * ?d} \<inter> {j * ?d..<(j + 1) * ?d} = {}" using c ij unfolding splits_def by blast
      moreover have "?L i \<inter> ?L j = {}" using ij(3) by auto
      moreover have "{q * ?d..<(q + 1) * ?d} \<inter> ?L p = {}" if "q \<in> set ids" for p q
        using le[of q] lle that assms(4) by fastforce
      ultimately show ?thesis using ij(1,2) by blast
    qed
    moreover have "(\<Union>q \<in> set ids. {q * ?d..<(q + 1) * ?d} \<union> ?L q) = {0..<ncores * ?d} \<union> {l..<n}"
    proof -
      have "(\<Union>q \<in> set ids. ?L q) = {l..<n}" using assms(4,5) by auto
      then show ?thesis using c unfolding splits_def UN_Un_distrib by simp
    qed
    ultimately show ?thesis using assms(3) by (simp add: splits_def)
  qed
  show ?thesis
    unfolding l_def[symmetric]
  proof (rule adds_each[OF s])
    fix q assume "q \<in> set ids"
    then have q: "q < ncores" using assms(4) by simp
    have p: "vv_adds add X y Z0 {q * ?d..<(q + 1) * ?d} (each [q * ?d..<(q + 1) * ?d] (vv_at add rdx y))"
    proof (rule adds_each[OF splits_upt], rule adds_one)
      fix i assume "i \<in> set [q * ?d..<(q + 1) * ?d]"
      then have "i < (q + 1) * ?d" by simp
      then show "i < length Z0" using le[OF q] nd assms(1) by linarith
    qed (use assms in simp)
    have st: "splits (steps (l + q) n ncores) (\<lambda>i. {i}) (?L q)"
    proof -
      have "set (steps (l + q) n ncores) = ?L q"
      proof (intro set_eqI)
        fix x
        have "l \<le> x \<and> (x - l) mod ncores = q \<longleftrightarrow> (\<exists>t. x = l + q + t * ncores)"
        proof
          assume a: "l \<le> x \<and> (x - l) mod ncores = q"
          have "x - l = q + (x - l) div ncores * ncores" using a by (metis mod_div_mult_eq)
          then have "x = l + q + (x - l) div ncores * ncores" using a by linarith
          then show "\<exists>t. x = l + q + t * ncores" by blast
        next
          assume "\<exists>t. x = l + q + t * ncores"
          then obtain t where t: "x = l + (q + t * ncores)" by (metis add.assoc)
          then have "x - l = q + t * ncores" by simp
          then show "l \<le> x \<and> (x - l) mod ncores = q" using q t by simp
        qed
        then show "x \<in> set (steps (l + q) n ncores) \<longleftrightarrow> x \<in> ?L q" using steps_iff[OF assms(5), of x "l + q" n] by auto
      qed
      then show ?thesis using distinct_steps[OF assms(5)] by (simp add: splits_def)
    qed
    have r: "vv_adds add X y Z0 (?L q) (each (steps (l + q) n ncores) (vv_at add rdx y))"
    proof (rule adds_each[OF st], rule adds_one)
      fix i assume "i \<in> set (steps (l + q) n ncores)"
      then show "i < length Z0" using steps_iff[OF assms(5), of i "l + q" n] assms(1) by auto
    qed (use assms in simp)
    have "{q * ?d..<(q + 1) * ?d} \<inter> ?L q = {}" using le[OF q] lle by fastforce
    from adds_two[OF p r this refl]
    show "vv_adds add X y Z0 ({q * ?d..<(q + 1) * ?d} \<union> ?L q) (vvadd0 add q ncores n rdx y)"
      using assms(5) d unfolding vvadd0_def Let_def by (simp add: vv_adds_def l_def)
  qed
qed

text \<open>\<open>vvadd3\<close>: \<open>c\<close> passes, the first of \<open>k\<close> elements.\<close>

lemma vvadd3_loop_adds:
  assumes "0 < c" "i + k + 8 * (unat c - 1) \<le> length Z0" "length y = length Z0"
  shows "vv_adds add X y Z0 {i..<i + k + 8 * (unat c - 1)} (vvadd3_loop add rdx y k c i)"
  using assms(1,2)
proof (induction "unat c - 1" arbitrary: c i k)
  case 0
  have "unat c = 1" using 0(1,2) by (metis One_nat_def Suc_pred unat_gt_0 word_gt_0)
  then have c: "c = 1" by (metis unat_1 word_unat_eq_iff)
  have "vvadd3_loop add rdx y k c i = each [0..<k] (\<lambda>m. vv_at add rdx y (i + m))"
    unfolding c by (rule ext) (simp add: vvadd3_loop.simps[of add rdx y k 1 i])
  then show ?case using adds_range[of i k Z0 y] 0(3) assms(3) c by simp
next
  case (Suc r)
  have u: "unat (c - 1) = unat c - 1" using unat_minus_one[of c] Suc(3) by (simp add: word_gt_0)
  have "0 < unat (c - 1)" using u Suc(2) by simp
  then have p: "0 < c - 1" unfolding unat_gt_0 word_gt_0 by (rule not_sym)
  have e: "vvadd3_loop add rdx y k c i = (\<lambda>Z. Option.bind (each [0..<k] (\<lambda>m. vv_at add rdx y (i + m)) Z) (vvadd3_loop add rdx y 8 (c - 1) (i + k)))"
    using p by (intro ext) (simp only: vvadd3_loop.simps[of add rdx y k c i] Let_def if_True)
  have n: "i + k + 8 + 8 * (unat (c - 1) - 1) = i + k + 8 * (unat c - 1)" using Suc(2) u by simp
  have b: "i + k + 8 + 8 * (unat (c - 1) - 1) \<le> length Z0" using Suc(4) n by simp
  have "vv_adds add X y Z0 {i + k..<i + k + 8 + 8 * (unat (c - 1) - 1)} (vvadd3_loop add rdx y 8 (c - 1) (i + k))"
    by (rule Suc(1)[OF _ p b]) (use Suc(2) u in simp)
  then show ?case
    unfolding e n by (intro adds_two[OF adds_range]) (use Suc(4) assms(3) in auto)
qed

lemma vvadd3_adds:
  assumes "length Z0 = n" "length y = n" "distinct ids" "set ids = {0..<ncores}" "0 < ncores" "ncores \<le> n" "n + 7 < 2 ^ 64"
  shows "vv_adds add X y Z0 {0..<ncores * (n div ncores)} (each ids (\<lambda>q. vvadd3 add q ncores n rdx y))"
proof (rule adds_each[OF splits_cores[OF assms(3,4)]])
  show "0 < n div ncores" using assms(5,6) by (simp add: div_greater_zero_iff)
  fix q assume "q \<in> set ids"
  then have q: "q < ncores" using assms(4) by simp
  define count where "count = n div ncores"
  define k where "k = (if count mod 8 = 0 then 8 else count mod 8)"
  have c: "0 < count" "count \<le> n" using assms(5,6) by (simp_all add: count_def div_greater_zero_iff)
  have u: "unat ((word_of_nat count + 7) div 8 :: 64 word) = (count + 7) div 8"
  proof -
    have L: "LENGTH(64) = 64" by simp
    have "count + 7 < 2 ^ 64" by (rule le_less_trans[OF _ assms(7)]) (use c(2) in \<open>rule add_le_mono1\<close>)
    then have "unat (word_of_nat (count + 7) :: 64 word) = count + 7"
      unfolding unat_of_nat L by (rule mod_less)
    moreover have "word_of_nat count + 7 = (word_of_nat (count + 7) :: 64 word)" by (simp only: of_nat_add of_nat_numeral)
    moreover have "unat (8 :: 64 word) = 8" by simp
    ultimately show ?thesis by (simp only: unat_div)
  qed
  have e: "k + 8 * ((count + 7) div 8 - 1) = count" by (rule eights[OF c(1) k_def])
  define passes where "passes = ((word_of_nat count + 7) div 8 :: 64 word)"
  have u': "unat passes = (count + 7) div 8" unfolding passes_def by (rule u)
  have p: "0 < passes"
  proof -
    have "0 < (count + 7) div 8" using c(1) by (simp add: div_greater_zero_iff)
    then show ?thesis unfolding u'[symmetric] unat_gt_0 word_gt_0 by (rule not_sym)
  qed
  have le: "(q + 1) * count \<le> n"
  proof -
    have "(q + 1) * count \<le> ncores * count" using q by (intro mult_le_mono1) simp
    also have "ncores * count \<le> n" by (simp add: count_def)
    finally show ?thesis .
  qed
  have e': "q * count + k + 8 * (unat passes - 1) = (q + 1) * count" unfolding u' using e by simp
  have "vv_adds add X y Z0 {q * count..<(q + 1) * count} (vvadd3_loop add rdx y k passes (q * count))"
    using vvadd3_loop_adds[OF p, of "q * count" k Z0 y] le assms(1,2) unfolding e' by (simp only:)
  moreover have "vvadd3 add q ncores n rdx y = vvadd3_loop add rdx y k passes (q * count)"
    by (rule ext) (simp only: vvadd3_def Let_def count_def[symmetric] k_def[symmetric] passes_def[symmetric] not_less_zero if_False, use q in simp)
  ultimately show "vv_adds add X y Z0 {q * (n div ncores)..<(q + 1) * (n div ncores)} (vvadd3 add q ncores n rdx y)"
    unfolding count_def by (simp only:)
qed

lemma vvadd_sums:
  assumes "length Z0 = n" "length X = n" "length y = n" "distinct ids" "set ids = {0..<ncores}" "0 < ncores" "n + 7 < 2 ^ 64"
    and "\<And>i. i < n \<Longrightarrow> rdx Z0 i = Some (X ! i)"
    and "(f = vvadd0 \<and> n mod ncores < n div ncores) \<or> (f = vvadd1 \<and> 8 * ncores dvd n) \<or> (f = vvadd2 \<and> 2 * ncores dvd n) \<or>
      (f = vvadd3 \<and> ncores dvd n \<and> 0 < n) \<or> f = vvadd4"
  shows "each ids (\<lambda>q. f add q ncores n rdx y) Z0 = Some (map2 add X y)"
proof -
  have "vv_adds add X y Z0 {0..<n} (each ids (\<lambda>q. f add q ncores n rdx y))"
    using assms(9)
  proof (elim disjE conjE)
    assume f: "f = vvadd0" and d: "n mod ncores < n div ncores"
    have "0 < n div ncores" using d by simp
    then have n: "ncores \<le> n" using assms(6) by (simp add: div_greater_zero_iff)
    have "n = n mod ncores + ncores * (n div ncores)" by simp
    then have "n mod (n div ncores) = n mod ncores mod (n div ncores)" by (metis mod_mult_self1 mult.commute)
    then have "n mod (n div ncores) = n mod ncores" using d by simp
    then have "n - n mod (n div ncores) = ncores * (n div ncores)" by (simp add: minus_mod_eq_mult_div)
    moreover have "ncores * (n div ncores) \<le> n" by simp
    ultimately have "{0..<ncores * (n div ncores)} \<union> {n - n mod (n div ncores)..<n} = {0..<n}" by (metis ivl_disj_un_two(3) le0)
    then show ?thesis using vvadd0_adds[OF assms(1,3-6) n, of add X] f by simp
  next
    assume f: "f = vvadd1" and d: "8 * ncores dvd n"
    show ?thesis unfolding f by (rule vvadd1_adds[OF assms(1,3-6) d])
  next
    assume f: "f = vvadd2" and d: "2 * ncores dvd n"
    show ?thesis unfolding f by (rule vvadd2_adds[OF assms(1,3-6) d])
  next
    assume f: "f = vvadd3" and d: "ncores dvd n" "0 < n"
    have "vv_adds add X y Z0 {0..<ncores * (n div ncores)} (each ids (\<lambda>q. f add q ncores n rdx y))"
      unfolding f by (rule vvadd3_adds[OF assms(1,3-6) dvd_imp_le[OF d] assms(7)])
    then show ?thesis using d(1) by simp
  next
    assume f: "f = vvadd4"
    show ?thesis unfolding f by (rule vvadd4_adds[OF assms(1,3-6)])
  qed
  then show ?thesis using adds_all[of add X y Z0] assms(1-3,8) by simp
qed

end

interpretation apart: vv_source "\<lambda>_. rd x" for x :: "'a list"
  by unfold_locales simp

interpretation in_place: vv_source "rd :: 'a source"
  by unfold_locales (simp add: rd_def)

section \<open>What the variants get wrong\<close>

lemma each_None:
  assumes "i \<in> set is" "\<And>s. body i s = None"
  shows "each is body s = None"
  using assms(1) by (induction "is" arbitrary: s) (auto simp: assms(2) split: Option.bind_split)

lemma vv_at_None: "length y \<le> i \<Longrightarrow> vv_at add rdx y i Z = None"
  by (simp add: vv_at_def rd_def bind_eq_None_conv)

text \<open>Some core of \<open>vvadd1\<close>, \<open>vvadd2\<close> starts a pass within the arrays that ends outside.\<close>

lemma last_pass:
  fixes w N n :: nat
  assumes "0 < w" "0 < N" "\<not> 2 * w * N dvd n"
  obtains q i where "q < N" "i \<in> set (steps (q * w) n (2 * w * N))" "n \<le> i + N * w + (w - 1)"
proof -
  let ?M = "2 * w * N"
  have M: "0 < ?M" using assms by simp
  define r where "r = n mod ?M"
  define t where "t = n div ?M"
  have n: "n = t * ?M + r" unfolding r_def t_def by (rule div_mult_mod_eq[symmetric])
  have r: "0 < r" "r < ?M" using assms(3) M by (simp_all add: r_def mod_greater_zero_iff_not_dvd)
  define q where "q = min ((r - 1) div w) (N - 1)"
  have q: "q < N" using assms(2) by (simp add: q_def)
  have "q * w \<le> (r - 1) div w * w" unfolding q_def by (intro mult_le_mono1) simp
  also have "\<dots> \<le> r - 1" by simp
  finally have lo: "q * w < r" using r(1) by simp
  have hi: "r \<le> q * w + N * w + (w - 1)"
  proof (cases "(r - 1) div w \<le> N - 1")
    case True
    then have "q = (r - 1) div w" by (simp add: q_def)
    then have "r - 1 < q * w + w" using dividend_less_div_times[OF assms(1), of "r - 1"] by (simp add: add.commute)
    moreover have "1 * w \<le> N * w" using assms(2) by (intro mult_le_mono1) simp
    ultimately show ?thesis using assms(1) r(1) by linarith
  next
    case False
    then have "q = N - 1" by (simp add: q_def)
    then have "q * w + w = N * w" using assms(2) by (metis Suc_diff_1 add.commute mult_Suc)
    then show ?thesis using r(2) assms(1) by (simp add: mult.commute mult.left_commute)
  qed
  have "q * w + t * ?M \<in> set (steps (q * w) n ?M)" unfolding steps_iff[OF M] using lo n by auto
  then show ?thesis using that[OF q] hi n by simp
qed

lemma vvadd2_overruns:
  assumes "length y = n" "set ids = {0..<ncores}" "0 < ncores" "\<not> 2 * ncores dvd n"
  shows "each ids (\<lambda>q. vvadd2 add q ncores n rdx y) Z = None"
proof -
  obtain q i where q: "q < ncores" "i \<in> set (steps (q * 1) n (2 * 1 * ncores))" "n \<le> i + ncores * 1 + (1 - 1)"
    using last_pass[of 1 ncores n] assms by auto
  show ?thesis
  proof (rule each_None)
    show "q \<in> set ids" using q(1) assms(2) by simp
    show "vvadd2 add q ncores n rdx y Z = None" for Z
      unfolding vvadd2_def by (rule each_None[of i]) (use q assms(1) in \<open>auto simp: vv_at_None bind_eq_None_conv\<close>)
  qed
qed

lemma vvadd1_overruns:
  assumes "length y = n" "set ids = {0..<ncores}" "0 < ncores" "\<not> 8 * ncores dvd n"
  shows "each ids (\<lambda>q. vvadd1 add q ncores n rdx y) Z = None"
proof -
  obtain q i where q: "q < ncores" "i \<in> set (steps (q * 4) n (2 * 4 * ncores))" "n \<le> i + ncores * 4 + (4 - 1)"
    using last_pass[of 4 ncores n] assms by auto
  show ?thesis
  proof (rule each_None)
    show "q \<in> set ids" using q(1) assms(2) by simp
    have last: "each [0..<4] (\<lambda>m. vv_at add rdx y (i + ncores * 4 + m)) Z = None" for Z
      by (rule each_None[of 3]) (use q(3) assms(1) in \<open>simp_all add: vv_at_None\<close>)
    show "vvadd1 add q ncores n rdx y Z = None" for Z
      unfolding vvadd1_def by (rule each_None[of i]) (use q(2) last in \<open>auto simp: bind_eq_None_conv simp del: upt_rec_numeral\<close>)
  qed
qed

text \<open>With fewer elements than cores, \<open>count\<close> and \<open>c\<close> are 0: \<open>--c\<close> wraps around and the loop runs on.\<close>

lemma vvadd3_loop_overruns:
  "0 < k \<Longrightarrow> length y < i + k + 8 * unat (c - 1) \<Longrightarrow> vvadd3_loop add rdx y k c i Z = None"
proof (induction "unat (c - 1)" arbitrary: c i k Z)
  case 0
  then have "length y < i + k" "0 < k" by simp_all
  then have "each [0..<k] (\<lambda>m. vv_at add rdx y (i + m)) Z = None"
    by (intro each_None[of "k - 1"] vv_at_None) simp_all
  then show ?case unfolding vvadd3_loop.simps[of add rdx y k c i] by (simp only: Option.bind.simps)
next
  case (Suc m)
  have "c - 1 \<noteq> 0" using Suc(2) by auto
  then have u: "unat (c - 1 - 1) = m" and p: "0 < c - 1" using Suc(2) unat_minus_one[of "c - 1"] by (simp_all only: word_gt_0) simp_all
  have "vvadd3_loop add rdx y 8 (c - 1) (i + k) Z = None" for Z
    by (rule Suc(1)) (use Suc(2,4) u in simp_all)
  then show ?case unfolding vvadd3_loop.simps[of add rdx y k c i] Let_def using p by (simp add: bind_eq_None_conv)
qed

lemma vvadd3_overruns:
  assumes "length y = n" "n < ncores" "n + 7 < 2 ^ 64"
  shows "vvadd3 add q ncores n rdx y Z = None"
proof -
  have "unat (0 - 1 :: 64 word) = 2 ^ 64 - 1" by (simp add: unsigned_minus_1_eq_mask mask_eq_exp_minus_1)
  then have l: "length y < 0 + 8 + 8 * unat (0 - 1 :: 64 word)" using assms(1,3) by simp
  have "vvadd3 add q ncores n rdx y Z = vvadd3_loop add rdx y 8 0 0 Z"
    using assms(2) by (simp add: vvadd3_def Let_def)
  then show ?thesis using vvadd3_loop_overruns[OF _ l, of add rdx Z] by simp
qed

section \<open>Properties\<close>

text \<open>
  C25. Run by all cores in any order, \<open>vvadd4\<close> stores the sum of the two arrays for every number of
  elements and cores; \<open>vvadd0\<close> when the share of a core exceeds the remainder of \<open>n\<close> by the number of
  cores, \<open>vvadd1\<close> and \<open>vvadd2\<close> when \<open>n\<close> is a multiple of eight and two times the number of cores,
  \<open>vvadd3\<close> when it is a multiple of the number of cores. This holds into a third array and in place.
\<close>

theorem vvadd_sums_arrays:
  assumes "(f = vvadd0 \<and> n mod ncores < n div ncores) \<or> (f = vvadd1 \<and> 8 * ncores dvd n) \<or> (f = vvadd2 \<and> 2 * ncores dvd n) \<or>
      (f = vvadd3 \<and> ncores dvd n \<and> 0 < n) \<or> f = vvadd4"
    and "length x = n" "length y = n" "length z = n" "n + 7 < 2 ^ 64"
    and "distinct ids" "set ids = {0..<ncores}" "0 < ncores"
  shows "each ids (\<lambda>q. f add q ncores n (\<lambda>_. rd x) y) z = Some (map2 add x y) \<and>
    each ids (\<lambda>q. f add q ncores n rd y) x = Some (map2 add x y)"
proof
  show "each ids (\<lambda>q. f add q ncores n (\<lambda>_. rd x) y) z = Some (map2 add x y)"
    by (rule apart.vvadd_sums[OF assms(4,2,3,6-8,5) _ assms(1)]) (simp add: assms(2))
  show "each ids (\<lambda>q. f add q ncores n rd y) x = Some (map2 add x y)"
    by (rule in_place.vvadd_sums[OF assms(2,2,3,6-8,5) _ assms(1)]) (simp add: assms(2))
qed

theorem vvadd_sums_arrays_witness:
  "each [1, 0] (\<lambda>q. vvadd3 (+) q 2 4 (\<lambda>_. rd [1, 2, 3, 4]) [5, 6, 7, 8]) [0, 0, 0, 0] = Some [6, 8, 10, 12 :: int]"
proof -
  have "each [1, 0] (\<lambda>q. vvadd3 (+) q 2 4 (\<lambda>_. rd [1, 2, 3, 4]) [5, 6, 7, 8]) [0, 0, 0, 0] = Some (map2 (+) [1, 2, 3, 4] [5, 6, 7, 8 :: int])"
    by (rule vvadd_sums_arrays[THEN conjunct1]) auto
  then show ?thesis by (simp only: zip_Cons_Cons zip.simps list.map prod.case) simp
qed

text \<open>
  C26. Outside these cases elements are missed or the arrays are overrun. \<open>vvadd1\<close> and \<open>vvadd2\<close> access
  elements behind the end whenever \<open>n\<close> is not a multiple of eight and two times the number of cores.
  With fewer elements than cores \<open>vvadd0\<close> divides by zero and the counter of \<open>vvadd3\<close> wraps around, so that it runs
  out of the arrays. When the remainder of \<open>n\<close> by the number of cores is at least a core's share, \<open>vvadd0\<close> leaves
  an element of \<open>z\<close> as it was, and \<open>vvadd3\<close> leaves the last one whenever there is a remainder.
\<close>

theorem vvadd_incomplete:
  assumes "length x = n" "length y = n" "length z = n" "n + 7 < 2 ^ 64"
    and "distinct ids" "set ids = {0..<ncores}" "0 < ncores"
  shows "(\<not> 8 * ncores dvd n \<longrightarrow> each ids (\<lambda>q. vvadd1 add q ncores n (\<lambda>_. rd x) y) z = None) \<and>
    (\<not> 2 * ncores dvd n \<longrightarrow> each ids (\<lambda>q. vvadd2 add q ncores n (\<lambda>_. rd x) y) z = None) \<and>
    (n < ncores \<longrightarrow> each ids (\<lambda>q. vvadd0 add q ncores n (\<lambda>_. rd x) y) z = None \<and>
      each ids (\<lambda>q. vvadd3 add q ncores n (\<lambda>_. rd x) y) z = None) \<and>
    (ncores \<le> n \<and> n div ncores \<le> n mod ncores \<longrightarrow> (\<exists>z'. each ids (\<lambda>q. vvadd0 add q ncores n (\<lambda>_. rd x) y) z = Some z' \<and>
      z' ! (ncores * (n div ncores)) = z ! (ncores * (n div ncores)))) \<and>
    (ncores \<le> n \<and> \<not> ncores dvd n \<longrightarrow> (\<exists>z'. each ids (\<lambda>q. vvadd3 add q ncores n (\<lambda>_. rd x) y) z = Some z' \<and>
      z' ! (n - 1) = z ! (n - 1)))"
proof (intro conjI impI)
  note ids = assms(5-7)
  have q: "0 \<in> set ids" using assms(6,7) by simp
  have src: "rd x i = Some (x ! i)" if "i < length z" for i using that assms(1,3) by simp
  let ?d = "n div ncores" and ?r = "n mod ncores"
  have n: "n = ncores * ?d + ?r" by simp
  show "each ids (\<lambda>q. vvadd1 add q ncores n (\<lambda>_. rd x) y) z = None" if "\<not> 8 * ncores dvd n"
    by (rule vvadd1_overruns[OF assms(2,6,7) that])
  show "each ids (\<lambda>q. vvadd2 add q ncores n (\<lambda>_. rd x) y) z = None" if "\<not> 2 * ncores dvd n"
    by (rule vvadd2_overruns[OF assms(2,6,7) that])
  show "each ids (\<lambda>q. vvadd0 add q ncores n (\<lambda>_. rd x) y) z = None" if "n < ncores"
    by (rule each_None[OF q]) (use that in \<open>simp add: vvadd0_def\<close>)
  show "each ids (\<lambda>q. vvadd3 add q ncores n (\<lambda>_. rd x) y) z = None" if "n < ncores"
    by (rule each_None[OF q], rule vvadd3_overruns[OF assms(2) that assms(4)])
  show "\<exists>z'. each ids (\<lambda>q. vvadd0 add q ncores n (\<lambda>_. rd x) y) z = Some z' \<and> z' ! (ncores * ?d) = z ! (ncores * ?d)"
    if c: "ncores \<le> n \<and> ?d \<le> ?r"
  proof -
    have "0 < ?d" using c assms(7) by (simp add: div_greater_zero_iff)
    then have "n mod ?d < ?r" using c mod_less_divisor[of ?d n] by linarith
    then have "ncores * ?d < n - n mod ?d" "ncores * ?d < length z" using n assms(3) by linarith+
    then show ?thesis
      using apart.adds_rest[OF apart.vvadd0_adds[OF assms(3,2) ids, where add = add and X = x and x = x] src] c by fastforce
  qed
  show "\<exists>z'. each ids (\<lambda>q. vvadd3 add q ncores n (\<lambda>_. rd x) y) z = Some z' \<and> z' ! (n - 1) = z ! (n - 1)"
    if c: "ncores \<le> n \<and> \<not> ncores dvd n"
  proof -
    have "0 < ?r" using c by (simp add: mod_greater_zero_iff_not_dvd)
    then have "ncores * ?d \<le> n - 1" "n - 1 < length z" using n assms(3) by linarith+
    then show ?thesis
      using apart.adds_rest[OF apart.vvadd3_adds[OF assms(3,2) ids _ assms(4), where add = add and X = x and x = x] src] c by fastforce
  qed
qed

theorem vvadd_incomplete_witness:
  "\<exists>z'. each [0, 1, 2, 3] (\<lambda>q. vvadd0 (+) q 4 10 (\<lambda>_. rd (replicate 10 1)) (replicate 10 2)) (replicate 10 (0 :: int)) = Some z' \<and> z' ! 8 = 0"
proof -
  let ?x = "replicate 10 (1 :: int)" and ?y = "replicate 10 (2 :: int)" and ?z = "replicate 10 (0 :: int)"
  have "4 \<le> (10 :: nat) \<and> 10 div 4 \<le> 10 mod (4 :: nat) \<longrightarrow> (\<exists>z'. each [0, 1, 2, 3] (\<lambda>q. vvadd0 (+) q 4 10 (\<lambda>_. rd ?x) ?y) ?z = Some z' \<and>
      z' ! (4 * (10 div 4)) = ?z ! (4 * (10 div 4)))"
    by (rule vvadd_incomplete[THEN conjunct2, THEN conjunct2, THEN conjunct2, THEN conjunct1]) auto
  then obtain z' where "each [0, 1, 2, 3] (\<lambda>q. vvadd0 (+) q 4 10 (\<lambda>_. rd ?x) ?y) ?z = Some z'" "z' ! (4 * (10 div 4)) = ?z ! (4 * (10 div 4))"
    by auto
  then show ?thesis by (intro exI[of _ z'] conjI) simp_all
qed

end
