(* ===== verification/Mt_Rowpairs.thy ===== *)
theory Mt_Rowpairs
  imports Mt_Kernels
begin

text \<open>
  The multiplications of \<open>mt/\<close> that sum two rows of \<open>C\<close> at a time in two local arrays of 32 elements
  and then add them to \<open>C\<close> (\<open>cm\<close>, \<open>cf\<close>) or store them (\<open>am\<close>, \<open>du\<close>, \<open>af\<close>). The two arrays are one list
  of 64 locals: \<open>temp[l]\<close> is the local \<open>l\<close>, \<open>temp2[l]\<close> the local \<open>32 + l\<close>.
\<close>

section \<open>State that is back at its first value after every pass\<close>

definition keeps :: "'t \<Rightarrow> nat \<Rightarrow> ('t \<times> s32 list \<Rightarrow> ('t \<times> s32 list) option) \<Rightarrow> bool" where
  "keeps Z L body \<longleftrightarrow> (\<forall>X. length X = L \<longrightarrow> (\<exists>X'. body (Z, X) = Some (Z, X') \<and> length X' = L))"

definition on_snd :: "'t \<Rightarrow> ('t \<times> s32 list \<Rightarrow> ('t \<times> s32 list) option) \<Rightarrow> s32 list \<Rightarrow> s32 list option" where
  "on_snd Z body X = map_option snd (body (Z, X))"

lemma on_snd_eq: "keeps Z L body \<Longrightarrow> length X = L \<Longrightarrow> body (Z, X) = map_option (Pair Z) (on_snd Z body X)"
  unfolding keeps_def on_snd_def by force

lemma each_keeps:
  assumes "\<And>i. i \<in> set is \<Longrightarrow> keeps Z L (body i)" "length X = L"
  shows "each is body (Z, X) = map_option (Pair Z) (each is (\<lambda>i. on_snd Z (body i)) X) \<and>
    (\<forall>X'. each is (\<lambda>i. on_snd Z (body i)) X = Some X' \<longrightarrow> length X' = L)"
  using assms
proof (induction "is" arbitrary: X)
  case Nil then show ?case by simp
next
  case (Cons i "is")
  obtain X1 where X1: "body i (Z, X) = Some (Z, X1)" "length X1 = L"
    using Cons.prems(1)[of i] Cons.prems(2) unfolding keeps_def by auto
  then have "on_snd Z (body i) X = Some X1" by (simp add: on_snd_def)
  then show ?case using X1 Cons.IH[OF Cons.prems(1) X1(2)] by simp
qed

lemma does_keeps: "(\<And>X. length X = L \<Longrightarrow> body (Z, X) = map_option (Pair Z) (b X)) \<Longrightarrow> does g F L T b \<Longrightarrow>
    keeps Z L body \<and> does g F L T (on_snd Z body)"
  unfolding keeps_def on_snd_def does_def by (simp add: option.map_comp comp_def) (metis option.simps(9))

lemma puts_keeps: "(\<And>X. length X = L \<Longrightarrow> body (Z, X) = map_option (Pair Z) (b X)) \<Longrightarrow> puts V L P b \<Longrightarrow>
    keeps Z L body \<and> puts V L P (on_snd Z body)"
  unfolding keeps_def on_snd_def puts_def by (simp add: option.map_comp comp_def) (metis option.simps(9))

section \<open>Two rows of sums\<close>

text \<open>
  The terms \<open>j\<close> to \<open>j + 3\<close> of the two rows that start at \<open>row\<close> and \<open>row2\<close>: \<open>element1\<close> to \<open>element4\<close> are
  \<open>e\<close>, \<open>element5\<close> to \<open>element8\<close> are \<open>e2\<close>.
\<close>

definition pair_step :: "s32 list \<Rightarrow> s32 list \<Rightarrow> nat \<Rightarrow> nat \<Rightarrow> nat \<Rightarrow> s32 list \<Rightarrow> s32 list option" where
  "pair_step A B row row2 j temps = do {
     e \<leftarrow> load A (\<lambda>m. row + j + m) 4;
     e2 \<leftarrow> load A (\<lambda>m. row2 + j + m) 4;
     each (steps 0 32 4) (\<lambda>k temps. do {
       temps \<leftarrow> each [0..<4] (\<lambda>p temps. do {
         bs \<leftarrow> load B (\<lambda>m. (j + m) * 32 + k + p) 4;
         add_at (k + p) (dot4 e bs) temps }) temps;
       each [0..<4] (\<lambda>p temps. do {
         bs \<leftarrow> load B (\<lambda>m. (j + m) * 32 + k + p) 4;
         add_at (32 + (k + p)) (dot4 e2 bs) temps }) temps }) temps }"

text \<open>The loop that moves the sums to \<open>C\<close> with \<open>upd\<close> and clears them.\<close>

definition pair_flush :: "(nat \<Rightarrow> s32 \<Rightarrow> s32 list \<Rightarrow> s32 list option) \<Rightarrow> nat \<Rightarrow> nat \<Rightarrow> s32 list \<times> s32 list \<Rightarrow> (s32 list \<times> s32 list) option" where
  "pair_flush upd row row2 = each [0..<32] (\<lambda>l (temps, C). do {
     t \<leftarrow> rd temps l;
     C \<leftarrow> upd (row + l) t C;
     t2 \<leftarrow> rd temps (32 + l);
     C \<leftarrow> upd (row2 + l) t2 C;
     temps \<leftarrow> wr temps l 0;
     temps \<leftarrow> wr temps (32 + l) 0;
     Some (temps, C) })"

definition sums_init :: "s32 list" where
  "sums_init = replicate 64 0"

fun pair_local :: "nat \<Rightarrow> nat \<times> nat \<times> nat \<Rightarrow> nat" where
  "pair_local ra (j, k, i) = (if j = ra then i else 32 + i)"

lemma pair_step_does:
  assumes "32 * 32 \<le> length A" "32 * 32 \<le> length B" "ra < 32" "rb < 32" "ra \<noteq> rb" "j + 4 \<le> 32"
  shows "does (pair_local ra) (trm 32 A B) 64 ({ra, rb} \<times> {j..<j + 4} \<times> {0..<32}) (pair_step A B (ra * 32) (rb * 32) j)"
proof -
  let ?h = "pair_local ra" and ?F = "trm 32 A B"
  let ?e = "\<lambda>r. map (\<lambda>m. A ! (r * 32 + j + m)) [0..<4]"
  have row: "does ?h ?F 64 ({r} \<times> {j..<j + 4} \<times> {k..<k + 4}) (each [0..<4] (\<lambda>p temps. do {
         bs \<leftarrow> load B (\<lambda>m. (j + m) * 32 + k + p) 4;
         add_at (o' + (k + p)) (dot4 (?e r) bs) temps }))"
    if "k + 4 \<le> 32" "r < 32" "o' = (if r = ra then 0 else 32)" for k r o'
  proof (rule does_cols[OF splits_unroll], rule does_load, goal_cases)
    case (1 p m) then show ?case using that assms(2,6) by simp
  next
    case (2 p)
    then show ?case using that(1,3) by (intro does_dot4) (auto simp: add.assoc simp del: upt_rec_numeral)
  qed
  have "{ra, rb} \<times> {j..<j + 4} \<times> {0..<32} = {ra, rb} \<times> {j..<j + 4} \<times> {0..<32 :: nat}" ..
  have "does ?h ?F 64 ({ra, rb} \<times> {j..<j + 4} \<times> {0..<32}) (each (steps 0 32 4) (\<lambda>k temps. do {
       temps \<leftarrow> each [0..<4] (\<lambda>p temps. do {
         bs \<leftarrow> load B (\<lambda>m. (j + m) * 32 + k + p) 4;
         add_at (0 + (k + p)) (dot4 (?e ra) bs) temps }) temps;
       each [0..<4] (\<lambda>p temps. do {
         bs \<leftarrow> load B (\<lambda>m. (j + m) * 32 + k + p) 4;
         add_at (32 + (k + p)) (dot4 (?e rb) bs) temps }) temps }))"
  proof (rule does_cols[OF splits_steps], goal_cases)
    case (4 k)
    then have k: "k + 4 \<le> 32" using steps_mem(2)[OF 4] by simp
    show ?case by (rule does_two[OF row[OF k assms(3)] row[OF k assms(4)]]) (use assms(5) in auto)
  qed simp_all
  moreover have "load A (\<lambda>m. r * 32 + j + m) 4 = Some (?e r)" if "r < 32" for r
    by (rule load_eq) (use that assms(1,6) in simp)
  ultimately show ?thesis using assms(3,4) unfolding pair_step_def by simp
qed

lemma pair_flush_eq:
  assumes "length temps = 64"
  shows "pair_flush upd row row2 (temps, C) = map_option (Pair sums_init)
    (each [0..<32] (\<lambda>l C. do { C \<leftarrow> upd (row + l) (temps ! l) C; upd (row2 + l) (temps ! (32 + l)) C }) C)"
proof -
  let ?t = "\<lambda>n. map (\<lambda>x. if x mod 32 < n then 0 else temps ! x) [0..<64]"
  have "each [0..<n] (\<lambda>l (temps, C). do {
       t \<leftarrow> rd temps l; C \<leftarrow> upd (row + l) t C; t2 \<leftarrow> rd temps (32 + l); C \<leftarrow> upd (row2 + l) t2 C;
       temps \<leftarrow> wr temps l 0; temps \<leftarrow> wr temps (32 + l) 0; Some (temps, C) }) (temps, C) =
    map_option (Pair (?t n)) (each [0..<n] (\<lambda>l C. do { C \<leftarrow> upd (row + l) (temps ! l) C; upd (row2 + l) (temps ! (32 + l)) C }) C)"
    if "n \<le> 32" for n
    using that
  proof (induction n)
    case 0
    have "temps = ?t 0" using assms by (intro nth_equalityI) simp_all
    then show ?case by simp
  next
    case (Suc n)
    have t: "(?t n)[n := 0, 32 + n := 0] = ?t (Suc n)"
    proof (rule nth_equalityI)
      fix x assume "x < length ((?t n)[n := 0, 32 + n := 0])"
      then have x: "x < 64" by simp
      then have "x mod 32 < Suc n \<longleftrightarrow> x mod 32 < n \<or> x = n \<or> x = 32 + n"
        using Suc.prems by (cases "x < 32") (auto simp: mod_if less_Suc_eq)
      then show "(?t n)[n := 0, 32 + n := 0] ! x = ?t (Suc n) ! x"
        using x Suc.prems by (auto simp: nth_list_update simp del: upt_rec_numeral)
    qed simp
    show ?case
    proof (cases "each [0..<n] (\<lambda>l C. do { C \<leftarrow> upd (row + l) (temps ! l) C; upd (row2 + l) (temps ! (32 + l)) C }) C")
      case None then show ?thesis using Suc by (simp add: each_snoc)
    next
      case (Some C1)
      have "?t n ! n = temps ! n" "?t n ! (32 + n) = temps ! (32 + n)" using Suc.prems by (simp_all del: upt_rec_numeral)
      then show ?thesis using Suc Some t
        by (cases "upd (row + n) (temps ! n) C1"; cases "upd (row2 + n) (temps ! (32 + n)) (the (upd (row + n) (temps ! n) C1))")
          (simp_all add: each_snoc del: upt_rec_numeral)
    qed
  qed
  from this[of 32] have "pair_flush upd row row2 (temps, C) = map_option (Pair (?t 32))
    (each [0..<32] (\<lambda>l C. do { C \<leftarrow> upd (row + l) (temps ! l) C; upd (row2 + l) (temps ! (32 + l)) C }) C)"
    unfolding pair_flush_def by simp
  moreover have "?t 32 = sums_init" unfolding sums_init_def by (intro nth_equalityI) (simp_all del: upt_rec_numeral)
  ultimately show ?thesis by simp
qed

lemma pair_sums:
  assumes "does (pair_local ra) F 64 ({ra, rb} \<times> K \<times> {0..<32}) body" "ra \<noteq> rb" "finite K"
  obtains ts where "body sums_init = Some ts" "length ts = 64"
    "\<And>l. l < 32 \<Longrightarrow> ts ! l = (\<Sum>t \<in> {ra} \<times> K \<times> {l}. F t)" "\<And>l. l < 32 \<Longrightarrow> ts ! (32 + l) = (\<Sum>t \<in> {rb} \<times> K \<times> {l}. F t)"
proof -
  have "length sums_init = 64" by (simp add: sums_init_def)
  from doesD[OF assms(1) this] obtain ts where ts: "body sums_init = Some ts" "length ts = 64"
    "\<And>x. x < 64 \<Longrightarrow> ts ! x = sums_init ! x + (\<Sum>t \<in> {t \<in> {ra, rb} \<times> K \<times> {0..<32}. pair_local ra t = x}. F t)" by blast
  have "{t \<in> {ra, rb} \<times> K \<times> {0..<32}. pair_local ra t = l} = {ra} \<times> K \<times> {l}"
    "{t \<in> {ra, rb} \<times> K \<times> {0..<32}. pair_local ra t = 32 + l} = {rb} \<times> K \<times> {l}" if "l < 32" for l
    using that assms(2) by (auto split: if_splits)
  then show ?thesis using that[OF ts(1,2)] ts(3) by (simp add: sums_init_def)
qed

section \<open>Adding the sums: \<open>cf\<close> and \<open>cm\<close>\<close>

definition cf_core0 :: "s32 list \<Rightarrow> s32 list \<Rightarrow> s32 list \<times> s32 list \<Rightarrow> (s32 list \<times> s32 list) option" where
  "cf_core0 A B = each (steps 0 32 2) (\<lambda>i (temps, C). do {
     temps \<leftarrow> each (steps 0 16 4) (pair_step A B (i * 32) ((i + 1) * 32)) temps;
     pair_flush add_at (i * 32) ((i + 1) * 32) (temps, C) })"

definition cf_core1 :: "s32 list \<Rightarrow> s32 list \<Rightarrow> s32 list \<times> s32 list \<Rightarrow> (s32 list \<times> s32 list) option" where
  "cf_core1 A B = each (steps 0 32 2) (\<lambda>i (temps, C). do {
     temps \<leftarrow> each (steps 16 32 4) (pair_step A B ((31 - i) * 32) ((31 - i - 1) * 32)) temps;
     pair_flush add_at ((31 - i) * 32) ((31 - i - 1) * 32) (temps, C) })"

definition cf_matmul :: matmul_fun where
  "cf_matmul coreid ncores lda A B C = (if coreid > 1 then Some C
     else map_option snd (two_cores (cf_core0 A B) (cf_core1 A B) coreid ncores (sums_init, C)))"

text \<open>In \<open>cm\<close> the sums are moved to \<open>C\<close> inside the loop over \<open>j\<close>, in its last pass.\<close>

definition cm_core0 :: "nat \<Rightarrow> s32 list \<Rightarrow> s32 list \<Rightarrow> s32 list \<times> s32 list \<Rightarrow> (s32 list \<times> s32 list) option" where
  "cm_core0 lda A B = each (steps 0 lda 2) (\<lambda>i. each (steps 0 16 4) (\<lambda>j (temps, C). do {
     temps \<leftarrow> pair_step A B (i * lda) ((i + 1) * lda) j temps;
     if j = 12 then pair_flush add_at (i * lda) ((i + 1) * lda) (temps, C) else Some (temps, C) }))"

definition cm_core1 :: "nat \<Rightarrow> s32 list \<Rightarrow> s32 list \<Rightarrow> s32 list \<times> s32 list \<Rightarrow> (s32 list \<times> s32 list) option" where
  "cm_core1 lda A B = each (steps 0 32 2) (\<lambda>i. each (steps 16 32 4) (\<lambda>j (temps, C). do {
     temps \<leftarrow> pair_step A B ((31 - i) * lda) ((31 - i - 1) * lda) j temps;
     if j = 28 then pair_flush add_at ((31 - i) * lda) ((31 - i - 1) * lda) (temps, C) else Some (temps, C) }))"

definition cm_matmul :: matmul_fun where
  "cm_matmul coreid ncores lda A B C =
     map_option snd (two_cores (cm_core0 lda A B) (cm_core1 lda A B) coreid ncores (sums_init, C))"

lemma pair_adds:
  assumes "does (pair_local ra) (trm 32 A B) 64 ({ra, rb} \<times> K \<times> {0..<32}) body" "ra \<noteq> rb" "finite K"
    and "ra < 32" "rb < 32" "32 * 32 \<le> L"
  shows "keeps sums_init L (\<lambda>(temps, C). do { temps \<leftarrow> body temps; pair_flush add_at (ra * 32) (rb * 32) (temps, C) }) \<and>
    adds 32 A B L ({ra, rb} \<times> K \<times> {0..<32})
      (on_snd sums_init (\<lambda>(temps, C). do { temps \<leftarrow> body temps; pair_flush add_at (ra * 32) (rb * 32) (temps, C) }))"
proof -
  obtain ts where ts: "body sums_init = Some ts" "length ts = 64"
    "\<And>l. l < 32 \<Longrightarrow> ts ! l = (\<Sum>t \<in> {ra} \<times> K \<times> {l}. trm 32 A B t)"
    "\<And>l. l < 32 \<Longrightarrow> ts ! (32 + l) = (\<Sum>t \<in> {rb} \<times> K \<times> {l}. trm 32 A B t)"
    using pair_sums[OF assms(1-3)] by metis
  show ?thesis
  proof (rule does_keeps)
    show "(\<lambda>(temps, C). do { temps \<leftarrow> body temps; pair_flush add_at (ra * 32) (rb * 32) (temps, C) }) (sums_init, X) =
      map_option (Pair sums_init) (each [0..<32] (\<lambda>l C. do { C \<leftarrow> add_at (ra * 32 + l) (ts ! l) C; add_at (rb * 32 + l) (ts ! (32 + l)) C }) X)" for X
      by (simp add: ts(1) pair_flush_eq[OF ts(2)] del: upt_rec_numeral)
    show "adds 32 A B L ({ra, rb} \<times> K \<times> {0..<32})
        (each [0..<32] (\<lambda>l C. do { C \<leftarrow> add_at (ra * 32 + l) (ts ! l) C; add_at (rb * 32 + l) (ts ! (32 + l)) C }))"
    proof (rule does_cols[OF splits_upt])
      fix l assume "l \<in> set [0..<32 :: nat]"
      then have l: "l < 32" by simp
      have one: "adds 32 A B L ({r} \<times> K \<times> {l}) (add_at (r * 32 + l) v)" if "r < 32" "v = (\<Sum>t \<in> {r} \<times> K \<times> {l}. trm 32 A B t)" for r v
        by (rule does_sum) (use that l assms(3,6) in auto)
      show "adds 32 A B L ({ra, rb} \<times> K \<times> {l}) (\<lambda>C. do { C \<leftarrow> add_at (ra * 32 + l) (ts ! l) C; add_at (rb * 32 + l) (ts ! (32 + l)) C })"
        by (rule does_two[OF one[OF assms(4) ts(3)[OF l]] one[OF assms(5) ts(4)[OF l]]]) (use assms(2) in auto)
    qed
  qed
qed

lemma pair_steps_does:
  assumes "32 * 32 \<le> length A" "32 * 32 \<le> length B" "ra < 32" "rb < 32" "ra \<noteq> rb" "lo \<le> hi" "hi \<le> 32" "4 dvd hi - lo"
  shows "does (pair_local ra) (trm 32 A B) 64 ({ra, rb} \<times> {lo..<hi} \<times> {0..<32}) (each (steps lo hi 4) (pair_step A B (ra * 32) (rb * 32)))"
proof (rule does_sums[OF splits_steps[OF assms(6,8)]], simp)
  fix j assume "j \<in> set (steps lo hi 4)"
  then have "j + 4 \<le> 32" using steps_mem(2)[OF _ assms(8)] assms(7) by fastforce
  then show "does (pair_local ra) (trm 32 A B) 64 ({ra, rb} \<times> {j..<j + 4} \<times> {0..<32}) (pair_step A B (ra * 32) (rb * 32) j)"
    by (rule pair_step_does[OF assms(1-5)])
qed

text \<open>A core: all pairs of rows, for the part \<open>K\<close> of the sums.\<close>

lemma pair_rows:
  assumes "\<And>i. i \<in> set is \<Longrightarrow> keeps Z L (body i) \<and> does g F L (R i \<times> T) (on_snd Z (body i))"
    and "splits is R U"
  obtains b where "does g F L (U \<times> T) b" "\<And>X. length X = L \<Longrightarrow> each is body (Z, X) = map_option (Pair Z) (b X)"
proof
  show "does g F L (U \<times> T) (each is (\<lambda>i. on_snd Z (body i)))"
    by (rule does_each[OF splits_times(1)[OF assms(2)]]) (use assms(1) in blast)
  show "each is body (Z, X) = map_option (Pair Z) (each is (\<lambda>i. on_snd Z (body i)) X)" if "length X = L" for X
    using each_keeps[of "is" Z L body X] assms(1) that by blast
qed

lemma splits_pairs: "splits (steps 0 32 2) (\<lambda>i. {i, i + 1}) {0..<32}" "splits (steps 0 32 2) (\<lambda>i. {31 - i, 31 - i - 1}) {0..<32 :: nat}"
proof -
  have s: "splits (steps 0 32 2) (\<lambda>i. {i..<i + 2}) {0..<32}" by (rule splits_steps) simp_all
  moreover have "{i..<i + 2} = {i, i + 1}" for i :: nat by auto
  ultimately show "splits (steps 0 32 2) (\<lambda>i. {i, i + 1}) {0..<32}" by simp
  have e: "steps 0 32 2 = [0, 2, 4, 6, 8, 10, 12, 14, 16, 18, 20, 22, 24, 26, 28, 30]" by (simp add: steps_def upt_rec)
  show "splits (steps 0 32 2) (\<lambda>i. {31 - i, 31 - i - 1}) {0..<32 :: nat}"
    unfolding splits_def e by (intro conjI) (simp, simp, auto, presburger)
qed

lemma cf_cores:
  assumes "32 * 32 \<le> length A" "32 * 32 \<le> length B" "32 * 32 \<le> L"
  shows "\<exists>b. adds 32 A B L ({0..<32} \<times> {0..<16} \<times> {0..<32}) b \<and> (\<forall>X. length X = L \<longrightarrow> cf_core0 A B (sums_init, X) = map_option (Pair sums_init) (b X))"
    "\<exists>b. adds 32 A B L ({0..<32} \<times> {16..<32} \<times> {0..<32}) b \<and> (\<forall>X. length X = L \<longrightarrow> cf_core1 A B (sums_init, X) = map_option (Pair sums_init) (b X))"
proof -
  have i: "i + 2 \<le> 32" if "i \<in> set (steps 0 32 2)" for i using steps_mem(2)[OF that] by simp
  have k: "keeps sums_init L (\<lambda>(temps, C). do {
        temps \<leftarrow> each (steps lo hi 4) (pair_step A B (ra * 32) (rb * 32)) temps;
        pair_flush add_at (ra * 32) (rb * 32) (temps, C) }) \<and>
      adds 32 A B L ({ra, rb} \<times> {lo..<hi} \<times> {0..<32}) (on_snd sums_init (\<lambda>(temps, C). do {
        temps \<leftarrow> each (steps lo hi 4) (pair_step A B (ra * 32) (rb * 32)) temps;
        pair_flush add_at (ra * 32) (rb * 32) (temps, C) }))"
    if "ra < 32" "rb < 32" "ra \<noteq> rb" "lo \<le> hi" "hi \<le> 32" "4 dvd hi - lo" for ra rb lo hi
    by (rule pair_adds[OF pair_steps_does[OF assms(1,2) that]]) (use that assms(3) in simp_all)
  have "keeps sums_init L (\<lambda>(temps, C). do {
        temps \<leftarrow> each (steps 0 16 4) (pair_step A B (i * 32) ((i + 1) * 32)) temps;
        pair_flush add_at (i * 32) ((i + 1) * 32) (temps, C) }) \<and>
      adds 32 A B L ({i, i + 1} \<times> {0..<16} \<times> {0..<32}) (on_snd sums_init (\<lambda>(temps, C). do {
        temps \<leftarrow> each (steps 0 16 4) (pair_step A B (i * 32) ((i + 1) * 32)) temps;
        pair_flush add_at (i * 32) ((i + 1) * 32) (temps, C) }))" if "i \<in> set (steps 0 32 2)" for i
    by (rule k) (use i[OF that] in simp_all)
  from pair_rows[OF this splits_pairs(1)] show "\<exists>b. adds 32 A B L ({0..<32} \<times> {0..<16} \<times> {0..<32}) b \<and>
      (\<forall>X. length X = L \<longrightarrow> cf_core0 A B (sums_init, X) = map_option (Pair sums_init) (b X))"
    unfolding cf_core0_def by blast
  have "keeps sums_init L (\<lambda>(temps, C). do {
        temps \<leftarrow> each (steps 16 32 4) (pair_step A B ((31 - i) * 32) ((31 - i - 1) * 32)) temps;
        pair_flush add_at ((31 - i) * 32) ((31 - i - 1) * 32) (temps, C) }) \<and>
      adds 32 A B L ({31 - i, 31 - i - 1} \<times> {16..<32} \<times> {0..<32}) (on_snd sums_init (\<lambda>(temps, C). do {
        temps \<leftarrow> each (steps 16 32 4) (pair_step A B ((31 - i) * 32) ((31 - i - 1) * 32)) temps;
        pair_flush add_at ((31 - i) * 32) ((31 - i - 1) * 32) (temps, C) }))" if "i \<in> set (steps 0 32 2)" for i
    by (rule k) (use i[OF that] in simp_all)
  from pair_rows[OF this splits_pairs(2)] show "\<exists>b. adds 32 A B L ({0..<32} \<times> {16..<32} \<times> {0..<32}) b \<and>
      (\<forall>X. length X = L \<longrightarrow> cf_core1 A B (sums_init, X) = map_option (Pair sums_init) (b X))"
    unfolding cf_core1_def by blast
qed

text \<open>The loops of \<open>cm\<close> are those of \<open>cf\<close>.\<close>

lemma cm_core_eq: "cm_core0 32 A B = cf_core0 A B" "cm_core1 32 A B = cf_core1 A B"
proof -
  have s: "steps 0 16 4 = [0, 4, 8, 12]" "steps 16 32 4 = [16, 20, 24, 28]" by (simp_all add: steps_def upt_rec)
  show "cm_core0 32 A B = cf_core0 A B" "cm_core1 32 A B = cf_core1 A B"
    unfolding cm_core0_def cf_core0_def cm_core1_def cf_core1_def s
    by (intro arg_cong[where f = "each _"] ext; clarsimp simp: split: prod.splits Option.bind_split)+
qed

text \<open>Both cores, in either order.\<close>

lemma cf_all:
  assumes "32 * 32 \<le> length A" "32 * 32 \<le> length B" "32 * 32 \<le> L"
    and "distinct ids" "set ids = {0..<ncores}" "0 < ncores" "matmul \<in> {cf_matmul, cm_matmul}"
  shows "adds 32 A B L ({0..<32} \<times> {0..<32} \<times> {0..<32}) (each ids (\<lambda>q. matmul q ncores 32 A B))"
proof -
  obtain b0 where b0: "adds 32 A B L ({0..<32} \<times> {0..<16} \<times> {0..<32}) b0"
    "\<And>X. length X = L \<Longrightarrow> cf_core0 A B (sums_init, X) = map_option (Pair sums_init) (b0 X)"
    using cf_cores(1)[OF assms(1-3)] by blast
  obtain b1 where b1: "adds 32 A B L ({0..<32} \<times> {16..<32} \<times> {0..<32}) b1"
    "\<And>X. length X = L \<Longrightarrow> cf_core1 A B (sums_init, X) = map_option (Pair sums_init) (b1 X)"
    using cf_cores(2)[OF assms(1-3)] by blast
  have m: "matmul q ncores 32 A B X = map_option snd (two_cores (cf_core0 A B) (cf_core1 A B) q ncores (sums_init, X))"
    if "q < ncores" for q X
    using assms(7) that by (auto simp: cf_matmul_def cm_matmul_def cm_core_eq two_cores_def)
  have "adds 32 A B L ({0..<32} \<times> {0..<16} \<times> {0..<32} \<union> {0..<32} \<times> {16..<32} \<times> {0..<32}) (each ids (\<lambda>q. matmul q ncores 32 A B))"
  proof (rule cores_does[OF _ _ _ _ _ assms(4-6)], goal_cases)
    case 1
    have "matmul 0 ncores 32 A B X = Option.bind (b0 X) b1" if X: "length X = L" for X
    proof -
      obtain X1 where "b0 X = Some X1" "length X1 = L" using doesD[OF b0(1) X] by blast
      then show ?thesis using 1 m[of 0 X] b0(2)[OF X] b1(2)[of X1]
        by (simp add: two_cores_parts(1)[simplified] option.map_comp comp_def option.map_ident)
    qed
    then show ?case by (intro does_cong[OF does_bind[OF b0(1) b1(1)]]) auto
  next
    case 2
    have "matmul 0 ncores 32 A B X = b0 X" if "length X = L" for X
      using 2 assms(6) m[of 0 X] b0(2)[OF that] by (simp add: two_cores_parts option.map_comp comp_def option.map_ident)
    then show ?case by (rule does_cong[OF b0(1) _ refl])
  next
    case 3
    have "matmul 1 ncores 32 A B X = b1 X" if "length X = L" for X
      using 3 assms(6) m[of 1 X] b1(2)[OF that] two_cores_parts(3)[of ncores "cf_core0 A B" "cf_core1 A B"] by (simp add: option.map_comp comp_def option.map_ident)
    then show ?case by (rule does_cong[OF b1(1) _ refl])
  next
    case (4 q) then show ?case using m[of q] by (simp add: fun_eq_iff two_cores_parts)
  next
    case 5 show ?case by auto
  qed
  moreover have "{0..<32} \<times> {0..<16} \<times> {0..<32} \<union> {0..<32} \<times> {16..<32} \<times> {0..<32} = {0..<32 :: nat} \<times> {0..<32 :: nat} \<times> {0..<32 :: nat}" by auto
  ultimately show ?thesis by simp
qed

section \<open>Storing the sums: \<open>am\<close>, \<open>du\<close> and \<open>af\<close>\<close>

text \<open>\<open>C[row+k]=temp_mat[k]; C[row2+k]=temp_mat2[k];\<close> and both sums are cleared.\<close>

definition pair_store :: "nat \<Rightarrow> nat \<Rightarrow> s32 list \<times> s32 list \<Rightarrow> (s32 list \<times> s32 list) option" where
  "pair_store = pair_flush (\<lambda>x t C. wr C x t)"

definition am_matmul :: matmul_fun where
  "am_matmul coreid ncores lda A B C = map_option snd (
     each (steps (coreid * 32 div ncores) (32 * (1 + coreid) div ncores) 2) (\<lambda>l (temps, C). do {
       temps \<leftarrow> each (steps 0 lda 4) (pair_step A B (l * 32) ((l + 1) * 32)) temps;
       pair_store (l * 32) ((l + 1) * 32) (temps, C) }) (sums_init, C))"

text \<open>\<open>du_matmul.c\<close> has the same code.\<close>

definition du_matmul :: matmul_fun where
  "du_matmul coreid ncores lda A B C = map_option snd (
     each (steps (coreid * 32 div ncores) (32 * (1 + coreid) div ncores) 2) (\<lambda>l (temps, C). do {
       temps \<leftarrow> each (steps 0 lda 4) (pair_step A B (l * 32) ((l + 1) * 32)) temps;
       pair_store (l * 32) ((l + 1) * 32) (temps, C) }) (sums_init, C))"

text \<open>
  In \<open>af\<close> the elements \<open>B1\<close> to \<open>B4\<close> (here \<open>bs\<close>) of column \<open>j\<close> are read one pass ahead, in the last
  pass those of column \<open>j + 4\<close>.
\<close>

definition af_step :: "nat \<Rightarrow> s32 list \<Rightarrow> s32 list \<Rightarrow> nat \<Rightarrow> nat \<Rightarrow> nat \<Rightarrow> s32 list \<Rightarrow> s32 list option" where
  "af_step lda A B row row2 i temps = do {
     e \<leftarrow> load A (\<lambda>m. row + i + m) 4;
     e2 \<leftarrow> load A (\<lambda>m. row2 + i + m) 4;
     bs \<leftarrow> load B (\<lambda>m. (i + m) * lda) 4;
     (bs, temps) \<leftarrow> each (steps 0 lda 4) (\<lambda>j (bs, temps). do {
       temps \<leftarrow> add_at j (dot4 e bs) temps;
       temps \<leftarrow> each [1..<4] (\<lambda>p temps. do {
         b \<leftarrow> load B (\<lambda>m. (i + m) * lda + j + p) 4;
         add_at (j + p) (dot4 e b) temps }) temps;
       temps \<leftarrow> add_at (32 + j) (dot4 e2 bs) temps;
       temps \<leftarrow> each [1..<4] (\<lambda>p temps. do {
         b \<leftarrow> load B (\<lambda>m. (i + m) * lda + j + p) 4;
         add_at (32 + (j + p)) (dot4 e2 b) temps }) temps;
       bs \<leftarrow> load B (\<lambda>m. (i + m) * lda + j + 4) 4;
       Some (bs, temps) }) (bs, temps);
     Some temps }"

definition af_matmul :: matmul_fun where
  "af_matmul coreid ncores lda A B C = map_option snd (
     each (steps (coreid * lda div ncores) (lda * (1 + coreid) div ncores) 2) (\<lambda>l (temps, C). do {
       temps \<leftarrow> each (steps 0 lda 4) (af_step lda A B (l * 32) ((l + 1) * 32)) temps;
       pair_store (l * 32) ((l + 1) * 32) (temps, C) }) (sums_init, C))"

text \<open>A value kept one pass ahead.\<close>

lemma each_ahead:
  assumes "\<And>q s. q < n \<Longrightarrow> f (x q) (b q, s) = map_option (Pair (b (Suc q))) (g (x q) s)"
  shows "each (map x [0..<n]) f (b 0, s) = map_option (Pair (b n)) (each (map x [0..<n]) g s)"
  using assms
proof (induction n)
  case 0 then show ?case by simp
next
  case (Suc n)
  have "each (map x [0..<n]) f (b 0, s) = map_option (Pair (b n)) (each (map x [0..<n]) g s)"
    by (rule Suc.IH) (use Suc.prems in simp)
  then show ?case using Suc.prems[of n]
    by (cases "each (map x [0..<n]) g s") (simp_all add: each_snoc)
qed

lemma af_step_eq:
  assumes "32 * 32 < length B" "i + 4 \<le> 32"
  shows "af_step 32 A B row row2 i temps = pair_step A B row row2 i temps"
proof -
  let ?bs = "\<lambda>j. map (\<lambda>m. B ! ((i + m) * 32 + j)) [0..<4]"
  have l: "load B (\<lambda>m. (i + m) * 32 + j) 4 = Some (?bs j)" if "j \<le> 32" for j
    by (rule load_eq) (use that assms in simp)
  have u: "[0..<4] = 0 # [1..<4 :: nat]" by (simp add: upt_rec)
  have inner: "each (map (\<lambda>q. q * 4) [0..<8]) (\<lambda>j (bs, temps). do {
       temps \<leftarrow> add_at j (dot4 e bs) temps;
       temps \<leftarrow> each [1..<4] (\<lambda>p temps. do { b \<leftarrow> load B (\<lambda>m. (i + m) * 32 + j + p) 4; add_at (j + p) (dot4 e b) temps }) temps;
       temps \<leftarrow> add_at (32 + j) (dot4 e2 bs) temps;
       temps \<leftarrow> each [1..<4] (\<lambda>p temps. do { b \<leftarrow> load B (\<lambda>m. (i + m) * 32 + j + p) 4; add_at (32 + (j + p)) (dot4 e2 b) temps }) temps;
       bs \<leftarrow> load B (\<lambda>m. (i + m) * 32 + j + 4) 4;
       Some (bs, temps) }) (?bs (0 * 4), s) =
    map_option (Pair (?bs (8 * 4))) (each (map (\<lambda>q. q * 4) [0..<8]) (\<lambda>k temps. do {
       temps \<leftarrow> each [0..<4] (\<lambda>p temps. do { bs \<leftarrow> load B (\<lambda>m. (i + m) * 32 + k + p) 4; add_at (k + p) (dot4 e bs) temps }) temps;
       each [0..<4] (\<lambda>p temps. do { bs \<leftarrow> load B (\<lambda>m. (i + m) * 32 + k + p) 4; add_at (32 + (k + p)) (dot4 e2 bs) temps }) temps }) s)"
    for e e2 s
  proof (rule each_ahead[where b = "\<lambda>q. ?bs (q * 4)"])
    fix q s assume q: "q < (8 :: nat)"
    have z: "load B (\<lambda>m. (i + m) * 32 + q * 4 + 0) 4 = Some (?bs (q * 4))"
      "load B (\<lambda>m. (i + m) * 32 + q * 4 + 4) 4 = Some (?bs (Suc q * 4))"
      using l[of "q * 4"] l[of "Suc q * 4"] q by (simp_all add: ac_simps)
    have first: "each [0..<4] (\<lambda>p temps. do { bs \<leftarrow> load B (\<lambda>m. (i + m) * 32 + q * 4 + p) 4; add_at (h (q * 4 + p)) (dot4 e bs) temps }) s =
        do { s \<leftarrow> add_at (h (q * 4)) (dot4 e (?bs (q * 4))) s;
          each [1..<4] (\<lambda>p temps. do { bs \<leftarrow> load B (\<lambda>m. (i + m) * 32 + q * 4 + p) 4; add_at (h (q * 4 + p)) (dot4 e bs) temps }) s }" for h e s
      unfolding u each.simps z by (simp only: Option.bind.simps add_0_right)
    show "(case (?bs (q * 4), s) of (bs, temps) \<Rightarrow> do {
       temps \<leftarrow> add_at (q * 4) (dot4 e bs) temps;
       temps \<leftarrow> each [1..<4] (\<lambda>p temps. do { b \<leftarrow> load B (\<lambda>m. (i + m) * 32 + q * 4 + p) 4; add_at (q * 4 + p) (dot4 e b) temps }) temps;
       temps \<leftarrow> add_at (32 + q * 4) (dot4 e2 bs) temps;
       temps \<leftarrow> each [1..<4] (\<lambda>p temps. do { b \<leftarrow> load B (\<lambda>m. (i + m) * 32 + q * 4 + p) 4; add_at (32 + (q * 4 + p)) (dot4 e2 b) temps }) temps;
       bs \<leftarrow> load B (\<lambda>m. (i + m) * 32 + q * 4 + 4) 4;
       Some (bs, temps) }) = map_option (Pair (?bs (Suc q * 4))) (do {
       temps \<leftarrow> each [0..<4] (\<lambda>p temps. do { bs \<leftarrow> load B (\<lambda>m. (i + m) * 32 + q * 4 + p) 4; add_at (q * 4 + p) (dot4 e bs) temps }) s;
       each [0..<4] (\<lambda>p temps. do { bs \<leftarrow> load B (\<lambda>m. (i + m) * 32 + q * 4 + p) 4; add_at (32 + (q * 4 + p)) (dot4 e2 bs) temps }) temps })"
      unfolding first[where h = "\<lambda>x. x"] first[where h = "\<lambda>x. 32 + x"] z prod.case Option.bind_assoc map_option_bind Option.bind.simps
      by (simp only: map_conv_bind_option Option.bind_assoc Option.bind.simps comp_def)
  qed
  have s: "steps 0 32 4 = map (\<lambda>q. q * 4) [0..<8]" by (simp add: steps_def)
  have "load B (\<lambda>m. (i + m) * 32) 4 = Some (?bs (0 * 4))" using l[of 0] by simp
  then show ?thesis
    unfolding af_step_def pair_step_def s by (simp only: Option.bind.simps inner) (simp only: map_conv_bind_option Option.bind_assoc Option.bind.simps prod.case Option.bind_runit comp_def)
qed

lemma pair_puts:
  assumes "does (pair_local ra) (trm 32 A B) 64 ({ra, rb} \<times> {0..<32} \<times> {0..<32}) body" "ra \<noteq> rb" "ra < 32" "rb < 32" "32 * 32 \<le> L"
  shows "keeps sums_init L (\<lambda>(temps, C). do { temps \<leftarrow> body temps; pair_store (ra * 32) (rb * 32) (temps, C) }) \<and>
    fills 32 A B L {ra, rb} {0..<32} (on_snd sums_init (\<lambda>(temps, C). do { temps \<leftarrow> body temps; pair_store (ra * 32) (rb * 32) (temps, C) }))"
proof -
  obtain ts where ts: "body sums_init = Some ts" "length ts = 64"
    "\<And>l. l < 32 \<Longrightarrow> ts ! l = (\<Sum>t \<in> {ra} \<times> {0..<32} \<times> {l}. trm 32 A B t)"
    "\<And>l. l < 32 \<Longrightarrow> ts ! (32 + l) = (\<Sum>t \<in> {rb} \<times> {0..<32} \<times> {l}. trm 32 A B t)"
    using pair_sums[OF assms(1,2)] by (metis finite_atLeastLessThan)
  have s: "(\<Sum>t \<in> {r} \<times> {0..<32} \<times> {l}. trm 32 A B t) = product 32 A B r l" for r l
    using sum_cell[where J = "{r}" and I = "{l}" and h = "\<lambda>_. 0 :: nat" and p = 0 and ?j0.0 = r and ?i0.0 = l and n = 32, of A B] by simp
  show ?thesis
  proof (rule puts_keeps)
    show "(\<lambda>(temps, C). do { temps \<leftarrow> body temps; pair_store (ra * 32) (rb * 32) (temps, C) }) (sums_init, X) =
      map_option (Pair sums_init) (each [0..<32] (\<lambda>l C. do { C \<leftarrow> wr C (ra * 32 + l) (ts ! l); wr C (rb * 32 + l) (ts ! (32 + l)) }) X)" for X
      by (simp add: ts(1) pair_store_def pair_flush_eq[OF ts(2)] del: upt_rec_numeral)
    show "fills 32 A B L {ra, rb} {0..<32} (each [0..<32] (\<lambda>l C. do { C \<leftarrow> wr C (ra * 32 + l) (ts ! l); wr C (rb * 32 + l) (ts ! (32 + l)) }))"
    proof (rule puts_cols[OF splits_upt])
      fix l assume "l \<in> set [0..<32 :: nat]"
      then have l: "l < 32" by simp
      have "puts (entry 32 A B) L (cells 32 {ra} {l} \<union> cells 32 {rb} {l})
          (\<lambda>C. do { C \<leftarrow> wr C (ra * 32 + l) (ts ! l); wr C (rb * 32 + l) (ts ! (32 + l)) })"
        by (intro puts_bind puts_cell) (use l ts(3,4) s assms(3-5) entry_cell[OF l] in \<open>simp_all add: add.commute\<close>)
      moreover have "cells 32 {ra} {l} \<union> cells 32 {rb} {l} = cells 32 {ra, rb} {l}" by (auto simp: cells_def)
      ultimately show "fills 32 A B L {ra, rb} {l} (\<lambda>C. do { C \<leftarrow> wr C (ra * 32 + l) (ts ! l); wr C (rb * 32 + l) (ts ! (32 + l)) })"
        by simp
    qed
  qed
qed

lemma pair_rows_puts:
  assumes "\<And>i. i \<in> set is \<Longrightarrow> keeps Z L (body i) \<and> puts V L (cells n (R i) I) (on_snd Z (body i))"
    and "splits is R U"
  shows "puts V L (cells n U I) (\<lambda>C. map_option snd (each is body (Z, C)))"
proof (rule puts_cong[OF puts_rows[OF assms(2)]])
  show "puts V L (cells n (R i) I) (on_snd Z (body i))" if "i \<in> set is" for i using assms(1)[OF that] by blast
  show "map_option snd (each is body (Z, X)) = each is (\<lambda>i. on_snd Z (body i)) X" if "length X = L" for X
    using each_keeps[of "is" Z L body X] assms(1) that by (simp add: option.map_comp comp_def option.map_ident)
qed simp

text \<open>\<open>am\<close>, \<open>du\<close> and \<open>af\<close> fill the rows of the core when the share is even.\<close>

lemma am_fills:
  assumes "32 * 32 \<le> length A" "32 * 32 \<le> length B" "32 * 32 \<le> L"
    and "lo = q * 32 div ncores" "hi = 32 * (1 + q) div ncores" "lo \<le> hi" "hi \<le> 32" "2 dvd hi - lo"
  shows "fills 32 A B L {lo..<hi} {0..<32} (am_matmul q ncores 32 A B)"
proof -
  have "fills 32 A B L {lo..<hi} {0..<32} (\<lambda>C. map_option snd (
     each (steps lo hi 2) (\<lambda>l (temps, C). do {
       temps \<leftarrow> each (steps 0 32 4) (pair_step A B (l * 32) ((l + 1) * 32)) temps;
       pair_store (l * 32) ((l + 1) * 32) (temps, C) }) (sums_init, C)))"
  proof (rule pair_rows_puts[OF _ splits_steps[OF assms(6,8)]])
    fix l assume "l \<in> set (steps lo hi 2)"
    then have l: "l + 1 < 32" using steps_mem(2)[OF _ assms(8)] assms(7) by fastforce
    have r: "{l..<l + 2} = {l, l + 1}" by auto
    show "keeps sums_init L (\<lambda>(temps, C). do {
       temps \<leftarrow> each (steps 0 32 4) (pair_step A B (l * 32) ((l + 1) * 32)) temps;
       pair_store (l * 32) ((l + 1) * 32) (temps, C) }) \<and>
      fills 32 A B L {l..<l + 2} {0..<32} (on_snd sums_init (\<lambda>(temps, C). do {
       temps \<leftarrow> each (steps 0 32 4) (pair_step A B (l * 32) ((l + 1) * 32)) temps;
       pair_store (l * 32) ((l + 1) * 32) (temps, C) }))"
      unfolding r by (rule pair_puts[OF pair_steps_does[OF assms(1,2)]]) (use l assms(3) in simp_all)
  qed simp
  then show ?thesis by (simp add: am_matmul_def[abs_def] assms(4,5))
qed

lemma du_eq: "du_matmul = am_matmul"
  by (simp add: fun_eq_iff du_matmul_def am_matmul_def)

text \<open>With one element behind the end of \<open>B\<close>, \<open>af\<close> does the same; without it, it reads outside \<open>B\<close>.\<close>

lemma af_eq:
  assumes "32 * 32 < length B"
  shows "af_matmul q ncores 32 A B = am_matmul q ncores 32 A B"
proof -
  have "each (steps 0 32 4) (af_step 32 A B row row2) temps = each (steps 0 32 4) (pair_step A B row row2) temps" for row row2 temps
    by (rule each_cong, rule af_step_eq[OF assms]) (use steps_mem(2)[of _ 0 32 4] in simp)
  then show ?thesis by (simp add: fun_eq_iff af_matmul_def am_matmul_def)
qed

lemma each_last_None: "(\<And>s. body x s = None) \<Longrightarrow> each (xs @ [x]) body s = None"
  by (induction xs arbitrary: s) (auto split: Option.bind_split)

lemma af_overruns:
  assumes "length B = 32 * 32" "q * 32 div ncores < 32 * (1 + q) div ncores"
  shows "af_matmul q ncores 32 A B C = None"
proof -
  have s: "steps 0 32 4 = [0, 4, 8, 12, 16, 20, 24] @ [28]" by (simp add: steps_def upt_rec)
  have load: "load B (\<lambda>m. (28 + m) * 32 + 28 + 4) 4 = None"
    by (simp add: load_def upt_rec rd_def assms(1))
  have inner: "af_step 32 A B row row2 28 temps = None" for row row2 temps
    unfolding af_step_def s by (subst each_last_None) (auto simp: load load[simplified] split: Option.bind_split)
  have rows: "each (steps 0 32 4) (af_step 32 A B row row2) temps = None" for row row2 temps
    unfolding s by (rule each_last_None) (rule inner)
  obtain x xs where "steps (q * 32 div ncores) (32 * (1 + q) div ncores) 2 = x # xs"
    using assms(2) by (cases "steps (q * 32 div ncores) (32 * (1 + q) div ncores) 2") (auto simp: steps_def)
  then show ?thesis unfolding af_matmul_def by (simp add: rows)
qed

end
