(* ===== verification/Mt_Overwrite.thy ===== *)
theory Mt_Overwrite
  imports Mt_Rowpairs
begin

text \<open>
  The multiplications of \<open>mt/\<close> that sum in locals from zero and store the result, so that the former
  contents of \<open>C\<close> do not matter.
\<close>

section \<open>\<open>ai\<close> and \<open>ci\<close>: four columns\<close>

text \<open>The locals \<open>Cval0\<close> to \<open>Cval3\<close>; \<open>ks\<close> are the values of \<open>k\<close> in turn.\<close>

definition ai_quad :: "nat \<Rightarrow> s32 list \<Rightarrow> s32 list \<Rightarrow> nat list \<Rightarrow> nat \<Rightarrow> nat \<Rightarrow> s32 list \<Rightarrow> s32 list option" where
  "ai_quad lda A B ks j i C = do {
     Cval \<leftarrow> each ks (\<lambda>k. each [0..<4] (\<lambda>p. mac A B (j * lda + k) (k * lda + i + p) p)) (replicate 4 0);
     store Cval (\<lambda>p. j * lda + i + p) 4 C }"

definition ai_matmul :: matmul_fun where
  "ai_matmul coreid ncores lda A B =
     each [coreid * lda div ncores..<coreid * lda div ncores + lda div ncores] (\<lambda>j.
       each (steps 0 lda 4) (ai_quad lda A B [0..<lda] j))"

definition ci_matmul :: matmul_fun where
  "ci_matmul coreid ncores lda A B =
     each [coreid * lda div ncores..<coreid * lda div ncores + lda div ncores] (\<lambda>j.
       each (steps 0 lda 4) (\<lambda>i.
         if coreid = 0 then ai_quad lda A B [0..<lda] j i else ai_quad lda A B (downs 0 lda 1) j i))"

lemma ai_quad_fills:
  assumes "lda * lda \<le> length A" "lda * lda \<le> length B" "lda * lda \<le> L" "j < lda" "i + 4 \<le> lda" "splits ks (\<lambda>k. {k}) {0..<lda}"
  shows "fills lda A B L {j} {i..<i + 4} (ai_quad lda A B ks j i)"
proof -
  have "does (blk j i 4) (trm lda A B) 4 ({j..<j + 1} \<times> {0..<lda} \<times> {i..<i + 4})
      (each ks (\<lambda>k. each [0..<4] (\<lambda>p. mac A B (j * lda + k) (k * lda + i + p) p)))"
  proof (rule does_sums[OF assms(6)], rule does_cols[OF splits_unroll])
    fix k p assume "k \<in> set ks" "p \<in> set [0..<4 :: nat]"
    then have kp: "k < lda" "p < 4" using assms(6) unfolding splits_def by auto
    have r: "{j..<j + 1} = {j}" by auto
    show "does (blk j i 4) (trm lda A B) 4 ({j..<j + 1} \<times> {k} \<times> {i + p}) (mac A B (j * lda + k) (k * lda + i + p) p)"
      unfolding r by (rule does_mac)
        (use kp assms row_less[OF assms(4) kp(1)] row_less[OF kp(1), of "i + p" "length B"] in \<open>simp_all add: add.assoc\<close>)
  qed
  from fills_block[OF this, where f = "\<lambda>p. j * lda + i + p" and L = L] show ?thesis
    using assms(3-5) unfolding ai_quad_def by (simp add: block_at_def)
qed

lemma ai_fills:
  assumes "lda * lda \<le> length A" "lda * lda \<le> length B" "lda * lda \<le> L" "ncores dvd lda" "4 dvd lda" "q < ncores"
    and "matmul \<in> {ai_matmul, ci_matmul}"
  shows "fills lda A B L {q * (lda div ncores)..<(q + 1) * (lda div ncores)} {0..<lda} (matmul q ncores lda A B)"
proof -
  have s: "q * lda div ncores = q * (lda div ncores)" "q * (lda div ncores) + lda div ncores = (q + 1) * (lda div ncores)"
    using assms(4) by (simp_all add: div_mult_swap)
  have ks: "splits ks (\<lambda>k. {k}) {0..<lda}" if "ks \<in> {[0..<lda], downs 0 lda 1}" for ks
    using that splits_upt[of 0 lda] splits_downs[of 0 lda 1] by auto
  have rows: "fills lda A B L {q * (lda div ncores)..<(q + 1) * (lda div ncores)} {0..<lda}
      (each [q * (lda div ncores)..<(q + 1) * (lda div ncores)] (\<lambda>j. each (steps 0 lda 4) (\<lambda>i. ai_quad lda A B ks j i)))"
    if "ks \<in> {[0..<lda], downs 0 lda 1}" for ks
  proof (rule puts_rows[OF splits_upt], rule puts_cols[OF splits_steps], simp, use assms(5) in simp, simp)
    fix j i assume j: "j \<in> set [q * (lda div ncores)..<(q + 1) * (lda div ncores)]" and i: "i \<in> set (steps 0 lda 4)"
    show "fills lda A B L {j} {i..<i + 4} (ai_quad lda A B ks j i)"
      by (rule ai_quad_fills[OF assms(1-3) _ _ ks[OF that]])
        (use j i share_le[OF assms(6,4)] steps_mem(2)[OF i] assms(5) in simp_all)
  qed
  then show ?thesis
    using assms(7) rows[of "[0..<lda]"] rows[of "downs 0 lda 1"]
    by (cases "q = 0") (auto simp: ai_matmul_def ci_matmul_def s simp del: One_nat_def)
qed

section \<open>\<open>bb\<close>: four rows and two columns\<close>

text \<open>The locals \<open>c00\<close>, \<open>c01\<close> to \<open>c30\<close>, \<open>c31\<close> in this order.\<close>

definition bb_block :: "nat \<Rightarrow> s32 list \<Rightarrow> s32 list \<Rightarrow> nat \<Rightarrow> nat \<Rightarrow> s32 list \<Rightarrow> s32 list option" where
  "bb_block lda A B i j C = do {
     c \<leftarrow> each [0..<lda] (\<lambda>k. reg_step A B (\<lambda>r. j * lda + k + r * lda) 4 (\<lambda>p. k * lda + i + p) 2) (replicate 8 0);
     store c (\<lambda>p. i + j * lda + p mod 2 + p div 2 * lda) 8 C }"

definition bb_matmul :: matmul_fun where
  "bb_matmul coreid ncores lda A B = each (steps 0 lda 2) (\<lambda>i.
     each (steps (coreid * (lda div ncores)) ((coreid + 1) * (lda div ncores)) 4) (bb_block lda A B i))"

lemma bb_fills:
  assumes "lda * lda \<le> length A" "lda * lda \<le> length B" "lda * lda \<le> L" "ncores dvd lda" "4 dvd lda div ncores" "q < ncores"
  shows "fills lda A B L {q * (lda div ncores)..<(q + 1) * (lda div ncores)} {0..<lda} (bb_matmul q ncores lda A B)"
proof -
  have "2 dvd lda"
    using assms(4) dvd_mult2[of 4 "lda div ncores" ncores] assms(5) dvd_trans[of 2 4 lda] by (simp add: mult.commute)
  moreover have d: "4 dvd (q + 1) * (lda div ncores) - q * (lda div ncores)" using assms(5) by (simp add: diff_mult_distrib[symmetric])
  ultimately show ?thesis unfolding bb_matmul_def
  proof (intro puts_cols[OF splits_steps] puts_rows[OF splits_steps], goal_cases)
    case (7 i j)
    have i: "i + 2 \<le> lda" using steps_mem(2)[OF 7(3)] 7(1) by simp
    have j: "j + 4 \<le> lda" using steps_mem(2)[OF 7(4) d] share_le[OF assms(6,4)] by simp
    have "does (blk j i 2) (trm lda A B) 8 ({j..<j + 4} \<times> {0..<lda} \<times> {i..<i + 2})
        (each [0..<lda] (\<lambda>k. reg_step A B (\<lambda>r. j * lda + k + r * lda) 4 (\<lambda>p. k * lda + i + p) 2))"
    proof (rule does_sums[OF splits_upt])
      fix k assume "k \<in> set [0..<lda]"
      then have k: "k < lda" by simp
      have a: "j * lda + k + r * lda = (j + r) * lda + k" for r by (simp add: algebra_simps)
      show "does (blk j i 2) (trm lda A B) 8 ({j..<j + 4} \<times> {k} \<times> {i..<i + 2})
          (reg_step A B (\<lambda>r. j * lda + k + r * lda) 4 (\<lambda>p. k * lda + i + p) 2)"
        unfolding a by (rule does_reg_step)
          (use i j k assms(1,2) row_less[of "j + _" lda k "length A"] row_less[OF k, of "i + _" "length B"] in \<open>auto simp: add.assoc\<close>)
    qed
    moreover have "block_at lda j 4 i 2 8 (\<lambda>p. i + j * lda + p mod 2 + p div 2 * lda)"
      using i j by (simp add: block_at_def algebra_simps)
    ultimately show ?case unfolding bb_block_def by (rule fills_block) (rule assms(3))
  qed simp_all
qed

section \<open>\<open>cs\<close>: two rows at a distance of \<open>ncores\<close>\<close>

text \<open>\<open>c1\<close> and \<open>c2\<close> are the locals 0 and 1.\<close>

definition cs_pair :: "nat \<Rightarrow> nat \<Rightarrow> s32 list \<Rightarrow> s32 list \<Rightarrow> nat \<Rightarrow> nat \<Rightarrow> s32 list \<Rightarrow> s32 list option" where
  "cs_pair ncores lda A B j i C = do {
     c \<leftarrow> each [0..<lda] (\<lambda>k. each [0..<2] (\<lambda>r. mac A B ((j + r * ncores) * lda + k) (k * lda + i) r)) (replicate 2 0);
     store c (\<lambda>r. i + (j + r * ncores) * lda) 2 C }"

definition cs_matmul :: matmul_fun where
  "cs_matmul coreid ncores lda A B = each (steps coreid lda (2 * ncores)) (\<lambda>j. each [0..<lda] (cs_pair ncores lda A B j))"

lemma cs_fills:
  assumes "lda * lda \<le> length A" "lda * lda \<le> length B" "lda * lda \<le> L" "2 * ncores dvd lda" "q < ncores"
  shows "fills lda A B L (stride ncores lda q) {0..<lda} (cs_matmul q ncores lda A B)"
  unfolding cs_matmul_def
proof (rule puts_rows[OF splits_stride[OF assms(4,5)]], simp, rule puts_cols[OF splits_upt])
  fix j i assume j: "j \<in> set (steps q lda (2 * ncores))" and "i \<in> set [0..<lda]"
  then have i: "i < lda" by simp
  have jr: "j + r * ncores < lda" if "r < 2" for r using stride_less[OF j that assms(4,5)] .
  let ?h = "\<lambda>(j', k, i'). (j' - j) div ncores" and ?J = "(\<lambda>r. j + r * ncores) ` {0..<2}"
  let ?f = "\<lambda>r. i + (j + r * ncores) * lda"
  have "does ?h (trm lda A B) 2 (?J \<times> {0..<lda} \<times> {i})
      (each [0..<lda] (\<lambda>k. each [0..<2] (\<lambda>r. mac A B ((j + r * ncores) * lda + k) (k * lda + i) r)))"
  proof (rule does_sums[OF splits_upt], rule does_rows[OF splits_stride_unroll])
    fix k r assume "k \<in> set [0..<lda]" "r \<in> set [0..<2 :: nat]"
    then show "does ?h (trm lda A B) 2 ({j + r * ncores} \<times> {k} \<times> {i}) (mac A B ((j + r * ncores) * lda + k) (k * lda + i) r)"
      using jr i assms by (intro does_mac row_less) auto
  qed (use assms(5) in simp)
  then have "puts (entry lda A B) L (?f ` {..<2}) (cs_pair ncores lda A B j i)"
    unfolding cs_pair_def
  proof (rule puts_block)
    show "?f r < L" if "r < 2" for r using cell_in[OF i jr[OF that] assms(3)] .
    show "inj_on ?f {..<2}" using i assms(5) by (auto simp: inj_on_def)
    fix r assume r: "r < (2 :: nat)"
    have "(\<Sum>t \<in> {t \<in> ?J \<times> {0..<lda} \<times> {i}. ?h t = r}. trm lda A B t) = product lda A B (j + r * ncores) i"
      by (rule sum_cell) (use r assms(5) in auto)
    then show "entry lda A B (?f r) = (\<Sum>t \<in> {t \<in> ?J \<times> {0..<lda} \<times> {i}. ?h t = r}. trm lda A B t)"
      using entry_cell[OF i] by simp
  qed
  moreover have "?f ` {..<2} = cells lda ?J {i}" by (auto simp: cells_def image_iff atLeast0LessThan)
  ultimately show "fills lda A B L ?J {i} (cs_pair ncores lda A B j i)" by simp
qed

section \<open>\<open>do\<close>: one element at a time\<close>

text \<open>\<open>acc_temp\<close> is the only local.\<close>

definition do_matmul :: matmul_fun where
  "do_matmul coreid ncores lda A B = each [0..<32] (\<lambda>i.
     each [coreid * (32 div ncores)..<(coreid + 1) * (32 div ncores)] (\<lambda>j C. do {
       acc_temp \<leftarrow> each [0..<32] (\<lambda>k. mac A B (j * 32 + k) (i + k * 32) 0) (replicate 1 0);
       store acc_temp (\<lambda>_. i + j * 32) 1 C }))"

lemma do_fills:
  assumes "32 * 32 \<le> length A" "32 * 32 \<le> length B" "32 * 32 \<le> L" "ncores dvd 32" "q < ncores"
  shows "fills 32 A B L {q * (32 div ncores)..<(q + 1) * (32 div ncores)} {0..<32} (do_matmul q ncores 32 A B)"
  unfolding do_matmul_def
proof (rule puts_cols[OF splits_upt], rule puts_rows[OF splits_upt])
  fix i j assume "i \<in> set [0..<32 :: nat]" "j \<in> set [q * (32 div ncores)..<(q + 1) * (32 div ncores)]"
  then have ij: "i < 32" "j < 32" using share_le[OF assms(5,4)] by simp_all
  have "does (blk j i 1) (trm 32 A B) 1 ({j..<j + 1} \<times> {0..<32} \<times> {i..<i + 1}) (each [0..<32] (\<lambda>k. mac A B (j * 32 + k) (i + k * 32) 0))"
  proof (rule does_sums[OF splits_upt])
    fix k assume "k \<in> set [0..<32 :: nat]"
    then have "does (blk j i 1) (trm 32 A B) 1 ({j} \<times> {k} \<times> {i}) (mac A B (j * 32 + k) (i + k * 32) 0)"
      using ij assms(1,2) by (intro does_mac) (auto simp: add.commute)
    moreover have "{j..<j + 1} = {j}" "{i..<i + 1} = {i}" by auto
    ultimately show "does (blk j i 1) (trm 32 A B) 1 ({j..<j + 1} \<times> {k} \<times> {i..<i + 1}) (mac A B (j * 32 + k) (i + k * 32) 0)" by simp
  qed
  from fills_block[OF this, where f = "\<lambda>_. i + j * 32" and L = L]
  show "fills 32 A B L {j} {i} (\<lambda>C. do {
       acc_temp \<leftarrow> each [0..<32] (\<lambda>k. mac A B (j * 32 + k) (i + k * 32) 0) (replicate 1 0);
       store acc_temp (\<lambda>_. i + j * 32) 1 C })"
    using ij assms(3) by (simp add: block_at_def del: upt_rec_numeral replicate_Suc)
qed

section \<open>\<open>bf\<close>: half rows\<close>

definition bf_half_row :: "nat \<Rightarrow> nat \<Rightarrow> s32 list \<Rightarrow> s32 list \<Rightarrow> nat \<Rightarrow> s32 list \<Rightarrow> s32 list option" where
  "bf_half_row col lda A B j C = do {
     temps \<leftarrow> each [0..<32] (\<lambda>k. each [0..<16] (\<lambda>p. mac A B (j * lda + k) (p + col + k * lda) p)) (replicate 16 0);
     store temps (\<lambda>p. p + col + j * lda) 16 C }"

definition bf_matmul :: matmul_fun where
  "bf_matmul coreid ncores lda A B =
     two_cores (each [0..<32] (bf_half_row 0 lda A B)) (each [0..<32] (bf_half_row 16 lda A B)) coreid ncores"

lemma bf_fills:
  assumes "32 * 32 \<le> length A" "32 * 32 \<le> length B" "32 * 32 \<le> L" "col + 16 \<le> 32"
  shows "fills 32 A B L {0..<32} {col..<col + 16} (each [0..<32] (bf_half_row col 32 A B))"
proof (rule puts_rows[OF splits_upt])
  fix j assume "j \<in> set [0..<32 :: nat]"
  then have j: "j < 32" by simp
  have "does (blk j col 16) (trm 32 A B) 16 ({j..<j + 1} \<times> {0..<32} \<times> {col..<col + 16})
      (each [0..<32] (\<lambda>k. each [0..<16] (\<lambda>p. mac A B (j * 32 + k) (p + col + k * 32) p)))"
  proof (rule does_sums[OF splits_upt], rule does_cols[OF splits_unroll])
    fix k p assume "k \<in> set [0..<32 :: nat]" "p \<in> set [0..<16 :: nat]"
    then have "does (blk j col 16) (trm 32 A B) 16 ({j} \<times> {k} \<times> {col + p}) (mac A B (j * 32 + k) (p + col + k * 32) p)"
      using j assms by (intro does_mac) (auto simp: ac_simps)
    moreover have "{j..<j + 1} = {j}" by auto
    ultimately show "does (blk j col 16) (trm 32 A B) 16 ({j..<j + 1} \<times> {k} \<times> {col + p}) (mac A B (j * 32 + k) (p + col + k * 32) p)" by simp
  qed
  from fills_block[OF this, where f = "\<lambda>p. p + col + j * 32" and L = L]
  show "fills 32 A B L {j} {col..<col + 16} (bf_half_row col 32 A B j)"
    using j assms(3,4) unfolding bf_half_row_def by (simp add: block_at_def ac_simps del: upt_rec_numeral)
qed

section \<open>\<open>ay\<close>, \<open>az\<close> and \<open>cy\<close>: eight elements from position \<open>j\<close> of \<open>C\<close> on\<close>

definition ay_eight :: "nat \<Rightarrow> s32 list \<Rightarrow> s32 list \<Rightarrow> nat \<Rightarrow> s32 list \<Rightarrow> s32 list option" where
  "ay_eight lda A B j C = (let jToRow = push_bit 5 (drop_bit 5 j); jToCol = j mod 32 in do {
     tempC \<leftarrow> each (steps 0 lda 2) (\<lambda>i tempC. do {
       tempA0 \<leftarrow> rd A (i + jToRow);
       tempA1 \<leftarrow> rd A (i + 1 + jToRow);
       tempC \<leftarrow> each [0..<8] (\<lambda>p tempC. do {
         b \<leftarrow> rd B (jToCol + p + push_bit 5 i);
         add_at p (tempA0 * b) tempC }) tempC;
       each [0..<8] (\<lambda>p tempC. do {
         b \<leftarrow> rd B (jToCol + p + push_bit 5 (i + 1));
         add_at p (tempA1 * b) tempC }) tempC }) (replicate 8 0);
     store tempC (\<lambda>p. j + p) 8 C })"

definition ay_range :: "nat \<Rightarrow> nat \<Rightarrow> nat list" where
  "ay_range coreid ncores = (let start = push_bit 9 coreid; bound = push_bit 9 (if ncores = 1 then 2 else coreid + 1)
     in steps start bound 8)"

definition ay_matmul :: matmul_fun where
  "ay_matmul coreid ncores lda A B C = (if coreid > 1 then Some C
     else each (ay_range coreid ncores) (ay_eight lda A B) C)"

text \<open>In \<open>az\<close> the row of \<open>B\<close> is a variable \<open>iToRow\<close>, first \<open>i << 5\<close> and then 32 more.\<close>

definition az_eight :: "nat \<Rightarrow> s32 list \<Rightarrow> s32 list \<Rightarrow> nat \<Rightarrow> s32 list \<Rightarrow> s32 list option" where
  "az_eight lda A B j C = (let jToRow = push_bit 5 (drop_bit 5 j); jToCol = j mod 32 in do {
     tempC \<leftarrow> each (steps 0 lda 2) (\<lambda>i tempC. (let iToRow = push_bit 5 i in do {
       tempA0 \<leftarrow> rd A (i + jToRow);
       tempA1 \<leftarrow> rd A (i + 1 + jToRow);
       tempC \<leftarrow> each [0..<8] (\<lambda>p tempC. do {
         b \<leftarrow> rd B (jToCol + p + iToRow);
         add_at p (tempA0 * b) tempC }) tempC;
       (let iToRow = iToRow + 32 in each [0..<8] (\<lambda>p tempC. do {
         b \<leftarrow> rd B (jToCol + p + iToRow);
         add_at p (tempA1 * b) tempC }) tempC) })) (replicate 8 0);
     store tempC (\<lambda>p. j + p) 8 C })"

definition az_matmul :: matmul_fun where
  "az_matmul coreid ncores lda A B C = (if coreid > 1 then Some C
     else each (ay_range coreid ncores) (az_eight lda A B) C)"

text \<open>In \<open>cy\<close> core 1 works on its copies \<open>A1\<close> and \<open>B1\<close> of the operands.\<close>

definition cy_copy :: "s32 list \<Rightarrow> s32 list \<Rightarrow> s32 list \<times> s32 list \<Rightarrow> (s32 list \<times> s32 list) option" where
  "cy_copy A B = each [0..<1024] (\<lambda>i (A1, B1). do {
     a \<leftarrow> rd A i;
     A1 \<leftarrow> wr A1 i a;
     b \<leftarrow> rd B i;
     B1 \<leftarrow> wr B1 i b;
     Some (A1, B1) })"

definition cy_matmul :: matmul_fun where
  "cy_matmul coreid ncores lda A B C = (if coreid > 1 then Some C
     else if coreid = 0 then each (ay_range coreid ncores) (ay_eight lda A B) C
     else do {
       (A1, B1) \<leftarrow> cy_copy A B (replicate 1024 0, replicate 1024 0);
       each (ay_range coreid ncores) (ay_eight lda A1 B1) C })"

lemma ay_eight_fills:
  assumes "32 * 32 \<le> length A" "32 * 32 \<le> length B" "32 * 32 \<le> L" "j < 1024" "8 dvd j"
  shows "fills 32 A B L {j div 32} {j mod 32..<j mod 32 + 8} (ay_eight 32 A B j)"
proof -
  let ?r = "j div 32" and ?c = "j mod 32"
  have r: "?r < 32" using assms(4) by simp
  have c: "?c + 8 \<le> 32" using assms(5) by presburger
  have row: "push_bit 5 (drop_bit 5 j) = ?r * 32" by (simp add: push_bit_eq_mult drop_bit_eq_div)
  have "does (blk ?r ?c 8) (trm 32 A B) 8 ({?r} \<times> {0..<32} \<times> {?c..<?c + 8}) (each (steps 0 32 2) (\<lambda>i tempC. do {
       tempA0 \<leftarrow> rd A (i + ?r * 32);
       tempA1 \<leftarrow> rd A (i + 1 + ?r * 32);
       tempC \<leftarrow> each [0..<8] (\<lambda>p tempC. do {
         b \<leftarrow> rd B (?c + p + push_bit 5 i);
         add_at p (tempA0 * b) tempC }) tempC;
       each [0..<8] (\<lambda>p tempC. do {
         b \<leftarrow> rd B (?c + p + push_bit 5 (i + 1));
         add_at p (tempA1 * b) tempC }) tempC }))"
  proof (rule does_sums[OF splits_steps], simp, simp, simp)
    fix i assume "i \<in> set (steps 0 32 2)"
    then have i: "i + 2 \<le> 32" using steps_mem(2) by fastforce
    have half: "does (blk ?r ?c 8) (trm 32 A B) 8 ({?r} \<times> {k} \<times> {?c..<?c + 8}) (each [0..<8] (\<lambda>p tempC. do {
         b \<leftarrow> rd B (?c + p + push_bit 5 k);
         add_at p (A ! (k + ?r * 32) * b) tempC }))" if k: "k < 32" for k
    proof (rule does_cols[OF splits_unroll], rule does_rd)
      fix p assume "p \<in> set [0..<8 :: nat]"
      then have p: "p < 8" by simp
      show "?c + p + push_bit 5 k < length B" using p c k assms(2) by (simp add: push_bit_eq_mult)
      show "does (blk ?r ?c 8) (trm 32 A B) 8 ({?r} \<times> {k} \<times> {?c + p}) (add_at p (A ! (k + ?r * 32) * B ! (?c + p + push_bit 5 k)))"
        by (rule does_term) (use p in \<open>simp_all add: push_bit_eq_mult ac_simps\<close>)
    qed
    have "does (blk ?r ?c 8) (trm 32 A B) 8 ({?r} \<times> {i..<i + 2} \<times> {?c..<?c + 8}) (\<lambda>tempC. do {
       tempC \<leftarrow> each [0..<8] (\<lambda>p tempC. do {
         b \<leftarrow> rd B (?c + p + push_bit 5 i);
         add_at p (A ! (i + ?r * 32) * b) tempC }) tempC;
       each [0..<8] (\<lambda>p tempC. do {
         b \<leftarrow> rd B (?c + p + push_bit 5 (i + 1));
         add_at p (A ! (i + 1 + ?r * 32) * b) tempC }) tempC })"
      by (rule does_two[OF half[of i] half[of "i + 1"]]) (use i in auto)
    then show "does (blk ?r ?c 8) (trm 32 A B) 8 ({?r} \<times> {i..<i + 2} \<times> {?c..<?c + 8}) (\<lambda>tempC. do {
       tempA0 \<leftarrow> rd A (i + ?r * 32);
       tempA1 \<leftarrow> rd A (i + 1 + ?r * 32);
       tempC \<leftarrow> each [0..<8] (\<lambda>p tempC. do {
         b \<leftarrow> rd B (?c + p + push_bit 5 i);
         add_at p (tempA0 * b) tempC }) tempC;
       each [0..<8] (\<lambda>p tempC. do {
         b \<leftarrow> rd B (?c + p + push_bit 5 (i + 1));
         add_at p (tempA1 * b) tempC }) tempC })"
      using i r assms(1) by simp
  qed
  moreover have "block_at 32 ?r 1 ?c 8 8 (\<lambda>p. j + p)" using r c by (simp add: block_at_def)
  moreover have "{?r} = {?r..<?r + 1}" by auto
  ultimately show ?thesis
    unfolding ay_eight_def Let_def row by (simp only:) (rule fills_block[OF _ _ assms(3)])
qed

lemma az_eight_eq: "az_eight lda A B j C = ay_eight lda A B j C"
  by (simp add: az_eight_def ay_eight_def Let_def push_bit_eq_mult add.commute[of 32])

text \<open>A core fills 16 rows, a single core all 32.\<close>

lemma ay_range_fills:
  assumes "32 * 32 \<le> length A" "32 * 32 \<le> length B" "32 * 32 \<le> L" "q < ncores" "q \<le> 1"
  shows "fills 32 A B L {16 * q..<if ncores = 1 then 32 else 16 * (q + 1)} {0..<32} (each (ay_range q ncores) (ay_eight 32 A B))"
proof -
  let ?hi = "if ncores = 1 then 1024 else (q + 1) * 512" and ?U = "{16 * q..<if ncores = 1 then 32 else 16 * (q + 1)}"
  have r: "ay_range q ncores = steps (q * 512) ?hi 8" by (simp add: ay_range_def push_bit_eq_mult)
  have d: "8 dvd ?hi - q * 512" using assms(4) by auto
  have m: "j \<in> set (steps (q * 512) ?hi 8) \<Longrightarrow> q * 512 \<le> j \<and> j + 8 \<le> ?hi \<and> 8 dvd j" for j
    using steps_mem[OF _ d, of j] dvd_diffD[of 8 j "q * 512"] by simp
  have "?hi \<le> 1024" using assms(5) by simp
  then have "puts (entry 32 A B) L (\<Union>j \<in> set (steps (q * 512) ?hi 8). cells 32 {j div 32} {j mod 32..<j mod 32 + 8})
      (each (steps (q * 512) ?hi 8) (ay_eight 32 A B))"
    by (intro puts_each ay_eight_fills assms(1-3)) (use m in fastforce)+
  moreover have "(\<Union>j \<in> set (steps (q * 512) ?hi 8). cells 32 {j div 32} {j mod 32..<j mod 32 + 8}) = cells 32 ?U {0..<32}"
  proof (intro set_eqI iffI)
    fix x assume "x \<in> (\<Union>j \<in> set (steps (q * 512) ?hi 8). cells 32 {j div 32} {j mod 32..<j mod 32 + 8})"
    then obtain j i where j: "j \<in> set (steps (q * 512) ?hi 8)" "j mod 32 \<le> i" "i < j mod 32 + 8" "x = i + j div 32 * 32"
      by (auto simp: cells_def)
    have "8 dvd j" using m[OF j(1)] by blast
    then have "i < 32" using j(3) by presburger
    moreover have "j div 32 \<in> ?U" using m[OF j(1)] assms(4) by (auto split: if_splits)
    ultimately show "x \<in> cells 32 ?U {0..<32}" unfolding cells_def j(4) by (intro image_eqI[of _ _ "(j div 32, i)"]) auto
  next
    fix x assume "x \<in> cells 32 ?U {0..<32}"
    then obtain a i where a: "a \<in> ?U" "i < 32" "x = i + a * 32" by (auto simp: cells_def)
    let ?j = "a * 32 + 8 * (i div 8)"
    have "?j < ?hi" "\<exists>t. ?j = q * 512 + t * 8"
      using a(1,2) by (auto split: if_splits intro!: exI[of _ "(a - 16 * q) * 4 + i div 8"])
    then have "?j \<in> set (steps (q * 512) ?hi 8)" by (subst steps_iff) auto
    moreover have "?j div 32 = a" "?j mod 32 = 8 * (i div 8)" using a(2) by auto
    then have "x \<in> cells 32 {?j div 32} {?j mod 32..<?j mod 32 + 8}"
      unfolding cells_def a(3) by (intro image_eqI[of _ _ "(a, i)"]) auto
    ultimately show "x \<in> (\<Union>j \<in> set (steps (q * 512) ?hi 8). cells 32 {j div 32} {j mod 32..<j mod 32 + 8})" by blast
  qed
  ultimately show ?thesis unfolding r by simp
qed

text \<open>The copies are complete.\<close>

lemma cy_copy_eq:
  assumes "1024 \<le> length A" "1024 \<le> length B"
  shows "cy_copy A B (replicate 1024 0, replicate 1024 0) = Some (take 1024 A, take 1024 B)"
proof -
  have "each [0..<n] (\<lambda>i (A1, B1). do {
     a \<leftarrow> rd A i;
     A1 \<leftarrow> wr A1 i a;
     b \<leftarrow> rd B i;
     B1 \<leftarrow> wr B1 i b;
     Some (A1, B1) }) (replicate 1024 0, replicate 1024 0) =
    Some (take n A @ replicate (1024 - n) 0, take n B @ replicate (1024 - n) 0)" if "n \<le> 1024" for n
    using that
  proof (induction n)
    case 0 then show ?case by simp
  next
    case (Suc n)
    have "(take n X @ replicate (1024 - n) 0)[n := X ! n] = take (Suc n) X @ replicate (1024 - Suc n) 0"
      if "1024 \<le> length X" for X :: "s32 list"
    proof -
      have "replicate (1024 - n) (0 :: s32) = 0 # replicate (1024 - Suc n) 0"
        using Suc.prems by (cases "1024 - n") simp_all
      then show ?thesis using that Suc.prems by (simp add: list_update_append take_Suc_conv_app_nth)
    qed
    then show ?case using Suc assms by (simp add: each_snoc)
  qed
  from this[of 1024] show ?thesis by (simp add: cy_copy_def)
qed

lemma product_take: "32 * 32 \<le> length A \<Longrightarrow> 32 * 32 \<le> length B \<Longrightarrow> j < 32 \<Longrightarrow> i < 32 \<Longrightarrow>
    product 32 (take 1024 A) (take 1024 B) j i = product 32 A B j i"
  by (auto simp: product_def prod_term_def intro!: sum.cong)

lemma cy_core1_fills:
  assumes "32 * 32 \<le> length A" "32 * 32 \<le> length B" "32 * 32 \<le> L" "ncores \<noteq> 1" "1 < ncores"
  shows "fills 32 A B L {16..<32} {0..<32} (cy_matmul 1 ncores 32 A B)"
proof -
  have c: "cy_copy A B (replicate 1024 0, replicate 1024 0) = Some (take 1024 A, take 1024 B)"
    using cy_copy_eq assms(1,2) by simp
  have "fills 32 (take 1024 A) (take 1024 B) L {16 * 1..<if ncores = 1 then 32 else 16 * (1 + 1)} {0..<32}
      (each (ay_range 1 ncores) (ay_eight 32 (take 1024 A) (take 1024 B)))"
    by (rule ay_range_fills) (use assms in simp_all)
  moreover have "entry 32 (take 1024 A) (take 1024 B) x = entry 32 A B x" if "x \<in> cells 32 {16..<32} {0..<32}" for x
    using that product_take[OF assms(1,2)] by (auto simp: cells_def)
  ultimately show ?thesis
    using assms(4) c unfolding puts_def by (simp add: cy_matmul_def cong: if_cong)
qed

lemma ay_all:
  assumes "32 * 32 \<le> length A" "32 * 32 \<le> length B" "32 * 32 \<le> L"
    and "distinct ids" "set ids = {0..<ncores}" "0 < ncores" "matmul \<in> {ay_matmul, az_matmul, cy_matmul}"
  shows "fills 32 A B L {0..<32} {0..<32} (each ids (\<lambda>q. matmul q ncores 32 A B))"
proof -
  have e: "az_eight 32 A B = ay_eight 32 A B" by (intro ext) (rule az_eight_eq)
  have m0: "matmul 0 ncores 32 A B = each (ay_range 0 ncores) (ay_eight 32 A B)"
    using assms(7) by (auto simp: fun_eq_iff ay_matmul_def az_matmul_def cy_matmul_def e)
  have "puts (entry 32 A B) L (cells 32 {0..<16} {0..<32} \<union> cells 32 {16..<32} {0..<32}) (each ids (\<lambda>q. matmul q ncores 32 A B))"
  proof (rule cores_puts[OF _ _ _ _ assms(4-6)], goal_cases)
    case 1
    have "cells 32 {0..<16} {0..<32} \<union> cells 32 {16..<32} {0..<32} = cells 32 {0..<32} {0..<32}"
      unfolding cells_def by (simp flip: image_Un Sigma_Un_distrib1 add: ivl_disj_un_two(3))
    then show ?case using ay_range_fills[OF assms(1-3), of 0 ncores] 1 m0 by simp
  next
    case 2 then show ?case using ay_range_fills[OF assms(1-3), of 0 ncores] assms(6) m0 by simp
  next
    case 3
    show ?case
    proof (cases "matmul = cy_matmul")
      case True then show ?thesis using cy_core1_fills[OF assms(1-3), of ncores] 3 assms(6) by simp
    next
      case False
      then have "matmul 1 ncores 32 A B = each (ay_range 1 ncores) (ay_eight 32 A B)"
        using assms(7) by (auto simp: fun_eq_iff ay_matmul_def az_matmul_def e)
      then show ?thesis using ay_range_fills[OF assms(1-3), of 1 ncores] 3 assms(6) by simp
    qed
  next
    case (4 q) then show ?case using assms(7) by (auto simp: fun_eq_iff ay_matmul_def az_matmul_def cy_matmul_def)
  qed
  moreover have "cells 32 {0..<16} {0..<32} \<union> cells 32 {16..<32} {0..<32} = cells 32 {0..<32} {0..<32}"
    unfolding cells_def by (simp flip: image_Un Sigma_Un_distrib1 add: ivl_disj_un_two(3))
  ultimately show ?thesis by simp
qed

section \<open>\<open>bo\<close>: one column of \<open>B\<close> at a time\<close>

text \<open>
  The array \<open>B_trans\<close> is on the stack and holds \<open>U\<close> at first; \<open>B_i\<close> points to its element \<open>i * 32\<close>, where
  column \<open>i\<close> of \<open>B\<close> is copied. \<open>bo_sum\<close> is the sum of eight terms at a time in \<open>acc_temp0\<close> or \<open>acc_temp1\<close>
  for the row of \<open>A\<close> at \<open>A_j\<close>.
\<close>

definition bo_sum :: "s32 list \<Rightarrow> s32 list \<Rightarrow> nat \<Rightarrow> nat \<Rightarrow> s32 option" where
  "bo_sum A B_trans A_j B_i = each (steps 0 32 8) (\<lambda>k. each [0..<8] (\<lambda>x acc. do {
     a \<leftarrow> rd A (A_j + k + x);
     b \<leftarrow> rd B_trans (B_i + k + x);
     Some (acc + a * b) })) 0"

definition bo_cols :: "nat \<Rightarrow> nat \<Rightarrow> nat \<Rightarrow> s32 list \<Rightarrow> s32 list \<Rightarrow> s32 list \<times> s32 list \<Rightarrow> (s32 list \<times> s32 list) option" where
  "bo_cols lo hi lda A B = each [0..<32] (\<lambda>i (B_trans, C). do {
     B_trans \<leftarrow> each [0..<32] (\<lambda>z B_trans. do {
       b \<leftarrow> rd B (i + z * 32);
       wr B_trans (i * 32 + z) b }) B_trans;
     C \<leftarrow> each (steps lo hi 2) (\<lambda>j C. do {
       acc_temp0 \<leftarrow> bo_sum A B_trans (j * lda) (i * 32);
       acc_temp1 \<leftarrow> bo_sum A B_trans (j * lda + 32) (i * 32);
       C \<leftarrow> wr C (i + j * lda) acc_temp0;
       wr C (i + (j + 1) * lda) acc_temp1 }) C;
     Some (B_trans, C) })"

definition bo_matmul :: "s32 list \<Rightarrow> matmul_fun" where
  "bo_matmul U coreid ncores lda A B C =
     map_option snd (two_cores (bo_cols 0 16 lda A B) (bo_cols 16 32 lda A B) coreid ncores (U, C))"

text \<open>Code that also works on a local array of \<open>N\<close> elements.\<close>

definition puts_local :: "nat \<Rightarrow> (nat \<Rightarrow> s32) \<Rightarrow> nat \<Rightarrow> nat set \<Rightarrow> (s32 list \<times> s32 list \<Rightarrow> (s32 list \<times> s32 list) option) \<Rightarrow> bool" where
  "puts_local N V L P body \<longleftrightarrow> (\<forall>T X. length T = N \<longrightarrow> length X = L \<longrightarrow> (\<exists>T' X'. body (T, X) = Some (T', X') \<and>
    length T' = N \<and> length X' = L \<and> (\<forall>x < L. X' ! x = (if x \<in> P then V x else X ! x))))"

lemma puts_local_bind:
  assumes "puts_local N V L P b" "puts_local N V L P' b'"
  shows "puts_local N V L (P \<union> P') (\<lambda>s. Option.bind (b s) b')"
  unfolding puts_local_def
proof (intro allI impI)
  fix T X :: "s32 list" assume TX: "length T = N" "length X = L"
  obtain T1 X1 where 1: "b (T, X) = Some (T1, X1)" "length T1 = N" "length X1 = L" "\<forall>x < L. X1 ! x = (if x \<in> P then V x else X ! x)"
    using assms(1) TX unfolding puts_local_def by blast
  obtain T2 X2 where 2: "b' (T1, X1) = Some (T2, X2)" "length T2 = N" "length X2 = L" "\<forall>x < L. X2 ! x = (if x \<in> P' then V x else X1 ! x)"
    using assms(2) 1(2,3) unfolding puts_local_def by blast
  show "\<exists>T' X'. Option.bind (b (T, X)) b' = Some (T', X') \<and> length T' = N \<and> length X' = L \<and>
      (\<forall>x < L. X' ! x = (if x \<in> P \<union> P' then V x else X ! x))"
    using 1 2 by (intro exI[of _ T2] exI[of _ X2]) simp
qed

lemma puts_local_each:
  assumes "\<And>i. i \<in> set is \<Longrightarrow> puts_local N V L (P i) (body i)"
  shows "puts_local N V L (\<Union>i \<in> set is. P i) (each is body)"
  using assms
proof (induction "is")
  case Nil then show ?case by (simp add: puts_local_def)
next
  case (Cons i "is")
  have "puts_local N V L (P i \<union> (\<Union>i \<in> set is. P i)) (\<lambda>s. Option.bind (body i s) (each is body))"
    by (rule puts_local_bind) (use Cons in auto)
  moreover have "each (i # is) body = (\<lambda>s. Option.bind (body i s) (each is body))" by (rule ext) simp
  ultimately show ?case by simp
qed

lemma puts_local_snd:
  "puts_local N V L P body \<Longrightarrow> length U = N \<Longrightarrow> puts V L P (\<lambda>C. map_option snd (body (U, C)))"
  unfolding puts_local_def puts_def by fastforce

lemma each_sum:
  "(\<And>x acc. x \<in> set xs \<Longrightarrow> body x acc = Some (acc + f x)) \<Longrightarrow> each xs body acc = Some (acc + sum_list (map f xs))"
  for f :: "'a \<Rightarrow> s32"
  by (induction xs arbitrary: acc) (simp_all add: add.assoc)

lemma bo_sum_eq:
  assumes "32 * 32 \<le> length A" "j < 32" "length T = 1024" "i < 32" "\<And>k. k < 32 \<Longrightarrow> T ! (i * 32 + k) = B ! (k * 32 + i)"
  shows "bo_sum A T (j * 32) (i * 32) = Some (product 32 A B j i)"
proof -
  let ?f = "\<lambda>k. prod_term 32 A B j k i"
  have s: "steps 0 32 8 = map (\<lambda>q. 8 * q) [0..<4]" by (simp add: steps_def mult.commute)
  have "bo_sum A T (j * 32) (i * 32) = Some (0 + sum_list (map (\<lambda>k. sum_list (map (\<lambda>x. ?f (k + x)) [0..<8])) (steps 0 32 8)))"
    unfolding bo_sum_def
  proof (rule each_sum, rule each_sum)
    fix k x acc assume k: "k \<in> set (steps 0 32 8)" and x: "x \<in> set [0..<8 :: nat]"
    have kx: "k + x < 32" using steps_mem(2)[OF k] x by simp
    show "(do { a \<leftarrow> rd A (j * 32 + k + x); b \<leftarrow> rd T (i * 32 + k + x); Some (acc + a * b) }) = Some (acc + ?f (k + x))"
      using kx assms(1-4) assms(5)[OF kx] by (simp add: prod_term_def add.assoc)
  qed
  also have "sum_list (map (\<lambda>k. sum_list (map (\<lambda>x. ?f (k + x)) [0..<8])) (steps 0 32 8)) = (\<Sum>m < 4. \<Sum>r < 8. ?f (r + 8 * m))"
    unfolding s map_map comp_def tgt_upt by (simp add: atLeast0LessThan add.commute)
  also have "\<dots> = product 32 A B j i" using sum_tiles[of ?f 8 4] by (simp add: product_def)
  finally show ?thesis by simp
qed

lemma bo_cols_fills:
  assumes "32 * 32 \<le> length A" "32 * 32 \<le> length B" "32 * 32 \<le> L" "lo \<le> hi" "hi \<le> 32" "2 dvd hi - lo"
  shows "puts_local 1024 (entry 32 A B) L (cells 32 {lo..<hi} {0..<32}) (bo_cols lo hi 32 A B)"
proof -
  have "puts_local 1024 (entry 32 A B) L (\<Union>i \<in> set [0..<32]. cells 32 {lo..<hi} {i}) (bo_cols lo hi 32 A B)"
    unfolding bo_cols_def
  proof (rule puts_local_each)
    fix i assume "i \<in> set [0..<32 :: nat]"
    then have i: "i < 32" by simp
    show "puts_local 1024 (entry 32 A B) L (cells 32 {lo..<hi} {i}) (\<lambda>(B_trans, C). do {
       B_trans \<leftarrow> each [0..<32] (\<lambda>z B_trans. do { b \<leftarrow> rd B (i + z * 32); wr B_trans (i * 32 + z) b }) B_trans;
       C \<leftarrow> each (steps lo hi 2) (\<lambda>j C. do {
         acc_temp0 \<leftarrow> bo_sum A B_trans (j * 32) (i * 32);
         acc_temp1 \<leftarrow> bo_sum A B_trans (j * 32 + 32) (i * 32);
         C \<leftarrow> wr C (i + j * 32) acc_temp0;
         wr C (i + (j + 1) * 32) acc_temp1 }) C;
       Some (B_trans, C) })"
      unfolding puts_local_def
    proof (intro allI impI)
      fix U X :: "s32 list" assume U: "length U = 1024" and X: "length X = L"
      have "puts (transposed 32 B) 1024 (cells 32 {i..<i + 1} {0..<32})
          (each [0..<32] (\<lambda>z B_trans. do { b \<leftarrow> rd B (i + z * 32); wr B_trans (i * 32 + z) b }))"
      proof (rule puts_cols[OF splits_upt], rule puts_rd)
        fix z assume "z \<in> set [0..<32 :: nat]"
        then have z: "z < 32" by simp
        have "{i..<i + 1} = {i}" by auto
        then show "i + z * 32 < length B"
          "puts (transposed 32 B) 1024 (cells 32 {i..<i + 1} {z}) (\<lambda>T. wr T (i * 32 + z) (B ! (i + z * 32)))"
          using z i assms(2) by (auto intro!: puts_cell simp: add.commute)
      qed
      from puts_transposed[OF this U] i obtain T where
        T: "each [0..<32] (\<lambda>z B_trans. do { b \<leftarrow> rd B (i + z * 32); wr B_trans (i * 32 + z) b }) U = Some T"
          "length T = 1024" "\<And>k. k < 32 \<Longrightarrow> T ! (i * 32 + k) = B ! (k * 32 + i)"
        by force
      have "fills 32 A B L {lo..<hi} {i} (each (steps lo hi 2) (\<lambda>j C. do {
         acc_temp0 \<leftarrow> bo_sum A T (j * 32) (i * 32);
         acc_temp1 \<leftarrow> bo_sum A T (j * 32 + 32) (i * 32);
         C \<leftarrow> wr C (i + j * 32) acc_temp0;
         wr C (i + (j + 1) * 32) acc_temp1 }))"
      proof (rule puts_rows[OF splits_steps[OF assms(4,6)]], simp)
        fix j assume "j \<in> set (steps lo hi 2)"
        then have j: "j < 32" "j + 1 < 32" using steps_mem(2)[OF _ assms(6)] assms(5) by fastforce+
        have s: "bo_sum A T (j * 32) (i * 32) = Some (product 32 A B j i)"
          "bo_sum A T (j * 32 + 32) (i * 32) = Some (product 32 A B (j + 1) i)"
          using bo_sum_eq[OF assms(1) j(1) T(2) i T(3)] bo_sum_eq[OF assms(1) j(2) T(2) i T(3)] by (simp_all add: add.commute)
        have "puts (entry 32 A B) L (cells 32 {j} {i} \<union> cells 32 {j + 1} {i})
            (\<lambda>C. do { C \<leftarrow> wr C (i + j * 32) (product 32 A B j i); wr C (i + (j + 1) * 32) (product 32 A B (j + 1) i) })"
          by (rule puts_bind[OF puts_cell puts_cell])
            (use cell_in[OF i j(1) assms(3)] cell_in[OF i j(2) assms(3)] entry_cell[OF i, of A B j] entry_cell[OF i, of A B "j + 1"] in simp_all)
        moreover have "cells 32 {j} {i} \<union> cells 32 {j + 1} {i} = cells 32 {j..<j + 2} {i}"
        proof -
          have "{j..<j + 2} = {j, j + 1}" by auto
          then show ?thesis by (auto simp: cells_def)
        qed
        ultimately show "fills 32 A B L {j..<j + 2} {i} (\<lambda>C. do {
           acc_temp0 \<leftarrow> bo_sum A T (j * 32) (i * 32);
           acc_temp1 \<leftarrow> bo_sum A T (j * 32 + 32) (i * 32);
           C \<leftarrow> wr C (i + j * 32) acc_temp0;
           wr C (i + (j + 1) * 32) acc_temp1 })" by (simp add: s)
      qed
      then obtain X' where X': "each (steps lo hi 2) (\<lambda>j C. do {
         acc_temp0 \<leftarrow> bo_sum A T (j * 32) (i * 32);
         acc_temp1 \<leftarrow> bo_sum A T (j * 32 + 32) (i * 32);
         C \<leftarrow> wr C (i + j * 32) acc_temp0;
         wr C (i + (j + 1) * 32) acc_temp1 }) X = Some X'" "length X' = L"
        "\<forall>x < L. X' ! x = (if x \<in> cells 32 {lo..<hi} {i} then entry 32 A B x else X ! x)"
        using X unfolding puts_def by (elim allE[of _ X] impE exE conjE)
      show "\<exists>T' X'. (case (U, X) of (B_trans, C) \<Rightarrow> do {
         B_trans \<leftarrow> each [0..<32] (\<lambda>z B_trans. do { b \<leftarrow> rd B (i + z * 32); wr B_trans (i * 32 + z) b }) B_trans;
         C \<leftarrow> each (steps lo hi 2) (\<lambda>j C. do {
           acc_temp0 \<leftarrow> bo_sum A B_trans (j * 32) (i * 32);
           acc_temp1 \<leftarrow> bo_sum A B_trans (j * 32 + 32) (i * 32);
           C \<leftarrow> wr C (i + j * 32) acc_temp0;
           wr C (i + (j + 1) * 32) acc_temp1 }) C;
         Some (B_trans, C) }) = Some (T', X') \<and> length T' = 1024 \<and> length X' = L \<and>
         (\<forall>x < L. X' ! x = (if x \<in> cells 32 {lo..<hi} {i} then entry 32 A B x else X ! x))"
        unfolding prod.case T(1) Option.bind.simps X'(1) using T(2) X'(2,3) by blast
    qed
  qed
  moreover have "(\<Union>i \<in> set [0..<32]. cells 32 {lo..<hi} {i}) = cells 32 {lo..<hi} {0..<32}" by (auto simp: cells_def)
  ultimately show ?thesis by simp
qed

end
