(* ===== verification/Bench_Parallel.thy ===== *)
theory Bench_Parallel
  imports Bench_Harts Bench_Kernels Mt_Vvadd Mt_Overwrite
begin

text \<open>
  The parallel benchmarks \<open>mt-vvadd\<close> and \<open>mt-matmul\<close>: the kernels \<open>vvadd.c\<close> and \<open>matmul.c\<close> and the
  \<open>thread_entry\<close> that every hart runs. The data sets are parameters; \<open>data_t\<close> is \<open>double\<close> in the first,
  whose addition \<open>add\<close> and equality \<open>eq\<close> are parameters, and \<open>int\<close> in the second. The counters that
  \<open>stats\<close> reads and prints are left out.
\<close>

section \<open>The programs\<close>

definition copy_at :: "'a list \<Rightarrow> nat \<Rightarrow> 'a list \<Rightarrow> 'a list option" where
  "copy_at x i Z = do { a \<leftarrow> rd x i; wr Z i a }"

text \<open>The statements of \<open>vvadd.c\<close>, in the order of its loop\<close>

definition vvadd_statements :: "('a \<Rightarrow> 'a \<Rightarrow> 'a) \<Rightarrow> nat \<Rightarrow> nat \<Rightarrow> nat \<Rightarrow> 'a source \<Rightarrow> 'a list \<Rightarrow> 'a list instr list" where
  "vvadd_statements add coreid ncores n rdx y = map (\<lambda>i. Work (vv_at add rdx y i)) (steps coreid n ncores)"

definition vvadd_thread_entry :: "('a \<Rightarrow> 'a \<Rightarrow> 'a) \<Rightarrow> ('a \<Rightarrow> 'a \<Rightarrow> bool) \<Rightarrow> nat \<Rightarrow> 'a list \<Rightarrow> 'a list \<Rightarrow> 'a list \<Rightarrow> nat \<Rightarrow> nat \<Rightarrow> 'a list instr list" where
  "vvadd_thread_entry add eq n input1 input2 verify_data nc cid =
     [Barrier] @
     vvadd_statements add cid nc n (\<lambda>_. rd input1) input2 @ [Barrier] @
     (if cid = 0 then [Test (\<lambda>results. verifyDouble eq n results verify_data)] else []) @
     (if cid = 0 then map (\<lambda>i. Work (copy_at input1 i)) [0..<n] else []) @
     [Barrier] @
     vvadd_statements add cid nc n rd input2 @ [Barrier] @
     (if cid = 0 then [Test (\<lambda>results. verifyDouble eq n results verify_data)] else []) @
     [Barrier] @
     [Quit (\<lambda>_. Some 0)]"

text \<open>The inner loop of \<open>matmul.c\<close> and the store of its sum\<close>

definition matmul_cell :: "nat \<Rightarrow> s32 list \<Rightarrow> s32 list \<Rightarrow> nat \<times> nat \<Rightarrow> s32 list \<Rightarrow> s32 list option" where
  "matmul_cell lda A B = (\<lambda>(i, j) C. do {
     sum \<leftarrow> each [0..<lda] (\<lambda>k sum. do {
       a \<leftarrow> rd A (j * lda + k);
       b \<leftarrow> rd B (k * lda + i);
       Some (sum + a * b) }) 0;
     wr C (i + j * lda) sum })"

text \<open>The elements that a core computes, in the order of the two outer loops\<close>

definition matmul_cells :: "nat \<Rightarrow> nat \<Rightarrow> nat \<Rightarrow> (nat \<times> nat) list" where
  "matmul_cells coreid ncores lda = (let block = lda div ncores; start = block * coreid
     in List.product [0..<lda] [start..<start + block])"

definition matmul_thread_entry :: "nat \<Rightarrow> nat \<Rightarrow> s32 list \<Rightarrow> s32 list \<Rightarrow> s32 list \<Rightarrow> nat \<Rightarrow> nat \<Rightarrow> s32 list instr list" where
  "matmul_thread_entry array_size lda input1 input2 verify_data nc cid =
     map (\<lambda>p. Work (matmul_cell lda input1 input2 p)) (matmul_cells cid nc lda) @ [Barrier] @
     [Quit (\<lambda>results. verify array_size results verify_data)]"

section \<open>mt-vvadd in phases\<close>

definition vvadd_part :: "('a \<Rightarrow> 'a \<Rightarrow> 'a) \<Rightarrow> ('a \<Rightarrow> 'a \<Rightarrow> bool) \<Rightarrow> nat \<Rightarrow> 'a list \<Rightarrow> 'a list \<Rightarrow> 'a list \<Rightarrow> nat \<Rightarrow> nat \<Rightarrow> nat \<Rightarrow> 'a list instr list" where
  "vvadd_part add eq n x y expected nc p h =
    (if p = 1 then vvadd_statements add h nc n (\<lambda>_. rd x) y
     else if p = 2 then if h = 0 then Test (\<lambda>m. verifyDouble eq n m expected) # map (\<lambda>i. Work (copy_at x i)) [0..<n] else []
     else if p = 3 then vvadd_statements add h nc n rd y
     else if p = 4 then if h = 0 then [Test (\<lambda>m. verifyDouble eq n m expected)] else []
     else if p = 5 then [Quit (\<lambda>_. Some 0)] else [])"

lemma vvadd_thread_entry_parts:
  "vvadd_thread_entry add eq n x y expected nc = from_phase 6 (vvadd_part add eq n x y expected nc) 0"
  by (rule ext) (simp add: vvadd_thread_entry_def from_phase_def later_def vvadd_part_def upt_conv_Cons del: upt_Suc)

definition vvadd_accepted :: "('a \<Rightarrow> 'a \<Rightarrow> 'a) \<Rightarrow> ('a \<Rightarrow> 'a \<Rightarrow> bool) \<Rightarrow> nat \<Rightarrow> 'a list \<Rightarrow> 'a list \<Rightarrow> 'a list \<Rightarrow> nat \<Rightarrow> bool" where
  "vvadd_accepted add eq n x y expected r \<longleftrightarrow> verifyDouble eq n (map2 add x y) expected = Some r"

definition vvadd_asserted :: "('a \<Rightarrow> 'a \<Rightarrow> 'a) \<Rightarrow> ('a \<Rightarrow> 'a \<Rightarrow> bool) \<Rightarrow> nat \<Rightarrow> 'a list \<Rightarrow> 'a list \<Rightarrow> 'a list \<Rightarrow> 'a list \<Rightarrow> nat \<Rightarrow> nat \<Rightarrow> (nat \<Rightarrow> nat) \<Rightarrow> 'a list \<Rightarrow> bool" where
  "vvadd_asserted add eq n x y expected z nc p c m \<longleftrightarrow> 0 < nc \<and> length x = n \<and> length y = n \<and> length z = n \<and> n \<le> length expected \<and>
    (let sums = map2 add x y; D = done_cells nc (\<lambda>h. steps h n nc) c in
     if p = 0 then m = z
     else if p = 1 then half_done ((!) sums) z D m
     else if p = 2 then if c 0 = 0 then m = sums else vvadd_accepted add eq n x y expected 0 \<and> half_done ((!) x) sums {0..<c 0 - 1} m
     else vvadd_accepted add eq n x y expected 0 \<and>
       (if p = 3 then half_done ((!) sums) x D m else if p = 4 then m = sums else \<forall>h < nc. c h = 0))"

lemma shared_out_steps: "0 < nc \<Longrightarrow> shared_out nc (\<lambda>h. steps h n nc)"
proof -
  assume nc: "0 < nc"
  have s: "set (steps h n nc) = stride nc n h" if "h < nc" for h
    using splits_every[OF that, of n] by (auto simp: splits_def)
  show ?thesis unfolding shared_out_def using nc s by (auto simp: distinct_steps stride_def)
qed

lemma steps_all: "0 < nc \<Longrightarrow> (\<Union>h < nc. set (steps h n nc)) = {0..<n}"
proof -
  assume nc: "0 < nc"
  have "(\<Union>h < nc. set (steps h n nc)) = (\<Union>h < nc. stride nc n h)"
  proof (rule SUP_cong)
    fix h assume "h \<in> {..<nc}"
    then show "set (steps h n nc) = stride nc n h" using splits_every[of h nc n] by (auto simp: splits_def)
  qed simp
  then show ?thesis using nc by (auto simp: stride_def)
qed

lemma vvadd_statement:
  assumes "p < 6" "h < nc" "vvadd_asserted add eq n x y expected z nc p c m" "c h < length (vvadd_part add eq n x y expected nc p h)"
    and "\<forall>h' < nc. c h' \<le> length (vvadd_part add eq n x y expected nc p h')"
  shows "goes_well (vvadd_part add eq n x y expected nc p h ! c h) m
    (vvadd_asserted add eq n x y expected z nc p (c(h := Suc (c h)))) (vvadd_accepted add eq n x y expected)"
proof -
  let ?sums = "map2 add x y" and ?f = "\<lambda>h. steps h n nc"
  note a = assms(3)[unfolded vvadd_asserted_def Let_def]
  have l: "0 < nc" "length x = n" "length y = n" "length z = n" "n \<le> length expected" using a by simp_all
  have sum: "?sums ! i = add (x ! i) (y ! i)" if "i < n" for i using that l by simp
  have cell: "?f h ! c h < n \<and> ?f h ! c h \<notin> done_cells nc ?f c" if "p = 1 \<or> p = 3"
  proof -
    have c: "c h < length (?f h)" "\<forall>h' < nc. c h' \<le> length (?f h')" using assms(4,5) that by (auto simp: vvadd_part_def vvadd_statements_def)
    have "?f h ! c h \<in> (\<Union>h < nc. set (?f h))" using nth_mem[OF c(1)] assms(2) by blast
    then show ?thesis using steps_all[OF l(1), of n] done_cells_fresh[where f = ?f, OF shared_out_steps[OF l(1)] assms(2) c] by simp
  qed
  consider "p = 0" | "p = 1" | "p = 2" | "p = 3" | "p = 4" | "p = 5" using assms(1) by linarith
  then show ?thesis
  proof cases
    case 1 then show ?thesis using assms(4) by (simp add: vvadd_part_def)
  next
    case 2
    let ?i = "?f h ! c h"
    have h: "half_done ((!) ?sums) z (done_cells nc ?f c) m" using a 2 by simp
    have "vvadd_part add eq n x y expected nc p h ! c h = Work (vv_at add (\<lambda>_. rd x) y ?i)"
      using assms(4) 2 by (simp add: vvadd_part_def vvadd_statements_def)
    moreover have "vv_at add (\<lambda>_. rd x) y ?i m = Some (m[?i := ?sums ! ?i])"
      using cell 2 l h sum by (simp add: vv_at_def half_done_def)
    moreover have "half_done ((!) ?sums) z (done_cells nc ?f (c(h := Suc (c h)))) (m[?i := ?sums ! ?i])"
      unfolding done_cells_next[OF assms(2)] by (rule half_done_next[OF h]) (use cell 2 l in simp)
    ultimately show ?thesis using l 2 by (simp add: vvadd_asserted_def)
  next
    case 3
    then have h0: "h = 0" using assms(4) by (simp add: vvadd_part_def split: if_splits)
    show ?thesis
    proof (cases "c 0")
      case 0
      then have m: "m = ?sums" using a 3 by simp
      obtain r where r: "verifyDouble eq n m expected = Some r"
        using verifyDouble_returns[of n m expected eq] m l by auto
      then show ?thesis using 3 h0 0 l m by (simp add: vvadd_part_def vvadd_asserted_def vvadd_accepted_def half_done_none)
    next
      case (Suc t)
      then have h: "vvadd_accepted add eq n x y expected 0" "half_done ((!) x) ?sums {0..<t} m" using a 3 by simp_all
      have t: "t < n" using assms(4) 3 h0 Suc by (simp add: vvadd_part_def)
      have "copy_at x t m = Some (m[t := x ! t])" using t l h by (simp add: copy_at_def half_done_def)
      moreover have "half_done ((!) x) ?sums (insert t {0..<t}) (m[t := x ! t])" by (rule half_done_next[OF h(2)]) (use t l in simp)
      moreover have "insert t {0..<t} = {0..<Suc t}" by auto
      ultimately show ?thesis using 3 h0 Suc l h(1) t by (simp add: vvadd_part_def vvadd_asserted_def)
    qed
  next
    case 4
    let ?i = "?f h ! c h"
    have h: "vvadd_accepted add eq n x y expected 0" "half_done ((!) ?sums) x (done_cells nc ?f c) m" using a 4 by simp_all
    have "vvadd_part add eq n x y expected nc p h ! c h = Work (vv_at add rd y ?i)"
      using assms(4) 4 by (simp add: vvadd_part_def vvadd_statements_def)
    moreover have "m ! ?i = x ! ?i" "length m = n" using cell 4 l h(2) by (simp_all add: half_done_def)
    then have "vv_at add rd y ?i m = Some (m[?i := ?sums ! ?i])" using cell 4 l sum by (simp add: vv_at_def)
    moreover have "half_done ((!) ?sums) x (done_cells nc ?f (c(h := Suc (c h)))) (m[?i := ?sums ! ?i])"
      unfolding done_cells_next[OF assms(2)] by (rule half_done_next[OF h(2)]) (use cell 4 l in simp)
    ultimately show ?thesis using l 4 h(1) by (simp add: vvadd_asserted_def)
  next
    case 5
    then have "h = 0" "c 0 = 0" using assms(4) by (simp_all add: vvadd_part_def split: if_splits)
    moreover have "vvadd_accepted add eq n x y expected 0" "m = ?sums" using a 5 by simp_all
    ultimately show ?thesis using 5 l by (simp add: vvadd_part_def vvadd_asserted_def vvadd_accepted_def)
  next
    case 6
    then have "c h = 0" "vvadd_accepted add eq n x y expected 0" using a assms(2) by simp_all
    then show ?thesis using 6 by (simp add: vvadd_part_def)
  qed
qed

lemma vvadd_following:
  assumes "Suc p < 6" "vvadd_asserted add eq n x y expected z nc p c m" "\<forall>h < nc. c h = length (vvadd_part add eq n x y expected nc p h)"
  shows "vvadd_asserted add eq n x y expected z nc (Suc p) (\<lambda>h. 0) m"
proof -
  let ?sums = "map2 add x y" and ?f = "\<lambda>h. steps h n nc"
  note a = assms(2)[unfolded vvadd_asserted_def Let_def]
  have l: "0 < nc" "length x = n" "length y = n" "length z = n" "n \<le> length expected" using a by simp_all
  have D: "done_cells nc ?f c = {0..<n}" if "p = 1 \<or> p = 3"
    using done_cells_all[of nc c ?f] assms(3) that steps_all[OF l(1), of n] by (auto simp: vvadd_part_def vvadd_statements_def)
  consider "p = 0" | "p = 1" | "p = 2" | "p = 3" | "p = 4" using assms(1) by linarith
  then show ?thesis
  proof cases
    case 1 then show ?thesis using a by (simp add: vvadd_asserted_def half_done_none)
  next
    case 2
    then have "half_done ((!) ?sums) z {0..<n} m" using a D l by simp
    then have "m = ?sums" using half_done_all l by fastforce
    then show ?thesis using 2 l by (simp add: vvadd_asserted_def)
  next
    case 3
    then have "c 0 = Suc n" using assms(3) l(1) by (simp add: vvadd_part_def)
    then have "vvadd_accepted add eq n x y expected 0" "half_done ((!) x) ?sums {0..<n} m" using a 3 l by simp_all
    moreover from this(2) have "m = x" using half_done_all l by fastforce
    ultimately show ?thesis using 3 l by (simp add: vvadd_asserted_def half_done_none)
  next
    case 4
    then have "vvadd_accepted add eq n x y expected 0" "half_done ((!) ?sums) x {0..<n} m" using a D l by simp_all
    moreover from this(2) have "m = ?sums" using half_done_all l by fastforce
    ultimately show ?thesis using 4 l by (simp add: vvadd_asserted_def)
  next
    case 5 then show ?thesis using a by (simp add: vvadd_asserted_def)
  qed
qed

interpretation mt_vvadd: phases nc 6 "vvadd_part add eq n x y expected nc" "vvadd_asserted add eq n x y expected z nc" "vvadd_accepted add eq n x y expected"
  for nc add eq n x y expected z
proof unfold_locales
  show "0 < (6 :: nat)" by simp
  show "goes_well (vvadd_part add eq n x y expected nc p h ! c h) m
      (vvadd_asserted add eq n x y expected z nc p (c(h := Suc (c h)))) (vvadd_accepted add eq n x y expected)"
    if "p < 6" "h < nc" "vvadd_asserted add eq n x y expected z nc p c m" "c h < length (vvadd_part add eq n x y expected nc p h)"
      "\<forall>h' < nc. c h' \<le> length (vvadd_part add eq n x y expected nc p h')" for p h c m
    by (rule vvadd_statement[OF that])
  show "vvadd_asserted add eq n x y expected z nc (Suc p) (\<lambda>h. 0) m"
    if "Suc p < 6" "vvadd_asserted add eq n x y expected z nc p c m" "\<forall>h < nc. c h = length (vvadd_part add eq n x y expected nc p h)" for p c m
    by (rule vvadd_following[OF that])
  show "c h < length (vvadd_part add eq n x y expected nc (6 - 1) h)" if "vvadd_asserted add eq n x y expected z nc (6 - 1) c m" "h < nc" for c m h
    using that by (simp add: vvadd_asserted_def vvadd_part_def)
qed

section \<open>mt-matmul in phases\<close>

definition matmul_part :: "nat \<Rightarrow> nat \<Rightarrow> s32 list \<Rightarrow> s32 list \<Rightarrow> s32 list \<Rightarrow> nat \<Rightarrow> nat \<Rightarrow> nat \<Rightarrow> s32 list instr list" where
  "matmul_part N lda A B expected nc p h =
    (if p = 0 then map (\<lambda>q. Work (matmul_cell lda A B q)) (matmul_cells h nc lda)
     else if p = 1 then [Quit (\<lambda>m. verify N m expected)] else [])"

lemma matmul_thread_entry_parts:
  "matmul_thread_entry N lda A B expected nc = from_phase 2 (matmul_part N lda A B expected nc) 0"
  by (rule ext) (simp add: matmul_thread_entry_def from_phase_def later_def matmul_part_def upt_conv_Cons del: upt_Suc)

text \<open>The rows that the harts compute are those below the greatest multiple of their number.\<close>

definition matmul_out :: "nat \<Rightarrow> nat \<Rightarrow> s32 list \<Rightarrow> s32 list \<Rightarrow> s32 list \<Rightarrow> s32 list" where
  "matmul_out nc lda A B C = map (\<lambda>k. if k < lda div nc * nc * lda then product lda A B (k div lda) (k mod lda) else C ! k) [0..<length C]"

definition matmul_accepted :: "nat \<Rightarrow> nat \<Rightarrow> s32 list \<Rightarrow> s32 list \<Rightarrow> s32 list \<Rightarrow> s32 list \<Rightarrow> nat \<Rightarrow> nat \<Rightarrow> bool" where
  "matmul_accepted N lda A B expected C nc r \<longleftrightarrow> verify N (matmul_out nc lda A B C) expected = Some r"

definition flat_cells :: "nat \<Rightarrow> nat \<Rightarrow> nat \<Rightarrow> nat list" where
  "flat_cells lda nc h = map (\<lambda>(i, j). i + j * lda) (matmul_cells h nc lda)"

definition matmul_asserted :: "nat \<Rightarrow> nat \<Rightarrow> s32 list \<Rightarrow> s32 list \<Rightarrow> s32 list \<Rightarrow> s32 list \<Rightarrow> nat \<Rightarrow> nat \<Rightarrow> (nat \<Rightarrow> nat) \<Rightarrow> s32 list \<Rightarrow> bool" where
  "matmul_asserted N lda A B expected C nc p c m \<longleftrightarrow> 0 < nc \<and> lda * lda \<le> length A \<and> lda * lda \<le> length B \<and> lda * lda \<le> N \<and>
    length C = N \<and> N \<le> length expected \<and>
    (if p = 0 then half_done ((!) (matmul_out nc lda A B C)) C (done_cells nc (flat_cells lda nc) c) m
     else m = matmul_out nc lda A B C \<and> (\<forall>h < nc. c h = 0))"

lemma matmul_cells_iff:
  "(i, j) \<in> set (matmul_cells h nc lda) \<longleftrightarrow> i < lda \<and> lda div nc * h \<le> j \<and> j < lda div nc * h + lda div nc"
  by (auto simp: matmul_cells_def Let_def)

lemma matmul_rows: "h < nc \<Longrightarrow> j < lda div nc * h + lda div nc \<Longrightarrow> j < lda div nc * nc \<and> j < lda" for lda :: nat
proof -
  assume "h < nc" "j < lda div nc * h + lda div nc"
  moreover from this have "lda div nc * Suc h \<le> lda div nc * nc" by (intro mult_le_mono2) simp
  moreover have "lda div nc * nc \<le> lda" by (rule div_times_less_eq_dividend)
  moreover have "lda div nc * Suc h = lda div nc * h + lda div nc" by simp
  ultimately show ?thesis by linarith
qed

lemma flat_cells_shared: "shared_out nc (flat_cells lda nc)"
  unfolding shared_out_def
proof (intro conjI allI impI)
  fix h assume "h < nc"
  have "distinct (matmul_cells h nc lda)" by (simp add: matmul_cells_def Let_def distinct_product)
  moreover have "inj_on (\<lambda>(i, j). i + j * lda) (set (matmul_cells h nc lda))"
  proof (rule inj_onI, clarify)
    fix i j i' j' assume "(i, j) \<in> set (matmul_cells h nc lda)" "(i', j') \<in> set (matmul_cells h nc lda)" "i + j * lda = i' + j' * lda"
    then show "i = i' \<and> j = j'" unfolding matmul_cells_iff using index_eq[of i' lda i j j'] by blast
  qed
  ultimately show "distinct (flat_cells lda nc h)" by (simp add: flat_cells_def distinct_map)
next
  fix h h' assume h: "h < nc" "h' < nc" "h \<noteq> h'"
  show "set (flat_cells lda nc h) \<inter> set (flat_cells lda nc h') = {}"
  proof (rule equals0I)
    fix k assume "k \<in> set (flat_cells lda nc h) \<inter> set (flat_cells lda nc h')"
    then obtain i j i' j' where k: "(i, j) \<in> set (matmul_cells h nc lda)" "(i', j') \<in> set (matmul_cells h' nc lda)" "i + j * lda = i' + j' * lda"
      by (auto simp: flat_cells_def)
    then have j: "j = j'" unfolding matmul_cells_iff using index_eq[of i' lda i j j'] by blast
    have d: "u div b = v" if "b * v \<le> u" "u < b * v + b" for u b v :: nat
      by (rule div_nat_eqI) (use that in \<open>simp_all add: mult.commute\<close>)
    have "j div (lda div nc) = h" using k(1) unfolding matmul_cells_iff by (intro d) blast+
    moreover have "j' div (lda div nc) = h'" using k(2) unfolding matmul_cells_iff by (intro d) blast+
    ultimately show False using h(3) j by simp
  qed
qed

lemma flat_less: "i < n \<Longrightarrow> j < m \<Longrightarrow> i + j * n < m * n" for i :: nat
proof -
  assume "i < n" "j < m"
  then have "i + j * n < Suc j * n" "Suc j * n \<le> m * n" by (simp, intro mult_le_mono1, simp)
  then show ?thesis by linarith
qed

lemma flat_cells_all: "0 < nc \<Longrightarrow> (\<Union>h < nc. set (flat_cells lda nc h)) = {0..<lda div nc * nc * lda}"
proof (intro set_eqI iffI)
  fix k assume "k \<in> (\<Union>h < nc. set (flat_cells lda nc h))"
  then obtain h i j where k: "h < nc" "(i, j) \<in> set (matmul_cells h nc lda)" "k = i + j * lda" by (auto simp: flat_cells_def)
  then have "i < lda" "j < lda div nc * nc" using matmul_rows[OF k(1)] unfolding matmul_cells_iff by blast+
  then have "k < lda div nc * nc * lda" unfolding k(3) by (rule flat_less)
  then show "k \<in> {0..<lda div nc * nc * lda}" by simp
next
  fix k assume nc: "0 < nc" and "k \<in> {0..<lda div nc * nc * lda}"
  then have k: "k < lda div nc * nc * lda" "0 < lda" by (auto intro: gr0I)
  let ?j = "k div lda" and ?b = "lda div nc"
  have j: "?j < ?b * nc" using k by (simp add: div_less_iff_less_mult)
  then have b: "0 < ?b" by (auto intro: gr0I)
  let ?h = "?j div ?b"
  have h: "?h < nc" using j b by (simp add: div_less_iff_less_mult mult.commute)
  have "?b * ?h \<le> ?j" "?j < ?b * ?h + ?b" using b by (simp, metis add.commute mult.commute dividend_less_div_times)
  then have "(k mod lda, ?j) \<in> set (matmul_cells ?h nc lda)" using k(2) by (simp add: matmul_cells_iff)
  moreover have "k = k mod lda + ?j * lda" by simp
  ultimately have "k \<in> set (flat_cells lda nc ?h)" unfolding flat_cells_def by force
  then show "k \<in> (\<Union>h < nc. set (flat_cells lda nc h))" using h by blast
qed

lemma matmul_cell_product:
  assumes "i < lda" "j < lda" "lda * lda \<le> length A" "lda * lda \<le> length B" "lda * lda \<le> length C"
  shows "matmul_cell lda A B (i, j) C = Some (C[i + j * lda := product lda A B j i])"
proof -
  have b: "j * lda + k < lda * lda" "k * lda + i < lda * lda" if "k < lda" for k
    using square_index_less assms(1,2) that by blast+
  have "each [0..<lda] (\<lambda>k sum. do {
      a \<leftarrow> rd A (j * lda + k);
      b \<leftarrow> rd B (k * lda + i);
      Some (sum + a * b) }) 0 = Some (0 + sum_list (map (\<lambda>k. prod_term lda A B j k i) [0..<lda]))"
  proof (rule each_sum)
    fix k and acc :: s32 assume "k \<in> set [0..<lda]"
    then have "j * lda + k < length A" "k * lda + i < length B" using b[of k] assms(3,4) by auto
    then show "(do { a \<leftarrow> rd A (j * lda + k); b \<leftarrow> rd B (k * lda + i); Some (acc + a * b) }) = Some (acc + prod_term lda A B j k i)"
      by (simp add: prod_term_def)
  qed
  moreover have "i + j * lda < length C" using square_index_less[OF assms(2,1)] assms(5) by simp
  ultimately show ?thesis by (simp add: matmul_cell_def product_def tgt_upt atLeast0LessThan)
qed

lemma matmul_statement:
  assumes "p < 2" "h < nc" "matmul_asserted N lda A B expected C nc p c m" "c h < length (matmul_part N lda A B expected nc p h)"
    and "\<forall>h' < nc. c h' \<le> length (matmul_part N lda A B expected nc p h')"
  shows "goes_well (matmul_part N lda A B expected nc p h ! c h) m
    (matmul_asserted N lda A B expected C nc p (c(h := Suc (c h)))) (matmul_accepted N lda A B expected C nc)"
proof -
  let ?out = "matmul_out nc lda A B C" and ?f = "flat_cells lda nc"
  note a = assms(3)[unfolded matmul_asserted_def]
  have l: "0 < nc" "lda * lda \<le> length A" "lda * lda \<le> length B" "lda * lda \<le> N" "length C = N" "N \<le> length expected" using a by simp_all
  show ?thesis
  proof (cases "p = 0")
    case True
    have hd: "half_done ((!) ?out) C (done_cells nc ?f c) m" using a True by simp
    have c: "c h < length (matmul_cells h nc lda)" using assms(4) True by (simp add: matmul_part_def)
    obtain i j where ij: "matmul_cells h nc lda ! c h = (i, j)" by (metis surj_pair)
    then have r: "i < lda" "j < lda div nc * h + lda div nc" using nth_mem[OF c] by (simp_all add: matmul_cells_iff)
    have j: "j < lda div nc * nc" "j < lda" using matmul_rows[OF assms(2) r(2)] by simp_all
    let ?k = "i + j * lda"
    have k: "?k < lda div nc * nc * lda" using r(1) j(1) by (rule flat_less)
    have kN: "?k < N" using square_index_less[OF j(2) r(1)] l(4) by simp
    then have "?out ! ?k = product lda A B j i" using k r(1) l(5) by (simp add: matmul_out_def)
    then have "matmul_cell lda A B (i, j) m = Some (m[?k := ?out ! ?k])"
      using matmul_cell_product[OF r(1) j(2) l(2,3), of m] l(4,5) hd by (simp add: half_done_def)
    moreover have "?f h ! c h = ?k" using c ij by (simp add: flat_cells_def)
    then have "half_done ((!) ?out) C (done_cells nc ?f (c(h := Suc (c h)))) (m[?k := ?out ! ?k])"
      unfolding done_cells_next[OF assms(2)] using half_done_next[OF hd, of ?k] kN l(5) by simp
    ultimately show ?thesis using True c ij l by (simp add: matmul_part_def matmul_asserted_def)
  next
    case False
    then have p: "p = 1" using assms(1) by simp
    then have m: "m = ?out" "c h = 0" using a assms(2) by simp_all
    obtain r where "verify N ?out expected = Some r"
      using verify_returns[of N ?out expected] l by (auto simp: matmul_out_def)
    then show ?thesis using p m by (simp add: matmul_part_def matmul_accepted_def)
  qed
qed

lemma matmul_following:
  assumes "Suc p < 2" "matmul_asserted N lda A B expected C nc p c m" "\<forall>h < nc. c h = length (matmul_part N lda A B expected nc p h)"
  shows "matmul_asserted N lda A B expected C nc (Suc p) (\<lambda>h. 0) m"
proof -
  let ?out = "matmul_out nc lda A B C"
  have p: "p = 0" using assms(1) by simp
  note a = assms(2)[unfolded matmul_asserted_def p]
  have "\<forall>h < nc. c h = length (flat_cells lda nc h)" using assms(3) p by (simp add: matmul_part_def flat_cells_def)
  then have "half_done ((!) ?out) C {0..<lda div nc * nc * lda} m" using a done_cells_all flat_cells_all[of nc lda] by metis
  then have "m = ?out" by (intro nth_equalityI) (auto simp: half_done_def matmul_out_def)
  then show ?thesis using a p by (simp add: matmul_asserted_def)
qed

interpretation mt_matmul: phases nc 2 "matmul_part N lda A B expected nc" "matmul_asserted N lda A B expected C nc" "matmul_accepted N lda A B expected C nc"
  for nc N lda A B expected C
proof unfold_locales
  show "0 < (2 :: nat)" by simp
  show "goes_well (matmul_part N lda A B expected nc p h ! c h) m
      (matmul_asserted N lda A B expected C nc p (c(h := Suc (c h)))) (matmul_accepted N lda A B expected C nc)"
    if "p < 2" "h < nc" "matmul_asserted N lda A B expected C nc p c m" "c h < length (matmul_part N lda A B expected nc p h)"
      "\<forall>h' < nc. c h' \<le> length (matmul_part N lda A B expected nc p h')" for p h c m
    by (rule matmul_statement[OF that])
  show "matmul_asserted N lda A B expected C nc (Suc p) (\<lambda>h. 0) m"
    if "Suc p < 2" "matmul_asserted N lda A B expected C nc p c m" "\<forall>h < nc. c h = length (matmul_part N lda A B expected nc p h)" for p c m
    by (rule matmul_following[OF that])
  show "c h < length (matmul_part N lda A B expected nc (2 - 1) h)" if "matmul_asserted N lda A B expected C nc (2 - 1) c m" "h < nc" for c m h
    using that by (simp add: matmul_asserted_def matmul_part_def)
qed

section \<open>The properties\<close>

text \<open>
  C1. \<open>mt-vvadd\<close>, run by any number of harts below 2^31 in any fair order of their turns: every access
  stays within the arrays, some hart calls \<open>exit\<close>, and the exit code is what \<open>verifyDouble\<close> says of the
  sums of the two arrays, for the run into the third array and, if that is right, the one in place.
\<close>

theorem mt_vvadd_exits:
  assumes "fair nc s" "0 < nc" "nc < 2 ^ 31" "length x = n" "length y = n" "length z = n" "n \<le> length expected"
  shows "(\<forall>k. \<exists>st. turns nc s (power_up (vvadd_thread_entry add eq n x y expected nc) z) k = Some st \<and>
      (\<forall>r. exited st = Some r \<longrightarrow> verifyDouble eq n (map2 add x y) expected = Some r)) \<and>
    (\<exists>k st r. turns nc s (power_up (vvadd_thread_entry add eq n x y expected nc) z) k = Some st \<and>
      exited st = Some r \<and> verifyDouble eq n (map2 add x y) expected = Some r)"
proof -
  have a: "vvadd_asserted add eq n x y expected z nc 0 (\<lambda>h. 0) z" using assms by (simp add: vvadd_asserted_def)
  show ?thesis
    using mt_vvadd.fair_in_bounds[OF assms(1-3) a] mt_vvadd.fair_exits[OF assms(1-3) a]
    unfolding mt_vvadd.powered_def vvadd_thread_entry_parts vvadd_accepted_def by blast
qed

theorem mt_vvadd_exits_witness:
  "\<exists>k st. turns 2 (\<lambda>k. k mod 2) (power_up (vvadd_thread_entry (+) (=) 3 [1, 2, 3] [4, 5, 6 :: int] [5, 7, 8] 2) [0, 0, 0]) k = Some st \<and>
    exited st = Some 3"
proof -
  have v: "verifyDouble (=) 3 (map2 (+) [1, 2, 3] [4, 5, 6 :: int]) [5, 7, 8] = Some 3"
    by (simp add: verifyDouble_def verify_double_from.simps)
  have "\<exists>k st r. turns 2 (\<lambda>k. k mod 2) (power_up (vvadd_thread_entry (+) (=) 3 [1, 2, 3] [4, 5, 6 :: int] [5, 7, 8] 2) [0, 0, 0]) k = Some st \<and>
      exited st = Some r \<and> verifyDouble (=) 3 (map2 (+) [1, 2, 3] [4, 5, 6 :: int]) [5, 7, 8] = Some r"
    by (rule mt_vvadd_exits[THEN conjunct2]) (simp_all add: fair_round_robin)
  then show ?thesis unfolding v by auto
qed

text \<open>
  C12. \<open>mt-matmul\<close>, run by any number of harts below 2^31 in any fair order of their turns: every access
  stays within the arrays, some hart calls \<open>exit\<close>, and the exit code is what \<open>verify\<close> says of the product
  of the matrices, except for the rows from the greatest multiple of the number of harts on, which no
  hart computes.
\<close>

theorem mt_matmul_exits:
  assumes "fair nc s" "0 < nc" "nc < 2 ^ 31" "lda * lda \<le> length A" "lda * lda \<le> length B" "lda * lda \<le> N"
    and "length z = N" "N \<le> length expected"
    and "out = map (\<lambda>k. if k < lda div nc * nc * lda then product lda A B (k div lda) (k mod lda) else z ! k) [0..<N]"
  shows "(\<forall>k. \<exists>st. turns nc s (power_up (matmul_thread_entry N lda A B expected nc) z) k = Some st \<and>
      (\<forall>r. exited st = Some r \<longrightarrow> verify N out expected = Some r)) \<and>
    (\<exists>k st r. turns nc s (power_up (matmul_thread_entry N lda A B expected nc) z) k = Some st \<and>
      exited st = Some r \<and> verify N out expected = Some r)"
proof -
  have a: "matmul_asserted N lda A B expected z nc 0 (\<lambda>h. 0) z" using assms(2-8) by (simp add: matmul_asserted_def half_done_none)
  have o: "out = matmul_out nc lda A B z" using assms(7,9) by (simp add: matmul_out_def)
  show ?thesis
    using mt_matmul.fair_in_bounds[OF assms(1-3) a] mt_matmul.fair_exits[OF assms(1-3) a]
    unfolding mt_matmul.powered_def matmul_thread_entry_parts matmul_accepted_def o by blast
qed

theorem mt_matmul_exits_witness:
  "\<exists>k st. turns 2 (\<lambda>k. k mod 2) (power_up (matmul_thread_entry 4 2 [1, 2, 3, 4] [5, 6, 7, 8] [19, 22, 43, 50] 2) [0, 0, 0, 0]) k = Some st \<and>
    exited st = Some 0"
proof -
  let ?A = "[1, 2, 3, 4] :: s32 list" and ?B = "[5, 6, 7, 8] :: s32 list" and ?E = "[19, 22, 43, 50] :: s32 list"
  let ?out = "map (\<lambda>k. if k < 2 div 2 * 2 * 2 then product 2 ?A ?B (k div 2) (k mod 2) else [0, 0, 0, 0] ! k) [0..<4]"
  have "?out = ?E" by (simp add: upt_rec product_def prod_term_def lessThan_nat_numeral lessThan_Suc)
  then have v: "verify 4 ?out ?E = Some 0" by (simp add: verify_zero)
  have "\<exists>k st r. turns 2 (\<lambda>k. k mod 2) (power_up (matmul_thread_entry 4 2 ?A ?B ?E 2) [0, 0, 0, 0]) k = Some st \<and>
      exited st = Some r \<and> verify 4 ?out ?E = Some r"
    by (rule mt_matmul_exits[THEN conjunct2]) (simp_all add: fair_round_robin)
  then show ?thesis unfolding v by auto
qed

end
