(* ===== verification/Bench_Towers.thy ===== *)
theory Bench_Towers
  imports C_Loops
begin

text \<open>
  The towers of Hanoi benchmark \<open>towers_main.c\<close>: linked lists of nodes from a static pool, the three
  pegs, the recursive solution and its verification. A pointer to a node is its index in the pool.
\<close>

section \<open>Lists\<close>

record node =
  val :: s32
  next_node :: "nat option"

record node_list =
  list_size :: s32
  head :: "nat option"

text \<open>The four lists of the program: the free list and the pegs.\<close>

datatype list_name = FreeList | PegA | PegB | PegC

record towers =
  pool :: "node list"
  list_of :: "list_name \<Rightarrow> node_list"
  numDiscs :: s32
  numMoves :: s32

definition set_list :: "list_name \<Rightarrow> node_list \<Rightarrow> towers \<Rightarrow> towers" where
  "set_list l v st = st\<lparr>list_of := (list_of st)(l := v)\<rparr>"

definition list_getSize :: "list_name \<Rightarrow> towers \<Rightarrow> s32" where
  "list_getSize l st = list_size (list_of st l)"

definition list_init :: "list_name \<Rightarrow> towers \<Rightarrow> towers" where
  "list_init l st = set_list l \<lparr>list_size = 0, head = None\<rparr> st"

definition list_push :: "list_name \<Rightarrow> s32 \<Rightarrow> towers \<Rightarrow> towers option" where
  "list_push l v st = do {
     newNode \<leftarrow> head (list_of st FreeList);
     n \<leftarrow> rd (pool st) newNode;
     let st = set_list FreeList ((list_of st FreeList)\<lparr>head := next_node n\<rparr>) st;
     p \<leftarrow> wr (pool st) newNode (n\<lparr>next_node := head (list_of st l)\<rparr>);
     let st = set_list l ((list_of st l)\<lparr>head := Some newNode\<rparr>) (st\<lparr>pool := p\<rparr>);
     n \<leftarrow> rd (pool st) newNode;
     p \<leftarrow> wr (pool st) newNode (n\<lparr>val := v\<rparr>);
     let st = st\<lparr>pool := p\<rparr>;
     Some (set_list l ((list_of st l)\<lparr>list_size := list_size (list_of st l) + 1\<rparr>) st) }"

definition list_pop :: "list_name \<Rightarrow> towers \<Rightarrow> (s32 \<times> towers) option" where
  "list_pop l st = do {
     freedNode \<leftarrow> head (list_of st l);
     n \<leftarrow> rd (pool st) freedNode;
     let st = set_list l ((list_of st l)\<lparr>head := next_node n\<rparr>) st;
     p \<leftarrow> wr (pool st) freedNode (n\<lparr>next_node := head (list_of st FreeList)\<rparr>);
     let st = set_list FreeList ((list_of st FreeList)\<lparr>head := Some freedNode\<rparr>) (st\<lparr>pool := p\<rparr>);
     Some (val n, set_list l ((list_of st l)\<lparr>list_size := list_size (list_of st l) - 1\<rparr>) st) }"

partial_function (option) list_clear :: "list_name \<Rightarrow> towers \<Rightarrow> towers option" where
  "list_clear l st =
    (if sint (list_getSize l st) > 0 then do {
       r \<leftarrow> list_pop l st;
       list_clear l (snd r) }
     else Some st)"

section \<open>Towers\<close>

definition towers_init :: "nat \<Rightarrow> towers \<Rightarrow> towers option" where
  "towers_init n st = (
     let st = st\<lparr>numDiscs := of_nat n, numMoves := 0\<rparr>;
         st = list_init PegC (list_init PegB (list_init PegA st))
     in for_range 0 n (\<lambda>i st. list_push PegA (of_nat (n - i)) st) st)"

definition towers_clear :: "towers \<Rightarrow> towers option" where
  "towers_clear st = do {
     st \<leftarrow> list_clear PegA st;
     st \<leftarrow> list_clear PegB st;
     st \<leftarrow> list_clear PegC st;
     towers_init (unat (numDiscs st)) st }"

definition move :: "list_name \<Rightarrow> list_name \<Rightarrow> towers \<Rightarrow> towers option" where
  "move startPeg destPeg st = do {
     (v, st) \<leftarrow> list_pop startPeg st;
     st \<leftarrow> list_push destPeg v st;
     Some (st\<lparr>numMoves := numMoves st + 1\<rparr>) }"

text \<open>The recursion never ends for a number of discs below one.\<close>

fun towers_solve_h :: "nat \<Rightarrow> list_name \<Rightarrow> list_name \<Rightarrow> list_name \<Rightarrow> towers \<Rightarrow> towers option" where
  "towers_solve_h 0 startPeg tempPeg destPeg st = None"
| "towers_solve_h (Suc n) startPeg tempPeg destPeg st =
    (if n = 0 then move startPeg destPeg st
     else do {
       st \<leftarrow> towers_solve_h n startPeg destPeg tempPeg st;
       st \<leftarrow> move startPeg destPeg st;
       towers_solve_h n tempPeg startPeg destPeg st })"

definition towers_solve :: "towers \<Rightarrow> towers option" where
  "towers_solve st = towers_solve_h (unat (numDiscs st)) PegA PegB PegC st"

partial_function (option) verify_discs :: "node list \<Rightarrow> nat option \<Rightarrow> s32 \<Rightarrow> bool option" where
  "verify_discs p ptr n = (case ptr of None \<Rightarrow> Some True
   | Some i \<Rightarrow> do {
       d \<leftarrow> rd p i;
       if val d \<noteq> n + 1 then Some False else verify_discs p (next_node d) (n + 1) })"

definition towers_verify :: "towers \<Rightarrow> nat option" where
  "towers_verify st =
    (if list_getSize PegA st \<noteq> 0 then Some 2
     else if list_getSize PegB st \<noteq> 0 then Some 3
     else if list_getSize PegC st \<noteq> numDiscs st then Some 4
     else do {
       ok \<leftarrow> verify_discs (pool st) (head (list_of st PegC)) 0;
       if \<not> ok then Some 5
       else if numMoves st \<noteq> push_bit (unat (numDiscs st)) 1 - 1 then Some 6
       else Some 0 })"

definition NUM_DISCS :: nat where
  "NUM_DISCS = 7"

definition init_free_list :: "towers \<Rightarrow> towers option" where
  "init_free_list st = do {
     let st = list_init FreeList st;
     let st = set_list FreeList \<lparr>list_size = of_nat NUM_DISCS, head = Some 0\<rparr> st;
     p \<leftarrow> wr (pool st) (NUM_DISCS - 1) \<lparr>val = 99, next_node = None\<rparr>;
     p \<leftarrow> for_range 0 (NUM_DISCS - 1) (\<lambda>i p. wr p i \<lparr>val = of_nat i, next_node = Some (i + 1)\<rparr>) p;
     Some (st\<lparr>pool := p\<rparr>) }"

definition towers_main :: "bool \<Rightarrow> towers \<Rightarrow> nat option" where
  "towers_main PREALLOCATE st = do {
     st \<leftarrow> init_free_list st;
     st \<leftarrow> towers_init NUM_DISCS st;
     st \<leftarrow> (if PREALLOCATE then towers_solve st else Some st);
     st \<leftarrow> towers_clear st;
     st \<leftarrow> towers_solve st;
     towers_verify st }"

section \<open>What the lists hold\<close>

fun chain :: "node list \<Rightarrow> nat option \<Rightarrow> nat list \<Rightarrow> bool" where
  "chain p ptr [] = (ptr = None)"
| "chain p ptr (i # ns) = (ptr = Some i \<and> i < length p \<and> chain p (next_node (p ! i)) ns)"

text \<open>The nodes \<open>f l\<close> of the list \<open>l\<close>, and the contents \<open>P l\<close>\<close>

definition linked :: "towers \<Rightarrow> (list_name \<Rightarrow> nat list) \<Rightarrow> bool" where
  "linked st f \<longleftrightarrow> (\<forall>l. chain (pool st) (head (list_of st l)) (f l)) \<and> (\<forall>l. distinct (f l)) \<and>
    (\<forall>l m. l \<noteq> m \<longrightarrow> set (f l) \<inter> set (f m) = {}) \<and>
    (\<forall>l. l \<noteq> FreeList \<longrightarrow> list_size (list_of st l) = of_nat (length (f l)))"

definition holds :: "towers \<Rightarrow> (list_name \<Rightarrow> s32 list) \<Rightarrow> bool" where
  "holds st P \<longleftrightarrow> (\<exists>f. linked st f \<and> (\<forall>l. P l = map (\<lambda>i. val (pool st ! i)) (f l)))"

lemma chain_update: "chain p ptr ns \<Longrightarrow> i \<notin> set ns \<Longrightarrow> chain (p[i := n]) ptr ns"
  by (induction ns arbitrary: ptr) auto

lemma holds_pop:
  assumes "holds st P" "P l = v # vs" "l \<noteq> FreeList"
  shows "\<exists>st'. list_pop l st = Some (v, st') \<and> holds st' (P(l := vs, FreeList := v # P FreeList)) \<and>
    numMoves st' = numMoves st \<and> numDiscs st' = numDiscs st"
proof -
  obtain f where f: "linked st f" "\<And>l. P l = map (\<lambda>i. val (pool st ! i)) (f l)" using assms(1) by (auto simp: holds_def)
  obtain i ns where fl: "f l = i # ns" "v = val (pool st ! i)" "vs = map (\<lambda>i. val (pool st ! i)) ns"
    using f(2)[of l] assms(2) by (cases "f l") auto
  have c: "\<And>m. chain (pool st) (head (list_of st m)) (f m)" and d: "\<And>m. distinct (f m)"
    and s: "\<And>m k. m \<noteq> k \<Longrightarrow> set (f m) \<inter> set (f k) = {}" and z: "\<And>m. m \<noteq> FreeList \<Longrightarrow> list_size (list_of st m) = of_nat (length (f m))"
    using f(1) unfolding linked_def by blast+
  have i: "head (list_of st l) = Some i" "i < length (pool st)" "chain (pool st) (next_node (pool st ! i)) ns" "i \<notin> set ns"
    using c[of l] d[of l] fl by simp_all
  have o: "i \<notin> set (f m)" if "m \<noteq> l" for m using s[OF that] fl by auto
  let ?p = "(pool st)[i := (pool st ! i)\<lparr>next_node := head (list_of st FreeList)\<rparr>]"
  let ?st = "set_list l ((list_of st l)\<lparr>head := next_node (pool st ! i), list_size := list_size (list_of st l) - 1\<rparr>)
    (set_list FreeList ((list_of st FreeList)\<lparr>head := Some i\<rparr>) (st\<lparr>pool := ?p\<rparr>))"
  have "list_pop l st = Some (v, ?st)"
    using i assms(3) fl(2) by (auto simp: list_pop_def set_list_def Let_def fun_eq_iff)
  moreover have "linked ?st (f(l := ns, FreeList := i # f FreeList))"
    unfolding linked_def
  proof (intro conjI allI impI)
    fix m
    show "chain (pool ?st) (head (list_of ?st m)) ((f(l := ns, FreeList := i # f FreeList)) m)"
      using i c[of m] c[of FreeList] o[of m] o[of FreeList] assms(3) by (auto simp: set_list_def intro!: chain_update)
    show "distinct ((f(l := ns, FreeList := i # f FreeList)) m)"
      using d[of m] d[of l] d[of FreeList] o[of FreeList] assms(3) fl by auto
    show "list_size (list_of ?st m) = of_nat (length ((f(l := ns, FreeList := i # f FreeList)) m))" if "m \<noteq> FreeList"
      using z[of m] z[of l] that assms(3) fl by (auto simp: set_list_def)
    fix k assume "m \<noteq> k"
    then show "set ((f(l := ns, FreeList := i # f FreeList)) m) \<inter> set ((f(l := ns, FreeList := i # f FreeList)) k) = {}"
      using s[of m k] s[of l m] s[of l k] s[of FreeList m] s[of FreeList k] s[of l FreeList] o[of m] o[of k] i(4) fl assms(3) by auto
  qed
  moreover have "(P(l := vs, FreeList := v # P FreeList)) m =
      map (\<lambda>i. val (pool ?st ! i)) ((f(l := ns, FreeList := i # f FreeList)) m)" for m
    using f(2)[of m] f(2)[of FreeList] fl(2,3) i(2) assms(3) by (auto simp: set_list_def nth_list_update)
  ultimately show ?thesis by (auto simp: holds_def set_list_def)
qed

lemma holds_push:
  assumes "holds st P" "P FreeList = x # xs" "l \<noteq> FreeList"
  shows "\<exists>st'. list_push l v st = Some st' \<and> holds st' (P(FreeList := xs, l := v # P l)) \<and>
    numMoves st' = numMoves st \<and> numDiscs st' = numDiscs st"
proof -
  obtain f where f: "linked st f" "\<And>l. P l = map (\<lambda>i. val (pool st ! i)) (f l)" using assms(1) by (auto simp: holds_def)
  obtain i ns where fl: "f FreeList = i # ns" "xs = map (\<lambda>i. val (pool st ! i)) ns"
    using f(2)[of FreeList] assms(2) by (cases "f FreeList") auto
  have c: "\<And>m. chain (pool st) (head (list_of st m)) (f m)" and d: "\<And>m. distinct (f m)"
    and s: "\<And>m k. m \<noteq> k \<Longrightarrow> set (f m) \<inter> set (f k) = {}" and z: "\<And>m. m \<noteq> FreeList \<Longrightarrow> list_size (list_of st m) = of_nat (length (f m))"
    using f(1) unfolding linked_def by blast+
  have i: "head (list_of st FreeList) = Some i" "i < length (pool st)" "chain (pool st) (next_node (pool st ! i)) ns" "i \<notin> set ns"
    using c[of FreeList] d[of FreeList] fl by simp_all
  have o: "i \<notin> set (f m)" if "m \<noteq> FreeList" for m using s[OF that] fl by auto
  let ?p = "(pool st)[i := \<lparr>val = v, next_node = head (list_of st l)\<rparr>]"
  let ?st = "set_list l ((list_of st l)\<lparr>head := Some i, list_size := list_size (list_of st l) + 1\<rparr>)
    (set_list FreeList ((list_of st FreeList)\<lparr>head := next_node (pool st ! i)\<rparr>) (st\<lparr>pool := ?p\<rparr>))"
  have e: "(pool st ! i)\<lparr>next_node := h, val := v\<rparr> = \<lparr>val = v, next_node = h\<rparr>" for h by (cases "pool st ! i") simp
  have "list_push l v st = Some ?st"
    using i assms(3) by (auto simp: e list_push_def set_list_def Let_def fun_eq_iff)
  moreover have "linked ?st (f(FreeList := ns, l := i # f l))"
    unfolding linked_def
  proof (intro conjI allI impI)
    fix m
    show "chain (pool ?st) (head (list_of ?st m)) ((f(FreeList := ns, l := i # f l)) m)"
      using i c[of m] c[of l] o[of m] o[of l] assms(3) by (auto simp: set_list_def intro!: chain_update)
    show "distinct ((f(FreeList := ns, l := i # f l)) m)"
      using d[of m] d[of l] d[of FreeList] o[of l] assms(3) fl by auto
    show "list_size (list_of ?st m) = of_nat (length ((f(FreeList := ns, l := i # f l)) m))" if "m \<noteq> FreeList"
      using z[of m] z[of l] that assms(3) fl by (auto simp: set_list_def)
    fix k assume "m \<noteq> k"
    then show "set ((f(FreeList := ns, l := i # f l)) m) \<inter> set ((f(FreeList := ns, l := i # f l)) k) = {}"
      using s[of m k] s[of l m] s[of l k] s[of FreeList m] s[of FreeList k] s[of l FreeList] o[of m] o[of k] i(4) fl assms(3) by auto
  qed
  moreover have "(P(FreeList := xs, l := v # P l)) m = map (\<lambda>i. val (pool ?st ! i)) ((f(FreeList := ns, l := i # f l)) m)" for m
    using f(2)[of m] f(2)[of l] fl(2) i(2,4) o[of m] o[of l] assms(3) by (auto simp: set_list_def nth_list_update)
  ultimately show ?thesis by (auto simp: holds_def set_list_def)
qed

lemma holds_move:
  assumes "holds st P" "P s = v # vs" "s \<noteq> FreeList" "d \<noteq> FreeList" "s \<noteq> d"
  shows "\<exists>st'. move s d st = Some st' \<and> holds st' (P(s := vs, d := v # P d)) \<and>
    numMoves st' = numMoves st + 1 \<and> numDiscs st' = numDiscs st"
proof -
  obtain st1 where 1: "list_pop s st = Some (v, st1)" "holds st1 (P(s := vs, FreeList := v # P FreeList))"
    "numMoves st1 = numMoves st" "numDiscs st1 = numDiscs st" using holds_pop[OF assms(1-3)] by blast
  obtain st2 where 2: "list_push d v st1 = Some st2"
    "holds st2 (P(s := vs, FreeList := v # P FreeList, FreeList := P FreeList, d := v # (P(s := vs, FreeList := v # P FreeList)) d))"
    "numMoves st2 = numMoves st1" "numDiscs st2 = numDiscs st1"
    using holds_push[OF 1(2) _ assms(4), of v "P FreeList" v] by auto
  have "P(s := vs, FreeList := v # P FreeList, FreeList := P FreeList, d := v # (P(s := vs, FreeList := v # P FreeList)) d) =
    P(s := vs, d := v # P d)" using assms(3-5) by auto
  then have "holds st2 (P(s := vs, d := v # P d))" using 2(2) by simp
  then have "holds (st2\<lparr>numMoves := numMoves st2 + 1\<rparr>) (P(s := vs, d := v # P d))" by (simp add: holds_def linked_def)
  then show ?thesis using 1 2 by (simp add: move_def)
qed

section \<open>The solution\<close>

text \<open>A move puts a disc on an empty peg or on a larger disc.\<close>

definition top_disc :: "list_name \<Rightarrow> towers \<Rightarrow> s32 option" where
  "top_disc l st = (case head (list_of st l) of None \<Rightarrow> None | Some i \<Rightarrow> Some (val (pool st ! i)))"

definition allowed :: "list_name \<Rightarrow> list_name \<Rightarrow> towers \<Rightarrow> bool" where
  "allowed s d st \<longleftrightarrow> (case top_disc s st of None \<Rightarrow> False
     | Some v \<Rightarrow> (case top_disc d st of None \<Rightarrow> True | Some w \<Rightarrow> sint v < sint w))"

text \<open>\<open>played ms st st'\<close>: the moves \<open>ms\<close>, each of them allowed, lead from \<open>st\<close> to \<open>st'\<close>.\<close>

inductive played :: "(list_name \<times> list_name) list \<Rightarrow> towers \<Rightarrow> towers \<Rightarrow> bool" where
  nothing: "played [] st st"
| one: "allowed s d st \<Longrightarrow> move s d st = Some st1 \<Longrightarrow> played ms st1 st2 \<Longrightarrow> played ((s, d) # ms) st st2"

lemma played_append: "played ms st st1 \<Longrightarrow> played ms' st1 st2 \<Longrightarrow> played (ms @ ms') st st2"
  by (induction rule: played.induct) (auto intro: played.intros)

lemma holds_top: "holds st P \<Longrightarrow> top_disc l st = (case P l of [] \<Rightarrow> None | v # _ \<Rightarrow> Some v)"
proof -
  assume "holds st P"
  then obtain f where "chain (pool st) (head (list_of st l)) (f l)" "P l = map (\<lambda>i. val (pool st ! i)) (f l)"
    unfolding holds_def linked_def by blast
  then show ?thesis by (cases "f l") (simp_all add: top_disc_def)
qed

lemma holds_allowed: "holds st P \<Longrightarrow> P s = v # vs \<Longrightarrow> \<forall>w \<in> set (P d). sint v < sint w \<Longrightarrow> allowed s d st"
  by (simp add: allowed_def holds_top split: list.split)

definition ascending :: "s32 list \<Rightarrow> bool" where
  "ascending vs \<longleftrightarrow> sorted_wrt (\<lambda>v w. sint v < sint w) vs"

lemma solve_moves:
  assumes "holds st P" "P s = vs @ rest" "length vs = n" "0 < n" "ascending vs"
    and "s \<noteq> FreeList" "t \<noteq> FreeList" "d \<noteq> FreeList" "s \<noteq> t" "s \<noteq> d" "t \<noteq> d"
    and "\<forall>v \<in> set vs. \<forall>w \<in> set (P t) \<union> set (P d) \<union> set rest. sint v < sint w"
  shows "\<exists>st' ms. towers_solve_h n s t d st = Some st' \<and> played ms st st' \<and> length ms = 2 ^ n - 1 \<and>
    holds st' (P(s := rest, d := vs @ P d)) \<and> numMoves st' = numMoves st + of_nat (2 ^ n - 1) \<and> numDiscs st' = numDiscs st"
  using assms
proof (induction n arbitrary: st P vs rest s t d)
  case 0 then show ?case by simp
next
  case (Suc n)
  obtain us v where vs: "vs = us @ [v]" "length us = n" using Suc.prems(3) by (metis length_Suc_conv_rev)
  show ?case
  proof (cases "n = 0")
    case True
    then have v: "P s = v # rest" "vs = [v]" using Suc.prems(2) vs by simp_all
    obtain st' where m: "move s d st = Some st'" "holds st' (P(s := rest, d := v # P d))" "numMoves st' = numMoves st + 1"
      "numDiscs st' = numDiscs st" using holds_move[OF Suc.prems(1) v(1) Suc.prems(6,8,10)] by blast
    have "allowed s d st" by (rule holds_allowed[OF Suc.prems(1) v(1)]) (use Suc.prems(12) v(2) in simp)
    then have "played [(s, d)] st st'" using m(1) by (blast intro: played.intros)
    then show ?thesis using m True v(2) by (intro exI[of _ st'] exI[of _ "[(s, d)]"]) (simp del: fun_upd_apply)
  next
    case False
    then have n: "0 < n" by simp
    have a: "ascending us" "\<forall>u \<in> set us. sint u < sint v" using Suc.prems(5) vs by (simp_all add: ascending_def sorted_wrt_append)
    have "\<exists>st' ms. towers_solve_h n s d t st = Some st' \<and> played ms st st' \<and> length ms = 2 ^ n - 1 \<and>
      holds st' (P(s := v # rest, t := us @ P t)) \<and> numMoves st' = numMoves st + of_nat (2 ^ n - 1) \<and> numDiscs st' = numDiscs st"
      by (rule Suc.IH) (use Suc.prems vs n a in \<open>auto dest: not_sym\<close>)
    then obtain st1 m1 where 1: "towers_solve_h n s d t st = Some st1" "played m1 st st1" "length m1 = 2 ^ n - 1"
      "holds st1 (P(s := v # rest, t := us @ P t))" "numMoves st1 = numMoves st + of_nat (2 ^ n - 1)" "numDiscs st1 = numDiscs st" by blast
    let ?P1 = "P(s := v # rest, t := us @ P t)"
    have s1: "?P1 s = v # rest" using Suc.prems(9) by simp
    obtain st2 where 2: "move s d st1 = Some st2" "holds st2 (?P1(s := rest, d := v # ?P1 d))" "numMoves st2 = numMoves st1 + 1"
      "numDiscs st2 = numDiscs st1" using holds_move[OF 1(4) s1 Suc.prems(6,8,10)] by blast
    have al: "allowed s d st1" by (rule holds_allowed[OF 1(4) s1]) (use Suc.prems(10-12) vs in auto)
    let ?P2 = "?P1(s := rest, d := v # ?P1 d)"
    have t2: "?P2 t = us @ P t" using Suc.prems(9,11) by simp
    have "\<exists>st' ms. towers_solve_h n t s d st2 = Some st' \<and> played ms st2 st' \<and> length ms = 2 ^ n - 1 \<and>
      holds st' (?P2(t := P t, d := us @ ?P2 d)) \<and> numMoves st' = numMoves st2 + of_nat (2 ^ n - 1) \<and> numDiscs st' = numDiscs st2"
      by (rule Suc.IH[OF 2(2) t2 vs(2) n a(1)]) (use Suc.prems vs a in \<open>auto dest: not_sym\<close>)
    then obtain st3 m3 where 3: "towers_solve_h n t s d st2 = Some st3" "played m3 st2 st3" "length m3 = 2 ^ n - 1"
      "holds st3 (?P2(t := P t, d := us @ ?P2 d))" "numMoves st3 = numMoves st2 + of_nat (2 ^ n - 1)" "numDiscs st3 = numDiscs st2" by blast
    have P3: "?P2(t := P t, d := us @ ?P2 d) = P(s := rest, d := vs @ P d)" using Suc.prems(9-11) vs by auto
    have e: "2 ^ Suc n - 1 = (2 ^ n - 1) + 1 + (2 ^ n - 1 :: nat)" by simp
    have "played (m1 @ (s, d) # m3) st st3" using played_append[OF 1(2) played.one[OF al 2(1) 3(2)]] .
    moreover have "length (m1 @ (s, d) # m3) = 2 ^ Suc n - 1" using 1(3) 3(3) by (simp add: e)
    moreover have "numMoves st3 = numMoves st + of_nat (2 ^ Suc n - 1)"
      unfolding e of_nat_add 3(5) 2(3) 1(5) by simp
    moreover have "towers_solve_h (Suc n) s t d st = Some st3" using False 1(1) 2(1) 3(1) by simp
    moreover have "numDiscs st3 = numDiscs st" using 3(6) 2(4) 1(6) by simp
    ultimately show ?thesis using 3(4)[unfolded P3] by blast
  qed
qed

section \<open>Initialisation and verification\<close>

text \<open>The number of nodes is the number of nodes of the pool, which the sizes can count.\<close>

lemma holds_size: "holds st P \<Longrightarrow> l \<noteq> FreeList \<Longrightarrow> list_getSize l st = of_nat (length (P l))"
  by (auto simp: holds_def linked_def list_getSize_def)

lemma clear_empties:
  assumes "holds st P" "l \<noteq> FreeList" "length (P l) < 2 ^ 31"
  shows "\<exists>st'. list_clear l st = Some st' \<and> holds st' (P(l := [], FreeList := rev (P l) @ P FreeList)) \<and> numDiscs st' = numDiscs st"
  using assms
proof (induction "P l" arbitrary: st P)
  case Nil
  have "list_clear l st = Some st" using holds_size[OF Nil(2,3)] Nil(1) by (subst list_clear.simps) simp
  moreover have "P(l := [], FreeList := rev (P l) @ P FreeList) = P" using Nil(1) by auto
  ultimately show ?case using Nil(2) by (simp del: fun_upd_apply)
next
  case (Cons v vs)
  have pl: "P l = v # vs" using Cons(2) by simp
  obtain st1 where 1: "list_pop l st = Some (v, st1)" "holds st1 (P(l := vs, FreeList := v # P FreeList))" "numDiscs st1 = numDiscs st"
    using holds_pop[OF Cons(3) pl Cons(4)] by blast
  let ?P = "P(l := vs, FreeList := v # P FreeList)"
  have v: "vs = ?P l" using Cons(4) by simp
  have "length (?P l) < 2 ^ 31" using Cons(5) pl Cons(4) by simp
  from Cons.hyps(1)[OF v 1(2) Cons(4) this] obtain st2 where 2: "list_clear l st1 = Some st2"
    "holds st2 (?P(l := [], FreeList := rev (?P l) @ ?P FreeList))" "numDiscs st2 = numDiscs st1" by blast
  have e: "?P(l := [], FreeList := rev (?P l) @ ?P FreeList) = P(l := [], FreeList := rev (P l) @ P FreeList)"
    using Cons(4) pl by auto
  have "sint (list_getSize l st) > 0"
    unfolding holds_size[OF Cons(3,4)] using sint_of_nat_small[of "length (P l)"] Cons(5) pl by simp
  then have "list_clear l st = list_clear l st1" using 1(1) by (subst list_clear.simps) simp
  then show ?case using 2 1(3) e by simp
qed

text \<open>The discs of a full tower, from the top\<close>

definition discs :: "nat \<Rightarrow> s32 list" where
  "discs n = map of_nat [1..<n + 1]"

lemma discs_0: "discs n = map (\<lambda>j. of_nat (j + 1)) [0..<n]"
  by (simp add: discs_def map_Suc_upt[symmetric] comp_def del: upt_Suc)

lemma discs_length [simp]: "length (discs n) = n"
  by (simp add: discs_0)

lemma discs_ascending: "n < 2 ^ 31 \<Longrightarrow> ascending (discs n)"
  by (auto simp: ascending_def discs_0 sorted_wrt_iff_nth_less sint_of_nat_small simp del: of_nat_Suc of_nat_add)

lemma holds_init:
  assumes "holds st P" "P l = []" "l \<noteq> FreeList"
  shows "holds (list_init l st) P"
proof -
  obtain f where f: "linked st f" "\<And>l. P l = map (\<lambda>i. val (pool st ! i)) (f l)" using assms(1) by (auto simp: holds_def)
  have e: "f l = []" using f(2)[of l] assms(2) by simp
  have p: "pool (list_init l st) = pool st" by (simp add: list_init_def set_list_def)
  have h: "head (list_of (list_init l st) m) = head (list_of st m)" "m \<noteq> FreeList \<Longrightarrow> list_size (list_of (list_init l st) m) = list_size (list_of st m)" for m
    using f(1) e assms(3) by (cases "m = l"; auto simp: linked_def list_init_def set_list_def dest!: spec[of _ l])+
  have "linked (list_init l st) f" using f(1) unfolding linked_def p h(1) using h(2) by simp
  then show ?thesis using f(2) by (auto simp: holds_def p)
qed

lemma init_fills:
  assumes "holds (list_init PegC (list_init PegB (list_init PegA st))) P" "P PegA = []" "n \<le> length (P FreeList)"
  shows "\<exists>st'. towers_init n st = Some st' \<and> holds st' (P(PegA := discs n, FreeList := drop n (P FreeList))) \<and>
    numMoves st' = 0 \<and> numDiscs st' = of_nat n"
proof -
  let ?st = "list_init PegC (list_init PegB (list_init PegA (st\<lparr>numDiscs := of_nat n, numMoves := 0\<rparr>)))"
  let ?I = "\<lambda>i st. holds st (P(PegA := map of_nat [n - i + 1..<n + 1], FreeList := drop i (P FreeList))) \<and> numMoves st = 0 \<and> numDiscs st = of_nat n"
  have "holds ?st P" using assms(1) by (simp add: holds_def linked_def list_init_def set_list_def)
  moreover have "P(PegA := [], FreeList := P FreeList) = P" using assms(2) by auto
  ultimately have z: "?I 0 ?st" by (simp add: list_init_def set_list_def)
  have "\<exists>st'. for_range 0 n (\<lambda>i st. list_push PegA (of_nat (n - i)) st) ?st = Some st' \<and> ?I n st'"
  proof (rule for_range_invariant[where P = ?I, OF z])
    fix i st assume i: "i < n" "?I i st"
    obtain x xs where x: "drop i (P FreeList) = x # xs" using i(1) assms(3) by (cases "drop i (P FreeList)") auto
    let ?P = "P(PegA := map of_nat [n - i + 1..<n + 1], FreeList := drop i (P FreeList))"
    have f: "?P FreeList = x # xs" using x by simp
    obtain st' where s: "list_push PegA (of_nat (n - i)) st = Some st'" "holds st' (?P(FreeList := xs, PegA := of_nat (n - i) # ?P PegA))"
      "numMoves st' = numMoves st" "numDiscs st' = numDiscs st" using holds_push[OF conjunct1[OF i(2)] f] by blast
    have u: "[n - (i + 1) + 1..<n + 1] = (n - i) # [n - i + 1..<n + 1]" using i(1) upt_conv_Cons[of "n - i" "n + 1"] by (simp add: Suc_diff_Suc del: upt_Suc)
    have "xs = drop (i + 1) (P FreeList)" using x by (metis drop_Suc Suc_eq_plus1 list.sel(3) tl_drop)
    then have "?P(FreeList := xs, PegA := of_nat (n - i) # ?P PegA) =
      P(PegA := map of_nat [n - (i + 1) + 1..<n + 1], FreeList := drop (i + 1) (P FreeList))" unfolding u by auto
    then show "\<exists>st'. list_push PegA (of_nat (n - i)) st = Some st' \<and> ?I (i + 1) st'" using s i(2) by auto
  qed simp
  then show ?thesis by (auto simp: towers_init_def Let_def discs_def)
qed

lemma verify_chain:
  assumes "chain p ptr ns"
  shows "verify_discs p ptr k = Some (map (\<lambda>i. val (p ! i)) ns = map (\<lambda>j. k + of_nat (j + 1)) [0..<length ns])"
  using assms
proof (induction ns arbitrary: ptr k)
  case Nil then show ?case by (subst verify_discs.simps) simp
next
  case (Cons i ns)
  have "map (\<lambda>j. k + of_nat (j + 1)) [0..<length (i # ns)] = (k + 1) # map (\<lambda>j. k + 1 + of_nat (j + 1)) [0..<length ns]"
    by (simp add: upt_rec[of 0] map_Suc_upt[symmetric] add.assoc add.left_commute del: upt_Suc)
  then show ?case using Cons by (subst verify_discs.simps) auto
qed

lemma verify_accepts:
  assumes "holds st P" "P PegA = []" "P PegB = []" "P PegC = discs n" "numDiscs st = of_nat n" "n < 32" "numMoves st = of_nat (2 ^ n - 1)"
  shows "towers_verify st = Some 0"
proof -
  obtain f where f: "linked st f" "\<And>l. P l = map (\<lambda>i. val (pool st ! i)) (f l)" using assms(1) by (auto simp: holds_def)
  have c: "chain (pool st) (head (list_of st PegC)) (f PegC)" using f(1) by (simp add: linked_def)
  have l: "length (f PegC) = n" using arg_cong[OF f(2)[of PegC], of length] assms(4) by (simp add: discs_def del: upt_Suc)
  have "map (\<lambda>i. val (pool st ! i)) (f PegC) = map (\<lambda>j. 0 + of_nat (j + 1)) [0..<length (f PegC)]"
    using f(2)[of PegC] assms(4) l by (simp add: discs_0)
  then have v: "verify_discs (pool st) (head (list_of st PegC)) 0 = Some True" using verify_chain[OF c, of 0] by simp
  have "unat (of_nat n :: s32) = n" using assms(6) by (simp add: unat_of_nat)
  then have "numMoves st = push_bit (unat (numDiscs st)) 1 - 1" using assms(5,7) by (simp add: push_bit_eq_mult)
  then show ?thesis
    using holds_size[OF assms(1), of PegA] holds_size[OF assms(1), of PegB] holds_size[OF assms(1), of PegC] assms(2-5) v
    by (simp add: towers_verify_def)
qed

lemma solve_and_verify:
  assumes "holds st P" "P PegA = discs n" "P PegB = []" "P PegC = []" "numDiscs st = of_nat n" "numMoves st = 0" "0 < n" "n < 32"
  shows "\<exists>st' ms. towers_solve st = Some st' \<and> played ms st st' \<and> length ms = 2 ^ n - 1 \<and>
    holds st' (P(PegA := [], PegC := discs n)) \<and> towers_verify st' = Some 0"
proof -
  have u: "unat (numDiscs st) = n" using assms(5,8) by (simp add: unat_of_nat)
  have "ascending (discs n)" by (rule discs_ascending) (use assms(8) in simp)
  then have "\<exists>st' ms. towers_solve_h n PegA PegB PegC st = Some st' \<and> played ms st st' \<and> length ms = 2 ^ n - 1 \<and>
    holds st' (P(PegA := [], PegC := discs n @ P PegC)) \<and> numMoves st' = numMoves st + of_nat (2 ^ n - 1) \<and> numDiscs st' = numDiscs st"
    by (intro solve_moves) (use assms in simp_all)
  then obtain st' ms where s: "towers_solve_h n PegA PegB PegC st = Some st'" "played ms st st'" "length ms = 2 ^ n - 1"
    "holds st' (P(PegA := [], PegC := discs n))" "numMoves st' = of_nat (2 ^ n - 1)" "numDiscs st' = of_nat n"
    unfolding assms(4-6) append_Nil2 add_0_left by blast
  have "towers_verify st' = Some 0" by (rule verify_accepts[OF s(4)]) (use assms s in simp_all)
  then show ?thesis using s(1-4) u by (auto simp: towers_solve_def simp del: fun_upd_apply)
qed

section \<open>The program\<close>

lemma list_name_all: "(\<forall>l. Q l) \<longleftrightarrow> Q FreeList \<and> Q PegA \<and> Q PegB \<and> Q PegC"
  by (metis list_name.exhaust)

lemma init_free_list_holds:
  assumes "length (pool st) = NUM_DISCS"
  shows "\<exists>st'. init_free_list st = Some st' \<and>
    holds (list_init PegC (list_init PegB (list_init PegA st'))) (\<lambda>l. if l = FreeList then map of_nat [0..<6] @ [99] else [])"
proof -
  let ?p = "map (\<lambda>i. \<lparr>val = of_nat i, next_node = Some (i + 1)\<rparr>) [0..<6] @ [\<lparr>val = 99, next_node = None\<rparr>]"
  let ?start = "(pool st)[6 := \<lparr>val = 99, next_node = None\<rparr>]"
  have l: "length (pool st) = 7" and n6: "NUM_DISCS - 1 = 6" using assms by (simp_all add: NUM_DISCS_def)
  have "for_range 0 6 (\<lambda>i p. wr p i \<lparr>val = of_nat i, next_node = Some (i + 1)\<rparr>) ?start =
      Some (map (\<lambda>i. \<lparr>val = of_nat i, next_node = Some (i + 1)\<rparr>) [0..<6] @ drop 6 ?start)"
    by (rule for_range_update) (use l in simp_all)
  moreover have "drop 6 ?start = [\<lparr>val = 99, next_node = None\<rparr>]" using l by (intro nth_equalityI) simp_all
  ultimately have f: "for_range 0 6 (\<lambda>i p. wr p i \<lparr>val = of_nat i, next_node = Some (i + 1)\<rparr>) ?start = Some ?p" by simp
  have i: "init_free_list st = Some (set_list FreeList \<lparr>list_size = of_nat NUM_DISCS, head = Some 0\<rparr> (list_init FreeList st)\<lparr>pool := ?p\<rparr>)"
    unfolding init_free_list_def n6 using f l by (simp add: set_list_def list_init_def Let_def)
  let ?f = "\<lambda>l. if l = FreeList then [0..<7] else []"
  show ?thesis
    unfolding i holds_def
    by (rule exI, rule conjI[OF refl], rule exI[of _ ?f])
      (simp add: linked_def list_name_all set_list_def list_init_def upt_rec)
qed

text \<open>\<open>main\<close> returns 0, with and without the run that warms up the caches.\<close>

lemma clear_starts_again:
  assumes "holds st P" "\<forall>l. length (P l) < 2 ^ 31" "numDiscs st = of_nat n" "n < 2 ^ 32"
    and "n \<le> length (P PegA) + length (P PegB) + length (P PegC) + length (P FreeList)"
  shows "\<exists>st' Q. towers_clear st = Some st' \<and> holds st' Q \<and> Q PegA = discs n \<and> Q PegB = [] \<and> Q PegC = [] \<and>
    numDiscs st' = of_nat n \<and> numMoves st' = 0"
proof -
  let ?f = "\<lambda>l P. P(l := [], FreeList := rev (P l) @ P FreeList)"
  obtain st1 where 1: "list_clear PegA st = Some st1" "holds st1 (?f PegA P)" "numDiscs st1 = numDiscs st"
    using clear_empties[OF assms(1), of PegA] assms(2) by auto
  obtain st2 where 2: "list_clear PegB st1 = Some st2" "holds st2 (?f PegB (?f PegA P))" "numDiscs st2 = numDiscs st1"
    using clear_empties[OF 1(2), of PegB] assms(2) by auto
  obtain st3 where 3: "list_clear PegC st2 = Some st3" "holds st3 (?f PegC (?f PegB (?f PegA P)))" "numDiscs st3 = numDiscs st2"
    using clear_empties[OF 2(2), of PegC] assms(2) by auto
  let ?Q = "?f PegC (?f PegB (?f PegA P))"
  have "holds (list_init PegC (list_init PegB (list_init PegA st3))) ?Q"
    by (intro holds_init 3(2)) simp_all
  then obtain st4 where 4: "towers_init n st3 = Some st4" "holds st4 (?Q(PegA := discs n, FreeList := drop n (?Q FreeList)))"
    "numMoves st4 = 0" "numDiscs st4 = of_nat n" using init_fills[of st3 ?Q n] assms(5) by auto
  have "unat (numDiscs st3) = n" using 1(3) 2(3) 3(3) assms(3,4) by (simp add: unat_of_nat)
  then have "towers_clear st = Some st4" using 1(1) 2(1) 3(1) 4(1) by (simp add: towers_clear_def)
  then show ?thesis using 4(2-4)
    by (intro exI[of _ st4] exI[of _ "?Q(PegA := discs n, FreeList := drop n (?Q FreeList))"]) simp
qed

text \<open>\<open>main\<close> returns 0, with and without the run that warms up the caches.\<close>

lemma towers_main_accepts:
  assumes "length (pool st) = NUM_DISCS"
  shows "towers_main PREALLOCATE st = Some 0"
proof -
  let ?P = "\<lambda>l. if l = FreeList then map of_nat [0..<6] @ [99 :: s32] else []"
  obtain st1 where 1: "init_free_list st = Some st1" "holds (list_init PegC (list_init PegB (list_init PegA st1))) ?P"
    using init_free_list_holds[OF assms] by blast
  let ?Q = "?P(PegA := discs 7, FreeList := drop 7 (?P FreeList))"
  obtain st2 where 2: "towers_init 7 st1 = Some st2" "holds st2 ?Q" "numMoves st2 = 0" "numDiscs st2 = of_nat 7"
    using init_fills[OF 1(2), of 7] by auto
  have "\<exists>st3 R. (if PREALLOCATE then towers_solve st2 else Some st2) = Some st3 \<and> holds st3 R \<and> (\<forall>l. length (R l) \<le> 7) \<and>
    length (R PegA) + length (R PegB) + length (R PegC) + length (R FreeList) = 7 \<and> numDiscs st3 = of_nat 7"
  proof (cases PREALLOCATE)
    case False
    then show ?thesis using 2 by (intro exI[of _ st2] exI[of _ ?Q]) simp
  next
    case True
    have "\<exists>st' ms. towers_solve_h 7 PegA PegB PegC st2 = Some st' \<and> played ms st2 st' \<and> length ms = 2 ^ 7 - 1 \<and>
      holds st' (?Q(PegA := [], PegC := discs 7 @ ?Q PegC)) \<and> numMoves st' = numMoves st2 + of_nat (2 ^ 7 - 1) \<and> numDiscs st' = numDiscs st2"
      by (rule solve_moves[OF 2(2)]) (simp_all add: discs_ascending)
    then obtain st3 where "towers_solve_h 7 PegA PegB PegC st2 = Some st3" "holds st3 (?Q(PegA := [], PegC := discs 7 @ ?Q PegC))"
      "numDiscs st3 = of_nat 7" using 2(4) by auto
    then show ?thesis using True 2(4)
      by (intro exI[of _ st3] exI[of _ "?Q(PegA := [], PegC := discs 7 @ ?Q PegC)"]) (simp add: towers_solve_def)
  qed
  then obtain st3 R where 3: "(if PREALLOCATE then towers_solve st2 else Some st2) = Some st3" "holds st3 R" "\<forall>l. length (R l) \<le> 7"
    "length (R PegA) + length (R PegB) + length (R PegC) + length (R FreeList) = 7" "numDiscs st3 = of_nat 7" by blast
  have r: "\<forall>l. length (R l) < 2 ^ 31" using 3(3) by (auto intro: le_less_trans)
  obtain st4 S where 4: "towers_clear st3 = Some st4" "holds st4 S" "S PegA = discs 7" "S PegB = []" "S PegC = []"
    "numDiscs st4 = of_nat 7" "numMoves st4 = 0" using clear_starts_again[OF 3(2) r 3(5)] 3(4) by auto
  obtain st5 where 5: "towers_solve st4 = Some st5" "towers_verify st5 = Some 0"
    using solve_and_verify[OF 4(2-7)] by auto
  show ?thesis using 1(1) 2(1) 3(1) 4(1) 5 by (simp add: towers_main_def NUM_DISCS_def)
qed

section \<open>The property\<close>

text \<open>
  C13. Started with the discs \<open>1, ..., n\<close> on the first peg, the recursion returns: it moves them to the
  third peg by \<open>2 ^ n - 1\<close> moves of one disc each, none of which puts a disc on a smaller one, and
  \<open>towers_verify\<close> accepts the result.
\<close>

theorem towers_solve_plays:
  assumes "holds st P" "P PegA = discs n" "P PegB = []" "P PegC = []" "numDiscs st = of_nat n" "numMoves st = 0" "0 < n" "n < 32"
  shows "\<exists>st' ms. towers_solve st = Some st' \<and> played ms st st' \<and> length ms = 2 ^ n - 1 \<and>
    holds st' (P(PegA := [], PegC := discs n)) \<and> towers_verify st' = Some 0"
  by (rule solve_and_verify[OF assms])

text \<open>A tower of three discs with nothing else in the pool\<close>

definition small_tower :: towers where
  "small_tower = \<lparr>pool = [\<lparr>val = 3, next_node = None\<rparr>, \<lparr>val = 2, next_node = Some 0\<rparr>, \<lparr>val = 1, next_node = Some 1\<rparr>],
    list_of = (\<lambda>l. if l = PegA then \<lparr>list_size = 3, head = Some 2\<rparr> else \<lparr>list_size = 0, head = None\<rparr>),
    numDiscs = 3, numMoves = 0\<rparr>"

theorem towers_solve_plays_witness:
  "\<exists>st' ms. towers_solve small_tower = Some st' \<and> played ms small_tower st' \<and> length ms = 2 ^ 3 - 1 \<and>
    holds st' ((\<lambda>l. if l = PegA then [1, 2, 3] else [])(PegA := [], PegC := discs 3)) \<and> towers_verify st' = Some 0"
proof -
  have "linked small_tower (\<lambda>l. if l = PegA then [2, 1, 0] else [])" by (simp add: linked_def list_name_all small_tower_def)
  then have "holds small_tower (\<lambda>l. if l = PegA then [1, 2, 3] else [])"
    unfolding holds_def by (intro exI[of _ "\<lambda>l. if l = PegA then [2, 1, 0] else []"] conjI) (simp_all add: small_tower_def)
  then show ?thesis by (rule towers_solve_plays) (simp_all add: discs_0 upt_rec small_tower_def)
qed

end
