(* ===== verification/Byte_Memory.thy ===== *)
theory Byte_Memory
  imports Prelude
begin

text \<open>
  A memory of bytes with addresses of 32 bits, the words in it, and the library functions that copy
  and fill it. The programs that work on addresses instead of single objects use it.
\<close>

section \<open>Bytes and words\<close>

type_synonym memory = "u32 \<Rightarrow> u8"

definition rd32 :: "memory \<Rightarrow> u32 \<Rightarrow> u32" where
  "rd32 m a = ucast (m a) OR push_bit 8 (ucast (m (a + 1))) OR push_bit 16 (ucast (m (a + 2))) OR push_bit 24 (ucast (m (a + 3)))"

definition wr32 :: "memory \<Rightarrow> u32 \<Rightarrow> u32 \<Rightarrow> memory" where
  "wr32 m a v = m(a := ucast v, a + 1 := ucast (drop_bit 8 v), a + 2 := ucast (drop_bit 16 v), a + 3 := ucast (drop_bit 24 v))"

text \<open>\<open>memcpy\<close> between objects that do not overlap, and \<open>memset\<close>\<close>

definition memcpy :: "memory \<Rightarrow> u32 \<Rightarrow> u32 \<Rightarrow> u32 \<Rightarrow> memory" where
  "memcpy m dst src n = (\<lambda>a. if a - dst < n then m (src + (a - dst)) else m a)"

definition memset :: "memory \<Rightarrow> u32 \<Rightarrow> u8 \<Rightarrow> u32 \<Rightarrow> memory" where
  "memset m dst c n = (\<lambda>a. if a - dst < n then c else m a)"

section \<open>Words of the memory\<close>

definition adr :: "nat \<Rightarrow> u32" where
  "adr k = of_nat (4 * k)"

text \<open>The number of words of the address space.\<close>

abbreviation words :: nat where "words \<equiv> 1073741824"

lemma adr_add: "adr a + adr b = adr (a + b)"
  by (simp add: adr_def)

lemma adr_4: "(4 :: u32) = adr 1" "(8 :: u32) = adr 2" "(0 :: u32) = adr 0" "(32 :: u32) = adr 8" "(12 :: u32) = adr 3"
  by (simp_all add: adr_def)

lemma adr_diff: "b \<le> a \<Longrightarrow> adr a - adr b = adr (a - b)"
  by (simp add: adr_def diff_mult_distrib2)

lemma unat_adr: "a < words \<Longrightarrow> unat (adr a) = 4 * a"
  unfolding adr_def unsigned_of_nat of_nat_id by (rule take_bit_nat_eq_self) simp

lemma adr_inj: "a < words \<Longrightarrow> b < words \<Longrightarrow> adr a = adr b \<longleftrightarrow> a = b"
  using unat_adr[of a] unat_adr[of b] by (metis mult_cancel1 zero_neq_numeral)

lemma adr_le: "a < words \<Longrightarrow> b < words \<Longrightarrow> adr a \<le> adr b \<longleftrightarrow> a \<le> b"
  by (simp add: word_le_nat_alt unat_adr)

lemma adr_less: "a < words \<Longrightarrow> b < words \<Longrightarrow> adr a < adr b \<longleftrightarrow> a < b"
  by (simp add: word_less_nat_alt unat_adr)

lemma byte_bits:
  "bit (ucast (ucast (drop_bit k v) :: u8) :: u32) n \<longleftrightarrow> n < 8 \<and> bit (v :: u32) (n + k)"
  by (auto simp: bit_simps add.commute dest: bit_imp_le_length)

lemma bytes_word:
  "ucast (ucast (drop_bit 0 v) :: u8) OR push_bit 8 (ucast (ucast (drop_bit 8 v) :: u8)) OR
      push_bit 16 (ucast (ucast (drop_bit 16 v) :: u8)) OR push_bit 24 (ucast (ucast (drop_bit 24 v) :: u8)) = (v :: u32)"
proof (rule bit_word_eqI)
  fix n assume n: "n < LENGTH(32)"
  consider "n < 8" | "8 \<le> n" "n < 16" | "16 \<le> n" "n < 24" | "24 \<le> n" "n < 32" using n by fastforce
  then show "bit (ucast (ucast (drop_bit 0 v) :: u8) OR push_bit 8 (ucast (ucast (drop_bit 8 v) :: u8)) OR
      push_bit 16 (ucast (ucast (drop_bit 16 v) :: u8)) OR push_bit 24 (ucast (ucast (drop_bit 24 v) :: u8)) :: u32) n = bit v n"
    unfolding bit_or_iff bit_push_bit_iff byte_bits by cases auto
qed

lemma rd32_wr32_same: "rd32 (wr32 m a v) a = v"
proof -
  have "rd32 (wr32 m a v) a = ucast (ucast (drop_bit 0 v) :: u8) OR push_bit 8 (ucast (ucast (drop_bit 8 v) :: u8)) OR
      push_bit 16 (ucast (ucast (drop_bit 16 v) :: u8)) OR push_bit 24 (ucast (ucast (drop_bit 24 v) :: u8))"
    by (simp add: rd32_def wr32_def)
  then show ?thesis by (simp only: bytes_word)
qed

lemma byte_apart:
  assumes "a < words" "b < words" "a \<noteq> b" "i < 4" "j < 4"
  shows "adr a + of_nat i \<noteq> adr b + of_nat j"
proof -
  have u: "unat (adr c + of_nat k) = 4 * c + k" if "c < words" "k < 4" for c k
  proof -
    have "adr c + of_nat k = of_nat (4 * c + k)" by (simp add: adr_def)
    moreover have "take_bit 32 (4 * c + k) = 4 * c + k" using that by (intro take_bit_nat_eq_self) simp
    ultimately show ?thesis by (simp only: unsigned_of_nat) simp
  qed
  have "4 * a + i \<noteq> 4 * b + j" using assms by presburger
  then show ?thesis using u assms by metis
qed

lemma wr32_other: "a < words \<Longrightarrow> b < words \<Longrightarrow> a \<noteq> b \<Longrightarrow> i < 4 \<Longrightarrow> wr32 m (adr b) v (adr a + of_nat i) = m (adr a + of_nat i)"
  using byte_apart[of a b i 0] byte_apart[of a b i 1] byte_apart[of a b i 2] byte_apart[of a b i 3]
  unfolding wr32_def by (simp only: fun_upd_other not_False_eq_True) simp

lemma rd32_wr32_other: "a < words \<Longrightarrow> b < words \<Longrightarrow> a \<noteq> b \<Longrightarrow> rd32 (wr32 m (adr b) v) (adr a) = rd32 m (adr a)"
  using wr32_other[of a b 0] wr32_other[of a b 1] wr32_other[of a b 2] wr32_other[of a b 3] by (simp add: rd32_def)

end
