(* ===== verification/Core_Util.thy ===== *)
theory Core_Util
  imports Prelude
begin

text \<open>
  The service functions of CoreMark (\<open>core_util.c\<close>): the 16-bit CRC, the seeds and the check
  of the port's data types. The locales \<open>crc_step\<close> and \<open>crc_register\<close> are what the users of a
  CRC rely on (it loses nothing of the register, and nothing of the datum); the CRCs of the
  code interpret them.
\<close>

section \<open>The CRC\<close>

text \<open>One turn of the loop of \<open>crcu8\<close>; the state is \<open>data\<close> and \<open>crc\<close>.\<close>

fun crcu8_loop :: "nat \<Rightarrow> u8 \<Rightarrow> u16 \<Rightarrow> u16" where
  "crcu8_loop 0 data crc = crc"
| "crcu8_loop (Suc n) data crc =
     (let x16 = (data AND 1) XOR (ucast crc AND 1);
          data' = drop_bit 1 data;
          (crc1, carry) = (if x16 = 1 then (crc XOR 0x4002, 1 :: u8) else (crc, 0));
          crc2 = drop_bit 1 crc1;
          crc3 = (if carry \<noteq> 0 then crc2 OR 0x8000 else crc2 AND 0x7fff)
      in crcu8_loop n data' crc3)"

definition crcu8 :: "u8 \<Rightarrow> u16 \<Rightarrow> u16" where
  "crcu8 data crc = crcu8_loop 8 data crc"

definition crcu16 :: "u16 \<Rightarrow> u16 \<Rightarrow> u16" where
  "crcu16 newval crc =
     (let crc = crcu8 (ucast newval) crc
      in crcu8 (ucast (drop_bit 8 newval)) crc)"

definition crc16 :: "s16 \<Rightarrow> u16 \<Rightarrow> u16" where
  "crc16 newval crc = crcu16 newval crc"

definition crcu32 :: "u32 \<Rightarrow> u16 \<Rightarrow> u16" where
  "crcu32 newval crc =
     (let crc = crc16 (ucast newval) crc
      in crc16 (ucast (drop_bit 16 newval)) crc)"

section \<open>Seeds\<close>

text \<open>
  The five volatile variables of the port, and \<open>get_seed_32\<close> in the configuration of this
  port (\<open>SEED_METHOD\<close> is \<open>SEED_VOLATILE\<close>).
\<close>

record seed_vars =
  seed1_volatile :: s32
  seed2_volatile :: s32
  seed3_volatile :: s32
  seed4_volatile :: s32
  seed5_volatile :: s32

definition get_seed_32 :: "seed_vars \<Rightarrow> int \<Rightarrow> s32" where
  "get_seed_32 v i =
     (if i = 1 then seed1_volatile v
      else if i = 2 then seed2_volatile v
      else if i = 3 then seed3_volatile v
      else if i = 4 then seed4_volatile v
      else if i = 5 then seed5_volatile v
      else 0)"

text \<open>
  \<open>parseval\<close> reads a seed from the command line (\<open>SEED_ARG\<close>). The two loops return the value
  and the rest of the string; \<open>retval\<close> wraps at 32 bits.
\<close>

fun parseval_hex :: "u8 list \<Rightarrow> s32 \<Rightarrow> s32 \<times> u8 list" where
  "parseval_hex [] retval = (retval, [])"
| "parseval_hex (c # s) retval =
     (if (ch CHR ''0'' \<le> c \<and> c \<le> ch CHR ''9'') \<or> (ch CHR ''a'' \<le> c \<and> c \<le> ch CHR ''f'')
      then let digit = ucast c - 48 :: s32;
               digit = (if 9 <s digit then 10 + ucast c - 97 else digit)
           in parseval_hex s (retval * 16 + digit)
      else (retval, c # s))"

fun parseval_dec :: "u8 list \<Rightarrow> s32 \<Rightarrow> s32 \<times> u8 list" where
  "parseval_dec [] retval = (retval, [])"
| "parseval_dec (c # s) retval =
     (if ch CHR ''0'' \<le> c \<and> c \<le> ch CHR ''9''
      then let digit = ucast c - 48 in parseval_dec s (retval * 10 + digit)
      else (retval, c # s))"

definition parseval :: "u8 list \<Rightarrow> s32" where
  "parseval valstring =
     (let (neg, s) = (if deref valstring = ch CHR ''-'' then (- 1, tl valstring)
                      else (1 :: s32, valstring));
          (retval, s) = (if deref s = ch CHR ''0'' \<and> deref (tl s) = ch CHR ''x''
                         then parseval_hex (tl (tl s)) 0
                         else parseval_dec s 0);
          retval = (if deref s = ch CHR ''K'' then retval * 1024 else retval);
          retval = (if deref s = ch CHR ''M'' then retval * (1024 * 1024) else retval)
      in retval * neg)"

definition get_seed_args :: "int \<Rightarrow> u8 list list \<Rightarrow> s32" where
  "get_seed_args i argv =
     (if i < int (length argv) then parseval (argv ! nat i) else 0)"

section \<open>Data type checks\<close>

text \<open>The sizes the compiler gives to the types of the port.\<close>

record type_sizes =
  sizeof_ee_u8 :: nat
  sizeof_ee_u16 :: nat
  sizeof_ee_s16 :: nat
  sizeof_ee_s32 :: nat
  sizeof_ee_u32 :: nat
  sizeof_ee_ptr_int :: nat
  sizeof_int_ptr :: nat

definition rv32_sizes :: type_sizes where
  "rv32_sizes = \<lparr>sizeof_ee_u8 = 1, sizeof_ee_u16 = 2, sizeof_ee_s16 = 2, sizeof_ee_s32 = 4,
     sizeof_ee_u32 = 4, sizeof_ee_ptr_int = 4, sizeof_int_ptr = 4\<rparr>"

text \<open>The returned count and the messages printed, in order.\<close>

definition check_data_types :: "type_sizes \<Rightarrow> u8 \<times> string list" where
  "check_data_types sz =
     (let check = (\<lambda>bad msg (retval, out). if bad then (retval + 1, out @ [msg]) else (retval, out));
          r = (0, []);
          r = check (sizeof_ee_u8 sz \<noteq> 1) ''ERROR: ee_u8 is not an 8b datatype!'' r;
          r = check (sizeof_ee_u16 sz \<noteq> 2) ''ERROR: ee_u16 is not a 16b datatype!'' r;
          r = check (sizeof_ee_s16 sz \<noteq> 2) ''ERROR: ee_s16 is not a 16b datatype!'' r;
          r = check (sizeof_ee_s32 sz \<noteq> 4) ''ERROR: ee_s32 is not a 32b datatype!'' r;
          r = check (sizeof_ee_u32 sz \<noteq> 4) ''ERROR: ee_u32 is not a 32b datatype!'' r;
          r = check (sizeof_ee_ptr_int sz \<noteq> sizeof_int_ptr sz)
                ''ERROR: ee_ptr_int is not a datatype that holds an int pointer!'' r
      in if 0 < fst r
         then (fst r, snd r @ [''ERROR: Please modify the datatypes in core_portme.h!''])
         else r)"

text \<open>A port whose types have the sizes RV32 gives them passes without a message.\<close>

lemma check_data_types_rv32: "check_data_types rv32_sizes = (0, [])"
  by (simp add: check_data_types_def rv32_sizes_def)

section \<open>Reading seeds back\<close>

datatype qualifier = No_qualifier | Kilo | Mega

primrec qual_bytes :: "qualifier \<Rightarrow> u8 list" where
  "qual_bytes No_qualifier = []"
| "qual_bytes Kilo = [ch CHR ''K'']"
| "qual_bytes Mega = [ch CHR ''M'']"

primrec qual_factor :: "qualifier \<Rightarrow> nat" where
  "qual_factor No_qualifier = 1"
| "qual_factor Kilo = 1024"
| "qual_factor Mega = 1024 * 1024"

lemma ucast_digit_byte: "d < 10 \<Longrightarrow> (ucast (digit_byte d) :: s32) - 48 = of_nat d"
  by (rule ball_less_10 [where P = "\<lambda>d. (ucast (digit_byte d) :: s32) - 48 = of_nat d"]) (code_simp, assumption)

lemma parseval_dec_digits:
  assumes "\<forall>d \<in> set ds. d < 10" and "\<not> is_digit (deref suf)"
  shows "parseval_dec (map digit_byte ds @ suf) (of_nat v) =
    (of_nat (foldl (\<lambda>v d. v * 10 + d) v ds), suf)"
  using assms
proof (induction ds arbitrary: v)
  case Nil
  then show ?case by (cases suf) (auto simp: is_digit_def deref_def ch_def)
next
  case (Cons d ds)
  then have "d < 10" by simp
  with Cons.IH[of "v * 10 + d"] Cons.prems show ?case
    by (simp add: ucast_digit_byte digit_byte_range ch_def)
qed

lemma qual_bytes_not_digit: "\<not> is_digit (deref (qual_bytes q))"
  by (cases q) (simp_all add: is_digit_def deref_def ch_def)

lemma digit_byte_not: "d < 10 \<Longrightarrow> digit_byte d \<noteq> 45 \<and> digit_byte d \<noteq> 120"
  by (rule ball_less_10 [where P = "\<lambda>d. digit_byte d \<noteq> 45 \<and> digit_byte d \<noteq> 120"]) (code_simp, assumption)

lemma deref_digits_not:
  assumes "\<forall>d \<in> set ds. d < 10"
  shows "deref (map digit_byte ds @ qual_bytes q) \<noteq> 45"
    and "deref (tl (map digit_byte ds @ qual_bytes q)) \<noteq> 120"
proof -
  have q: "deref (qual_bytes q) \<noteq> 45" "deref (qual_bytes q) \<noteq> 120" "deref (tl (qual_bytes q)) \<noteq> 120"
    by (cases q; simp add: deref_def ch_def)+
  show "deref (map digit_byte ds @ qual_bytes q) \<noteq> 45"
    using assms q digit_byte_not by (cases ds) (auto simp: deref_def)
  show "deref (tl (map digit_byte ds @ qual_bytes q)) \<noteq> 120"
  proof (cases ds)
    case Nil with q show ?thesis by simp
  next
    case (Cons d ds')
    with assms q digit_byte_not show ?thesis by (cases ds') (auto simp: deref_def)
  qed
qed

lemma parseval_digits:
  assumes "\<forall>d \<in> set ds. d < 10"
  shows "parseval ((if neg then [ch CHR ''-''] else []) @ map digit_byte ds @ qual_bytes q) =
    (if neg then - 1 else 1) * of_nat (qual_factor q * dec_value ds)"
proof -
  note dec = parseval_dec_digits[OF assms qual_bytes_not_digit[of q], of 0, folded dec_value_def]
  have "parseval (map digit_byte ds @ qual_bytes q) = of_nat (qual_factor q * dec_value ds)"
    using deref_digits_not[OF assms, of q] dec
    by (cases q) (simp_all add: parseval_def ch_def deref_def)
  moreover have "parseval (45 # map digit_byte ds @ qual_bytes q) = - of_nat (qual_factor q * dec_value ds)"
    using deref_digits_not[OF assms, of q] dec
    by (cases q) (simp_all add: parseval_def ch_def deref_def)
  ultimately show ?thesis by (simp add: ch_def)
qed

section \<open>What the CRC computes\<close>

text \<open>
  The reference: one shift of the register of the reflected CRC-16 with polynomial
  \<open>0x8005\<close> (\<open>0xA001\<close> reflected), and one turn of the loop of \<open>crcu8\<close> as a function.
\<close>

definition crc_shift :: "u16 \<Rightarrow> u16" where
  "crc_shift c = drop_bit 1 c XOR (if odd c then 0xA001 else 0)"

definition crc_bit :: "u8 \<Rightarrow> u16 \<Rightarrow> u16" where
 "crc_bit data crc =      (let x16 = (data AND 1) XOR (ucast crc AND 1);
          (crc1, carry) = (if x16 = 1 then (crc XOR 0x4002, 1 :: u8) else (crc, 0));
          crc2 = drop_bit 1 crc1
       in (if carry \<noteq> 0 then crc2 OR 0x8000 else crc2 AND 0x7fff))"

lemma crc_bit_eq: "crc_bit d c = drop_bit 1 c XOR (if odd d \<noteq> odd c then 0xA001 else 0)"
proof -
  have x: "(d AND 1) XOR (ucast c AND 1) = 1 \<longleftrightarrow> odd d \<noteq> odd c"
    by (simp add: and_one_eq mod2_eq_if even_ucast)
  have top: "bit (0x8000 :: u16) n \<longleftrightarrow> n = 15" for n
    using bit_exp_iff [where ?'a = u16, of 15 n] by auto
  have or: "y OR 0x8000 = y XOR 0x8000" if "\<not> bit y 15" for y :: u16
    using that by (intro bit_word_eqI) (simp only: bit_or_iff bit_xor_iff top, blast)
  have "\<not> bit (drop_bit 1 (c XOR 0x4002)) 15"
    by (auto simp: bit_simps dest: bit_imp_le_length)
  then have a: "drop_bit 1 (c XOR 0x4002) OR 0x8000 = drop_bit 1 c XOR 0xA001"
    by (simp add: or drop_bit_xor xor.assoc)
  have "drop_bit 1 c AND mask 15 = drop_bit 1 c"
    by (intro bit_word_eqI) (auto simp: bit_simps dest: bit_imp_le_length)
  then have b: "drop_bit 1 c AND 0x7fff = drop_bit 1 c" by (simp add: mask_eq_exp_minus_1)
  show ?thesis unfolding crc_bit_def Let_def using a b by (simp add: x)
qed

lemma crc_bit_xor: "crc_bit d c XOR ucast (drop_bit 1 d) = crc_shift (c XOR ucast d)"
  by (simp add: crc_bit_eq crc_shift_def drop_bit_ucast_u8 drop_bit_xor even_ucast even_xor_word ac_simps)

lemma crcu8_loop_Suc: "crcu8_loop (Suc n) d c = crcu8_loop n (drop_bit 1 d) (crc_bit d c)"
  by (simp add: crc_bit_def Let_def)

lemma crcu8_loop_shift:
  "drop_bit n d = 0 \<Longrightarrow> crcu8_loop n d c = (crc_shift ^^ n) (c XOR ucast d)"
proof (induction n arbitrary: d c)
  case 0 then show ?case by simp
next
  case (Suc n)
  have "drop_bit n (drop_bit 1 d) = 0" using Suc.prems by simp
  from Suc.IH[OF this] show ?case
    by (simp add: crcu8_loop_Suc crc_bit_xor[simplified] funpow_swap1 del: crcu8_loop.simps)
qed

lemma crcu8_shift: "crcu8 d c = (crc_shift ^^ 8) (c XOR ucast d)"
proof -
  have "drop_bit 8 d = 0" by (rule bit_eqI) (auto simp: bit_simps dest: bit_imp_le_length)
  then show ?thesis unfolding crcu8_def by (rule crcu8_loop_shift)
qed

lemma crc_shift_xor_high: "even b \<Longrightarrow> crc_shift (a XOR b) = crc_shift a XOR drop_bit 1 b"
  by (simp add: crc_shift_def drop_bit_xor even_xor_word ac_simps)

lemma crc_shift_funpow_xor:
  "take_bit n b = 0 \<Longrightarrow> (crc_shift ^^ n) (a XOR b) = (crc_shift ^^ n) a XOR drop_bit n b"
proof (induction n arbitrary: a b)
  case 0 then show ?case by simp
next
  case (Suc n)
  have "even b" using Suc.prems by (metis bit_0 bit_take_bit_iff bit_0_eq bot_fun_def zero_less_Suc bot_bool_def)
  moreover have "take_bit n (drop_bit 1 b) = 0"
    using Suc.prems by (simp add: take_bit_drop_bit)
  ultimately show ?case using Suc.IH[of "drop_bit 1 b"] 
    by (simp add: funpow_swap1 crc_shift_xor_high)
qed

theorem crcu16_shift: "crcu16 d c = (crc_shift ^^ 16) (c XOR d)"
proof -
  let ?lo = "ucast (ucast d :: u8) :: u16"
  let ?hi = "push_bit 8 (drop_bit 8 d)"
  have split: "d = ?lo XOR ?hi"
    by (rule bit_eqI) (auto simp: bit_simps)
  have hi: "ucast (ucast (drop_bit 8 d) :: u8) = drop_bit 8 d"
    by (rule bit_eqI) (auto simp: bit_simps dest: bit_imp_le_length)
  have hi2: "drop_bit 8 ?hi = drop_bit 8 d"
    by (rule bit_eqI) (auto simp: bit_simps dest: bit_imp_le_length)
  have "(crc_shift ^^ 8) (c XOR d) = (crc_shift ^^ 8) (c XOR ?lo) XOR drop_bit 8 d"
    using crc_shift_funpow_xor[of 8 ?hi "c XOR ?lo"] split by (simp add: ac_simps take_bit_push_bit hi2)
  moreover have "crc_shift ^^ 16 = (crc_shift ^^ 8) \<circ> (crc_shift ^^ 8)"
    by (simp flip: funpow_add)
  ultimately show ?thesis
    by (simp add: crcu16_def crcu8_shift hi)
qed

lemma crc_shift_inj: "crc_shift a = crc_shift b \<Longrightarrow> a = b"
proof -
  assume eq: "crc_shift a = crc_shift b"
  have top: "bit (crc_shift c) 15 = odd c" for c
    by (auto simp: crc_shift_def bit_simps dest: bit_imp_le_length)
  from eq top[of a] top[of b] have lsb: "odd a = odd b" by simp
  with eq have "drop_bit 1 a = drop_bit 1 b"
    by (auto simp: crc_shift_def xor_cancel_right split: if_splits)
  then have "a div 2 = b div 2" by (simp add: drop_bit_Suc)
  with lsb show "a = b" by (metis bit_eq_rec)
qed

lemma crc_shift_funpow_inj: "(crc_shift ^^ n) a = (crc_shift ^^ n) b \<longleftrightarrow> a = b"
  by (induction n) (auto dest: crc_shift_inj)

locale crc_step =
  fixes upd :: "'d \<Rightarrow> u16 \<Rightarrow> u16"
  assumes upd_inj_crc: "upd d c = upd d c' \<Longrightarrow> c = c'"
begin

lemma fold_inj_crc: "fold upd ds c = fold upd ds c' \<longleftrightarrow> c = c'"
  by (induction ds arbitrary: c c') (auto dest: upd_inj_crc)

end

locale crc_register = crc_step +
  assumes upd_inj_data: "upd d c = upd d' c \<Longrightarrow> d = d'"
begin

lemma fold_detects:
  "fold upd (pre @ d # post) c = fold upd (pre @ d' # post) c \<longleftrightarrow> d = d'"
  by (auto simp: fold_inj_crc dest: upd_inj_data)

end

interpretation crc16: crc_register crc16
  by unfold_locales (auto simp: crc16_def crcu16_shift crc_shift_funpow_inj xor_cancel_left xor_cancel_right)

interpretation crcu8: crc_register crcu8
proof
  fix d d' :: u8 and c c'
  show "crcu8 d c = crcu8 d c' \<Longrightarrow> c = c'"
    by (simp add: crcu8_shift crc_shift_funpow_inj xor_cancel_right)
  assume "crcu8 d c = crcu8 d' c"
  then have "(ucast d :: u16) = ucast d'"
    by (simp add: crcu8_shift crc_shift_funpow_inj xor_cancel_left)
  then show "d = d'" 
    by (metis ucast_ucast_u8)
qed

interpretation crcu32: crc_step crcu32
  by unfold_locales (auto simp: crcu32_def Let_def dest!: crc16.upd_inj_crc)

section \<open>Properties\<close>

text \<open>
  C29. Feeding a 16-bit value to \<open>crcu16\<close>, bit by bit through two runs of the loop of \<open>crcu8\<close>,
  is adding the value to the CRC register and shifting the register sixteen times.
\<close>

theorem crcu16_register: "crcu16 newval crc = (crc_shift ^^ 16) (crc XOR newval)"
  by (rule crcu16_shift)

text \<open>
  C30. The CRC of a sequence of 16-bit values, accumulated with \<open>crc16\<close> as the list benchmark
  does, detects every change of a single value: two sequences that differ in at most one
  position have the same CRC only if they are equal.
\<close>

theorem crc16_detects_change:
  "fold crc16 (pre @ x # post) crc = fold crc16 (pre @ y # post) crc \<longleftrightarrow> x = y"
  by (rule crc16.fold_detects)

text \<open>
  \<open>parseval\<close> reads back a decimal number: for an optional minus sign, decimal digits and an
  optional qualifier \<open>K\<close> or \<open>M\<close>, the result is the signed value times 1, 1024 or 1048576,
  as long as its magnitude fits a signed 32-bit integer.
\<close>

lemma parseval_number:
  assumes "\<forall>d \<in> set ds. d < 10" and "qual_factor q * dec_value ds < 2 ^ 31"
  shows "sint (parseval ((if neg then [ch CHR ''-''] else []) @ map digit_byte ds @ qual_bytes q)) =
    (if neg then - 1 else 1) * int (qual_factor q * dec_value ds)"
  using assms sint_neg_of_nat[of "qual_factor q * dec_value ds"] sint_of_nat_small[of "qual_factor q * dec_value ds"]
  by (simp add: parseval_digits del: of_nat_mult)

lemma parseval_number_witness:
  "sint (parseval ([ch CHR ''-''] @ map digit_byte [2, 5] @ qual_bytes Kilo)) = - 25600"
  using parseval_number [of "[2, 5]" Kilo True] by (simp add: dec_value_def)

end
