(* ===== verification/List_Heap.thy ===== *)
theory List_Heap
  imports Core_Util
begin

text \<open>
  The linked lists of CoreMark (\<open>core_list_join.c\<close>): the two kinds of nodes in their memory
  blocks, the operations that relink them (find, reverse, insert, remove and its undo) and what
  each of them does to the sequence of nodes a list pointer stands for.
\<close>

section \<open>Data\<close>

record list_data =
  data16 :: s16
  didx :: s16

text \<open>A pointer to a node is the position of the node in its block; the null pointer is \<^const>\<open>None\<close>.\<close>

type_synonym ptr = "nat option"

record list_head =
  nxt :: ptr
  dat :: nat

text \<open>The blocks of list headers and list data; a position outside the block has no value.\<close>

type_synonym cells = "nat \<Rightarrow> list_head option"
type_synonym datas = "nat \<Rightarrow> list_data option"

definition set_nxt :: "nat \<Rightarrow> ptr \<Rightarrow> cells \<Rightarrow> cells option" where
  "set_nxt a p c = do { h \<leftarrow> c a; Some (c(a \<mapsto> h\<lparr>nxt := p\<rparr>)) }"

definition set_dat :: "nat \<Rightarrow> nat \<Rightarrow> cells \<Rightarrow> cells option" where
  "set_dat a i c = do { h \<leftarrow> c a; Some (c(a \<mapsto> h\<lparr>dat := i\<rparr>)) }"

section \<open>Operations\<close>

definition copy_info :: "nat \<Rightarrow> list_data \<Rightarrow> datas \<Rightarrow> datas option" where
  "copy_info to from d = do { t \<leftarrow> d to; Some (d(to \<mapsto> t\<lparr>data16 := data16 from, didx := didx from\<rparr>)) }"

text \<open>The loops of \<open>core_list_find\<close>, with the condition that ends them.\<close>

partial_function (option) find_loop :: "(list_data \<Rightarrow> bool) \<Rightarrow> cells \<Rightarrow> datas \<Rightarrow> ptr \<Rightarrow> ptr option" where
  "find_loop hit c d list = (case list of None \<Rightarrow> Some None | Some a \<Rightarrow> do {
     h \<leftarrow> c a;
     i \<leftarrow> d (dat h);
     if hit i then Some list else find_loop hit c d (nxt h) })"

declare find_loop.simps [code]

definition core_list_find :: "cells \<Rightarrow> datas \<Rightarrow> ptr \<Rightarrow> list_data \<Rightarrow> ptr option" where
  "core_list_find c d list info =
    (if 0 \<le> sint (didx info)
     then find_loop (\<lambda>i. didx i = didx info) c d list
     else find_loop (\<lambda>i. (scast (data16 i) AND 0xff :: s32) = scast (data16 info)) c d list)"

partial_function (option) reverse_loop :: "cells \<Rightarrow> ptr \<Rightarrow> ptr \<Rightarrow> (ptr \<times> cells) option" where
  "reverse_loop c list next = (case list of None \<Rightarrow> Some (next, c) | Some a \<Rightarrow> do {
     h \<leftarrow> c a;
     c' \<leftarrow> set_nxt a next c;
     reverse_loop c' (nxt h) (Some a) })"

declare reverse_loop.simps [code]

definition core_list_reverse :: "cells \<Rightarrow> ptr \<Rightarrow> (ptr \<times> cells) option" where
  "core_list_reverse c list = reverse_loop c list None"

text \<open>
  The state of an insertion: the next free header and data node. The ends of the two blocks do
  not change. The result pointer is null when a block is exhausted.
\<close>

record blocks =
  memblock :: nat
  datablock :: nat

definition core_list_insert_new ::
  "nat \<Rightarrow> list_data \<Rightarrow> blocks \<Rightarrow> nat \<Rightarrow> nat \<Rightarrow> cells \<Rightarrow> datas \<Rightarrow> (ptr \<times> blocks \<times> cells \<times> datas) option" where
  "core_list_insert_new insert_point info b memblock_end datablock_end c d =
    (if memblock b + 1 \<ge> memblock_end then Some (None, b, c, d)
     else if datablock b + 1 \<ge> datablock_end then Some (None, b, c, d)
     else do {
       let newitem = memblock b;
       h \<leftarrow> c insert_point;
       c \<leftarrow> set_nxt newitem (nxt h) c;
       c \<leftarrow> set_nxt insert_point (Some newitem) c;
       c \<leftarrow> set_dat newitem (datablock b) c;
       d \<leftarrow> copy_info (datablock b) info d;
       Some (Some newitem, \<lparr>memblock = memblock b + 1, datablock = datablock b + 1\<rparr>, c, d) })"

text \<open>The item is removed by taking over the data of its successor, which is unlinked.\<close>

definition core_list_remove :: "cells \<Rightarrow> nat \<Rightarrow> (nat \<times> cells) option" where
  "core_list_remove c item = do {
     h \<leftarrow> c item;
     ret \<leftarrow> nxt h;
     r \<leftarrow> c ret;
     c \<leftarrow> set_dat item (dat r) c;
     c \<leftarrow> set_dat ret (dat h) c;
     r \<leftarrow> c ret;
     c \<leftarrow> set_nxt item (nxt r) c;
     c \<leftarrow> set_nxt ret None c;
     Some (ret, c) }"

definition core_list_undo_remove :: "cells \<Rightarrow> nat \<Rightarrow> nat \<Rightarrow> (nat \<times> cells) option" where
  "core_list_undo_remove c item_removed item_modified = do {
     r \<leftarrow> c item_removed;
     m \<leftarrow> c item_modified;
     c \<leftarrow> set_dat item_removed (dat m) c;
     c \<leftarrow> set_dat item_modified (dat r) c;
     m \<leftarrow> c item_modified;
     c \<leftarrow> set_nxt item_removed (nxt m) c;
     c \<leftarrow> set_nxt item_modified (Some item_removed) c;
     Some (item_removed, c) }"

section \<open>Lists in the heap\<close>

text \<open>\<open>seg c p xs q\<close>: from pointer \<open>p\<close> the headers \<open>xs\<close> follow each other up to pointer \<open>q\<close>.\<close>

fun seg :: "cells \<Rightarrow> ptr \<Rightarrow> nat list \<Rightarrow> ptr \<Rightarrow> bool" where
  "seg c p [] q \<longleftrightarrow> p = q"
| "seg c p (a # xs) q \<longleftrightarrow> p = Some a \<and> (case c a of None \<Rightarrow> False | Some h \<Rightarrow> seg c (nxt h) xs q)"

abbreviation chain :: "cells \<Rightarrow> ptr \<Rightarrow> nat list \<Rightarrow> bool" where
  "chain c p xs \<equiv> seg c p xs None"

text \<open>The data node of each header; relinking does not change it.\<close>

definition info_of :: "cells \<Rightarrow> nat \<Rightarrow> nat option" where
  "info_of c a = map_option dat (c a)"

lemma seg_dom: "seg c p xs q \<Longrightarrow> a \<in> set xs \<Longrightarrow> \<exists>h. c a = Some h"
  by (induction xs arbitrary: p) (auto split: option.splits)

lemma seg_cong: "(\<And>a. a \<in> set xs \<Longrightarrow> c' a = c a) \<Longrightarrow> seg c' p xs q = seg c p xs q"
  by (induction xs arbitrary: p) (auto split: option.splits)

lemma seg_upd [simp]: "a \<notin> set xs \<Longrightarrow> seg (c(a := v)) p xs q = seg c p xs q"
  by (rule seg_cong) auto

lemma seg_append: "seg c p (xs @ ys) q \<longleftrightarrow> (\<exists>r. seg c p xs r \<and> seg c r ys q)"
  by (induction xs arbitrary: p) (auto split: option.splits)

lemma seg_snoc: "seg c p (xs @ [a]) q \<longleftrightarrow> seg c p xs (Some a) \<and> (\<exists>h. c a = Some h \<and> nxt h = q)"
  by (auto simp: seg_append split: option.splits)

lemma chain_hd: "chain c p xs \<Longrightarrow> p = (case xs of [] \<Rightarrow> None | a # _ \<Rightarrow> Some a)"
  by (cases xs) auto

lemma chain_unique: "chain c p xs \<Longrightarrow> chain c p ys \<Longrightarrow> xs = ys"
proof (induction xs arbitrary: p ys)
  case Nil then show ?case by (cases ys) auto
next
  case (Cons a xs) then show ?case by (cases ys) (auto split: option.splits)
qed

lemma chain_suffix: "chain c p (xs @ a # ys) \<Longrightarrow> chain c (Some a) (a # ys)"
  by (auto simp: seg_append split: option.splits)

text \<open>A list that ends visits no header twice.\<close>

lemma chain_distinct: "chain c p xs \<Longrightarrow> distinct xs"
proof (induction xs arbitrary: p)
  case Nil then show ?case by simp
next
  case (Cons a xs)
  have "a \<notin> set xs"
  proof
    assume "a \<in> set xs"
    then obtain us vs where xs: "xs = us @ a # vs" by (auto simp: in_set_conv_decomp)
    obtain h where "c a = Some h" "chain c (nxt h) (us @ a # vs)"
      using Cons.prems xs by (auto split: option.splits)
    then have "chain c (Some a) (a # vs)" "chain c (Some a) (a # us @ a # vs)"
      by (auto dest: chain_suffix)
    from chain_unique[OF this] show False by simp
  qed
  moreover have "distinct xs" using Cons by (auto split: option.splits)
  ultimately show ?case by simp
qed

lemma set_nxt_eq: "c a = Some h \<Longrightarrow> set_nxt a p c = Some (c(a \<mapsto> h\<lparr>nxt := p\<rparr>))"
  by (simp add: set_nxt_def)

lemma set_dat_eq: "c a = Some h \<Longrightarrow> set_dat a i c = Some (c(a \<mapsto> h\<lparr>dat := i\<rparr>))"
  by (simp add: set_dat_def)

lemma info_of_relink: "c a = Some h \<Longrightarrow> info_of (c(a \<mapsto> h\<lparr>nxt := p\<rparr>)) = info_of c"
  by (auto simp: info_of_def)

text \<open>The sequence of the headers and their data nodes determine the headers of a list.\<close>

lemma chain_determines:
  "chain c p xs \<Longrightarrow> chain c' p' xs \<Longrightarrow> info_of c' = info_of c \<Longrightarrow> a \<in> set xs \<Longrightarrow> c' a = c a"
proof (induction xs arbitrary: p p')
  case Nil then show ?case by simp
next
  case (Cons b xs)
  obtain h h' where h: "c b = Some h" "chain c (nxt h) xs" "c' b = Some h'" "chain c' (nxt h') xs"
    using Cons.prems(1,2) by (auto split: option.splits)
  have "nxt h' = nxt h" using chain_hd[OF h(2)] chain_hd[OF h(4)] by simp
  moreover have "dat h' = dat h" using arg_cong[OF Cons.prems(3), of "\<lambda>f. f b"] h by (simp add: info_of_def)
  ultimately have "c' b = c b" using h by simp
  then show ?case using Cons.IH[OF h(2,4) Cons.prems(3)] Cons.prems(4) by auto
qed

section \<open>What the operations do\<close>

lemma find_loop_eq:
  assumes "chain c p xs" "\<forall>a \<in> set xs. \<exists>i. info_of c a = Some i \<and> d i \<noteq> None"
  shows "find_loop hit c d p = Some (find (\<lambda>a. hit (the (d (the (info_of c a))))) xs)"
  using assms
proof (induction xs arbitrary: p)
  case Nil then show ?case by (simp add: find_loop.simps)
next
  case (Cons a xs)
  then show ?case by (subst find_loop.simps) (auto simp: info_of_def split: option.splits)
qed

lemma reverse_loop_eq:
  assumes "chain c p xs" "chain c r ys" "distinct (xs @ ys)"
  shows "\<exists>c' q. reverse_loop c p r = Some (q, c') \<and> chain c' q (rev xs @ ys) \<and>
    info_of c' = info_of c \<and> (\<forall>a. a \<notin> set xs \<longrightarrow> c' a = c a)"
  using assms
proof (induction xs arbitrary: c p r ys)
  case Nil then show ?case by (subst reverse_loop.simps) auto
next
  case (Cons a xs)
  then obtain h where h: "c a = Some h" "p = Some a" "chain c (nxt h) xs" by (auto split: option.splits)
  let ?c = "c(a \<mapsto> h\<lparr>nxt := r\<rparr>)"
  have "\<exists>c' q. reverse_loop ?c (nxt h) (Some a) = Some (q, c') \<and> chain c' q (rev xs @ a # ys) \<and>
    info_of c' = info_of ?c \<and> (\<forall>b. b \<notin> set xs \<longrightarrow> c' b = ?c b)"
  proof (rule Cons.IH[of ?c "nxt h" "Some a" "a # ys"])
    show "chain ?c (nxt h) xs" using h(3) Cons.prems(3) by simp
    show "chain ?c (Some a) (a # ys)" using Cons.prems(2,3) by simp
    show "distinct (xs @ a # ys)" using Cons.prems(3) by auto
  qed
  then show ?case
    by (subst reverse_loop.simps) (auto simp: h set_nxt_eq info_of_relink)
qed


lemma core_list_reverse_eq:
  assumes "chain c p xs"
  shows "\<exists>c' q. core_list_reverse c p = Some (q, c') \<and> chain c' q (rev xs) \<and> info_of c' = info_of c \<and>
    (\<forall>a. a \<notin> set xs \<longrightarrow> c' a = c a)"
  using reverse_loop_eq[of c p xs None "[]"] assms chain_distinct[OF assms]
  by (simp add: core_list_reverse_def)

text \<open>What a search looks for: an index if it is not negative, a low data byte otherwise.\<close>

definition info_matches :: "list_data \<Rightarrow> list_data \<Rightarrow> bool" where
  "info_matches info i \<longleftrightarrow> (if 0 \<le> sint (didx info) then didx i = didx info
     else (scast (data16 i) AND 0xff :: s32) = scast (data16 info))"

lemma core_list_find_eq:
  assumes "chain c p xs" "\<forall>a \<in> set xs. \<exists>i. info_of c a = Some i \<and> d i \<noteq> None"
  shows "core_list_find c d p info = Some (find (\<lambda>a. info_matches info (the (d (the (info_of c a))))) xs)"
  using find_loop_eq[OF assms] by (simp add: core_list_find_def info_matches_def)

lemma core_list_remove_eq:
  assumes "c a = Some h" "nxt h = Some b" "c b = Some r" "a \<noteq> b"
  shows "core_list_remove c a =
    Some (b, c(a \<mapsto> h\<lparr>dat := dat r, nxt := nxt r\<rparr>, b \<mapsto> r\<lparr>dat := dat h, nxt := None\<rparr>))"
  using assms by (simp add: core_list_remove_def set_dat_def set_nxt_def fun_upd_twist[of b a])

lemma core_list_undo_remove_eq:
  assumes "c b = Some r" "c a = Some m" "a \<noteq> b"
  shows "core_list_undo_remove c b a =
    Some (b, c(a \<mapsto> m\<lparr>dat := dat r, nxt := Some b\<rparr>, b \<mapsto> r\<lparr>dat := dat m, nxt := nxt m\<rparr>))"
  using assms by (simp add: core_list_undo_remove_def set_dat_def set_nxt_def fun_upd_twist[of b a])

lemma remove_undo:
  assumes "chain c p (us @ a # b # vs)"
  shows "\<exists>c'. core_list_remove c a = Some (b, c') \<and> chain c' p (us @ a # vs) \<and>
    core_list_undo_remove c' b a = Some (b, c) \<and> info_of c' = (info_of c)(a := info_of c b, b := info_of c a)"
proof -
  have d: "distinct (us @ a # b # vs)" by (rule chain_distinct[OF assms])
  obtain h r where h: "c a = Some h" "nxt h = Some b" "c b = Some r" "chain c (nxt r) vs" "seg c p us (Some a)"
    using assms by (auto simp: seg_append split: option.splits)
  have ab: "a \<noteq> b" using d by auto
  let ?c = "c(a \<mapsto> h\<lparr>dat := dat r, nxt := nxt r\<rparr>, b \<mapsto> r\<lparr>dat := dat h, nxt := None\<rparr>)"
  have "chain ?c p (us @ a # vs)"
    using h d ab by (auto simp: seg_append)
  moreover have "core_list_undo_remove ?c b a = Some (b, c)"
    using h ab by (subst core_list_undo_remove_eq) (auto simp: fun_eq_iff)
  moreover have "info_of ?c = (info_of c)(a := info_of c b, b := info_of c a)"
    using h ab by (auto simp: info_of_def fun_eq_iff)
  ultimately show ?thesis using core_list_remove_eq[OF h(1,2,3) ab] by blast
qed

text \<open>An insertion links the new header behind the insertion point, if both blocks have room.\<close>

lemma core_list_insert_new_eq:
  assumes "chain c p (us @ a # vs)" "memblock b \<notin> set (us @ a # vs)" "c (memblock b) \<noteq> None" "d (datablock b) \<noteq> None"
    and "memblock b + 1 < me" "datablock b + 1 < de"
  shows "\<exists>c' d'. core_list_insert_new a info b me de c d =
      Some (Some (memblock b), \<lparr>memblock = memblock b + 1, datablock = datablock b + 1\<rparr>, c', d') \<and>
    chain c' p (us @ a # memblock b # vs) \<and> info_of c' = (info_of c)(memblock b \<mapsto> datablock b) \<and>
    (\<exists>i. d' = d(datablock b \<mapsto> i) \<and> data16 i = data16 info \<and> didx i = didx info) \<and>
    dom c' = dom c"
proof -
  have ds: "distinct (us @ a # vs)" by (rule chain_distinct[OF assms(1)])
  obtain h where h: "c a = Some h" "chain c (nxt h) vs" "seg c p us (Some a)"
    using assms(1) by (auto simp: seg_append split: option.splits)
  obtain n where n: "c (memblock b) = Some n" using assms(3) by auto
  obtain t where t: "d (datablock b) = Some t" using assms(4) by auto
  let ?m = "memblock b"
  let ?n = "n\<lparr>nxt := nxt h, dat := datablock b\<rparr>" and ?h = "h\<lparr>nxt := Some ?m\<rparr>"
  have am: "a \<noteq> ?m" using assms(2) by auto
  have r: "core_list_insert_new a info b me de c d =
      Some (Some ?m, \<lparr>memblock = ?m + 1, datablock = datablock b + 1\<rparr>, c(a \<mapsto> ?h, ?m \<mapsto> ?n),
        d(datablock b \<mapsto> t\<lparr>data16 := data16 info, didx := didx info\<rparr>))"
    using assms(5,6) h(1) n t am
    by (simp add: core_list_insert_new_def set_nxt_def set_dat_def copy_info_def Let_def fun_upd_twist[of a ?m])
  have "chain (c(a \<mapsto> ?h, ?m \<mapsto> ?n)) p (us @ a # ?m # vs)"
    using h n ds assms(2) am by (auto simp: seg_append)
  moreover have "info_of (c(a \<mapsto> ?h, ?m \<mapsto> ?n)) = (info_of c)(?m \<mapsto> datablock b)"
    using h(1) by (auto simp: info_of_def fun_eq_iff)
  moreover have "dom (c(a \<mapsto> ?h, ?m \<mapsto> ?n)) = dom c" using h(1) n by auto
  ultimately show ?thesis using r by auto
qed

end
