(* ===== verification/List_Sort.thy ===== *)
theory List_Sort
  imports List_Heap "HOL-Library.Multiset"
begin

text \<open>
  The bottom-up merge sort of \<open>core_list_join.c\<close>, which relinks a list in place, and its
  correctness for every comparison that behaves: it returns, the result is a sorted
  permutation, and equal elements keep their order.
\<close>

section \<open>The sort\<close>

text \<open>
  A comparison gets two data nodes and may change the state it works on (it caches results in
  the data). The counts \<open>insize\<close>, \<open>psize\<close> and \<open>qsize\<close> are at most twice the length of a list
  in memory, which 31 bits hold; they are natural numbers here.
\<close>

type_synonym 's list_cmp = "'s \<Rightarrow> nat \<Rightarrow> nat \<Rightarrow> (s32 \<times> 's) option"

text \<open>\<open>for (i = 0; i < insize; i++) { psize++; q = q->next; if (!q) break; }\<close>\<close>

fun step_along :: "cells \<Rightarrow> nat \<Rightarrow> ptr \<Rightarrow> nat \<Rightarrow> (nat \<times> ptr) option" where
  "step_along c 0 q psize = Some (psize, q)"
| "step_along c (Suc n) q psize = do {
     a \<leftarrow> q;
     h \<leftarrow> c a;
     if nxt h = None then Some (psize + 1, None) else step_along c n (nxt h) (psize + 1) }"

text \<open>Whether the next element comes from \<open>p\<close>; only the last test calls the comparison.\<close>

definition take_p :: "'s list_cmp \<Rightarrow> nat \<Rightarrow> nat \<Rightarrow> ptr \<Rightarrow> ptr \<Rightarrow> cells \<Rightarrow> 's \<Rightarrow> (bool \<times> 's) option" where
  "take_p cmp psize qsize p q c s =
    (if psize = 0 then Some (False, s)
     else if qsize = 0 \<or> q = None then Some (True, s)
     else do {
       a \<leftarrow> p;
       ha \<leftarrow> c a;
       b \<leftarrow> q;
       hb \<leftarrow> c b;
       (r, s) \<leftarrow> cmp s (dat ha) (dat hb);
       Some (sint r \<le> 0, s) })"

text \<open>The element is linked behind \<open>tail\<close>, or becomes the head.\<close>

definition add_elem :: "ptr \<Rightarrow> ptr \<Rightarrow> nat \<Rightarrow> cells \<Rightarrow> (ptr \<times> cells) option" where
  "add_elem list tail e c =
    (case tail of
       Some t \<Rightarrow> do { c \<leftarrow> set_nxt t (Some e) c; Some (list, c) }
     | None \<Rightarrow> Some (Some e, c))"

function merge_loop :: "'s list_cmp \<Rightarrow> nat \<Rightarrow> nat \<Rightarrow> ptr \<Rightarrow> ptr \<Rightarrow> ptr \<Rightarrow> ptr \<Rightarrow> cells \<Rightarrow> 's \<Rightarrow>
    (ptr \<times> ptr \<times> ptr \<times> cells \<times> 's) option" where
  "merge_loop cmp psize qsize p q list tail c s =
    (if psize > 0 \<or> (qsize > 0 \<and> q \<noteq> None) then
       (case take_p cmp psize qsize p q c s of
          None \<Rightarrow> None
        | Some (True, s) \<Rightarrow> (case p of None \<Rightarrow> None | Some e \<Rightarrow> (case c e of None \<Rightarrow> None | Some h \<Rightarrow>
            (case add_elem list tail e c of None \<Rightarrow> None | Some (list, c) \<Rightarrow>
              if psize = 0 then None
              else merge_loop cmp (psize - 1) qsize (nxt h) q list (Some e) c s)))
        | Some (False, s) \<Rightarrow> (case q of None \<Rightarrow> None | Some e \<Rightarrow> (case c e of None \<Rightarrow> None | Some h \<Rightarrow>
            (case add_elem list tail e c of None \<Rightarrow> None | Some (list, c) \<Rightarrow>
              if qsize = 0 then None
              else merge_loop cmp psize (qsize - 1) p (nxt h) list (Some e) c s))))
     else Some (q, list, tail, c, s))"
  by pat_completeness auto
termination by (relation "measure (\<lambda>(cmp, psize, qsize, p, q, list, tail, c, s). psize + qsize)") auto

declare merge_loop.simps [simp del]

text \<open>One pass over the list; \<open>nmerges\<close> counts the merges.\<close>

partial_function (option) pass_loop :: "'s list_cmp \<Rightarrow> nat \<Rightarrow> ptr \<Rightarrow> nat \<Rightarrow> ptr \<Rightarrow> ptr \<Rightarrow> cells \<Rightarrow> 's \<Rightarrow>
    (ptr \<times> ptr \<times> nat \<times> cells \<times> 's) option" where
  "pass_loop cmp insize p nmerges list tail c s =
    (if p = None then Some (list, tail, nmerges, c, s)
     else do {
       (psize, q) \<leftarrow> step_along c insize p 0;
       (q, list, tail, c, s) \<leftarrow> merge_loop cmp psize insize p q list tail c s;
       pass_loop cmp insize q (nmerges + 1) list tail c s })"

declare pass_loop.simps [code]

text \<open>The passes; \<open>tail->next = NULL\<close> at the end of each dereferences \<open>tail\<close>.\<close>

partial_function (option) sort_loop :: "'s list_cmp \<Rightarrow> nat \<Rightarrow> ptr \<Rightarrow> cells \<Rightarrow> 's \<Rightarrow> (ptr \<times> cells \<times> 's) option" where
  "sort_loop cmp insize list c s = do {
     (list, tail, nmerges, c, s) \<leftarrow> pass_loop cmp insize list 0 None None c s;
     t \<leftarrow> tail;
     c \<leftarrow> set_nxt t None c;
     if nmerges \<le> 1 then Some (list, c, s) else sort_loop cmp (insize * 2) list c s }"

declare sort_loop.simps [code]

definition core_list_mergesort :: "'s list_cmp \<Rightarrow> ptr \<Rightarrow> cells \<Rightarrow> 's \<Rightarrow> (ptr \<times> cells \<times> 's) option" where
  "core_list_mergesort cmp list c s = sort_loop cmp 1 list c s"

section \<open>Merging as a function on sequences\<close>

text \<open>The comparison of two headers is the comparison of their data nodes.\<close>

definition cmp_heads :: "'s list_cmp \<Rightarrow> (nat \<Rightarrow> nat option) \<Rightarrow> 's \<Rightarrow> nat \<Rightarrow> nat \<Rightarrow> (s32 \<times> 's) option" where
  "cmp_heads cmp J s a b = do { i \<leftarrow> J a; j \<leftarrow> J b; cmp s i j }"

fun merge :: "('s \<Rightarrow> 'a \<Rightarrow> 'a \<Rightarrow> (s32 \<times> 's) option) \<Rightarrow> 's \<Rightarrow> 'a list \<Rightarrow> 'a list \<Rightarrow> ('a list \<times> 's) option" where
  "merge cmp s [] ys = Some (ys, s)"
| "merge cmp s (x # xs) [] = Some (x # xs, s)"
| "merge cmp s (x # xs) (y # ys) = (case cmp s x y of None \<Rightarrow> None | Some (r, s) \<Rightarrow>
     if sint r \<le> 0
     then (case merge cmp s xs (y # ys) of None \<Rightarrow> None | Some (zs, s) \<Rightarrow> Some (x # zs, s))
     else (case merge cmp s (x # xs) ys of None \<Rightarrow> None | Some (zs, s) \<Rightarrow> Some (y # zs, s)))"

function pass :: "('s \<Rightarrow> 'a \<Rightarrow> 'a \<Rightarrow> (s32 \<times> 's) option) \<Rightarrow> nat \<Rightarrow> 's \<Rightarrow> 'a list \<Rightarrow> ('a list \<times> 's) option" where
  "pass cmp n s xs = (if xs = [] \<or> n = 0 then Some ([], s)
     else case merge cmp s (take n xs) (take n (drop n xs)) of None \<Rightarrow> None | Some (zs, s) \<Rightarrow>
       (case pass cmp n s (drop (2 * n) xs) of None \<Rightarrow> None | Some (rest, s) \<Rightarrow> Some (zs @ rest, s)))"
  by pat_completeness auto
termination by (relation "measure (\<lambda>(cmp, n, s, xs). length xs)") auto

declare pass.simps [simp del]

lemma merge_mset: "merge cmp s xs ys = Some (zs, s') \<Longrightarrow> mset zs = mset xs + mset ys"
proof (induction cmp s xs ys arbitrary: zs s' rule: merge.induct)
  case (3 cmp s x xs y ys)
  obtain r s1 where r: "cmp s x y = Some (r, s1)" using 3(3) by (auto split: option.splits)
  show ?case
  proof (cases "sint r \<le> 0")
    case True
    then show ?thesis using 3(1)[OF r refl True] 3(3) r by (auto split: option.splits)
  next
    case False
    then show ?thesis using 3(2)[OF r refl False] 3(3) r by (auto split: option.splits)
  qed
qed simp_all

lemma pass_mset: "pass cmp n s xs = Some (zs, s') \<Longrightarrow> 0 < n \<Longrightarrow> mset zs = mset xs"
proof (induction cmp n s xs arbitrary: zs s' rule: pass.induct)
  case (1 cmp n s xs)
  show ?case
  proof (cases "xs = []")
    case True then show ?thesis using 1(2) by (simp add: pass.simps[of _ _ _ "[]"])
  next
    case False
    then obtain ys s1 rest where "merge cmp s (take n xs) (take n (drop n xs)) = Some (ys, s1)"
      "pass cmp n s1 (drop (2 * n) xs) = Some (rest, s')" "zs = ys @ rest"
      using 1(2,3) by (auto simp: pass.simps[of _ _ _ xs] split: option.splits)
    moreover from this have "mset rest = mset (drop (2 * n) xs)" using 1(1)[of "(ys, s1)" ys s1] False 1(3) by auto
    moreover have "mset (take n xs) + mset (take n (drop n xs)) + mset (drop (2 * n) xs) = mset xs"
      by (metis append_take_drop_id drop_drop mset_append mult_2 union_assoc)
    ultimately show ?thesis using merge_mset by (metis mset_append)
  qed
qed

section \<open>The sort in the heap implements it\<close>

text \<open>The part of the result built so far: \<open>list\<close> and \<open>tail\<close> hold the headers \<open>out\<close>.\<close>

definition built :: "cells \<Rightarrow> ptr \<Rightarrow> ptr \<Rightarrow> nat list \<Rightarrow> bool" where
  "built c list tail out \<longleftrightarrow>
    (if out = [] then list = None \<and> tail = None
     else tail = Some (last out) \<and> seg c list (butlast out) tail \<and> c (last out) \<noteq> None)"

lemma built_snoc:
  assumes "built c list tail out" "c e = Some h" "e \<notin> set out" "distinct out"
  shows "\<exists>list' c'. add_elem list tail e c = Some (list', c') \<and> built c' list' (Some e) (out @ [e]) \<and>
    info_of c' = info_of c \<and> (\<forall>a. a \<notin> set out \<longrightarrow> c' a = c a)"
proof (cases out rule: rev_cases)
  case Nil
  then show ?thesis using assms by (auto simp: built_def add_elem_def)
next
  case (snoc us t)
  then obtain g where g: "c t = Some g" "tail = Some t" "seg c list us (Some t)"
    using assms(1) by (auto simp: built_def)
  have te: "t \<noteq> e" "t \<notin> set us" using assms(3,4) snoc by auto
  let ?c = "c(t \<mapsto> g\<lparr>nxt := Some e\<rparr>)"
  have "seg ?c list out (Some e)" using g te snoc by (simp add: seg_snoc)
  then have "built ?c list (Some e) (out @ [e])" using assms(2) te by (simp add: built_def)
  then show ?thesis using g snoc by (auto simp: add_elem_def set_nxt_eq info_of_relink)
qed

lemma built_finish:
  assumes "built c list tail out" "out \<noteq> []" "distinct out"
  shows "\<exists>t c'. tail = Some t \<and> set_nxt t None c = Some c' \<and> chain c' list out \<and> info_of c' = info_of c \<and>
    (\<forall>a. a \<notin> set out \<longrightarrow> c' a = c a)"
proof -
  obtain us t where out: "out = us @ [t]" using assms(2) by (cases out rule: rev_cases) auto
  obtain g where g: "c t = Some g" "tail = Some t" "seg c list us (Some t)"
    using assms(1) out by (auto simp: built_def)
  have "chain (c(t \<mapsto> g\<lparr>nxt := None\<rparr>)) list out" using g out assms(3) by (simp add: seg_snoc)
  then show ?thesis using g out by (auto simp: set_nxt_eq info_of_relink)
qed

lemma step_along_eq:
  assumes "chain c p xs" "xs \<noteq> []"
  shows "step_along c n p k =
    Some (k + min n (length xs), case drop n xs of [] \<Rightarrow> None | b # _ \<Rightarrow> Some b)"
  using assms
proof (induction n arbitrary: p xs k)
  case 0 then show ?case by (cases xs) auto
next
  case (Suc n)
  then obtain a ys h where xs: "xs = a # ys" "p = Some a" "c a = Some h" "chain c (nxt h) ys"
    by (cases xs) (auto split: option.splits)
  then show ?case using Suc.IH[of "nxt h" ys "k + 1"] chain_hd[OF xs(4)] by (cases ys) auto
qed

lemma info_of_Some: "info_of c a = Some i \<longleftrightarrow> (\<exists>h. c a = Some h \<and> dat h = i)"
  by (auto simp: info_of_def)

lemma merge_loop_refines:
  assumes "merge (cmp_heads cmp J) s ps (take k qs) = Some (zs, s')"
    and "info_of c = J" "seg c p ps r" "chain c q qs" "built c list tail out"
    and "distinct (out @ ps @ qs)"
  shows "\<exists>c' list' tail' q'. merge_loop cmp (length ps) k p q list tail c s = Some (q', list', tail', c', s') \<and>
    built c' list' tail' (out @ zs) \<and> chain c' q' (drop k qs) \<and> info_of c' = J \<and>
    (\<forall>a. a \<notin> set out \<union> set ps \<union> set (take k qs) \<longrightarrow> c' a = c a)"
  using assms
proof (induction "length ps + k" arbitrary: ps k qs p q list tail c s out zs rule: less_induct)
  case less
  note prems = less.prems
  show ?case
  proof (cases "ps = [] \<and> take k qs = []")
    case True
    then have "\<not> (0 < length ps \<or> (0 < k \<and> q \<noteq> None))" using chain_hd[OF prems(4)] by (cases qs) auto
    then have "merge_loop cmp (length ps) k p q list tail c s = Some (q, list, tail, c, s)"
      by (subst merge_loop.simps) (simp only: if_False)
    moreover have "zs = []" "s' = s" "drop k qs = qs" using True prems(1) by auto
    ultimately show ?thesis using prems(2,4,5) by simp
  next
    case nonempty: False
    then have guard: "0 < length ps \<or> (0 < k \<and> q \<noteq> None)"
      using chain_hd[OF prems(4)] by (cases qs; cases k) auto
    have from_p: ?thesis
      if ps: "ps = x # xs" and t: "take_p cmp (length ps) k p q c s = Some (True, s1)"
        and m: "merge (cmp_heads cmp J) s1 xs (take k qs) = Some (zs1, s')" "zs = x # zs1" for x xs s1 zs1
    proof -
      obtain h where h: "p = Some x" "c x = Some h" "seg c (nxt h) xs r"
        using prems(3) ps by (auto split: option.splits)
      have x: "x \<notin> set out" "x \<notin> set xs" "x \<notin> set qs" "distinct out" using prems(6) ps by auto
      obtain list1 c1 where a: "add_elem list tail x c = Some (list1, c1)" "built c1 list1 (Some x) (out @ [x])"
        "info_of c1 = info_of c" "\<forall>a. a \<notin> set out \<longrightarrow> c1 a = c a"
        using built_snoc[OF prems(5) h(2) x(1,4)] by blast
      have "\<exists>c' list' tail' q'. merge_loop cmp (length xs) k (nxt h) q list1 (Some x) c1 s1 =
          Some (q', list', tail', c', s') \<and> built c' list' tail' ((out @ [x]) @ zs1) \<and>
        chain c' q' (drop k qs) \<and> info_of c' = J \<and>
        (\<forall>a. a \<notin> set (out @ [x]) \<union> set xs \<union> set (take k qs) \<longrightarrow> c' a = c1 a)"
      proof (rule less.hyps)
        show "seg c1 (nxt h) xs r" using h(3) a(4) prems(6) ps by (subst seg_cong[of _ c1 c]) auto
        show "chain c1 q qs" using prems(4,6) a(4) ps by (subst seg_cong[of _ c1 c]) auto
      qed (use m a prems ps in auto)
      then show ?thesis using guard t h a m ps by (subst merge_loop.simps) auto
    qed
    have from_q: ?thesis
      if qs: "take k qs = y # ys" and t: "take_p cmp (length ps) k p q c s = Some (False, s1)"
        and m: "merge (cmp_heads cmp J) s1 ps ys = Some (zs1, s')" "zs = y # zs1" for y ys s1 zs1
    proof -
      obtain k' qs' where k: "k = Suc k'" "qs = y # qs'" "ys = take k' qs'"
        using qs by (cases k; cases qs) auto
      obtain h where h: "q = Some y" "c y = Some h" "chain c (nxt h) qs'"
        using prems(4) k by (auto split: option.splits)
      have y: "y \<notin> set out" "y \<notin> set qs'" "y \<notin> set ps" "distinct out" using prems(6) k by auto
      obtain list1 c1 where a: "add_elem list tail y c = Some (list1, c1)" "built c1 list1 (Some y) (out @ [y])"
        "info_of c1 = info_of c" "\<forall>a. a \<notin> set out \<longrightarrow> c1 a = c a"
        using built_snoc[OF prems(5) h(2) y(1,4)] by blast
      have "\<exists>c' list' tail' q'. merge_loop cmp (length ps) k' p (nxt h) list1 (Some y) c1 s1 =
          Some (q', list', tail', c', s') \<and> built c' list' tail' ((out @ [y]) @ zs1) \<and>
        chain c' q' (drop k' qs') \<and> info_of c' = J \<and>
        (\<forall>a. a \<notin> set (out @ [y]) \<union> set ps \<union> set (take k' qs') \<longrightarrow> c' a = c1 a)"
      proof (rule less.hyps)
        show "seg c1 p ps r" using prems(3,6) a(4) by (subst seg_cong[of _ c1 c]) auto
        show "chain c1 (nxt h) qs'" using h(3) a(4) prems(6) k by (subst seg_cong[of _ c1 c]) auto
      qed (use m a prems k in auto)
      then show ?thesis using guard t h a m k by (subst merge_loop.simps) auto
    qed
    show ?thesis
    proof (cases ps)
      case Nil
      with nonempty obtain y ys where "take k qs = y # ys" by (cases "take k qs") auto
      moreover have "zs = take k qs" "s' = s" using Nil prems(1) by simp_all
      ultimately show ?thesis using from_q[of y ys s ys] Nil by (simp add: take_p_def)
    next
      case (Cons x xs)
      show ?thesis
      proof (cases "take k qs")
        case Nil
        then have "k = 0 \<or> q = None" using chain_hd[OF prems(4)] by (cases qs; cases k) auto
        moreover have "merge (cmp_heads cmp J) s xs (take k qs) = Some (xs, s)" by (cases xs) (simp_all only: Nil merge.simps)
        moreover have "zs = x # xs" "s' = s" using prems(1) unfolding Cons Nil by simp_all
        ultimately show ?thesis using from_p[of x xs s xs] Cons by (simp add: take_p_def)
      next
        case q: (Cons y ys)
        then have k: "k \<noteq> 0" "q = Some y" using chain_hd[OF prems(4)] by (cases qs; cases k; simp)+
        have p: "p = Some x" using prems(3) Cons by simp
        obtain rr s1 where r: "cmp_heads cmp J s x y = Some (rr, s1)"
          using prems(1) Cons q by (auto split: option.splits)
        then have t: "take_p cmp (length ps) k p q c s = Some (sint rr \<le> 0, s1)"
          using k p Cons prems(2) by (auto simp: take_p_def cmp_heads_def info_of_def split: Option.bind_splits)
        show ?thesis
        proof (cases "sint rr \<le> 0")
          case True
          then show ?thesis using from_p[OF Cons] t prems(1) Cons q r by (auto split: option.splits)
        next
          case False
          then show ?thesis using from_q[OF q] t prems(1) Cons q r by (auto split: option.splits)
        qed
      qed
    qed
  qed
qed


lemma pass_loop_refines:
  assumes "pass (cmp_heads cmp J) n s xs = Some (zs, s')" "0 < n"
    and "info_of c = J" "chain c p xs" "built c list tail out" "distinct (out @ xs)"
  shows "\<exists>c' list' tail'. pass_loop cmp n p m list tail c s =
      Some (list', tail', m + (length xs + n * 2 - 1) div (n * 2), c', s') \<and>
    built c' list' tail' (out @ zs) \<and> info_of c' = J \<and> (\<forall>a. a \<notin> set out \<union> set xs \<longrightarrow> c' a = c a)"
  using assms
proof (induction "length xs" arbitrary: xs m p list tail c s out zs rule: less_induct)
  case less
  note prems = less.prems
  show ?case
  proof (cases xs)
    case Nil
    then show ?thesis using prems chain_hd[OF prems(4)]
      by (subst pass_loop.simps) (auto simp: pass.simps[of _ _ _ "[]"])
  next
    case Cons
    then have xs: "xs \<noteq> []" "p \<noteq> None" using chain_hd[OF prems(4)] by auto
    obtain ys s1 zs1 where m1: "merge (cmp_heads cmp J) s (take n xs) (take n (drop n xs)) = Some (ys, s1)"
      and p1: "pass (cmp_heads cmp J) n s1 (drop (2 * n) xs) = Some (zs1, s')" and zs: "zs = ys @ zs1"
      using prems(1) xs prems(2) by (auto simp: pass.simps[of _ _ _ xs] split: option.splits)
    obtain q where q: "seg c p (take n xs) q" "chain c q (drop n xs)"
      using seg_append[of c p "take n xs" "drop n xs" None] prems(4) by auto
    have "step_along c n p 0 = Some (length (take n xs), q)"
      using step_along_eq[OF prems(4) xs(1), of n 0] chain_hd[OF q(2)]
      by (simp add: min.commute split: list.splits)
    moreover have d: "distinct (out @ take n xs @ drop n xs)" using prems(6) by simp
    note r = merge_loop_refines[OF m1 prems(3) q prems(5) d]
    then obtain c1 list1 tail1 q1 where
      c1: "merge_loop cmp (length (take n xs)) n p q list tail c s = Some (q1, list1, tail1, c1, s1)"
        "built c1 list1 tail1 (out @ ys)" "chain c1 q1 (drop (2 * n) xs)" "info_of c1 = J"
        "\<forall>a. a \<notin> set out \<union> set (take n xs) \<union> set (take n (drop n xs)) \<longrightarrow> c1 a = c a"
      by (auto simp: mult_2)
    have ys: "mset (ys @ drop (2 * n) xs) = mset xs"
      unfolding mset_append merge_mset[OF m1] by (metis append_take_drop_id drop_drop mset_append mult_2 union_assoc)
    then have set_ys: "set ys \<union> set (drop (2 * n) xs) = set xs" by (metis set_append set_mset_mset)
    have "distinct (ys @ drop (2 * n) xs)" using prems(6) ys by (metis distinct_append mset_eq_imp_distinct_iff)
    then have dist: "distinct (out @ ys @ drop (2 * n) xs)" using prems(6) set_ys by auto
    have "\<exists>c' list' tail'. pass_loop cmp n q1 (m + 1) list1 tail1 c1 s1 =
        Some (list', tail', m + 1 + (length (drop (2 * n) xs) + n * 2 - 1) div (n * 2), c', s') \<and>
      built c' list' tail' ((out @ ys) @ zs1) \<and> info_of c' = J \<and>
      (\<forall>a. a \<notin> set (out @ ys) \<union> set (drop (2 * n) xs) \<longrightarrow> c' a = c1 a)"
    proof (rule less.hyps)
      show "length (drop (2 * n) xs) < length xs" using xs prems(2) by (cases xs) auto
      show "distinct ((out @ ys) @ drop (2 * n) xs)" using dist by simp
    qed (use p1 c1 prems(2) in auto)
    moreover have "m + 1 + (length (drop (2 * n) xs) + n * 2 - 1) div (n * 2) = m + (length xs + n * 2 - 1) div (n * 2)"
    proof (cases "length xs \<le> 2 * n")
      case True
      obtain l where l: "length xs = Suc l" using xs by (cases xs) auto
      have "(Suc l + n * 2 - 1) div (n * 2) = 1" using True l prems(2) div_add_self2[of "n * 2" l] by simp
      moreover have "(n * 2 - 1) div (n * 2) = 0" using prems(2) by simp
      ultimately show ?thesis using True l by simp
    next
      case False
      then have "length xs + n * 2 - 1 = (length xs - 1) + n * 2" "length (drop (2 * n) xs) + n * 2 = length xs"
        using xs by auto
      then show ?thesis using prems(2) by (simp only: div_add_self2)
    qed
    moreover have "set (take n xs) \<union> set (take n (drop n xs)) \<subseteq> set xs"
      using set_take_subset set_drop_subset by fast
    ultimately obtain c2 list2 tail2 where c2: "step_along c n p 0 = Some (length (take n xs), q)"
      "pass_loop cmp n q1 (m + 1) list1 tail1 c1 s1 =
        Some (list2, tail2, m + (length xs + n * 2 - 1) div (n * 2), c2, s')"
      "built c2 list2 tail2 (out @ zs)" "info_of c2 = J"
      "\<forall>a. a \<notin> set (out @ ys) \<union> set (drop (2 * n) xs) \<longrightarrow> c2 a = c1 a"
      "set (take n xs) \<union> set (take n (drop n xs)) \<subseteq> set xs"
      using zs by (auto simp only: append_assoc)
    have sub: "set ys \<union> set (drop (2 * n) xs) \<subseteq> set xs" using set_ys by simp
    have "c2 a = c a" if "a \<notin> set out \<union> set xs" for a
    proof -
      have "a \<notin> set (out @ ys) \<union> set (drop (2 * n) xs)" using that sub by auto
      moreover have "a \<notin> set out \<union> set (take n xs) \<union> set (take n (drop n xs))" using that c2(6) by blast
      ultimately show ?thesis using c2(5) c1(5) by simp
    qed
    then have "\<forall>a. a \<notin> set out \<union> set xs \<longrightarrow> c2 a = c a" by blast
    moreover have "pass_loop cmp n p m list tail c s =
        Some (list2, tail2, m + (length xs + n * 2 - 1) div (n * 2), c2, s')"
      using xs(2) c2(1,2) c1(1) by (subst pass_loop.simps) (simp del: not_None_eq)
    ultimately show ?thesis using c2(3,4) by blast
  qed
qed

section \<open>Comparisons that behave\<close>

text \<open>
  A comparison may compute the key of an element when it first sees it. So the key is a partial
  function of the state, which only gets more defined.
\<close>

definition key_le :: "('a \<Rightarrow> int option) \<Rightarrow> 'a \<Rightarrow> 'a \<Rightarrow> bool" where
  "key_le K a b \<longleftrightarrow> (case K a of None \<Rightarrow> False | Some j \<Rightarrow> (case K b of None \<Rightarrow> False | Some k \<Rightarrow> j \<le> k))"

definition extends :: "('a \<Rightarrow> int option) \<Rightarrow> ('a \<Rightarrow> int option) \<Rightarrow> bool" where
  "extends K K' \<longleftrightarrow> (\<forall>x k. K x = Some k \<longrightarrow> K' x = Some k)"

lemma extends_refl [simp]: "extends K K"
  by (simp add: extends_def)

lemma extends_trans: "extends K K' \<Longrightarrow> extends K' K'' \<Longrightarrow> extends K K''"
  by (simp add: extends_def)

lemma key_le_extends: "extends K K' \<Longrightarrow> key_le K a b \<Longrightarrow> key_le K' a b"
  by (auto simp: key_le_def extends_def split: option.splits)

lemma key_le_trans: "key_le K a b \<Longrightarrow> key_le K b c \<Longrightarrow> key_le K a c"
  by (auto simp: key_le_def split: option.splits)

lemma sorted_extends: "extends K K' \<Longrightarrow> sorted_wrt (key_le K) xs \<Longrightarrow> sorted_wrt (key_le K') xs"
  by (rule sorted_wrt_mono_rel[of xs "key_le K"]) (simp_all add: key_le_extends)

text \<open>The consecutive runs of length \<open>n\<close> are sorted.\<close>

definition runs :: "('a \<Rightarrow> int option) \<Rightarrow> nat \<Rightarrow> 'a list \<Rightarrow> bool" where
  "runs K n xs \<longleftrightarrow> (\<forall>i. sorted_wrt (key_le K) (take n (drop (i * n) xs)))"

lemma runs_one: "runs K 1 xs"
proof -
  have "length (take 1 (drop i xs)) \<le> 1" for i by simp
  then show ?thesis unfolding runs_def by (metis sorted_wrt01)
qed

lemma runs_all: "runs K n xs \<Longrightarrow> length xs \<le> n \<Longrightarrow> sorted_wrt (key_le K) xs"
  unfolding runs_def by (drule spec[of _ 0]) simp

lemma runs_drop: "runs K n xs \<Longrightarrow> runs K n (drop (m * n) xs)"
  unfolding runs_def by (metis add_mult_distrib drop_drop)

lemma runs_Cons:
  assumes "sorted_wrt (key_le K) zs" "runs K n rest" "length zs \<le> n" "rest \<noteq> [] \<longrightarrow> length zs = n"
  shows "runs K n (zs @ rest)"
  unfolding runs_def
proof
  fix i show "sorted_wrt (key_le K) (take n (drop (i * n) (zs @ rest)))"
  proof (cases i)
    case 0
    then show ?thesis using assms(1,3,4) by (cases "rest = []") auto
  next
    case (Suc j)
    have "drop (i * n) (zs @ rest) = drop (j * n) rest"
      using assms(3,4) Suc by (cases "rest = []") auto
    then show ?thesis using assms(2) by (simp add: runs_def)
  qed
qed

locale comparator =
  fixes cmp :: "'s \<Rightarrow> 'a \<Rightarrow> 'a \<Rightarrow> (s32 \<times> 's) option"
    and key :: "'s \<Rightarrow> 'a \<Rightarrow> int option"
    and inv :: "'s \<Rightarrow> bool"
    and D :: "'a set"
  assumes cmp_ok: "inv s \<Longrightarrow> a \<in> D \<Longrightarrow> b \<in> D \<Longrightarrow>
    \<exists>r s' j k. cmp s a b = Some (r, s') \<and> inv s' \<and> extends (key s) (key s') \<and>
      key s' a = Some j \<and> key s' b = Some k \<and> (sint r \<le> 0 \<longleftrightarrow> j \<le> k)"
begin

lemma merge_sorts:
  assumes "inv s" "set xs \<subseteq> D" "set ys \<subseteq> D" "sorted_wrt (key_le (key s)) xs" "sorted_wrt (key_le (key s)) ys"
  shows "\<exists>zs s'. merge cmp s xs ys = Some (zs, s') \<and> inv s' \<and> extends (key s) (key s') \<and>
    sorted_wrt (key_le (key s')) zs \<and>
    (\<forall>K k. extends (key s') K \<longrightarrow>
      filter (\<lambda>a. K a = Some k) zs = filter (\<lambda>a. K a = Some k) xs @ filter (\<lambda>a. K a = Some k) ys)"
  using assms
proof (induction "length xs + length ys" arbitrary: xs ys s rule: less_induct)
  case less
  note prems = less.prems
  show ?case
  proof (cases "xs = [] \<or> ys = []")
    case True
    then show ?thesis using prems by (cases xs) auto
  next
    case False
    then obtain x xs' y ys' where xy: "xs = x # xs'" "ys = y # ys'" by (cases xs; cases ys) auto
    then have D: "x \<in> D" "y \<in> D" using prems by auto
    obtain r s1 j k where c: "cmp s x y = Some (r, s1)" "inv s1" "extends (key s) (key s1)"
      "key s1 x = Some j" "key s1 y = Some k" "sint r \<le> 0 \<longleftrightarrow> j \<le> k"
      using cmp_ok[OF prems(1) D] by blast
    have s1: "sorted_wrt (key_le (key s1)) xs" "sorted_wrt (key_le (key s1)) ys"
      using sorted_extends[OF c(3)] prems(4,5) by blast+
    show ?thesis
    proof (cases "j \<le> k")
      case True
      then obtain zs s' where m: "merge cmp s1 xs' ys = Some (zs, s')" "inv s'" "extends (key s1) (key s')"
        "sorted_wrt (key_le (key s')) zs" "\<forall>K k. extends (key s') K \<longrightarrow>
          filter (\<lambda>a. K a = Some k) zs = filter (\<lambda>a. K a = Some k) xs' @ filter (\<lambda>a. K a = Some k) ys"
        using less.hyps[of xs' ys s1] xy c(2) prems s1 by auto
      have "key_le (key s1) x y" using c True by (simp add: key_le_def)
      then have "\<forall>b \<in> set xs' \<union> set ys. key_le (key s1) x b"
        using s1 xy key_le_trans[of "key s1" x y] by auto
      then have "\<forall>b \<in> set zs. key_le (key s') x b"
        using key_le_extends[OF m(3)] mset_eq_setD[of zs "xs' @ ys"] merge_mset[OF m(1)] by auto
      then show ?thesis using m c xy True extends_trans[OF c(3) m(3)] by auto
    next
      case False
      then obtain zs s' where m: "merge cmp s1 xs ys' = Some (zs, s')" "inv s'" "extends (key s1) (key s')"
        "sorted_wrt (key_le (key s')) zs" "\<forall>K k. extends (key s') K \<longrightarrow>
          filter (\<lambda>a. K a = Some k) zs = filter (\<lambda>a. K a = Some k) xs @ filter (\<lambda>a. K a = Some k) ys'"
        using less.hyps[of xs ys' s1] xy c(2) prems s1 by auto
      have "key_le (key s1) y x" using c False by (simp add: key_le_def)
      then have "\<forall>b \<in> set xs \<union> set ys'. key_le (key s1) y b"
        using s1 xy key_le_trans[of "key s1" y x] by auto
      then have le: "\<forall>b \<in> set zs. key_le (key s') y b"
        using key_le_extends[OF m(3)] mset_eq_setD[of zs "xs @ ys'"] merge_mset[OF m(1)] by auto
      have "filter (\<lambda>a. K a = Some i) xs = []" if K: "extends (key s') K" and y: "K y = Some i" for K i
      proof -
        have "extends (key s1) K" using extends_trans[OF m(3) K] .
        then have "K x = Some j" "K y = Some k" using c by (auto simp: extends_def)
        moreover have "key_le K x b" if "b \<in> set xs'" for b
          using that s1 xy key_le_extends[OF \<open>extends (key s1) K\<close>] by auto
        ultimately show ?thesis using y False xy
          by (fastforce simp: filter_empty_conv key_le_def)
      qed
      then have "\<forall>K i. extends (key s') K \<longrightarrow> filter (\<lambda>a. K a = Some i) (y # zs) =
          filter (\<lambda>a. K a = Some i) xs @ filter (\<lambda>a. K a = Some i) ys"
        using m(5) xy by auto
      then show ?thesis using m c xy False le extends_trans[OF c(3) m(3)] by auto
    qed
  qed
qed

lemma pass_sorts:
  assumes "inv s" "set xs \<subseteq> D" "runs (key s) n xs" "0 < n"
  shows "\<exists>ys s'. pass cmp n s xs = Some (ys, s') \<and> inv s' \<and> extends (key s) (key s') \<and>
    runs (key s') (2 * n) ys \<and>
    (\<forall>K k. extends (key s') K \<longrightarrow> filter (\<lambda>a. K a = Some k) ys = filter (\<lambda>a. K a = Some k) xs)"
  using assms
proof (induction "length xs" arbitrary: xs s rule: less_induct)
  case less
  note prems = less.prems
  show ?case
  proof (cases "xs = []")
    case True
    then show ?thesis using prems by (auto simp: pass.simps[of _ _ _ "[]"] runs_def)
  next
    case False
    have D: "set (take n xs) \<subseteq> D" "set (take n (drop n xs)) \<subseteq> D" "set (drop (2 * n) xs) \<subseteq> D"
      using prems(2) set_take_subset set_drop_subset by (meson order_trans)+
    have "sorted_wrt (key_le (key s)) (take n (drop (0 * n) xs))" "sorted_wrt (key_le (key s)) (take n (drop (1 * n) xs))"
      using prems(3) unfolding runs_def by blast+
    then obtain zs s1 where m: "merge cmp s (take n xs) (take n (drop n xs)) = Some (zs, s1)" "inv s1"
      "extends (key s) (key s1)" "sorted_wrt (key_le (key s1)) zs" "\<forall>K k. extends (key s1) K \<longrightarrow>
        filter (\<lambda>a. K a = Some k) zs =
          filter (\<lambda>a. K a = Some k) (take n xs) @ filter (\<lambda>a. K a = Some k) (take n (drop n xs))"
      using merge_sorts[OF prems(1) D(1,2)] by auto
    have "runs (key s1) n (drop (2 * n) xs)"
      using runs_drop[OF prems(3), of 2] m(3) unfolding runs_def by (blast intro: sorted_extends)
    then obtain rest s' where r: "pass cmp n s1 (drop (2 * n) xs) = Some (rest, s')" "inv s'"
      "extends (key s1) (key s')" "runs (key s') (2 * n) rest" "\<forall>K k. extends (key s') K \<longrightarrow>
        filter (\<lambda>a. K a = Some k) rest = filter (\<lambda>a. K a = Some k) (drop (2 * n) xs)"
      using less.hyps[OF _ m(2) D(3)] prems(4) False by auto
    have len: "length zs = min (2 * n) (length xs)"
      using arg_cong[OF merge_mset[OF m(1)], of size] by (auto simp: min_def)
    have "rest \<noteq> [] \<longrightarrow> length zs = 2 * n"
      using arg_cong[OF pass_mset[OF r(1) prems(4)], of size] len by (cases rest) auto
    then have "runs (key s') (2 * n) (zs @ rest)"
      using runs_Cons[of "key s'" zs "2 * n" rest] sorted_extends[OF r(3) m(4)] r(4) len by simp
    moreover have "filter P (take n xs) @ filter P (take n (drop n xs)) @ filter P (drop (2 * n) xs) = filter P xs" for P
      by (metis append_take_drop_id drop_drop filter_append mult_2)
    then have "\<forall>K k. extends (key s') K \<longrightarrow>
        filter (\<lambda>a. K a = Some k) (zs @ rest) = filter (\<lambda>a. K a = Some k) xs"
      using m(5) r(5) extends_trans[OF r(3)] by simp
    moreover have "pass cmp n s xs = Some (zs @ rest, s')"
      using m(1) r(1) False prems(4) by (subst pass.simps) simp
    ultimately show ?thesis using r(2) extends_trans[OF m(3) r(3)] by blast
  qed
qed

end


text \<open>A comparison of data nodes compares headers through the data node each of them holds.\<close>

locale data_comparator = comparator cmp key inv D
  for cmp :: "'s list_cmp" and key and inv and D +
  fixes J :: "nat \<Rightarrow> nat option"
begin

definition head_key :: "'s \<Rightarrow> nat \<Rightarrow> int option" where
  "head_key s a = (case J a of None \<Rightarrow> None | Some i \<Rightarrow> key s i)"

definition heads :: "nat set" where
  "heads = {a. \<exists>i \<in> D. J a = Some i}"

lemma extends_head: "extends (key s) (key s') \<Longrightarrow> extends (head_key s) (head_key s')"
  by (auto simp: extends_def head_key_def split: option.splits)

end

sublocale data_comparator \<subseteq> list: comparator "cmp_heads cmp J" head_key inv heads
proof
  fix s a b assume s: "inv s" and ab: "a \<in> heads" "b \<in> heads"
  obtain i j where "J a = Some i" "i \<in> D" "J b = Some j" "j \<in> D" using ab by (auto simp: heads_def)
  with cmp_ok[OF s, of i j] extends_head
  show "\<exists>r s' j k. cmp_heads cmp J s a b = Some (r, s') \<and> inv s' \<and> extends (head_key s) (head_key s') \<and>
      head_key s' a = Some j \<and> head_key s' b = Some k \<and> (sint r \<le> 0 \<longleftrightarrow> j \<le> k)"
    by (auto simp: cmp_heads_def head_key_def)
qed

context data_comparator begin

lemma sort_loop_sorts:
  assumes "inv s" "info_of c = J" "chain c p xs" "xs \<noteq> []" "set xs \<subseteq> heads" "0 < n" "runs (head_key s) n xs"
  shows "\<exists>q c' s' ys. sort_loop cmp n p c s = Some (q, c', s') \<and> chain c' q ys \<and> mset ys = mset xs \<and>
    sorted_wrt (key_le (head_key s')) ys \<and> inv s' \<and> extends (head_key s) (head_key s') \<and> info_of c' = J \<and>
    (\<forall>a. a \<notin> set xs \<longrightarrow> c' a = c a) \<and>
    (\<forall>K k. extends (head_key s') K \<longrightarrow> filter (\<lambda>a. K a = Some k) ys = filter (\<lambda>a. K a = Some k) xs)"
  using assms
proof (induction "length xs - n" arbitrary: n p c s xs rule: less_induct)
  case less
  note prems = less.prems
  obtain ys s1 where p1: "pass (cmp_heads cmp J) n s xs = Some (ys, s1)" "inv s1"
    "extends (head_key s) (head_key s1)" "runs (head_key s1) (2 * n) ys" "\<forall>K k. extends (head_key s1) K \<longrightarrow>
      filter (\<lambda>a. K a = Some k) ys = filter (\<lambda>a. K a = Some k) xs"
    using list.pass_sorts[OF prems(1,5,7,6)] by auto
  note ys = pass_mset[OF p1(1) prems(6)]
  then have ys': "set ys = set xs" "length ys = length xs" "ys \<noteq> []" "distinct ys"
    using mset_eq_setD mset_eq_length prems(4) chain_distinct[OF prems(3)] mset_eq_imp_distinct_iff
    by (metis, metis, metis mset.simps(1) mset_zero_iff, metis)
  obtain c1 list1 tail1 where c1: "pass_loop cmp n p 0 None None c s =
      Some (list1, tail1, (length xs + n * 2 - 1) div (n * 2), c1, s1)"
    "built c1 list1 tail1 ys" "info_of c1 = J" "\<forall>a. a \<notin> set xs \<longrightarrow> c1 a = c a"
    using pass_loop_refines[OF p1(1) prems(6,2,3), of None None "[]" 0] chain_distinct[OF prems(3)]
    by (auto simp: built_def)
  obtain t c2 where c2: "tail1 = Some t" "set_nxt t None c1 = Some c2" "chain c2 list1 ys" "info_of c2 = J"
    "\<forall>a. a \<notin> set xs \<longrightarrow> c2 a = c a"
    using built_finish[OF c1(2) ys'(3,4)] c1(3,4) ys'(1) by auto
  have sort: "sort_loop cmp n p c s = (if (length xs + n * 2 - 1) div (n * 2) \<le> 1 then Some (list1, c2, s1)
      else sort_loop cmp (n * 2) list1 c2 s1)"
    by (subst sort_loop.simps) (simp add: c1(1) c2(1,2))
  show ?case
  proof (cases "(length xs + n * 2 - 1) div (n * 2) \<le> 1")
    case True
    have "length ys \<le> 2 * n"
    proof (rule ccontr)
      assume "\<not> length ys \<le> 2 * n"
      then have "2 * (n * 2) \<le> length xs + n * 2 - 1" using ys'(2) by simp
      then have "2 \<le> (length xs + n * 2 - 1) div (n * 2)" using prems(6) div_le_mono[of "2 * (n * 2)" _ "n * 2"] by simp
      then show False using True by simp
    qed
    then have "sorted_wrt (key_le (head_key s1)) ys" using runs_all[OF p1(4)] by simp
    then show ?thesis using True sort c2 ys p1(2,3,5) by auto
  next
    case False
    have big: "2 * n < length xs"
    proof (rule ccontr)
      assume "\<not> 2 * n < length xs"
      then have "length xs + n * 2 - 1 < 2 * (n * 2)" using prems(6) by simp
      then have "(length xs + n * 2 - 1) div (n * 2) < 2" using prems(6) by (simp add: div_less_iff_less_mult)
      then show False using False by simp
    qed
    have dec: "length ys - n * 2 < length xs - n" using big ys'(2) prems(6) by simp
    obtain q c' s' zs where r: "sort_loop cmp (n * 2) list1 c2 s1 = Some (q, c', s')" "chain c' q zs" "mset zs = mset ys"
      "sorted_wrt (key_le (head_key s')) zs" "inv s'" "extends (head_key s1) (head_key s')" "info_of c' = J"
      "\<forall>a. a \<notin> set ys \<longrightarrow> c' a = c2 a"
      "\<forall>K k. extends (head_key s') K \<longrightarrow> filter (\<lambda>a. K a = Some k) zs = filter (\<lambda>a. K a = Some k) ys"
      using less.hyps[OF _ p1(2) c2(4,3) ys'(3), of "n * 2"] dec ys'(1) prems(5,6) p1(4)
      by (auto simp: mult.commute)
    have "\<forall>K k. extends (head_key s') K \<longrightarrow> filter (\<lambda>a. K a = Some k) zs = filter (\<lambda>a. K a = Some k) xs"
      using r(9) p1(5) extends_trans[OF r(6)] by simp
    then show ?thesis using False sort r ys ys'(1) c2(5) extends_trans[OF p1(3) r(6)] by auto
  qed
qed

lemma mergesort_sorts:
  assumes "inv s" "info_of c = J" "chain c p xs" "xs \<noteq> []" "set xs \<subseteq> heads"
  shows "\<exists>q c' s' ys. core_list_mergesort cmp p c s = Some (q, c', s') \<and> chain c' q ys \<and> mset ys = mset xs \<and>
    sorted_wrt (key_le (head_key s')) ys \<and> inv s' \<and> extends (head_key s) (head_key s') \<and> info_of c' = J \<and>
    (\<forall>a. a \<notin> set xs \<longrightarrow> c' a = c a) \<and>
    (\<forall>K k. extends (head_key s') K \<longrightarrow> filter (\<lambda>a. K a = Some k) ys = filter (\<lambda>a. K a = Some k) xs)"
  unfolding core_list_mergesort_def by (rule sort_loop_sorts[OF assms _ runs_one]) simp

end

text \<open>On the empty list the sort fails: it dereferences the null pointer \<open>tail\<close>.\<close>

lemma mergesort_null: "core_list_mergesort cmp None c s = None"
  unfolding core_list_mergesort_def by (subst sort_loop.simps) (simp add: pass_loop.simps)

end
