(* ===== verification/Core_State.thy ===== *)
theory Core_State
  imports Core_Util
begin

text \<open>
  The state machine benchmark of CoreMark (\<open>core_state.c\<close>): a scanner that classifies
  comma-separated tokens as numbers, the initialisation of its input and the benchmark that
  runs it over the input twice, with a corruption in between.
\<close>

section \<open>States and counters\<close>

datatype core_state = CORE_START | CORE_INVALID | CORE_S1 | CORE_S2 | CORE_INT | CORE_FLOAT
  | CORE_EXPONENT | CORE_SCIENTIFIC

text \<open>The states in the order of their numbers.\<close>

definition core_states :: "core_state list" where
  "core_states = [CORE_START, CORE_INVALID, CORE_S1, CORE_S2, CORE_INT, CORE_FLOAT,
     CORE_EXPONENT, CORE_SCIENTIFIC]"

type_synonym counts = "core_state \<Rightarrow> u32"

definition count :: "core_state \<Rightarrow> counts \<Rightarrow> counts" where
  "count s c = c(s := c s + 1)"

section \<open>The state machine\<close>

definition ee_isdigit :: "u8 \<Rightarrow> bool" where
  "ee_isdigit c \<longleftrightarrow> c \<ge> ch CHR ''0'' \<and> c \<le> ch CHR ''9''"

text \<open>The body of the \<open>switch\<close>: the next state and the updated transition counts.\<close>

fun state_step :: "core_state \<Rightarrow> u8 \<Rightarrow> counts \<Rightarrow> core_state \<times> counts" where
  "state_step CORE_START symb tc =
     (if ee_isdigit symb then (CORE_INT, count CORE_START tc)
      else if symb = ch CHR ''+'' \<or> symb = ch CHR ''-'' then (CORE_S1, count CORE_START tc)
      else if symb = ch CHR ''.'' then (CORE_FLOAT, count CORE_START tc)
      else (CORE_INVALID, count CORE_START (count CORE_INVALID tc)))"
| "state_step CORE_S1 symb tc =
     (if ee_isdigit symb then (CORE_INT, count CORE_S1 tc)
      else if symb = ch CHR ''.'' then (CORE_FLOAT, count CORE_S1 tc)
      else (CORE_INVALID, count CORE_S1 tc))"
| "state_step CORE_INT symb tc =
     (if symb = ch CHR ''.'' then (CORE_FLOAT, count CORE_INT tc)
      else if \<not> ee_isdigit symb then (CORE_INVALID, count CORE_INT tc)
      else (CORE_INT, tc))"
| "state_step CORE_FLOAT symb tc =
     (if symb = ch CHR ''E'' \<or> symb = ch CHR ''e'' then (CORE_S2, count CORE_FLOAT tc)
      else if \<not> ee_isdigit symb then (CORE_INVALID, count CORE_FLOAT tc)
      else (CORE_FLOAT, tc))"
| "state_step CORE_S2 symb tc =
     (if symb = ch CHR ''+'' \<or> symb = ch CHR ''-'' then (CORE_EXPONENT, count CORE_S2 tc)
      else (CORE_INVALID, count CORE_S2 tc))"
| "state_step CORE_EXPONENT symb tc =
     (if ee_isdigit symb then (CORE_SCIENTIFIC, count CORE_EXPONENT tc)
      else (CORE_INVALID, count CORE_EXPONENT tc))"
| "state_step CORE_SCIENTIFIC symb tc =
     (if \<not> ee_isdigit symb then (CORE_INVALID, count CORE_INVALID tc)
      else (CORE_SCIENTIFIC, tc))"
| "state_step CORE_INVALID symb tc = (CORE_INVALID, tc)"

text \<open>
  The \<open>for\<close> loop over the input. The input is the memory block and \<open>str\<close> the index of the
  next symbol; \<^const>\<open>None\<close> is a read past the end of the block.
\<close>

function core_state_loop ::
  "u8 list \<Rightarrow> nat \<Rightarrow> core_state \<Rightarrow> counts \<Rightarrow> (nat \<times> core_state \<times> counts) option" where
  "core_state_loop mem str state tc =
     (case rd mem str of
        None \<Rightarrow> None
      | Some symb \<Rightarrow>
          if symb \<noteq> 0 \<and> state \<noteq> CORE_INVALID
          then if symb = ch CHR '','' then Some (str + 1, state, tc)
               else let (state', tc') = state_step state symb tc
                    in core_state_loop mem (str + 1) state' tc'
          else Some (str, state, tc))"
  by pat_completeness auto
termination
  by (relation "measure (\<lambda>(mem, str, state, tc). length mem - str)") (auto simp: rd_def split: if_splits)

declare core_state_loop.simps [simp del]

definition core_state_transition ::
  "u8 list \<Rightarrow> nat \<Rightarrow> counts \<Rightarrow> (nat \<times> core_state \<times> counts) option" where
  "core_state_transition mem instr tc = core_state_loop mem instr CORE_START tc"

section \<open>The benchmark\<close>

text \<open>
  \<open>while (*p != 0)\<close>: one token after the other, counting the final states. The scanner is an
  argument, so that what the loop needs of it is explicit.
\<close>

partial_function (option) scan_loop ::
  "(u8 list \<Rightarrow> nat \<Rightarrow> counts \<Rightarrow> (nat \<times> core_state \<times> counts) option) \<Rightarrow>
   u8 list \<Rightarrow> nat \<Rightarrow> counts \<Rightarrow> counts \<Rightarrow> (counts \<times> counts) option" where
  "scan_loop next mem p track final =
     (case rd mem p of
        None \<Rightarrow> None
      | Some c \<Rightarrow>
          if c = 0 then Some (track, final)
          else (case next mem p track of
                  None \<Rightarrow> None
                | Some (p', fstate, track') \<Rightarrow>
                    scan_loop next mem p' track' (count fstate final)))"

declare scan_loop.simps [code]

text \<open>
  The corruption loop: every \<open>step\<close>-th byte of the block that is not a comma is combined with
  the low byte of the seed. \<open>step\<close> is signed, so the pointer is an integer; it never returns
  for a step of zero, and leaves the block to the left for a negative one.
\<close>

partial_function (option) corrupt_loop ::
  "u8 list \<Rightarrow> int \<Rightarrow> u8 \<Rightarrow> int \<Rightarrow> int \<Rightarrow> u8 list option" where
  "corrupt_loop mem blksize s step p =
     (if p < blksize
      then if p < 0 then None
           else (case rd mem (nat p) of
                   None \<Rightarrow> None
                 | Some c \<Rightarrow>
                     corrupt_loop (if c \<noteq> ch CHR '','' then mem[nat p := c XOR s] else mem)
                       blksize s step (p + step))
      else Some mem)"

declare corrupt_loop.simps [code]

definition core_bench_state ::
  "u32 \<Rightarrow> u8 list \<Rightarrow> s16 \<Rightarrow> s16 \<Rightarrow> s16 \<Rightarrow> u16 \<Rightarrow> (u16 \<times> u8 list) option" where
  "core_bench_state blksize memblock seed1 seed2 step crc =
     do {
       (track, final) \<leftarrow> scan_loop core_state_transition memblock 0 (\<lambda>_. 0) (\<lambda>_. 0);
       mem \<leftarrow> corrupt_loop memblock (uint blksize) (ucast seed1) (sint step) 0;
       (track, final) \<leftarrow> scan_loop core_state_transition mem 0 track final;
       mem \<leftarrow> corrupt_loop mem (uint blksize) (ucast seed2) (sint step) 0;
       Some (fold (\<lambda>i crc. crcu32 (track i) (crcu32 (final i) crc)) core_states crc, mem)
     }"

section \<open>Initialisation of the input\<close>

definition intpat :: "u8 list list" where
  "intpat = map bytes [''5012'', ''1234'', ''-874'', ''+122'']"

definition floatpat :: "u8 list list" where
  "floatpat = map bytes [''35.54400'', ''.1234500'', ''-110.700'', ''+0.64400'']"

definition scipat :: "u8 list list" where
  "scipat = map bytes [''5.500e+3'', ''-.123e-2'', ''-87e+832'', ''+0.6e-12'']"

definition errpat :: "u8 list list" where
  "errpat = map bytes [''T0.3e-1F'', ''-T.T++Tq'', ''1T3.4e4z'', ''34.0e-T^'']"

text \<open>The \<open>switch\<close> on the seed: the pattern \<open>buf\<close> and its length \<open>next\<close>.\<close>

definition pattern :: "s16 \<Rightarrow> u8 list \<times> u32" where
  "pattern seed =
     (let i = unat (signed_drop_bit 3 seed AND 0x3); k = seed AND 0x7
      in if k = 0 \<or> k = 1 \<or> k = 2 then (intpat ! i, 4)
         else if k = 3 \<or> k = 4 then (floatpat ! i, 8)
         else if k = 5 \<or> k = 6 then (scipat ! i, 8)
         else (errpat ! i, 8))"

text \<open>\<open>for (i = 0; i < next; i++) *(p + tot + i) = buf[i]\<close>\<close>

fun copy_pattern :: "u8 list \<Rightarrow> nat \<Rightarrow> u8 list \<Rightarrow> u8 list option" where
  "copy_pattern mem at [] = Some mem"
| "copy_pattern mem at (b # buf) =
     (case wr mem at b of None \<Rightarrow> None | Some mem' \<Rightarrow> copy_pattern mem' (at + 1) buf)"

text \<open>The \<open>while\<close> loop; \<open>size\<close> has been decremented.\<close>

partial_function (option) init_loop ::
  "u32 \<Rightarrow> u32 \<Rightarrow> u32 \<Rightarrow> u8 list \<Rightarrow> s16 \<Rightarrow> u8 list \<Rightarrow> (u32 \<times> u8 list) option" where
  "init_loop sz tot next buf seed p =
     (if tot + next + 1 < sz
      then do {
        p' \<leftarrow> (if 0 < next
               then do {
                 p1 \<leftarrow> copy_pattern p (unat tot) (take (unat next) buf);
                 wr p1 (unat (tot + next)) (ch CHR '','')
               }
               else Some p);
        init_loop sz (if 0 < next then tot + (next + 1) else tot)
          (snd (pattern (seed + 1))) (fst (pattern (seed + 1))) (seed + 1) p'
      }
      else Some (tot, p))"

declare init_loop.simps [code]

text \<open>\<open>while (total < size) \<dots>\<close>: the rest of the block is filled with zeros.\<close>

partial_function (option) zero_loop :: "u32 \<Rightarrow> u32 \<Rightarrow> u8 list \<Rightarrow> u8 list option" where
  "zero_loop sz tot p =
     (if tot < sz
      then do { p' \<leftarrow> wr p (unat tot) 0; zero_loop sz (tot + 1) p' }
      else Some p)"

declare zero_loop.simps [code]

definition core_init_state :: "u32 \<Rightarrow> s16 \<Rightarrow> u8 list \<Rightarrow> u8 list option" where
  "core_init_state sz seed p =
     do {
       (tot, p') \<leftarrow> init_loop (sz - 1) 0 0 [] seed p;
       zero_loop sz tot p'
     }"

section \<open>The language of each state\<close>

definition next_state :: "core_state \<Rightarrow> u8 \<Rightarrow> core_state" where
  "next_state s c = fst (state_step s c (\<lambda>_. 0))"

definition run_states :: "core_state \<Rightarrow> u8 list \<Rightarrow> core_state" where
  "run_states s w = foldl next_state s w"

definition is_sign :: "u8 \<Rightarrow> bool" where
  "is_sign c \<longleftrightarrow> c = ch CHR ''+'' \<or> c = ch CHR ''-''"

definition opt_sign :: "u8 list \<Rightarrow> bool" where
  "opt_sign w \<longleftrightarrow> w = [] \<or> (\<exists>c. w = [c] \<and> is_sign c)"

definition all_digits :: "u8 list \<Rightarrow> bool" where
  "all_digits w \<longleftrightarrow> (\<forall>c \<in> set w. ee_isdigit c)"

definition int_literal :: "u8 list \<Rightarrow> bool" where
  "int_literal w \<longleftrightarrow> (\<exists>sg ds. w = sg @ ds \<and> opt_sign sg \<and> ds \<noteq> [] \<and> all_digits ds)"

definition float_literal :: "u8 list \<Rightarrow> bool" where
  "float_literal w \<longleftrightarrow> (\<exists>sg ds fs. w = sg @ ds @ ch CHR ''.'' # fs \<and> opt_sign sg \<and> all_digits ds \<and> all_digits fs)"

definition sci_literal :: "u8 list \<Rightarrow> bool" where
  "sci_literal w \<longleftrightarrow> (\<exists>f e sg ds. w = f @ e # sg # ds \<and> float_literal f \<and> (e = ch CHR ''E'' \<or> e = ch CHR ''e'') \<and>
     is_sign sg \<and> ds \<noteq> [] \<and> all_digits ds)"

lemma fst_state_step: "fst (state_step s c tc) = next_state s c"
  by (cases s) (simp_all add: next_state_def)

lemma next_state_simps:
  "next_state CORE_START c = (if ee_isdigit c then CORE_INT else if is_sign c then CORE_S1
     else if c = ch CHR ''.'' then CORE_FLOAT else CORE_INVALID)"
  "next_state CORE_S1 c = (if ee_isdigit c then CORE_INT
     else if c = ch CHR ''.'' then CORE_FLOAT else CORE_INVALID)"
  "next_state CORE_INT c = (if c = ch CHR ''.'' then CORE_FLOAT
     else if \<not> ee_isdigit c then CORE_INVALID else CORE_INT)"
  "next_state CORE_FLOAT c = (if c = ch CHR ''E'' \<or> c = ch CHR ''e'' then CORE_S2
     else if \<not> ee_isdigit c then CORE_INVALID else CORE_FLOAT)"
  "next_state CORE_S2 c = (if is_sign c then CORE_EXPONENT else CORE_INVALID)"
  "next_state CORE_EXPONENT c = (if ee_isdigit c then CORE_SCIENTIFIC else CORE_INVALID)"
  "next_state CORE_SCIENTIFIC c = (if \<not> ee_isdigit c then CORE_INVALID else CORE_SCIENTIFIC)"
  "next_state CORE_INVALID c = CORE_INVALID"
  by (simp_all add: next_state_def is_sign_def)

lemma symbols_distinct [simp]:
  "is_sign c \<Longrightarrow> \<not> ee_isdigit c" "\<not> ee_isdigit (ch CHR ''.'')" "\<not> is_sign (ch CHR ''.'')"
  "ch CHR ''E'' \<noteq> ch CHR ''.''" "ch CHR ''e'' \<noteq> ch CHR ''.''"
  "\<not> ee_isdigit (ch CHR ''E'')" "\<not> ee_isdigit (ch CHR ''e'')"
  by (auto simp: is_sign_def ee_isdigit_def ch_def)

lemma run_Nil [simp]: "run_states s [] = s"
  and run_Cons [simp]: "run_states s (c # w) = run_states (next_state s c) w"
  and run_append: "run_states s (v @ w) = run_states (run_states s v) w"
  by (simp_all add: run_states_def)

lemma run_invalid [simp]: "run_states CORE_INVALID w = CORE_INVALID"
  by (induction w) (simp_all add: next_state_simps)

lemma run_digits [simp]:
  assumes "all_digits ds"
  shows "run_states CORE_INT ds = CORE_INT" "run_states CORE_FLOAT ds = CORE_FLOAT"
    "run_states CORE_SCIENTIFIC ds = CORE_SCIENTIFIC"
  using assms by (induction ds) (auto simp: next_state_simps all_digits_def)

text \<open>The words that lead from the start to each state.\<close>

fun lang :: "core_state \<Rightarrow> u8 list \<Rightarrow> bool" where
  "lang CORE_START w \<longleftrightarrow> w = []"
| "lang CORE_S1 w \<longleftrightarrow> (\<exists>c. w = [c] \<and> is_sign c)"
| "lang CORE_INT w \<longleftrightarrow> int_literal w"
| "lang CORE_FLOAT w \<longleftrightarrow> float_literal w"
| "lang CORE_S2 w \<longleftrightarrow> (\<exists>f e. w = f @ [e] \<and> float_literal f \<and> (e = ch CHR ''E'' \<or> e = ch CHR ''e''))"
| "lang CORE_EXPONENT w \<longleftrightarrow> (\<exists>f e sg. w = f @ [e, sg] \<and> float_literal f \<and>
     (e = ch CHR ''E'' \<or> e = ch CHR ''e'') \<and> is_sign sg)"
| "lang CORE_SCIENTIFIC w \<longleftrightarrow> sci_literal w"
| "lang CORE_INVALID w \<longleftrightarrow> True"

lemma all_digits_snoc [simp]: "all_digits (ds @ [c]) \<longleftrightarrow> all_digits ds \<and> ee_isdigit c"
  by (auto simp: all_digits_def)

lemma int_snoc_intros:
  "ee_isdigit c \<Longrightarrow> int_literal [c]" 
  "is_sign s \<Longrightarrow> ee_isdigit c \<Longrightarrow> int_literal [s, c]"
  "int_literal w \<Longrightarrow> ee_isdigit c \<Longrightarrow> int_literal (w @ [c])"
  unfolding int_literal_def opt_sign_def
  subgoal by (rule exI[of _ "[]"]) (auto simp: all_digits_def)
  subgoal by (rule exI[of _ "[s]"]) (auto simp: all_digits_def)
  subgoal by (elim exE conjE, rule_tac x=sg in exI, rule_tac x="ds @ [c]" in exI) auto
  done

lemma float_snoc_intros:
  "float_literal [ch CHR ''.'']" 
  "is_sign s \<Longrightarrow> float_literal [s, ch CHR ''.'']"
  "int_literal w \<Longrightarrow> float_literal (w @ [ch CHR ''.''])"
  "float_literal w \<Longrightarrow> ee_isdigit c \<Longrightarrow> float_literal (w @ [c])"
  unfolding int_literal_def float_literal_def opt_sign_def
  subgoal by (rule exI[of _ "[]"], rule exI[of _ "[]"]) (auto simp: all_digits_def)
  subgoal by (rule exI[of _ "[s]"], rule exI[of _ "[]"]) (auto simp: all_digits_def)
  subgoal by (elim exE conjE, rule_tac x=sg in exI, rule_tac x=ds in exI, rule_tac x="[]" in exI) (auto simp: all_digits_def)
  subgoal by (elim exE conjE, rule_tac x=sg in exI, rule_tac x=ds in exI, rule_tac x="fs @ [c]" in exI) auto
  done

lemma sci_snoc_intros:
  "lang CORE_EXPONENT w \<Longrightarrow> ee_isdigit c \<Longrightarrow> sci_literal (w @ [c])"
  "sci_literal w \<Longrightarrow> ee_isdigit c \<Longrightarrow> sci_literal (w @ [c])"
  unfolding sci_literal_def lang.simps
  subgoal by (elim exE conjE, rule_tac x=f in exI, rule_tac x=e in exI, rule_tac x=sg in exI, rule_tac x="[c]" in exI) (auto simp: all_digits_def)
  subgoal by (elim exE conjE, rule_tac x=f in exI, rule_tac x=e in exI, rule_tac x=sg in exI, rule_tac x="ds @ [c]" in exI) auto
  done

lemma run_lang: "lang (run_states CORE_START w) w"
proof (induction w rule: rev_induct)
  case Nil then show ?case by simp
next
  case (snoc c w)
  show ?case
  proof (cases "run_states CORE_START w")
    case CORE_EXPONENT
    with snoc.IH have e: "lang CORE_EXPONENT w" by simp
    show ?thesis using e sci_snoc_intros(1)[OF e] CORE_EXPONENT by (simp add: run_append next_state_simps)
  qed (use snoc.IH in \<open>auto simp: run_append next_state_simps int_snoc_intros float_snoc_intros sci_snoc_intros\<close>)
qed

lemma run_int: "int_literal w \<Longrightarrow> run_states CORE_START w = CORE_INT"
  unfolding int_literal_def opt_sign_def
  by (elim exE conjE, case_tac ds) (auto simp: next_state_simps all_digits_def[of "_ # _"] run_append all_digits_def[symmetric])

lemma run_float: "float_literal w \<Longrightarrow> run_states CORE_START w = CORE_FLOAT"
  unfolding float_literal_def opt_sign_def
  by (elim exE conjE, case_tac ds) (auto simp: next_state_simps all_digits_def[of "_ # _"] run_append all_digits_def[symmetric])

lemma run_sci: "sci_literal w \<Longrightarrow> run_states CORE_START w = CORE_SCIENTIFIC"
  unfolding sci_literal_def
  by (elim exE conjE, case_tac ds) (auto simp: next_state_simps all_digits_def[of "_ # _"] run_append run_float all_digits_def[symmetric])

lemma run_states_iff:
  "run_states CORE_START w = CORE_INT \<longleftrightarrow> int_literal w"
  "run_states CORE_START w = CORE_FLOAT \<longleftrightarrow> float_literal w"
  "run_states CORE_START w = CORE_SCIENTIFIC \<longleftrightarrow> sci_literal w"
  using run_lang[of w] by (auto intro: run_int run_float run_sci)

lemma loop_states:
  assumes "drop str mem = w @ t # post" and "\<forall>c \<in> set w. c \<noteq> 0 \<and> c \<noteq> ch CHR '',''" and "t = 0 \<or> t = ch CHR '',''"
  shows "\<exists>p' tc'. core_state_loop mem str s tc = Some (p', run_states s w, tc') \<and>
    (run_states s w \<noteq> CORE_INVALID \<longrightarrow> p' = str + length w + (if t = ch CHR '','' then 1 else 0))"
  using assms(1,2)
proof (induction w arbitrary: str s tc)
  case Nil
  then have "drop str mem = t # post" by simp
  from drop_eq_ConsD[OF this] assms(3) show ?case
    by (auto simp: core_state_loop.simps[of mem] ch_def)
next
  case (Cons c w)
  from Cons.prems(1) have "drop str mem = c # w @ t # post" by simp
  note str = drop_eq_ConsD[OF this]
  obtain s' tc' where st: "state_step s c tc = (s', tc')" by fastforce
  then have s': "s' = next_state s c" using fst_state_step[of s c tc] by simp
  show ?case
    using Cons.IH[OF str(3), of s' tc'] str(1,2) Cons.prems(2)
    by (cases "s = CORE_INVALID") (auto simp: core_state_loop.simps[of mem str] st s' next_state_simps)
qed

section \<open>The layout of the initialised block\<close>

text \<open>
  What the initialisation writes: patterns chosen by the seed, each followed by a comma, as long
  as they fit into \<open>n\<close> bytes with one to spare.
\<close>

lemma pattern_props: 
  "length (fst (pattern s)) = unat (snd (pattern s)) \<and> (snd (pattern s) = 4 \<or> snd (pattern s) = 8)"
proof -
  define i where "i = unat (signed_drop_bit 3 s AND 0x3)"
  have "i < 4" unfolding i_def
    using word_and_le1[of "signed_drop_bit 3 s" "3::s16"] by (simp add: word_le_nat_alt)
  then have "i = 0 \<or> i = 1 \<or> i = 2 \<or> i = 3" by arith
  then show ?thesis unfolding pattern_def i_def[symmetric] Let_def
    by (elim disjE) (simp_all add: intpat_def floatpat_def scipat_def errpat_def bytes_def)
qed

lemma copy_pattern_eq:
  "at + length b \<le> length mem \<Longrightarrow> copy_pattern mem at b = Some (take at mem @ b @ drop (at + length b) mem)"
proof (induction b arbitrary: at mem)
  case Nil then show ?case by simp
next
  case (Cons c b)
  then have at: "at < length mem" by simp
  have "take (Suc at) (mem[at := c]) = take at mem @ [c]"
    using at by (simp add: take_Suc_conv_app_nth)
  with Cons.IH[of "at + 1" "mem[at := c]"] Cons.prems at show ?case
    by simp
qed

function fill :: "nat \<Rightarrow> s16 \<Rightarrow> u8 list" where
  "fill n seed =
     (let buf = fst (pattern (seed + 1))
      in if length buf + 1 < n then buf @ ch CHR '','' # fill (n - (length buf + 1)) (seed + 1) else [])"
  by pat_completeness auto
termination by (relation "measure fst") auto
declare fill.simps [simp del]

lemma length_fill: "fill n seed = [] \<or> length (fill n seed) < n"
proof (induction n seed rule: fill.induct)
  case (1 n seed)
  then show ?case by (subst fill.simps, subst (2) fill.simps) (auto simp: Let_def)
qed

lemma init_loop_fill:
  assumes "unat sz \<le> length p" "unat sz < 2 ^ 32 - 16" "unat tot \<le> unat sz"
    and "length buf = unat nx" "nx = 4 \<or> nx = 8"
    and "body = (if unat tot + unat nx + 1 < unat sz
                 then buf @ ch CHR '','' # fill (unat sz - (unat tot + unat nx + 1)) seed else [])"
  shows "init_loop sz tot nx buf seed p =
    Some (tot + of_nat (length body), take (unat tot) p @ body @ drop (unat tot + length body) p)"
  using assms
proof (induction "unat sz - unat tot" arbitrary: tot nx buf seed p body rule: less_induct)
  case less
  have nx: "unat nx = 4 \<or> unat nx = 8" "0 < nx" using less.prems(5) by auto
  have un: "unat (tot + nx + 1) = unat tot + unat nx + 1" "unat (tot + nx) = unat tot + unat nx"
    using less.prems(2,3) nx(1) by (auto simp: unat_word_ariths)
  show ?case
  proof (cases "unat tot + unat nx + 1 < unat sz")
    case False
    with less.prems(6) un show ?thesis 
      by (subst init_loop.simps) (simp add: word_less_nat_alt)
  next
    case True
    define pt where "pt = pattern (seed + 1)"
    define tot' where "tot' = tot + (nx + 1)"
    define p' where "p' = take (unat tot) p @ buf @ ch CHR '','' # drop (unat tot') p"
    have tot': "unat tot' = unat tot + unat nx + 1" using un(1) by (simp add: tot'_def add.assoc)
    have cp: "copy_pattern p (unat tot) (take (unat nx) buf) = 
        Some (take (unat tot) p @ buf @ drop (unat tot + unat nx) p)"
      using copy_pattern_eq[of "unat tot" buf p] less.prems(1,4) True by simp
    have dp: "drop (unat tot + unat nx) p = p ! (unat tot + unat nx) # drop (unat tot') p"
      using True less.prems(1) tot' by (simp add: Cons_nth_drop_Suc)
    have wr: "wr (take (unat tot) p @ buf @ drop (unat tot + unat nx) p) (unat (tot + nx)) (ch CHR '','') = Some p'"
      unfolding dp p'_def using True less.prems(1,4) un(2)
      by (simp add: wr_def list_update_append)
    have step: "init_loop sz tot nx buf seed p = init_loop sz tot' (snd pt) (fst pt) (seed + 1) p'"
      using True un(1) nx(2) cp wr
      by (subst init_loop.simps) (simp add: word_less_nat_alt pt_def tot'_def)
    define body' where "body' = (if unat tot' + unat (snd pt) + 1 < unat sz
                 then fst pt @ ch CHR '','' # fill (unat sz - (unat tot' + unat (snd pt) + 1)) (seed + 1) else [])"
    have len: "length p' = length p"
      using True less.prems(1,4) tot' by (simp add: p'_def)
    have pp: "length (fst pt) = unat (snd pt)" "snd pt = 4 \<or> snd pt = 8"
      using pattern_props[of "seed + 1"] by (simp_all add: pt_def)
    have body: "body = buf @ ch CHR '','' # body'"
      using less.prems(6) True tot' pp(1)
      by (subst (asm) fill.simps) (auto simp: body'_def pt_def Let_def)
    have "init_loop sz tot' (snd pt) (fst pt) (seed + 1) p' =
      Some (tot' + of_nat (length body'), take (unat tot') p' @ body' @ drop (unat tot' + length body') p')"
      by (rule less.hyps[OF _ _ _ _ pp body'_def]) (use True tot' len less.prems in auto)
    moreover have "tot' + of_nat (length body') = tot + of_nat (length body)"
      using less.prems(4) by (simp add: tot'_def body)
    moreover have "take (unat tot') p' = take (unat tot) p @ buf @ [ch CHR '','']"
      using True less.prems(1,4) tot' by (simp add: p'_def)
    moreover have "drop (unat tot' + length body') p' = drop (unat tot + length body) p"
      using True less.prems(1,4) tot' by (simp add: p'_def body ac_simps)
    ultimately show ?thesis using step by (simp add: body)
  qed
qed

lemma zero_loop_eq:
  assumes "unat sz \<le> length p" "unat tot \<le> unat sz"
  shows "zero_loop sz tot p = Some (take (unat tot) p @ replicate (unat sz - unat tot) 0 @ drop (unat sz) p)"
  using assms
proof (induction "unat sz - unat tot" arbitrary: tot p rule: less_induct)
  case less
  show ?case
  proof (cases "tot < sz")
    case False
    with less.prems have "unat tot = unat sz" by (simp add: word_less_nat_alt)
    with False show ?thesis by (subst zero_loop.simps) simp
  next
    case True
    then have t: "unat tot < unat sz" by (simp add: word_less_nat_alt)
    then have s: "unat (tot + 1) = Suc (unat tot)"
      using unsigned_less[of sz, where ?'a = nat] by (simp add: unat_word_ariths)
    have "zero_loop sz tot p = zero_loop sz (tot + 1) (p[unat tot := 0])"
      using True t less.prems(1) by (subst zero_loop.simps) simp
    also have "\<dots> = Some (take (Suc (unat tot)) (p[unat tot := 0]) @ replicate (unat sz - Suc (unat tot)) 0 @ drop (unat sz) p)"
      using less.hyps[of "tot + 1" "p[unat tot := 0]"] t s less.prems(1) by simp
    also have "take (Suc (unat tot)) (p[unat tot := 0]) = take (unat tot) p @ [0]"
      using t less.prems(1) by (simp add: take_Suc_conv_app_nth)
    also have "replicate (unat sz - unat tot) 0 = 0 # replicate (unat sz - Suc (unat tot)) (0 :: u8)"
      using t by (metis Suc_diff_Suc replicate_Suc)
    ultimately show ?thesis by simp
  qed
qed

lemma core_init_state_layout:
  fixes seed :: s16 and sz :: u32
  assumes "0 < sz" "unat sz \<le> length p" "unat sz < 2 ^ 32 - 16"
  defines "body \<equiv> fill (unat sz - 1) seed"
  shows "core_init_state sz seed p =
    Some (body @ replicate (unat sz - length body) 0 @ drop (unat sz) p)"
    and "2 \<le> unat sz \<Longrightarrow> length body + 2 \<le> unat sz"
proof -
  have sz: "unat (sz - 1) = unat sz - 1" 
    using assms(1) by (metis unat_minus_one word_neq_0_conv)
  have pos: "0 < unat sz" using assms(1) by (simp add: word_less_nat_alt)
  have len: "length body = 0 \<or> length body < unat sz - 1"
    using length_fill[of "unat sz - 1" seed] by (auto simp: body_def)
  then show "2 \<le> unat sz \<Longrightarrow> length body + 2 \<le> unat sz" by auto
  define pt where "pt = pattern (seed + 1)"
  have pp: "length (fst pt) = unat (snd pt)" "snd pt = 4 \<or> snd pt = 8"
    using pattern_props[of "seed + 1"] by (simp_all add: pt_def)
  have "init_loop (sz - 1) 0 0 [] seed p = Some (of_nat (length body), body @ drop (length body) p)"
  proof (cases "1 < sz - 1")
    case True
    have "init_loop (sz - 1) 0 0 [] seed p = init_loop (sz - 1) 0 (snd pt) (fst pt) (seed + 1) p"
      using True by (subst init_loop.simps) (simp add: pt_def)
    also have "\<dots> = Some (0 + of_nat (length body), take (unat (0 :: u32)) p @ body @ drop (unat (0 :: u32) + length body) p)"
    proof (rule init_loop_fill[OF _ _ _ pp])
      show "body = (if unat (0 :: u32) + unat (snd pt) + 1 < unat (sz - 1)
        then fst pt @ ch CHR '','' # fill (unat (sz - 1) - (unat (0 :: u32) + unat (snd pt) + 1)) (seed + 1) else [])"
        unfolding body_def by (subst fill.simps) (simp add: Let_def pt_def[symmetric] pp(1) sz)
    qed (use assms sz in auto)
    finally show ?thesis by simp
  next
    case False
    then have "unat sz - 1 \<le> 1" using sz by (simp add: word_less_nat_alt)
    then have "body = []" unfolding body_def by (subst fill.simps) (simp add: Let_def)
    with False show ?thesis by (subst init_loop.simps) simp
  qed
  moreover have "zero_loop sz (of_nat (length body)) (body @ drop (length body) p) =
    Some (body @ replicate (unat sz - length body) 0 @ drop (unat sz) p)"
  proof -
    have "length body < 2 ^ 32" using len pos assms(3) by auto
    then have "unat (of_nat (length body) :: u32) = length body"
      by (simp add: unsigned_of_nat take_bit_nat_eq_self)
    then show ?thesis using zero_loop_eq[of sz "body @ drop (length body) p" "of_nat (length body)"] len pos assms(2)
      by auto
  qed
  ultimately show "core_init_state sz seed p =
    Some (body @ replicate (unat sz - length body) 0 @ drop (unat sz) p)"
    by (simp add: core_init_state_def)
qed

section \<open>The corruption\<close>

text \<open>What the corruption loop computes for a positive step.\<close>

definition corrupted :: "u8 list \<Rightarrow> nat \<Rightarrow> u8 \<Rightarrow> nat \<Rightarrow> nat \<Rightarrow> u8 list" where
  "corrupted mem n s step p =
     map (\<lambda>i. if p \<le> i \<and> i < n \<and> step dvd (i - p) \<and> mem ! i \<noteq> ch CHR '','' then mem ! i XOR s else mem ! i)
       [0..<length mem]"

lemma corrupt_loop_eq:
  assumes "0 < step" "n \<le> length mem"
  shows "corrupt_loop mem (int n) s (int step) (int p) = Some (corrupted mem n s step p)"
  using assms(2)
proof (induction "n - p" arbitrary: mem p rule: less_induct)
  case less
  show ?case
  proof (cases "p < n")
    case False
    then have "corrupted mem n s step p = mem"
      unfolding corrupted_def by (intro nth_equalityI) auto
    with False show ?thesis by (subst corrupt_loop.simps) simp
  next
    case True
    define mem' where "mem' = (if mem ! p \<noteq> ch CHR '','' then mem[p := mem ! p XOR s] else mem)"
    have "corrupt_loop mem (int n) s (int step) (int p) = corrupt_loop mem' (int n) s (int step) (int (p + step))"
      using True less.prems by (subst corrupt_loop.simps) (simp add: mem'_def)
    also have "\<dots> = Some (corrupted mem' n s step (p + step))"
      by (rule less.hyps) (use True less.prems assms(1) in \<open>auto simp: mem'_def\<close>)
    also have "corrupted mem' n s step (p + step) = corrupted mem n s step p"
    proof (rule nth_equalityI)
      show "length (corrupted mem' n s step (p + step)) = length (corrupted mem n s step p)"
        by (simp add: corrupted_def mem'_def)
      fix i assume "i < length (corrupted mem' n s step (p + step))"
      then have i: "i < length mem" by (simp add: corrupted_def mem'_def split: if_splits)
      have dvd: "step dvd (i - p) \<longleftrightarrow> i = p \<or> (p + step \<le> i \<and> step dvd (i - (p + step)))" if le: "p \<le> i"
      proof -
        obtain d where d: "i = p + d" using le le_Suc_ex by blast
        show ?thesis unfolding d using assms(1) 
          by (cases "step \<le> d") (auto simp: dvd_minus_self dest: dvd_imp_le)
      qed
      show "corrupted mem' n s step (p + step) ! i = corrupted mem n s step p ! i"
        using i True less.prems dvd assms(1)
        by (cases "i = p"; cases "p \<le> i") (auto simp: corrupted_def mem'_def nth_list_update)
    qed
    finally show ?thesis .
  qed
qed

lemma corrupted_length [simp]: "length (corrupted mem n s step p) = length mem"
  by (simp add: corrupted_def)

lemma corrupted_nth: "i < length mem \<Longrightarrow> corrupted mem n s step 0 ! i =
   (if i < n \<and> step dvd i \<and> mem ! i \<noteq> ch CHR '','' then mem ! i XOR s else mem ! i)"
  by (simp add: corrupted_def)

lemma corrupted_twice:
  assumes "n \<le> length mem"
  shows "corrupted (corrupted mem n s step 0) n s step 0 = mem \<longleftrightarrow>
   (\<forall>i < n. step dvd i \<longrightarrow> mem ! i \<noteq> ch CHR '','' \<longrightarrow> mem ! i XOR s \<noteq> ch CHR '','')"
proof -
  have "corrupted (corrupted mem n s step 0) n s step 0 = mem \<longleftrightarrow>
    (\<forall>i < length mem. corrupted (corrupted mem n s step 0) n s step 0 ! i = mem ! i)"
    by (auto simp: list_eq_iff_nth_eq)
  also have "\<dots> \<longleftrightarrow> (\<forall>i < length mem. i < n \<and> step dvd i \<and> mem ! i \<noteq> ch CHR '','' \<longrightarrow> mem ! i XOR s \<noteq> ch CHR '','')"
    by (intro all_cong) (auto simp: corrupted_nth xor.assoc)
  also have "\<dots> \<longleftrightarrow> (\<forall>i < n. step dvd i \<longrightarrow> mem ! i \<noteq> ch CHR '','' \<longrightarrow> mem ! i XOR s \<noteq> ch CHR '','')"
    using assms by auto
  finally show ?thesis .
qed

section \<open>Scanning ends inside the block\<close>

text \<open>
  What the benchmark loop needs of its scanner: started in front of a terminator, on a symbol
  that is not one, it returns, has advanced, and still has a terminator in front of it.
\<close>

locale scanner =
  fixes nxt :: "u8 list \<Rightarrow> nat \<Rightarrow> counts \<Rightarrow> (nat \<times> core_state \<times> counts) option"
  assumes nxt_progress: "0 \<in> set (drop p mem) \<Longrightarrow> mem ! p \<noteq> 0 \<Longrightarrow>
    \<exists>p' s c'. nxt mem p c = Some (p', s, c') \<and> p < p' \<and> 0 \<in> set (drop p' mem)"
begin

lemma scan_total: "0 \<in> set (drop p mem) \<Longrightarrow> \<exists>r. scan_loop nxt mem p track final = Some r"
proof (induction "length mem - p" arbitrary: p track final rule: less_induct)
  case less
  then have p: "p < length mem" by (cases "p < length mem") auto
  show ?case
  proof (cases "mem ! p = 0")
    case True with p show ?thesis by (subst scan_loop.simps) simp
  next
    case False
    obtain p' s c' where n: "nxt mem p track = Some (p', s, c')" "p < p'" "0 \<in> set (drop p' mem)"
      using nxt_progress[OF less.prems False] by blast
    moreover have "length mem - p' < length mem - p" using p n(2) by simp
    ultimately show ?thesis using less.hyps[of p' c'] p False by (subst scan_loop.simps) simp
  qed
qed

end

lemma core_state_loop_total:
  "0 \<in> set (drop str mem) \<Longrightarrow> \<exists>p' s' c'. core_state_loop mem str s c = Some (p', s', c') \<and>
    0 \<in> set (drop p' mem) \<and> str \<le> p' \<and> (s \<noteq> CORE_INVALID \<and> mem ! str \<noteq> 0 \<longrightarrow> str < p')"
proof (induction mem str s c rule: core_state_loop.induct)
  case (1 mem str s c)
  then have str: "str < length mem" by (cases "str < length mem") auto
  show ?case
  proof (cases "mem ! str \<noteq> 0 \<and> s \<noteq> CORE_INVALID")
    case False with str 1 show ?thesis by (subst core_state_loop.simps) auto
  next
    case True
    have z: "0 \<in> set (drop (Suc str) mem)"
      using "1.prems" str True by (auto simp: Cons_nth_drop_Suc[symmetric])
    obtain s' c' where st: "state_step s (mem ! str) c = (s', c')" by fastforce
    show ?thesis
    proof (cases "mem ! str = ch CHR '',''")
      case True': True
      with True str z show ?thesis by (subst core_state_loop.simps) auto
    next
      case False
      have "\<exists>p' s'' c''. core_state_loop mem (str + 1) s' c' = Some (p', s'', c'') \<and>
        0 \<in> set (drop p' mem) \<and> str + 1 \<le> p'"
        using "1.IH"[of "mem ! str" "(s', c')" s' c'] str True False z st by auto
      with str True False st show ?thesis by (subst core_state_loop.simps) auto
    qed
  qed
qed

interpretation state_scanner: scanner core_state_transition
proof
  fix p :: nat and mem :: "u8 list" and c
  assume "0 \<in> set (drop p mem)" "mem ! p \<noteq> 0"
  then show "\<exists>p' s c'. core_state_transition mem p c = Some (p', s, c') \<and> p < p' \<and> 0 \<in> set (drop p' mem)"
    using core_state_loop_total[of p mem CORE_START c] by (auto simp: core_state_transition_def)
qed

lemma bench_total:
  assumes "unat blksize \<le> length mem" "1 < sint step" 
    "0 < n" "n < unat blksize" "mem ! n = 0" "mem ! (n - 1) = 0"
  shows "\<exists>r. core_bench_state blksize mem seed1 seed2 step crc = Some r"
proof -
  define k where "k = nat (sint step)"
  have step: "sint step = int k" "1 < k" using assms(2) by (simp_all add: k_def)
  have blk: "uint blksize = int (unat blksize)" by simp
  note corrupt = corrupt_loop_eq[of k "unat blksize" _ _ 0, folded step(1) blk, simplified]
  have z: "0 \<in> set (drop 0 mem)" using assms(1,4,5) by (metis drop0 nth_mem order_less_le_trans)
  define mem1 where "mem1 = corrupted mem (unat blksize) (ucast seed1) k 0"
  have "\<not> (k dvd n \<and> k dvd (n - 1))" using step(2) assms(3) 
    by (metis One_nat_def Suc_pred' dvd_1_iff_1 dvd_add_right_iff less_numeral_extra(4) plus_1_eq_Suc add.commute)
  then have "mem1 ! n = 0 \<or> mem1 ! (n - 1) = 0"
    using assms(1,3-6) by (auto simp: mem1_def corrupted_nth)
  then have z1: "0 \<in> set (drop 0 mem1)"
    using assms(1,3,4) by (auto simp: mem1_def in_set_conv_nth intro: exI[of _ n] exI[of _ "n - 1"])
  obtain t f where s1: "scan_loop core_state_transition mem 0 (\<lambda>_. 0) (\<lambda>_. 0) = Some (t, f)"
    using state_scanner.scan_total[OF z] by (metis surj_pair)
  obtain t' f' where s2: "scan_loop core_state_transition mem1 0 t f = Some (t', f')"
    using state_scanner.scan_total[OF z1] by (metis surj_pair)
  have c1: "corrupt_loop mem (uint blksize) (ucast seed1) (sint step) 0 = Some mem1"
    using corrupt step assms(1) unfolding mem1_def by simp
  have "\<exists>m. corrupt_loop mem1 (uint blksize) (ucast seed2) (sint step) 0 = Some m"
    using corrupt[of mem1] step assms(1) by (auto simp: mem1_def)
  then show ?thesis using s1 s2 c1 by (auto simp: core_bench_state_def)
qed

lemma bench_final_memory:
  assumes "core_bench_state blksize mem seed1 seed2 step crc = Some (crc', mem')"
    and "unat blksize \<le> length mem" "0 < sint step"
  shows "mem' = corrupted (corrupted mem (unat blksize) (ucast seed1) (nat (sint step)) 0)
     (unat blksize) (ucast seed2) (nat (sint step)) 0"
proof -
  have step: "sint step = int (nat (sint step))" "0 < nat (sint step)" using assms(3) by simp_all
  have blk: "uint blksize = int (unat blksize)" by simp
  note corrupt = corrupt_loop_eq[of "nat (sint step)" "unat blksize" _ _ 0, folded step(1) blk, simplified]
  show ?thesis using assms corrupt step by (auto simp: core_bench_state_def split: Option.bind_splits prod.splits)
qed

lemma init_block:
  assumes "2 \<le> unat sz" "unat sz \<le> length p" "unat sz < 2 ^ 32 - 16"
  shows "core_init_state sz seed p =
      Some (fill (unat sz - 1) seed @ replicate (unat sz - length (fill (unat sz - 1) seed)) 0 @ drop (unat sz) p)"
    and "length (fill (unat sz - 1) seed) + 2 \<le> unat sz"
proof -
  have "0 < sz" using assms(1) by (simp add: word_less_nat_alt)
  from core_init_state_layout[OF this assms(2,3), of seed] assms(1)
  show "core_init_state sz seed p =
      Some (fill (unat sz - 1) seed @ replicate (unat sz - length (fill (unat sz - 1) seed)) 0 @ drop (unat sz) p)"
    and "length (fill (unat sz - 1) seed) + 2 \<le> unat sz" by auto
qed

lemma bench_on_init_block:
  assumes "core_init_state sz seed p = Some mem"
    and "2 \<le> unat sz" "unat sz \<le> length p" "unat sz < 2 ^ 32 - 16" and "2 \<le> sint step"
  shows "\<exists>crc' mem'. core_bench_state sz mem seed1 seed2 step crc = Some (crc', mem') \<and>
    length mem' = length mem \<and> drop (unat sz) mem' = drop (unat sz) p"
proof -
  let ?body = "fill (unat sz - 1) seed"
  have body: "mem = ?body @ replicate (unat sz - length ?body) 0 @ drop (unat sz) p"
      "length ?body + 2 \<le> unat sz"
    using init_block[OF assms(2-4), of seed] assms(1) by auto
  have len: "length mem = length p" by (subst body(1)) (use body(2) assms(3) in simp)
  have z: "mem ! (unat sz - 1) = 0" "mem ! (unat sz - 1 - 1) = 0"
    by (subst body(1), use body(2) in \<open>auto simp: nth_append\<close>)+
  obtain r where r: "core_bench_state sz mem seed1 seed2 step crc = Some r"
    using bench_total[of sz mem step "unat sz - 1" seed1 seed2 crc] assms(2,3,5) len z by auto
  have "drop (unat sz) mem = drop (unat sz) p" by (subst body(1)) (use body(2) in simp)
  moreover have "drop (unat sz) (corrupted m (unat sz) s k 0) = drop (unat sz) m" for m s k
    by (rule nth_equalityI) (auto simp: corrupted_nth)
  ultimately show ?thesis
    using r bench_final_memory[of sz mem seed1 seed2 step crc "fst r" "snd r"] assms(3,5) len
    by (cases r) auto
qed

lemma bench_restores_iff:
  assumes "core_bench_state sz mem seed seed step crc = Some (crc', mem')"
    and "unat sz \<le> length mem" and "0 < sint step"
  shows "mem' = mem \<longleftrightarrow> (\<forall>i < unat sz. nat (sint step) dvd i \<longrightarrow> mem ! i \<noteq> ch CHR '','' \<longrightarrow>
    mem ! i XOR ucast seed \<noteq> ch CHR '','')"
  using bench_final_memory[OF assms] corrupted_twice[OF assms(2)] by simp

lemma fill_99: "fill 99 0x19 ! 68 = 53" by code_simp

lemma fill_99_length: "68 < length (fill 99 0x19)" by code_simp

section \<open>Properties\<close>

text \<open>
  C31. The scanner classifies a token (a word without commas and terminators, followed by one of
  them) by its shape: it ends in \<open>CORE_INT\<close> exactly for an optionally signed digit string, in
  \<open>CORE_FLOAT\<close> exactly for an optionally signed number with one decimal point, in
  \<open>CORE_SCIENTIFIC\<close> exactly for such a number with a signed exponent; and unless the token is
  invalid the input pointer has moved over the token and its comma.
\<close>

theorem core_state_transition_classifies:
  assumes "mem = pre @ w @ t # post" and "\<forall>c \<in> set w. c \<noteq> 0 \<and> c \<noteq> ch CHR '',''" and "t = 0 \<or> t = ch CHR '',''"
  shows "\<exists>p' state tc'. core_state_transition mem (length pre) tc = Some (p', state, tc') \<and>
    (state = CORE_INT \<longleftrightarrow> int_literal w) \<and>
    (state = CORE_FLOAT \<longleftrightarrow> float_literal w) \<and>
    (state = CORE_SCIENTIFIC \<longleftrightarrow> sci_literal w) \<and>
    (state \<noteq> CORE_INVALID \<longrightarrow> p' = length pre + length w + (if t = ch CHR '','' then 1 else 0))"
  using loop_states[of "length pre" mem w t post CORE_START tc] assms run_states_iff[of w]
  by (auto simp: core_state_transition_def)

theorem core_state_transition_classifies_witness:
  "\<exists>p' state tc'. core_state_transition (bytes ''-87,+0.6e-12,'') (length (bytes ''-87,'')) (\<lambda>_. 0) = Some (p', state, tc') \<and>
    (state = CORE_SCIENTIFIC \<longleftrightarrow> sci_literal (bytes ''+0.6e-12''))"
  using core_state_transition_classifies[of "bytes ''-87,+0.6e-12,''" "bytes ''-87,''" "bytes ''+0.6e-12''" "ch CHR '',''" "[]" "\<lambda>_. 0"]
  by (auto simp: bytes_def ch_def)

text \<open>
  The predefined patterns as the scanner classifies them: the integer, float and error
  patterns as meant; of the scientific ones the third, \<open>-87e+832\<close>, is invalid, because a
  number without a decimal point cannot have an exponent.
\<close>

lemma patterns_classified:
  "map (\<lambda>w. map_option (\<lambda>(p, state, tc). state) (core_state_transition (w @ [ch CHR '','']) 0 (\<lambda>_. 0))) intpat =
     replicate 4 (Some CORE_INT) \<and>
   map (\<lambda>w. map_option (\<lambda>(p, state, tc). state) (core_state_transition (w @ [ch CHR '','']) 0 (\<lambda>_. 0))) floatpat =
     replicate 4 (Some CORE_FLOAT) \<and>
   map (\<lambda>w. map_option (\<lambda>(p, state, tc). state) (core_state_transition (w @ [ch CHR '','']) 0 (\<lambda>_. 0))) scipat =
     [Some CORE_SCIENTIFIC, Some CORE_SCIENTIFIC, Some CORE_INVALID, Some CORE_SCIENTIFIC] \<and>
   map (\<lambda>w. map_option (\<lambda>(p, state, tc). state) (core_state_transition (w @ [ch CHR '','']) 0 (\<lambda>_. 0))) errpat =
     replicate 4 (Some CORE_INVALID)"
  by (intro conjI; code_simp)

text \<open>
  The initialisation fills exactly its block: the patterns chosen by the seed, separated by
  commas, then zeros, of which there are at least two; nothing outside the block changes, and
  no access leaves it.
\<close>

lemma core_init_state_fills:
  assumes "2 \<le> unat sz" "unat sz \<le> length p" "unat sz < 2 ^ 32 - 16"
  shows "\<exists>body. core_init_state sz seed p =
      Some (body @ replicate (unat sz - length body) 0 @ drop (unat sz) p) \<and>
    body = fill (unat sz - 1) seed \<and> length body + 2 \<le> unat sz"
  using init_block[OF assms, of seed] by blast

lemma core_init_state_fills_witness:
  "\<exists>body. core_init_state 20 0 (replicate 24 7) = Some (body @ replicate (20 - length body) 0 @ replicate 4 7)"
  using core_init_state_fills[of 20 "replicate 24 7" 0] by auto

text \<open>
  C32. On an initialised block the benchmark always returns, whatever the seeds: neither of the
  two scans runs past the block, although the corruption between them overwrites terminators,
  because of two adjacent zeros a step of at least two leaves one. Memory behind the block is
  not changed.
\<close>

theorem core_bench_state_total:
  assumes "core_init_state sz seed p = Some mem"
    and "2 \<le> unat sz" "unat sz \<le> length p" "unat sz < 2 ^ 32 - 16" and "2 \<le> sint step"
  shows "\<exists>crc' mem'. core_bench_state sz mem seed1 seed2 step crc = Some (crc', mem') \<and>
    length mem' = length mem \<and> drop (unat sz) mem' = drop (unat sz) p"
  using assms by (rule bench_on_init_block)

theorem core_bench_state_total_witness:
  "\<exists>mem crc' mem'. core_init_state 20 5 (replicate 24 7) = Some mem \<and>
     core_bench_state 20 mem 5 9 0x22 1 = Some (crc', mem') \<and> drop 20 mem' = replicate 4 7"
proof -
  obtain mem where mem: "core_init_state 20 5 (replicate 24 7) = Some mem"
    using init_block(1)[of 20 "replicate 24 7" 5] by auto
  show ?thesis using core_bench_state_total[OF mem, of "0x22" 5 9 1] mem by auto
qed

text \<open>
  C33. With equal seeds the second corruption undoes the first exactly when no byte it visits is
  turned into a comma: such a byte is skipped on the way back.
\<close>

theorem core_bench_state_restores:
  assumes "core_bench_state sz mem seed seed step crc = Some (crc', mem')"
    and "unat sz \<le> length mem" and "0 < sint step"
  shows "mem' = mem \<longleftrightarrow> (\<forall>i < unat sz. nat (sint step) dvd i \<longrightarrow> mem ! i \<noteq> ch CHR '','' \<longrightarrow>
    mem ! i XOR ucast seed \<noteq> ch CHR '','')"
  using assms by (rule bench_restores_iff)

theorem core_bench_state_restores_witness:
  "core_bench_state 3 [49, 0, 0] 5 5 2 0 = Some (the (core_bench_state 3 [49, 0, 0] 5 5 2 0)) \<and>
   snd (the (core_bench_state 3 [49, 0, 0] 5 5 2 0)) = [49, 0, 0]"
proof -
  obtain crc' mem' where r: "core_bench_state 3 [49, 0, 0] 5 5 2 0 = Some (crc', mem')"
    using bench_total[of 3 "[49, 0, 0]" 2 2 5 5 0] by auto
  have u: "unat (3 :: u32) = Suc (Suc (Suc 0))" by simp
  have "mem' = [49, 0, 0]"
    using core_bench_state_restores[OF r, unfolded u All_less_Suc] by (simp add: ch_def)
  with r show ?thesis by simp
qed

text \<open>
  There are seeds for which this happens to a block the benchmark itself initialised: with
  both seeds \<open>0x19\<close>, a block of 100 bytes and the step \<open>0x22\<close> the block is not restored.
\<close>

lemma core_bench_state_not_restored:
  "\<exists>mem crc' mem'. core_init_state 100 0x19 (replicate 100 0) = Some mem \<and>
     core_bench_state 100 mem 0x19 0x19 0x22 0 = Some (crc', mem') \<and> mem' \<noteq> mem"
proof -
  let ?body = "fill 99 0x19"
  obtain mem where mem: "core_init_state 100 0x19 (replicate 100 0) = Some mem"
    "mem = ?body @ replicate (100 - length ?body) 0"
    using init_block[of 100 "replicate 100 0" "0x19"] by auto
  have len: "length mem = 100" 
    using init_block(2)[of 100 "replicate 100 0" "0x19"] by (simp add: mem(2))
  obtain crc' mem' where b: "core_bench_state 100 mem 0x19 0x19 0x22 0 = Some (crc', mem')"
    using bench_on_init_block[OF mem(1), of "0x22" "0x19" "0x19" 0] by auto
  have "mem ! 68 = 53" using fill_99 fill_99_length by (simp add: mem(2) nth_append)
  then have "mem' \<noteq> mem"
    using bench_restores_iff[OF b] len by (auto simp: ch_def dest: spec[of _ 68])
  with mem(1) b show ?thesis by blast
qed

end
