(* ===== verification/Core_Matrix.thy ===== *)
theory Core_Matrix
  imports C_Loops Core_Util "HOL-Library.Signed_Division"
begin

text \<open>
  The matrix benchmark of CoreMark (\<open>core_matrix.c\<close>): the initialisation of the block with its
  layout and its values, the matrix operations, the checksum of a result matrix and the
  benchmark itself. The three matrices are separate objects: \<open>matrix_layout_disjoint\<close>
  shows that the addresses the initialisation computes do not overlap.
\<close>

section \<open>Data\<close>

text \<open>
  The matrices with the addresses the C structure holds: \<open>A\<close> and \<open>B\<close> have elements of 16 bits
  (\<open>MATDAT\<close>), \<open>C\<close> of 32 bits (\<open>MATRES\<close>).
\<close>

record mat_params =
  mat_N :: u32
  mat_A :: "s16 list"
  mat_B :: "s16 list"
  mat_C :: "s32 list"

text \<open>\<open>A[i * N + j]\<close>, with the index computed at 32 bits.\<close>

definition idx :: "u32 \<Rightarrow> nat \<Rightarrow> nat \<Rightarrow> nat" where
  "idx N i j = unat (of_nat i * N + of_nat j :: u32)"

definition matrix_clip :: "s32 \<Rightarrow> bool \<Rightarrow> s16" where
  "matrix_clip x y = (if y then ucast (x AND 0xff) else ucast (x AND 0xffff))"

definition matrix_big :: "s16 \<Rightarrow> s16" where
  "matrix_big x = ucast (0xf000 OR (scast x :: s32))"

definition bit_extract :: "s32 \<Rightarrow> nat \<Rightarrow> nat \<Rightarrow> u32" where
  "bit_extract x from to = signed_drop_bit from x AND NOT (push_bit to 0xffffffff)"

section \<open>Operations\<close>

definition matrix_add_const :: "u32 \<Rightarrow> s16 list \<Rightarrow> s16 \<Rightarrow> s16 list option" where
  "matrix_add_const N A val =
    for_range 0 (unat N) (\<lambda>i. for_range 0 (unat N) (\<lambda>j A. do {
      a \<leftarrow> rd A (idx N i j);
      wr A (idx N i j) (a + val) })) A"

definition matrix_mul_const :: "u32 \<Rightarrow> s32 list \<Rightarrow> s16 list \<Rightarrow> s16 \<Rightarrow> s32 list option" where
  "matrix_mul_const N C A val =
    for_range 0 (unat N) (\<lambda>i. for_range 0 (unat N) (\<lambda>j C. do {
      a \<leftarrow> rd A (idx N i j);
      wr C (idx N i j) (scast a * scast val) })) C"

definition matrix_mul_vect :: "u32 \<Rightarrow> s32 list \<Rightarrow> s16 list \<Rightarrow> s16 list \<Rightarrow> s32 list option" where
  "matrix_mul_vect N C A B =
    for_range 0 (unat N) (\<lambda>i C. do {
      C \<leftarrow> wr C i 0;
      for_range 0 (unat N) (\<lambda>j C. do {
        t \<leftarrow> do { a \<leftarrow> rd A (idx N i j); b \<leftarrow> rd B j; Some (scast a * scast b) };
        c \<leftarrow> rd C i;
        wr C i (c + t) }) C }) C"

definition matrix_mul_matrix :: "u32 \<Rightarrow> s32 list \<Rightarrow> s16 list \<Rightarrow> s16 list \<Rightarrow> s32 list option" where
  "matrix_mul_matrix N C A B =
    for_range 0 (unat N) (\<lambda>i. for_range 0 (unat N) (\<lambda>j C. do {
      C \<leftarrow> wr C (idx N i j) 0;
      for_range 0 (unat N) (\<lambda>k C. do {
        t \<leftarrow> do { a \<leftarrow> rd A (idx N i k); b \<leftarrow> rd B (idx N k j); Some (scast a * scast b) };
        c \<leftarrow> rd C (idx N i j);
        wr C (idx N i j) (c + t) }) C })) C"

definition matrix_mul_matrix_bitextract ::
  "u32 \<Rightarrow> s32 list \<Rightarrow> s16 list \<Rightarrow> s16 list \<Rightarrow> s32 list option" where
  "matrix_mul_matrix_bitextract N C A B =
    for_range 0 (unat N) (\<lambda>i. for_range 0 (unat N) (\<lambda>j C. do {
      C \<leftarrow> wr C (idx N i j) 0;
      for_range 0 (unat N) (\<lambda>k C. do {
        t \<leftarrow> do {
          a \<leftarrow> rd A (idx N i k);
          b \<leftarrow> rd B (idx N k j);
          let tmp = (scast a * scast b :: s32);
          Some (bit_extract tmp 2 4 * bit_extract tmp 5 7) };
        c \<leftarrow> rd C (idx N i j);
        wr C (idx N i j) (c + t) }) C })) C"

text \<open>The state of the summation is \<open>ret\<close>, \<open>tmp\<close> and \<open>prev\<close>.\<close>

definition sum_step :: "s16 \<Rightarrow> s32 \<Rightarrow> s16 \<times> s32 \<times> s32 \<Rightarrow> s16 \<times> s32 \<times> s32" where
  "sum_step clipval cur = (\<lambda>(ret, tmp, prev).
    let tmp = tmp + cur in
    if sint tmp > sint clipval then (ret + 10, 0, cur)
    else (ret + (if sint cur > sint prev then 1 else 0), tmp, cur))"

definition matrix_sum :: "u32 \<Rightarrow> s32 list \<Rightarrow> s16 \<Rightarrow> s16 option" where
  "matrix_sum N C clipval = do {
    (ret, tmp, prev) \<leftarrow> for_range 0 (unat N) (\<lambda>i. for_range 0 (unat N) (\<lambda>j s. do {
      cur \<leftarrow> rd C (idx N i j);
      Some (sum_step clipval cur s) })) (0, 0, 0);
    Some ret }"

text \<open>The result is the final CRC with the matrices \<open>A\<close> and \<open>C\<close> after the test.\<close>

definition matrix_test ::
  "u32 \<Rightarrow> s32 list \<Rightarrow> s16 list \<Rightarrow> s16 list \<Rightarrow> s16 \<Rightarrow> (s16 \<times> s32 list \<times> s16 list) option" where
  "matrix_test N C A B val = do {
    let clipval = matrix_big val;
    A \<leftarrow> matrix_add_const N A val;
    C \<leftarrow> matrix_mul_const N C A val;
    r \<leftarrow> matrix_sum N C clipval;
    let crc = crc16 r 0;
    C \<leftarrow> matrix_mul_vect N C A B;
    r \<leftarrow> matrix_sum N C clipval;
    let crc = crc16 r crc;
    C \<leftarrow> matrix_mul_matrix N C A B;
    r \<leftarrow> matrix_sum N C clipval;
    let crc = crc16 r crc;
    C \<leftarrow> matrix_mul_matrix_bitextract N C A B;
    r \<leftarrow> matrix_sum N C clipval;
    let crc = crc16 r crc;
    A \<leftarrow> matrix_add_const N A (- val);
    Some (crc, C, A) }"

definition core_bench_matrix :: "mat_params \<Rightarrow> s16 \<Rightarrow> u16 \<Rightarrow> (u16 \<times> mat_params) option" where
  "core_bench_matrix p seed crc = do {
    (r, C, A) \<leftarrow> matrix_test (mat_N p) (mat_C p) (mat_A p) (mat_B p) seed;
    Some (crc16 r crc, p\<lparr>mat_A := A, mat_C := C\<rparr>) }"

section \<open>Initialisation\<close>

text \<open>
  The search for the dimension, with the counter \<open>i\<close>; \<open>j\<close> is \<open>i * i * 2 * 4\<close> at 32 bits and
  the loop need not end.
\<close>

partial_function (option) dim_loop :: "u32 \<Rightarrow> u32 \<Rightarrow> u32 \<Rightarrow> u32 option" where
  "dim_loop blksize i j =
    (if j < blksize then dim_loop blksize (i + 1) ((i + 1) * (i + 1) * 2 * 4) else Some i)"

declare dim_loop.simps [code]

definition align_mem :: "u32 \<Rightarrow> u32" where
  "align_mem x = 4 + ((x - 1) AND NOT 3)"

text \<open>The addresses of \<open>A\<close>, \<open>B\<close> and \<open>C\<close>.\<close>

definition matrix_layout :: "u32 \<Rightarrow> u32 \<Rightarrow> u32 \<times> u32 \<times> u32" where
  "matrix_layout memblk N = (
    let A = align_mem memblk;
        B = A + N * N * 2;
        C = align_mem (B + N * N * 2)
    in (A, B, C))"

text \<open>One element: the state is \<open>seed\<close> and \<open>order\<close> with the two matrices.\<close>

definition init_values :: "s32 \<Rightarrow> s32 \<Rightarrow> s32 \<times> s16 \<times> s16" where
  "init_values seed order = (
    let seed = word_of_int (sint (order * seed) smod 65536);
        val = ucast (seed + order) :: s16;
        b = matrix_clip (scast val) False;
        val = ucast (scast b + order) :: s16;
        a = matrix_clip (scast val) True
    in (seed, b, a))"

definition init_elem :: "u32 \<Rightarrow> nat \<Rightarrow> nat \<Rightarrow> s32 \<times> s32 \<times> s16 list \<times> s16 list \<Rightarrow>
    (s32 \<times> s32 \<times> s16 list \<times> s16 list) option" where
  "init_elem N i j = (\<lambda>(seed, order, A, B). do {
    let (seed, b, a) = init_values seed order;
    B \<leftarrow> wr B (idx N i j) b;
    A \<leftarrow> wr A (idx N i j) a;
    Some (seed, order + 1, A, B) })"

text \<open>
  The matrices \<open>A\<close>, \<open>B\<close> and \<open>C\<close> before the call are what the block holds at the addresses of
  the layout.
\<close>

definition core_init_matrix ::
  "u32 \<Rightarrow> s32 \<Rightarrow> s16 list \<Rightarrow> s16 list \<Rightarrow> s32 list \<Rightarrow> (u32 \<times> mat_params) option" where
  "core_init_matrix blksize seed A B C = do {
    let seed = (if seed = 0 then 1 else seed);
    i \<leftarrow> dim_loop blksize 0 0;
    let N = i - 1;
    (seed, order, A, B) \<leftarrow>
      for_range 0 (unat N) (\<lambda>i. for_range 0 (unat N) (init_elem N i)) (seed, 1, A, B);
    Some (N, \<lparr>mat_N = N, mat_A = A, mat_B = B, mat_C = C\<rparr>) }"

section \<open>The operations as functions of their inputs\<close>

text \<open>A dimension whose index arithmetic does not wrap.\<close>

abbreviation dim_ok :: "u32 \<Rightarrow> 'a list \<Rightarrow> bool" where
  "dim_ok N xs \<equiv> unat N * unat N < 2 ^ 32 \<and> unat N * unat N \<le> length xs"

lemma idx_eq:
  assumes "unat N * unat N < 2 ^ 32" "i < unat N" "j < unat N"
  shows "idx N i j = i * unat N + j"
proof -
  have "(of_nat i * N + of_nat j :: u32) = of_nat (i * unat N + j)" by simp
  moreover have "i * unat N + j < 2 ^ 32" using square_index_less[OF assms(2,3)] assms(1) by simp
  ultimately show ?thesis unfolding idx_def by (simp only: unsigned_of_nat) (simp add: take_bit_nat_eq_self)
qed

lemma elem_less: "unat N * unat N \<le> L \<Longrightarrow> i < unat N \<Longrightarrow> j < unat N \<Longrightarrow> i * unat N + j < L"
  using square_index_less[of i "unat N" j] by simp

lemma matrix_add_const_eq:
  assumes "dim_ok N A"
  shows "matrix_add_const N A val =
    Some (square (unat N) (\<lambda>i j. A ! (i * unat N + j) + val) A)"
  unfolding matrix_add_const_def
  by (rule for_square_update) (use assms in \<open>auto simp: idx_eq elem_less\<close>)

lemma matrix_mul_const_eq:
  assumes "dim_ok N A" "dim_ok N C"
  shows "matrix_mul_const N C A val =
    Some (square (unat N) (\<lambda>i j. scast (A ! (i * unat N + j)) * scast val) C)"
  unfolding matrix_mul_const_def
  by (rule for_square_update) (use assms in \<open>auto simp: idx_eq elem_less\<close>)

text \<open>The entries of a matrix product as the C code accumulates them.\<close>

lemma matrix_mul_matrix_eq:
  assumes "dim_ok N A" "dim_ok N B" "dim_ok N C"
  shows "matrix_mul_matrix N C A B = Some (square (unat N) (\<lambda>i j.
    \<Sum>k < unat N. scast (A ! (i * unat N + k)) * scast (B ! (k * unat N + j))) C)"
  unfolding matrix_mul_matrix_def
proof (rule for_square_update, goal_cases)
  case (1 i j xs)
  then have "idx N i j < length xs" using assms by (simp add: idx_eq elem_less)
  moreover have "do { a \<leftarrow> rd A (idx N i k); b \<leftarrow> rd B (idx N k j); Some (scast a * scast b) } =
    Some (scast (A ! (i * unat N + k)) * scast (B ! (k * unat N + j)) :: s32)" if "k < unat N" for k
    using 1 that assms by (simp add: idx_eq elem_less)
  ultimately show ?case
    using 1 assms(3) by (simp add: for_range_accumulate idx_eq del: bind_assoc)
next
  case 2 then show ?case using assms by simp
qed

lemma matrix_mul_matrix_bitextract_eq:
  assumes "dim_ok N A" "dim_ok N B" "dim_ok N C"
  shows "matrix_mul_matrix_bitextract N C A B = Some (square (unat N) (\<lambda>i j.
    \<Sum>k < unat N. let tmp = scast (A ! (i * unat N + k)) * scast (B ! (k * unat N + j)) in
      bit_extract tmp 2 4 * bit_extract tmp 5 7) C)"
  unfolding matrix_mul_matrix_bitextract_def
proof (rule for_square_update, goal_cases)
  case (1 i j xs)
  then have "idx N i j < length xs" using assms by (simp add: idx_eq elem_less)
  moreover have "do { a \<leftarrow> rd A (idx N i k); b \<leftarrow> rd B (idx N k j);
      let tmp = (scast a * scast b :: s32); Some (bit_extract tmp 2 4 * bit_extract tmp 5 7) } =
    Some (let tmp = scast (A ! (i * unat N + k)) * scast (B ! (k * unat N + j)) in
      bit_extract tmp 2 4 * bit_extract tmp 5 7)" if "k < unat N" for k
    using 1 that assms by (simp add: idx_eq elem_less Let_def)
  ultimately show ?case
    using 1 assms(3) by (simp add: for_range_accumulate idx_eq del: bind_assoc)
next
  case 2 then show ?case using assms by simp
qed

lemma matrix_mul_vect_eq:
  assumes "dim_ok N A" "unat N \<le> length B" "unat N \<le> length C"
  shows "matrix_mul_vect N C A B = Some
    (map (\<lambda>i. \<Sum>k < unat N. scast (A ! (i * unat N + k)) * scast (B ! k)) [0..<unat N] @ drop (unat N) C)"
  unfolding matrix_mul_vect_def
proof (rule for_range_update, goal_cases)
  case (1 i xs)
  have "do { a \<leftarrow> rd A (idx N i k); b \<leftarrow> rd B k; Some (scast a * scast b) } =
    Some (scast (A ! (i * unat N + k)) * scast (B ! k) :: s32)" if "k < unat N" for k
    using 1 that assms by (simp add: idx_eq elem_less)
  then show ?case using 1 assms(3) by (simp add: for_range_accumulate del: bind_assoc)
next
  case 2 then show ?case using assms by simp
qed

definition C_sums :: "nat \<Rightarrow> s32 list \<Rightarrow> s16 \<Rightarrow> s16 \<times> s32 \<times> s32" where
  "C_sums n C clipval = fold (\<lambda>cur. sum_step clipval cur) (take (n * n) C) (0, 0, 0)"

lemma matrix_sum_eq:
  assumes "dim_ok N C"
  shows "matrix_sum N C clipval = Some (fst (C_sums (unat N) C clipval))"
proof -
  let ?n = "unat N"
  have "for_range 0 ?n (\<lambda>i. for_range 0 ?n (\<lambda>j s. do { cur \<leftarrow> rd C (idx N i j); Some (sum_step clipval cur s) })) s
    = for_up (?n * ?n) 0 (\<lambda>k s. Some (sum_step clipval (C ! k) s)) s" for s
    unfolding for_range_def by (simp, rule for_up_flatten) (use assms in \<open>simp add: idx_eq elem_less\<close>)
  moreover have "for_up (?n * ?n) 0 (\<lambda>k s. Some (sum_step clipval (C ! k) s)) s =
      Some (fold (\<lambda>k. sum_step clipval (C ! k)) [0..<?n * ?n] s)" for s
    using for_up_fold[of 0 "?n * ?n" _ "\<lambda>k. sum_step clipval (C ! k)" s] by simp
  moreover have "take (?n * ?n) C = map ((!) C) [0..<?n * ?n]"
    using assms by (intro nth_equalityI) auto
  ultimately show ?thesis
    by (simp add: matrix_sum_def C_sums_def fold_map comp_def case_prod_beta)
qed

text \<open>
  The matrix test as a whole: its result is a function of the inputs, matrix \<open>A\<close> is as before
  and only the first \<open>N * N\<close> elements of \<open>C\<close> are written.
\<close>

lemma matrix_test_total:
  assumes "dim_ok N A" "dim_ok N B" "dim_ok N C"
  shows "\<exists>r C'. matrix_test N C A B val = Some (r, C', A) \<and> length C' = length C \<and>
    drop (unat N * unat N) C' = drop (unat N * unat N) C"
proof -
  let ?n = "unat N"
  have n: "?n \<le> ?n * ?n" by (cases ?n) auto
  let ?A = "square ?n (\<lambda>i j. A ! (i * ?n + j) + val) A"
  have undo: "matrix_add_const N ?A (- val) = Some A"
  proof -
    have "square ?n (\<lambda>i j. ?A ! (i * ?n + j) + - val) ?A = square ?n (\<lambda>i j. A ! (i * ?n + j)) A"
      by (rule square_cong) (simp_all add: square_nth square_drop)
    then show ?thesis using assms(1) by (subst matrix_add_const_eq) (simp_all add: square_length square_id)
  qed
  have v: "unat N \<le> length B" "unat N \<le> length C" using assms n by linarith+
  have d: "drop (?n * ?n) (map f [0..<?n] @ drop ?n X) = drop (?n * ?n) X" for f and X :: "s32 list"
    using n by (simp add: drop_append)
  show ?thesis using assms v
    by (simp add: matrix_test_def Let_def matrix_add_const_eq[OF assms(1)] matrix_mul_const_eq
        matrix_sum_eq matrix_mul_vect_eq matrix_mul_matrix_eq matrix_mul_matrix_bitextract_eq
        square_length undo square_drop d)
qed

lemma core_bench_matrix_restores:
  assumes "dim_ok (mat_N p) (mat_A p)" "dim_ok (mat_N p) (mat_B p)" "dim_ok (mat_N p) (mat_C p)"
  shows "\<exists>r C'. core_bench_matrix p seed crc = Some (r, p\<lparr>mat_C := C'\<rparr>) \<and> length C' = length (mat_C p)"
proof -
  obtain r C' where "matrix_test (mat_N p) (mat_C p) (mat_A p) (mat_B p) seed = Some (r, C', mat_A p)"
    "length C' = length (mat_C p)" using matrix_test_total[OF assms] by blast
  then show ?thesis by (auto simp: core_bench_matrix_def)
qed

section \<open>The initialised matrices\<close>

lemma align_mem_unat:
  assumes "0 < x" "unat x \<le> 4294967292"
  shows "unat (align_mem x) = 4 * ((unat x + 3) div 4)"
proof -
  have "0 < unat x" using assms(1) by (simp add: word_less_nat_alt)
  then obtain m where m: "unat x = Suc m" by (cases "unat x") auto
  have "unat (x - 1) = m" using assms(1) m by (subst unat_sub) (auto simp: word_le_nat_alt)
  then have "unat ((x - 1) AND NOT 3) = 4 * (m div 4)"
    using unat_align_down[of "x - 1" 2] by (simp add: mask_eq_exp_minus_1)
  moreover have "4 + 4 * (m div 4) < 2 ^ 32" using assms(2) m by simp
  ultimately have "unat (4 + ((x - 1) AND NOT 3)) = 4 + 4 * (m div 4)"
    by (simp add: unat_plus_if')
  moreover have "(Suc m + 3) div 4 = m div 4 + 1" by simp
  ultimately show ?thesis using m by (simp only: align_mem_def) simp
qed

lemma dim_loop_spec:
  fixes n M :: nat
  assumes "unat blksize \<le> 8 * M * M" "8 * M * M < 2 ^ 32"
    and "n \<le> M" "j = of_nat (8 * n * n)" "n = 0 \<or> 8 * (n - 1) * (n - 1) < unat blksize"
  shows "\<exists>m \<ge> n. m \<le> M \<and> dim_loop blksize (of_nat n) j = Some (of_nat m) \<and> unat blksize \<le> 8 * m * m \<and>
    (m = 0 \<or> 8 * (m - 1) * (m - 1) < unat blksize)"
  using assms(3-5)
proof (induction "M - n" arbitrary: n j rule: less_induct)
  case less
  have le: "8 * n * n \<le> 8 * M * M" using less.prems(1) by (simp add: mult_le_mono)
  then have j: "unat j = 8 * n * n"
    using assms(2) less.prems(2) by (simp only: unsigned_of_nat) (simp add: take_bit_nat_eq_self)
  show ?case
  proof (cases "j < blksize")
    case True
    then have lt: "8 * n * n < unat blksize" using j by (simp add: word_less_nat_alt)
    then have "n < M" using assms(1) less.prems(1) le by (cases "n = M") auto
    have e1: "((of_nat n + 1) * (of_nat n + 1) * 2 * 4 :: u32) = of_nat (8 * (n + 1) * (n + 1))"
      by (simp add: algebra_simps)
    have e2: "(of_nat n + 1 :: u32) = of_nat (n + 1)" by simp
    have step: "dim_loop blksize (of_nat n) j =
        dim_loop blksize (of_nat (n + 1)) (of_nat (8 * (n + 1) * (n + 1)))"
      by (subst dim_loop.simps) (simp only: True if_True e1, simp only: e2)
    have "\<exists>m \<ge> n + 1. m \<le> M \<and> dim_loop blksize (of_nat (n + 1)) (of_nat (8 * (n + 1) * (n + 1))) = Some (of_nat m) \<and>
      unat blksize \<le> 8 * m * m \<and> (m = 0 \<or> 8 * (m - 1) * (m - 1) < unat blksize)"
    proof (rule less.hyps)
      show "M - (n + 1) < M - n" "n + 1 \<le> M" using \<open>n < M\<close> by simp_all
      show "n + 1 = 0 \<or> 8 * (n + 1 - 1) * (n + 1 - 1) < unat blksize" using lt by simp
    qed (rule refl)
    then obtain m where "n + 1 \<le> m" "m \<le> M \<and> dim_loop blksize (of_nat (n + 1)) (of_nat (8 * (n + 1) * (n + 1))) =
      Some (of_nat m) \<and> unat blksize \<le> 8 * m * m \<and> (m = 0 \<or> 8 * (m - 1) * (m - 1) < unat blksize)" by blast
    then show ?thesis unfolding step using add_leD1 by blast
  next
    case False
    then have "unat blksize \<le> 8 * n * n" using j by (simp add: word_less_nat_alt)
    then show ?thesis using False less.prems(1,3) by (subst dim_loop.simps) auto
  qed
qed

lemma dim_loop_dimension:
  assumes "0 < blksize" "blksize \<le> 4294791200"
  shows "\<exists>N. dim_loop blksize 0 0 = Some (N + 1) \<and> 8 * unat N * unat N < unat blksize \<and>
    unat blksize \<le> 8 * (unat N + 1) * (unat N + 1) \<and> unat N < 23170"
proof -
  have b: "unat blksize \<le> 8 * 23170 * 23170" using assms(2) by (simp add: word_le_nat_alt)
  have "\<exists>m \<ge> 0. m \<le> 23170 \<and> dim_loop blksize (of_nat 0) 0 = Some (of_nat m) \<and> unat blksize \<le> 8 * m * m \<and>
    (m = 0 \<or> 8 * (m - 1) * (m - 1) < unat blksize)"
    by (rule dim_loop_spec[OF b]) simp_all
  then obtain m where m: "m \<le> 23170" "dim_loop blksize 0 0 = Some (of_nat m)" "unat blksize \<le> 8 * m * m"
    "m = 0 \<or> 8 * (m - 1) * (m - 1) < unat blksize" by auto
  have "m \<noteq> 0" using m(3) assms(1) by (cases m) (auto simp: word_less_nat_alt)
  then obtain k where k: "m = Suc k" by (cases m) auto
  have "unat (of_nat k :: u32) = k" using m(1) k by (simp add: unsigned_of_nat take_bit_nat_eq_self)
  then show ?thesis using m k by (intro exI[of _ "of_nat k"]) (simp add: add.commute)
qed

text \<open>Above the largest multiple of eight the search never ends.\<close>

lemma dim_loop_diverges:
  assumes "0xfffffff8 < blksize"
  shows "dim_loop blksize 0 0 = None"
proof -
  have mult8: "\<exists>q :: u32. j = 8 * q \<Longrightarrow> j < blksize" for j
  proof -
    assume "\<exists>q :: u32. j = 8 * q"
    then obtain q where "j = 8 * q" ..
    then have "unat j = 8 * unat q mod 2 ^ 32" by (simp add: unat_word_ariths)
    then have "8 dvd unat j" by (simp add: dvd_mod)
    then obtain r where r: "unat j = 8 * r" ..
    then have "r < 536870912" using unsigned_less[of j, where ?'a = nat] by simp
    then have "\<not> (0xfffffff8 < unat j)" using r by simp
    then have "j \<le> 0xfffffff8" by (simp add: word_le_nat_alt)
    then show "j < blksize" using assms by simp
  qed
  have never: "b = blksize \<longrightarrow> (\<exists>q. j = 8 * q) \<longrightarrow> False" if "dim_loop b i j = Some y" for b i j y
  proof (rule dim_loop.raw_induct[where P = "\<lambda>b i j y. b = blksize \<longrightarrow> (\<exists>q. j = 8 * q) \<longrightarrow> False", OF _ that])
    fix dl b i j y
    assume IH: "\<And>i j b y. dl i j b = Some y \<Longrightarrow> i = blksize \<longrightarrow> (\<exists>q. b = 8 * q) \<longrightarrow> False"
      and s: "(if j < b then dl b (i + 1) ((i + 1) * (i + 1) * 2 * 4) else Some i) = Some (y :: u32)"
    show "b = blksize \<longrightarrow> (\<exists>q. j = 8 * q) \<longrightarrow> False"
    proof (intro impI)
      assume b: "b = blksize" and j: "\<exists>q. j = 8 * q"
      have "dl b (i + 1) ((i + 1) * (i + 1) * 2 * 4) = Some y" using s mult8[OF j] b by simp
      moreover have "\<exists>q. (i + 1) * (i + 1) * 2 * 4 = 8 * q" by (intro exI[of _ "(i + 1) * (i + 1)"]) simp
      ultimately show False using IH b by blast
    qed
  qed
  have "\<exists>q :: u32. 0 = 8 * q" by (intro exI[of _ 0]) simp
  then show ?thesis using never[of blksize 0 0] by (cases "dim_loop blksize 0 0") auto
qed


text \<open>
  The matrices in the block: word aligned, one after the other, and inside the block when it
  is aligned or leaves room for the alignment.
\<close>

lemma matrix_layout_fits:
  assumes "0 < memblk" "unat memblk + unat blksize \<le> 4294967292"
    and "8 * unat N * unat N < unat blksize"
    and "4 dvd unat memblk \<or> 8 * unat N * unat N + 3 \<le> unat blksize"
    and "matrix_layout memblk N = (A, B, C)"
  shows "unat memblk \<le> unat A \<and> unat B = unat A + 2 * (unat N * unat N) \<and>
    unat C = unat B + 2 * (unat N * unat N) \<and> unat C + 4 * (unat N * unat N) \<le> unat memblk + unat blksize \<and>
    4 dvd unat A \<and> 4 dvd unat C"
proof -
  let ?m = "unat memblk" and ?q = "unat N * unat N" and ?a = "4 * ((unat memblk + 3) div 4)"
  have q: "8 * ?q < unat blksize" using assms(3) by (simp add: mult.assoc)
  have a: "unat (align_mem memblk) = ?a" using assms(1,2) by (intro align_mem_unat) auto
  have ma: "?m \<le> ?a" by simp
  have fits: "?a + 8 * ?q \<le> ?m + unat blksize"
  proof (cases "4 dvd ?m")
    case True
    then obtain r where "?m = 4 * r" ..
    then have "?a = ?m" by simp
    then show ?thesis using q by simp
  next
    case False
    then have "8 * ?q + 3 \<le> unat blksize" using assms(4) by (simp add: mult.assoc)
    moreover have "?a \<le> ?m + 3" by simp
    ultimately show ?thesis by simp
  qed
  have nn: "unat (N * N) = ?q" using q assms(2) by (simp add: unat_mult_lem[THEN iffD1])
  then have nn2: "unat (N * N * 2) = 2 * ?q" using q assms(2) unat_mult_lem[of "N * N" 2] by simp
  have b: "unat (align_mem memblk + N * N * 2) = ?a + 2 * ?q"
    using a nn2 fits assms(2) by (simp add: unat_plus_if')
  have b2: "unat (align_mem memblk + N * N * 2 + N * N * 2) = ?a + 4 * ?q"
    using b nn2 fits assms(2) by (subst unat_plus_if') simp
  have pos: "0 < ?a" using assms(1) by (simp add: word_less_nat_alt)
  have c: "unat (align_mem (align_mem memblk + N * N * 2 + N * N * 2)) = ?a + 4 * ?q"
  proof (subst align_mem_unat)
    show "0 < align_mem memblk + N * N * 2 + N * N * 2" using b2 pos by (simp add: word_less_nat_alt)
    show "unat (align_mem memblk + N * N * 2 + N * N * 2) \<le> 4294967292" using b2 fits assms(2) by simp
    have "(4 * ((?m + 3) div 4 + ?q) + 3) div 4 = (?m + 3) div 4 + ?q" by simp
    then show "4 * ((unat (align_mem memblk + N * N * 2 + N * N * 2) + 3) div 4) = ?a + 4 * ?q"
      unfolding b2 by (simp add: distrib_left)
  qed
  have "A = align_mem memblk" "B = align_mem memblk + N * N * 2"
    "C = align_mem (align_mem memblk + N * N * 2 + N * N * 2)"
    using assms(5) by (auto simp only: matrix_layout_def Let_def prod.inject)
  then show ?thesis using a b c ma fits by simp
qed

text \<open>The values the initialisation writes, as a sequence over the elements.\<close>

fun init_seed :: "s32 \<Rightarrow> nat \<Rightarrow> s32" where
  "init_seed seed 0 = seed"
| "init_seed seed (Suc k) = fst (init_values (init_seed seed k) (of_nat (k + 1)))"

definition init_B :: "s32 \<Rightarrow> nat \<Rightarrow> s16" where
  "init_B seed k = fst (snd (init_values (init_seed seed k) (of_nat (k + 1))))"

definition init_A :: "s32 \<Rightarrow> nat \<Rightarrow> s16" where
  "init_A seed k = snd (snd (init_values (init_seed seed k) (of_nat (k + 1))))"

lemma init_loop_fills:
  assumes "dim_ok N A" "dim_ok N B"
  shows "\<exists>s o'. for_range 0 (unat N) (\<lambda>i. for_range 0 (unat N) (init_elem N i)) (seed, 1, A, B) =
    Some (s, o', map (init_A seed) [0..<unat N * unat N] @ drop (unat N * unat N) A,
      map (init_B seed) [0..<unat N * unat N] @ drop (unat N * unat N) B)"
proof -
  let ?n = "unat N"
  let ?flat = "\<lambda>k (seed, order, A, B). do {
    let (seed, b, a) = init_values seed order; B \<leftarrow> wr B k b; A \<leftarrow> wr A k a; Some (seed, order + 1, A, B) }"
  let ?P = "\<lambda>k (s, ord, A', B'). s = init_seed seed k \<and> ord = of_nat (k + 1) \<and>
    A' = map (init_A seed) [0..<k] @ drop k A \<and> B' = map (init_B seed) [0..<k] @ drop k B"
  have eq: "for_range 0 ?n (\<lambda>i. for_range 0 ?n (init_elem N i)) s = for_up (?n * ?n) 0 ?flat s" for s
    unfolding for_range_def
    by (simp, rule for_up_flatten) (use assms in \<open>simp add: init_elem_def idx_eq\<close>)
  have "\<exists>s'. for_up (?n * ?n) 0 ?flat (seed, 1, A, B) = Some s' \<and> ?P (0 + ?n * ?n) s'"
  proof (rule for_up_invariant[where P = ?P], goal_cases)
    case 1 then show ?case by simp
  next
    case (2 k st)
    obtain s ord A' B' where st: "st = (s, ord, A', B')" by (cases st) auto
    obtain s' b a where v: "init_values s ord = (s', b, a)" by (cases "init_values s ord") auto
    have kl: "k < length A" "k < length B" using 2(2) assms by auto
    have step: "(map f [0..<k] @ drop k X)[k := f k] = map f [0..<Suc k] @ drop (Suc k) X" 
      if "k < length X" for f :: "nat \<Rightarrow> s16" and X
      using that by (simp add: list_update_append Cons_nth_drop_Suc[symmetric])
    have "a = init_A seed k" "b = init_B seed k" "s' = init_seed seed (Suc k)"
      using 2(3) v st by (simp_all add: init_A_def init_B_def)
    moreover have "s = init_seed seed k" "ord = of_nat (k + 1)" "A' = map (init_A seed) [0..<k] @ drop k A"
      "B' = map (init_B seed) [0..<k] @ drop k B" using 2(3) st by simp_all
    moreover have "?flat k st = Some (s', ord + 1, A'[k := a], B'[k := b])"
      if "length A' = length A" "length B' = length B" using that kl by (simp add: st v)
    moreover have "length (map f [0..<k] @ drop k X) = length X" if "k < length X" for f :: "nat \<Rightarrow> s16" and X
      using that by simp
    ultimately have "?flat k st = Some (init_seed seed (Suc k), of_nat (k + 1) + 1,
        map (init_A seed) [0..<Suc k] @ drop (Suc k) A, map (init_B seed) [0..<Suc k] @ drop (Suc k) B)"
      using kl by (simp only: step)
    then show ?case by simp
  qed
  then show ?thesis unfolding eq by auto
qed


text \<open>A product of two 16 bit elements fits the 32 bits of the result.\<close>

lemma product_of_int: "(scast (a :: s16) * scast (b :: s16) :: s32) = word_of_int (sint a * sint b)"
  by (simp only: of_int_mult of_int_sint)

lemma sint_product: "sint (scast (a :: s16) * scast (b :: s16) :: s32) = sint a * sint b"
proof -
  have r: "\<bar>sint x\<bar> \<le> 32768" for x :: s16
    using sint_range_size[of x] by (simp add: word_size abs_le_iff)
  have "\<bar>sint a * sint b\<bar> \<le> 32768 * 32768"
    unfolding abs_mult by (rule mult_mono) (simp_all add: r)
  then have "- (2 ^ 31) \<le> sint a * sint b" "sint a * sint b < 2 ^ 31" by (simp_all add: abs_le_iff)
  then show ?thesis unfolding product_of_int by (rule sint_of_int_s32)
qed

lemma bit_extract_eq: "bit_extract x from to = word_of_int (sint x div 2 ^ from mod 2 ^ to)"
proof -
  have "NOT (push_bit to 0xffffffff) = (mask to :: u32)"
  proof (rule bit_word_eqI)
    fix n assume "n < LENGTH(32)"
    moreover have "(0xffffffff :: u32) = mask 32" by (simp add: mask_eq_exp_minus_1)
    ultimately show "bit (NOT (push_bit to 0xffffffff) :: u32) n = bit (mask to :: u32) n"
      by (simp only: bit_simps) (auto simp: bit_simps)
  qed
  then have "bit_extract x from to = take_bit to (signed_drop_bit from x)"
    by (simp add: bit_extract_def take_bit_eq_mask)
  also have "\<dots> = take_bit to (word_of_int (sint (signed_drop_bit from x)))" by simp
  also have "\<dots> = word_of_int (take_bit to (sint (signed_drop_bit from x)))"
    by (simp only: take_bit_of_int)
  finally show ?thesis
    by (simp add: sint_signed_drop_bit_eq take_bit_eq_mod drop_bit_eq_div)
qed


section \<open>Properties\<close>

lemma clip_low_byte: "matrix_clip x True = ucast (x AND 0xff)" "unat (matrix_clip x True) < 256"
proof -
  have "(0xff :: s32) = mask 8" by (simp add: mask_eq_exp_minus_1)
  then have "ucast (x AND 0xff) = (take_bit 8 (ucast x) :: s16)"
    by (simp only: flip: take_bit_eq_mask) (auto intro!: bit_word_eqI simp: bit_simps)
  moreover have "unat (take_bit 8 y :: s16) < 256" for y
    using take_bit_nat_less_exp[of 8 "unat y"] by (simp add: unsigned_take_bit_eq)
  ultimately show "matrix_clip x True = ucast (x AND 0xff)" "unat (matrix_clip x True) < 256"
    by (simp_all add: matrix_clip_def)
qed

lemma init_A_small: "unat (init_A seed k) < 256"
  by (simp add: init_A_def init_values_def Let_def clip_low_byte(2))

text \<open>
  C34. For matrices that fit their arrays, \<open>matrix_mul_matrix\<close> returns and element \<open>(i, j)\<close> of
  the result is the product of row \<open>i\<close> of \<open>A\<close> and column \<open>j\<close> of \<open>B\<close> as signed numbers,
  reduced to 32 bits; the rest of the memory of \<open>C\<close> is as before.
\<close>

theorem matrix_mul_matrix_product:
  assumes "dim_ok N A" "dim_ok N B" "dim_ok N C" "i < unat N" "j < unat N"
  shows "\<exists>C'. matrix_mul_matrix N C A B = Some C' \<and>
    C' ! (i * unat N + j) =
      word_of_int (\<Sum>k < unat N. sint (A ! (i * unat N + k)) * sint (B ! (k * unat N + j))) \<and>
    length C' = length C \<and> drop (unat N * unat N) C' = drop (unat N * unat N) C"
  using assms by (simp add: matrix_mul_matrix_eq square_nth square_length square_drop)

lemma matrix_mul_matrix_product_witness:
  "\<exists>C'. matrix_mul_matrix 2 [0, 0, 0, 0, 9] [1, 2, 3, - 4] [5, 6, 7, 8] = Some C' \<and>
    C' ! 3 = word_of_int (- 14) \<and> drop 4 C' = [9]"
proof -
  have two: "unat (2 :: u32) = 2" "{..<2 :: nat} = {0, 1}" by auto
  have "\<exists>C'. matrix_mul_matrix 2 [0, 0, 0, 0, 9] [1, 2, 3, - 4] [5, 6, 7, 8] = Some C' \<and>
    C' ! (1 * unat (2 :: u32) + 1) = word_of_int (\<Sum>k < unat (2 :: u32).
      sint ([1, 2, 3, - 4 :: s16] ! (1 * unat (2 :: u32) + k)) * sint ([5, 6, 7, 8 :: s16] ! (k * unat (2 :: u32) + 1))) \<and>
    length C' = length [0 :: s32, 0, 0, 0, 9] \<and>
    drop (unat (2 :: u32) * unat (2 :: u32)) C' = drop (unat (2 :: u32) * unat (2 :: u32)) [0, 0, 0, 0, 9]"
    by (rule matrix_mul_matrix_product) simp_all
  then show ?thesis by (elim ex_forward) (simp add: two)
qed

text \<open>
  \<open>matrix_mul_matrix_bitextract\<close> returns, and each element of its result is the sum of the
  products of bits 2 to 5 and bits 5 to 11 of the signed products of the elements.
\<close>

lemma matrix_bitextract_product:
  assumes "dim_ok N A" "dim_ok N B" "dim_ok N C" "i < unat N" "j < unat N"
  shows "\<exists>C'. matrix_mul_matrix_bitextract N C A B = Some C' \<and>
    C' ! (i * unat N + j) = word_of_int (\<Sum>k < unat N.
      (let p = sint (A ! (i * unat N + k)) * sint (B ! (k * unat N + j)) in
        (p div 4 mod 16) * (p div 32 mod 128))) \<and>
    length C' = length C \<and> drop (unat N * unat N) C' = drop (unat N * unat N) C"
  using assms
  by (simp add: matrix_mul_matrix_bitextract_eq square_nth square_length square_drop bit_extract_eq
      sint_product Let_def)

lemma matrix_bitextract_product_witness:
  "\<exists>C'. matrix_mul_matrix_bitextract 1 [0] [- 3] [100] = Some C' \<and> C' ! 0 = 5 * 118"
proof -
  have "\<exists>C'. matrix_mul_matrix_bitextract 1 [0] [- 3] [100] = Some C' \<and>
    C' ! (0 * unat (1 :: u32) + 0) = word_of_int (\<Sum>k < unat (1 :: u32).
      (let p = sint ([- 3 :: s16] ! (0 * unat (1 :: u32) + k)) * sint ([100 :: s16] ! (k * unat (1 :: u32) + 0)) in
        (p div 4 mod 16) * (p div 32 mod 128))) \<and>
    length C' = length [0 :: s32] \<and>
    drop (unat (1 :: u32) * unat (1 :: u32)) C' = drop (unat (1 :: u32) * unat (1 :: u32)) [0]"
    by (rule matrix_bitextract_product) simp_all
  then show ?thesis by (auto simp: Let_def)
qed

text \<open>
  C35. The matrix benchmark returns for every seed, leaves \<open>A\<close>, \<open>B\<close> and the dimension as they
  were and writes only into the memory of \<open>C\<close>.
\<close>

theorem core_bench_matrix_total:
  assumes "dim_ok (mat_N p) (mat_A p)" "dim_ok (mat_N p) (mat_B p)" "dim_ok (mat_N p) (mat_C p)"
  shows "\<exists>r C'. core_bench_matrix p seed crc = Some (r, p\<lparr>mat_C := C'\<rparr>) \<and> length C' = length (mat_C p)"
  by (rule core_bench_matrix_restores[OF assms])

lemma core_bench_matrix_total_witness:
  "\<exists>r C'. core_bench_matrix \<lparr>mat_N = 2, mat_A = [1, 2, 3, 4], mat_B = [5, 6, 7, 8], mat_C = [0, 0, 0, 0]\<rparr> 7 0 =
    Some (r, \<lparr>mat_N = 2, mat_A = [1, 2, 3, 4], mat_B = [5, 6, 7, 8], mat_C = C'\<rparr>) \<and> length C' = length [0 :: s32, 0, 0, 0]"
  using core_bench_matrix_total[of "\<lparr>mat_N = 2, mat_A = [1, 2, 3, 4], mat_B = [5, 6, 7, 8], mat_C = [0, 0, 0, 0]\<rparr>" 7 0]
  by simp

text \<open>
  For a block of 1 to 4294791200 bytes the initialisation returns the largest dimension whose
  three matrices need fewer bytes than the block, provided the arrays hold it; every element of
  \<open>A\<close> is below 256, and its low byte is that of the element of \<open>B\<close> plus its position from 1.
\<close>

lemma core_init_matrix_dimension:
  assumes "0 < blksize" "blksize \<le> 4294791200"
    and "unat blksize \<le> 8 * length A" "unat blksize \<le> 8 * length B"
  shows "\<exists>N A' B'. core_init_matrix blksize seed A B C = Some (N, \<lparr>mat_N = N, mat_A = A', mat_B = B', mat_C = C\<rparr>) \<and>
    8 * unat N * unat N < unat blksize \<and> unat blksize \<le> 8 * (unat N + 1) * (unat N + 1) \<and>
    length A' = length A \<and> length B' = length B \<and>
    (\<forall>k < unat N * unat N. unat (A' ! k) < 256 \<and>
      A' ! k = matrix_clip (scast (ucast (scast (B' ! k) + of_nat (k + 1) :: s32) :: s16)) True)"
proof -
  obtain N where N: "dim_loop blksize 0 0 = Some (N + 1)" "8 * unat N * unat N < unat blksize"
    "unat blksize \<le> 8 * (unat N + 1) * (unat N + 1)" "unat N < 23170"
    using dim_loop_dimension[OF assms(1,2)] by blast
  let ?q = "unat N * unat N" and ?s = "if seed = 0 then 1 else seed"
  let ?A = "map (init_A ?s) [0..<?q] @ drop ?q A" and ?B = "map (init_B ?s) [0..<?q] @ drop ?q B"
  have q: "8 * ?q < unat blksize" using N(2) by (simp add: mult.assoc)
  then have d: "dim_ok N A" "dim_ok N B"
    using assms(3,4) unsigned_less[of blksize, where ?'a = nat] by auto
  then obtain s ord where "for_range 0 (unat N) (\<lambda>i. for_range 0 (unat N) (init_elem N i)) (?s, 1, A, B) =
    Some (s, ord, ?A, ?B)" using init_loop_fills by blast
  then have r: "core_init_matrix blksize seed A B C = Some (N, \<lparr>mat_N = N, mat_A = ?A, mat_B = ?B, mat_C = C\<rparr>)"
    by (simp add: core_init_matrix_def N(1))
  have "unat (?A ! k) < 256 \<and>
      ?A ! k = matrix_clip (scast (ucast (scast (?B ! k) + of_nat (k + 1) :: s32) :: s16)) True" if "k < ?q" for k
    using that by (simp add: nth_append init_A_small) (simp add: init_A_def init_B_def init_values_def Let_def)
  moreover have "length ?A = length A" "length ?B = length B" using d by simp_all
  ultimately show ?thesis using r N(2,3) by blast
qed

lemma core_init_matrix_dimension_witness:
  "\<exists>N A' B'. core_init_matrix 666 0 (replicate 84 0) (replicate 84 0) [] =
      Some (N, \<lparr>mat_N = N, mat_A = A', mat_B = B', mat_C = []\<rparr>) \<and>
    8 * unat N * unat N < 666 \<and> 666 \<le> 8 * (unat N + 1) * (unat N + 1)"
  using core_init_matrix_dimension[of 666 "replicate 84 0" "replicate 84 0" 0 "[]"] by auto

text \<open>
  For a block size above \<open>0xfffffff8\<close> the search for the dimension never ends: the bytes of
  the matrices, computed at 32 bits, are never as many.
\<close>

lemma core_init_matrix_diverges:
  assumes "0xfffffff8 < blksize"
  shows "core_init_matrix blksize seed A B C = None"
  by (simp add: core_init_matrix_def dim_loop_diverges[OF assms])

lemma core_init_matrix_diverges_witness: "core_init_matrix 0xffffffff 1 [] [] [] = None"
  by (rule core_init_matrix_diverges) simp

text \<open>
  The addresses of the three matrices are word aligned (for \<open>A\<close> and \<open>C\<close>), the matrices follow
  each other without overlap, and they end inside the block when it is word aligned or leaves
  three bytes for the alignment.
\<close>

lemma matrix_layout_disjoint:
  assumes "0 < memblk" "unat memblk + unat blksize \<le> 4294967292"
    and "8 * unat N * unat N < unat blksize"
    and "4 dvd unat memblk \<or> 8 * unat N * unat N + 3 \<le> unat blksize"
    and "matrix_layout memblk N = (A, B, C)"
  shows "unat memblk \<le> unat A \<and> unat B = unat A + 2 * (unat N * unat N) \<and>
    unat C = unat B + 2 * (unat N * unat N) \<and> unat C + 4 * (unat N * unat N) \<le> unat memblk + unat blksize \<and>
    4 dvd unat A \<and> 4 dvd unat C"
  by (rule matrix_layout_fits[OF assms])

lemma matrix_layout_disjoint_witness:
  "matrix_layout 0x10000a 9 = (0x10000c, 0x1000ae, 0x100150) \<and> (0x100150 :: nat) + 4 * 81 \<le> 0x10000a + 666"
proof -
  have l: "matrix_layout 0x10000a 9 = (0x10000c, 0x1000ae, 0x100150)" by code_simp
  show ?thesis using matrix_layout_disjoint[OF _ _ _ _ l, of 666] l by simp
qed

end
