(* ===== verification/Core_List.thy ===== *)
theory Core_List
  imports List_Sort Core_State Core_Matrix
begin

text \<open>
  The list benchmark of CoreMark (\<open>core_list_join.c\<close>): the function that computes or caches the
  value of a list item, the two comparisons, the benchmark and the initialisation of the list.
\<close>

section \<open>Data\<close>

text \<open>
  The results structure of \<open>coremark.h\<close>. Of the memory blocks only the one of the state
  benchmark is reached through it (\<open>memblock[3]\<close>); the nodes of the list are kept in the heap
  of headers and data, the matrices in \<open>rmat\<close>.
\<close>

record core_results =
  seed1 :: s16
  seed2 :: s16
  seed3 :: s16
  state_block :: "u8 list"
  rsize :: u32
  iterations :: u32
  execs :: u32
  rlist :: ptr
  rmat :: mat_params
  crc :: u16
  crclist :: u16
  crcmatrix :: u16
  crcstate :: u16
  err :: s16

section \<open>The value of an item\<close>

text \<open>The \<open>switch\<close> of \<open>calc_func\<close>: which algorithm computes the value.\<close>

definition calc_value :: "s16 \<Rightarrow> s16 \<Rightarrow> s16 \<Rightarrow> core_results \<Rightarrow> (s16 \<times> core_results) option" where
  "calc_value flag dtype data res =
    (if flag = 0 then do {
       let dtype = (if sint dtype < 0x22 then 0x22 else dtype);
       (retval, block) \<leftarrow> core_bench_state (rsize res) (state_block res) (seed1 res) (seed2 res) dtype (crc res);
       let res = res\<lparr>state_block := block\<rparr>;
       Some (retval, if crcstate res = 0 then res\<lparr>crcstate := retval\<rparr> else res) }
     else if flag = 1 then do {
       (retval, mat) \<leftarrow> core_bench_matrix (rmat res) dtype (crc res);
       let res = res\<lparr>rmat := mat\<rparr>;
       Some (retval, if crcmatrix res = 0 then res\<lparr>crcmatrix := retval\<rparr> else res) }
     else Some (data, res))"

definition calc_func :: "nat \<Rightarrow> datas \<Rightarrow> core_results \<Rightarrow> (s16 \<times> datas \<times> core_results) option" where
  "calc_func pdata d res = do {
     i \<leftarrow> d pdata;
     let data = data16 i;
     let optype = (ucast (signed_drop_bit 7 data) AND 1 :: u8);
     if optype \<noteq> 0 then Some (data AND 0x7f, d, res)
     else do {
       let flag = data AND 0x7;
       let dtype = signed_drop_bit 3 data AND 0xf;
       let dtype = dtype OR push_bit 4 dtype;
       (retval, res) \<leftarrow> calc_value flag dtype data res;
       let res = res\<lparr>crc := crcu16 retval (crc res)\<rparr>;
       let retval = retval AND 0x7f;
       Some (retval, d(pdata \<mapsto> i\<lparr>data16 := (data AND 0xff00) OR 0x80 OR retval\<rparr>), res) } }"

section \<open>The comparisons\<close>

text \<open>
  The state of a comparison is the data block and the results structure, which is null in the
  sort by index.
\<close>

type_synonym cmp_state = "datas \<times> core_results option"

definition cmp_complex :: "cmp_state list_cmp" where
  "cmp_complex s a b = (case s of (d, r) \<Rightarrow> do {
     res \<leftarrow> r;
     (val1, d, res) \<leftarrow> calc_func a d res;
     (val2, d, res) \<leftarrow> calc_func b d res;
     Some (scast val1 - scast val2, (d, Some res)) })"

text \<open>\<open>x->data16 = (x->data16 & 0xff00) | (0x00ff & (x->data16 >> 8))\<close>\<close>

definition regen :: "nat \<Rightarrow> datas \<Rightarrow> datas option" where
  "regen a d = do {
     i \<leftarrow> d a;
     Some (d(a \<mapsto> i\<lparr>data16 := (data16 i AND 0xff00) OR (0xff AND signed_drop_bit 8 (data16 i))\<rparr>)) }"

definition cmp_idx :: "cmp_state list_cmp" where
  "cmp_idx s a b = (case s of (d, r) \<Rightarrow> do {
     d \<leftarrow> (if r = None then do { d \<leftarrow> regen a d; regen b d } else Some d);
     i \<leftarrow> d a;
     j \<leftarrow> d b;
     Some (scast (didx i) - scast (didx j), (d, r)) })"

section \<open>The benchmark\<close>

text \<open>The variables the find loop changes, with the list headers.\<close>

record find_state =
  fcells :: cells
  flist :: ptr
  finfo :: list_data
  fretval :: u16
  ffound :: u16
  fmissed :: u16

text \<open>The item after the found one is moved behind the head of the list.\<close>

definition cache_next :: "nat \<Rightarrow> ptr \<Rightarrow> cells \<Rightarrow> cells option" where
  "cache_next this_find list c = do {
     h \<leftarrow> c this_find;
     case nxt h of None \<Rightarrow> Some c | Some finder \<Rightarrow> do {
       f \<leftarrow> c finder;
       c \<leftarrow> set_nxt this_find (nxt f) c;
       l \<leftarrow> list;
       lh \<leftarrow> c l;
       c \<leftarrow> set_nxt finder (nxt lh) c;
       set_nxt l (Some finder) c } }"

definition find_step :: "datas \<Rightarrow> nat \<Rightarrow> find_state \<Rightarrow> find_state option" where
  "find_step d i st = do {
     let info = (finfo st)\<lparr>data16 := of_nat i AND 0xff\<rparr>;
     this_find \<leftarrow> core_list_find (fcells st) d (flist st) info;
     (list, c) \<leftarrow> core_list_reverse (fcells st) (flist st);
     st \<leftarrow> (case this_find of
         None \<Rightarrow> do {
           l \<leftarrow> list;
           lh \<leftarrow> c l;
           n \<leftarrow> nxt lh;
           nh \<leftarrow> c n;
           ni \<leftarrow> d (dat nh);
           Some (st\<lparr>fcells := c, fmissed := fmissed st + 1,
             fretval := fretval st + (signed_drop_bit 8 (data16 ni) AND 1)\<rparr>) }
       | Some t \<Rightarrow> do {
           h \<leftarrow> c t;
           i \<leftarrow> d (dat h);
           let retval = (if data16 i AND 1 \<noteq> 0 then fretval st + (signed_drop_bit 9 (data16 i) AND 1) else fretval st);
           c \<leftarrow> cache_next t list c;
           Some (st\<lparr>fcells := c, ffound := ffound st + 1, fretval := retval\<rparr>) });
     Some (st\<lparr>flist := list,
       finfo := (if 0 \<le> sint (didx info) then info\<lparr>didx := didx info + 1\<rparr> else info)\<rparr>) }"

text \<open>\<open>while (finder) { retval = crc16(list->info->data16, retval); finder = finder->next; }\<close>\<close>

partial_function (option) crc_loop :: "cells \<Rightarrow> datas \<Rightarrow> ptr \<Rightarrow> ptr \<Rightarrow> u16 \<Rightarrow> u16 option" where
  "crc_loop c d list finder retval = (case finder of None \<Rightarrow> Some retval | Some f \<Rightarrow> do {
     l \<leftarrow> list;
     h \<leftarrow> c l;
     i \<leftarrow> d (dat h);
     fh \<leftarrow> c f;
     crc_loop c d list (nxt fh) (crc16 (data16 i) retval) })"

declare crc_loop.simps [code]

text \<open>\<open>p->next\<close>\<close>

definition next_of :: "cells \<Rightarrow> ptr \<Rightarrow> ptr option" where
  "next_of c p = do { a \<leftarrow> p; h \<leftarrow> c a; Some (nxt h) }"

text \<open>
  \<open>junk\<close> is what the uninitialised \<open>info.data16\<close> holds. The result is \<open>retval\<close> with the heap and the
  results structure after the call.
\<close>

definition core_bench_list ::
  "s16 \<Rightarrow> core_results \<Rightarrow> s16 \<Rightarrow> cells \<Rightarrow> datas \<Rightarrow> (u16 \<times> cells \<times> datas \<times> core_results) option" where
  "core_bench_list junk res finder_idx c d = do {
     st \<leftarrow> for_range 0 (nat (sint (seed3 res))) (find_step d)
       \<lparr>fcells = c, flist = rlist res, finfo = \<lparr>data16 = junk, didx = finder_idx\<rparr>,
        fretval = 0, ffound = 0, fmissed = 0\<rparr>;
     let retval = fretval st + (ffound st * 4 - fmissed st);
     (list, c, d, r) \<leftarrow> (if 0 < sint finder_idx
       then core_list_mergesort cmp_complex (flist st) (fcells st) (d, Some res)
       else Some (flist st, fcells st, d, Some res));
     res \<leftarrow> r;
     n \<leftarrow> next_of c list;
     item \<leftarrow> n;
     (remover, c) \<leftarrow> core_list_remove c item;
     finder \<leftarrow> core_list_find c d list (finfo st);
     finder \<leftarrow> (if finder = None then next_of c list else Some finder);
     retval \<leftarrow> crc_loop c d list finder retval;
     n \<leftarrow> next_of c list;
     item \<leftarrow> n;
     (remover, c) \<leftarrow> core_list_undo_remove c remover item;
     (list, c, d, r) \<leftarrow> core_list_mergesort cmp_idx list c (d, None);
     finder \<leftarrow> next_of c list;
     retval \<leftarrow> crc_loop c d list finder retval;
     Some (retval, c, d, res) }"

section \<open>Initialisation\<close>

text \<open>The data of item \<open>i\<close>.\<close>

definition item_data :: "s16 \<Rightarrow> u32 \<Rightarrow> s16" where
  "item_data seed i = (
     let datpat = (ucast (scast seed XOR i) AND 0xf :: u16);
         dat = (push_bit 3 datpat OR (ucast i AND 0x7) :: u16)
     in push_bit 8 dat OR dat)"

text \<open>The loop that inserts the items; the result pointer of the insertion is ignored.\<close>

definition insert_item :: "s16 \<Rightarrow> nat \<Rightarrow> nat \<Rightarrow> blocks \<times> cells \<times> datas \<Rightarrow> (blocks \<times> cells \<times> datas) option" where
  "insert_item seed sz i = (\<lambda>(b, c, d). do {
     (p, b, c, d) \<leftarrow> core_list_insert_new 0 \<lparr>data16 = item_data seed (of_nat i), didx = 0x7fff\<rparr> b sz sz c d;
     Some (b, c, d) })"

text \<open>The index of an item, \<open>i\<close> being its position.\<close>

definition item_idx :: "s16 \<Rightarrow> u32 \<Rightarrow> u32 \<Rightarrow> s16" where
  "item_idx seed sz i =
    (if i < sz div 5 then ucast i
     else let pat = (ucast (i XOR scast seed) :: u16)
       in 0x3fff AND (push_bit 8 (ucast (i + 1) AND 0x7) OR pat))"

partial_function (option) index_loop :: "s16 \<Rightarrow> u32 \<Rightarrow> cells \<Rightarrow> ptr \<Rightarrow> u32 \<Rightarrow> datas \<Rightarrow> datas option" where
  "index_loop seed sz c finder i d = do {
     f \<leftarrow> finder;
     h \<leftarrow> c f;
     if nxt h = None then Some d
     else do {
       x \<leftarrow> d (dat h);
       index_loop seed sz c (nxt h) (i + 1) (d(dat h \<mapsto> x\<lparr>didx := item_idx seed sz i\<rparr>)) } }"

declare index_loop.simps [code]

text \<open>
  Headers and data are at the positions from 0 of their parts of the block; \<open>c\<close> and \<open>d\<close> hold what
  the block holds before. The item of the head is set up first, then the fake item at the end.
\<close>

definition core_list_init :: "u32 \<Rightarrow> s16 \<Rightarrow> cells \<Rightarrow> datas \<Rightarrow> (ptr \<times> cells \<times> datas) option" where
  "core_list_init blksize seed c d = do {
     let per_item = 16 + 4;
     let sz = blksize div per_item - 2;
     c \<leftarrow> set_nxt 0 None c;
     c \<leftarrow> set_dat 0 0 c;
     x \<leftarrow> d 0;
     let d = d(0 \<mapsto> x\<lparr>didx := 0, data16 := 0x8080\<rparr>);
     (p, b, c, d) \<leftarrow> core_list_insert_new 0 \<lparr>data16 = 0xffff, didx = 0x7fff\<rparr>
       \<lparr>memblock = 1, datablock = 1\<rparr> (unat sz) (unat sz) c d;
     (b, c, d) \<leftarrow> for_range 0 (unat sz) (insert_item seed (unat sz)) (b, c, d);
     finder \<leftarrow> next_of c (Some 0);
     d \<leftarrow> index_loop seed sz c finder 1 d;
     (list, c, d, r) \<leftarrow> core_list_mergesort cmp_idx (Some 0) c (d, None);
     Some (list, c, d) }"

section \<open>The comparison by index\<close>

definition regen_data :: "s16 \<Rightarrow> s16" where
  "regen_data x = (x AND 0xff00) OR (0xff AND signed_drop_bit 8 x)"

definition regen_item :: "list_data \<Rightarrow> list_data" where
  "regen_item i = i\<lparr>data16 := regen_data (data16 i)\<rparr>"

lemma hi_mask: "(0xff00 :: s16) = push_bit 8 (mask 8)" "(0xff :: s16) = mask 8"
  by (simp_all add: mask_eq_exp_minus_1)

lemma regen_data_high: "regen_data x AND 0xff00 = x AND 0xff00"
  unfolding regen_data_def hi_mask by (rule bit_word_eqI) (auto simp: bit_simps)

lemma regen_data_determined:
  assumes "x AND 0xff00 = y AND 0xff00"
  shows "regen_data x = regen_data y"
proof (rule bit_word_eqI)
  fix n assume n: "n < LENGTH(16)"
  have hi: "bit x m = bit y m" if "8 \<le> m" "m < 16" for m
  proof -
    have "bit (x AND 0xff00) m = bit (y AND 0xff00) m" using assms by simp
    then show ?thesis using that unfolding hi_mask by (auto simp: bit_simps)
  qed
  show "bit (regen_data x) n = bit (regen_data y) n"
    unfolding regen_data_def hi_mask using hi n
    by (cases "n < 8") (auto simp: bit_simps min_def)
qed

lemma regen_data_idem: "regen_data (regen_data x) = regen_data x"
  by (rule regen_data_determined) (rule regen_data_high)

lemma regen_item_idem: "regen_item (regen_item i) = regen_item i"
  by (simp add: regen_item_def regen_data_idem)

lemma didx_regen_item [simp]: "didx (regen_item i) = didx i"
  by (simp add: regen_item_def)

lemma regen_eq: "d a = Some i \<Longrightarrow> regen a d = Some (d(a \<mapsto> regen_item i))"
  by (simp add: regen_def regen_item_def regen_data_def)

text \<open>The sort by index has seen an item once its data is regenerated.\<close>

definition regen_key :: "cmp_state \<Rightarrow> nat \<Rightarrow> int option" where
  "regen_key s a = (case fst s a of None \<Rightarrow> None
     | Some i \<Rightarrow> if regen_item i = i then Some (sint (didx i)) else None)"

definition regen_inv :: "datas \<Rightarrow> cmp_state \<Rightarrow> bool" where
  "regen_inv d0 s \<longleftrightarrow> snd s = None \<and>
    (\<forall>a. fst s a = d0 a \<or> (\<exists>i. d0 a = Some i \<and> fst s a = Some (regen_item i)))"

lemma sint_diff_le: "sint (scast (i :: s16) - scast (j :: s16) :: s32) \<le> 0 \<longleftrightarrow> sint i \<le> sint j"
proof -
  have r: "- 32768 \<le> sint x" "sint x < 32768" for x :: s16
    using sint_range_size[of x] by (simp_all add: word_size)
  have "(scast i - scast j :: s32) = word_of_int (sint i - sint j)" by (simp only: of_int_diff of_int_sint)
  moreover have "sint (word_of_int (sint i - sint j) :: s32) = sint i - sint j"
    by (rule sint_of_int_s32) (use r[of i] r[of j] in simp_all)
  ultimately show ?thesis by simp
qed

lemma regen_inv_data: "regen_inv d0 s \<Longrightarrow> a \<in> dom d0 \<Longrightarrow> \<exists>i. fst s a = Some i"
  unfolding regen_inv_def by (metis domD)

lemma regen_step:
  assumes "regen_inv d0 (d, None)" "d a = Some i"
  shows "regen_inv d0 (d(a \<mapsto> regen_item i), None)" "extends (regen_key (d, None)) (regen_key (d(a \<mapsto> regen_item i), None))"
    "regen_key (d(a \<mapsto> regen_item i), None) a = Some (sint (didx i))"
proof -
  have "d0 a = Some i \<or> (\<exists>j. d0 a = Some j \<and> i = regen_item j)"
    using assms unfolding regen_inv_def by (metis fst_conv option.inject)
  then show "regen_inv d0 (d(a \<mapsto> regen_item i), None)"
    using assms(1) by (auto simp: regen_inv_def regen_item_idem)
  show "extends (regen_key (d, None)) (regen_key (d(a \<mapsto> regen_item i), None))"
    using assms(2) by (auto simp: extends_def regen_key_def regen_item_idem split: option.splits if_splits)
  show "regen_key (d(a \<mapsto> regen_item i), None) a = Some (sint (didx i))"
    by (simp add: regen_key_def regen_item_idem)
qed

lemma cmp_idx_compares:
  assumes s: "regen_inv d0 s" and ab: "a \<in> dom d0" "b \<in> dom d0"
  shows "\<exists>r s' j k. cmp_idx s a b = Some (r, s') \<and> regen_inv d0 s' \<and> extends (regen_key s) (regen_key s') \<and>
      regen_key s' a = Some j \<and> regen_key s' b = Some k \<and> (sint r \<le> 0 \<longleftrightarrow> j \<le> k)"
proof -
  obtain d where d: "s = (d, None)" using s by (cases s) (auto simp: regen_inv_def)
  obtain i where i: "d a = Some i" using regen_inv_data[OF s ab(1)] d by auto
  let ?d1 = "d(a \<mapsto> regen_item i)"
  note s1 = regen_step[OF s[unfolded d] i]
  obtain j where j: "?d1 b = Some j" using regen_inv_data[OF s1(1) ab(2)] by auto
  let ?d2 = "?d1(b \<mapsto> regen_item j)"
  note s2 = regen_step[OF s1(1) j]
  have k: "regen_key (?d2, None) a = Some (sint (didx i))" using s2(2) s1(3) unfolding extends_def by blast
  obtain i' where i': "?d2 a = Some i'" "didx i' = didx i" using j by (cases "a = b") auto
  have r: "regen a d = Some ?d1" "regen b ?d1 = Some ?d2" by (rule regen_eq, rule i, rule regen_eq, rule j)
  have "cmp_idx s a b = Some (scast (didx i) - scast (didx j), (?d2, None))"
    using i' by (simp add: cmp_idx_def d r del: fun_upd_apply) (simp add: j)
  then show ?thesis
    using s2 k extends_trans[OF s1(2) s2(2)] sint_diff_le[of "didx i" "didx j"] unfolding d by blast
qed

interpretation by_idx: data_comparator cmp_idx regen_key "regen_inv d0" "dom d0" J for d0 J
  by unfold_locales (rule cmp_idx_compares)


section \<open>The comparison by value\<close>

text \<open>
  The results structure is good for the benchmarks it runs: the matrices fit their arrays, and
  the state benchmark returns and restores its block for every step \<open>calc_func\<close> can pass.
\<close>

definition state_ok :: "core_results \<Rightarrow> bool" where
  "state_ok res \<longleftrightarrow> (\<forall>step crc. 0x22 \<le> sint step \<longrightarrow> (\<exists>r.
     core_bench_state (rsize res) (state_block res) (seed1 res) (seed2 res) step crc = Some (r, state_block res)))"

definition results_ok :: "core_results \<Rightarrow> bool" where
  "results_ok res \<longleftrightarrow> state_ok res \<and> dim_ok (mat_N (rmat res)) (mat_A (rmat res)) \<and>
     dim_ok (mat_N (rmat res)) (mat_B (rmat res)) \<and> dim_ok (mat_N (rmat res)) (mat_C (rmat res))"

text \<open>What a benchmark run may change in the results: CRCs and the contents of matrix \<open>C\<close>.\<close>

definition same_inputs :: "core_results \<Rightarrow> core_results \<Rightarrow> bool" where
  "same_inputs r0 r \<longleftrightarrow> (\<exists>C' x y z. length C' = length (mat_C (rmat r0)) \<and>
     r = r0\<lparr>rmat := (rmat r0)\<lparr>mat_C := C'\<rparr>, crc := x, crcmatrix := y, crcstate := z\<rparr>)"

lemma same_inputsI:
  "length C' = length (mat_C (rmat q)) \<Longrightarrow>
   r = q\<lparr>rmat := (rmat q)\<lparr>mat_C := C'\<rparr>, crc := x, crcmatrix := y, crcstate := z\<rparr> \<Longrightarrow> same_inputs q r"
  unfolding same_inputs_def by blast

lemma same_inputs_refl [simp]: "same_inputs r r"
  by (rule same_inputsI[where C' = "mat_C (rmat r)" and q = r and r = r and x = "crc r" and y = "crcmatrix r" and z = "crcstate r"]) simp_all

lemma same_inputs_trans:
  assumes "same_inputs r r'" "same_inputs r' r''"
  shows "same_inputs r r''"
proof -
  obtain C1 x1 y1 z1 where 1: "length C1 = length (mat_C (rmat r))"
    "r' = r\<lparr>rmat := (rmat r)\<lparr>mat_C := C1\<rparr>, crc := x1, crcmatrix := y1, crcstate := z1\<rparr>"
    using assms(1) unfolding same_inputs_def by blast
  obtain C2 x2 y2 z2 where 2: "length C2 = length (mat_C (rmat r'))"
    "r'' = r'\<lparr>rmat := (rmat r')\<lparr>mat_C := C2\<rparr>, crc := x2, crcmatrix := y2, crcstate := z2\<rparr>"
    using assms(2) unfolding same_inputs_def by blast
  show ?thesis by (rule same_inputsI[where C' = C2 and q = r and r = r'' and x = x2 and y = y2 and z = z2]) (simp_all add: 1 2)
qed

lemma same_inputs_ok: "same_inputs r0 r \<Longrightarrow> results_ok r0 \<Longrightarrow> results_ok r"
  by (auto simp: same_inputs_def results_ok_def state_ok_def)

lemma same_inputs_fields: "same_inputs r0 r \<Longrightarrow> rlist r = rlist r0 \<and> seed3 r = seed3 r0 \<and> state_block r = state_block r0"
  by (auto simp: same_inputs_def)

lemma same_inputs_crc: "same_inputs r r' \<Longrightarrow> same_inputs r (r'\<lparr>crc := x\<rparr>)"
  by (erule same_inputs_trans, rule same_inputsI[where C' = "mat_C (rmat r')" and q = r' and x = x and y = "crcmatrix r'" and z = "crcstate r'"]) simp_all

lemma calc_value_total:
  assumes "results_ok res"
  shows "\<exists>v res'. calc_value flag dtype data res = Some (v, res') \<and> same_inputs res res'"
proof -
  consider "flag = 0" | "flag = 1" | "flag \<noteq> 0" "flag \<noteq> 1" by blast
  then show ?thesis
  proof cases
    case 1
    let ?t = "if sint dtype < 0x22 then 0x22 else dtype"
    have "0x22 \<le> sint ?t" by simp
    then obtain r where r: "core_bench_state (rsize res) (state_block res) (seed1 res) (seed2 res) ?t (crc res) =
      Some (r, state_block res)" using assms unfolding results_ok_def state_ok_def by blast
    have "same_inputs res (res\<lparr>crcstate := r\<rparr>)"
      by (rule same_inputsI[where C' = "mat_C (rmat res)" and q = res and x = "crc res" and y = "crcmatrix res" and z = r]) simp_all
    then show ?thesis using 1 r by (simp add: calc_value_def Let_def)
  next
    case 2
    obtain r C' where r: "core_bench_matrix (rmat res) dtype (crc res) = Some (r, (rmat res)\<lparr>mat_C := C'\<rparr>)"
      "length C' = length (mat_C (rmat res))"
      using core_bench_matrix_restores assms unfolding results_ok_def by blast
    have "same_inputs res (res\<lparr>rmat := (rmat res)\<lparr>mat_C := C'\<rparr>, crcmatrix := x\<rparr>)" for x
      by (rule same_inputsI[where C' = C' and q = res and x = "crc res" and y = x and z = "crcstate res"]) (simp_all add: r)
    from this[of r] this[of "crcmatrix res"] show ?thesis using 2 r(1) by (simp add: calc_value_def Let_def)
  next
    case 3
    then show ?thesis by (simp add: calc_value_def)
  qed
qed

text \<open>Bit 7 says that the value is cached in the bits below.\<close>

definition cached :: "s16 \<Rightarrow> bool" where
  "cached x \<longleftrightarrow> bit x 7"

definition cache_key :: "cmp_state \<Rightarrow> nat \<Rightarrow> int option" where
  "cache_key s a = (case fst s a of None \<Rightarrow> None
     | Some i \<Rightarrow> if cached (data16 i) then Some (sint (data16 i AND 0x7f)) else None)"

text \<open>An item may only change in the low byte.\<close>

definition same_item :: "list_data option \<Rightarrow> list_data option \<Rightarrow> bool" where
  "same_item x y \<longleftrightarrow> (case x of None \<Rightarrow> y = None
     | Some i \<Rightarrow> (case y of None \<Rightarrow> False | Some j \<Rightarrow> \<exists>v. j = i\<lparr>data16 := v\<rparr> \<and> v AND 0xff00 = data16 i AND 0xff00))"

definition cache_inv :: "core_results \<Rightarrow> datas \<Rightarrow> cmp_state \<Rightarrow> bool" where
  "cache_inv r0 d0 s \<longleftrightarrow> (case snd s of None \<Rightarrow> False | Some r \<Rightarrow> same_inputs r0 r) \<and>
    (\<forall>a. same_item (d0 a) (fst s a))"

lemma optype_cached: "(ucast (signed_drop_bit 7 (x :: s16)) AND 1 :: u8) \<noteq> 0 \<longleftrightarrow> cached x"
proof -
  have "(ucast (signed_drop_bit 7 x) AND 1 :: u8) = of_bool (cached x)"
    by (rule bit_word_eqI) (auto simp: bit_simps cached_def min_def)
  then show ?thesis by simp
qed

lemma seven_bits: "(0x7f :: s16) = mask 7"
  by (simp add: mask_eq_exp_minus_1)

lemma bit_0x80: "bit (0x80 :: s16) n \<longleftrightarrow> n = 7"
  using bit_exp_iff[of 7 n, where ?'a = "16 word"] by auto

lemma cache_word:
  fixes data v :: s16
  defines "x \<equiv> (data AND 0xff00) OR 0x80 OR (v AND 0x7f)"
  shows "cached x" "x AND 0xff00 = data AND 0xff00" "x AND 0x7f = v AND 0x7f"
proof -
  have x: "bit x n \<longleftrightarrow> n = 7 \<or> (8 \<le> n \<and> bit data n) \<or> (n < 7 \<and> bit v n)" if "n < 16" for n
    unfolding x_def hi_mask seven_bits bit_or_iff bit_0x80 using that by (auto simp: bit_simps)
  then show "cached x" by (simp add: cached_def)
  show "x AND 0xff00 = data AND 0xff00"
    unfolding hi_mask by (rule bit_word_eqI) (auto simp: bit_and_iff bit_push_bit_iff bit_mask_iff x)
  show "x AND 0x7f = v AND 0x7f"
    unfolding seven_bits by (rule bit_word_eqI) (auto simp: bit_and_iff bit_mask_iff x)
qed

lemma same_item_refl [simp]: "same_item x x"
proof (cases x)
  case (Some i)
  then show ?thesis by (simp add: same_item_def) (rule exI[of _ "data16 i"], simp)
qed (simp add: same_item_def)

lemma same_item_trans: "same_item x y \<Longrightarrow> same_item y z \<Longrightarrow> same_item x z"
  by (auto simp: same_item_def split: option.splits)

lemma calc_func_caches:
  assumes "results_ok res" "d a = Some i"
  shows "\<exists>v d' res'. calc_func a d res = Some (v, d', res') \<and> same_inputs res res' \<and>
    cache_key (d', r') a = Some (sint v) \<and> extends (cache_key (d, r)) (cache_key (d', r')) \<and>
    (\<forall>b. same_item (d b) (d' b)) \<and> 0 \<le> sint v"
proof -
  have pos: "0 \<le> sint (x AND 0x7f)" for x :: s16
  proof -
    have "\<not> bit (x AND 0x7f) 15" unfolding seven_bits by (simp add: bit_simps)
    then show ?thesis using bit_last_iff[of "x AND 0x7f"] by simp
  qed
  show ?thesis
  proof (cases "cached (data16 i)")
    case True
    then have "calc_func a d res = Some (data16 i AND 0x7f, d, res)"
      by (simp only: calc_func_def assms(2) Let_def optype_cached Option.bind.simps if_True)
    then show ?thesis using True assms(2) pos by (auto simp: cache_key_def extends_def)
  next
    case False
    let ?dt = "signed_drop_bit 3 (data16 i) AND 0xf"
    obtain v res1 where c: "calc_value (data16 i AND 7) (?dt OR push_bit 4 ?dt) (data16 i) res = Some (v, res1)"
      "same_inputs res res1" using calc_value_total[OF assms(1)] by blast
    let ?i = "i\<lparr>data16 := (data16 i AND 0xff00) OR 0x80 OR (v AND 0x7f)\<rparr>"
    have "calc_func a d res = Some (v AND 0x7f, d(a \<mapsto> ?i), res1\<lparr>crc := crcu16 v (crc res1)\<rparr>)"
      using False by (simp only: calc_func_def assms(2) Let_def optype_cached Option.bind.simps if_False c) simp
    moreover have "same_item (d b) ((d(a \<mapsto> ?i)) b)" for b
      using assms(2) cache_word(2)[of "data16 i" v] by (cases "b = a") (auto simp: same_item_def[of "Some i"])
    moreover have "extends (cache_key (d, r)) (cache_key (d(a \<mapsto> ?i), r'))"
      using False assms(2) by (auto simp: extends_def cache_key_def split: option.splits)
    moreover have "cache_key (d(a \<mapsto> ?i), r') a = Some (sint (v AND 0x7f))"
      using cache_word[of "data16 i" v] by (simp add: cache_key_def)
    ultimately show ?thesis using same_inputs_crc[OF c(2)] pos by blast
  qed
qed

lemma cmp_complex_compares:
  assumes s: "results_ok r0 \<and> cache_inv r0 d0 s" and ab: "a \<in> dom d0" "b \<in> dom d0"
  shows "\<exists>r s' j k. cmp_complex s a b = Some (r, s') \<and> (results_ok r0 \<and> cache_inv r0 d0 s') \<and>
      extends (cache_key s) (cache_key s') \<and>
      cache_key s' a = Some j \<and> cache_key s' b = Some k \<and> (sint r \<le> 0 \<longleftrightarrow> j \<le> k)"
proof -
  obtain d r where d: "s = (d, Some r)" "same_inputs r0 r" "\<forall>x. same_item (d0 x) (d x)"
    using s by (cases s) (auto simp: cache_inv_def split: option.splits)
  have some: "\<exists>i. d' x = Some i" if "x \<in> dom d0" "\<forall>x. same_item (d0 x) (d' x)" for x d'
    using that by (auto simp: same_item_def dom_def split: option.splits dest!: spec[of _ x])
  obtain i where "d a = Some i" using some[OF ab(1) d(3)] by auto
  from calc_func_caches[of r d a i "Some r" "Some r", OF same_inputs_ok[OF d(2)] this] s
  obtain v d1 r1 where 1: "calc_func a d r = Some (v, d1, r1)" "same_inputs r r1"
    "cache_key (d1, Some r) a = Some (sint v)" "extends (cache_key (d, Some r)) (cache_key (d1, Some r))"
    "\<forall>b. same_item (d b) (d1 b)" by blast
  have ok1: "results_ok r1" "\<forall>x. same_item (d0 x) (d1 x)"
    using s same_inputs_ok[OF same_inputs_trans[OF d(2) 1(2)]] d(3) 1(5) by (auto intro: same_item_trans)
  obtain j where "d1 b = Some j" using some[OF ab(2) ok1(2)] by auto
  from calc_func_caches[of r1 d1 b j "Some r1" "Some r", OF ok1(1) this]
  obtain w d2 r2 where 2: "calc_func b d1 r1 = Some (w, d2, r2)" "same_inputs r1 r2"
    "cache_key (d2, Some r1) b = Some (sint w)" "extends (cache_key (d1, Some r)) (cache_key (d2, Some r1))"
    "\<forall>b. same_item (d1 b) (d2 b)" by blast
  have key: "cache_key (d2, x) = cache_key (d2, y)" for x y by (simp add: cache_key_def fun_eq_iff)
  have "cmp_complex s a b = Some (scast v - scast w, (d2, Some r2))"
    by (simp add: cmp_complex_def d(1) 1(1) 2(1))
  moreover have "cache_inv r0 d0 (d2, Some r2)"
    using same_inputs_trans[OF d(2) same_inputs_trans[OF 1(2) 2(2)]] ok1(2) 2(5)
    by (auto simp: cache_inv_def intro: same_item_trans)
  moreover have "extends (cache_key s) (cache_key (d2, Some r2))"
    using extends_trans[OF 1(4) 2(4)] d(1) key[of "Some r1" "Some r2"] by simp
  moreover have "cache_key (d2, Some r2) a = Some (sint v)" "cache_key (d2, Some r2) b = Some (sint w)"
    using 1(3) 2(3,4) key[of "Some r1" "Some r2"] unfolding extends_def by auto
  ultimately show ?thesis using s sint_diff_le[of v w] by blast
qed

interpretation by_value: data_comparator cmp_complex cache_key "\<lambda>s. results_ok r0 \<and> cache_inv r0 d0 s" "dom d0" J
  for r0 d0 J
  by unfold_locales (rule cmp_complex_compares)

end
