(* ===== verification/Core_List_Bench.thy ===== *)
theory Core_List_Bench
  imports Core_List
begin

text \<open>
  The list benchmark and the initialisation of its list as a whole: what each leaves of the
  list, and that the benchmark restores the headers and the data exactly.
\<close>

section \<open>The find loop permutes the list\<close>

lemma cache_next_moves:
  assumes ch: "chain c (Some l) xs" and t: "t \<in> set xs"
  shows "\<exists>c' ys. cache_next t (Some l) c = Some c' \<and> chain c' (Some l) ys \<and> mset ys = mset xs \<and>
    info_of c' = info_of c \<and> (\<forall>a. a \<notin> set xs \<longrightarrow> c' a = c a)"
proof -
  obtain us ws where xs: "xs = us @ t # ws" using t by (auto simp: in_set_conv_decomp)
  have d: "distinct xs" by (rule chain_distinct[OF ch])
  obtain h where h: "seg c (Some l) us (Some t)" "c t = Some h" "chain c (nxt h) ws"
    using ch xs by (auto simp: seg_append split: option.splits)
  show ?thesis
  proof (cases ws)
    case Nil
    then have "cache_next t (Some l) c = Some c" using h by (simp add: cache_next_def)
    then show ?thesis using ch by blast
  next
    case (Cons f vs)
    then obtain g where g: "nxt h = Some f" "c f = Some g" "chain c (nxt g) vs"
      using h(3) by (auto split: option.splits)
    have tf: "t \<noteq> f" using d xs Cons by auto
    show ?thesis
    proof (cases us)
      case Nil
      then have l: "l = t" using h(1) by simp
      have "cache_next t (Some l) c = Some (c(t \<mapsto> h\<lparr>nxt := nxt g\<rparr>, f \<mapsto> g, t \<mapsto> h\<lparr>nxt := Some f\<rparr>))"
        using h g tf l by (simp add: cache_next_def set_nxt_def)
      also have "c(t \<mapsto> h\<lparr>nxt := nxt g\<rparr>, f \<mapsto> g, t \<mapsto> h\<lparr>nxt := Some f\<rparr>) = c"
        using h g tf by (cases h) (auto simp: fun_eq_iff)
      finally show ?thesis using ch by blast
    next
      case us: (Cons l' us')
      then obtain k where k: "l' = l" "c l = Some k" "seg c (nxt k) us' (Some t)"
        using h(1) by (auto split: option.splits)
      have ne: "l \<noteq> t" "l \<noteq> f" "l \<notin> set us'" "l \<notin> set vs" "t \<notin> set us'" "f \<notin> set us'" "t \<notin> set vs" "f \<notin> set vs"
        using d xs Cons us k(1) by auto
      let ?c = "c(t \<mapsto> h\<lparr>nxt := nxt g\<rparr>, f \<mapsto> g\<lparr>nxt := nxt k\<rparr>, l \<mapsto> k\<lparr>nxt := Some f\<rparr>)"
      have r: "cache_next t (Some l) c = Some ?c"
        using h g tf k ne by (simp add: cache_next_def set_nxt_def)
      have "chain ?c (Some l) (l # f # us' @ t # vs)"
        using k g h ne tf by (auto simp: seg_append)
      moreover have "mset (l # f # us' @ t # vs) = mset xs" using xs Cons us k(1) by simp
      moreover have "info_of ?c = info_of c" using h(2) g(2) k(2) by (auto simp: info_of_def fun_eq_iff)
      moreover have "\<forall>a. a \<notin> set xs \<longrightarrow> ?c a = c a" using xs Cons us k(1) by auto
      ultimately show ?thesis using r by blast
    qed
  qed
qed

text \<open>The state of the find loop: a list of the same headers.\<close>

definition find_inv :: "cells \<Rightarrow> nat list \<Rightarrow> find_state \<Rightarrow> bool" where
  "find_inv c0 xs0 st \<longleftrightarrow> (\<exists>xs. chain (fcells st) (flist st) xs \<and> mset xs = mset xs0) \<and>
    info_of (fcells st) = info_of c0 \<and> (\<forall>a. a \<notin> set xs0 \<longrightarrow> fcells st a = c0 a)"

lemma find_step_total:
  assumes inv: "find_inv c0 xs0 st" and data: "\<forall>a \<in> set xs0. \<exists>i. info_of c0 a = Some i \<and> d i \<noteq> None"
    and two: "2 \<le> length xs0"
  shows "\<exists>st'. find_step d i st = Some st' \<and> find_inv c0 xs0 st'"
proof -
  obtain xs where xs: "chain (fcells st) (flist st) xs" "mset xs = mset xs0" "info_of (fcells st) = info_of c0"
    "\<forall>a. a \<notin> set xs0 \<longrightarrow> fcells st a = c0 a"
    using inv unfolding find_inv_def by blast
  have set: "set xs = set xs0" "length xs = length xs0"
    using mset_eq_setD[OF xs(2)] mset_eq_length[OF xs(2)] by auto
  let ?info = "(finfo st)\<lparr>data16 := of_nat i AND 0xff\<rparr>"
  let ?hit = "\<lambda>a. info_matches ?info (the (d (the (info_of (fcells st) a))))"
  have f: "core_list_find (fcells st) d (flist st) ?info = Some (find ?hit xs)"
    by (rule core_list_find_eq[OF xs(1)]) (use data set xs(3) in auto)
  obtain c1 q where r: "core_list_reverse (fcells st) (flist st) = Some (q, c1)" "chain c1 q (rev xs)"
    "info_of c1 = info_of c0" "\<forall>a. a \<notin> set xs0 \<longrightarrow> c1 a = c0 a"
    using core_list_reverse_eq[OF xs(1)] xs(3,4) set(1) by auto
  obtain l n ws where rev: "rev xs = l # n # ws" using two set(2) by (cases "rev xs"; cases "tl (rev xs)") auto
  obtain lh nh where ln: "q = Some l" "c1 l = Some lh" "nxt lh = Some n" "c1 n = Some nh"
    using r(2) rev by (auto split: option.splits)
  have inv1: "find_inv c0 xs0 (st\<lparr>fcells := c1, flist := q, finfo := y, fretval := v, ffound := z, fmissed := w\<rparr>)" for y v z w
    using r xs(2) by (auto simp: find_inv_def intro!: exI[of _ "rev xs"])
  show ?thesis
  proof (cases "find ?hit xs")
    case None
    have "n \<in> set xs0" using rev set(1) by (metis list.set_intros(1) list.set_intros(2) set_rev)
    moreover have "info_of c0 n = Some (dat nh)" using ln(4) r(3) by (metis info_of_Some)
    ultimately obtain ni where "d (dat nh) = Some ni" using data by fastforce
    then show ?thesis using inv1
      by (simp add: find_step_def Let_def f None r(1) ln find_inv_def)
  next
    case (Some t)
    then have t: "t \<in> set (rev xs)" by (auto simp: find_Some_iff)
    then obtain th where th: "c1 t = Some th" using seg_dom[OF r(2)] by blast
    have "t \<in> set xs0" using t set(1) by simp
    moreover have "info_of c0 t = Some (dat th)" using th r(3) by (metis info_of_Some)
    ultimately obtain ti where ti: "d (dat th) = Some ti" using data by fastforce
    obtain c2 ys where c2: "cache_next t (Some l) c1 = Some c2" "chain c2 (Some l) ys" "mset ys = mset (rev xs)"
      "info_of c2 = info_of c1" "\<forall>a. a \<notin> set (rev xs) \<longrightarrow> c2 a = c1 a"
      using cache_next_moves[OF r(2)[unfolded ln(1)] t] by blast
    have "\<exists>st'. find_step d i st = Some st' \<and> fcells st' = c2 \<and> flist st' = Some l"
      by (simp add: find_step_def Let_def f Some r(1) ln(1) th ti c2(1))
    then show ?thesis using c2 r(3,4) xs(2) set(1) unfolding find_inv_def by auto
  qed
qed

section \<open>The benchmark restores its list\<close>

lemma crc_loop_eq:
  assumes "chain c p xs" "c l = Some h" "d (dat h) = Some i"
  shows "crc_loop c d (Some l) p r = Some (((crc16 (data16 i)) ^^ length xs) r)"
  using assms(1)
proof (induction xs arbitrary: p r)
  case Nil then show ?case by (simp add: crc_loop.simps)
next
  case (Cons a xs)
  then show ?case using assms(2,3)
    by (subst crc_loop.simps) (auto simp: funpow_swap1 split: option.splits)
qed

text \<open>The data item of a header.\<close>

definition item_of :: "cells \<Rightarrow> datas \<Rightarrow> nat \<Rightarrow> list_data option" where
  "item_of c d a = (case info_of c a of None \<Rightarrow> None | Some i \<Rightarrow> d i)"

text \<open>
  The list between two runs of the benchmark: at least three items, in strictly increasing order
  of their index, each with its data as it is regenerated from the upper byte.
\<close>

definition list_ready :: "cells \<Rightarrow> datas \<Rightarrow> ptr \<Rightarrow> nat list \<Rightarrow> bool" where
  "list_ready c d p xs \<longleftrightarrow> chain c p xs \<and> 3 \<le> length xs \<and>
    (\<forall>a \<in> set xs. case item_of c d a of None \<Rightarrow> False | Some i \<Rightarrow> regen_item i = i) \<and>
    sorted_wrt (\<lambda>a b. sint (didx (the (item_of c d a))) < sint (didx (the (item_of c d b)))) xs"

lemma sorted_perm_unique:
  fixes K :: "'a \<Rightarrow> int"
  assumes "sorted_wrt (\<lambda>a b. K a < K b) xs" "sorted_wrt (\<lambda>a b. K a \<le> K b) ys" "mset ys = mset xs"
  shows "ys = xs"
proof -
  have s: "sorted_wrt (<) (map K xs)" "sorted (map K ys)" using assms(1,2) by (simp_all add: sorted_wrt_map)
  then have d: "distinct (map K xs)" "sorted (map K xs)" by (simp_all add: strict_sorted_iff)
  have "map K ys = map K xs"
    using s(2) d(2) assms(3) by (metis mset_map properties_for_sort)
  moreover have "inj_on K (set ys \<union> set xs)" using d(1) mset_eq_setD[OF assms(3)] by (simp add: distinct_map)
  ultimately show ?thesis by (metis map_inj_on)
qed

lemma keys_defined:
  assumes "sorted_wrt (key_le K) ys" "2 \<le> length ys" "a \<in> set ys"
  shows "\<exists>k. K a = Some k"
proof -
  obtain us vs where ys: "ys = us @ a # vs" using assms(3) by (auto simp: in_set_conv_decomp)
  show ?thesis
  proof (cases us)
    case Nil
    then obtain b where "b \<in> set vs" using ys assms(2) by (cases vs) auto
    then have "key_le K a b" using assms(1) ys by (simp add: sorted_wrt_append)
    then show ?thesis by (auto simp: key_le_def split: option.splits)
  next
    case (Cons b us')
    then have "key_le K b a" using assms(1) ys by (simp add: sorted_wrt_append)
    then show ?thesis by (auto simp: key_le_def split: option.splits)
  qed
qed

lemma heads_all: 
  "\<forall>a \<in> set xs. \<exists>i. J a = Some i \<and> d i \<noteq> None \<Longrightarrow> set xs \<subseteq> data_comparator.heads (dom d) J"
  for J :: "nat \<Rightarrow> nat option" and d :: datas
  by (fastforce simp: by_idx.heads_def domIff)

lemma same_item_regen: "same_item (Some i) y \<Longrightarrow> \<exists>j. y = Some j \<and> regen_item j = regen_item i \<and> didx j = didx i"
  by (auto simp: same_item_def regen_item_def dest: regen_data_determined split: option.splits)

text \<open>The sort by index brings a permuted list with used data back to where it was.\<close>

lemma sort_by_idx_restores:
  assumes ready: "list_ready c d p xs" and c1: "chain c1 q ys" "mset ys = mset xs" "info_of c1 = info_of c"
    and d1: "\<forall>i. same_item (d i) (d1 i)"
  shows "\<exists>c3 d3. core_list_mergesort cmp_idx q c1 (d1, None) = Some (p, c3, (d3, None)) \<and>
    chain c3 p xs \<and> info_of c3 = info_of c \<and> (\<forall>a. a \<notin> set xs \<longrightarrow> c3 a = c1 a) \<and>
    (\<forall>a \<in> set xs. item_of c d3 a = item_of c d a) \<and> dom d3 = dom d1"
proof -
  have ch: "chain c p xs" "3 \<le> length xs" using ready by (auto simp: list_ready_def)
  have item: "\<exists>i j x. info_of c a = Some i \<and> d i = Some x \<and> regen_item x = x \<and> d1 i = Some j \<and>
      regen_item j = x \<and> didx j = didx x" if "a \<in> set xs" for a
  proof -
    have "case item_of c d a of None \<Rightarrow> False | Some i \<Rightarrow> regen_item i = i"
      using ready that by (simp add: list_ready_def)
    then obtain i x where i: "info_of c a = Some i" "d i = Some x" "regen_item x = x"
      by (auto simp: item_of_def split: option.splits)
    then show ?thesis using same_item_regen[of x "d1 i"] d1[rule_format, of i] by auto
  qed
  have set: "set ys = set xs" "length ys = length xs" using mset_eq_setD mset_eq_length c1(2) by (metis, metis)
  have heads: "set ys \<subseteq> data_comparator.heads (dom d1) (info_of c1)"
    by (rule heads_all) (use item set c1(3) in fastforce)
  have "regen_inv d1 (d1, None)" by (simp add: regen_inv_def)
  moreover have "ys \<noteq> []" using set ch(2) by auto
  ultimately obtain q' c3 s3 zs where s: "core_list_mergesort cmp_idx q c1 (d1, None) = Some (q', c3, s3)"
    "chain c3 q' zs" "mset zs = mset ys" "sorted_wrt (key_le (data_comparator.head_key regen_key (info_of c1) s3)) zs"
    "regen_inv d1 s3" "info_of c3 = info_of c1" "\<forall>a. a \<notin> set ys \<longrightarrow> c3 a = c1 a"
    using by_idx.mergesort_sorts[of d1 "(d1, None)" c1 "info_of c1" q ys, OF _ refl c1(1) _ heads] by blast
  obtain d3 where d3: "s3 = (d3, None)" using s(5) by (cases s3) (auto simp: regen_inv_def)
  have zs: "set zs = set xs" "length zs = length xs" using set s(3) mset_eq_setD mset_eq_length by (metis, metis)
  let ?K = "\<lambda>a. sint (didx (the (item_of c d a)))"
  have key: "data_comparator.head_key regen_key (info_of c1) s3 a = Some (?K a) \<and> item_of c d3 a = item_of c d a"
    if a: "a \<in> set xs" for a
  proof -
    obtain i j x where i: "info_of c a = Some i" "d i = Some x" "regen_item x = x" "d1 i = Some j" "regen_item j = x"
      "didx j = didx x" using item[OF a] by blast
    obtain k where k: "data_comparator.head_key regen_key (info_of c1) s3 a = Some k"
      using keys_defined[OF s(4)] zs a ch(2) by auto
    then have "regen_key s3 i = Some k" using i(1) c1(3) by (simp add: by_idx.head_key_def)
    moreover have "d3 i = Some j \<or> d3 i = Some x" using s(5) i unfolding d3 regen_inv_def by (metis fst_conv option.inject)
    ultimately have "d3 i = Some x" using i d3 by (auto simp: regen_key_def split: option.splits if_splits)
    then have "regen_key s3 i = Some (sint (didx x))" using i d3 by (simp add: regen_key_def)
    then show ?thesis using i c1(3) \<open>d3 i = Some x\<close> by (simp add: by_idx.head_key_def item_of_def)
  qed
  have "sorted_wrt (\<lambda>a b. ?K a \<le> ?K b) zs"
    by (rule sorted_wrt_mono_rel[OF _ s(4)]) (use key zs in \<open>auto simp: key_le_def\<close>)
  then have "zs = xs" using sorted_perm_unique[of ?K xs zs] ready s(3) c1(2) by (simp add: list_ready_def)
  moreover have "dom d3 = dom d1"
    using s(5) unfolding d3 regen_inv_def by (auto simp: dom_def) (metis option.distinct(1), metis option.distinct(1))
  moreover have "q' = p" using chain_hd[OF s(2)] chain_hd[OF ch(1)] \<open>zs = xs\<close> by simp
  ultimately show ?thesis using s d3 c1(3) set key by auto
qed


lemma info_of_perm:
  assumes "mset ys = mset xs" "info_of c' = info_of c" "\<forall>a \<in> set xs. \<exists>i. info_of c a = Some i \<and> d i \<noteq> None"
  shows "\<forall>a \<in> set ys. \<exists>i. info_of c' a = Some i \<and> d i \<noteq> None"
  using assms mset_eq_setD[OF assms(1)] by simp

lemma find_in_set: "find P xs = Some t \<Longrightarrow> t \<in> set xs"
  by (auto simp: find_Some_iff)

text \<open>The part of the benchmark between the two sorts changes nothing and returns.\<close>

lemma bench_middle:
  assumes ch: "chain c q ys" and three: "3 \<le> length ys"
    and data: "\<forall>a \<in> set ys. \<exists>i. info_of c a = Some i \<and> d i \<noteq> None"
  shows "\<exists>l b e c2 f v. q = Some l \<and> next_of c q = Some (Some b) \<and> core_list_remove c b = Some (e, c2) \<and>
    core_list_find c2 d q info = Some f \<and>
    (\<exists>g. (if f = None then next_of c2 q else Some f) = Some g \<and> (\<forall>r. \<exists>v. crc_loop c2 d q g r = Some v)) \<and>
    next_of c2 q = Some (Some b) \<and> core_list_undo_remove c2 e b = Some (e, c)"
proof -
  obtain l b e vs where ys: "ys = [l] @ b # e # vs" using three
    by (cases ys; cases "tl ys"; cases "tl (tl ys)") auto
  obtain c2 where c2: "core_list_remove c b = Some (e, c2)" "chain c2 q ([l] @ b # vs)"
    "core_list_undo_remove c2 e b = Some (e, c)" "info_of c2 = (info_of c)(b := info_of c e, e := info_of c b)"
    using remove_undo[OF ch[unfolded ys]] by blast
  obtain hl where hl: "q = Some l" "c l = Some hl" "nxt hl = Some b" using ch ys by (auto split: option.splits)
  obtain hl2 where hl2: "c2 l = Some hl2" "nxt hl2 = Some b" "chain c2 (nxt hl2) (b # vs)"
    using c2(2) by (auto split: option.splits)
  have data2: "\<forall>a \<in> set ([l] @ b # vs). \<exists>i. info_of c2 a = Some i \<and> d i \<noteq> None"
    using data ys chain_distinct[OF ch] by (auto simp: c2(4))
  obtain f where f: "core_list_find c2 d q info = Some f" "f = find (\<lambda>a. info_matches info (the (d (the (info_of c2 a))))) ([l] @ b # vs)"
    using core_list_find_eq[OF c2(2) data2] by blast
  define g where "g = (if f = None then Some b else f)"
  have "\<exists>ws. chain c2 g ws"
  proof (cases f)
    case None
    then show ?thesis using hl2(2,3) by (intro exI[of _ "b # vs"]) (simp add: g_def)
  next
    case (Some t)
    have "t \<in> set ([l] @ b # vs)" by (rule find_in_set[OF f(2)[unfolded Some, symmetric]])
    then obtain us ws where "[l] @ b # vs = us @ t # ws" by (meson in_set_conv_decomp)
    then have "chain c2 (Some t) (t # ws)" using c2(2) chain_suffix by metis
    then show ?thesis using Some by (intro exI[of _ "t # ws"]) (simp add: g_def)
  qed
  then obtain ws where ws: "chain c2 g ws" ..
  obtain x where x: "d (dat hl2) = Some x" using data2 hl2(1) by (auto simp: info_of_def)
  have "\<exists>v. crc_loop c2 d q g r = Some v" for r
    using crc_loop_eq[of c2 g ws l hl2 d x r] ws hl2(1) x hl(1) by blast
  moreover have "next_of c2 q = Some (Some b)" "next_of c q = Some (Some b)"
    using hl hl2 by (simp_all add: next_of_def)
  moreover have "(if f = None then next_of c2 q else Some f) = Some g"
    using \<open>next_of c2 q = _\<close> by (simp add: g_def)
  ultimately show ?thesis using hl(1) c2(1,3) f(1) by blast
qed

lemma first_sort:
  assumes res: "results_ok res" and c1: "chain c1 q ys" "ys \<noteq> []"
    and data: "\<forall>a \<in> set ys. \<exists>i. info_of c1 a = Some i \<and> d i \<noteq> None"
  shows "\<exists>q' c2 d2 res2 zs. (if 0 < sint fi then core_list_mergesort cmp_complex q c1 (d, Some res)
      else Some (q, c1, d, Some res)) = Some (q', c2, (d2, Some res2)) \<and>
    chain c2 q' zs \<and> mset zs = mset ys \<and> info_of c2 = info_of c1 \<and> (\<forall>a. a \<notin> set ys \<longrightarrow> c2 a = c1 a) \<and>
    (\<forall>i. same_item (d i) (d2 i)) \<and> same_inputs res res2"
proof (cases "0 < sint fi")
  case True
  have heads: "set ys \<subseteq> data_comparator.heads (dom d) (info_of c1)" by (rule heads_all[OF data])
  have inv: "results_ok res \<and> cache_inv res d (d, Some res)" using res by (simp add: cache_inv_def)
  from by_value.mergesort_sorts[OF inv refl c1 heads]
  obtain q' c2 s2 zs where s: "core_list_mergesort cmp_complex q c1 (d, Some res) = Some (q', c2, s2)"
    "chain c2 q' zs" "mset zs = mset ys" "cache_inv res d s2" "info_of c2 = info_of c1"
    "\<forall>a. a \<notin> set ys \<longrightarrow> c2 a = c1 a" by blast
  obtain d2 res2 where "s2 = (d2, Some res2)" "\<forall>i. same_item (d i) (d2 i)" "same_inputs res res2"
    using s(4) by (cases s2) (auto simp: cache_inv_def split: option.splits)
  then show ?thesis using s True by auto
next
  case False
  then show ?thesis using c1 by auto
qed

lemma same_item_Some: "same_item x y \<Longrightarrow> x \<noteq> None \<Longrightarrow> y \<noteq> None"
  by (auto simp: same_item_def split: option.splits)

lemma bench_list_restores:
  assumes ready: "list_ready c d (rlist res) xs" and res: "results_ok res"
  shows "\<exists>r d' res'. core_bench_list junk res fi c d = Some (r, c, d', res') \<and>
    (\<forall>a \<in> set xs. item_of c d' a = item_of c d a) \<and> list_ready c d' (rlist res) xs \<and> same_inputs res res'"
proof -
  have ch: "chain c (rlist res) xs" "3 \<le> length xs" using ready by (auto simp: list_ready_def)
  have data: "\<exists>i. info_of c a = Some i \<and> d i \<noteq> None" if "a \<in> set xs" for a
  proof -
    have "case item_of c d a of None \<Rightarrow> False | Some i \<Rightarrow> regen_item i = i"
      using ready that by (simp add: list_ready_def)
    then show ?thesis by (auto simp: item_of_def split: option.splits)
  qed
  let ?st0 = "\<lparr>fcells = c, flist = rlist res, finfo = \<lparr>data16 = junk, didx = fi\<rparr>, fretval = 0, ffound = 0, fmissed = 0\<rparr>"
  let ?n = "nat (sint (seed3 res))"
  have "find_inv c xs ?st0" using ch by (auto simp: find_inv_def)
  then obtain st where st: "for_range 0 ?n (find_step d) ?st0 = Some st" "find_inv c xs st"
    using for_range_invariant[of "\<lambda>_. find_inv c xs" 0 ?st0 ?n "find_step d"] find_step_total[of c xs _ d] data ch(2)
    by auto
  then obtain ys where ys: "chain (fcells st) (flist st) ys" "mset ys = mset xs" "info_of (fcells st) = info_of c"
    "\<forall>a. a \<notin> set xs \<longrightarrow> fcells st a = c a" unfolding find_inv_def by blast
  have ysl: "length ys = length xs" "set ys = set xs" using ys(2) mset_eq_length mset_eq_setD by (metis, metis)
  obtain q c1 d1 res1 zs where s1: "(if 0 < sint fi then core_list_mergesort cmp_complex (flist st) (fcells st) (d, Some res)
      else Some (flist st, fcells st, d, Some res)) = Some (q, c1, (d1, Some res1))"
    "chain c1 q zs" "mset zs = mset ys" "info_of c1 = info_of (fcells st)" "\<forall>a. a \<notin> set ys \<longrightarrow> c1 a = fcells st a"
    "\<forall>i. same_item (d i) (d1 i)" "same_inputs res res1"
    using first_sort[OF res ys(1), of d fi] data ysl ch(2) ys(3) by fastforce
  have zsl: "length zs = length xs" "mset zs = mset xs" "set zs = set xs"
    using s1(3) ys(2) mset_eq_length mset_eq_setD by (metis, metis, metis)
  have i1: "info_of c1 = info_of c" using s1(4) ys(3) by simp
  have data1: "\<forall>a \<in> set zs. \<exists>i. info_of c1 a = Some i \<and> d1 i \<noteq> None"
    using data zsl(3) i1 s1(6) same_item_Some by metis
  obtain l b e c2 f g where mid: "q = Some l" "next_of c1 q = Some (Some b)" "core_list_remove c1 b = Some (e, c2)"
    "core_list_find c2 d1 q (finfo st) = Some f" "(if f = None then next_of c2 q else Some f) = Some g"
    "\<forall>r. \<exists>v. crc_loop c2 d1 q g r = Some v" "next_of c2 q = Some (Some b)" "core_list_undo_remove c2 e b = Some (e, c1)"
    using bench_middle[OF s1(2) _ data1, of "finfo st"] zsl(1) ch(2) by auto
  obtain v where v: "crc_loop c2 d1 q g (fretval st + (ffound st * 4 - fmissed st)) = Some v" using mid(6) by blast
  obtain c3 d3 where s3: "core_list_mergesort cmp_idx q c1 (d1, None) = Some (rlist res, c3, (d3, None))"
    "chain c3 (rlist res) xs" "info_of c3 = info_of c" "\<forall>a. a \<notin> set xs \<longrightarrow> c3 a = c1 a"
    "\<forall>a \<in> set xs. item_of c d3 a = item_of c d a" "dom d3 = dom d1"
    using sort_by_idx_restores[OF ready s1(2) zsl(2) i1 s1(6)] by blast
  have "c3 = c"
  proof
    fix a show "c3 a = c a"
      using chain_determines[OF ch(1) s3(2,3)] s3(4) s1(5) ys(4) ysl(2) by (cases "a \<in> set xs") auto
  qed
  obtain l' n ws where xs: "xs = l' # n # ws" using ch(2) by (cases xs; cases "tl xs") auto
  then obtain h where h: "rlist res = Some l'" "c l' = Some h" "chain c (nxt h) (n # ws)"
    using ch(1) by (auto split: option.splits)
  have "item_of c d3 l' \<noteq> None"
    using s3(5) data[of l'] xs by (auto simp: item_of_def)
  then obtain x where x: "d3 (dat h) = Some x" using h(2) by (auto simp: item_of_def info_of_def)
  have last: "crc_loop c d3 (rlist res) (nxt h) v = Some ((crc16 (data16 x) ^^ length (n # ws)) v)"
    using crc_loop_eq[of c "nxt h" "n # ws" l' h d3 x v] h x by simp
  have "list_ready c d3 (rlist res) xs"
  proof -
    have "sorted_wrt (\<lambda>a b. sint (didx (the (item_of c d3 a))) < sint (didx (the (item_of c d3 b)))) xs"
      using ready s3(5) unfolding list_ready_def by (auto elim!: sorted_wrt_mono_rel[rotated])
    then show ?thesis using ready s3(5) by (simp add: list_ready_def)
  qed
  moreover have "core_bench_list junk res fi c d =
      Some ((crc16 (data16 x) ^^ length (n # ws)) v, c, d3, res1)"
  proof -
    have nx: "next_of c (rlist res) = Some (nxt h)" using h by (simp add: next_of_def)
    show ?thesis
      by (simp only: core_bench_list_def Let_def st(1) s1(1) mid(2-4,7,8) mid(5)[unfolded mid(7)] v s3(1) \<open>c3 = c\<close> nx last
        Option.bind.simps prod.case)
  qed
  ultimately show ?thesis using s3(5) s1(7) by blast
qed

section \<open>The initialisation\<close>

text \<open>
  While the list grows: \<open>m\<close> headers with their data nodes at the same positions are linked, the
  next free ones are at \<open>m\<close>, and the blocks of \<open>n\<close> nodes are there.
\<close>

definition grown :: "nat \<Rightarrow> nat \<Rightarrow> blocks \<times> cells \<times> datas \<Rightarrow> bool" where
  "grown n m st \<longleftrightarrow> (case st of (b, c, d) \<Rightarrow> b = \<lparr>memblock = m, datablock = m\<rparr> \<and>
    (\<exists>xs. chain c (Some 0) (0 # xs) \<and> set (0 # xs) = {0..<m}) \<and>
    (\<forall>a < m. info_of c a = Some a) \<and> {0..<n} \<subseteq> dom c \<and> {0..<n} \<subseteq> dom d)"

lemma insert_grows:
  assumes "grown n m (b, c, d)" "0 < m"
  shows "\<exists>p b' c' d'. core_list_insert_new 0 info b n n c d = Some (p, b', c', d') \<and>
    grown n (if m + 1 < n then m + 1 else m) (b', c', d')"
proof -
  obtain xs where g: "b = \<lparr>memblock = m, datablock = m\<rparr>" "chain c (Some 0) ([] @ 0 # xs)" "set (0 # xs) = {0..<m}"
    "\<forall>a < m. info_of c a = Some a" "{0..<n} \<subseteq> dom c" "{0..<n} \<subseteq> dom d"
    using assms(1) by (auto simp: grown_def)
  show ?thesis
  proof (cases "m + 1 < n")
    case True
    have "memblock b \<notin> set ([] @ 0 # xs)" unfolding append_Nil g(3) using g(1) by simp
    moreover have "m \<in> dom c" "m \<in> dom d" using g(5,6) True by (simp_all add: subset_eq)
    ultimately obtain c' d' where r: "core_list_insert_new 0 info b n n c d =
        Some (Some m, \<lparr>memblock = m + 1, datablock = m + 1\<rparr>, c', d')"
      "chain c' (Some 0) ([] @ 0 # m # xs)" "info_of c' = (info_of c)(m \<mapsto> m)"
      "\<exists>i. d' = d(m \<mapsto> i)" "dom c' = dom c"
      using core_list_insert_new_eq[OF g(2), of b d n n info] True g(1) by auto
    have "set (0 # m # xs) = {0..<m + 1}"
      using g(3) assms(2) by (simp add: atLeast0_lessThan_Suc insert_commute[of 0])
    then have "grown n (m + 1) (\<lparr>memblock = m + 1, datablock = m + 1\<rparr>, c', d')"
      using r(2-5) g(4-6) unfolding grown_def by (auto simp del: seg.simps simp: less_Suc_eq intro!: exI[of _ "m # xs"])
    then show ?thesis using r(1) True by simp
  next
    case False
    then show ?thesis using assms(1) g(1) by (simp add: core_list_insert_new_def)
  qed
qed

lemma insert_items_grow:
  assumes "grown n m st" "0 < m"
  shows "\<exists>st'. for_up k i (insert_item seed n) st = Some st' \<and>
    grown n (if m + k < n then m + k else max m (n - 1)) st'"
  using assms
proof (induction k arbitrary: m i st)
  case 0 then show ?case by (auto simp: max_def)
next
  case (Suc k)
  obtain b c d where st: "st = (b, c, d)" by (cases st)
  let ?m = "if m + 1 < n then m + 1 else m"
  obtain b' c' d' where r: "insert_item seed n i st = Some (b', c', d')" "grown n ?m (b', c', d')"
    using insert_grows[OF Suc.prems[unfolded st], of "\<lparr>data16 = item_data seed (of_nat i), didx = 0x7fff\<rparr>"]
    unfolding st insert_item_def by auto
  have "0 < ?m" using Suc.prems by simp
  note ih = Suc.IH[OF r(2) this, of "i + 1"]
  have "(if ?m + k < n then ?m + k else max ?m (n - 1)) = (if m + Suc k < n then m + Suc k else max m (n - 1))"
    by auto
  then show ?case using ih r(1) by simp
qed

lemma index_loop_total:
  assumes "chain c p xs" "xs \<noteq> []" "\<forall>a \<in> set xs. \<exists>i. info_of c a = Some i \<and> i \<in> dom d"
  shows "\<exists>d'. index_loop seed sz c p i d = Some d' \<and> dom d' = dom d"
  using assms
proof (induction xs arbitrary: p i d)
  case Nil then show ?case by simp
next
  case (Cons a xs)
  obtain h x where h: "p = Some a" "c a = Some h" "chain c (nxt h) xs" "d (dat h) = Some x"
    using Cons.prems by (auto simp: info_of_def split: option.splits)
  show ?case
  proof (cases xs)
    case Nil
    then show ?thesis using h by (subst index_loop.simps) auto
  next
    case (Cons b ys)
    then have nn: "nxt h \<noteq> None" using h(3) by auto
    let ?d = "d(dat h \<mapsto> x\<lparr>didx := item_idx seed sz i\<rparr>)"
    have dom: "dom ?d = dom d" using h(4) by auto
    have "\<exists>d'. index_loop seed sz c (nxt h) (i + 1) ?d = Some d' \<and> dom d' = dom ?d"
    proof (rule Cons.IH[OF h(3)])
      show "xs \<noteq> []" using Cons by simp
      show "\<forall>a \<in> set xs. \<exists>i. info_of c a = Some i \<and> i \<in> dom ?d" unfolding dom using Cons.prems(3) by simp
    qed
    then show ?thesis using h nn dom by (subst index_loop.simps) auto
  qed
qed

text \<open>The list the initialisation builds: sorted by index, each item with regenerated data.\<close>

definition list_sorted :: "cells \<Rightarrow> datas \<Rightarrow> nat list \<Rightarrow> bool" where
  "list_sorted c d xs \<longleftrightarrow>
    (\<forall>a \<in> set xs. case item_of c d a of None \<Rightarrow> False | Some i \<Rightarrow> regen_item i = i) \<and>
    sorted_wrt (\<lambda>a b. sint (didx (the (item_of c d a))) \<le> sint (didx (the (item_of c d b)))) xs"

lemma sort_by_idx_sorts:
  assumes "chain c p xs" "2 \<le> length xs" "\<forall>a \<in> set xs. \<exists>i. info_of c a = Some i \<and> d i \<noteq> None"
  shows "\<exists>q c' d' ys. core_list_mergesort cmp_idx p c (d, None) = Some (q, c', (d', None)) \<and> chain c' q ys \<and>
    mset ys = mset xs \<and> info_of c' = info_of c \<and> list_sorted c' d' ys"
proof -
  have "regen_inv d (d, None)" by (simp add: regen_inv_def)
  moreover have "xs \<noteq> []" using assms(2) by auto
  ultimately obtain q c' s ys where s: "core_list_mergesort cmp_idx p c (d, None) = Some (q, c', s)"
    "chain c' q ys" "mset ys = mset xs" "sorted_wrt (key_le (data_comparator.head_key regen_key (info_of c) s)) ys"
    "regen_inv d s" "info_of c' = info_of c"
    using by_idx.mergesort_sorts[of d "(d, None)" c "info_of c" p xs, OF _ refl assms(1) _ heads_all[OF assms(3)]] by blast
  obtain d' where d': "s = (d', None)" using s(5) by (cases s) (auto simp: regen_inv_def)
  have ys: "2 \<le> length ys" using mset_eq_length[OF s(3)] assms(2) by simp
  have key: "\<exists>i. item_of c' d' a = Some i \<and> regen_item i = i \<and>
      data_comparator.head_key regen_key (info_of c) s a = Some (sint (didx i))" if a: "a \<in> set ys" for a
    using keys_defined[OF s(4) ys a] d' s(6)
    by (auto simp: by_idx.head_key_def item_of_def regen_key_def split: option.splits if_splits)
  have "sorted_wrt (\<lambda>a b. sint (didx (the (item_of c' d' a))) \<le> sint (didx (the (item_of c' d' b)))) ys"
  proof (rule sorted_wrt_mono_rel[OF _ s(4)])
    fix a b assume ab: "a \<in> set ys" "b \<in> set ys"
      and le: "key_le (data_comparator.head_key regen_key (info_of c) s) a b"
    show "sint (didx (the (item_of c' d' a))) \<le> sint (didx (the (item_of c' d' b)))"
      using key[OF ab(1)] key[OF ab(2)] le by (auto simp: key_le_def)
  qed
  moreover have "\<forall>a \<in> set ys. case item_of c' d' a of None \<Rightarrow> False | Some i \<Rightarrow> regen_item i = i"
    using key by fastforce
  ultimately show ?thesis using s d' by (auto simp: list_sorted_def)
qed

lemma list_init_builds:
  assumes blk: "100 \<le> blksize" and n: "n = unat blksize div 20 - 2"
    and mem: "{0..<n} \<subseteq> dom c" "{0..<n} \<subseteq> dom d"
  shows "\<exists>q c' d' xs. core_list_init blksize seed c d = Some (q, c', d') \<and> chain c' q xs \<and>
    set xs = {0..<n - 1} \<and> length xs = n - 1 \<and> list_sorted c' d' xs"
proof -
  have b5: "5 \<le> unat blksize div 20"
  proof -
    have "100 \<le> unat blksize" using blk by (simp add: word_le_nat_alt)
    then show ?thesis by simp
  qed
  let ?sz = "blksize div 20 - 2 :: u32"
  have "unat (blksize div 20) = unat blksize div 20" by (simp add: unat_div)
  then have sz: "unat ?sz = n"
    using b5 n by (subst unat_sub) (simp_all add: word_le_nat_alt)
  have n3: "3 \<le> n" using b5 n by simp
  have "0 \<in> dom c" "0 \<in> dom d" using mem n3 by (simp_all add: subset_eq)
  then obtain h x where h: "c 0 = Some h" "d 0 = Some x" by auto
  let ?c0 = "c(0 \<mapsto> h\<lparr>nxt := None, dat := 0\<rparr>)" and ?d0 = "d(0 \<mapsto> x\<lparr>didx := 0, data16 := 0x8080\<rparr>)"
  have two: "(if 1 + 1 < n then 1 + 1 else 1) = (2 :: nat)" using n3 by simp
  have "grown n 1 (\<lparr>memblock = 1, datablock = 1\<rparr>, ?c0, ?d0)"
    using mem by (auto simp: grown_def info_of_def intro!: exI[of _ "[]"])
  from insert_grows[OF this, of "\<lparr>data16 = 0xffff, didx = 0x7fff\<rparr>", unfolded two] obtain p1 b1 c1 d1 where
    i1: "core_list_insert_new 0 \<lparr>data16 = 0xffff, didx = 0x7fff\<rparr> \<lparr>memblock = 1, datablock = 1\<rparr> n n ?c0 ?d0 =
      Some (p1, b1, c1, d1)" "grown n 2 (b1, c1, d1)" by auto
  have last: "(if 2 + n < n then 2 + n else max 2 (n - 1)) = n - 1" using n3 by simp
  from insert_items_grow[OF i1(2), of n 0 seed, unfolded last] obtain b2 c2 d2 where
    i2: "for_range 0 n (insert_item seed n) (b1, c1, d1) = Some (b2, c2, d2)" "grown n (n - 1) (b2, c2, d2)"
    by (auto simp: for_range_def)
  obtain xs where xs: "chain c2 (Some 0) (0 # xs)" "set (0 # xs) = {0..<n - 1}" "\<forall>a < n - 1. info_of c2 a = Some a"
    "{0..<n} \<subseteq> dom d2" using i2(2) by (auto simp: grown_def)
  have len: "length (0 # xs) = n - 1"
    using distinct_card[OF chain_distinct[OF xs(1)]] xs(2) by simp
  then have "xs \<noteq> []" using n3 by auto
  obtain h2 where h2: "c2 0 = Some h2" "chain c2 (nxt h2) xs" using xs(1) by (auto split: option.splits)
  have data: "\<forall>a \<in> set (0 # xs). \<exists>i. info_of c2 a = Some i \<and> i \<in> dom d2"
  proof
    fix a assume "a \<in> set (0 # xs)"
    then have "a < n - 1" unfolding xs(2) by simp
    then show "\<exists>i. info_of c2 a = Some i \<and> i \<in> dom d2" using xs(3,4) by (intro exI[of _ a]) (simp add: subset_eq)
  qed
  then have data': "\<forall>a \<in> set xs. \<exists>i. info_of c2 a = Some i \<and> i \<in> dom d2" by simp
  obtain d3 where d3: "index_loop seed ?sz c2 (nxt h2) 1 d2 = Some d3" "dom d3 = dom d2"
    using index_loop_total[OF h2(2) \<open>xs \<noteq> []\<close> data', of seed ?sz 1] by blast
  have data3: "\<forall>a \<in> set (0 # xs). \<exists>i. info_of c2 a = Some i \<and> d3 i \<noteq> None"
    using data d3(2) by (metis domIff)
  have two_le: "2 \<le> length (0 # xs)" unfolding len using n3 by simp
  obtain q c4 d4 ys where s: "core_list_mergesort cmp_idx (Some 0) c2 (d3, None) = Some (q, c4, (d4, None))"
    "chain c4 q ys" "mset ys = mset (0 # xs)" "list_sorted c4 d4 ys"
    using sort_by_idx_sorts[OF xs(1) two_le data3] by blast
  have "core_list_init blksize seed c d = Some (q, c4, d4)"
    using h i1(1) i2(1) d3(1) h2(1) s(1) sz
    by (simp add: core_list_init_def Let_def set_nxt_def set_dat_def next_of_def)
  moreover have "set ys = {0..<n - 1}" "length ys = n - 1"
    using mset_eq_setD[OF s(3)] mset_eq_length[OF s(3)] xs(2) len by auto
  ultimately show ?thesis using s(2,4) by blast
qed


section \<open>Properties\<close>

text \<open>
  Reversing a list in the heap returns, for every list that ends in the null pointer, a
  list of the same headers in the opposite order; the data nodes of the headers and every other
  header are not changed.
\<close>

lemma core_list_reverse_reverses:
  assumes "chain c p xs"
  shows "\<exists>c' q. core_list_reverse c p = Some (q, c') \<and> chain c' q (rev xs) \<and> info_of c' = info_of c \<and>
    (\<forall>a. a \<notin> set xs \<longrightarrow> c' a = c a)"
  by (rule core_list_reverse_eq[OF assms])

text \<open>Three headers at 0, 1 and 2 that hold the data nodes 5, 6 and 7.\<close>

definition cells3 :: cells where
  "cells3 = [0 \<mapsto> \<lparr>nxt = Some 1, dat = 5\<rparr>, 1 \<mapsto> \<lparr>nxt = Some 2, dat = 6\<rparr>, 2 \<mapsto> \<lparr>nxt = None, dat = 7\<rparr>]"

definition datas3 :: datas where
  "datas3 = [5 \<mapsto> \<lparr>data16 = 0, didx = 0\<rparr>, 6 \<mapsto> \<lparr>data16 = 0x0101, didx = 4\<rparr>, 7 \<mapsto> \<lparr>data16 = - 1, didx = 0x7fff\<rparr>]"

lemma chain_cells3: "chain cells3 (Some 0) [0, 1, 2]"
  by (simp add: cells3_def)

lemma core_list_reverse_reverses_witness:
  "\<exists>c' q. core_list_reverse cells3 (Some 0) = Some (q, c') \<and> chain c' q [2, 1, 0]"
  using core_list_reverse_reverses[OF chain_cells3] by auto

text \<open>
  C36. Removing an item takes it out of the list, and undoing the removal gives back the very
  same headers, for every item that is not the last of its list.
\<close>

theorem core_list_remove_undo:
  assumes "chain c p (us @ a # b # vs)"
  shows "\<exists>c'. core_list_remove c a = Some (b, c') \<and> chain c' p (us @ a # vs) \<and>
    core_list_undo_remove c' b a = Some (b, c) \<and> info_of c' = (info_of c)(a := info_of c b, b := info_of c a)"
  by (rule remove_undo[OF assms])

lemma core_list_remove_undo_witness:
  "\<exists>c'. core_list_remove cells3 1 = Some (2, c') \<and> chain c' (Some 0) [0, 1] \<and>
    core_list_undo_remove c' 2 1 = Some (2, cells3)"
  using core_list_remove_undo[of cells3 "Some 0" "[0]" 1 2 "[]"] chain_cells3 by auto

text \<open>
  C18. The merge sort with the comparison by index, on a list of at least two items, returns a
  permutation of the list in ascending order of the index, with the data of every item
  regenerated from its upper byte; the headers keep their data nodes.
\<close>

theorem core_list_mergesort_by_idx:
  assumes "chain c p xs" "2 \<le> length xs" "\<forall>a \<in> set xs. \<exists>i. info_of c a = Some i \<and> d i \<noteq> None"
  shows "\<exists>q c' d' ys. core_list_mergesort cmp_idx p c (d, None) = Some (q, c', (d', None)) \<and> chain c' q ys \<and>
    mset ys = mset xs \<and> info_of c' = info_of c \<and> list_sorted c' d' ys"
  by (rule sort_by_idx_sorts[OF assms])

lemma core_list_mergesort_by_idx_witness:
  "\<exists>q c' d' ys. core_list_mergesort cmp_idx (Some 0) cells3 (datas3, None) = Some (q, c', (d', None)) \<and>
    chain c' q ys \<and> mset ys = {#0, 1, 2#} \<and> list_sorted c' d' ys"
proof -
  have "\<forall>a \<in> set [0, 1, 2]. \<exists>i. info_of cells3 a = Some i \<and> datas3 i \<noteq> None"
    by (simp add: info_of_def cells3_def datas3_def)
  from core_list_mergesort_by_idx[OF chain_cells3 _ this] show ?thesis by auto
qed

text \<open>
  C14. The merge sort by value, which runs the matrix and the state benchmark to compute values
  it has not seen, returns a permutation that is sorted by the values it cached, is stable for
  equal values, and changes in the results structure only CRCs and the matrix \<open>C\<close>.
\<close>

theorem core_list_mergesort_by_value:
  assumes "results_ok res" "chain c p xs" "xs \<noteq> []" "\<forall>a \<in> set xs. \<exists>i. info_of c a = Some i \<and> d i \<noteq> None"
  shows "\<exists>q c' d' res' ys. core_list_mergesort cmp_complex p c (d, Some res) = Some (q, c', (d', Some res')) \<and>
    chain c' q ys \<and> mset ys = mset xs \<and> same_inputs res res' \<and>
    sorted_wrt (key_le (\<lambda>a. Option.bind (info_of c a) (cache_key (d', None)))) ys \<and>
    (\<forall>k. filter (\<lambda>a. Option.bind (info_of c a) (cache_key (d', None)) = Some k) ys =
      filter (\<lambda>a. Option.bind (info_of c a) (cache_key (d', None)) = Some k) xs)"
proof -
  have "results_ok res \<and> cache_inv res d (d, Some res)" using assms(1) by (simp add: cache_inv_def)
  from by_value.mergesort_sorts[OF this refl assms(2,3) heads_all[OF assms(4)]]
  obtain q c' s ys where s: "core_list_mergesort cmp_complex p c (d, Some res) = Some (q, c', s)" "chain c' q ys"
    "mset ys = mset xs" "cache_inv res d s"
    "sorted_wrt (key_le (data_comparator.head_key cache_key (info_of c) s)) ys"
    "\<forall>K k. extends (data_comparator.head_key cache_key (info_of c) s) K \<longrightarrow>
       filter (\<lambda>a. K a = Some k) ys = filter (\<lambda>a. K a = Some k) xs" by blast
  obtain d' res' where s': "s = (d', Some res')" "same_inputs res res'"
    using s(4) by (cases s) (auto simp: cache_inv_def split: option.splits)
  have "data_comparator.head_key cache_key (info_of c) s = (\<lambda>a. Option.bind (info_of c a) (cache_key (d', None)))"
    unfolding s' by (auto simp: by_value.head_key_def cache_key_def fun_eq_iff split: option.splits)
  then show ?thesis using s s' extends_refl by metis
qed


lemma list_ready3: "list_ready cells3 datas3 (Some 0) [0, 1, 2]"
proof -
  have i: "item_of cells3 datas3 0 = Some \<lparr>data16 = 0, didx = 0\<rparr>"
    "item_of cells3 datas3 (Suc 0) = Some \<lparr>data16 = 0x0101, didx = 4\<rparr>"
    "item_of cells3 datas3 2 = Some \<lparr>data16 = - 1, didx = 0x7fff\<rparr>"
    by (simp_all add: item_of_def info_of_def cells3_def datas3_def)
  have "regen_data 0 = 0" "regen_data 0x0101 = 0x0101" "regen_data (- 1) = - 1" by code_simp+
  then show ?thesis using chain_cells3 i by (simp add: list_ready_def regen_item_def)
qed

definition results3 :: core_results where
  "results3 = \<lparr>seed1 = 0, seed2 = 0, seed3 = 2, state_block = [0, 0], rsize = 2, iterations = 1, execs = 7,
    rlist = Some 0, rmat = \<lparr>mat_N = 1, mat_A = [1], mat_B = [2], mat_C = [0]\<rparr>, crc = 0, crclist = 0,
    crcmatrix = 0, crcstate = 0, err = 0\<rparr>"

lemma state_ok_init:
  assumes "core_init_state (rsize res) seed p = Some (state_block res)"
    and "2 \<le> unat (rsize res)" "unat (rsize res) \<le> length p" "unat (rsize res) < 2 ^ 32 - 16"
    and "seed1 res = seed2 res"
    and "\<forall>b \<in> set (state_block res). b \<noteq> ch CHR '','' \<longrightarrow> b XOR ucast (seed1 res) \<noteq> ch CHR '',''"
  shows "state_ok res"
  unfolding state_ok_def
proof (intro allI impI)
  fix step crc assume st: "0x22 \<le> sint (step :: s16)"
  then have "2 \<le> sint step" by simp
  from bench_on_init_block[OF assms(1-4) this, of "seed1 res" "seed2 res" crc]
  obtain r mem where r: "core_bench_state (rsize res) (state_block res) (seed1 res) (seed2 res) step crc = Some (r, mem)"
    "length mem = length (state_block res)" by blast
  have len: "unat (rsize res) \<le> length (state_block res)"
    using init_block(1)[of "rsize res" p seed] assms(1-4) by auto
  have "mem = state_block res \<longleftrightarrow> (\<forall>i < unat (rsize res). nat (sint step) dvd i \<longrightarrow> state_block res ! i \<noteq> ch CHR '','' \<longrightarrow>
      state_block res ! i XOR ucast (seed1 res) \<noteq> ch CHR '','')"
    using bench_restores_iff[of "rsize res" "state_block res" "seed1 res" step crc r mem] r(1) len st assms(5) by simp
  also have "\<dots>" using assms(6) len by (metis nth_mem order_less_le_trans)
  finally show "\<exists>r. core_bench_state (rsize res) (state_block res) (seed1 res) (seed2 res) step crc = Some (r, state_block res)"
    using r(1) by simp
qed

lemma results_ok3: "results_ok results3"
proof -
  have "core_init_state 2 0 [1, 1] = Some [0, 0]" by code_simp
  then have "state_ok results3"
    by (intro state_ok_init[of _ 0 "[1, 1]"]) (simp_all add: results3_def ch_def)
  then show ?thesis by (simp add: results_ok_def results3_def)
qed

lemma core_list_mergesort_by_value_witness:
  "\<exists>q c' d' res' ys. core_list_mergesort cmp_complex (Some 0) cells3 (datas3, Some results3) =
      Some (q, c', (d', Some res')) \<and> chain c' q ys \<and> mset ys = {#0, 1, 2#}"
proof -
  have "\<forall>a \<in> set [0, 1, 2]. \<exists>i. info_of cells3 a = Some i \<and> datas3 i \<noteq> None"
    by (simp add: info_of_def cells3_def datas3_def)
  moreover have "[0, 1, 2 :: nat] \<noteq> []" by simp
  ultimately have "\<exists>q c' d' res' ys. core_list_mergesort cmp_complex (Some 0) cells3 (datas3, Some results3) =
      Some (q, c', (d', Some res')) \<and> chain c' q ys \<and> mset ys = mset [0, 1, 2]"
    using core_list_mergesort_by_value[OF results_ok3 chain_cells3] by blast
  then show ?thesis by simp
qed


text \<open>
  C37. For a block of at least 100 bytes whose list nodes are there, the initialisation returns a
  list of \<open>blksize / 20 - 3\<close> items, of the headers from the start of the block, sorted by index and
  with regenerated data.
\<close>

theorem core_list_init_builds:
  assumes "100 \<le> blksize" "n = unat blksize div 20 - 2" "{0..<n} \<subseteq> dom c" "{0..<n} \<subseteq> dom d"
  shows "\<exists>q c' d' xs. core_list_init blksize seed c d = Some (q, c', d') \<and> chain c' q xs \<and>
    set xs = {0..<n - 1} \<and> length xs = n - 1 \<and> list_sorted c' d' xs"
  by (rule list_init_builds[OF assms])

lemma core_list_init_builds_witness:
  "\<exists>q c' d' xs. core_list_init 666 0 (\<lambda>a. if a < 31 then Some \<lparr>nxt = None, dat = 9\<rparr> else None)
      (\<lambda>a. if a < 31 then Some \<lparr>data16 = 9, didx = 9\<rparr> else None) = Some (q, c', d') \<and>
    chain c' q xs \<and> length xs = 30"
proof -
  let ?c = "\<lambda>a :: nat. if a < 31 then Some \<lparr>nxt = None, dat = 9 :: nat\<rparr> else None"
  let ?d = "\<lambda>a :: nat. if a < 31 then Some \<lparr>data16 = 9, didx = 9\<rparr> else None"
  have n: "31 = unat (666 :: u32) div 20 - 2" by simp
  have m: "{0..<31} \<subseteq> dom ?c" "{0..<31} \<subseteq> dom ?d" by (auto simp: dom_def)
  have "(100 :: u32) \<le> 666" by simp
  from core_list_init_builds[OF this n m, of 0] show ?thesis by (elim ex_forward) simp
qed

text \<open>
  Sorting the empty list fails: the sort stores through the null pointer \<open>tail\<close> before it
  tests the number of merges.
\<close>

lemma core_list_mergesort_empty: "core_list_mergesort cmp None c s = None"
  by (rule mergesort_null)

end
