(* ===== verification/Debug_Checksum.thy ===== *)
theory Debug_Checksum
  imports Prelude
begin

text \<open>
  The programs \<open>debug.c\<close>, \<open>checksum.c\<close> and \<open>counting_loop.c\<close> that the debugger tests step through:
  the CRC-32 that follows the logic circuit bit by bit, with the reversal of a word, Fibonacci
  numbers and the rotation of letters in place. The CRC is compared with the shift register for the
  reflected polynomial.
\<close>

section \<open>checksum.c\<close>

definition reverse :: "u32 \<Rightarrow> u32" where
  "reverse x = (
     let x = push_bit 1 (x AND 0x55555555) OR (drop_bit 1 x AND 0x55555555);
         x = push_bit 2 (x AND 0x33333333) OR (drop_bit 2 x AND 0x33333333);
         x = push_bit 4 (x AND 0x0F0F0F0F) OR (drop_bit 4 x AND 0x0F0F0F0F)
     in push_bit 24 x OR push_bit 8 (x AND 0xFF00) OR (drop_bit 8 x AND 0xFF00) OR drop_bit 24 x)"

text \<open>The inner loop, for the turns that are left.\<close>

fun crc32a_bits :: "nat \<Rightarrow> u32 \<Rightarrow> u32 \<Rightarrow> u32" where
  "crc32a_bits 0 crc byte = crc"
| "crc32a_bits (Suc n) crc byte =
    (let crc = (if sint (crc XOR byte) < 0 then push_bit 1 crc XOR 0x04C11DB7 else push_bit 1 crc);
         byte = push_bit 1 byte
     in crc32a_bits n crc byte)"

text \<open>The outer loop. The counter is an \<open>int\<close>: counting beyond its largest value is undefined.\<close>

function crc32a_loop :: "u8 list \<Rightarrow> u32 \<Rightarrow> nat \<Rightarrow> u32 \<Rightarrow> u32 option" where
  "crc32a_loop message sz i crc =
    (if i < unat sz then do {
       byte \<leftarrow> rd message i;
       let byte = reverse (ucast byte);
       let crc = crc32a_bits 8 crc byte;
       if i = 2 ^ 31 - 1 then None else crc32a_loop message sz (i + 1) crc }
     else Some crc)"
  by pat_completeness auto

termination
  by (relation "measure (\<lambda>(message, sz, i, crc). unat sz - i)") auto

declare crc32a_loop.simps [simp del]

definition crc32a :: "u8 list \<Rightarrow> u32 \<Rightarrow> u32 option" where
  "crc32a message sz = do { crc \<leftarrow> crc32a_loop message sz 0 0xFFFFFFFF; Some (reverse (NOT crc)) }"

section \<open>debug.c\<close>

fun fib_loop :: "nat \<Rightarrow> u32 \<Rightarrow> u32 \<Rightarrow> u32" where
  "fib_loop 0 a b = b"
| "fib_loop (Suc n) a b = fib_loop n b (a + b)"

definition fib :: "u32 \<Rightarrow> u32" where
  "fib n = (if n = 0 then 0 else fib_loop (unat n - 1) 0 1)"

text \<open>One character, and the walk over the string in the memory from \<open>buf\<close> on.\<close>

definition rot13_char :: "u8 \<Rightarrow> u8" where
  "rot13_char c =
    (if (c \<ge> ch CHR ''a'' \<and> c \<le> ch CHR ''m'') \<or> (c \<ge> ch CHR ''A'' \<and> c \<le> ch CHR ''M'') then c + 13
     else if (c \<ge> ch CHR ''n'' \<and> c \<le> ch CHR ''z'') \<or> (c \<ge> ch CHR ''N'' \<and> c \<le> ch CHR ''Z'') then c - 13
     else c)"

fun rot13 :: "u8 list \<Rightarrow> u8 list option" where
  "rot13 [] = None"
| "rot13 (c # buf) = (if c = 0 then Some (c # buf) else do { buf \<leftarrow> rot13 buf; Some (rot13_char c # buf) })"

text \<open>\<open>strlen\<close> counts in an \<open>int\<close>, from \<open>len\<close> on.\<close>

fun strlen_from :: "u8 list \<Rightarrow> nat \<Rightarrow> nat option" where
  "strlen_from [] len = None"
| "strlen_from (c # buf) len = (if c = 0 then Some len else if len = 2 ^ 31 - 1 then None else strlen_from buf (len + 1))"

definition strlen :: "u8 list \<Rightarrow> nat option" where
  "strlen buf = strlen_from buf 0"

definition fox :: "u8 list" where
  "fox = bytes ''The quick brown fox jumps of the lazy dog.'' @ [0]"

text \<open>
  \<open>i\<close> is volatile and 0 unless a debugger writes it: the loop is left at once. The result is the
  checksum and the final contents of \<open>fox\<close>.
\<close>

definition debug_main :: "(u32 \<times> u8 list) option" where
  "debug_main = do {
     let checksum = 0;
     buf \<leftarrow> rot13 fox;
     n \<leftarrow> strlen buf;
     c \<leftarrow> crc32a buf (of_nat n);
     let checksum = checksum XOR c;
     buf \<leftarrow> rot13 buf;
     n \<leftarrow> strlen buf;
     c \<leftarrow> crc32a buf (of_nat n);
     let checksum = checksum XOR c;
     Some (checksum, buf) }"

section \<open>counting_loop.c\<close>

function counting_loop :: "int \<Rightarrow> int \<Rightarrow> int \<times> int" where
  "counting_loop counter sm =
    (if counter < 10 then counting_loop (counter + 1) (sm + (counter + 1)) else (counter, sm))"
  by pat_completeness auto

termination
  by (relation "measure (\<lambda>(counter, sm). nat (10 - counter))") auto

definition counting_main :: int where
  "counting_main = fst (counting_loop 0 0)"

section \<open>The CRC as a shift register\<close>

lemma less_32_cases:
  "n < 32 \<Longrightarrow> n = 0 \<or> n = 1 \<or> n = 2 \<or> n = 3 \<or> n = 4 \<or> n = 5 \<or> n = 6 \<or> n = 7 \<or> n =
    8 \<or> n = 9 \<or> n = 10 \<or> n = 11 \<or> n = 12 \<or> n = 13 \<or> n = 14 \<or> n = 15 \<or> n
    = 16 \<or> n = 17 \<or> n = 18 \<or> n = 19 \<or> n = 20 \<or> n = 21 \<or> n = 22 \<or> n = 23
    \<or> n = 24 \<or> n = 25 \<or> n = 26 \<or> n = 27 \<or> n = 28 \<or> n = 29 \<or> n = 30 \<or> n =
    31" for n :: nat
  by presburger

lemma reverse_bit: "n < 32 \<Longrightarrow> bit (reverse x) n \<longleftrightarrow> bit x (31 - n)"
  by (drule less_32_cases) (elim disjE, simp_all add: reverse_def Let_def bit_simps del: push_bit_Suc)

lemma reverse_bit_iff: "bit (reverse x) n \<longleftrightarrow> n < 32 \<and> bit x (31 - n)"
  using reverse_bit[of n x] by (cases "n < 32") (auto dest: bit_imp_le_length)

lemma reverse_reverse: "reverse (reverse x) = x"
  by (rule bit_word_eqI) (auto simp: reverse_bit_iff)

lemma reverse_xor: "reverse (x XOR y) = reverse x XOR reverse y"
  by (rule bit_word_eqI) (auto simp: reverse_bit_iff bit_simps)

lemma reverse_not: "reverse (NOT x) = NOT (reverse x)"
  by (rule bit_word_eqI) (auto simp: reverse_bit_iff bit_simps)

lemma reverse_shift: "reverse (push_bit n x) = drop_bit n (reverse x)"
  by (rule bit_word_eqI) (auto simp: reverse_bit_iff bit_simps add.commute)

text \<open>One step of the register for the reflected polynomial, and the register after a message.\<close>

definition lfsr :: "u32 \<Rightarrow> u32" where
  "lfsr r = (if bit r 0 then drop_bit 1 r XOR 0xEDB88320 else drop_bit 1 r)"

definition crc32_register :: "u8 list \<Rightarrow> u32" where
  "crc32_register message = foldl (\<lambda>r b. (lfsr ^^ 8) (r XOR ucast b)) 0xFFFFFFFF message"

lemma polynomial: "reverse 0x04C11DB7 = 0xEDB88320"
  by code_simp

lemma negative_bit: "sint x < 0 \<longleftrightarrow> bit (reverse x) 0" for x :: u32
  using bit_last_iff[of x] by (simp add: reverse_bit_iff)

lemma crc32a_bits_register:
  "reverse (crc32a_bits n crc byte XOR push_bit n byte) = (lfsr ^^ n) (reverse (crc XOR byte))"
proof (induction n arbitrary: crc byte)
  case 0 then show ?case by simp
next
  case (Suc n)
  let ?crc = "if sint (crc XOR byte) < 0 then push_bit 1 crc XOR 0x04C11DB7 else push_bit 1 crc"
  have "reverse (?crc XOR push_bit 1 byte) = lfsr (reverse (crc XOR byte))"
    by (simp add: lfsr_def negative_bit polynomial reverse_xor reverse_shift push_bit_xor drop_bit_xor ac_simps del: push_bit_Suc)
  then show ?case using Suc[of ?crc "push_bit 1 byte"]
    by (simp add: Let_def funpow_swap1 push_bit_push_bit del: push_bit_Suc)
qed

lemma reverse_byte: "push_bit 8 (reverse (ucast (b :: u8))) = 0"
  by (rule bit_word_eqI) (auto simp: reverse_bit_iff bit_simps dest: bit_imp_le_length)

lemma crc32a_byte:
  "reverse (crc32a_bits 8 crc (reverse (ucast (b :: u8)))) = (lfsr ^^ 8) (reverse crc XOR ucast b)"
  using crc32a_bits_register[of 8 crc "reverse (ucast b)"] by (simp add: reverse_byte reverse_xor reverse_reverse del: crc32a_bits.simps)

lemma crc32a_loop_register:
  assumes "unat sz \<le> length message" "unat sz < 2 ^ 31" "i \<le> unat sz"
  shows "\<exists>crc'. crc32a_loop message sz i crc = Some crc' \<and>
    reverse crc' = foldl (\<lambda>r b. (lfsr ^^ 8) (r XOR ucast b)) (reverse crc) (drop i (take (unat sz) message))"
  using assms
proof (induction message sz i crc rule: crc32a_loop.induct)
  case (1 message sz i crc)
  show ?case
  proof (cases "i < unat sz")
    case True
    then have d: "drop i (take (unat sz) message) = message ! i # drop (i + 1) (take (unat sz) message)"
      using 1 by (subst Cons_nth_drop_Suc[symmetric]) auto
    show ?thesis
      unfolding d crc32a_loop.simps[of message sz i crc]
      using True 1 by (simp add: crc32a_byte del: crc32a_bits.simps)
  next
    case False
    then show ?thesis using 1 by (simp add: crc32a_loop.simps)
  qed
qed

lemma crc32a_register:
  assumes "unat sz \<le> length message" "unat sz < 2 ^ 31"
  shows "crc32a message sz = Some (NOT (crc32_register (take (unat sz) message)))"
proof -
  have "reverse 0xFFFFFFFF = 0xFFFFFFFF" by code_simp
  then show ?thesis
    using crc32a_loop_register[OF assms, of 0 "0xFFFFFFFF"]
    by (auto simp: crc32a_def crc32_register_def reverse_not)
qed

text \<open>The register on integers, where it is quick to compute.\<close>

definition lfsr_int :: "int \<Rightarrow> int" where
  "lfsr_int r = (if odd r then (r div 2) XOR 0xEDB88320 else r div 2)"

definition byte_int :: "int \<Rightarrow> int \<Rightarrow> int" where
  "byte_int r b = lfsr_int (lfsr_int (lfsr_int (lfsr_int (lfsr_int (lfsr_int (lfsr_int (lfsr_int (r XOR b))))))))"

lemma uint_lfsr: "uint (lfsr r) = lfsr_int (uint r)"
proof -
  have "uint (drop_bit 1 r) = uint r div 2" by (simp add: drop_bit_eq_div uint_div)
  moreover have "bit r 0 \<longleftrightarrow> bit (uint r) 0" unfolding bit_uint_iff by simp
  then have "bit r 0 \<longleftrightarrow> odd (uint r)" unfolding bit_0 .
  ultimately show ?thesis by (simp add: lfsr_def lfsr_int_def unsigned_xor_eq)
qed

lemma uint_ucast_byte: "uint (ucast (b :: u8) :: u32) = uint b"
proof -
  have "uint b < 2 ^ 32" using unsigned_less[of b, where ?'a = int] by simp
  then show ?thesis by (simp only: unsigned_ucast_eq) (simp add: take_bit_int_eq_self_iff)
qed

lemma funpow_8: "(f ^^ 8) x = f (f (f (f (f (f (f (f x)))))))"
  by (simp add: eval_nat_numeral)

lemma uint_foldl_lfsr:
  "uint (foldl (\<lambda>r b. (lfsr ^^ 8) (r XOR ucast b)) r message) = foldl byte_int (uint r) (map uint (message :: u8 list))"
proof (induction message arbitrary: r)
  case Nil then show ?case by simp
next
  case (Cons b message)
  have "uint ((lfsr ^^ 8) (r XOR ucast b)) = byte_int (uint r) (uint b)"
    by (simp add: funpow_8 uint_lfsr byte_int_def unsigned_xor_eq uint_ucast_byte)
  then show ?case using Cons by simp
qed

lemma uint_crc32_register: "uint (crc32_register message) = foldl byte_int 0xFFFFFFFF (map uint message)"
  using uint_foldl_lfsr[of "0xFFFFFFFF" message] by (simp add: crc32_register_def)

text \<open>
  C23. \<open>crc32a\<close>, which follows the logic circuit on reversed bytes, is the table-free CRC-32 with the
  reflected polynomial 0xEDB88320: for every message of less than 2^31 bytes it reads exactly the
  message and returns the complement of the register that starts with all ones.
\<close>

theorem crc32a_reflected:
  assumes "unat sz \<le> length message" "unat sz < 2 ^ 31"
  shows "crc32a message sz = Some (NOT (crc32_register (take (unat sz) message)))"
  by (rule crc32a_register[OF assms])

theorem crc32a_reflected_witness:
  "crc32a (bytes ''123456789'' @ [7]) 9 = Some (NOT (crc32_register (bytes ''123456789''))) \<and>
    NOT (crc32_register (bytes ''123456789'')) = 0xCBF43926"
proof
  show "crc32a (bytes ''123456789'' @ [7]) 9 = Some (NOT (crc32_register (bytes ''123456789'')))"
    using crc32a_reflected[of 9 "bytes ''123456789'' @ [7]"] by (simp add: bytes_def)
  have "foldl byte_int 0xFFFFFFFF (map uint (bytes ''123456789'')) = 0x340BC6D9"
    by (simp add: bytes_def ch_def byte_int_def lfsr_int_def)
  then have "crc32_register (bytes ''123456789'') = 0x340BC6D9"
    unfolding uint_crc32_register[symmetric] by (simp add: word_uint_eq_iff)
  then show "NOT (crc32_register (bytes ''123456789'')) = 0xCBF43926" by simp
qed

section \<open>Letters and Fibonacci numbers\<close>

definition rot :: "nat \<Rightarrow> nat" where
  "rot n = (if 97 \<le> n \<and> n \<le> 109 \<or> 65 \<le> n \<and> n \<le> 77 then n + 13
     else if 110 \<le> n \<and> n \<le> 122 \<or> 78 \<le> n \<and> n \<le> 90 then n - 13 else n)"

lemma rot13_char_rot: "n < 256 \<Longrightarrow> rot13_char (of_nat n) = of_nat (rot n) \<and> rot n < 256 \<and> rot (rot n) = n \<and> (rot n = 0) = (n = 0)"
  by (auto simp: rot13_char_def rot_def ch_def word_le_nat_alt unat_of_nat of_nat_diff)

lemma rot13_char_twice: "rot13_char (rot13_char c) = c" "rot13_char c = 0 \<longleftrightarrow> c = 0"
proof -
  have u: "unat c < 256" using unsigned_less[of c, where ?'a = nat] by simp
  have z: "(of_nat k :: u8) = 0 \<longleftrightarrow> k = 0" if "k < 256" for k
    using that by (auto simp: word_of_nat_eq_0_iff dest: dvd_imp_le)
  have "rot13_char c = of_nat (rot (unat c))" using rot13_char_rot[OF u] by simp
  then show "rot13_char (rot13_char c) = c" "rot13_char c = 0 \<longleftrightarrow> c = 0"
    using rot13_char_rot[OF u] rot13_char_rot[of "rot (unat c)"] z[of "rot (unat c)"] by (simp_all add: unat_eq_0)
qed

lemma rot13_string: "0 \<notin> set s \<Longrightarrow> rot13 (s @ 0 # m) = Some (map rot13_char s @ 0 # m)"
  by (induction s) simp_all

lemma strlen_from_string: "0 \<notin> set s \<Longrightarrow> n + length s < 2 ^ 31 \<Longrightarrow> strlen_from (s @ 0 # m) n = Some (n + length s)"
  by (induction s arbitrary: n) simp_all

lemma strlen_string: "0 \<notin> set s \<Longrightarrow> length s < 2 ^ 31 \<Longrightarrow> strlen (s @ 0 # m) = Some (length s)"
  using strlen_from_string[of s 0 m] by (simp add: strlen_def)

lemma rot13_twice: "0 \<notin> set s \<Longrightarrow> Option.bind (rot13 (s @ 0 # m)) rot13 = Some (s @ 0 # m)"
proof -
  assume s: "0 \<notin> set s"
  then have "0 \<notin> set (map rot13_char s)" using rot13_char_twice(2) by force
  then show ?thesis using s by (simp add: rot13_string rot13_char_twice(1) comp_def)
qed

fun fibonacci :: "nat \<Rightarrow> nat" where
  "fibonacci 0 = 0"
| "fibonacci (Suc 0) = 1"
| "fibonacci (Suc (Suc n)) = fibonacci n + fibonacci (Suc n)"

lemma fib_loop_fibonacci: "fib_loop n (of_nat (fibonacci k)) (of_nat (fibonacci (Suc k))) = of_nat (fibonacci (Suc k + n))"
proof (induction n arbitrary: k)
  case 0 then show ?case by simp
next
  case (Suc n) then show ?case using Suc.IH[of "Suc k"] by simp
qed

lemma fib_fibonacci: "fib n = of_nat (fibonacci (unat n))"
proof (cases "n = 0")
  case False
  then have "0 < unat n" by (simp add: unat_gt_0)
  then show ?thesis using fib_loop_fibonacci[of "unat n - 1" 0] False by (simp add: fib_def)
qed (simp add: fib_def)

lemma counting_main_value: "counting_loop 0 0 = (10, 55)"
  by code_simp

definition fox_text :: "u8 list" where
  "fox_text = bytes ''The quick brown fox jumps of the lazy dog.''"

lemma fox_registers:
  "crc32_register (map rot13_char fox_text) = 0xa5302aa4" "crc32_register fox_text = 0x6d547f70"
proof -
  have "uint (crc32_register (map rot13_char fox_text)) = 0xa5302aa4"
    unfolding uint_crc32_register fox_text_def by (simp add: bytes_def ch_def rot13_char_def byte_int_def lfsr_int_def)
  then show "crc32_register (map rot13_char fox_text) = 0xa5302aa4" by (simp add: word_uint_eq_iff)
  have "uint (crc32_register fox_text) = 0x6d547f70"
    unfolding uint_crc32_register fox_text_def by (simp add: bytes_def ch_def byte_int_def lfsr_int_def)
  then show "crc32_register fox_text = 0x6d547f70" by (simp add: word_uint_eq_iff)
qed

text \<open>
  The program \<open>debug.c\<close> returns the checksum 0xc86455d4, which the tests of the debugger expect on
  exit, and leaves its text as it was. Rotating any string twice restores it, within its bytes, and
  \<open>fib\<close> computes the Fibonacci numbers modulo 2^32 for every argument.
\<close>

lemma debug_main_checksum:
  "debug_main = Some (0xc86455d4, fox) \<and>
   (0 \<notin> set s \<longrightarrow> Option.bind (rot13 (s @ 0 # m)) rot13 = Some (s @ 0 # m)) \<and>
   fib n = of_nat (fibonacci (unat n))"
proof -
  have f: "0 \<notin> set fox_text" "length fox_text = 42" "fox = fox_text @ [0]"
    by (simp_all add: fox_text_def fox_def bytes_def ch_def)
  then have r: "0 \<notin> set (map rot13_char fox_text)" using rot13_char_twice(2) by force
  have "crc32a (fox_text @ [0]) 42 = Some (NOT (crc32_register fox_text))"
    "crc32a (map rot13_char fox_text @ [0]) 42 = Some (NOT (crc32_register (map rot13_char fox_text)))"
    using crc32a_register[of 42 "fox_text @ [0]"] crc32a_register[of 42 "map rot13_char fox_text @ [0]"] f(2) by simp_all
  then have "debug_main = Some (0xc86455d4, fox)"
    using rot13_string[OF f(1), of "[]"] rot13_string[OF r, of "[]"] strlen_string[OF f(1), of "[]"] strlen_string[OF r, of "[]"]
    by (simp add: debug_main_def f(2,3) fox_registers rot13_char_twice(1) comp_def)
  then show ?thesis using rot13_twice[of s m] fib_fibonacci[of n] by blast
qed

lemma debug_main_checksum_witness:
  "debug_main = Some (0xc86455d4, fox) \<and> Option.bind (rot13 (bytes ''Hi'' @ 0 # [])) rot13 = Some (bytes ''Hi'' @ 0 # []) \<and> fib 7 = 13"
proof -
  have "0 \<notin> set (bytes ''Hi'')" by (simp add: bytes_def ch_def)
  moreover have "fibonacci (unat (7 :: u32)) = 13"
  proof -
    have "unat (7 :: u32) = 7" by simp
    moreover have "fibonacci 7 = 13" by (simp add: eval_nat_numeral)
    ultimately show ?thesis by (simp only:)
  qed
  ultimately show ?thesis using debug_main_checksum[of "bytes ''Hi''" "[]" 7] by (simp only:) simp
qed

end
