(* ===== verification/Debug_Harts.thy ===== *)
theory Debug_Harts
  imports Prelude
begin

text \<open>
  The programs of the debugger tests that run on several harts or take timer interrupts:
  \<open>multicore.c\<close>, with its lock built on an atomic swap and the shared buffer that each hart checks
  and rewrites, \<open>interrupt.c\<close>, and the trap dispatch \<open>init.c\<close> under both. The harts run one access to
  shared memory at a time, interleaved in any order.
\<close>

section \<open>init.c\<close>

text \<open>The table \<open>trap_handler\<close> has an element for each hart, null at first. \<open>mhartid\<close> is a parameter.\<close>

definition set_trap_handler :: "nat \<Rightarrow> u32 \<Rightarrow> u32 list \<Rightarrow> u32 list option" where
  "set_trap_handler hartid handler trap_handler = wr trap_handler hartid handler"

text \<open>The arguments of a call of a handler. Without a handler \<open>handle_trap\<close> does not return.\<close>

record trap_call =
  callee :: u32
  on_hart :: nat
  cause :: u32
  epc :: u32
  frame :: u32

definition handle_trap :: "nat \<Rightarrow> u32 \<Rightarrow> u32 \<Rightarrow> u32 \<Rightarrow> u32 list \<Rightarrow> trap_call option" where
  "handle_trap hartid mcause mepc sp trap_handler = do {
     h \<leftarrow> rd trap_handler hartid;
     if h \<noteq> 0 then Some \<lparr>callee = h, on_hart = hartid, cause = mcause, epc = mepc, frame = sp\<rparr> else None }"

text \<open>The control registers the programs set; \<open>MIP_MTIP\<close> and \<open>MSTATUS_MIE\<close> are bits that \<open>encoding.h\<close> names.\<close>

record control =
  mie :: u32
  mstatus :: u32

definition enable_timer_interrupts :: "u32 \<Rightarrow> u32 \<Rightarrow> control \<Rightarrow> control" where
  "enable_timer_interrupts MIP_MTIP MSTATUS_MIE c = (
     let c = c\<lparr>mie := mie c OR MIP_MTIP\<rparr>
     in c\<lparr>mstatus := mstatus c OR MSTATUS_MIE\<rparr>)"

text \<open>\<open>_exit\<close> spins on a volatile variable, of which \<open>i k\<close> is the \<open>k\<close>-th reading, and then for ever.\<close>

partial_function (option) spin :: "unit \<Rightarrow> unit option" where
  "spin x = spin x"

partial_function (option) exit_loop :: "(nat \<Rightarrow> s32) \<Rightarrow> nat \<Rightarrow> unit option" where
  "exit_loop i k = (if i k \<noteq> 0 then exit_loop i (k + 1) else spin ())"

definition exit_program :: "(nat \<Rightarrow> s32) \<Rightarrow> s32 \<Rightarrow> unit option" where
  "exit_program i status = exit_loop i 0"

definition init_program :: "(nat \<Rightarrow> s32) \<Rightarrow> s32 option \<Rightarrow> unit option" where
  "init_program i main = do { status \<leftarrow> main; exit_program i status }"

lemma exit_never_returns: "exit_program i status = None" "init_program i main = None"
proof -
  have s: "spin x = None" for x
  proof (cases "spin x")
    case (Some y)
    have False by (rule spin.raw_induct[of "\<lambda>_ _. False", OF _ Some])
    then show ?thesis ..
  qed
  have l: "exit_loop i k = None" for k
  proof (cases "exit_loop i k")
    case (Some y)
    have False
      by (rule exit_loop.raw_induct[of "\<lambda>_ _ _. False", OF _ Some]) (simp add: s split: if_splits)
    then show ?thesis ..
  qed
  show "exit_program i status = None" "init_program i main = None"
    by (simp_all add: exit_program_def init_program_def l split: bind_splits)
qed

section \<open>interrupt.c\<close>

text \<open>
  The timer is hardware: \<open>pending k\<close> is the \<open>k\<close>-th reading of the bit \<open>MIP_MTIP\<close>, \<open>mtime k\<close> the \<open>k\<close>-th
  reading of \<open>MTIME\<close>.
\<close>

definition delta :: u64 where
  "delta = 0x100"

partial_function (option) clear_loop :: "(nat \<Rightarrow> bool) \<Rightarrow> (nat \<Rightarrow> u64) \<Rightarrow> nat \<Rightarrow> u64 \<Rightarrow> u64 option" where
  "clear_loop pending mtime k mtimecmp =
    (if pending k then clear_loop pending mtime (k + 1) (mtime k + delta) else Some mtimecmp)"

text \<open>The handler: the counter and \<open>MTIMECMP\<close> of this hart afterwards, and the address it returns.\<close>

definition increment_count :: "(nat \<Rightarrow> bool) \<Rightarrow> (nat \<Rightarrow> u64) \<Rightarrow> u32 \<Rightarrow> u32 \<Rightarrow> u64 \<Rightarrow> (u32 \<times> u64 \<times> u32) option" where
  "increment_count pending mtime mepc interrupt_count mtimecmp = do {
     let interrupt_count = interrupt_count + 1;
     mtimecmp \<leftarrow> clear_loop pending mtime 0 mtimecmp;
     Some (interrupt_count, mtimecmp, mepc) }"

text \<open>The state of \<open>interrupt.c\<close> and of what its \<open>main\<close> sets; \<open>mtime\<close> is the reading of \<open>MTIME\<close>.\<close>

record timer_state =
  timer_count :: u32
  local_count :: u32
  handlers :: "u32 list"
  mtimecmp :: "u64 list"
  control_of :: control

definition interrupt_setup :: "u32 \<Rightarrow> u32 \<Rightarrow> u32 \<Rightarrow> nat \<Rightarrow> u64 \<Rightarrow> timer_state \<Rightarrow> timer_state option" where
  "interrupt_setup MIP_MTIP MSTATUS_MIE handler hartid mtime st = do {
     let st = st\<lparr>timer_count := 0, local_count := 0\<rparr>;
     hs \<leftarrow> set_trap_handler hartid handler (handlers st);
     cmp \<leftarrow> wr (mtimecmp st) hartid (mtime - 1);
     Some (st\<lparr>handlers := hs, mtimecmp := cmp, control_of := enable_timer_interrupts MIP_MTIP MSTATUS_MIE (control_of st)\<rparr>) }"

text \<open>What happens behind the setup: a turn of the loop, or a trap with the readings of the handler's loop.\<close>

definition loop_turn :: "timer_state \<Rightarrow> timer_state" where
  "loop_turn st = st\<lparr>local_count := local_count st + 1\<rparr>"

definition take_trap :: "nat \<Rightarrow> (nat \<Rightarrow> bool) \<Rightarrow> (nat \<Rightarrow> u64) \<Rightarrow> u32 \<Rightarrow> timer_state \<Rightarrow> timer_state option" where
  "take_trap hartid pending mtime mepc st = do {
     cmp \<leftarrow> rd (mtimecmp st) hartid;
     (n, c, pc) \<leftarrow> increment_count pending mtime mepc (timer_count st) cmp;
     cs \<leftarrow> wr (mtimecmp st) hartid c;
     Some (st\<lparr>timer_count := n, mtimecmp := cs\<rparr>) }"

inductive counted :: "nat \<Rightarrow> timer_state \<Rightarrow> nat \<Rightarrow> nat \<Rightarrow> timer_state \<Rightarrow> bool" for hartid st0 where
  set_up: "timer_count st0 = 0 \<Longrightarrow> local_count st0 = 0 \<Longrightarrow> counted hartid st0 0 0 st0"
| turned: "counted hartid st0 i l st \<Longrightarrow> counted hartid st0 i (l + 1) (loop_turn st)"
| trapped: "counted hartid st0 i l st \<Longrightarrow> take_trap hartid pending mtime mepc st = Some st' \<Longrightarrow>
    counted hartid st0 (i + 1) l st'"

text \<open>The counters count the traps and the turns modulo \<open>2 ^ 32\<close>; a trap neither loses nor repeats a turn.\<close>

lemma counted_counts:
  "counted hartid st0 i l st \<Longrightarrow> timer_count st = of_nat i \<and> local_count st = of_nat l \<and> handlers st = handlers st0 \<and>
    control_of st = control_of st0"
  by (induction rule: counted.induct)
    (auto simp: loop_turn_def take_trap_def increment_count_def split: bind_splits)

lemma interrupt_setup_counts:
  assumes "interrupt_setup MIP_MTIP MSTATUS_MIE handler hartid mtime st = Some st0"
  shows "counted hartid st0 0 0 st0" "rd (handlers st0) hartid = Some handler" "rd (mtimecmp st0) hartid = Some (mtime - 1)"
    "mie (control_of st0) = mie (control_of st) OR MIP_MTIP" "mstatus (control_of st0) = mstatus (control_of st) OR MSTATUS_MIE"
  using assms
  by (auto simp: interrupt_setup_def set_trap_handler_def enable_timer_interrupts_def Let_def rd_def wr_def
    intro!: counted.set_up split: bind_splits if_splits)

section \<open>multicore.c\<close>

text \<open>The handler, the first interrupt and the control bits, which \<open>main\<close> sets before it enters its loop.\<close>

definition multicore_setup :: "u32 \<Rightarrow> u32 \<Rightarrow> u32 \<Rightarrow> nat \<Rightarrow> u64 \<Rightarrow> u32 list \<times> u64 list \<times> control \<Rightarrow> (u32 list \<times> u64 list \<times> control) option" where
  "multicore_setup MIP_MTIP MSTATUS_MIE handler hartid mtime = (\<lambda>(hs, cmp, c). do {
     hs \<leftarrow> set_trap_handler hartid handler hs;
     cmp \<leftarrow> wr cmp hartid (mtime + delta);
     Some (hs, cmp, enable_timer_interrupts MIP_MTIP MSTATUS_MIE c) })"

text \<open>Where a hart is in \<open>main\<close>: at each point it makes its next access to shared memory.\<close>

datatype point =
    Boot
  | Acquire
  | Locked
  | Fill u32
  | Filled
  | First
  | Compare u32 u8 s32
  | Write u32 u8 s32
  | Release
  | Count

record harts =
  buf_lock :: s32
  buf :: "u8 list"
  buf_initialized :: s32
  hart_count :: "u32 list"
  interrupt_count :: "u32 list"
  point_of :: "nat \<Rightarrow> point"

definition harts_init :: "nat \<Rightarrow> harts" where
  "harts_init NHARTS = \<lparr>buf_lock = 0, buf = replicate 32 0, buf_initialized = 0,
     hart_count = replicate NHARTS 0, interrupt_count = replicate NHARTS 0, point_of = (\<lambda>h. Boot)\<rparr>"

text \<open>\<open>atomic_xchg\<close> returns the old value and stores the new one in one step.\<close>

definition atomic_xchg :: "s32 \<Rightarrow> harts \<Rightarrow> s32 \<times> harts" where
  "atomic_xchg n st = (buf_lock st, st\<lparr>buf_lock := n\<rparr>)"

definition at_point :: "nat \<Rightarrow> point \<Rightarrow> harts \<Rightarrow> harts" where
  "at_point h p st = st\<lparr>point_of := (point_of st)(h := p)\<rparr>"

definition expected :: "u32 \<Rightarrow> u8 \<Rightarrow> s32 \<Rightarrow> u32" where
  "expected i c offset = ucast c - offset + (offset + i) mod 26"

definition letter :: "nat \<Rightarrow> u32 \<Rightarrow> u32 \<Rightarrow> u8" where
  "letter h n i =
    (if odd h then ucast (ucast (ch CHR ''A'') + (i + of_nat h + n) mod 26 :: u32)
     else ucast (ucast (ch CHR ''a'') + (i + of_nat h + n) mod 26 :: u32))"

definition hart_step :: "nat \<Rightarrow> harts \<Rightarrow> harts option" where
  "hart_step h st = (case point_of st h of
     Boot \<Rightarrow> do {
       hc \<leftarrow> wr (hart_count st) h 0;
       ic \<leftarrow> wr (interrupt_count st) h 0;
       Some (at_point h Acquire (st\<lparr>hart_count := hc, interrupt_count := ic\<rparr>)) }
   | Acquire \<Rightarrow> (let (c, st) = atomic_xchg 1 st in Some (if c = 1 then st else at_point h Locked st))
   | Locked \<Rightarrow> Some (at_point h (if buf_initialized st = 0 then Fill 0 else First) st)
   | Fill i \<Rightarrow>
       if i < 32 then do {
         b \<leftarrow> wr (buf st) (unat i) (ucast (ucast (ch CHR ''A'') + i mod 26 :: u32));
         Some (at_point h (Fill (i + 1)) (st\<lparr>buf := b\<rparr>)) }
       else Some (at_point h Filled st)
   | Filled \<Rightarrow> Some (at_point h First (st\<lparr>buf_initialized := 1\<rparr>))
   | First \<Rightarrow> do {
       c \<leftarrow> rd (buf st) 0;
       let offset = (ucast c AND NOT 0x20) - ucast (ch CHR ''A'');
       Some (at_point h (Compare 0 c offset) st) }
   | Compare i c offset \<Rightarrow>
       if i < 32 then do {
         b \<leftarrow> rd (buf st) (unat i);
         Some (if ucast b \<noteq> expected i c offset then st else at_point h (Write i c offset) st) }
       else Some (at_point h Release st)
   | Write i c offset \<Rightarrow> do {
       n \<leftarrow> rd (hart_count st) h;
       b \<leftarrow> wr (buf st) (unat i) (letter h n i);
       Some (at_point h (Compare (i + 1) c offset) (st\<lparr>buf := b\<rparr>)) }
   | Release \<Rightarrow> Some (at_point h Count (snd (atomic_xchg 0 st)))
   | Count \<Rightarrow> do {
       n \<leftarrow> rd (hart_count st) h;
       hc \<leftarrow> wr (hart_count st) h (n + 1);
       Some (at_point h Acquire (st\<lparr>hart_count := hc\<rparr>)) })"

text \<open>A timer interrupt, which the hart takes once it has enabled them; the next one is set in \<open>MTIMECMP\<close>, a device.\<close>

definition timer_interrupt :: "nat \<Rightarrow> harts \<Rightarrow> harts option" where
  "timer_interrupt h st = do {
     n \<leftarrow> rd (interrupt_count st) h;
     ic \<leftarrow> wr (interrupt_count st) h (n + 1);
     Some (st\<lparr>interrupt_count := ic\<rparr>) }"

text \<open>What happens: a hart steps, or one past its boot takes an interrupt.\<close>

datatype act = Step nat | Interrupt nat

inductive reached :: "nat \<Rightarrow> act list \<Rightarrow> harts \<Rightarrow> bool" for N where
  start: "reached N [] (harts_init N)"
| stepped: "reached N acts st \<Longrightarrow> h < N \<Longrightarrow> hart_step h st = Some st' \<Longrightarrow> reached N (Step h # acts) st'"
| interrupted: "reached N acts st \<Longrightarrow> h < N \<Longrightarrow> point_of st h \<noteq> Boot \<Longrightarrow> timer_interrupt h st = Some st' \<Longrightarrow>
    reached N (Interrupt h # acts) st'"

inductive_cases reached_stepE: "reached N (Step h # acts) st"

section \<open>The buffer between critical sections\<close>

text \<open>Thirty-two consecutive letters of one case, starting anywhere and going round.\<close>

definition letters :: "nat \<Rightarrow> nat \<Rightarrow> nat \<Rightarrow> u8" where
  "letters base first j = of_nat (base + (first + j) mod 26)"

definition bases :: "nat set" where
  "bases = {65, 97}"

definition pattern :: "u8 list \<Rightarrow> bool" where
  "pattern b \<longleftrightarrow> (\<exists>base \<in> bases. \<exists>f < 26. \<forall>j < 32. b ! j = letters base f j)"

lemma ucast_small: "x < 256 \<Longrightarrow> ucast (of_nat x :: u8) = (of_nat x :: u32)"
  by (rule word_unat_eq_iff[THEN iffD2]) (simp add: unat_of_nat unsigned_ucast_eq take_bit_nat_eq_self_iff)

lemma ucast_of_nat_u8: "ucast (of_nat x :: u32) = (of_nat x :: u8)"
  by (rule word_unat_eq_iff[THEN iffD2]) (simp add: unat_of_nat unsigned_ucast_eq take_bit_eq_mod mod_mod_cancel)

lemma of_nat_mod_26: "x < 2 ^ 32 \<Longrightarrow> (of_nat x :: u32) mod 26 = of_nat (x mod 26)"
  by (rule word_unat_eq_iff[THEN iffD2]) (simp add: unat_mod unat_of_nat)

lemma expected_letters:
  assumes "base \<in> bases" "f < 26" "unat i < 32"
  shows "expected i (of_nat (base + f)) (of_nat f) = ucast (letters base f (unat i))"
proof -
  have b: "base + f < 256" "base + (f + unat i) mod 26 < 256" using assms by (auto simp: bases_def)
  have "(of_nat f + i) mod 26 = (of_nat ((f + unat i) mod 26) :: u32)"
    using of_nat_mod_26[of "f + unat i"] assms(2,3) by simp
  then show ?thesis unfolding expected_def letters_def ucast_small[OF b(1)] ucast_small[OF b(2)] by simp
qed

lemma offset_letters:
  assumes "base \<in> bases" "f < 26"
  shows "(ucast (of_nat (base + f) :: u8) AND NOT 0x20) - ucast (ch CHR ''A'') = (of_nat f :: u32)"
proof -
  have l: "list_all (\<lambda>f. \<forall>base \<in> {65, 97}. (ucast (of_nat (base + f) :: u8) AND NOT 0x20) - ucast (ch CHR ''A'') = (of_nat f :: u32)) [0..<26]"
    by code_simp
  have "\<forall>base \<in> {65, 97}. (ucast (of_nat (base + f) :: u8) AND NOT 0x20) - ucast (ch CHR ''A'') = (of_nat f :: u32)"
    by (rule bspec[OF l[unfolded list_all_iff set_upt]]) (use assms(2) in simp)
  then show ?thesis using assms(1) unfolding bases_def by blast
qed

lemma letter_letters:
  assumes "unat i + h + unat n < 2 ^ 32"
  shows "letter h n i = letters (if odd h then 65 else 97) (h + unat n) (unat i)"
proof -
  have "i + of_nat h + n = of_nat (unat i + h + unat n)" by simp
  then have "(i + of_nat h + n) mod 26 = of_nat ((h + unat n + unat i) mod 26)"
    using of_nat_mod_26[OF assms] by (simp add: ac_simps)
  moreover have "ucast (ucast (ch CHR ''A'') + of_nat x :: u32) = (of_nat (65 + x) :: u8)"
    "ucast (ucast (ch CHR ''a'') + of_nat x :: u32) = (of_nat (97 + x) :: u8)" for x
    using ucast_of_nat_u8[of "65 + x"] ucast_of_nat_u8[of "97 + x"] by (simp_all add: ch_def)
  ultimately show ?thesis by (simp add: letter_def letters_def)
qed

lemma fill_letters:
  "i < 32 \<Longrightarrow> ucast (ucast (ch CHR ''A'') + i mod 26 :: u32) = letters 65 0 (unat i)"
proof -
  assume "i < 32"
  then have "i mod 26 = of_nat (unat i mod 26)" using of_nat_mod_26[of "unat i"] by (simp add: word_less_nat_alt)
  then show ?thesis using ucast_of_nat_u8[of "65 + unat i mod 26"] by (simp add: ch_def letters_def)
qed

lemma letters_mod: "letters base (f mod 26) = letters base f"
  by (simp add: fun_eq_iff letters_def mod_simps)

lemma pattern_letters: "base \<in> bases \<Longrightarrow> \<forall>j < 32. b ! j = letters base f j \<Longrightarrow> pattern b"
  unfolding pattern_def by (intro bexI[of _ base] exI[of _ "f mod 26"]) (simp_all add: letters_mod)

lemma unat_next: "i < 32 \<Longrightarrow> unat (i + 1) = unat i + 1 \<and> unat i < 32" for i :: u32
  by (simp add: word_less_nat_alt unat_word_ariths)

section \<open>The invariant\<close>

definition inside :: "point \<Rightarrow> bool" where
  "inside p \<longleftrightarrow> p \<notin> {Boot, Acquire, Count}"

text \<open>The buffer while a hart that found the letters \<open>base\<close>, \<open>f\<close> has rewritten those below \<open>i\<close>.\<close>

definition rewriting :: "nat \<Rightarrow> u32 \<Rightarrow> u8 list \<Rightarrow> u32 \<Rightarrow> u8 \<Rightarrow> s32 \<Rightarrow> bool" where
  "rewriting h n b i c offset \<longleftrightarrow> (\<exists>base \<in> bases. \<exists>f < 26. c = of_nat (base + f) \<and> offset = of_nat f \<and>
     (\<forall>j < 32. b ! j = (if j < unat i then letters (if odd h then 65 else 97) (h + unat n) j else letters base f j)))"

definition holds :: "nat \<Rightarrow> harts \<Rightarrow> bool" where
  "holds h st \<longleftrightarrow> (case point_of st h of
     Locked \<Rightarrow> buf_initialized st = 0 \<or> pattern (buf st)
   | Fill i \<Rightarrow> i \<le> 32 \<and> (\<forall>j < unat i. buf st ! j = letters 65 0 j)
   | Filled \<Rightarrow> pattern (buf st)
   | First \<Rightarrow> pattern (buf st)
   | Compare i c offset \<Rightarrow> i \<le> 32 \<and> rewriting h (hart_count st ! h) (buf st) i c offset
   | Write i c offset \<Rightarrow> i < 32 \<and> rewriting h (hart_count st ! h) (buf st) i c offset
   | Release \<Rightarrow> pattern (buf st)
   | _ \<Rightarrow> True)"

definition sized :: "nat \<Rightarrow> nat \<Rightarrow> harts \<Rightarrow> bool" where
  "sized N k st \<longleftrightarrow> length (buf st) = 32 \<and> length (hart_count st) = N \<and> length (interrupt_count st) = N \<and>
     (\<forall>h < N. unat (hart_count st ! h) \<le> k)"

definition locking :: "nat \<Rightarrow> harts \<Rightarrow> bool" where
  "locking N st \<longleftrightarrow>
     (\<forall>h. inside (point_of st h) \<longrightarrow> h < N \<and> buf_lock st = 1 \<and> holds h st) \<and>
     (\<forall>h h'. inside (point_of st h) \<longrightarrow> inside (point_of st h') \<longrightarrow> h = h') \<and>
     ((\<forall>h. \<not> inside (point_of st h)) \<longrightarrow> buf_lock st = 0 \<and> (buf_initialized st = 0 \<or> pattern (buf st)))"

lemma locking_init: "sized N 0 (harts_init N)" "locking N (harts_init N)"
  by (simp_all add: sized_def locking_def harts_init_def inside_def)

text \<open>A hart inside is the only one, and the invariant need be shown for it only.\<close>

lemma locking_inside:
  assumes "locking N st" "inside (point_of st h)" "point_of st' = (point_of st)(h := p)" "h < N"
    and "inside p \<Longrightarrow> buf_lock st' = 1 \<and> holds h st'"
    and "\<not> inside p \<Longrightarrow> buf_lock st' = 0 \<and> (buf_initialized st' = 0 \<or> pattern (buf st'))"
  shows "locking N st'"
proof -
  have o: "\<not> inside (point_of st h')" if "h' \<noteq> h" for h' using assms(1,2) that by (auto simp: locking_def)
  show ?thesis
  proof (cases "inside p")
    case True
    then have "inside (point_of st' h') \<longleftrightarrow> h' = h" for h' using o assms(3) by simp
    then show ?thesis using assms(4,5) True by (simp add: locking_def)
  next
    case False
    then have "\<not> inside (point_of st' h')" for h' using o assms(3) by simp
    then show ?thesis using assms(6) False by (simp add: locking_def)
  qed
qed

text \<open>A step outside that leaves the lock and the buffer alone.\<close>

lemma holds_cong:
  "point_of st' h = point_of st h \<Longrightarrow> buf st' = buf st \<Longrightarrow> buf_initialized st' = buf_initialized st \<Longrightarrow>
    hart_count st' ! h = hart_count st ! h \<Longrightarrow> holds h st' = holds h st"
  by (simp add: holds_def split: point.split)

lemma locking_outside:
  assumes "locking N st" "\<not> inside (point_of st h)" "point_of st' = (point_of st)(h := p)" "\<not> inside p"
    and "buf_lock st' = buf_lock st" "buf st' = buf st" "buf_initialized st' = buf_initialized st"
    and "\<And>h'. h' \<noteq> h \<Longrightarrow> hart_count st' ! h' = hart_count st ! h'"
  shows "locking N st'"
proof -
  have i: "inside (point_of st' h') = inside (point_of st h')" for h' using assms(2-4) by simp
  have "holds h' st' = holds h' st" if "inside (point_of st h')" for h'
    by (rule holds_cong) (use assms that in \<open>metis fun_upd_apply\<close>)+
  then show ?thesis using assms(1,5-7) unfolding locking_def i by auto
qed

lemma locking_in:
  "locking N st \<Longrightarrow> inside (point_of st h) \<Longrightarrow> h < N \<and> buf_lock st = 1 \<and> holds h st"
  by (simp add: locking_def)

lemma locking_free: "locking N st \<Longrightarrow> buf_lock st \<noteq> 1 \<Longrightarrow> (\<forall>h. \<not> inside (point_of st h)) \<and> (buf_initialized st = 0 \<or> pattern (buf st))"
  unfolding locking_def by blast

lemma at_point_simps [simp]:
  "buf_lock (at_point h p st) = buf_lock st" "buf (at_point h p st) = buf st" "buf_initialized (at_point h p st) = buf_initialized st"
  "hart_count (at_point h p st) = hart_count st" "interrupt_count (at_point h p st) = interrupt_count st"
  "point_of (at_point h p st) = (point_of st)(h := p)"
  by (simp_all add: at_point_def)

lemma acquire_step:
  assumes "locking N st" "point_of st h = Acquire" "h < N"
  shows "\<exists>st'. hart_step h st = Some st' \<and> locking N st' \<and> (sized N k st \<longrightarrow> sized N k st')"
proof (cases "buf_lock st = 1")
  case True
  then have "hart_step h st = Some (st\<lparr>buf_lock := 1\<rparr>)" using assms(2) by (simp add: hart_step_def atomic_xchg_def)
  also have "st\<lparr>buf_lock := 1\<rparr> = st" using True by (cases st) simp
  finally show ?thesis using assms(1) by simp
next
  case False
  let ?st = "at_point h Locked (st\<lparr>buf_lock := 1\<rparr>)"
  have f: "\<forall>h. \<not> inside (point_of st h)" "buf_initialized st = 0 \<or> pattern (buf st)"
    using locking_free[OF assms(1) False] by simp_all
  then have "inside (point_of ?st h') \<longleftrightarrow> h' = h" for h' by (simp add: inside_def)
  then have "locking N ?st" using f(2) assms(3) by (simp add: locking_def holds_def)
  then show ?thesis using assms(2) False by (simp add: hart_step_def atomic_xchg_def sized_def)
qed

lemma rewriting_step:
  assumes "rewriting h n b i c offset" "i < 32" "length b = 32" "h + unat n + 32 \<le> 2 ^ 32"
  shows "ucast (b ! unat i) = expected i c offset" "rewriting h n (b[unat i := letter h n i]) (i + 1) c offset"
proof -
  obtain base f where b: "base \<in> bases" "f < 26" "c = of_nat (base + f)" "offset = of_nat f"
    "\<forall>j < 32. b ! j = (if j < unat i then letters (if odd h then 65 else 97) (h + unat n) j else letters base f j)"
    using assms(1) unfolding rewriting_def by blast
  have i: "unat (i + 1) = unat i + 1" "unat i < 32" using unat_next[OF assms(2)] by simp_all
  show "ucast (b ! unat i) = expected i c offset"
    using expected_letters[OF b(1,2) i(2)] b(5) i(2) by (simp add: b(3,4))
  have "letter h n i = letters (if odd h then 65 else 97) (h + unat n) (unat i)"
    by (rule letter_letters) (use assms(4) i in simp)
  then show "rewriting h n (b[unat i := letter h n i]) (i + 1) c offset"
    unfolding rewriting_def i(1)
    by (intro bexI[OF _ b(1)] exI[of _ f]) (use b(2-5) assms(3) in \<open>auto simp: nth_list_update less_Suc_eq\<close>)
qed

lemma rewriting_start:
  assumes "pattern b" "c = b ! 0"
  shows "rewriting h n b 0 c ((ucast c AND NOT 0x20) - ucast (ch CHR ''A''))"
proof -
  obtain base f where b: "base \<in> bases" "f < 26" "\<forall>j < 32. b ! j = letters base f j"
    using assms(1) unfolding pattern_def by blast
  then have c: "c = of_nat (base + f)" using assms(2) by (simp add: letters_def)
  show ?thesis
    unfolding rewriting_def
    by (intro bexI[OF _ b(1)] exI[of _ f] conjI b(2) c, unfold c, rule offset_letters[OF b(1,2)]) (use b(3) in simp)
qed

lemma rewriting_done: "rewriting h n b i c offset \<Longrightarrow> unat i = 32 \<Longrightarrow> pattern b"
  unfolding rewriting_def by (auto intro!: pattern_letters[of "if odd h then 65 else 97" _ "h + unat n"] simp: bases_def)

lemma inside_simps [simp]:
  "\<not> inside Boot" "\<not> inside Acquire" "\<not> inside Count" "inside Locked" "inside (Fill i)" "inside Filled" "inside First"
  "inside (Compare i c offset)" "inside (Write i c offset)" "inside Release"
  by (simp_all add: inside_def)

lemma fill_pattern: "\<forall>j < 32. b ! j = letters 65 0 j \<Longrightarrow> pattern b"
  by (rule pattern_letters[where base = 65 and f = 0]) (simp_all add: bases_def)

lemma inside_step:
  assumes "locking N st" "sized N k st" "inside (point_of st h)" "k + N + 32 \<le> 2 ^ 32"
  shows "\<exists>st'. hart_step h st = Some st' \<and> locking N st' \<and> sized N k st' \<and> point_of st' h \<noteq> point_of st h"
proof -
  have h: "h < N" "buf_lock st = 1" "holds h st" using locking_in[OF assms(1,3)] by simp_all
  have l: "length (buf st) = 32" "length (hart_count st) = N" "unat (hart_count st ! h) \<le> k"
    using assms(2) h(1) by (simp_all add: sized_def)
  note upd = locking_inside[OF assms(1,3) _ h(1)]
  show ?thesis
  proof (cases "point_of st h")
    case Locked
    let ?p = "if buf_initialized st = 0 then Fill 0 else First"
    have "locking N (at_point h ?p st)"
      by (rule upd[where p = ?p]) (use h Locked in \<open>auto simp: holds_def split: if_splits\<close>)
    then show ?thesis using assms(2) Locked by (simp add: hart_step_def sized_def)
  next
    case (Fill i)
    show ?thesis
    proof (cases "i < 32")
      case True
      let ?b = "(buf st)[unat i := letters 65 0 (unat i)]"
      have u: "unat (i + 1) = unat i + 1" "unat i < 32" using unat_next[OF True] by simp_all
      have "i + 1 \<le> 32" using u by (simp add: word_le_nat_alt)
      moreover have "\<forall>j < unat (i + 1). ?b ! j = letters 65 0 j"
        using h(3) Fill l(1) u by (auto simp: holds_def nth_list_update less_Suc_eq)
      moreover have "hart_step h st = Some (at_point h (Fill (i + 1)) (st\<lparr>buf := ?b\<rparr>))"
        using Fill True u(2) l(1) by (simp add: hart_step_def fill_letters)
      moreover have "locking N (at_point h (Fill (i + 1)) (st\<lparr>buf := ?b\<rparr>))"
        by (rule upd[where p = "Fill (i + 1)"]) (use h calculation in \<open>simp_all add: holds_def\<close>)
      ultimately show ?thesis using assms(2) Fill by (simp add: sized_def)
    next
      case False
      then have "unat i = 32" using h(3) Fill by (simp add: holds_def word_less_nat_alt word_le_nat_alt)
      then have "pattern (buf st)" using h(3) Fill fill_pattern by (simp add: holds_def)
      then have "locking N (at_point h Filled st)" by (intro upd[where p = Filled]) (use h in \<open>simp_all add: holds_def\<close>)
      then show ?thesis using assms(2) Fill False by (simp add: hart_step_def sized_def)
    qed
  next
    case Filled
    then have "locking N (at_point h First (st\<lparr>buf_initialized := 1\<rparr>))"
      by (intro upd[where p = First]) (use h in \<open>simp_all add: holds_def\<close>)
    then show ?thesis using assms(2) Filled by (simp add: hart_step_def sized_def)
  next
    case First
    let ?p = "Compare 0 (buf st ! 0) ((ucast (buf st ! 0) AND NOT 0x20) - ucast (ch CHR ''A''))"
    have "pattern (buf st)" using h(3) First by (simp add: holds_def)
    then have "locking N (at_point h ?p st)"
      by (intro upd[where p = ?p]) (use h rewriting_start[OF _ refl] in \<open>simp_all add: holds_def\<close>)
    then show ?thesis using assms(2) l(1) First by (simp add: hart_step_def sized_def)
  next
    case (Compare i c offset)
    have r: "i \<le> 32" "rewriting h (hart_count st ! h) (buf st) i c offset" using h(3) Compare by (simp_all add: holds_def)
    show ?thesis
    proof (cases "i < 32")
      case True
      have "ucast (buf st ! unat i) = expected i c offset"
        using rewriting_step(1)[OF r(2) True l(1)] l(3) h(1) assms(4) by simp
      moreover have "locking N (at_point h (Write i c offset) st)"
        by (rule upd[where p = "Write i c offset"]) (use h r(2) True in \<open>simp_all add: holds_def\<close>)
      ultimately show ?thesis using assms(2) l(1) Compare True unat_next[OF True] by (simp add: hart_step_def sized_def)
    next
      case False
      then have "unat i = 32" using r(1) by (simp add: word_less_nat_alt word_le_nat_alt)
      then have "locking N (at_point h Release st)"
        by (intro upd[where p = Release]) (use h rewriting_done[OF r(2)] in \<open>simp_all add: holds_def\<close>)
      then show ?thesis using assms(2) Compare False by (simp add: hart_step_def sized_def)
    qed
  next
    case (Write i c offset)
    have r: "i < 32" "rewriting h (hart_count st ! h) (buf st) i c offset" using h(3) Write by (simp_all add: holds_def)
    have u: "unat (i + 1) = unat i + 1" "unat i < 32" using unat_next[OF r(1)] by simp_all
    let ?b = "(buf st)[unat i := letter h (hart_count st ! h) i]"
    have "rewriting h (hart_count st ! h) ?b (i + 1) c offset"
      using rewriting_step(2)[OF r(2,1) l(1)] l(3) h(1) assms(4) by simp
    moreover have "i + 1 \<le> 32" using u by (simp add: word_le_nat_alt)
    ultimately have "locking N (at_point h (Compare (i + 1) c offset) (st\<lparr>buf := ?b\<rparr>))"
      by (intro upd[where p = "Compare (i + 1) c offset"]) (use h in \<open>simp_all add: holds_def\<close>)
    then show ?thesis using assms(2) h(1) l Write u by (simp add: hart_step_def sized_def)
  next
    case Release
    then have "locking N (at_point h Count (st\<lparr>buf_lock := 0\<rparr>))"
      by (intro upd[where p = Count]) (use h in \<open>simp_all add: holds_def\<close>)
    then show ?thesis using assms(2) Release by (simp add: hart_step_def atomic_xchg_def sized_def)
  qed (use assms(3) in simp_all)
qed

lemma outside_step:
  assumes "locking N st" "sized N k st" "\<not> inside (point_of st h)" "h < N"
  shows "\<exists>st'. hart_step h st = Some st' \<and> locking N st' \<and> sized N (Suc k) st'"
proof -
  have l: "length (hart_count st) = N" "length (interrupt_count st) = N" "\<forall>h < N. unat (hart_count st ! h) \<le> k"
    using assms(2) by (simp_all add: sized_def)
  have up: "sized N (Suc k) st" using assms(2) by (auto simp: sized_def)
  note upd = locking_outside[OF assms(1,3), where p = Acquire]
  consider "point_of st h = Boot" | "point_of st h = Acquire" | "point_of st h = Count" using assms(3) by (auto simp: inside_def)
  then show ?thesis
  proof cases
    case 1
    let ?st = "at_point h Acquire (st\<lparr>hart_count := (hart_count st)[h := 0], interrupt_count := (interrupt_count st)[h := 0]\<rparr>)"
    have "locking N ?st" by (rule upd) simp_all
    moreover have "sized N (Suc k) ?st" using up assms(4) by (auto simp: sized_def nth_list_update)
    ultimately show ?thesis using 1 l assms(4) by (simp add: hart_step_def)
  next
    case 2
    then show ?thesis using acquire_step[OF assms(1) 2 assms(4), of "Suc k"] up by blast
  next
    case 3
    let ?st = "at_point h Acquire (st\<lparr>hart_count := (hart_count st)[h := hart_count st ! h + 1]\<rparr>)"
    have "unat (n + 1) \<le> Suc (unat n)" for n :: u32 by (simp add: unat_word_ariths)
    then have "unat (hart_count st ! h + 1) \<le> Suc k" using l(3) assms(4) by (meson Suc_le_mono le_trans)
    then have "sized N (Suc k) ?st" using up assms(4) by (auto simp: sized_def nth_list_update)
    moreover have "locking N ?st" by (rule upd) simp_all
    ultimately show ?thesis using 3 l assms(4) by (simp add: hart_step_def)
  qed
qed

lemma locked_step:
  assumes "locking N st" "sized N k st" "h < N" "k + N + 32 \<le> 2 ^ 32"
  shows "\<exists>st'. hart_step h st = Some st' \<and> locking N st' \<and> sized N (Suc k) st'"
proof (cases "inside (point_of st h)")
  case True
  then show ?thesis using inside_step[OF assms(1,2) True assms(4)] by (fastforce simp: sized_def)
next
  case False then show ?thesis by (rule outside_step[OF assms(1,2) _ assms(3)])
qed

lemma reached_locking:
  assumes "reached N acts st" "length acts + N + 32 \<le> 2 ^ 32"
  shows "locking N st \<and> sized N (length acts) st"
  using assms
proof (induction rule: reached.induct)
  case start show ?case using locking_init by simp
next
  case (stepped acts st h st')
  then have "locking N st" "sized N (length acts) st" by simp_all
  from locked_step[OF this stepped.hyps(2)] stepped.hyps(3) stepped.prems show ?case by simp
next
  case (interrupted acts st h st')
  then have i: "locking N st" "sized N (length acts) st" by simp_all
  obtain ic where st': "st' = st\<lparr>interrupt_count := ic\<rparr>" "length ic = length (interrupt_count st)"
    using interrupted.hyps(4) by (auto simp: timer_interrupt_def wr_Some_iff split: Option.bind_splits)
  have "holds h st' = holds h st" for h unfolding st'(1) by (rule holds_cong) simp_all
  then show ?case using i st' by (auto simp: locking_def sized_def)
qed

lemma reached_the: "reached N acts st \<Longrightarrow> h < N \<Longrightarrow> hart_step h st \<noteq> None \<Longrightarrow> reached N (Step h # acts) (the (hart_step h st))"
  by (auto intro: stepped)

definition sample_harts :: harts where
  "sample_harts = the (hart_step 0 (the (hart_step 1 (the (hart_step 0 (harts_init 2))))))"

lemma sample_reached:
  "reached 2 [Step 0, Step 1, Step 0] sample_harts" "point_of sample_harts 0 = Locked" "point_of sample_harts 1 = Acquire"
proof -
  note def = hart_step_def harts_init_def atomic_xchg_def
  have s: "reached 2 [Step 0] (the (hart_step 0 (harts_init 2)))" by (rule reached_the[OF start]) (simp_all add: def)
  have s: "reached 2 [Step 1, Step 0] (the (hart_step 1 (the (hart_step 0 (harts_init 2)))))"
    by (rule reached_the[OF s]) (simp_all add: def)
  show "reached 2 [Step 0, Step 1, Step 0] sample_harts"
    unfolding sample_harts_def by (rule reached_the[OF s]) (simp_all add: def)
  show "point_of sample_harts 0 = Locked" "point_of sample_harts 1 = Acquire"
    by (simp_all add: sample_harts_def def)
qed



section \<open>Progress\<close>

text \<open>A hart that runs alone for \<open>n\<close> steps, and the steps left before it has released the lock.\<close>

fun alone :: "nat \<Rightarrow> nat \<Rightarrow> harts \<Rightarrow> harts option" where
  "alone 0 h st = Some st"
| "alone (Suc n) h st = do { st \<leftarrow> hart_step h st; alone n h st }"

fun steps_left :: "point \<Rightarrow> nat" where
  "steps_left Locked = 102"
| "steps_left (Fill i) = (32 - unat i) + 69"
| "steps_left Filled = 68"
| "steps_left First = 67"
| "steps_left (Compare i c offset) = 2 * (32 - unat i) + 2"
| "steps_left (Write i c offset) = 2 * (32 - unat i) + 1"
| "steps_left Release = 1"
| "steps_left p = 0"

lemma steps_left_less:
  "hart_step h st = Some st' \<Longrightarrow> point_of st' h \<noteq> point_of st h \<Longrightarrow> inside (point_of st h) \<Longrightarrow>
    (\<forall>i c offset. point_of st h = Write i c offset \<longrightarrow> i < 32) \<Longrightarrow>
    steps_left (point_of st' h) < steps_left (point_of st h)"
  by (cases "point_of st h") (auto simp: hart_step_def unat_next dest: unat_next split: Option.bind_splits if_splits)

lemma alone_releases:
  assumes "locking N st" "sized N k st" "inside (point_of st h)" "k + N + 32 \<le> 2 ^ 32"
  shows "\<exists>n \<le> steps_left (point_of st h). \<exists>st'. alone n h st = Some st' \<and> buf_lock st' = 0 \<and> point_of st' h = Count"
  using assms
proof (induction "steps_left (point_of st h)" arbitrary: st rule: less_induct)
  case less
  obtain st1 where st1: "hart_step h st = Some st1" "locking N st1" "sized N k st1" "point_of st1 h \<noteq> point_of st h"
    using inside_step[OF less.prems] by blast
  have "\<forall>i c offset. point_of st h = Write i c offset \<longrightarrow> i < 32"
    using locking_in[OF less.prems(1,3)] by (auto simp: holds_def)
  then have s: "steps_left (point_of st1 h) < steps_left (point_of st h)"
    by (rule steps_left_less[OF st1(1,4) less.prems(3)])
  show ?case
  proof (cases "point_of st h = Release")
    case True
    then have "buf_lock st1 = 0 \<and> point_of st1 h = Count" using st1(1) by (auto simp: hart_step_def atomic_xchg_def)
    then show ?thesis using st1(1) True by (intro exI[of _ 1]) simp
  next
    case False
    then have "inside (point_of st1 h)"
      using st1(1,4) less.prems(3) by (cases "point_of st h") (auto simp: hart_step_def split: Option.bind_splits if_splits)
    from less.hyps[OF s st1(2,3) this less.prems(4)] obtain n st' where
      n: "n \<le> steps_left (point_of st1 h)" "alone n h st1 = Some st'" "buf_lock st' = 0" "point_of st' h = Count" by blast
    show ?thesis
      by (rule exI[of _ "Suc n"]) (use n s st1(1) in simp)
  qed
qed



text \<open>
  Once a count has reached the largest 32-bit number the letters no longer follow each other: after
  \<open>v\<close> comes \<open>a\<close>, and the next hart waits for ever for \<open>w\<close>, holding the lock.
\<close>

lemma count_wraps:
  "letter 0 0xFFFFFFFF 0 = ch CHR ''v''" "letter 0 0xFFFFFFFF 1 = ch CHR ''a''"
  "expected 1 (ch CHR ''v'') 21 = ucast (ch CHR ''w'')"
  by code_simp+

lemma waits_for_ever:
  "point_of st h = Compare i c offset \<Longrightarrow> i < 32 \<Longrightarrow> length (buf st) = 32 \<Longrightarrow> ucast (buf st ! unat i) \<noteq> expected i c offset \<Longrightarrow>
    alone n h st = Some st"
  by (induction n) (simp_all add: hart_step_def word_less_nat_alt)

section \<open>Handlers\<close>

text \<open>
  The handler of \<open>interrupt.c\<close> returns with the first reading of the pending bit that is clear, to the
  interrupted address, and leaves the comparator \<open>delta\<close> after the last time it read.
\<close>

lemma clear_loop_returns:
  assumes "\<not> pending (k + n)" "\<forall>j < n. pending (k + j)"
  shows "clear_loop pending mtime k cmp = Some (if n = 0 then cmp else mtime (k + n - 1) + delta)"
  using assms
proof (induction n arbitrary: k cmp)
  case 0 then show ?case by (simp add: clear_loop.simps)
next
  case (Suc n)
  have "pending k" using Suc.prems(2) by force
  moreover have "clear_loop pending mtime (k + 1) (mtime k + delta) =
      Some (if n = 0 then mtime k + delta else mtime (k + 1 + n - 1) + delta)"
    by (rule Suc.IH) (use Suc.prems in auto)
  ultimately show ?case by (subst clear_loop.simps) (auto simp: Suc_diff_le)
qed

lemma increment_count_returns:
  assumes "\<not> pending n" "\<forall>j < n. pending j"
  shows "increment_count pending mtime mepc count cmp = Some (count + 1, if n = 0 then cmp else mtime (n - 1) + delta, mepc)"
  using clear_loop_returns[of pending 0 n mtime cmp] assms by (simp add: increment_count_def)

lemma set_then_handle:
  assumes "hartid < length tbl" "handler \<noteq> 0"
  shows "\<exists>tbl'. set_trap_handler hartid handler tbl = Some tbl' \<and>
    handle_trap hartid mcause mepc sp tbl' = Some \<lparr>callee = handler, on_hart = hartid, cause = mcause, epc = mepc, frame = sp\<rparr>"
  using assms by (simp add: set_trap_handler_def handle_trap_def)

end
