(* ===== verification/Debug_Semihosting.thy ===== *)
theory Debug_Semihosting
  imports Debug_Checksum
begin

text \<open>
  The program \<open>semihosting.c\<close> with \<open>semihosting.h\<close>: opening and writing a file on the host of the
  debugger. The host is a parameter that answers an operation with three arguments.
\<close>

section \<open>Operations\<close>

datatype Semihost_Sys_Op =
    SEMIHOST_SYS_CLOCK | SEMIHOST_SYS_CLOSE | SEMIHOST_SYS_ELAPSED | SEMIHOST_SYS_ERRNO | SEMIHOST_SYS_EXIT
  | SEMIHOST_SYS_EXIT_EXTENDED | SEMIHOST_SYS_FLEN | SEMIHOST_SYS_GET_CMDLINE | SEMIHOST_SYS_HEAPINFO
  | SEMIHOST_SYS_ISERROR | SEMIHOST_SYS_ISTTY | SEMIHOST_SYS_OPEN | SEMIHOST_SYS_READ | SEMIHOST_SYS_READC
  | SEMIHOST_SYS_REMOVE | SEMIHOST_SYS_RENAME | SEMIHOST_SYS_SEEK | SEMIHOST_SYS_SYSTEM | SEMIHOST_SYS_TICKFREQ
  | SEMIHOST_SYS_TIME | SEMIHOST_SYS_TMPNAM | SEMIHOST_SYS_WRITE | SEMIHOST_SYS_WRITEC | SEMIHOST_SYS_WRITE0

fun op_code :: "Semihost_Sys_Op \<Rightarrow> u32" where
  "op_code SEMIHOST_SYS_CLOCK = 0x10"
| "op_code SEMIHOST_SYS_CLOSE = 0x02"
| "op_code SEMIHOST_SYS_ELAPSED = 0x30"
| "op_code SEMIHOST_SYS_ERRNO = 0x13"
| "op_code SEMIHOST_SYS_EXIT = 0x18"
| "op_code SEMIHOST_SYS_EXIT_EXTENDED = 0x20"
| "op_code SEMIHOST_SYS_FLEN = 0x0C"
| "op_code SEMIHOST_SYS_GET_CMDLINE = 0x15"
| "op_code SEMIHOST_SYS_HEAPINFO = 0x16"
| "op_code SEMIHOST_SYS_ISERROR = 0x08"
| "op_code SEMIHOST_SYS_ISTTY = 0x09"
| "op_code SEMIHOST_SYS_OPEN = 0x01"
| "op_code SEMIHOST_SYS_READ = 0x06"
| "op_code SEMIHOST_SYS_READC = 0x07"
| "op_code SEMIHOST_SYS_REMOVE = 0x0E"
| "op_code SEMIHOST_SYS_RENAME = 0x0F"
| "op_code SEMIHOST_SYS_SEEK = 0x0A"
| "op_code SEMIHOST_SYS_SYSTEM = 0x12"
| "op_code SEMIHOST_SYS_TICKFREQ = 0x31"
| "op_code SEMIHOST_SYS_TIME = 0x11"
| "op_code SEMIHOST_SYS_TMPNAM = 0x0D"
| "op_code SEMIHOST_SYS_WRITE = 0x05"
| "op_code SEMIHOST_SYS_WRITEC = 0x03"
| "op_code SEMIHOST_SYS_WRITE0 = 0x04"

record semihostparam =
  param1 :: u32
  param2 :: u32
  param3 :: u32

text \<open>The argument of a call is the address of the parameters or null.\<close>

type_synonym host = "u32 \<Rightarrow> semihostparam option \<Rightarrow> u32"

definition semihost_call_host :: "host \<Rightarrow> Semihost_Sys_Op \<Rightarrow> semihostparam option \<Rightarrow> u32" where
  "semihost_call_host host opn arg = host (op_code opn) arg"

section \<open>open and write\<close>

definition O_RDONLY :: s32 where "O_RDONLY = 0"
definition O_WRONLY :: s32 where "O_WRONLY = 1"
definition O_RDWR :: s32 where "O_RDWR = 2"
definition O_TRUNC :: s32 where "O_TRUNC = 0x0800"

text \<open>The switch over the flags; the default also takes \<open>O_WRONLY | O_RDWR\<close>.\<close>

definition semiflags_of :: "s32 \<Rightarrow> s32" where
  "semiflags_of flags = (
     let acc = flags AND (O_RDONLY OR O_WRONLY OR O_RDWR)
     in if acc = O_RDONLY then 0
        else if acc = O_WRONLY then (if flags AND O_TRUNC \<noteq> 0 then 4 else 8)
        else (if flags AND O_TRUNC \<noteq> 0 then 6 else 10))"

text \<open>
  A pointer to a string is null or an address with the memory from there on. The results are the file
  descriptor and \<open>errno\<close>.
\<close>

type_synonym string_ptr = "(u32 \<times> u8 list) option"

definition string_length :: "string_ptr \<Rightarrow> nat option" where
  "string_length p = (case p of None \<Rightarrow> None | Some (a, m) \<Rightarrow> strlen m)"

definition string_address :: "string_ptr \<Rightarrow> u32" where
  "string_address p = (case p of None \<Rightarrow> 0 | Some (a, m) \<Rightarrow> a)"

definition open_file :: "host \<Rightarrow> string_ptr \<Rightarrow> s32 \<Rightarrow> s32 \<Rightarrow> (s32 \<times> s32) option" where
  "open_file host nm flags errno = do {
     let semiflags = semiflags_of flags;
     len \<leftarrow> string_length nm;
     let arg = \<lparr>param1 = string_address nm, param2 = semiflags, param3 = of_nat len\<rparr>;
     let ret = semihost_call_host host SEMIHOST_SYS_OPEN (Some arg);
     let errno = (if ret = - 1 then semihost_call_host host SEMIHOST_SYS_ERRNO None else errno);
     Some (ret, errno) }"

definition write_file :: "host \<Rightarrow> s32 \<Rightarrow> u32 \<Rightarrow> u32 \<Rightarrow> s32" where
  "write_file host fd buf len = (
     let arg = \<lparr>param1 = fd, param2 = buf, param3 = len\<rparr>;
         ret = semihost_call_host host SEMIHOST_SYS_WRITE (Some arg)
     in len - ret)"

definition message :: "u8 list" where
  "message = bytes ''Hello, world!'' @ [10, 0]"

text \<open>
  \<open>filename\<close> is null unless the debugger sets it at the label \<open>begin\<close>; \<open>at\<close> is the address of the
  message. The result is what \<open>write\<close> returned and \<open>errno\<close>.
\<close>

definition semihosting_main :: "host \<Rightarrow> string_ptr \<Rightarrow> u32 \<Rightarrow> (s32 \<times> s32) option" where
  "semihosting_main host filename at = do {
     (fd, errno) \<leftarrow> open_file host filename O_WRONLY 0;
     n \<leftarrow> strlen message;
     Some (write_file host fd at (of_nat n), errno) }"

section \<open>What the host is asked\<close>

lemma op_code_inj: "op_code a = op_code b \<Longrightarrow> a = b"
  by (cases a; cases b; simp)

text \<open>The modes of the C library function \<open>fopen\<close>: 0 for r, 4 for w, 8 for a, with 2 added for both ways.\<close>

lemma semiflags_modes:
  "semiflags_of O_RDONLY = 0" "semiflags_of O_WRONLY = 8" "semiflags_of (O_WRONLY OR O_TRUNC) = 4"
  "semiflags_of O_RDWR = 10" "semiflags_of (O_RDWR OR O_TRUNC) = 6"
  by code_simp+

text \<open>
  Without a file name from the debugger \<open>main\<close> takes the length of a null string. With a name it asks
  the host to open that name for appending and to write the fourteen bytes of the message to the
  descriptor it got, and the result of \<open>write\<close> counts the bytes the host did not write.
\<close>

lemma semihosting_writes:
  assumes "0 \<notin> set nm" "length nm < 2 ^ 31"
  shows "semihosting_main host None at = None \<and>
    (let fd = host 1 (Some \<lparr>param1 = a, param2 = 8, param3 = of_nat (length nm)\<rparr>)
     in semihosting_main host (Some (a, nm @ 0 # m)) at =
       Some (14 - host 5 (Some \<lparr>param1 = fd, param2 = at, param3 = 14\<rparr>), if fd = - 1 then host 0x13 None else 0))"
proof -
  have "strlen message = Some 14" using strlen_string[of "bytes ''Hello, world!'' @ [10]" "[]"] by (simp add: message_def bytes_def ch_def)
  moreover have "semiflags_of O_WRONLY = 8" by code_simp
  ultimately show ?thesis
    using strlen_string[OF assms, of m]
    by (simp add: semihosting_main_def open_file_def write_file_def semihost_call_host_def string_length_def string_address_def Let_def)
qed

end
