(* ===== verification/Debug_Translate.thy ===== *)
theory Debug_Translate
  imports Byte_Memory C_Loops
begin

text \<open>
  The program \<open>translate.c\<close> of the debugger tests, compiled for 32 bits: it builds a page table that
  maps every address to itself except one page, switches translation on and checks that the page is
  seen at both addresses. The bits of page table entries and control registers come from
  \<open>encoding.h\<close>, which is no file of the repository: they are the record \<open>encoding\<close>, and
  \<open>riscv_encoding\<close> has the values of the privileged architecture. The translation done by the
  hardware is a parameter; \<open>sv32_translate\<close> is the algorithm of the architecture.
\<close>

section \<open>Declarations\<close>

record encoding =
  PTE_V :: u64
  PTE_R :: u64
  PTE_W :: u64
  PTE_X :: u64
  PTE_U :: u64
  PTE_A :: u64
  PTE_D :: u64
  PTE_PPN_SHIFT :: nat
  SATP_MODE :: u32
  SATP_PPN :: u32
  SATP_MODE_SV32 :: u32
  SATP_MODE_SV39 :: u32
  SATP_MODE_SV48 :: u32
  MSTATUS_MPRV :: u32

definition riscv_encoding :: encoding where
  "riscv_encoding = \<lparr>PTE_V = 1, PTE_R = 2, PTE_W = 4, PTE_X = 8, PTE_U = 16, PTE_A = 64, PTE_D = 128,
     PTE_PPN_SHIFT = 10, SATP_MODE = 0x80000000, SATP_PPN = 0x003FFFFF,
     SATP_MODE_SV32 = 1, SATP_MODE_SV39 = 8, SATP_MODE_SV48 = 9, MSTATUS_MPRV = 0x20000\<rparr>"

definition get_field :: "u32 \<Rightarrow> u32 \<Rightarrow> u32" where
  "get_field reg msk = (reg AND msk) div (msk AND NOT (push_bit 1 msk))"

definition set_field :: "u32 \<Rightarrow> u32 \<Rightarrow> u32 \<Rightarrow> u32" where
  "set_field reg msk val = (reg AND NOT msk) OR ((val * (msk AND NOT (push_bit 1 msk))) AND msk)"

record virtual_memory_system =
  mode :: u32
  levels :: nat
  ppn_width_bits :: "nat list"
  ppn_offset_bits :: "nat list"
  entry_width_bytes :: nat
  vpn_width_bits :: nat
  vaddr_bits :: nat

definition sv32 :: "encoding \<Rightarrow> virtual_memory_system" where
  "sv32 e = \<lparr>mode = SATP_MODE_SV32 e, levels = 2, ppn_width_bits = [12, 10, 10, 0, 0], ppn_offset_bits = [0, 12, 22, 0, 0],
     entry_width_bytes = 4, vpn_width_bits = 10, vaddr_bits = 32\<rparr>"

definition sv39 :: "encoding \<Rightarrow> virtual_memory_system" where
  "sv39 e = \<lparr>mode = SATP_MODE_SV39 e, levels = 3, ppn_width_bits = [12, 9, 9, 26, 0], ppn_offset_bits = [0, 12, 21, 30, 0],
     entry_width_bytes = 8, vpn_width_bits = 9, vaddr_bits = 39\<rparr>"

definition sv48 :: "encoding \<Rightarrow> virtual_memory_system" where
  "sv48 e = \<lparr>mode = SATP_MODE_SV48 e, levels = 4, ppn_width_bits = [12, 9, 9, 9, 26], ppn_offset_bits = [0, 12, 21, 30, 39],
     entry_width_bytes = 8, vpn_width_bits = 9, vaddr_bits = 48\<rparr>"

section \<open>Pages and entries\<close>

text \<open>The memory and the pointer \<open>page_buffer_next\<close>; \<open>page_buffer\<close> is the address of the array of that name.\<close>

record paging =
  mem :: memory
  page_buffer_next :: u32

text \<open>When the buffer is used up \<open>get_page\<close> loops for ever.\<close>

definition get_page :: "u32 \<Rightarrow> paging \<Rightarrow> (u32 \<times> paging) option" where
  "get_page page_buffer st = (
     let page = (page_buffer_next st + 4095) AND NOT 0xfff
     in if page + 4096 \<ge> page_buffer + 32768 then None
        else Some (page, st\<lparr>page_buffer_next := page + 4096\<rparr>))"

definition rd64 :: "memory \<Rightarrow> u32 \<Rightarrow> u64" where
  "rd64 m a = ucast (rd32 m a) OR push_bit 32 (ucast (rd32 m (a + 4)))"

definition wr64 :: "memory \<Rightarrow> u32 \<Rightarrow> u64 \<Rightarrow> memory" where
  "wr64 m a v = wr32 (wr32 m a (ucast v)) (a + 4) (ucast (drop_bit 32 v))"

text \<open>\<open>assert(0)\<close> does not return.\<close>

definition entry :: "virtual_memory_system \<Rightarrow> memory \<Rightarrow> u32 \<Rightarrow> u32 \<Rightarrow> u32 option" where
  "entry vms m tbl index =
    (if entry_width_bytes vms = 4 then Some (rd32 m (tbl + 4 * index))
     else if entry_width_bytes vms = 8 then Some (ucast (rd64 m (tbl + 8 * index)))
     else None)"

definition entry_set :: "virtual_memory_system \<Rightarrow> u32 \<Rightarrow> u32 \<Rightarrow> u64 \<Rightarrow> memory \<Rightarrow> memory option" where
  "entry_set vms tbl index val m =
    (if entry_width_bytes vms = 4 then Some (wr32 m (tbl + 4 * index) (ucast val))
     else if entry_width_bytes vms = 8 then Some (wr64 m (tbl + 8 * index) val)
     else None)"

definition leaf_bits :: "encoding \<Rightarrow> u64" where
  "leaf_bits e = PTE_V e OR PTE_R e OR PTE_W e OR PTE_X e OR PTE_U e OR PTE_A e OR PTE_D e"

text \<open>The entry that \<open>setup_page_table\<close> computes for index \<open>i\<close>; a shift of a 32-bit word by 32 or more is undefined.\<close>

definition table_pte :: "encoding \<Rightarrow> virtual_memory_system \<Rightarrow> nat \<Rightarrow> u64 \<Rightarrow> u32 \<Rightarrow> u64 option" where
  "table_pte e vms level physical i = (
     let w = vpn_width_bits vms;
         pte = leaf_bits e;
         pte = pte OR (physical AND push_bit (PTE_PPN_SHIFT e + (level + 1) * w) (push_bit w 1 - 1))
     in if PTE_PPN_SHIFT e + level * w < 32 then Some (pte OR ucast (push_bit (PTE_PPN_SHIFT e + level * w) i)) else None)"

definition setup_page_table :: "encoding \<Rightarrow> virtual_memory_system \<Rightarrow> u32 \<Rightarrow> nat \<Rightarrow> u64 \<Rightarrow> memory \<Rightarrow> memory option" where
  "setup_page_table e vms tbl level physical =
    for_range 0 (2 ^ vpn_width_bits vms) (\<lambda>i m. do {
      pte \<leftarrow> table_pte e vms level physical (of_nat i);
      entry_set vms tbl (of_nat i) pte m })"

definition vpn :: "virtual_memory_system \<Rightarrow> u64 \<Rightarrow> nat \<Rightarrow> u32" where
  "vpn vms virtual level =
    ucast (drop_bit (12 + vpn_width_bits vms * level) virtual AND (push_bit (vpn_width_bits vms) 1 - 1))"

text \<open>The loop of \<open>add_entry\<close> from \<open>current_level\<close> down.\<close>

function add_entry_loop ::
  "encoding \<Rightarrow> virtual_memory_system \<Rightarrow> u32 \<Rightarrow> nat \<Rightarrow> u64 \<Rightarrow> u64 \<Rightarrow> nat \<Rightarrow> u32 \<Rightarrow> paging \<Rightarrow> paging option" where
  "add_entry_loop e vms page_buffer level virtual physical current_level tbl st = (
     let index = vpn vms virtual current_level
     in if current_level \<le> level then do {
          m \<leftarrow> entry_set vms tbl index (leaf_bits e OR
            (drop_bit 2 physical AND NOT (push_bit (PTE_PPN_SHIFT e + current_level * vpn_width_bits vms) 1 - 1))) (mem st);
          Some (st\<lparr>mem := m\<rparr>) }
        else do {
          pte \<leftarrow> entry vms (mem st) tbl index;
          if ucast pte AND PTE_V e = 0 \<or> (ucast pte AND PTE_R e \<noteq> 0 \<and> ucast pte AND PTE_W e \<noteq> 0) then do {
            (new_page, st) \<leftarrow> get_page page_buffer st;
            m \<leftarrow> setup_page_table e vms new_page (current_level - 1) virtual (mem st);
            m \<leftarrow> entry_set vms tbl index (PTE_V e OR PTE_U e OR PTE_A e OR PTE_D e OR
              ucast (drop_bit 2 new_page AND NOT (push_bit 10 1 - 1))) m;
            add_entry_loop e vms page_buffer level virtual physical (current_level - 1) new_page (st\<lparr>mem := m\<rparr>) }
          else add_entry_loop e vms page_buffer level virtual physical (current_level - 1) (pte AND NOT 0xfff) st })"
  by pat_completeness auto

termination
  by (relation "measure (\<lambda>(e, vms, page_buffer, level, virtual, physical, current_level, tbl, st). current_level)") auto

declare add_entry_loop.simps [simp del]

definition add_entry ::
  "encoding \<Rightarrow> virtual_memory_system \<Rightarrow> u32 \<Rightarrow> u32 \<Rightarrow> nat \<Rightarrow> u64 \<Rightarrow> u64 \<Rightarrow> paging \<Rightarrow> paging option" where
  "add_entry e vms page_buffer tbl level virtual physical st =
    add_entry_loop e vms page_buffer level virtual physical (levels vms - 1) tbl st"

section \<open>main\<close>

text \<open>
  The hardware: \<open>translate m satp a\<close> is the physical address that an access to \<open>a\<close> goes to, and
  \<open>satp_write v\<close> the value \<open>satp\<close> holds after a write of \<open>v\<close>.
\<close>

definition store32 :: "(memory \<Rightarrow> u32 \<Rightarrow> u32 \<Rightarrow> u32 option) \<Rightarrow> u32 \<Rightarrow> u32 \<Rightarrow> u32 \<Rightarrow> memory \<Rightarrow> memory option" where
  "store32 translate satp a v m = map_option (\<lambda>p. wr32 m p v) (translate m satp a)"

definition load32 :: "(memory \<Rightarrow> u32 \<Rightarrow> u32 \<Rightarrow> u32 option) \<Rightarrow> u32 \<Rightarrow> u32 \<Rightarrow> memory \<Rightarrow> u32 option" where
  "load32 translate satp a m = map_option (rd32 m) (translate m satp a)"

text \<open>The address \<open>virtual\<close> of the page \<open>physical\<close>.\<close>

definition virtual_of :: "virtual_memory_system \<Rightarrow> u32 \<Rightarrow> u32" where
  "virtual_of vms physical = (
     let virtual = physical XOR push_bit (vaddr_bits vms - 4) 0xf
     in if vaddr_bits vms < 32 \<and> virtual AND push_bit (vaddr_bits vms - 1) 1 \<noteq> 0
        then virtual OR NOT (push_bit (vaddr_bits vms) 1 - 1) else virtual)"

text \<open>
  \<open>main\<close> up to the label \<open>active\<close>, after which it loops: the tables, then \<open>satp\<close>, then the accesses
  through both addresses. A failed \<open>assert\<close>, \<open>error()\<close> and a page fault are \<open>None\<close>.
\<close>

definition build_tables :: "encoding \<Rightarrow> virtual_memory_system \<Rightarrow> u32 \<Rightarrow> paging \<Rightarrow> (u32 \<times> u32 \<times> u32 \<times> paging) option" where
  "build_tables e vms page_buffer st = do {
     (master_table, st) \<leftarrow> get_page page_buffer st;
     m \<leftarrow> setup_page_table e vms master_table (levels vms - 1) 0 (mem st);
     (physical, st) \<leftarrow> get_page page_buffer (st\<lparr>mem := m\<rparr>);
     let virtual = virtual_of vms physical;
     st \<leftarrow> add_entry e vms page_buffer master_table 0 (ucast virtual) (ucast physical) st;
     Some (master_table, physical, virtual, st) }"

definition enable_satp :: "encoding \<Rightarrow> virtual_memory_system \<Rightarrow> (u32 \<Rightarrow> u32) \<Rightarrow> u32 \<Rightarrow> u32 option" where
  "enable_satp e vms satp_write master_table = (
     let satp = set_field 0 (SATP_MODE e) (mode vms);
         satp = set_field satp (SATP_PPN e) (drop_bit 12 master_table);
         satp = satp_write satp
     in if get_field satp (SATP_MODE e) \<noteq> mode vms then None else Some satp)"

definition check_pages :: "(memory \<Rightarrow> u32 \<Rightarrow> u32 \<Rightarrow> u32 option) \<Rightarrow> u32 \<Rightarrow> u32 \<Rightarrow> u32 \<Rightarrow> memory \<Rightarrow> memory option" where
  "check_pages translate satp physical virtual m = do {
     m \<leftarrow> store32 translate satp physical 0xdeadbeef m;
     v \<leftarrow> load32 translate satp virtual m;
     p \<leftarrow> load32 translate satp physical m;
     if v \<noteq> p then None else do {
       m \<leftarrow> store32 translate satp (virtual + 4) 0x55667788 m;
       v \<leftarrow> load32 translate satp (virtual + 4) m;
       p \<leftarrow> load32 translate satp (physical + 4) m;
       if v \<noteq> p then None else Some m } }"

definition translate_main ::
  "encoding \<Rightarrow> virtual_memory_system \<Rightarrow> (memory \<Rightarrow> u32 \<Rightarrow> u32 \<Rightarrow> u32 option) \<Rightarrow> (u32 \<Rightarrow> u32) \<Rightarrow> u32 \<Rightarrow> u32 \<Rightarrow> paging \<Rightarrow>
    (u32 \<times> u32 \<times> u32 \<times> u32 \<times> memory) option" where
  "translate_main e vms translate satp_write page_buffer mstatus st = do {
     (master_table, physical, virtual, st) \<leftarrow> build_tables e vms page_buffer st;
     satp \<leftarrow> enable_satp e vms satp_write master_table;
     let mstatus = mstatus OR MSTATUS_MPRV e;
     m \<leftarrow> check_pages translate satp physical virtual (mem st);
     Some (satp, physical, virtual, mstatus, m) }"

section \<open>Sv32\<close>

text \<open>
  The translation of the architecture for accesses that need read and write: bit 31 of \<open>satp\<close> turns
  it on, the low 22 bits are the page of the root table. Physical addresses have 34 bits; those
  beyond the 32 bits of the memory fault. The accessed and dirty bits must be set.
\<close>

definition pte_ok :: "u32 \<Rightarrow> bool" where
  "pte_ok pte \<longleftrightarrow> bit pte 0 \<and> (bit pte 2 \<longrightarrow> bit pte 1)"

definition pte_leaf :: "u32 \<Rightarrow> bool" where
  "pte_leaf pte \<longleftrightarrow> bit pte 1 \<or> bit pte 3"

definition pte_allows :: "u32 \<Rightarrow> bool" where
  "pte_allows pte \<longleftrightarrow> bit pte 1 \<and> bit pte 2 \<and> bit pte 4 \<and> bit pte 6 \<and> bit pte 7"

definition frame_address :: "u32 \<Rightarrow> nat \<Rightarrow> u32 \<Rightarrow> u32 option" where
  "frame_address pte offset_bits a =
    (if drop_bit 30 pte \<noteq> 0 \<or> take_bit (offset_bits - 12) (drop_bit 10 pte) \<noteq> 0 then None
     else Some (push_bit 12 (drop_bit 10 pte) OR take_bit offset_bits a))"

definition sv32_translate :: "memory \<Rightarrow> u32 \<Rightarrow> u32 \<Rightarrow> u32 option" where
  "sv32_translate m satp a =
    (if \<not> bit satp 31 then Some a
     else
       let root = push_bit 12 satp;
           pte = rd32 m (root + 4 * drop_bit 22 a)
       in if \<not> pte_ok pte then None
          else if pte_leaf pte then (if pte_allows pte then frame_address pte 22 a else None)
          else
            let pte = rd32 m (push_bit 12 (drop_bit 10 pte) + 4 * take_bit 10 (drop_bit 12 a))
            in if \<not> pte_ok pte \<or> \<not> pte_leaf pte \<or> \<not> pte_allows pte then None else frame_address pte 12 a)"

section \<open>The tables in memory\<close>

text \<open>Entries as 32-bit words: a leaf for index \<open>i\<close> of either table, the pointer to a table, the page.\<close>

definition leaf1 :: "u32 \<Rightarrow> u32" where
  "leaf1 i = 0xDF OR push_bit 20 i"

definition leaf0 :: "u32 \<Rightarrow> u32 \<Rightarrow> u32" where
  "leaf0 v i = 0xDF OR push_bit 20 (take_bit 10 (drop_bit 20 v)) OR push_bit 10 i"

definition pointer :: "nat \<Rightarrow> u32" where
  "pointer P = 0xD1 OR push_bit 10 (of_nat P)"

definition leafP :: "nat \<Rightarrow> u32" where
  "leafP P = 0xDF OR push_bit 10 (of_nat P)"

abbreviation pages :: nat where "pages \<equiv> 1048576"

lemma page_address: "adr (1024 * P) = push_bit 12 (of_nat P)"
  by (simp add: adr_def push_bit_eq_mult)

lemma slot: "adr (1024 * P) + 4 * i = adr (1024 * P + unat i)"
  by (simp add: adr_def)

lemma page_bits: "P < pages \<Longrightarrow> bit (of_nat P :: u32) n \<Longrightarrow> n < 20"
proof -
  assume P: "P < pages" "bit (of_nat P :: u32) n"
  have "take_bit 20 (of_nat P :: u32) = of_nat (take_bit 20 P)" by (rule of_nat_take_bit[symmetric])
  also have "take_bit 20 P = P" using P(1) by (intro take_bit_nat_eq_self) simp
  finally have "bit (take_bit 20 (of_nat P :: u32)) n" using P(2) by (simp only:)
  then show "n < 20" unfolding bit_take_bit_iff by simp
qed

lemma setup_table:
  assumes "\<And>i. \<exists>v. table_pte e (sv32 e) level physical i = Some v \<and> ucast v = leaf i"
    and "1024 * P + 1024 \<le> words"
  shows "\<exists>m'. setup_page_table e (sv32 e) (adr (1024 * P)) level physical m = Some m' \<and>
    (\<forall>k < words. rd32 m' (adr k) =
      (if 1024 * P \<le> k \<and> k < 1024 * P + 1024 then leaf (of_nat (k - 1024 * P)) else rd32 m (adr k)))"
proof -
  let ?I = "\<lambda>i m'. \<forall>k < words. rd32 m' (adr k) =
      (if 1024 * P \<le> k \<and> k < 1024 * P + i then leaf (of_nat (k - 1024 * P)) else rd32 m (adr k))"
  have "\<exists>m'. for_range 0 1024 (\<lambda>i m. do {
      v \<leftarrow> table_pte e (sv32 e) level physical (of_nat i);
      entry_set (sv32 e) (adr (1024 * P)) (of_nat i) v m }) m = Some m' \<and> ?I 1024 m'"
  proof (rule for_range_invariant[where P = ?I])
    fix i m1 assume i: "i < 1024" and I: "?I i m1"
    let ?k = "1024 * P + i"
    have k: "?k < words" using i assms(2) by simp
    obtain pte where pte: "table_pte e (sv32 e) level physical (of_nat i) = Some pte" "ucast pte = leaf (of_nat i)"
      using assms(1) by blast
    have "entry_set (sv32 e) (adr (1024 * P)) (of_nat i) pte m1 = Some (wr32 m1 (adr ?k) (leaf (of_nat i)))"
      by (simp add: entry_set_def sv32_def adr_def pte(2))
    moreover have "?I (i + 1) (wr32 m1 (adr ?k) (leaf (of_nat i)))"
    proof (intro allI impI)
      fix k' assume k': "k' < words"
      show "rd32 (wr32 m1 (adr ?k) (leaf (of_nat i))) (adr k') =
        (if 1024 * P \<le> k' \<and> k' < 1024 * P + (i + 1) then leaf (of_nat (k' - 1024 * P)) else rd32 m (adr k'))"
        using I k k' rd32_wr32_other[OF k' k] by (cases "k' = ?k") (auto simp: rd32_wr32_same)
    qed
    ultimately show "\<exists>m'. do {
        v \<leftarrow> table_pte e (sv32 e) level physical (of_nat i);
        entry_set (sv32 e) (adr (1024 * P)) (of_nat i) v m1 } = Some m' \<and> ?I (i + 1) m'"
      using pte(1) by simp
  qed auto
  then show ?thesis by (simp add: setup_page_table_def sv32_def)
qed

abbreviation enc where "enc \<equiv> riscv_encoding"

lemma leaf_bits_enc: "leaf_bits enc = 0xDF"
  by (simp add: leaf_bits_def riscv_encoding_def)

lemma table_pte_1: "\<exists>v. table_pte enc (sv32 enc) 1 0 i = Some v \<and> ucast v = leaf1 i"
proof -
  have "ucast (0xDF OR ucast (push_bit 20 i) :: u64) = leaf1 i"
    unfolding leaf1_def by (rule bit_word_eqI) (auto simp: bit_simps simp del: push_bit_numeral)
  then show ?thesis unfolding table_pte_def leaf_bits_enc by (simp add: riscv_encoding_def sv32_def)
qed

lemma table_pte_0: "\<exists>w. table_pte enc (sv32 enc) 0 (ucast v) i = Some w \<and> ucast w = leaf0 v i"
proof -
  have m: "0x3FF00000 = push_bit 20 (mask 10 :: u64)" by (simp add: mask_eq_exp_minus_1)
  have "ucast (0xDF OR (ucast v AND 0x3FF00000) OR ucast (push_bit 10 i) :: u64) = leaf0 v i"
    unfolding leaf0_def m
    by (rule bit_word_eqI) (auto simp: bit_simps)
  then show ?thesis unfolding table_pte_def leaf_bits_enc by (simp add: riscv_encoding_def sv32_def or.assoc)
qed

definition maps :: "memory \<Rightarrow> nat \<Rightarrow> u32 \<Rightarrow> nat \<Rightarrow> bool" where
  "maps m P v Q \<longleftrightarrow>
     (\<forall>i. rd32 m (adr (1024 * P + unat (take_bit 10 i))) =
        (if take_bit 10 i = drop_bit 22 v then pointer (P + 2) else leaf1 (take_bit 10 i))) \<and>
     (\<forall>i. rd32 m (adr (1024 * (P + 2) + unat (take_bit 10 i))) =
        (if take_bit 10 i = take_bit 10 (drop_bit 12 v) then leafP Q else leaf0 v (take_bit 10 i)))"

lemma page_bits_nat: "P < pages \<Longrightarrow> bit P n \<Longrightarrow> n < 20"
proof -
  assume P: "P < pages" "bit P n"
  have "take_bit 20 P = P" using P(1) by (intro take_bit_nat_eq_self) simp
  then have "bit (take_bit 20 P) n" using P(2) by simp
  then show "n < 20" unfolding bit_take_bit_iff by simp
qed

lemma flag_bits: "bit (0xDF :: u32) n \<Longrightarrow> n < 8" "bit (0xD1 :: u32) n \<Longrightarrow> n < 8"
proof -
  have "(0xDF :: u32) = take_bit 8 0xDF" "(0xD1 :: u32) = take_bit 8 0xD1" by simp_all
  then show "bit (0xDF :: u32) n \<Longrightarrow> n < 8" "bit (0xD1 :: u32) n \<Longrightarrow> n < 8" by (metis bit_take_bit_iff)+
qed

lemma pte_leaf1: "pte_ok (leaf1 i)" "pte_leaf (leaf1 i)" "pte_allows (leaf1 i)"
  by (simp_all add: pte_ok_def pte_leaf_def pte_allows_def leaf1_def bit_simps)

lemma pte_leaf0: "pte_ok (leaf0 v i)" "pte_leaf (leaf0 v i)" "pte_allows (leaf0 v i)"
  by (simp_all add: pte_ok_def pte_leaf_def pte_allows_def leaf0_def bit_simps)

lemma pte_leafP: "pte_ok (leafP P)" "pte_leaf (leafP P)" "pte_allows (leafP P)"
  by (simp_all add: pte_ok_def pte_leaf_def pte_allows_def leafP_def bit_simps)

lemma pte_pointer: "pte_ok (pointer P)" "\<not> pte_leaf (pointer P)"
  by (simp_all add: pte_ok_def pte_leaf_def pointer_def bit_simps)

lemma frame_leaf1: "frame_address (leaf1 (drop_bit 22 a)) 22 a = Some a"
proof -
  let ?p = "leaf1 (drop_bit 22 a)"
  have d: "drop_bit 30 ?p = 0" unfolding leaf1_def by (rule bit_word_eqI) (auto simp: bit_simps dest: bit_imp_le_length)
  have t: "take_bit 10 (drop_bit 10 ?p) = 0" unfolding leaf1_def by (rule bit_word_eqI) (auto simp: bit_simps)
  have "push_bit 12 (drop_bit 10 ?p) OR take_bit 22 a = a"
    unfolding leaf1_def by (rule bit_word_eqI) (auto simp: bit_simps)
  then show ?thesis using d t by (simp add: frame_address_def)
qed

lemma frame_leaf0:
  "frame_address (leaf0 v (take_bit 10 (drop_bit 12 a))) 12 a = Some (push_bit 22 (take_bit 10 (drop_bit 20 v)) OR take_bit 22 a)"
proof -
  let ?i = "take_bit 10 (drop_bit 12 a)" and ?b = "take_bit 10 (drop_bit 20 v)"
  have p: "drop_bit 10 (leaf0 v ?i) = push_bit 10 ?b OR ?i"
    unfolding leaf0_def by (rule bit_word_eqI) (auto simp: bit_simps dest: flag_bits bit_imp_le_length)
  have "drop_bit 30 (leaf0 v ?i) = drop_bit 20 (drop_bit 10 (leaf0 v ?i))" by simp
  also have "\<dots> = 0" unfolding p by (rule bit_word_eqI) (auto simp: bit_simps)
  finally have d: "drop_bit 30 (leaf0 v ?i) = 0" .
  have "push_bit 12 (push_bit 10 ?b OR ?i) OR take_bit 12 a = push_bit 22 ?b OR take_bit 22 a"
    by (rule bit_word_eqI) (auto simp: bit_simps)
  then show ?thesis using d by (simp add: frame_address_def p)
qed

lemma frame_leafP: "Q < pages \<Longrightarrow> frame_address (leafP Q) 12 a = Some (push_bit 12 (of_nat Q) OR take_bit 12 a)"
proof -
  assume Q: "Q < pages"
  have p: "drop_bit 10 (leafP Q) = of_nat Q"
    unfolding leafP_def by (rule bit_word_eqI) (auto simp: bit_simps dest: flag_bits page_bits_nat[OF Q])
  have "drop_bit 30 (leafP Q) = drop_bit 20 (drop_bit 10 (leafP Q))" by simp
  also have "\<dots> = 0" unfolding p by (rule bit_word_eqI) (auto simp: bit_simps dest: page_bits_nat[OF Q])
  finally show ?thesis by (simp add: frame_address_def p)
qed

lemma pointer_address: "Q < pages \<Longrightarrow> push_bit 12 (drop_bit 10 (pointer Q)) = adr (1024 * Q)"
proof -
  assume Q: "Q < pages"
  have "drop_bit 10 (pointer Q) = of_nat Q"
    unfolding pointer_def by (rule bit_word_eqI) (auto simp: bit_simps dest: flag_bits page_bits_nat[OF Q])
  then show ?thesis by (simp only: page_address)
qed

definition satp_of :: "nat \<Rightarrow> u32" where
  "satp_of P = push_bit 31 1 OR of_nat P"

lemma satp_bits: "bit (satp_of P) 31" "push_bit 12 (satp_of P) = adr (1024 * P)"
proof -
  show "bit (satp_of P) 31" unfolding satp_of_def bit_or_iff bit_push_bit_iff by simp
  show "push_bit 12 (satp_of P) = adr (1024 * P)"
    unfolding satp_of_def page_address push_bit_or push_bit_push_bit by (rule bit_word_eqI) (simp only: bit_or_iff bit_push_bit_iff, simp)
qed

lemma take_drop: "take_bit 10 (drop_bit 22 a) = drop_bit 22 a" "drop_bit 12 a = drop_bit 12 v \<longleftrightarrow>
    drop_bit 22 a = drop_bit 22 v \<and> take_bit 10 (drop_bit 12 a) = take_bit 10 (drop_bit 12 v)" for a v :: u32
proof -
  show "take_bit 10 (drop_bit 22 a) = drop_bit 22 a"
    by (rule bit_word_eqI) (auto simp: bit_simps dest: bit_imp_le_length)
  have "drop_bit 12 x = push_bit 10 (drop_bit 22 x) OR take_bit 10 (drop_bit 12 x)" for x :: u32
    by (rule bit_word_eqI) (auto simp: bit_simps add.commute dest: bit_imp_le_length)
  moreover have "drop_bit 22 x = drop_bit 10 (drop_bit 12 x)" for x :: u32 by simp
  ultimately show "drop_bit 12 a = drop_bit 12 v \<longleftrightarrow>
    drop_bit 22 a = drop_bit 22 v \<and> take_bit 10 (drop_bit 12 a) = take_bit 10 (drop_bit 12 v)" by metis
qed

lemma translated:
  assumes "maps m P v Q" "Q < pages" "P + 2 < pages"
  shows "drop_bit 22 a \<noteq> drop_bit 22 v \<Longrightarrow> sv32_translate m (satp_of P) a = Some a"
    and "drop_bit 12 a = drop_bit 12 v \<Longrightarrow> sv32_translate m (satp_of P) a = Some (push_bit 12 (of_nat Q) OR take_bit 12 a)"
    and "drop_bit 22 a = drop_bit 22 v \<Longrightarrow> drop_bit 12 a \<noteq> drop_bit 12 v \<Longrightarrow>
      sv32_translate m (satp_of P) a = Some (push_bit 22 (take_bit 10 (drop_bit 20 v)) OR take_bit 22 a)"
proof -
  have r: "rd32 m (adr (1024 * P) + 4 * drop_bit 22 a) = (if drop_bit 22 a = drop_bit 22 v then pointer (P + 2) else leaf1 (drop_bit 22 a))"
    using assms(1) unfolding maps_def slot by (metis take_drop(1))
  have s: "rd32 m (adr (1024 * (P + 2)) + 4 * take_bit 10 (drop_bit 12 a)) =
      (if take_bit 10 (drop_bit 12 a) = take_bit 10 (drop_bit 12 v) then leafP Q else leaf0 v (take_bit 10 (drop_bit 12 a)))"
    using assms(1) unfolding maps_def slot by blast
  note walk = sv32_translate_def Let_def satp_bits(2) r
  show "sv32_translate m (satp_of P) a = Some a" if "drop_bit 22 a \<noteq> drop_bit 22 v"
    unfolding walk using that by (simp add: satp_bits(1) pte_leaf1 frame_leaf1)
  have w: "sv32_translate m (satp_of P) a =
      (if take_bit 10 (drop_bit 12 a) = take_bit 10 (drop_bit 12 v) then frame_address (leafP Q) 12 a
       else frame_address (leaf0 v (take_bit 10 (drop_bit 12 a))) 12 a)" if "drop_bit 22 a = drop_bit 22 v"
    unfolding walk if_P[OF that] pointer_address[OF assms(3)] s by (simp add: satp_bits(1) pte_pointer pte_leafP pte_leaf0)
  show "sv32_translate m (satp_of P) a = Some (push_bit 12 (of_nat Q) OR take_bit 12 a)" if "drop_bit 12 a = drop_bit 12 v"
    using w that frame_leafP[OF assms(2)] unfolding take_drop(2) by simp
  show "sv32_translate m (satp_of P) a = Some (push_bit 22 (take_bit 10 (drop_bit 20 v)) OR take_bit 22 a)"
    if "drop_bit 22 a = drop_bit 22 v" "drop_bit 12 a \<noteq> drop_bit 12 v"
    using w[OF that(1)] that frame_leaf0 unfolding take_drop(2) by simp
qed

section \<open>The program builds the tables\<close>

lemma unat_page: "P < pages \<Longrightarrow> unat (adr (1024 * P)) = 4096 * P"
  using unat_adr[of "1024 * P"] by simp

lemma get_page_aligned:
  assumes "unat n + 4095 = 4096 * P + r" "r < 4096" "4096 * P + 4096 < unat B + 32768" "unat B + 32768 < 2 ^ 32"
  shows "get_page B \<lparr>mem = m, page_buffer_next = n\<rparr> = Some (adr (1024 * P), \<lparr>mem = m, page_buffer_next = adr (1024 * (P + 1))\<rparr>)"
proof -
  have s: "unat (n + 4095) = 4096 * P + r"
    using assms by (simp add: unat_word_ariths)
  have m12: "(mask 12 :: u32) = 0xfff" by (simp add: mask_eq_exp_minus_1)
  have "unat ((n + 4095) AND NOT (mask 12)) = 4096 * P"
    unfolding unat_align_down s using assms(2) by simp
  then have "unat ((n + 4095) AND NOT 0xfff) = 4096 * P" using m12 by (simp only:)
  then have p: "(n + 4095) AND NOT 0xfff = adr (1024 * P)"
    using unat_page[of P] assms(3,4) by (intro word_unat_eq_iff[THEN iffD2]) simp
  have q: "adr (1024 * P) + 4096 = adr (1024 * (P + 1))" by (simp add: adr_def algebra_simps)
  have "unat (adr (1024 * (P + 1))) = 4096 * (P + 1)" by (rule unat_page) (use assms(3,4) in simp)
  moreover have "unat (B + 32768) = unat B + 32768" using assms(4) by (simp add: unat_word_ariths)
  ultimately have "\<not> B + 32768 \<le> adr (1024 * (P + 1))" using assms(3) by (simp add: word_le_nat_alt)
  then show ?thesis unfolding get_page_def Let_def paging.select_convs p q by simp
qed

lemma setup_master:
  assumes "P < pages"
  shows "\<exists>m'. setup_page_table enc (sv32 enc) (adr (1024 * P)) 1 0 m = Some m' \<and>
    (\<forall>k < words. rd32 m' (adr k) = (if 1024 * P \<le> k \<and> k < 1024 * P + 1024 then leaf1 (of_nat (k - 1024 * P)) else rd32 m (adr k)))"
  by (rule setup_table[OF table_pte_1]) (use assms in simp)

lemma setup_lower:
  assumes "P < pages"
  shows "\<exists>m'. setup_page_table enc (sv32 enc) (adr (1024 * P)) 0 (ucast v) m = Some m' \<and>
    (\<forall>k < words. rd32 m' (adr k) = (if 1024 * P \<le> k \<and> k < 1024 * P + 1024 then leaf0 v (of_nat (k - 1024 * P)) else rd32 m (adr k)))"
  by (rule setup_table[OF table_pte_0]) (use assms in simp)

lemma vpn_sv32: "vpn (sv32 enc) (ucast v) 1 = drop_bit 22 v" "vpn (sv32 enc) (ucast v) 0 = take_bit 10 (drop_bit 12 v)" for v :: u32
proof -
  have m: "(push_bit 10 1 - 1 :: u64) = mask 10" by (simp add: mask_eq_exp_minus_1 push_bit_eq_mult)
  have w: "vpn_width_bits (sv32 enc) = 10" by (simp add: sv32_def)
  show "vpn (sv32 enc) (ucast v) 1 = drop_bit 22 v"
    unfolding vpn_def w m by (rule bit_word_eqI) (auto simp: bit_simps dest: bit_imp_le_length)
  show "vpn (sv32 enc) (ucast v) 0 = take_bit 10 (drop_bit 12 v)"
    unfolding vpn_def w m by (rule bit_word_eqI) (auto simp: bit_simps dest: bit_imp_le_length)
qed

lemma entry_sv32: "entry (sv32 enc) m (adr (1024 * P)) i = Some (rd32 m (adr (1024 * P + unat i)))"
  unfolding slot[symmetric] by (simp add: entry_def sv32_def)

lemma entry_set_sv32: "entry_set (sv32 enc) (adr (1024 * P)) i v m = Some (wr32 m (adr (1024 * P + unat i)) (ucast v))"
  unfolding slot[symmetric] by (simp add: entry_set_def sv32_def)

lemma leaf_readable:
  "\<not> (ucast (leaf1 i) AND PTE_V enc = 0 \<or> False)" "ucast (leaf1 i) AND PTE_R enc \<noteq> 0" "ucast (leaf1 i) AND PTE_W enc \<noteq> 0"
proof -
  have b: "x AND push_bit n 1 \<noteq> 0" if "bit x n" "n < 64" for x :: u64 and n
    using that by (simp add: bit_eq_iff bit_simps) blast
  have l: "bit (ucast (leaf1 i) :: u64) n" if "n < 8" "bit (0xDF :: u32) n" for n
    using that by (simp add: leaf1_def bit_simps)
  show "\<not> (ucast (leaf1 i) AND PTE_V enc = 0 \<or> False)" "ucast (leaf1 i) AND PTE_R enc \<noteq> 0" "ucast (leaf1 i) AND PTE_W enc \<noteq> 0"
    using b[of "ucast (leaf1 i)" 0] b[of "ucast (leaf1 i)" 1] b[of "ucast (leaf1 i)" 2] l[of 0] l[of 1] l[of 2]
    by (simp_all add: riscv_encoding_def)
qed

lemma pointer_word: "Q < pages \<Longrightarrow> ucast (PTE_V enc OR PTE_U enc OR PTE_A enc OR PTE_D enc OR
    ucast (drop_bit 2 (adr (1024 * Q)) AND NOT (push_bit 10 1 - 1)) :: u64) = pointer Q"
proof -
  assume Q: "Q < pages"
  have m: "(push_bit 10 1 - 1 :: u32) = mask 10" by (simp add: mask_eq_exp_minus_1 push_bit_eq_mult)
  have f: "PTE_V enc OR PTE_U enc OR PTE_A enc OR PTE_D enc = 0xD1" by (simp add: riscv_encoding_def)
  have "drop_bit 2 (adr (1024 * Q)) AND NOT (mask 10) = push_bit 10 (of_nat Q)"
    unfolding page_address by (rule bit_word_eqI) (auto simp: bit_simps dest: page_bits_nat[OF Q])
  then have "ucast (0xD1 OR ucast (drop_bit 2 (adr (1024 * Q)) AND NOT (mask 10)) :: u64) = pointer Q"
    unfolding pointer_def by (simp only:) (rule bit_word_eqI, auto simp: bit_simps)
  then show ?thesis unfolding m f[symmetric] by (simp add: or.assoc)
qed

lemma page_word: "Q < pages \<Longrightarrow>
    ucast (leaf_bits enc OR (drop_bit 2 (ucast (adr (1024 * Q))) AND NOT (push_bit (PTE_PPN_SHIFT enc + 0 * vpn_width_bits (sv32 enc)) 1 - 1)) :: u64) = leafP Q"
proof -
  assume Q: "Q < pages"
  have m: "(push_bit 10 1 - 1 :: u64) = mask 10" by (simp add: mask_eq_exp_minus_1 push_bit_eq_mult)
  have "ucast (0xDF OR (drop_bit 2 (ucast (adr (1024 * Q))) AND NOT (mask 10)) :: u64) = leafP Q"
    unfolding leafP_def page_address by (rule bit_word_eqI) (auto simp: bit_simps dest: page_bits_nat[OF Q])
  moreover have "PTE_PPN_SHIFT enc = 10" by (simp add: riscv_encoding_def)
  ultimately show ?thesis unfolding leaf_bits_enc using m by (simp only: mult_zero_left add_0_right)
qed

lemma small_index: "unat (take_bit 10 x) < 1024" "unat (drop_bit 22 x) < 1024" for x :: u32
proof -
  show t: "unat (take_bit 10 x) < 1024" for x :: u32
    using take_bit_nat_less_exp[of 10 "unat x"] by (simp add: unsigned_take_bit_eq)
  show "unat (drop_bit 22 x) < 1024" using t[of "drop_bit 22 x"] unfolding take_drop(1) .
qed

lemma add_entry_tables:
  assumes "P + 3 \<le> pages" "4096 * (P + 3) < unat B + 32768" "unat B + 32768 < 2 ^ 32"
    and "\<And>k. k < 1024 \<Longrightarrow> rd32 m (adr (1024 * P + k)) = leaf1 (of_nat k)"
  shows "\<exists>m'. add_entry enc (sv32 enc) B (adr (1024 * P)) 0 (ucast v) (ucast (adr (1024 * (P + 1))))
      \<lparr>mem = m, page_buffer_next = adr (1024 * (P + 2))\<rparr> = Some \<lparr>mem = m', page_buffer_next = adr (1024 * (P + 3))\<rparr> \<and>
    maps m' P v (P + 1)"
proof -
  let ?i = "drop_bit 22 v" and ?j = "take_bit 10 (drop_bit 12 v)"
  note small = small_index(2)[of v] small_index(1)
  obtain m1 where m1: "setup_page_table enc (sv32 enc) (adr (1024 * (P + 2))) 0 (ucast v) m = Some m1"
    "\<forall>k < words. rd32 m1 (adr k) = (if 1024 * (P + 2) \<le> k \<and> k < 1024 * (P + 2) + 1024 then leaf0 v (of_nat (k - 1024 * (P + 2))) else rd32 m (adr k))"
    using setup_lower[of "P + 2" v m] assms(1) by auto
  let ?a = "1024 * P + unat ?i" and ?b = "1024 * (P + 2) + unat ?j"
  let ?m2 = "wr32 m1 (adr ?a) (pointer (P + 2))"
  let ?m3 = "wr32 ?m2 (adr ?b) (leafP (P + 1))"
  have g: "get_page B \<lparr>mem = m, page_buffer_next = adr (1024 * (P + 2))\<rparr> =
      Some (adr (1024 * (P + 2)), \<lparr>mem = m, page_buffer_next = adr (1024 * (P + 3))\<rparr>)"
    using get_page_aligned[of "adr (1024 * (P + 2))" "P + 2" 4095 B m] unat_page[of "P + 2"] assms(1-3)
    by (simp add: numeral_3_eq_3)
  have p: "rd32 m (adr ?a) = leaf1 ?i" using assms(4)[OF small(1)] by simp
  have w: "PTE_PPN_SHIFT enc + 0 * vpn_width_bits (sv32 enc) = 10" "levels (sv32 enc) - 1 = 1"
    by (simp_all add: riscv_encoding_def sv32_def)
  have s0: "add_entry_loop enc (sv32 enc) B 0 (ucast v) (ucast (adr (1024 * (P + 1)))) 0 (adr (1024 * (P + 2)))
      \<lparr>mem = ?m2, page_buffer_next = adr (1024 * (P + 3))\<rparr> = Some \<lparr>mem = ?m3, page_buffer_next = adr (1024 * (P + 3))\<rparr>"
    unfolding add_entry_loop.simps[of enc "sv32 enc" B 0 _ _ 0] Let_def vpn_sv32 entry_set_sv32
    using page_word[of "P + 1"] assms(1) by simp
  have "add_entry_loop enc (sv32 enc) B 0 (ucast v) (ucast (adr (1024 * (P + 1)))) 1 (adr (1024 * P))
      \<lparr>mem = m, page_buffer_next = adr (1024 * (P + 2))\<rparr> = Some \<lparr>mem = ?m3, page_buffer_next = adr (1024 * (P + 3))\<rparr>"
    unfolding add_entry_loop.simps[of enc "sv32 enc" B 0 _ _ 1] Let_def vpn_sv32 entry_sv32 paging.select_convs p
    using leaf_readable[of ?i] g m1(1) s0 pointer_word[of "P + 2"] assms(1) by (simp add: entry_set_sv32)
  then have "add_entry enc (sv32 enc) B (adr (1024 * P)) 0 (ucast v) (ucast (adr (1024 * (P + 1))))
      \<lparr>mem = m, page_buffer_next = adr (1024 * (P + 2))\<rparr> = Some \<lparr>mem = ?m3, page_buffer_next = adr (1024 * (P + 3))\<rparr>"
    unfolding add_entry_def w(2) .
  moreover have "maps ?m3 P v (P + 1)"
    unfolding maps_def
  proof (intro conjI allI)
    fix x :: u32
    let ?k = "1024 * P + unat (take_bit 10 x)"
    have k: "?k < words" "?k \<noteq> ?b" "?b < words" "?a < words" using small(2)[of x] small(2)[of "drop_bit 12 v"] small(1) assms(1) by simp_all
    have "rd32 ?m3 (adr ?k) = rd32 ?m2 (adr ?k)" by (rule rd32_wr32_other[OF k(1,3,2)])
    also have "\<dots> = (if ?k = ?a then pointer (P + 2) else rd32 m1 (adr ?k))"
      using rd32_wr32_other[OF k(1,4)] by (auto simp: rd32_wr32_same)
    also have "rd32 m1 (adr ?k) = leaf1 (take_bit 10 x)"
      using m1(2) k(1) assms(4)[OF small(2)[of x]] small(2)[of x] by simp
    also have "?k = ?a \<longleftrightarrow> take_bit 10 x = ?i" by (simp add: word_unat_eq_iff)
    finally show "rd32 ?m3 (adr ?k) = (if take_bit 10 x = ?i then pointer (P + 2) else leaf1 (take_bit 10 x))" .
  next
    fix x :: u32
    let ?k = "1024 * (P + 2) + unat (take_bit 10 x)"
    have k: "?k < words" "?k \<noteq> ?a" "?b < words" "?a < words" using small(2)[of x] small(2)[of "drop_bit 12 v"] small(1) assms(1) by simp_all
    have "rd32 ?m3 (adr ?k) = (if ?k = ?b then leafP (P + 1) else rd32 ?m2 (adr ?k))"
      using rd32_wr32_other[OF k(1,3)] by (auto simp: rd32_wr32_same)
    also have "rd32 ?m2 (adr ?k) = rd32 m1 (adr ?k)" by (rule rd32_wr32_other[OF k(1,4,2)])
    also have "rd32 m1 (adr ?k) = leaf0 v (take_bit 10 x)" using m1(2) k(1) small(2)[of x] by simp
    also have "?k = ?b \<longleftrightarrow> take_bit 10 x = ?j" by (simp add: word_unat_eq_iff)
    finally show "rd32 ?m3 (adr ?k) = (if take_bit 10 x = ?j then leafP (P + 1) else leaf0 v (take_bit 10 x))" .
  qed
  ultimately show ?thesis by blast
qed

lemma virtual_sv32: "virtual_of (sv32 enc) a = a XOR 0xF0000000"
  by (simp add: virtual_of_def sv32_def)

lemma build_tables_maps:
  assumes "unat B + 32768 < 2 ^ 32"
  defines "P \<equiv> (unat B + 4095) div 4096"
  defines "phys \<equiv> adr (1024 * (P + 1))"
  shows "\<exists>m' n. build_tables enc (sv32 enc) B \<lparr>mem = m, page_buffer_next = B\<rparr> =
      Some (adr (1024 * P), phys, phys XOR 0xF0000000, \<lparr>mem = m', page_buffer_next = n\<rparr>) \<and>
    maps m' P (phys XOR 0xF0000000) (P + 1) \<and> P + 3 \<le> pages"
proof -
  let ?v = "phys XOR 0xF0000000"
  have d: "unat B + 4095 = 4096 * P + (unat B + 4095) mod 4096" unfolding P_def by simp
  then have P: "4096 * P \<le> unat B + 4095" by linarith
  then have b: "P + 3 \<le> pages" "4096 * (P + 3) < unat B + 32768" using assms(1) by simp_all
  have g1: "get_page B \<lparr>mem = m, page_buffer_next = B\<rparr> = Some (adr (1024 * P), \<lparr>mem = m, page_buffer_next = adr (1024 * (P + 1))\<rparr>)"
    by (rule get_page_aligned[OF d _ _ assms(1)]) (use b in simp_all)
  obtain m1 where m1: "setup_page_table enc (sv32 enc) (adr (1024 * P)) 1 0 m = Some m1"
    "\<forall>k < words. rd32 m1 (adr k) = (if 1024 * P \<le> k \<and> k < 1024 * P + 1024 then leaf1 (of_nat (k - 1024 * P)) else rd32 m (adr k))"
    using setup_master[of P m] b(1) by auto
  have g2: "get_page B \<lparr>mem = m1, page_buffer_next = adr (1024 * (P + 1))\<rparr> = Some (phys, \<lparr>mem = m1, page_buffer_next = adr (1024 * (P + 2))\<rparr>)"
    using get_page_aligned[of "adr (1024 * (P + 1))" "P + 1" 4095 B m1] unat_page[of "P + 1"] b assms(1) by (simp add: phys_def numeral_2_eq_2)
  have l: "rd32 m1 (adr (1024 * P + k)) = leaf1 (of_nat k)" if "k < 1024" for k using m1(2) that b(1) by simp
  obtain m2 where m2: "add_entry enc (sv32 enc) B (adr (1024 * P)) 0 (ucast ?v) (ucast phys)
      \<lparr>mem = m1, page_buffer_next = adr (1024 * (P + 2))\<rparr> = Some \<lparr>mem = m2, page_buffer_next = adr (1024 * (P + 3))\<rparr>"
      "maps m2 P ?v (P + 1)"
    using add_entry_tables[OF b assms(1) l, of ?v] unfolding phys_def by blast
  have lv: "levels (sv32 enc) - 1 = 1" by (simp add: sv32_def)
  have "build_tables enc (sv32 enc) B \<lparr>mem = m, page_buffer_next = B\<rparr> =
      Some (adr (1024 * P), phys, ?v, \<lparr>mem = m2, page_buffer_next = adr (1024 * (P + 3))\<rparr>)"
    unfolding build_tables_def lv g1 using m1(1) g2 m2(1) by (simp add: virtual_sv32)
  then show ?thesis using m2(2) b(1) by blast
qed

lemma enable_satp_page:
  assumes "P < pages"
  shows "enable_satp enc (sv32 enc) (\<lambda>v. v) (adr (1024 * P)) = Some (satp_of P)"
proof -
  have m: "(0x003FFFFF :: u32) = mask 22" "(0x80000000 :: u32) = push_bit 31 1" by (simp_all add: mask_eq_exp_minus_1)
  have d: "drop_bit 12 (adr (1024 * P)) = of_nat P"
    unfolding page_address by (rule bit_word_eqI) (auto simp: bit_simps dest: page_bits_nat[OF assms])
  have f1: "set_field 0 0x80000000 1 = 0x80000000" by code_simp
  have f2: "set_field 0x80000000 0x003FFFFF (of_nat P) = satp_of P"
  proof -
    have "(0x003FFFFF :: u32) AND NOT (push_bit 1 0x003FFFFF) = 1" "(0x80000000 :: u32) AND NOT 0x003FFFFF = push_bit 31 1" by code_simp+
    moreover have "of_nat P AND mask 22 = (of_nat P :: u32)"
      by (rule bit_word_eqI) (auto simp: bit_simps dest: page_bits_nat[OF assms])
    ultimately show ?thesis unfolding set_field_def satp_of_def by (simp only: mult_1_right m(1))
  qed
  have f3: "get_field (satp_of P) 0x80000000 = 1"
  proof -
    have "satp_of P AND push_bit 31 1 = push_bit 31 1"
      unfolding satp_of_def by (rule bit_word_eqI) (auto simp: bit_and_iff bit_or_iff)
    moreover have "(push_bit 31 1 :: u32) div (push_bit 31 1 AND NOT (push_bit 1 (push_bit 31 1))) = 1" by code_simp
    ultimately show ?thesis unfolding get_field_def m(2) by (simp only:)
  qed
  show ?thesis
    unfolding enable_satp_def Let_def d
    using f1 f2 f3 by (simp add: riscv_encoding_def sv32_def)
qed

lemma aligned_add:
  "push_bit 12 q + 4 = push_bit 12 q OR 4" "take_bit 12 (push_bit 12 q) = 0"
  "drop_bit 12 (push_bit 12 q + 4) = drop_bit 12 (push_bit 12 q)" "take_bit 12 (push_bit 12 q + 4) = 4"
  for q :: u32
proof -
  have f: "(4 :: u32) = push_bit 2 1" by simp
  have "push_bit 12 q AND push_bit 2 1 = 0" by (rule bit_word_eqI) (auto simp only: bit_simps bit_1_iff, simp_all)
  then have "push_bit 12 q + push_bit 2 1 = push_bit 12 q OR push_bit 2 1" by (rule disjunctive_add_eq_or)
  then show a: "push_bit 12 q + 4 = push_bit 12 q OR 4" unfolding f .
  show z: "take_bit 12 (push_bit 12 q) = 0" by (rule bit_word_eqI) (auto simp: bit_simps)
  show "drop_bit 12 (push_bit 12 q + 4) = drop_bit 12 (push_bit 12 q)" unfolding a drop_bit_or by simp
  show "take_bit 12 (push_bit 12 q + 4) = 4" unfolding a take_bit_or z by simp
qed

lemma drop_22: "drop_bit 22 a = drop_bit 10 (drop_bit 12 a)" for a :: u32
  by simp

lemma maps_write: "maps m P v Q \<Longrightarrow> P + 3 \<le> pages \<Longrightarrow> 1024 * (P + 1) \<le> k \<Longrightarrow> k < 1024 * (P + 2) \<Longrightarrow> maps (wr32 m (adr k) w) P v Q"
proof -
  assume a: "maps m P v Q" "P + 3 \<le> pages" "1024 * (P + 1) \<le> k" "k < 1024 * (P + 2)"
  have r: "rd32 (wr32 m (adr k) w) (adr (1024 * R + unat (take_bit 10 i))) = rd32 m (adr (1024 * R + unat (take_bit 10 i)))"
    if "R = P \<or> R = P + 2" for i :: u32 and R
    by (rule rd32_wr32_other) (use that a small_index(1)[of i] in auto)
  show ?thesis using a(1) unfolding maps_def r[OF disjI1[OF refl]] r[OF disjI2[OF refl]] .
qed

lemma check_pages_ok:
  assumes "maps m P v (P + 1)" "P + 3 \<le> pages"
  defines "phys \<equiv> adr (1024 * (P + 1))"
  assumes "v = phys XOR 0xF0000000"
  shows "\<exists>m'. check_pages sv32_translate (satp_of P) phys v m = Some m' \<and> maps m' P v (P + 1) \<and>
    rd32 m' phys = 0xdeadbeef \<and> rd32 m' (phys + 4) = 0x55667788"
proof -
  let ?k = "1024 * (P + 1)" and ?s = "satp_of P"
  have q: "P + 1 < pages" "P + 2 < pages" using assms(2) by simp_all
  have ph: "phys = push_bit 12 (of_nat (P + 1))" unfolding phys_def page_address ..
  have v: "v = push_bit 12 (of_nat (P + 1) XOR 0xF0000)" unfolding assms(4) ph push_bit_xor by simp
  have ph4: "phys + 4 = adr (?k + 1)" by (simp add: phys_def adr_def)
  have ne: "drop_bit 22 phys \<noteq> drop_bit 22 v"
    unfolding assms(4) drop_bit_xor by (simp add: xor_cancel_left[of _ 0, simplified])
  have ne4: "drop_bit 22 (phys + 4) \<noteq> drop_bit 22 v"
    using ne unfolding ph drop_22[of "push_bit 12 (of_nat (P + 1)) + 4"] aligned_add(3) by simp
  have t: "sv32_translate m1 ?s phys = Some phys" "sv32_translate m1 ?s (phys + 4) = Some (phys + 4)"
    "sv32_translate m1 ?s v = Some phys" "sv32_translate m1 ?s (v + 4) = Some (phys + 4)" if "maps m1 P v (P + 1)" for m1
  proof -
    note tr = translated[OF that q]
    show "sv32_translate m1 ?s phys = Some phys" by (rule tr(1)[OF ne])
    show "sv32_translate m1 ?s (phys + 4) = Some (phys + 4)" by (rule tr(1)[OF ne4])
    show "sv32_translate m1 ?s v = Some phys"
      using tr(2)[of v] aligned_add(2)[of "of_nat (P + 1) XOR 0xF0000"] unfolding v ph by simp
    have "phys OR 4 = phys + 4" using aligned_add(1)[of "of_nat (P + 1)"] unfolding ph by simp
    then show "sv32_translate m1 ?s (v + 4) = Some (phys + 4)"
      using tr(2)[of "v + 4"] aligned_add(3,4)[of "of_nat (P + 1) XOR 0xF0000"] unfolding v ph by simp
  qed
  let ?m1 = "wr32 m phys 0xdeadbeef" let ?m2 = "wr32 ?m1 (phys + 4) 0x55667788"
  have m1: "maps ?m1 P v (P + 1)" unfolding phys_def by (rule maps_write[OF assms(1,2)]) simp_all
  have m2: "maps ?m2 P v (P + 1)" unfolding ph4 by (rule maps_write[OF m1 assms(2)]) simp_all
  have "check_pages sv32_translate ?s phys v m = Some ?m2"
    unfolding check_pages_def store32_def load32_def t(1)[OF assms(1)]
    using t[OF m1] t[OF m2] by simp
  moreover have "rd32 ?m2 phys = 0xdeadbeef"
    using rd32_wr32_other[of ?k "?k + 1" ?m1] assms(2) unfolding ph4 by (simp add: phys_def rd32_wr32_same)
  ultimately show ?thesis using m2 rd32_wr32_same[of ?m1] by blast
qed

text \<open>
  C10. With the translation of Sv32, \<open>main\<close> reaches the label \<open>active\<close> wherever its buffer lies: no
  assertion fails, no access faults and \<open>get_page\<close> never runs out. The tables then translate every
  address: the page \<open>virtual\<close> goes to \<open>physical\<close>, every address whose upper ten bits differ from those
  of \<open>virtual\<close> goes to itself, and the other addresses of the new table go to a region that is given
  by bits 20 to 29 of \<open>virtual\<close> instead of its upper ten bits, not to themselves.
\<close>

theorem translate_main_maps:
  assumes "unat B + 32768 < 2 ^ 32"
  shows "\<exists>satp physical virtual m'.
    translate_main riscv_encoding (sv32 riscv_encoding) sv32_translate (\<lambda>v. v) B mstatus \<lparr>mem = m, page_buffer_next = B\<rparr> =
      Some (satp, physical, virtual, mstatus OR 0x20000, m') \<and>
    virtual = physical XOR 0xF0000000 \<and> rd32 m' physical = 0xdeadbeef \<and> rd32 m' (physical + 4) = 0x55667788 \<and>
    unat physical = 4096 * ((unat B + 4095) div 4096 + 1) \<and>
    (\<forall>a. sv32_translate m' satp a = Some (
       if drop_bit 12 a = drop_bit 12 virtual then physical OR take_bit 12 a
       else if drop_bit 22 a = drop_bit 22 virtual then push_bit 22 (take_bit 10 (drop_bit 20 virtual)) OR take_bit 22 a
       else a))"
proof -
  let ?P = "(unat B + 4095) div 4096"
  let ?ph = "adr (1024 * (?P + 1))" let ?v = "?ph XOR 0xF0000000"
  obtain m1 n where b: "build_tables enc (sv32 enc) B \<lparr>mem = m, page_buffer_next = B\<rparr> =
      Some (adr (1024 * ?P), ?ph, ?v, \<lparr>mem = m1, page_buffer_next = n\<rparr>)" "maps m1 ?P ?v (?P + 1)" "?P + 3 \<le> pages"
    using build_tables_maps[OF assms] by blast
  obtain m2 where c: "check_pages sv32_translate (satp_of ?P) ?ph ?v m1 = Some m2" "maps m2 ?P ?v (?P + 1)"
    "rd32 m2 ?ph = 0xdeadbeef" "rd32 m2 (?ph + 4) = 0x55667788"
    using check_pages_ok[OF b(2,3) refl] by blast
  have q: "?P < pages" "?P + 1 < pages" "?P + 2 < pages" using b(3) by simp_all
  have mp: "MSTATUS_MPRV enc = 0x20000" by (simp add: riscv_encoding_def)
  have "translate_main enc (sv32 enc) sv32_translate (\<lambda>v. v) B mstatus \<lparr>mem = m, page_buffer_next = B\<rparr> =
      Some (satp_of ?P, ?ph, ?v, mstatus OR 0x20000, m2)"
    unfolding translate_main_def b(1) bind.simps prod.case enable_satp_page[OF q(1)] paging.select_convs Let_def c(1) mp ..
  moreover have "sv32_translate m2 (satp_of ?P) a = Some (
       if drop_bit 12 a = drop_bit 12 ?v then ?ph OR take_bit 12 a
       else if drop_bit 22 a = drop_bit 22 ?v then push_bit 22 (take_bit 10 (drop_bit 20 ?v)) OR take_bit 22 a
       else a)" for a
    using translated[OF c(2) q(2,3), of a] unfolding page_address[symmetric] take_drop(2) by (simp split: if_split)
  ultimately show ?thesis using c(3,4) unat_page[OF q(2)] by blast
qed

text \<open>
  With the buffer at 0x80001000 the page is 0x80002000 and its second address 0x70002000; the program
  succeeds, but the address 0x70000000 is translated to 0xC0000000.
\<close>

theorem translate_main_maps_witness:
  "\<exists>satp m'. translate_main riscv_encoding (sv32 riscv_encoding) sv32_translate (\<lambda>v. v) 0x80001000 0 \<lparr>mem = (\<lambda>a. 0), page_buffer_next = 0x80001000\<rparr> =
      Some (satp, 0x80002000, 0x70002000, 0x20000, m') \<and>
    sv32_translate m' satp 0x70002008 = Some 0x80002008 \<and> sv32_translate m' satp 0x70000000 = Some 0xC0000000"
proof -
  have "unat (0x80001000 :: u32) + 32768 < 2 ^ 32" by simp
  from translate_main_maps[OF this, of 0 "\<lambda>a. 0"] obtain satp physical m' where t:
    "translate_main riscv_encoding (sv32 riscv_encoding) sv32_translate (\<lambda>v. v) 0x80001000 0 \<lparr>mem = (\<lambda>a. 0), page_buffer_next = 0x80001000\<rparr> =
      Some (satp, physical, physical XOR 0xF0000000, 0 OR 0x20000, m')"
    "unat physical = 4096 * ((unat (0x80001000 :: u32) + 4095) div 4096 + 1)"
    "\<forall>a. sv32_translate m' satp a = Some (
       if drop_bit 12 a = drop_bit 12 (physical XOR 0xF0000000) then physical OR take_bit 12 a
       else if drop_bit 22 a = drop_bit 22 (physical XOR 0xF0000000)
         then push_bit 22 (take_bit 10 (drop_bit 20 (physical XOR 0xF0000000))) OR take_bit 22 a
       else a)" by blast
  have "unat physical = unat (0x80002000 :: u32)" using t(2) by simp
  then have p: "physical = 0x80002000" by (simp only: word_unat_eq_iff)
  have "sv32_translate m' satp 0x70002008 = Some 0x80002008" "sv32_translate m' satp 0x70000000 = Some 0xC0000000"
    using t(3) unfolding p by simp_all
  then show ?thesis using t(1) unfolding p by auto
qed

end
