(* ===== verification/Ee_Number.thy ===== *)
theory Ee_Number
  imports Prelude
begin

text \<open>
  The integer half of \<open>c_sim/common/print.h\<close>: the formatting flags, the string helpers, and the
  routines that print a number, a hardware address and an internet address with padding. A
  routine that advances \<open>str\<close> over the characters it writes is the list of these characters.
  \<open>int\<close> variables that hold a width or a count are mathematical integers; \<open>long\<close> is 32 bits wide.
\<close>

section \<open>Flags\<close>

definition ZEROPAD :: s32 where "ZEROPAD = push_bit 0 1"
definition SIGN :: s32 where "SIGN = push_bit 1 1"
definition PLUS :: s32 where "PLUS = push_bit 2 1"
definition SPACE :: s32 where "SPACE = push_bit 3 1"
definition LEFT :: s32 where "LEFT = push_bit 4 1"
definition HEX_PREP :: s32 where "HEX_PREP = push_bit 5 1"
definition UPPERCASE :: s32 where "UPPERCASE = push_bit 6 1"

lemmas flag_defs = ZEROPAD_def SIGN_def PLUS_def SPACE_def LEFT_def HEX_PREP_def UPPERCASE_def

text \<open>\<open>if (type & FLAG)\<close>\<close>

definition has :: "s32 \<Rightarrow> s32 \<Rightarrow> bool" where
  "has ty flag \<longleftrightarrow> ty AND flag \<noteq> 0"

definition digits :: "u8 list" where
  "digits = bytes ''0123456789abcdefghijklmnopqrstuvwxyz''"

definition upper_digits :: "u8 list" where
  "upper_digits = bytes ''0123456789ABCDEFGHIJKLMNOPQRSTUVWXYZ''"

section \<open>String helpers\<close>

text \<open>
  The memory \<open>mem\<close> from \<open>sc\<close> on; the element is read before \<open>count\<close> is looked at.
\<close>

fun strnlen_loop :: "u8 list \<Rightarrow> nat \<Rightarrow> nat option" where
  "strnlen_loop [] count = None"
| "strnlen_loop (c # mem) count =
    (if c \<noteq> 0 \<and> count \<noteq> 0 then map_option Suc (strnlen_loop mem (count - 1)) else Some 0)"

text \<open>\<open>count\<close> is an \<open>ee_size_t\<close> of 32 bits, so a count of -1 is the largest one.\<close>

definition strnlen :: "u8 list \<Rightarrow> u32 \<Rightarrow> nat option" where
  "strnlen mem count = strnlen_loop mem (unat count)"

text \<open>
  The value of the digits and the rest of the string. An overflow of \<open>int\<close> is undefined
  behaviour, \<open>None\<close>; the character code is added before the one of \<open>0\<close> is subtracted.
\<close>

definition INT_MAX :: int where "INT_MAX = 2147483647"

fun skip_atoi_loop :: "u8 list \<Rightarrow> int \<Rightarrow> (int \<times> u8 list) option" where
  "skip_atoi_loop [] i = Some (i, [])"
| "skip_atoi_loop (c # s) i =
    (if is_digit c then
       if i * 10 + uint c \<le> INT_MAX then skip_atoi_loop s (i * 10 + uint c - uint (ch CHR ''0'')) else None
     else Some (i, c # s))"

definition skip_atoi :: "u8 list \<Rightarrow> (int \<times> u8 list) option" where
  "skip_atoi s = skip_atoi_loop s 0"

section \<open>Padding loops\<close>

text \<open>\<open>while (size-- > 0) *str++ = c;\<close> writes the characters and leaves \<open>size\<close>.\<close>

function pad :: "u8 \<Rightarrow> int \<Rightarrow> u8 list \<times> int" where
  "pad c sz = (if sz > 0 then let (cs, sz') = pad c (sz - 1) in (c # cs, sz') else ([], sz - 1))"
  by pat_completeness auto

termination by (relation "measure (\<lambda>(c, sz). nat sz)") auto

declare pad.simps [simp del]

text \<open>\<open>while (len < size--) *str++ = c;\<close>\<close>

definition pad_to :: "u8 \<Rightarrow> int \<Rightarrow> int \<Rightarrow> u8 list \<times> int" where
  "pad_to c len sz = (let (cs, s) = pad c (sz - len) in (cs, s + len))"

text \<open>\<open>while (--size > 0) *str++ = c;\<close>\<close>

definition pad_before :: "u8 \<Rightarrow> int \<Rightarrow> u8 list \<times> int" where
  "pad_before c sz = (let (cs, s) = pad c (sz - 1) in (cs, s + 1))"

section \<open>Numbers\<close>

text \<open>The loop that fills \<open>tmp\<close>, least significant digit first.\<close>

function number_digits :: "u8 list \<Rightarrow> nat \<Rightarrow> nat \<Rightarrow> u8 list" where
  "number_digits dig base num =
    (if num = 0 \<or> base < 2 then [] else dig ! (num mod base) # number_digits dig base (num div base))"
  by pat_completeness auto

termination by (relation "measure (\<lambda>(dig, base, num). num)") auto

declare number_digits.simps [simp del]

text \<open>The sign character (0 when there is none), the magnitude and the remaining width.\<close>

definition sign_of :: "s32 \<Rightarrow> int \<Rightarrow> s32 \<Rightarrow> u8 \<times> s32 \<times> int" where
  "sign_of num sz ty =
    (if has ty SIGN then
       if sint num < 0 then (ch CHR ''-'', - num, sz - 1)
       else if has ty PLUS then (ch CHR ''+'', num, sz - 1)
       else if has ty SPACE then (ch CHR '' '', num, sz - 1)
       else (0, num, sz)
     else (0, num, sz))"

text \<open>\<open>number\<close> returns a null pointer for a base out of range.\<close>

definition number :: "s32 \<Rightarrow> int \<Rightarrow> int \<Rightarrow> int \<Rightarrow> s32 \<Rightarrow> u8 list option" where
  "number num base sz precision ty = (
     let dig = (if has ty UPPERCASE then upper_digits else digits);
         ty = (if has ty LEFT then ty AND NOT ZEROPAD else ty)
     in if base < 2 \<or> base > 36 then None
     else
       let c = (if has ty ZEROPAD then ch CHR ''0'' else ch CHR '' '');
           (sign, num, sz) = sign_of num sz ty;
           sz = (if has ty HEX_PREP then
                     if base = 16 then sz - 2 else if base = 8 then sz - 1 else sz
                   else sz);
           tmp = (if num = 0 then [ch CHR ''0''] else number_digits dig (nat base) (unat num));
           i = int (length tmp);
           precision = (if i > precision then i else precision);
           sz = sz - precision;
           (spaces, sz) = (if \<not> has ty (ZEROPAD OR LEFT) then pad (ch CHR '' '') sz else ([], sz));
           signs = (if sign \<noteq> 0 then [sign] else []);
           prefix = (if has ty HEX_PREP then
                       if base = 8 then [ch CHR ''0'']
                       else if base = 16 then [ch CHR ''0'', digits ! 33] else []
                     else []);
           (fill, sz) = (if \<not> has ty LEFT then pad c sz else ([], sz));
           (zeros, _) = pad_to (ch CHR ''0'') i precision;
           (trail, _) = pad (ch CHR '' '') sz
       in Some (spaces @ signs @ prefix @ fill @ zeros @ rev tmp @ trail))"

section \<open>Addresses\<close>

text \<open>The alignment both routines share: \<open>text\<close> has the characters of \<open>tmp\<close>.\<close>

definition align :: "u8 list \<Rightarrow> int \<Rightarrow> s32 \<Rightarrow> u8 list" where
  "align text sz ty = (
     let (before, sz) = (if \<not> has ty LEFT then pad_to (ch CHR '' '') (int (length text)) sz else ([], sz));
         (after, _) = pad_to (ch CHR '' '') (int (length text)) sz
     in before @ text @ after)"

fun separated :: "u8 \<Rightarrow> ('a \<Rightarrow> u8 list) \<Rightarrow> 'a list \<Rightarrow> u8 list" where
  "separated sep f [] = []"
| "separated sep f [x] = f x"
| "separated sep f (x # y # xs) = f x @ sep # separated sep f (y # xs)"

definition eaddr :: "u8 list \<Rightarrow> int \<Rightarrow> int \<Rightarrow> s32 \<Rightarrow> u8 list option" where
  "eaddr addr sz precision ty = do {
     let dig = (if has ty UPPERCASE then upper_digits else digits);
     bs \<leftarrow> those (map (rd addr) [0..<6]);
     Some (align (separated (ch CHR '':'')
       (\<lambda>b. [dig ! unat (drop_bit 4 b), dig ! unat (b AND 0x0F)]) bs) sz ty) }"

definition octet :: "nat \<Rightarrow> u8 list" where
  "octet n =
    (if n = 0 then [digits ! 0]
     else let (hd, n) =
         (if n \<ge> 100 then ([digits ! (n div 100), digits ! (n mod 100 div 10)], n mod 100 mod 10)
          else if n \<ge> 10 then ([digits ! (n div 10)], n mod 10)
          else ([], n))
       in hd @ [digits ! n])"

definition iaddr :: "u8 list \<Rightarrow> int \<Rightarrow> int \<Rightarrow> s32 \<Rightarrow> u8 list option" where
  "iaddr addr sz precision ty = do {
     bs \<leftarrow> those (map (rd addr) [0..<4]);
     Some (align (separated (ch CHR ''.'') (\<lambda>b. octet (unat b)) bs) sz ty) }"

section \<open>Facts about flags and padding\<close>

lemma bit_flags:
  "has ty ZEROPAD = bit ty 0" "has ty SIGN = bit ty 1" "has ty PLUS = bit ty 2" "has ty SPACE = bit ty 3"
  "has ty LEFT = bit ty 4" "has ty HEX_PREP = bit ty 5" "has ty UPPERCASE = bit ty 6"
  by (simp_all only: has_def flag_defs push_bit_of_1 and_exp_eq_0_iff_not_bit not_not)

lemma has_or [simp]: "has ty (f OR g) \<longleftrightarrow> has ty f \<or> has ty g"
  by (simp add: has_def bit.conj_disj_distrib or_eq_0_iff)

lemma has_zero [simp]: "\<not> has 0 f"
  by (simp add: has_def)

lemma bit_flag_iff:
  "bit ZEROPAD n \<longleftrightarrow> n = 0" "bit SIGN n \<longleftrightarrow> n = 1" "bit PLUS n \<longleftrightarrow> n = 2" "bit SPACE n \<longleftrightarrow> n = 3"
  "bit LEFT n \<longleftrightarrow> n = 4" "bit HEX_PREP n \<longleftrightarrow> n = 5" "bit UPPERCASE n \<longleftrightarrow> n = 6"
  unfolding flag_defs push_bit_of_1 bit_exp_iff by auto

lemmas has_set = bit_flags bit_or_iff bit_and_iff bit_not_iff bit_flag_iff

lemma pad_eq: "pad c sz = (replicate (nat sz) c, (if sz > 0 then 0 else sz) - 1)"
proof (induction c sz rule: pad.induct)
  case (1 c sz)
  have "nat sz = Suc (nat (sz - 1))" if "sz > 0" using that by simp
  then show ?case using 1 by (subst pad.simps) (auto simp: Let_def)
qed

lemma pad_to_eq: "pad_to c len sz = (replicate (nat (sz - len)) c, (if sz > len then len else sz) - 1)"
  by (simp add: pad_to_def pad_eq)

lemma pad_before_eq: "pad_before c sz = (replicate (nat (sz - 1)) c, if sz > 1 then 0 else sz - 1)"
  by (simp add: pad_before_def pad_eq)

lemmas padding = pad_eq pad_to_eq pad_before_eq

section \<open>Digits\<close>

definition radix_value :: "nat \<Rightarrow> nat list \<Rightarrow> nat" where
  "radix_value b ds = foldl (\<lambda>v d. v * b + d) 0 ds"

text \<open>The digits of a number: below the base, without a leading zero except for zero itself.\<close>

definition radix_digits :: "nat \<Rightarrow> nat \<Rightarrow> nat list \<Rightarrow> bool" where
  "radix_digits b n ds \<longleftrightarrow> radix_value b ds = n \<and> (\<forall>d \<in> set ds. d < b) \<and> ds \<noteq> [] \<and> (hd ds = 0 \<longrightarrow> ds = [0])"

lemma radix_value_snoc: "radix_value b (ds @ [d]) = radix_value b ds * b + d"
  by (simp add: radix_value_def)

lemma radix_value_lower: "ds \<noteq> [] \<Longrightarrow> hd ds \<noteq> 0 \<Longrightarrow> 2 \<le> b \<Longrightarrow> b ^ (length ds - 1) \<le> radix_value b ds"
proof (induction ds rule: rev_induct)
  case Nil then show ?case by simp
next
  case (snoc d ds)
  show ?case
  proof (cases "ds = []")
    case True then show ?thesis using snoc.prems by (simp add: radix_value_def)
  next
    case False
    then have "b ^ (length ds - 1) \<le> radix_value b ds" using snoc by simp
    then have "b ^ (length ds - 1) * b \<le> radix_value b ds * b" by (rule mult_le_mono1)
    moreover have "b ^ (length ds - 1) * b = b ^ length ds" using False by (cases ds) simp_all
    ultimately have "b ^ length ds \<le> radix_value b ds * b" by (simp only:)
    then show ?thesis by (simp add: radix_value_snoc)
  qed
qed

lemma number_digits_radix:
  assumes "2 \<le> b" "0 < n"
  shows "\<exists>ds. rev (number_digits dig b n) = map ((!) dig) ds \<and> radix_digits b n ds"
  using assms(2)
proof (induction n rule: less_induct)
  case (less n)
  have e: "rev (number_digits dig b n) = rev (number_digits dig b (n div b)) @ [dig ! (n mod b)]"
    using less.prems assms(1) by (subst number_digits.simps) simp
  show ?case
  proof (cases "n div b = 0")
    case True
    then have "n mod b = n" using assms(1) by (metis div_mult_mod_eq mult_0 add_0)
    then show ?thesis using e True less.prems assms(1) mod_less_divisor[of b n]
      by (intro exI[of _ "[n]"]) (simp add: number_digits.simps[of _ _ 0] radix_digits_def radix_value_def)
  next
    case False
    then obtain ds where ds: "rev (number_digits dig b (n div b)) = map ((!) dig) ds" "radix_digits b (n div b) ds"
      using less.IH[of "n div b"] assms(1) less.prems by auto
    have "hd (ds @ [n mod b]) \<noteq> 0"
      using ds(2) False by (auto simp: radix_digits_def radix_value_def)
    then have "radix_digits b n (ds @ [n mod b])"
      using ds(2) assms(1) by (auto simp: radix_digits_def radix_value_snoc)
    then show ?thesis using e ds(1) by (intro exI[of _ "ds @ [n mod b]"]) simp
  qed
qed

lemma radix_digits_length:
  assumes "radix_digits b n ds" "2 \<le> b" "n < 2 ^ 32"
  shows "length ds \<le> 32"
proof (cases "hd ds = 0")
  case True then show ?thesis using assms(1) by (auto simp: radix_digits_def)
next
  case False
  have "2 ^ (length ds - 1) \<le> b ^ (length ds - 1)" using assms(2) by (rule power_mono) simp
  also have "\<dots> \<le> n" using radix_value_lower[of ds b] False assms by (auto simp: radix_digits_def)
  finally have "(2 :: nat) ^ (length ds - 1) < 2 ^ 32" using assms(3) by simp
  then have "length ds - 1 < 32" by (rule power_less_imp_less_exp[rotated]) simp
  then show ?thesis by simp
qed

section \<open>The layout of a number\<close>

text \<open>The magnitude printed, the sign character and the prefix.\<close>

definition magnitude :: "s32 \<Rightarrow> s32 \<Rightarrow> nat" where
  "magnitude num ty = (if has ty SIGN then nat \<bar>sint num\<bar> else unat num)"

definition sign_text :: "s32 \<Rightarrow> s32 \<Rightarrow> u8 list" where
  "sign_text num ty =
    (if \<not> has ty SIGN then [] else if sint num < 0 then [ch CHR ''-''] else if has ty PLUS then [ch CHR ''+'']
     else if has ty SPACE then [ch CHR '' ''] else [])"

definition prefix_text :: "int \<Rightarrow> s32 \<Rightarrow> u8 list" where
  "prefix_text base ty =
    (if \<not> has ty HEX_PREP then [] else if base = 8 then [ch CHR ''0'']
     else if base = 16 then [ch CHR ''0'', ch CHR ''x''] else [])"

text \<open>
  The digits, extended by zeros to the precision, after sign and prefix; the width is filled by
  spaces on the right, zeros after the prefix, or spaces on the left.
\<close>

definition laid_out :: "int \<Rightarrow> int \<Rightarrow> s32 \<Rightarrow> u8 list \<Rightarrow> u8 list \<Rightarrow> u8 list" where
  "laid_out width precision ty before digs = (
     let zeros = replicate (nat precision - length digs) (ch CHR ''0'');
         room = nat (width - int (length (before @ zeros @ digs)))
     in if has ty LEFT then before @ zeros @ digs @ replicate room (ch CHR '' '')
        else if has ty ZEROPAD then before @ replicate room (ch CHR ''0'') @ zeros @ digs
        else replicate room (ch CHR '' '') @ before @ zeros @ digs)"

lemma laid_out_length:
  "length (laid_out width precision ty before digs) =
    max (nat width) (length before + max (nat precision) (length digs))"
  by (auto simp: laid_out_def Let_def max_def)

lemma sign_of_eq:
  "sign_of num sz ty = (s, m, sz') \<longleftrightarrow>
    s = (if sign_text num ty = [] then 0 else hd (sign_text num ty)) \<and>
    m = (if has ty SIGN \<and> sint num < 0 then - num else num) \<and> sz' = sz - int (length (sign_text num ty))"
  by (auto simp: sign_of_def sign_text_def)

lemma sign_text_list: "(if (if sign_text num ty = [] then 0 else hd (sign_text num ty)) \<noteq> 0
    then [if sign_text num ty = [] then 0 else hd (sign_text num ty)] else []) = sign_text num ty"
  by (auto simp: sign_text_def ch_def)

lemma unat_s32_nonneg: "0 \<le> sint (num :: s32) \<Longrightarrow> unat num = nat (sint num)"
proof -
  assume "0 \<le> sint num"
  moreover have "sint num < 2 ^ 31" using sint_less[of num] by simp
  ultimately have "sint num mod 2 ^ 32 = sint num" by (intro mod_pos_pos_trivial) simp_all
  moreover have "uint num = sint num mod 2 ^ 32" using uint_sint[of num] by (simp add: take_bit_eq_mod)
  ultimately show ?thesis unfolding unat_eq_nat_uint by (simp only:)
qed

lemma unat_uminus_s32:
  assumes "sint (num :: s32) < 0"
  shows "unat (- num) = nat (- sint num)"
proof -
  have tb: "uint (of_int k :: s32) = k mod 2 ^ 32" for k by (simp add: unsigned_of_int take_bit_eq_mod)
  have e: "- num = of_int (- sint num)" by simp
  have "- sint num \<le> 2 ^ 31" using sint_ge[of num] by simp
  then have "(- sint num) mod 2 ^ 32 = - sint num" using assms by (intro mod_pos_pos_trivial) simp_all
  then have "uint (of_int (- sint num) :: s32) = - sint num" using tb[of "- sint num"] by (simp only:)
  then show ?thesis unfolding unat_eq_nat_uint unfolding e by (simp only:)
qed

lemma digits_zero: "digits ! 0 = ch CHR ''0''" "upper_digits ! 0 = ch CHR ''0''" "digits ! 33 = ch CHR ''x''"
  by (simp_all add: digits_def upper_digits_def bytes_def)

lemma radix_digits_zero: "0 < b \<Longrightarrow> radix_digits b 0 [0]"
  by (simp add: radix_digits_def radix_value_def)

lemma number_text:
  assumes "2 \<le> base" "base \<le> 36"
  shows "\<exists>ds. radix_digits (nat base) (magnitude num ty) ds \<and>
    number num base width precision ty = Some (laid_out width precision ty
      (sign_text num ty @ prefix_text base ty)
      (map ((!) (if has ty UPPERCASE then upper_digits else digits)) ds))"
proof -
  define dig where "dig = (if has ty UPPERCASE then upper_digits else digits)"
  define m where "m = (if has ty SIGN \<and> sint num < 0 then - num else num)"
  define tmp where "tmp = (if m = 0 then [ch CHR ''0''] else number_digits dig (nat base) (unat m))"
  have mag: "unat m = magnitude num ty"
  proof (cases "sint num < 0")
    case True then show ?thesis using unat_uminus_s32[OF True] unfolding m_def magnitude_def by (cases "has ty SIGN") simp_all
  next
    case False
    then have "unat num = nat \<bar>sint num\<bar>" using unat_s32_nonneg[of num] by (simp only: not_less abs_of_nonneg)
    then show ?thesis using False unfolding m_def magnitude_def by (cases "has ty SIGN") (simp_all only: simp_thms if_True if_False)
  qed
  obtain ds where ds: "rev tmp = map ((!) dig) ds" "radix_digits (nat base) (magnitude num ty) ds"
  proof (cases "m = 0")
    case True
    then have z: "magnitude num ty = 0" using mag by simp
    show ?thesis
    proof (rule that)
      show "rev tmp = map ((!) dig) [0]" using True by (simp add: tmp_def dig_def digits_zero)
      show "radix_digits (nat base) (magnitude num ty) [0]" unfolding z by (rule radix_digits_zero) (use assms in simp)
    qed
  next
    case False
    then have "0 < unat m" by (simp add: unat_gt_0)
    moreover have "2 \<le> nat base" using assms by linarith
    ultimately show ?thesis using that number_digits_radix[of "nat base" "unat m" dig] False mag by (auto simp: tmp_def)
  qed
  have len: "length tmp = length ds" using arg_cong[OF ds(1), of length] by simp
  have nd: "nat (p - int l) = nat p - l" for p l by simp
  define ty' where "ty' = (if has ty LEFT then ty AND NOT ZEROPAD else ty)"
  have ty': "has ty' SIGN = has ty SIGN" "has ty' PLUS = has ty PLUS" "has ty' SPACE = has ty SPACE"
    "has ty' LEFT = has ty LEFT" "has ty' HEX_PREP = has ty HEX_PREP"
    "has ty' ZEROPAD \<longleftrightarrow> has ty ZEROPAD \<and> \<not> has ty LEFT"
    by (auto simp: ty'_def has_set)
  have st: "sign_text num ty' = sign_text num ty" by (simp add: sign_text_def ty')
  define s where "s = (if sign_text num ty = [] then 0 else hd (sign_text num ty))"
  have so: "sign_of num width ty' = (s, m, width - int (length (sign_text num ty)))"
    by (simp add: sign_of_eq st ty' s_def m_def)
  have sl: "(if s \<noteq> 0 then [s] else []) = sign_text num ty"
    using sign_text_list by (simp only: s_def)
  have "number num base width precision ty = Some (laid_out width precision ty
      (sign_text num ty @ prefix_text base ty) (map ((!) dig) ds))"
    using assms
    unfolding number_def dig_def[symmetric] Let_def ty'_def[symmetric] so case_prod_conv tmp_def[symmetric] sl
    by (cases "has ty LEFT"; cases "has ty ZEROPAD"; cases "has ty HEX_PREP"; simp add: padding len ds(1) laid_out_def prefix_text_def ty' digits_zero nd diff_diff_add add.assoc; simp add: add.commute add.left_commute)
  then show ?thesis using ds(2) by (auto simp: dig_def)
qed

end
