(* ===== verification/Ee_Float.thy ===== *)
theory Ee_Float
  imports Ee_Number
begin

text \<open>
  The floating-point half of \<open>c_sim/common/print.h\<close>. The type \<open>double\<close> with the operations the
  file applies to it, and the functions \<open>ecvtbuf\<close> and \<open>fcvtbuf\<close> it only declares, are a parameter:
  \<open>ecvtbuf\<close> and \<open>fcvtbuf\<close> give the contents of the buffer they fill, the position of the decimal
  point and whether the number is negative.
\<close>

record 'd double_ops =
  below_zero :: "'d \<Rightarrow> bool"
  equals_zero :: "'d \<Rightarrow> bool"
  negated :: "'d \<Rightarrow> 'd"
  ecvtbuf :: "'d \<Rightarrow> int \<Rightarrow> u8 list \<times> int \<times> bool"
  fcvtbuf :: "'d \<Rightarrow> int \<Rightarrow> u8 list \<times> int \<times> bool"

section \<open>The text of a number\<close>

text \<open>\<open>count\<close> bytes of the memory \<open>ps\<close>; a negative count runs past every object.\<close>

definition ee_bufcpy :: "u8 list \<Rightarrow> int \<Rightarrow> u8 list option" where
  "ee_bufcpy ps count = (if count < 0 then None else those (map (rd ps) [0..<nat count]))"

fun put_point :: "int \<Rightarrow> int \<Rightarrow> u8 list \<Rightarrow> u8 list" where
  "put_point decpt pos [] = []"
| "put_point decpt pos (d # ds) =
    (if pos = decpt then [ch CHR ''.''] else []) @ d # put_point decpt (pos + 1) ds"

definition e_text :: "'d double_ops \<Rightarrow> 'd \<Rightarrow> bool \<Rightarrow> int \<Rightarrow> u8 list option" where
  "e_text D v capexp precision = do {
     let (cvtbuf, decpt, sign) = ecvtbuf D v (precision + 1);
     d \<leftarrow> rd cvtbuf 0;
     ds \<leftarrow> ee_bufcpy (tl cvtbuf) precision;
     let ex = (if decpt = 0 then if equals_zero D v then 0 else - 1 else decpt - 1);
     let (exsign, ex) = (if ex < 0 then (ch CHR ''-'', - ex) else (ch CHR ''+'', ex));
     Some ((if sign then [ch CHR ''-''] else []) @ d # (if precision > 0 then [ch CHR ''.''] else []) @ ds @
       (if capexp then ch CHR ''E'' else ch CHR ''e'') # exsign #
       [digit_byte (nat (ex div 10 div 10 mod 10)), digit_byte (nat (ex div 10 mod 10)), digit_byte (nat (ex mod 10))]) }"

definition f_text :: "'d double_ops \<Rightarrow> 'd \<Rightarrow> int \<Rightarrow> u8 list" where
  "f_text D v precision = (
     let (cvtbuf, decpt, sign) = fcvtbuf D v precision;
         ds = takeWhile (\<lambda>c. c \<noteq> 0) cvtbuf
     in (if sign then [ch CHR ''-''] else []) @
       (if ds \<noteq> [] then
          if decpt \<le> 0 then ch CHR ''0'' # ch CHR ''.'' # replicate (nat (- decpt)) (ch CHR ''0'') @ ds
          else put_point decpt 0 ds
        else ch CHR ''0'' # (if precision > 0 then ch CHR ''.'' # replicate (nat precision) (ch CHR ''0'') else [])))"

text \<open>The text written to \<open>buffer\<close>, without the zero that ends it.\<close>

definition parse_float :: "'d double_ops \<Rightarrow> 'd \<Rightarrow> u8 \<Rightarrow> int \<Rightarrow> u8 list option" where
  "parse_float D v fmt precision = (
     let capexp = (fmt = ch CHR ''G'' \<or> fmt = ch CHR ''E'');
         fmt = (if capexp then fmt + (ch CHR ''a'' - ch CHR ''A'') else fmt);
         (fmt, precision) =
           (if fmt = ch CHR ''g'' then
              let (_, decpt, _) = ecvtbuf D v precision; magnitude = decpt - 1
              in if magnitude < - 4 \<or> magnitude > precision - 1 then (ch CHR ''e'', precision - 1)
                 else (ch CHR ''f'', precision - decpt)
            else (fmt, precision))
     in if fmt = ch CHR ''e'' then e_text D v capexp precision
        else if fmt = ch CHR ''f'' then Some (f_text D v precision)
        else Some [])"

section \<open>Editing the text in its buffer\<close>

text \<open>The first index from \<open>i\<close> on whose byte is zero or satisfies \<open>stop\<close>.\<close>

function scan_to :: "(u8 \<Rightarrow> bool) \<Rightarrow> u8 list \<Rightarrow> nat \<Rightarrow> nat option" where
  "scan_to stop buf i =
    (if i < length buf then if buf ! i = 0 \<or> stop (buf ! i) then Some i else scan_to stop buf (i + 1)
     else None)"
  by pat_completeness auto

termination by (relation "measure (\<lambda>(stop, buf, i). length buf - i)") auto

declare scan_to.simps [simp del]

text \<open>\<open>while (n > 0) { buffer[n + 1] = buffer[n]; n--; }\<close> for the buffer at \<open>i\<close>\<close>

fun shift_up :: "nat \<Rightarrow> nat \<Rightarrow> u8 list \<Rightarrow> u8 list option" where
  "shift_up 0 i buf = Some buf"
| "shift_up (Suc n) i buf = do { v \<leftarrow> rd buf (i + Suc n); buf \<leftarrow> wr buf (i + Suc n + 1) v; shift_up n i buf }"

definition decimal_point :: "u8 list \<Rightarrow> u8 list option" where
  "decimal_point buf = do {
     i \<leftarrow> scan_to (\<lambda>c. c \<in> {ch CHR ''.'', ch CHR ''e'', ch CHR ''E''}) buf 0;
     if buf ! i = ch CHR ''.'' then Some buf
     else if buf ! i \<noteq> 0 then do {
       n \<leftarrow> strnlen (drop i buf) 256;
       buf \<leftarrow> shift_up n i buf;
       wr buf i (ch CHR ''.'') }
     else do {
       buf \<leftarrow> wr buf i (ch CHR ''.'');
       wr buf (i + 1) 0 } }"

fun back_over_zeros :: "u8 list \<Rightarrow> nat \<Rightarrow> nat" where
  "back_over_zeros buf 0 = 0"
| "back_over_zeros buf (Suc j) = (if buf ! Suc j = ch CHR ''0'' then back_over_zeros buf j else Suc j)"

definition cropzeros :: "u8 list \<Rightarrow> u8 list option" where
  "cropzeros buf = do {
     i \<leftarrow> scan_to (\<lambda>c. c = ch CHR ''.'') buf 0;
     if buf ! i = 0 then Some buf
     else do {
       stop \<leftarrow> scan_to (\<lambda>c. c = ch CHR ''e'' \<or> c = ch CHR ''E'') buf (i + 1);
       let j = back_over_zeros buf (stop - 1);
       let j = (if buf ! j = ch CHR ''.'' then j - 1 else j);
       Some (fold (\<lambda>k buf. buf[k := 0]) [j + 1..<stop + 1] buf) } }"

section \<open>Printing with a width\<close>

text \<open>
  The buffer \<open>tmp\<close> has 80 bytes: a longer text overflows it. Its bytes after the text are not
  read before they are written.
\<close>

definition tmp_of :: "u8 list \<Rightarrow> u8 list option" where
  "tmp_of text = (if length text < 80 then Some (text @ replicate (80 - length text) 0) else None)"

definition flt :: "'d double_ops \<Rightarrow> 'd \<Rightarrow> int \<Rightarrow> int \<Rightarrow> u8 \<Rightarrow> s32 \<Rightarrow> u8 list option" where
  "flt D num sz precision fmt flags = (
     let flags = (if has flags LEFT then flags AND NOT ZEROPAD else flags);
         c = (if has flags ZEROPAD then ch CHR ''0'' else ch CHR '' '');
         (sign, num, sz) =
           (if has flags SIGN then
              if below_zero D num then (ch CHR ''-'', negated D num, sz - 1)
              else if has flags PLUS then (ch CHR ''+'', num, sz - 1)
              else if has flags SPACE then (ch CHR '' '', num, sz - 1)
              else (0, num, sz)
            else (0, num, sz));
         precision = (if precision < 0 then 6 else precision)
     in do {
       text \<leftarrow> parse_float D num fmt precision;
       tmp \<leftarrow> tmp_of text;
       tmp \<leftarrow> (if has flags HEX_PREP \<and> precision = 0 then decimal_point tmp else Some tmp);
       tmp \<leftarrow> (if fmt = ch CHR ''g'' \<and> \<not> has flags HEX_PREP then cropzeros tmp else Some tmp);
       n \<leftarrow> strnlen tmp 256;
       let sz = sz - int n;
       let (spaces, sz) = (if \<not> has flags (ZEROPAD OR LEFT) then pad (ch CHR '' '') sz else ([], sz));
       let (fill, sz) = (if \<not> has flags LEFT then pad c sz else ([], sz));
       let (trail, _) = pad (ch CHR '' '') sz;
       Some (spaces @ (if sign \<noteq> 0 then [sign] else []) @ fill @ take n tmp @ trail) })"

end
