(* ===== verification/Ee_Printf.thy ===== *)
theory Ee_Printf
  imports Ee_Float
begin

text \<open>
  \<open>ee_vsprintf\<close> and \<open>ee_printf\<close> of \<open>c_sim/common/print.h\<close>. The format is a C string; the variable
  arguments are a list of tagged values, and fetching one of the wrong kind, or one too many, is
  undefined behaviour, \<open>None\<close>. \<open>int\<close>, \<open>long\<close> and pointers are 32 bits wide.
\<close>

datatype 'd va =
    VInt s32
  | VPtr u32
  | VStr "u8 list option"
  | VAddr "u8 list"
  | VDouble 'd

text \<open>\<open>va_arg\<close> at the types the file uses\<close>

fun va_int :: "'d va list \<Rightarrow> (s32 \<times> 'd va list) option" where
  "va_int (VInt w # args) = Some (w, args)"
| "va_int _ = None"

fun va_ptr :: "'d va list \<Rightarrow> (u32 \<times> 'd va list) option" where
  "va_ptr (VPtr w # args) = Some (w, args)"
| "va_ptr _ = None"

fun va_str :: "'d va list \<Rightarrow> (u8 list option \<times> 'd va list) option" where
  "va_str (VStr s # args) = Some (s, args)"
| "va_str _ = None"

fun va_addr :: "'d va list \<Rightarrow> (u8 list \<times> 'd va list) option" where
  "va_addr (VAddr a # args) = Some (a, args)"
| "va_addr _ = None"

fun va_double :: "'d va list \<Rightarrow> ('d \<times> 'd va list) option" where
  "va_double (VDouble v # args) = Some (v, args)"
| "va_double _ = None"

section \<open>The parts of a conversion\<close>

fun parse_flags :: "u8 list \<Rightarrow> s32 \<Rightarrow> s32 \<times> u8 list" where
  "parse_flags [] flags = (flags, [])"
| "parse_flags (c # fmt) flags =
    (if c = ch CHR ''-'' then parse_flags fmt (flags OR LEFT)
     else if c = ch CHR ''+'' then parse_flags fmt (flags OR PLUS)
     else if c = ch CHR '' '' then parse_flags fmt (flags OR SPACE)
     else if c = ch CHR ''#'' then parse_flags fmt (flags OR HEX_PREP)
     else if c = ch CHR ''0'' then parse_flags fmt (flags OR ZEROPAD)
     else (flags, c # fmt))"

text \<open>The width, the flags (a negative width sets \<open>LEFT\<close>), and the rest of the format and the arguments.\<close>

definition parse_width :: "u8 list \<Rightarrow> 'd va list \<Rightarrow> s32 \<Rightarrow> (int \<times> s32 \<times> u8 list \<times> 'd va list) option" where
  "parse_width fmt args flags =
    (if is_digit (deref fmt) then do { (w, fmt) \<leftarrow> skip_atoi fmt; Some (w, flags, fmt, args) }
     else if deref fmt = ch CHR ''*'' then do {
       (w, args) \<leftarrow> va_int args;
       if sint w < 0 then
         if sint w = - INT_MAX - 1 then None else Some (- sint w, flags OR LEFT, tl fmt, args)
       else Some (sint w, flags, tl fmt, args) }
     else Some (- 1, flags, fmt, args))"

definition parse_precision :: "u8 list \<Rightarrow> 'd va list \<Rightarrow> (int \<times> u8 list \<times> 'd va list) option" where
  "parse_precision fmt args =
    (if deref fmt = ch CHR ''.'' then do {
       let fmt = tl fmt;
       (p, fmt, args) \<leftarrow>
         (if is_digit (deref fmt) then do { (p, fmt) \<leftarrow> skip_atoi fmt; Some (p, fmt, args) }
          else if deref fmt = ch CHR ''*'' then do { (p, args) \<leftarrow> va_int args; Some (sint p, tl fmt, args) }
          else Some (- 1, fmt, args));
       Some (if p < 0 then 0 else p, fmt, args) }
     else Some (- 1, fmt, args))"

text \<open>The character of the qualifier, or zero for none\<close>

definition parse_qualifier :: "u8 list \<Rightarrow> u8 \<times> u8 list" where
  "parse_qualifier fmt =
    (if deref fmt = ch CHR ''l'' \<or> deref fmt = ch CHR ''L'' then (deref fmt, tl fmt) else (0, fmt))"

section \<open>The conversions\<close>

definition convert_char :: "'d va list \<Rightarrow> int \<Rightarrow> s32 \<Rightarrow> (u8 list \<times> 'd va list) option" where
  "convert_char args field_width flags = do {
     let (before, field_width) =
       (if \<not> has flags LEFT then pad_before (ch CHR '' '') field_width else ([], field_width));
     (w, args) \<leftarrow> va_int args;
     let (after, _) = pad_before (ch CHR '' '') field_width;
     Some (before @ ucast w # after, args) }"

definition convert_string :: "'d va list \<Rightarrow> int \<Rightarrow> int \<Rightarrow> s32 \<Rightarrow> (u8 list \<times> 'd va list) option" where
  "convert_string args field_width precision flags = do {
     (s, args) \<leftarrow> va_str args;
     let mem = (case s of None \<Rightarrow> bytes ''<NULL>'' @ [0] | Some mem \<Rightarrow> mem);
     len \<leftarrow> strnlen mem (of_int precision);
     let (before, field_width) =
       (if \<not> has flags LEFT then pad_to (ch CHR '' '') (int len) field_width else ([], field_width));
     let (after, _) = pad_to (ch CHR '' '') (int len) field_width;
     Some (before @ take len mem @ after, args) }"

definition convert_pointer :: "'d va list \<Rightarrow> int \<Rightarrow> int \<Rightarrow> s32 \<Rightarrow> (u8 list \<times> 'd va list) option" where
  "convert_pointer args field_width precision flags = do {
     let (field_width, flags) = (if field_width = - 1 then (2 * 4, flags OR ZEROPAD) else (field_width, flags));
     (p, args) \<leftarrow> va_ptr args;
     cs \<leftarrow> number p 16 field_width precision flags;
     Some (cs, args) }"

definition convert_address :: "'d va list \<Rightarrow> u8 \<Rightarrow> int \<Rightarrow> int \<Rightarrow> s32 \<Rightarrow> (u8 list \<times> 'd va list) option" where
  "convert_address args qualifier field_width precision flags = do {
     (a, args) \<leftarrow> va_addr args;
     cs \<leftarrow> (if qualifier = ch CHR ''l'' then eaddr a field_width precision flags
       else iaddr a field_width precision flags);
     Some (cs, args) }"

text \<open>
  The three ways of fetching the number (\<open>unsigned long\<close>, \<open>int\<close>, \<open>unsigned int\<close>) give the same bits.
\<close>

definition convert_int :: "'d va list \<Rightarrow> int \<Rightarrow> int \<Rightarrow> int \<Rightarrow> s32 \<Rightarrow> (u8 list \<times> 'd va list) option" where
  "convert_int args base field_width precision flags = do {
     (num, args) \<leftarrow> va_int args;
     cs \<leftarrow> number num base field_width precision flags;
     Some (cs, args) }"

text \<open>The switch on the conversion character \<open>c\<close> (zero at the end of the format)\<close>

definition convert :: "'d double_ops \<Rightarrow> u8 \<Rightarrow> 'd va list \<Rightarrow> u8 \<Rightarrow> int \<Rightarrow> int \<Rightarrow> s32 \<Rightarrow> (u8 list \<times> 'd va list) option" where
  "convert D c args qualifier field_width precision flags =
    (if c = ch CHR ''c'' then convert_char args field_width flags
     else if c = ch CHR ''s'' then convert_string args field_width precision flags
     else if c = ch CHR ''p'' then convert_pointer args field_width precision flags
     else if c = ch CHR ''A'' then convert_address args qualifier field_width precision (flags OR UPPERCASE)
     else if c = ch CHR ''a'' then convert_address args qualifier field_width precision flags
     else if c = ch CHR ''o'' then convert_int args 8 field_width precision flags
     else if c = ch CHR ''X'' then convert_int args 16 field_width precision (flags OR UPPERCASE)
     else if c = ch CHR ''x'' then convert_int args 16 field_width precision flags
     else if c = ch CHR ''d'' \<or> c = ch CHR ''i'' then convert_int args 10 field_width precision (flags OR SIGN)
     else if c = ch CHR ''u'' then convert_int args 10 field_width precision flags
     else if c = ch CHR ''f'' then do {
       (v, args) \<leftarrow> va_double args;
       cs \<leftarrow> flt D v field_width precision c (flags OR SIGN);
       Some (cs, args) }
     else Some ((if c \<noteq> ch CHR ''%'' then [ch CHR ''%''] else []) @ (if c \<noteq> 0 then [c] else []), args))"

text \<open>
  One turn of the loop at a nonempty format: the characters written, the format after
  \<open>fmt++\<close> and the arguments left. At the end of the format \<open>--fmt\<close> and \<open>fmt++\<close> cancel.
\<close>

definition vsprintf_step :: "'d double_ops \<Rightarrow> u8 list \<Rightarrow> 'd va list \<Rightarrow> (u8 list \<times> u8 list \<times> 'd va list) option" where
  "vsprintf_step D fmt args =
    (if deref fmt \<noteq> ch CHR ''%'' then Some ([deref fmt], tl fmt, args)
     else do {
       let (flags, fmt) = parse_flags (tl fmt) 0;
       (field_width, flags, fmt, args) \<leftarrow> parse_width fmt args flags;
       (precision, fmt, args) \<leftarrow> parse_precision fmt args;
       let (qualifier, fmt) = parse_qualifier fmt;
       (cs, args) \<leftarrow> convert D (deref fmt) args qualifier field_width precision flags;
       Some (cs, tl fmt, args) })"

section \<open>Every turn consumes the format\<close>

lemma parse_flags_length: "length (snd (parse_flags fmt flags)) \<le> length fmt"
  by (induction fmt flags rule: parse_flags.induct) auto

lemma skip_atoi_loop_length: "skip_atoi_loop s i = Some (v, r) \<Longrightarrow> length r \<le> length s"
  by (induction s i rule: skip_atoi_loop.induct) (auto split: if_splits)

lemma skip_atoi_length: "skip_atoi s = Some (v, r) \<Longrightarrow> length r \<le> length s"
  by (simp add: skip_atoi_def skip_atoi_loop_length)

lemma parse_width_length: "parse_width fmt args flags = Some (w, fl, fmt', args') \<Longrightarrow> length fmt' \<le> length fmt"
  by (auto simp: parse_width_def bind_eq_Some_conv split: if_splits dest: skip_atoi_length)

lemma parse_precision_length: "parse_precision fmt args = Some (p, fmt', args') \<Longrightarrow> length fmt' \<le> length fmt"
  by (auto simp: parse_precision_def Let_def bind_eq_Some_conv split: if_splits dest!: skip_atoi_length)

lemma parse_qualifier_length: "length (snd (parse_qualifier fmt)) \<le> length fmt"
  by (simp add: parse_qualifier_def)

lemma vsprintf_step_length:
  assumes "vsprintf_step D fmt args = Some (cs, fmt', args')" "fmt \<noteq> []"
  shows "length fmt' < length fmt"
proof (cases "deref fmt \<noteq> ch CHR ''%''")
  case True then show ?thesis using assms by (auto simp: vsprintf_step_def)
next
  case False
  obtain fl1 f1 where f1: "parse_flags (tl fmt) 0 = (fl1, f1)" by (cases "parse_flags (tl fmt) 0")
  then obtain w fl f2 a2 where f2: "parse_width f1 args fl1 = Some (w, fl, f2, a2)"
    using False assms(1) by (auto simp: vsprintf_step_def bind_eq_Some_conv)
  then obtain p f3 a3 where f3: "parse_precision f2 a2 = Some (p, f3, a3)"
    using False assms(1) f1 by (auto simp: vsprintf_step_def bind_eq_Some_conv)
  obtain q f4 where f4: "parse_qualifier f3 = (q, f4)" by (cases "parse_qualifier f3")
  have "fmt' = tl f4"
    using False assms(1) f1 f2 f3 f4 by (auto simp: vsprintf_step_def bind_eq_Some_conv)
  then have "length fmt' \<le> length f1"
    using parse_width_length[OF f2] parse_precision_length[OF f3] parse_qualifier_length[of f3] f4 by simp
  also have "\<dots> \<le> length (tl fmt)" using parse_flags_length[of "tl fmt" 0] f1 by simp
  finally show ?thesis using assms(2) by (cases fmt) auto
qed

section \<open>Formatting and printing\<close>

text \<open>The text in \<open>buf\<close>, whose length is the result; a zero byte follows it.\<close>

function ee_vsprintf :: "'d double_ops \<Rightarrow> u8 list \<Rightarrow> 'd va list \<Rightarrow> u8 list option" where
  "ee_vsprintf D fmt args =
    (if fmt = [] then Some []
     else case vsprintf_step D fmt args of
         None \<Rightarrow> None
       | Some (cs, fmt', args') \<Rightarrow> map_option ((@) cs) (ee_vsprintf D fmt' args'))"
  by pat_completeness auto

termination
  by (relation "measure (\<lambda>(D, fmt, args). length fmt)") (auto dest: vsprintf_step_length)

declare ee_vsprintf.simps [simp del]

text \<open>
  \<open>buf\<close> has 256 bytes: a longer text overflows it. The bytes given to \<open>putchar\<close>, and the result.
\<close>

definition ee_printf :: "'d double_ops \<Rightarrow> u8 list \<Rightarrow> 'd va list \<Rightarrow> (u8 list \<times> nat) option" where
  "ee_printf D fmt args = do {
     text \<leftarrow> ee_vsprintf D fmt args;
     if length text < 256 then
       let printed = takeWhile (\<lambda>c. c \<noteq> 0) (text @ [0]) in Some (printed, length printed)
     else None }"

end
