(* ===== verification/Ee_Format.thy ===== *)
theory Ee_Format
  imports Ee_Printf
begin

text \<open>
  What \<open>ee_printf\<close> prints: the layout and value of a number, text that is copied, what happens when
  the text does not fit, and the routines that edit a floating-point text.
\<close>

section \<open>Numbers\<close>

lemma digits_digit_byte: "d < 10 \<Longrightarrow> digits ! d = digit_byte d"
  by (rule ball_less_10[where P = "\<lambda>d. digits ! d = digit_byte d"]) (code_simp, assumption)

lemma magnitude_less: "magnitude num ty < 2 ^ 32"
proof -
  have "\<bar>sint num\<bar> \<le> 2 ^ 31" using sint_ge[of num] sint_less[of num] by simp
  then have "nat \<bar>sint num\<bar> < 2 ^ 32" by simp
  moreover have "unat num < 2 ^ 32" using unsigned_less[of num, where ?'a = nat] by simp
  ultimately show ?thesis by (simp only: magnitude_def split: if_split) simp
qed

lemma decimal_text: "number w 10 (- 1) (- 1) ty = Some t \<Longrightarrow> has ty SIGN \<Longrightarrow> \<not> has ty PLUS \<Longrightarrow> \<not> has ty SPACE \<Longrightarrow>
    \<not> has ty HEX_PREP \<Longrightarrow> \<not> has ty UPPERCASE \<Longrightarrow>
    \<exists>ds. radix_digits 10 (nat \<bar>sint w\<bar>) ds \<and> t = (if sint w < 0 then [ch CHR ''-''] else []) @ map digit_byte ds"
proof -
  assume n: "number w 10 (- 1) (- 1) ty = Some t" and f: "has ty SIGN" "\<not> has ty PLUS" "\<not> has ty SPACE"
    "\<not> has ty HEX_PREP" "\<not> has ty UPPERCASE"
  obtain ds where ds: "radix_digits (nat 10) (magnitude w ty) ds"
    "number w 10 (- 1) (- 1) ty = Some (laid_out (- 1) (- 1) ty (sign_text w ty @ prefix_text 10 ty) (map ((!) digits) ds))"
    using number_text[of 10 w ty "- 1" "- 1"] f by auto
  have "map ((!) digits) ds = map digit_byte ds"
    using ds(1) by (auto simp: radix_digits_def digits_digit_byte)
  then show ?thesis using ds n f
    by (intro exI[of _ ds]) (auto simp: laid_out_def sign_text_def prefix_text_def magnitude_def)
qed

lemma sign_flag: "has SIGN SIGN" "\<not> has SIGN PLUS" "\<not> has SIGN SPACE" "\<not> has SIGN HEX_PREP" "\<not> has SIGN UPPERCASE"
    "\<not> has SIGN ZEROPAD" "\<not> has SIGN LEFT"
  by (simp_all add: has_set)

lemma number_total: "2 \<le> base \<Longrightarrow> base \<le> 36 \<Longrightarrow> \<exists>t. number w base width precision ty = Some t"
  using number_text[of base w ty width precision] by blast



section \<open>Formats\<close>

lemmas format_chars = ch_def deref_def is_digit_def bytes_def

lemma vsprintf_Nil [simp]: "ee_vsprintf D [] args = Some []"
  by (simp add: ee_vsprintf.simps)

lemma append_one: "(@) [c] = (#) c"
  by (simp add: fun_eq_iff)

lemma vsprintf_char: "c \<noteq> ch CHR ''%'' \<Longrightarrow> ee_vsprintf D (c # fmt) args = map_option ((#) c) (ee_vsprintf D fmt args)"
  by (subst ee_vsprintf.simps) (simp add: vsprintf_step_def deref_def append_one)

lemma vsprintf_percent: "ee_vsprintf D (ch CHR ''%'' # ch CHR ''%'' # fmt) args = map_option ((#) (ch CHR ''%'')) (ee_vsprintf D fmt args)"
  by (subst ee_vsprintf.simps)
    (simp add: vsprintf_step_def parse_width_def parse_precision_def parse_qualifier_def convert_def format_chars append_one)

lemma step_int:
  "vsprintf_step D (bytes ''%d'') [VInt w] = map_option (\<lambda>t. (t, [], [])) (number w 10 (- 1) (- 1) SIGN)"
  "0 \<le> sint wd \<Longrightarrow> vsprintf_step D (bytes ''%*d'') [VInt wd, VInt w] = map_option (\<lambda>t. (t, [], [])) (number w 10 (sint wd) (- 1) SIGN)"
  by (simp_all add: vsprintf_step_def parse_width_def parse_precision_def parse_qualifier_def convert_def convert_int_def
      format_chars not_less map_conv_bind_option comp_def)

lemma vsprintf_one: "fmt \<noteq> [] \<Longrightarrow> vsprintf_step D fmt args = map_option (\<lambda>t. (t, [], [])) r \<Longrightarrow> ee_vsprintf D fmt args = r"
  by (subst ee_vsprintf.simps) (cases r; simp)

lemma vsprintf_int_conv: "ee_vsprintf D (bytes ''%d'') [VInt w] = number w 10 (- 1) (- 1) SIGN"
  by (rule vsprintf_one[OF _ step_int(1)]) (simp add: bytes_def)

lemma vsprintf_star_int:
  "0 \<le> sint wd \<Longrightarrow> ee_vsprintf D (bytes ''%*d'') [VInt wd, VInt w] = number w 10 (sint wd) (- 1) SIGN"
  by (rule vsprintf_one[OF _ step_int(2)]) (simp_all add: bytes_def)

text \<open>A text with every percent sign doubled.\<close>

definition escape :: "u8 list \<Rightarrow> u8 list" where
  "escape s = concat (map (\<lambda>c. if c = ch CHR ''%'' then [c, c] else [c]) s)"

text \<open>
  A text whose percent signs are doubled is printed as it is, whatever the arguments, before
  whatever the rest of the format prints: plain characters and \<open>%%\<close> consume no argument.
\<close>

lemma vsprintf_escape:
  "ee_vsprintf D (escape s @ fmt) args = map_option ((@) s) (ee_vsprintf D fmt args)"
proof (induction s)
  case Nil then show ?case by (simp add: escape_def option.map_ident comp_def)
next
  case (Cons c s)
  then show ?case
    using vsprintf_char[of c D "escape s @ fmt" args] vsprintf_percent[of D "escape s @ fmt" args]
    by (cases "c = ch CHR ''%''") (simp_all add: escape_def option.map_comp comp_def)
qed

lemma digit_byte_nonzero: "d < 10 \<Longrightarrow> digit_byte d \<noteq> 0"
  using digit_byte_range[of d] by auto

text \<open>
  C38. \<open>ee_printf\<close> with the format \<open>%d\<close> prints every \<open>int\<close> in full: a minus sign for a negative number,
  then its decimal digits without leading zeros, and returns how many characters that is.
\<close>

theorem printf_decimal:
  "\<exists>ds text. ee_printf D (bytes ''%d'') [VInt w] = Some (text, length text) \<and>
    text = (if sint w < 0 then [ch CHR ''-''] else []) @ map digit_byte ds \<and>
    radix_digits 10 (nat \<bar>sint w\<bar>) ds"
proof -
  obtain t where t: "number w 10 (- 1) (- 1) SIGN = Some t" using number_total[of 10 w "- 1" "- 1" SIGN] by auto
  obtain ds where ds: "radix_digits 10 (nat \<bar>sint w\<bar>) ds"
      "t = (if sint w < 0 then [ch CHR ''-''] else []) @ map digit_byte ds"
    using decimal_text[OF t sign_flag(1-5)] by blast
  have m: "nat \<bar>sint w\<bar> < 2 ^ 32" using magnitude_less[of w SIGN] by (simp only: magnitude_def sign_flag if_True)
  have "length ds \<le> 32" by (rule radix_digits_length[OF ds(1) _ m]) simp
  then have "length t < 256" using ds(2) by simp
  moreover have "takeWhile (\<lambda>c. c \<noteq> 0) (t @ [0]) = t"
  proof -
    have "\<forall>c \<in> set t. c \<noteq> 0"
      using ds digit_byte_nonzero by (auto simp: radix_digits_def ch_def)
    then show ?thesis by (simp add: takeWhile_append2)
  qed
  ultimately show ?thesis using ds t
    by (intro exI[of _ ds] exI[of _ t]) (simp add: ee_printf_def vsprintf_int_conv)
qed

lemma radix_value_Cons: "radix_value b (d # ds) = d * b ^ length ds + radix_value b ds"
proof (induction ds rule: rev_induct)
  case Nil then show ?case by (simp add: radix_value_def)
next
  case (snoc x ds)
  have "radix_value b (d # ds @ [x]) = radix_value b (d # ds) * b + x" using radix_value_snoc[of b "d # ds" x] by simp
  then show ?case using snoc by (simp add: radix_value_snoc algebra_simps)
qed

lemma digit_byte_uint: "d < 10 \<Longrightarrow> is_digit (digit_byte d) \<and> uint (digit_byte d) = int d + 48"
  by (rule ball_less_10[where P = "\<lambda>d. is_digit (digit_byte d) \<and> uint (digit_byte d) = int d + 48"]) (code_simp, assumption)

lemma skip_atoi_digits:
  assumes "\<forall>d \<in> set ds. d < 10" "rest = [] \<or> \<not> is_digit (hd rest)"
    and "0 \<le> i" "i * 10 ^ length ds + int (radix_value 10 ds) + 48 \<le> INT_MAX"
  shows "skip_atoi_loop (map digit_byte ds @ rest) i = Some (i * 10 ^ length ds + int (radix_value 10 ds), rest)"
  using assms
proof (induction ds arbitrary: i)
  case Nil then show ?case by (cases rest) (simp_all add: radix_value_def)
next
  case (Cons d ds)
  let ?i = "i * 10 + int d"
  have e: "?i * 10 ^ length ds + int (radix_value 10 ds) = i * 10 ^ length (d # ds) + int (radix_value 10 (d # ds))"
    by (simp add: radix_value_Cons algebra_simps)
  have "?i * 1 \<le> ?i * 10 ^ length ds" using Cons.prems(3) by (intro mult_left_mono) simp_all
  then have "i * 10 + (int d + 48) \<le> INT_MAX" using e Cons.prems(4) by simp
  moreover have "skip_atoi_loop (map digit_byte ds @ rest) ?i = Some (?i * 10 ^ length ds + int (radix_value 10 ds), rest)"
    by (rule Cons.IH) (use Cons.prems e in simp_all)
  moreover have "is_digit (digit_byte d)" "uint (digit_byte d) = int d + 48" "uint (ch CHR ''0'') = 48"
    using digit_byte_uint[of d] Cons.prems(1) by (simp_all add: ch_def)
  ultimately show ?case using e by simp
qed

text \<open>
  C39. The number a width is read from and the number that is printed agree: for every nonnegative
  \<open>int\<close> up to 48 below the largest (above, \<open>i * 10 + *s\<close> in \<open>skip_atoi\<close> may overflow before \<open>'0'\<close> is
  subtracted), \<open>skip_atoi\<close> reads back what \<open>number\<close> printed and stops after it.
\<close>

theorem skip_atoi_number:
  assumes "0 \<le> sint w" "sint w + 48 \<le> INT_MAX" "rest = [] \<or> \<not> is_digit (hd rest)"
  shows "\<exists>text. number w 10 (- 1) (- 1) SIGN = Some text \<and> skip_atoi (text @ rest) = Some (sint w, rest)"
proof -
  obtain t where t: "number w 10 (- 1) (- 1) SIGN = Some t" using number_total[of 10 w "- 1" "- 1" SIGN] by auto
  obtain ds where ds: "radix_digits 10 (nat \<bar>sint w\<bar>) ds" "t = map digit_byte ds"
    using decimal_text[OF t sign_flag(1-5)] assms(1) by auto
  have "skip_atoi_loop (map digit_byte ds @ rest) 0 = Some (0 * 10 ^ length ds + int (radix_value 10 ds), rest)"
    by (rule skip_atoi_digits) (use ds assms in \<open>auto simp: radix_digits_def\<close>)
  then show ?thesis using t ds assms(1) by (simp add: skip_atoi_def radix_digits_def)
qed

theorem skip_atoi_number_witness:
  "\<exists>text. number 2024 10 (- 1) (- 1) SIGN = Some text \<and> skip_atoi (text @ bytes ''d!'') = Some (2024, bytes ''d!'')"
proof -
  have "\<exists>text. number 2024 10 (- 1) (- 1) SIGN = Some text \<and>
      skip_atoi (text @ bytes ''d!'') = Some (sint (2024 :: s32), bytes ''d!'')"
    by (rule skip_atoi_number) (simp_all add: INT_MAX_def format_chars)
  then show ?thesis by simp
qed

section \<open>Text that does not fit\<close>

text \<open>
  C40. \<open>ee_printf\<close> formats into 256 bytes without a check: a width of 256 or more, here taken from an
  argument by \<open>%*d\<close>, writes past the buffer, whatever number is printed.
\<close>

theorem printf_overflows:
  assumes "256 \<le> sint wd"
  shows "ee_printf D (bytes ''%*d'') [VInt wd, VInt w] = None"
proof -
  obtain ds where "number w 10 (sint wd) (- 1) SIGN = Some (laid_out (sint wd) (- 1) SIGN
      (sign_text w SIGN @ prefix_text 10 SIGN) (map ((!) (if has SIGN UPPERCASE then upper_digits else digits)) ds))"
    using number_text[of 10 w SIGN "sint wd" "- 1"] by auto
  moreover have "nat (sint wd) \<ge> 256" using assms by linarith
  ultimately show ?thesis
    using assms by (simp add: ee_printf_def vsprintf_star_int laid_out_length)
qed

theorem printf_overflows_witness: "\<forall>D :: nat double_ops. ee_printf D (bytes ''%*d'') [VInt 300, VInt 7] = None"
  by (rule allI, rule printf_overflows) simp

lemma strnlen_loop_iff:
  "strnlen_loop mem n = Some k \<longleftrightarrow>
    k < length mem \<and> (\<forall>i < k. mem ! i \<noteq> 0) \<and> k \<le> n \<and> (k = n \<or> mem ! k = 0)"
proof (induction mem n arbitrary: k rule: strnlen_loop.induct)
  case (1 n) then show ?case by simp
next
  case (2 c mem n)
  show ?case
  proof (cases "c \<noteq> 0 \<and> n \<noteq> 0")
    case True
    then show ?thesis using 2 by (cases k) (auto simp: All_less_Suc2)
  next
    case False then show ?thesis by (cases k) (auto simp: All_less_Suc2)
  qed
qed

lemma strnlen_string: "\<forall>c \<in> set s. c \<noteq> 0 \<Longrightarrow> length s \<le> unat count \<Longrightarrow> strnlen (s @ 0 # m) count = Some (length s)"
  by (auto simp: strnlen_def strnlen_loop_iff nth_append)

text \<open>
  \<open>strnlen\<close> gives the position of the first zero byte, or the count when that comes first, and
  in both cases only if the memory has a byte at that position: the byte after \<open>count\<close> others is
  read before the count is tested, so a precision equal to the size of an object without a zero
  reads past the object.
\<close>

lemma strnlen_reads:
  "strnlen mem count = Some k \<longleftrightarrow>
    k < length mem \<and> (\<forall>i < k. mem ! i \<noteq> 0) \<and> k \<le> unat count \<and> (k = unat count \<or> mem ! k = 0)"
  by (simp add: strnlen_def strnlen_loop_iff)

lemma strnlen_reads_witness: "strnlen [65, 0, 67] 9 = Some 1 \<and> strnlen [65] 1 \<noteq> Some 1"
  unfolding strnlen_reads by simp

section \<open>Editing a floating-point text\<close>

lemma scan_to_found:
  assumes "\<forall>c \<in> set (drop i pre). c \<noteq> 0 \<and> \<not> stop c" "c = 0 \<or> stop c" "i \<le> length pre"
  shows "scan_to stop (pre @ c # rest) i = Some (length pre)"
  using assms
proof (induction "length pre - i" arbitrary: i)
  case 0
  then have "i = length pre" by simp
  then show ?case using assms(2) by (subst scan_to.simps) simp
next
  case (Suc d)
  then have "i < length pre" by simp
  then have "(pre @ c # rest) ! i = pre ! i" "drop i pre = pre ! i # drop (Suc i) pre"
    by (simp_all add: nth_append Cons_nth_drop_Suc)
  then have "scan_to stop (pre @ c # rest) i = scan_to stop (pre @ c # rest) (i + 1)"
    using Suc.prems \<open>i < length pre\<close> by (subst scan_to.simps) auto
  moreover have "scan_to stop (pre @ c # rest) (i + 1) = Some (length pre)"
    by (rule Suc.hyps(1)) (use Suc.hyps(2) Suc.prems \<open>drop i pre = _\<close> \<open>i < length pre\<close> in simp_all)
  ultimately show ?case by simp
qed

lemma shift_up_eq:
  assumes "i + n + 1 < length buf"
  shows "shift_up n i buf = Some (take (i + 2) buf @ take n (drop (i + 1) buf) @ drop (i + n + 2) buf)"
proof -
  have "\<exists>r. shift_up n i b = Some r \<and> length r = length b \<and>
      (\<forall>k < length b. r ! k = (if i + 2 \<le> k \<and> k \<le> i + n + 1 then b ! (k - 1) else b ! k))"
    if "i + n + 1 < length b" for b
    using that
  proof (induction n arbitrary: b)
    case 0 then show ?case by auto
  next
    case (Suc n)
    let ?b = "b[i + n + 2 := b ! (i + n + 1)]"
    obtain r where r: "shift_up n i ?b = Some r" "length r = length b"
      "\<forall>k < length b. r ! k = (if i + 2 \<le> k \<and> k \<le> i + n + 1 then ?b ! (k - 1) else ?b ! k)"
      using Suc.IH[of ?b] Suc.prems by auto
    have "\<forall>k < length b. r ! k = (if i + 2 \<le> k \<and> k \<le> i + Suc n + 1 then b ! (k - 1) else b ! k)"
      using r(3) Suc.prems by (auto simp: nth_list_update le_Suc_eq)
    then show ?case using r(1,2) Suc.prems by simp
  qed
  from this[OF assms] obtain r where r: "shift_up n i buf = Some r" "length r = length buf"
    "\<forall>k < length buf. r ! k = (if i + 2 \<le> k \<and> k \<le> i + n + 1 then buf ! (k - 1) else buf ! k)" by blast
  have "r = take (i + 2) buf @ take n (drop (i + 1) buf) @ drop (i + n + 2) buf"
    using r(2,3) assms by (intro nth_equalityI) (auto simp: nth_append min_def intro!: arg_cong[where f = "(!) buf"])
  then show ?thesis using r(1) by simp
qed

text \<open>The characters at which \<open>decimal_point\<close> stops, and texts without them and without a zero byte.\<close>

definition plain :: "u8 list \<Rightarrow> bool" where
  "plain s \<longleftrightarrow> (\<forall>c \<in> set s. c \<noteq> 0 \<and> c \<notin> {ch CHR ''.'', ch CHR ''e'', ch CHR ''E''})"

text \<open>
  \<open>decimal_point\<close> appends a point to a text without one, but in front of an exponent it makes room
  one place too far: the exponent character is overwritten by the point and the character after it
  appears twice.
\<close>

lemma decimal_point_exponent:
  assumes "plain pre" "c = ch CHR ''e'' \<or> c = ch CHR ''E''" "\<forall>x \<in> set (x # rest). x \<noteq> 0" "length (x # rest) \<le> 255"
  shows "decimal_point (pre @ 0 # y # mem) = Some (pre @ ch CHR ''.'' # 0 # mem) \<and>
    decimal_point (pre @ c # x # rest @ 0 # y # mem) = Some (pre @ ch CHR ''.'' # x # x # rest @ 0 # mem)"
proof
  let ?stop = "\<lambda>c. c \<in> {ch CHR ''.'', ch CHR ''e'', ch CHR ''E''}"
  have pre: "\<forall>c \<in> set (drop 0 pre). c \<noteq> 0 \<and> \<not> ?stop c" using assms(1) by (simp add: plain_def)
  have "scan_to ?stop (pre @ 0 # y # mem) 0 = Some (length pre)" by (rule scan_to_found[OF pre]) simp_all
  then show "decimal_point (pre @ 0 # y # mem) = Some (pre @ ch CHR ''.'' # 0 # mem)"
    by (simp add: decimal_point_def ch_def list_update_append)
  let ?buf = "pre @ c # x # rest @ 0 # y # mem"
  let ?n = "length (c # x # rest)"
  have c: "c \<noteq> 0" "c \<noteq> ch CHR ''.''" "?stop c" using assms(2) by (auto simp: ch_def)
  have s: "scan_to ?stop ?buf 0 = Some (length pre)" by (rule scan_to_found[OF pre]) (use c in simp_all)
  have "strnlen ((c # x # rest) @ 0 # y # mem) 256 = Some ?n"
    by (rule strnlen_string) (use c(1) assms(3,4) in simp_all)
  then have n: "strnlen (drop (length pre) ?buf) 256 = Some ?n" by simp
  have "shift_up ?n (length pre) ?buf = Some (pre @ [c, x] @ (x # rest @ [0]) @ mem)"
    by (subst shift_up_eq) (simp_all add: eval_nat_numeral)
  then show "decimal_point ?buf = Some (pre @ ch CHR ''.'' # x # x # rest @ 0 # mem)"
    using s n c by (simp add: decimal_point_def list_update_append)
qed

lemma decimal_point_exponent_witness:
  "decimal_point (bytes ''5'' @ [0, 0]) = Some (bytes ''5.'' @ [0]) \<and>
    decimal_point (bytes ''5e+007'' @ [0, 0]) = Some (bytes ''5.++007'' @ [0])"
proof -
  have "plain [ch CHR ''5'']" by (simp add: plain_def ch_def)
  from decimal_point_exponent[OF this, of "ch CHR ''e''" "ch CHR ''+''" "bytes ''007''" 0 "[]"]
  show ?thesis by (simp add: bytes_def ch_def)
qed

lemma back_over_zeros_eq:
  "p \<noteq> [] \<Longrightarrow> last p \<noteq> ch CHR ''0'' \<Longrightarrow>
    back_over_zeros (p @ replicate z (ch CHR ''0'') @ m) (length p + z - 1) = length p - 1"
proof (induction z arbitrary: m)
  case 0
  then obtain j where "length p = Suc j" by (cases p) simp_all
  then show ?case using 0 by (cases j) (simp_all add: nth_append last_conv_nth)
next
  case (Suc z)
  have e: "p @ replicate (Suc z) (ch CHR ''0'') @ m = p @ replicate z (ch CHR ''0'') @ ch CHR ''0'' # m"
    by (simp add: replicate_app_Cons_same)
  obtain k where k: "length p + z = Suc k" using Suc.prems(1) by (cases "length p + z") auto
  have "(p @ replicate z (ch CHR ''0'') @ ch CHR ''0'' # m) ! Suc k = ch CHR ''0''"
    by (simp add: nth_append k[symmetric])
  then show ?case using Suc.IH[OF Suc.prems, of "ch CHR ''0'' # m"] k unfolding e by simp
qed

lemma fold_zero: "fold (\<lambda>k b. b[k := 0]) [length p..<length p + length q] (p @ q @ m) = p @ replicate (length q) 0 @ m"
  for m :: "u8 list"
proof (induction q arbitrary: p)
  case Nil then show ?case by simp
next
  case (Cons x q)
  have "[length p..<length p + length (x # q)] = length p # [length (p @ [0])..<length (p @ [0]) + length q]"
    by (simp add: upt_conv_Cons del: upt_Suc)
  then show ?case using Cons.IH[of "p @ [0]"] by (simp del: upt_Suc)
qed

text \<open>
  \<open>cropzeros\<close> removes the zeros at the end of a decimal fraction, and its point when nothing is
  left, and keeps a text without a point; when an exponent follows the fraction, it is removed too.
\<close>

lemma cropzeros_fraction:
  assumes "\<forall>c \<in> set whole. c \<noteq> 0 \<and> c \<noteq> ch CHR ''.''" "plain frac" "frac = [] \<or> last frac \<noteq> ch CHR ''0''"
    and "whole \<noteq> []" "c \<in> {0, ch CHR ''e'', ch CHR ''E''}"
  shows "cropzeros (whole @ ch CHR ''.'' # frac @ replicate z (ch CHR ''0'') @ c # mem) =
    Some (whole @ (if frac = [] then [] else ch CHR ''.'' # frac) @
      replicate (z + (if frac = [] then 2 else 1)) 0 @ mem)"
proof -
  let ?p = "whole @ ch CHR ''.'' # frac"
  let ?buf = "whole @ ch CHR ''.'' # frac @ replicate z (ch CHR ''0'') @ c # mem"
  let ?stop = "\<lambda>c. c = ch CHR ''e'' \<or> c = ch CHR ''E''"
  have s1: "scan_to (\<lambda>c. c = ch CHR ''.'') ?buf 0 = Some (length whole)"
    by (rule scan_to_found) (use assms(1) in simp_all)
  have z: "\<not> ?stop (ch CHR ''0'')" "ch CHR ''0'' \<noteq> 0" "c = 0 \<or> ?stop c" using assms(5) by (auto simp: ch_def)
  have frac: "\<forall>c \<in> set frac. c \<noteq> 0 \<and> \<not> ?stop c" using assms(2) unfolding plain_def by blast
  have dr: "drop (length whole + 1) (?p @ replicate z (ch CHR ''0'')) = frac @ replicate z (ch CHR ''0'')" by simp
  have "\<forall>c \<in> set (drop (length whole + 1) (?p @ replicate z (ch CHR ''0''))). c \<noteq> 0 \<and> \<not> ?stop c"
    unfolding dr using frac z(1,2) by (simp add: ball_Un)
  then have "scan_to ?stop ((?p @ replicate z (ch CHR ''0'')) @ c # mem) (length whole + 1) = Some (length (?p @ replicate z (ch CHR ''0'')))"
    by (rule scan_to_found) (use z(3) in simp_all)
  then have s2: "scan_to ?stop ?buf (length whole + 1) = Some (length ?p + z)" by simp
  have l: "last ?p \<noteq> ch CHR ''0''" using assms(3) by (auto simp: ch_def)
  have b: "back_over_zeros ?buf (length ?p + z - 1) = length ?p - 1"
    using back_over_zeros_eq[OF _ l, of z "c # mem"] by simp
  have f: "fold (\<lambda>k b. b[k := 0]) [j + 1..<length ?p + z + 1] ?buf =
      whole @ (if frac = [] then [] else ch CHR ''.'' # frac) @ replicate (z + (if frac = [] then 2 else 1)) 0 @ mem"
    if j: "j = (if frac = [] then length whole - 1 else length ?p - 1)" for j
  proof (cases "frac = []")
    case True
    have "j + 1 = length whole" using j True assms(4) by (cases whole) simp_all
    then show ?thesis using fold_zero[of whole "ch CHR ''.'' # replicate z (ch CHR ''0'') @ [c]" mem] True by simp
  next
    case False
    then have "j + 1 = length ?p" using j by simp
    then show ?thesis using fold_zero[of ?p "replicate z (ch CHR ''0'') @ [c]" mem] False by simp
  qed
  have d: "?buf ! (length ?p - 1) = ch CHR ''.'' \<longleftrightarrow> frac = []"
  proof (cases "frac = []")
    case True then show ?thesis by simp
  next
    case False
    then have "?buf ! (length ?p - 1) = last frac" by (simp add: nth_append last_conv_nth nth_Cons split: nat.split)
    moreover have "last frac \<in> set frac" using False by simp
    ultimately show ?thesis using assms(2) False by (auto simp: plain_def)
  qed
  have w: "?buf ! length whole = ch CHR ''.''" by simp
  have "(if ?buf ! (length ?p - 1) = ch CHR ''.'' then length ?p - 1 - 1 else length ?p - 1) =
      (if frac = [] then length whole - 1 else length ?p - 1)"
    unfolding d by simp
  then show ?thesis
    unfolding cropzeros_def s1 s2 Option.bind.simps w b Let_def using f[OF refl] by (simp add: ch_def)
qed

lemma cropzeros_fraction_witness:
  "cropzeros (bytes ''1.500'' @ [0]) = Some (bytes ''1.5'' @ [0, 0, 0]) \<and>
    cropzeros (bytes ''1.500e+07'' @ [0]) = Some (bytes ''1.5'' @ [0, 0, 0] @ bytes ''+07'' @ [0])"
proof -
  have p: "plain [ch CHR ''5'']" by (simp add: plain_def ch_def)
  have replicate_2: "replicate 2 x = [x, x]" "replicate 3 x = [x, x, x]" for x :: u8 by (simp_all add: eval_nat_numeral)
  show ?thesis
    using cropzeros_fraction[OF _ p, of "[ch CHR ''1'']" 0 2 "[]"]
      cropzeros_fraction[OF _ p, of "[ch CHR ''1'']" "ch CHR ''e''" 2 "bytes ''+07'' @ [0]"]
    by (simp add: bytes_def ch_def replicate_2)
qed

end
