(* ===== verification/Mt_Barrier.thy ===== *)
theory Mt_Barrier
  imports Mt_Kernels
begin

text \<open>
  The multiplications that first copy \<open>B\<close>: \<open>br\<close> and \<open>dr\<close> into an array of their own thread, \<open>ae\<close>, \<open>ce\<close>
  and \<open>dm\<close> into one static array that all cores fill before a barrier and read after it. For these a
  run is the first phase of all cores followed by the second phase of all cores; the barriers inside
  a phase only order writes to different elements.
\<close>

section \<open>\<open>br\<close>, \<open>dr\<close>: the core's columns of \<open>B\<close>, transposed\<close>

definition tb_transpose :: "nat \<Rightarrow> nat \<Rightarrow> nat \<Rightarrow> s32 list \<Rightarrow> s32 list \<Rightarrow> s32 list option" where
  "tb_transpose startInd endInd lda B = each (steps 0 lda 2) (\<lambda>i. each (steps startInd endInd 2) (\<lambda>j tB. do {
     b \<leftarrow> rd B (i * lda + j);
     tB \<leftarrow> wr tB (j * lda + i) b;
     b \<leftarrow> rd B (i * lda + (j + 1));
     tB \<leftarrow> wr tB ((j + 1) * lda + i) b;
     b \<leftarrow> rd B ((i + 1) * lda + j);
     tB \<leftarrow> wr tB (j * lda + (i + 1)) b;
     b \<leftarrow> rd B ((i + 1) * lda + (j + 1));
     wr tB ((j + 1) * lda + (i + 1)) b }))"

text \<open>
  Two rows \<open>j\<close>, \<open>j + 1\<close> and \<open>W\<close> columns in locals: \<open>tmpCrc\<close> is the local \<open>W * r + c\<close>; 32 terms for each,
  four in one pass.
\<close>

definition tb_block :: "nat \<Rightarrow> nat \<Rightarrow> s32 list \<Rightarrow> s32 list \<Rightarrow> nat \<Rightarrow> nat \<Rightarrow> nat \<Rightarrow> s32 list \<Rightarrow> s32 list option" where
  "tb_block W lda A tB j k2 i C = do {
     tmpC \<leftarrow> load C (\<lambda>p. (j + p div W) * lda + i + p mod W) (2 * W);
     tmpC \<leftarrow> each (steps k2 (k2 + 32) 4) (\<lambda>k. each [0..<4] (\<lambda>m. each [0..<2] (\<lambda>r. each [0..<W] (\<lambda>c.
       mac A tB ((j + r) * lda + (k + m)) ((i + c) * lda + (k + m)) (W * r + c))))) tmpC;
     store tmpC (\<lambda>p. (j + p div W) * lda + i + p mod W) (2 * W) C }"

definition tb_main :: "nat \<Rightarrow> nat \<Rightarrow> nat \<Rightarrow> nat \<Rightarrow> s32 list \<Rightarrow> s32 list \<Rightarrow> s32 list \<Rightarrow> s32 list option" where
  "tb_main W startInd endInd lda A tB = each (steps 0 lda 32) (\<lambda>j2. each (steps startInd endInd 16) (\<lambda>i2.
     each (steps j2 (j2 + 32) 2) (\<lambda>j. each (steps 0 lda 32) (\<lambda>k2. each (steps i2 (i2 + 16) W) (\<lambda>i.
       tb_block W lda A tB j k2 i)))))"

text \<open>\<open>U\<close> is what the core's \<open>tB\<close> holds at the call.\<close>

definition br_matmul :: "s32 list \<Rightarrow> matmul_fun" where
  "br_matmul U coreid ncores lda A B C = (
     let startInd = coreid * (lda div ncores); endInd = (coreid + 1) * (lda div ncores)
     in do {
       tB \<leftarrow> tb_transpose startInd endInd lda B U;
       tb_main 4 startInd endInd lda A tB C })"

definition dr_matmul :: "s32 list \<Rightarrow> matmul_fun" where
  "dr_matmul U coreid ncores lda A B C = (
     let startInd = coreid * (lda div ncores); endInd = (coreid + 1) * (lda div ncores)
     in do {
       tB \<leftarrow> tb_transpose startInd endInd lda B U;
       tb_main 8 startInd endInd lda A tB C })"

lemma tb_transposes:
  assumes "lda * lda \<le> length B" "lda * lda \<le> length U" "2 dvd lda" "lo \<le> hi" "2 dvd hi - lo" "hi \<le> lda"
  shows "\<exists>tB. tb_transpose lo hi lda B U = Some tB \<and> length tB = length U \<and>
    (\<forall>i \<in> {lo..<hi}. \<forall>k < lda. tB ! (i * lda + k) = B ! (k * lda + i))"
proof -
  have "puts (transposed lda B) (length U) (cells lda {lo..<hi} {0..<lda}) (tb_transpose lo hi lda B)"
    unfolding tb_transpose_def
  proof (rule puts_cols[OF splits_steps], goal_cases)
    case (4 i)
    have i: "i < lda" "i + 1 < lda" using steps_mem(2)[OF 4] assms(3) by fastforce+
    show ?case
    proof (rule puts_rows[OF splits_steps[OF assms(4,5)]], simp)
      fix j assume "j \<in> set (steps lo hi 2)"
      then have j: "j < lda" "j + 1 < lda" using steps_mem(2)[OF _ assms(5)] assms(6) by fastforce+
      have c: "puts (transposed lda B) (length U) (cells lda {y} {x})
          (\<lambda>tB. do { b \<leftarrow> rd B (x * lda + y); wr tB (y * lda + x) b })" if "x < lda" "y < lda" for x y
        using that assms(1,2) cell_in[OF that assms(2)]
        by (intro puts_rd puts_cell) (simp_all add: row_less add.commute[of "y * lda"])
      have "cells lda {j..<j + 2} {i..<i + 2} = ((cells lda {j} {i} \<union> cells lda {j + 1} {i}) \<union> cells lda {j} {i + 1}) \<union> cells lda {j + 1} {i + 1}"
      proof -
        have "{j..<j + 2} = {j, j + 1}" "{i..<i + 2} = {i, i + 1}" by auto
        then show ?thesis by (auto simp: cells_def)
      qed
      then show "puts (transposed lda B) (length U) (cells lda {j..<j + 2} {i..<i + 2}) (\<lambda>tB. do {
          b \<leftarrow> rd B (i * lda + j);
          tB \<leftarrow> wr tB (j * lda + i) b;
          b \<leftarrow> rd B (i * lda + (j + 1));
          tB \<leftarrow> wr tB ((j + 1) * lda + i) b;
          b \<leftarrow> rd B ((i + 1) * lda + j);
          tB \<leftarrow> wr tB (j * lda + (i + 1)) b;
          b \<leftarrow> rd B ((i + 1) * lda + (j + 1));
          wr tB ((j + 1) * lda + (i + 1)) b })"
        using puts_bind[OF puts_bind[OF puts_bind[OF c[OF i(1) j(1)] c[OF i(1) j(2)]] c[OF i(2) j(1)]] c[OF i(2) j(2)]]
        by (simp only: bind_assoc)
    qed
  qed (use assms(3) in simp_all)
  from puts_transposed[OF this refl assms(2,6)] show ?thesis by blast
qed

lemma splits_steps_from:
  fixes a w st :: nat
  assumes "st dvd w" "0 < st"
  shows "splits (steps a (a + w) st) (\<lambda>i. {i..<i + st}) {a..<a + w}"
  by (rule splits_steps) (use assms in simp_all)

lemma rows_block:
  assumes "0 < W" "j + R \<le> n" "i + W \<le> n"
  shows "block_at n j R i W (R * W) (\<lambda>p. (j + p div W) * n + i + p mod W)"
  using assms by (simp add: block_at_def)

lemma tb_block_adds:
  assumes "lda * lda \<le> length A" "lda * lda \<le> L" "lda * lda \<le> length tB" "0 < W" "j + 2 \<le> lda" "i + W \<le> lda" "k2 + 32 \<le> lda"
    and "\<And>c k. c < W \<Longrightarrow> k < lda \<Longrightarrow> tB ! ((i + c) * lda + k) = B ! (k * lda + (i + c))"
  shows "adds lda A B L ({j..<j + 2} \<times> {k2..<k2 + 32} \<times> {i..<i + W}) (tb_block W lda A tB j k2 i)"
  unfolding tb_block_def
proof (rule adds_block[OF _ rows_block[OF assms(4-6)] assms(2)], rule does_sums[OF splits_steps_from], goal_cases)
  case (3 k)
  have k: "k + 4 \<le> lda" using steps_mem(2)[OF 3] assms(7) by simp
  show ?case
  proof (rule does_sums[OF splits_unroll], rule does_rows[OF splits_unroll], rule does_cols[OF splits_unroll], rule does_mac)
    fix m r c assume "m \<in> set [0..<4 :: nat]" "r \<in> set [0..<2 :: nat]" "c \<in> set [0..<W]"
    then have b: "j + r < lda" "k + m < lda" "i + c < lda" "r < 2" "c < W" using assms(5,6) k by auto
    show "(j + r) * lda + (k + m) < length A" "(i + c) * lda + (k + m) < length tB"
      using row_less[OF b(1,2) assms(1)] row_less[OF b(3,2) assms(3)] by simp_all
    show "blk j i W (j + r, k + m, i + c) < 2 * W" using blk_less[OF b(4,5)] by simp
    show "W * r + c = blk j i W (j + r, k + m, i + c)" by simp
    show "A ! ((j + r) * lda + (k + m)) * tB ! ((i + c) * lda + (k + m)) = trm lda A B (j + r, k + m, i + c)"
      using assms(8)[OF b(5,2)] by simp
  qed
qed simp_all

lemma tb_main_adds:
  assumes "lda * lda \<le> length A" "lda * lda \<le> L" "lda * lda \<le> length tB" "32 dvd lda" "lo \<le> hi" "16 dvd hi - lo" "hi \<le> lda"
    and "0 < W" "W dvd 16" "\<forall>i \<in> {lo..<hi}. \<forall>k < lda. tB ! (i * lda + k) = B ! (k * lda + i)"
  shows "adds lda A B L ({0..<lda} \<times> {0..<lda} \<times> {lo..<hi}) (tb_main W lo hi lda A tB)"
  unfolding tb_main_def
proof (rule does_rows[OF splits_steps], goal_cases)
  case (4 j2)
  have j2: "j2 + 32 \<le> lda" using steps_mem(2)[OF 4] assms(4) by simp
  show ?case
  proof (rule does_cols[OF splits_steps[OF assms(5,6)]], simp, rule does_rows[OF splits_steps_from], goal_cases)
    case (3 i2 j)
    have i2: "lo \<le> i2" "i2 + 16 \<le> hi" using steps_mem(1,2)[OF 3(1) assms(6)] by simp_all
    have j: "j + 2 \<le> lda" using steps_mem(2)[OF 3(2)] j2 by simp
    show ?case
    proof (rule does_sums[OF splits_steps], goal_cases)
      case (4 k2)
      have k2: "k2 + 32 \<le> lda" using steps_mem(2)[OF 4] assms(4) by simp
      show ?case
      proof (rule does_cols[OF splits_steps_from], goal_cases)
        case (3 i)
        have i: "i2 \<le> i" "i + W \<le> i2 + 16" using steps_mem(1,2)[OF 3] assms(8,9) by simp_all
        show ?case by (rule tb_block_adds) (use assms i i2 j k2 in auto)
      qed (use assms(8,9) in simp_all)
    qed (use assms(4) in simp_all)
  qed simp_all
qed (use assms(4) in simp_all)

lemma br_adds:
  assumes "lda * lda \<le> length A" "lda * lda \<le> length B" "lda * lda \<le> L" "lda * lda \<le> length U" "32 dvd lda" "16 dvd lda div ncores"
    and "(q + 1) * (lda div ncores) \<le> lda" "f = br_matmul U \<or> f = dr_matmul U"
  shows "adds lda A B L ({0..<lda} \<times> {0..<lda} \<times> {q * (lda div ncores)..<(q + 1) * (lda div ncores)}) (f q ncores lda A B)"
proof -
  let ?lo = "q * (lda div ncores)" and ?hi = "(q + 1) * (lda div ncores)"
  have d: "?hi - ?lo = lda div ncores" "?lo \<le> ?hi" by simp_all
  obtain tB where tB: "tb_transpose ?lo ?hi lda B U = Some tB" "length tB = length U"
    "\<forall>i \<in> {?lo..<?hi}. \<forall>k < lda. tB ! (i * lda + k) = B ! (k * lda + i)"
    using tb_transposes[OF assms(2,4) _ d(2) _ assms(7)] assms(5,6) dvd_trans[of 2 16 "lda div ncores"] dvd_trans[of 2 32 lda]
    unfolding d(1) by auto
  have m: "adds lda A B L ({0..<lda} \<times> {0..<lda} \<times> {?lo..<?hi}) (tb_main W ?lo ?hi lda A tB)" if "W = 4 \<or> W = 8" for W
    by (rule tb_main_adds) (use assms tB(2,3) d that in auto)
  from assms(8) show ?thesis
  proof
    assume "f = br_matmul U"
    then show ?thesis using m[of 4] tB(1) by (simp add: does_cong br_matmul_def Let_def)
  next
    assume "f = dr_matmul U"
    then show ?thesis using m[of 8] tB(1) by (simp add: does_cong dr_matmul_def Let_def)
  qed
qed

section \<open>\<open>ae\<close>, \<open>ce\<close>: all of \<open>B\<close> transposed by all cores\<close>

definition bb_transpose :: "nat \<Rightarrow> nat \<Rightarrow> nat \<Rightarrow> s32 list \<Rightarrow> s32 list \<Rightarrow> s32 list option" where
  "bb_transpose coreid ncores lda B = each [0..<lda] (\<lambda>k.
     each [coreid * (lda div ncores)..<(coreid + 1) * (lda div ncores)] (\<lambda>i BB. do {
       b \<leftarrow> rd B (k * lda + i);
       wr BB (i * lda + k) b }))"

text \<open>
  The loop over \<open>k\<close> with the sums \<open>c1\<close>, \<open>c2\<close>, \<dots> of \<open>W\<close> columns from \<open>i\<close> on in locals: eight elements of row \<open>j\<close>
  of \<open>A\<close> are read, then each sum gets its eight terms.
\<close>

definition bb_sums :: "nat \<Rightarrow> nat \<Rightarrow> s32 list \<Rightarrow> s32 list \<Rightarrow> nat \<Rightarrow> nat \<Rightarrow> s32 list \<Rightarrow> s32 list option" where
  "bb_sums W lda A BB i j = each (steps 0 lda 8) (\<lambda>k cs. do {
     as \<leftarrow> load A (\<lambda>m. j * lda + k + m) 8;
     each [0..<W] (\<lambda>c. each [0..<8] (\<lambda>m cs. do {
       b \<leftarrow> rd BB ((i + c) * lda + (k + m));
       add_at c (as ! m * b) cs })) cs })"

definition ae_main :: "nat \<Rightarrow> nat \<Rightarrow> nat \<Rightarrow> s32 list \<Rightarrow> s32 list \<Rightarrow> s32 list \<Rightarrow> s32 list option" where
  "ae_main coreid ncores lda A BB = each (steps 0 lda 4) (\<lambda>i.
     each [coreid * (lda div ncores)..<(coreid + 1) * (lda div ncores)] (\<lambda>j C. do {
       cs \<leftarrow> bb_sums 4 lda A BB i j (replicate 4 0);
       store cs (\<lambda>p. i + p + j * lda) 4 C }))"

definition ce_main :: "nat \<Rightarrow> nat \<Rightarrow> nat \<Rightarrow> s32 list \<Rightarrow> s32 list \<Rightarrow> s32 list \<Rightarrow> s32 list option" where
  "ce_main coreid ncores lda A BB = each [0..<ncores] (\<lambda>x.
     each (steps (x * (32 div ncores)) ((x + 1) * (32 div ncores)) 8) (\<lambda>i.
       each [coreid * (lda div ncores)..<(coreid + 1) * (lda div ncores)] (\<lambda>j C. do {
         cs \<leftarrow> bb_sums 8 lda A BB i j (replicate 8 0);
         each [0..<8] (\<lambda>p C. do { c \<leftarrow> rd cs p; add_at (i + p + j * lda) c C }) C })))"

text \<open>\<open>BB\<close> is the static array at the call, \<open>ids\<close> and \<open>ids'\<close> the orders of the cores in the two phases.\<close>

definition ae_run :: "nat list \<Rightarrow> nat list \<Rightarrow> s32 list \<Rightarrow> nat \<Rightarrow> nat \<Rightarrow> s32 list \<Rightarrow> s32 list \<Rightarrow> s32 list \<Rightarrow> s32 list option" where
  "ae_run ids ids' BB ncores lda A B C = do {
     BB \<leftarrow> each ids (\<lambda>q. bb_transpose q ncores lda B) BB;
     each ids' (\<lambda>q. ae_main q ncores lda A BB) C }"

definition ce_run :: "nat list \<Rightarrow> nat list \<Rightarrow> s32 list \<Rightarrow> nat \<Rightarrow> nat \<Rightarrow> s32 list \<Rightarrow> s32 list \<Rightarrow> s32 list \<Rightarrow> s32 list option" where
  "ce_run ids ids' BB ncores lda A B C = do {
     BB \<leftarrow> each ids (\<lambda>q. bb_transpose q ncores lda B) BB;
     each ids' (\<lambda>q. ce_main q ncores lda A BB) C }"

lemma bb_transposes:
  assumes "lda * lda \<le> length B" "lda * lda \<le> length BB" "distinct ids" "set ids = {0..<ncores}" "ncores dvd lda" "0 < lda"
  shows "\<exists>BB'. each ids (\<lambda>q. bb_transpose q ncores lda B) BB = Some BB' \<and> length BB' = length BB \<and>
    (\<forall>i < lda. \<forall>k < lda. BB' ! (i * lda + k) = B ! (k * lda + i))"
proof -
  have "puts (transposed lda B) (length BB) (cells lda {0..<lda} {0..<lda}) (each ids (\<lambda>q. bb_transpose q ncores lda B))"
    unfolding bb_transpose_def
  proof (rule puts_rows[OF splits_shares[OF assms(3-6)]], rule puts_cols[OF splits_upt], rule puts_rows[OF splits_upt], rule puts_rd)
    fix q k i assume q: "q \<in> set ids" and k: "k \<in> set [0..<lda]" and i: "i \<in> set [q * (lda div ncores)..<(q + 1) * (lda div ncores)]"
    have "(q + 1) * (lda div ncores) \<le> lda" by (rule share_le) (use q assms(4,5) in simp_all)
    then have ik: "i < lda" "k < lda" using i k by simp_all
    show "k * lda + i < length B" by (rule row_less[OF ik(2,1) assms(1)])
    show "puts (transposed lda B) (length BB) (cells lda {i} {k}) (\<lambda>BB. wr BB (i * lda + k) (B ! (k * lda + i)))"
      by (rule puts_cell) (use ik cell_in[OF ik(2,1) assms(2)] in \<open>simp_all add: add.commute[of "i * lda"]\<close>)
  qed
  from puts_transposed[OF this refl assms(2)] show ?thesis by auto
qed

lemma bb_sums_does:
  assumes "lda * lda \<le> length A" "lda * lda \<le> length BB" "8 dvd lda" "i + W \<le> lda" "j < lda"
    and "\<forall>i < lda. \<forall>k < lda. BB ! (i * lda + k) = B ! (k * lda + i)"
  shows "does (blk j i W) (trm lda A B) W ({j..<j + 1} \<times> {0..<lda} \<times> {i..<i + W}) (bb_sums W lda A BB i j)"
  unfolding bb_sums_def
proof (rule does_sums[OF splits_steps], goal_cases)
  case (4 k)
  have k: "k + 8 \<le> lda" using steps_mem(2)[OF 4] assms(3) by simp
  show ?case
  proof (rule does_load, goal_cases)
    case (1 m)
    then show ?case using row_less[of j lda "k + m" "length A"] assms(1,5) k by (simp add: add.assoc)
  next
    case 2
    show ?case
    proof (rule does_cols[OF splits_unroll], rule does_sums[OF splits_unroll], rule does_rd)
      fix c m assume "c \<in> set [0..<W]" "m \<in> set [0..<8 :: nat]"
      then have b: "i + c < lda" "k + m < lda" "c < W" "m < 8" using assms(4) k by auto
      show "(i + c) * lda + (k + m) < length BB" by (rule row_less[OF b(1,2) assms(2)])
      have "{j..<j + 1} = {j}" by auto
      then show "does (blk j i W) (trm lda A B) W ({j..<j + 1} \<times> {k + m} \<times> {i + c})
          (add_at c (map (\<lambda>m. A ! (j * lda + k + m)) [0..<8] ! m * BB ! ((i + c) * lda + (k + m))))"
        using b assms(6) by (simp only:, intro does_term) (simp_all add: add.assoc del: upt_rec_numeral)
    qed
  qed
qed (use assms(3) in simp_all)

lemma row_block: "0 < W \<Longrightarrow> j < n \<Longrightarrow> i + W \<le> n \<Longrightarrow> block_at n j 1 i W W (\<lambda>p. i + p + j * n)"
  by (simp add: block_at_def)

lemma ae_main_fills:
  assumes "lda * lda \<le> length A" "lda * lda \<le> length BB" "lda * lda \<le> L" "8 dvd lda" "(q + 1) * (lda div ncores) \<le> lda"
    and "\<forall>i < lda. \<forall>k < lda. BB ! (i * lda + k) = B ! (k * lda + i)"
  shows "fills lda A B L {q * (lda div ncores)..<(q + 1) * (lda div ncores)} {0..<lda} (ae_main q ncores lda A BB)"
  unfolding ae_main_def
proof (rule puts_cols[OF splits_steps], goal_cases)
  case (4 i)
  have "4 dvd lda - 0" using dvd_trans[of 4 8 lda] assms(4) by simp
  then have i: "i + 4 \<le> lda" using steps_mem(2)[OF 4] by simp
  show ?case
  proof (rule puts_rows[OF splits_upt])
    fix j assume "j \<in> set [q * (lda div ncores)..<(q + 1) * (lda div ncores)]"
    then have j: "j < lda" using assms(5) by simp
    have "{j..<j + 1} = {j}" by auto
    then show "fills lda A B L {j} {i..<i + 4} (\<lambda>C. do {
       cs \<leftarrow> bb_sums 4 lda A BB i j (replicate 4 0);
       store cs (\<lambda>p. i + p + j * lda) 4 C })"
      using fills_block[OF bb_sums_does[OF assms(1,2,4) i j assms(6)] row_block[OF _ j i] assms(3)] by simp
  qed
qed (use assms(4) dvd_trans[of 4 8 lda] in simp_all)

lemma ce_block_adds:
  assumes "lda * lda \<le> length A" "lda * lda \<le> length BB" "lda * lda \<le> L" "8 dvd lda" "i + 8 \<le> lda" "j < lda"
    and "\<forall>i < lda. \<forall>k < lda. BB ! (i * lda + k) = B ! (k * lda + i)"
  shows "adds lda A B L ({j} \<times> {0..<lda} \<times> {i..<i + 8}) (\<lambda>C. do {
    cs \<leftarrow> bb_sums 8 lda A BB i j (replicate 8 0);
    each [0..<8] (\<lambda>p C. do { c \<leftarrow> rd cs p; add_at (i + p + j * lda) c C }) C })"
proof -
  have l: "length (replicate 8 (0 :: s32)) = 8" by simp
  obtain cs where cs: "bb_sums 8 lda A BB i j (replicate 8 0) = Some cs" "length cs = 8"
    "\<And>p. p < 8 \<Longrightarrow> cs ! p = replicate 8 0 ! p + (\<Sum>t \<in> {t \<in> {j..<j + 1} \<times> {0..<lda} \<times> {i..<i + 8}. blk j i 8 t = p}. trm lda A B t)"
    using doesD[OF bb_sums_does[OF assms(1,2,4-7)] l] by blast
  have p: "cs ! p = (\<Sum>t \<in> {j} \<times> {0..<lda} \<times> {i + p}. trm lda A B t)" if "p < 8" for p
  proof -
    have "{t \<in> {j..<j + 1} \<times> {0..<lda} \<times> {i..<i + 8}. blk j i 8 t = p} = {j} \<times> {0..<lda} \<times> {i + p}"
      using that by auto
    then show ?thesis using cs(3)[OF that] that by simp
  qed
  have "adds lda A B L ({j} \<times> {0..<lda} \<times> {i..<i + 8}) (each [0..<8] (\<lambda>p C. do { c \<leftarrow> rd cs p; add_at (i + p + j * lda) c C }))"
  proof (rule does_cols[OF splits_unroll], rule does_rd)
    fix x assume "x \<in> set [0..<8 :: nat]"
    then have x: "x < 8" "i + x < lda" using assms(5) by simp_all
    show "x < length cs" using x(1) cs(2) by simp
    show "adds lda A B L ({j} \<times> {0..<lda} \<times> {i + x}) (add_at (i + x + j * lda) (cs ! x))"
      by (rule does_sum) (use x cell_in[OF x(2) assms(6,3)] p in auto)
  qed
  then show ?thesis using cs(1) by (simp add: does_cong)
qed

lemma ce_main_adds:
  assumes "lda * lda \<le> length A" "lda * lda \<le> length BB" "lda * lda \<le> L" "lda = 32" "8 dvd 32 div ncores" "ncores dvd 32" "q < ncores"
    and "\<forall>i < lda. \<forall>k < lda. BB ! (i * lda + k) = B ! (k * lda + i)"
  shows "adds lda A B L ({q * (lda div ncores)..<(q + 1) * (lda div ncores)} \<times> {0..<lda} \<times> {0..<lda}) (ce_main q ncores lda A BB)"
proof -
  have c: "distinct [0..<ncores]" "set [0..<ncores] = {0..<ncores}" by simp_all
  have s: "splits [0..<ncores] (\<lambda>x. {x * (32 div ncores)..<(x + 1) * (32 div ncores)}) {0..<lda}"
    using splits_shares[OF c, of 32] assms(4,6) by simp
  show ?thesis
    unfolding ce_main_def
  proof (rule does_cols[OF s], rule does_cols[OF splits_steps], goal_cases)
    case (4 x i)
    have d: "8 dvd (x + 1) * (32 div ncores) - x * (32 div ncores)" using assms(5) by (simp add: diff_mult_distrib[symmetric])
    have "(x + 1) * (32 div ncores) \<le> 32" by (rule share_le) (use 4(1) assms(6) in simp_all)
    then have i: "i + 8 \<le> lda" using steps_mem(2)[OF 4(2) d] assms(4) by simp
    show ?case
    proof (rule does_rows[OF splits_upt])
      fix j assume j: "j \<in> set [q * (lda div ncores)..<(q + 1) * (lda div ncores)]"
      have "(q + 1) * (lda div ncores) \<le> lda" by (rule share_le) (use assms in simp_all)
      then show "adds lda A B L ({j} \<times> {0..<lda} \<times> {i..<i + 8}) (\<lambda>C. do {
          cs \<leftarrow> bb_sums 8 lda A BB i j (replicate 8 0);
          each [0..<8] (\<lambda>p C. do { c \<leftarrow> rd cs p; add_at (i + p + j * lda) c C }) C })"
        using ce_block_adds[OF assms(1-3) _ i _ assms(8)] j assms(4) by simp
    qed
  qed (use assms(5) in \<open>simp_all add: diff_mult_distrib[symmetric]\<close>)
qed

lemma ae_run_product:
  assumes "lda * lda \<le> length A" "lda * lda \<le> length B" "lda * lda \<le> length C" "lda * lda \<le> length BB" "8 dvd lda" "0 < lda" "ncores dvd lda"
    and "distinct ids" "set ids = {0..<ncores}" "distinct ids'" "set ids' = {0..<ncores}"
  shows "\<exists>C'. ae_run ids ids' BB ncores lda A B C = Some C' \<and> is_product lda A B C C'"
proof -
  obtain BB' where BB: "each ids (\<lambda>q. bb_transpose q ncores lda B) BB = Some BB'" "length BB' = length BB"
    "\<forall>i < lda. \<forall>k < lda. BB' ! (i * lda + k) = B ! (k * lda + i)"
    using bb_transposes[OF assms(2,4,8,9,7,6)] by blast
  have "fills lda A B (length C) {0..<lda} {0..<lda} (each ids' (\<lambda>q. ae_main q ncores lda A BB'))"
  proof (rule puts_rows[OF splits_shares[OF assms(10,11,7,6)]])
    fix q assume "q \<in> set ids'"
    then have "(q + 1) * (lda div ncores) \<le> lda" using share_le assms(7,11) by simp
    then show "fills lda A B (length C) {q * (lda div ncores)..<(q + 1) * (lda div ncores)} {0..<lda} (ae_main q ncores lda A BB')"
      using ae_main_fills BB(2,3) assms by simp
  qed
  from fills_product[OF this assms(3) refl] show ?thesis using BB(1) by (simp add: ae_run_def)
qed

lemma ce_run_product:
  assumes "lda * lda \<le> length A" "lda * lda \<le> length B" "lda * lda \<le> length C" "lda * lda \<le> length BB" "lda = 32" "8 dvd 32 div ncores" "ncores dvd 32"
    and "distinct ids" "set ids = {0..<ncores}" "distinct ids'" "set ids' = {0..<ncores}"
  shows "\<exists>C'. ce_run ids ids' BB ncores lda A B C = Some C' \<and> adds_product lda UNIV A B C C'"
proof -
  have d: "ncores dvd lda" "0 < lda" using assms(5,7) by simp_all
  obtain BB' where BB: "each ids (\<lambda>q. bb_transpose q ncores lda B) BB = Some BB'" "length BB' = length BB"
    "\<forall>i < lda. \<forall>k < lda. BB' ! (i * lda + k) = B ! (k * lda + i)"
    using bb_transposes[OF assms(2,4,8,9) d] by blast
  have "adds lda A B (length C) ({0..<lda} \<times> {0..<lda} \<times> {0..<lda}) (each ids' (\<lambda>q. ce_main q ncores lda A BB'))"
  proof (rule does_rows[OF splits_shares[OF assms(10,11) d]])
    fix q assume "q \<in> set ids'"
    then show "adds lda A B (length C) ({q * (lda div ncores)..<(q + 1) * (lda div ncores)} \<times> {0..<lda} \<times> {0..<lda}) (ce_main q ncores lda A BB')"
      by (intro ce_main_adds) (use BB(2,3) assms in simp_all)
  qed
  from all_terms[OF this assms(3) refl] show ?thesis using BB(1) by (simp add: ce_run_def)
qed

section \<open>\<open>dm\<close>: the last core works on a copy of \<open>B\<close>\<close>

text \<open>The last core copies the first \<open>lda * lda / ncores\<close> elements, every other core the rest.\<close>

definition dm_fill :: "nat \<Rightarrow> nat \<Rightarrow> nat \<Rightarrow> s32 list \<Rightarrow> s32 list \<Rightarrow> s32 list option" where
  "dm_fill coreid ncores lda B B1 = (
     if coreid = ncores - 1 then each [0..<lda * lda div ncores] (\<lambda>i B1. do { b \<leftarrow> rd B i; wr B1 i b }) B1
     else each [lda * lda div ncores..<lda * lda] (\<lambda>i B1. do { b \<leftarrow> rd B i; wr B1 i b }) B1)"

text \<open>\<open>tempB\<close> to \<open>tempB_3\<close> in turn, each used for the four rows; the local \<open>4 * r + c\<close> is row \<open>i + r\<close>, column \<open>j + c\<close>.\<close>

definition dm_block :: "nat \<Rightarrow> s32 list \<Rightarrow> s32 list \<Rightarrow> nat \<Rightarrow> nat \<Rightarrow> s32 list \<Rightarrow> s32 list option" where
  "dm_block lda A B i j C = do {
     temps \<leftarrow> load C (\<lambda>p. j + p mod 4 + (i + p div 4) * lda) 16;
     temps \<leftarrow> each [0..<lda] (\<lambda>k. each [0..<4] (\<lambda>c temps. do {
       tempB \<leftarrow> rd B (j + c + k * lda);
       each [0..<4] (\<lambda>r temps. do {
         a \<leftarrow> rd A (k + (i + r) * lda);
         add_at (4 * r + c) (a * tempB) temps }) temps })) temps;
     store temps (\<lambda>p. j + p mod 4 + (i + p div 4) * lda) 16 C }"

definition dm_main :: "nat \<Rightarrow> nat \<Rightarrow> nat \<Rightarrow> s32 list \<Rightarrow> s32 list \<Rightarrow> s32 list \<Rightarrow> s32 list option" where
  "dm_main lo bound lda A B = each (steps lo (bound div 4 * 4) 4) (\<lambda>i. each (steps 0 (lda div 4 * 4) 4) (\<lambda>j. dm_block lda A B i j))"

definition dm_matmul :: "nat \<Rightarrow> nat \<Rightarrow> nat \<Rightarrow> s32 list \<Rightarrow> s32 list \<Rightarrow> s32 list \<Rightarrow> s32 list \<Rightarrow> s32 list option" where
  "dm_matmul coreid ncores lda A B B1 C = (
     let space = lda div ncores; bound = space * coreid + space
     in if coreid \<noteq> ncores - 1 then dm_main (space * coreid) bound lda A B C
        else dm_main (space * coreid) lda lda A B1 C)"

definition dm_run :: "nat list \<Rightarrow> nat list \<Rightarrow> s32 list \<Rightarrow> nat \<Rightarrow> nat \<Rightarrow> s32 list \<Rightarrow> s32 list \<Rightarrow> s32 list \<Rightarrow> s32 list option" where
  "dm_run ids ids' B1 ncores lda A B C = do {
     B1 \<leftarrow> each ids (\<lambda>q. dm_fill q ncores lda B) B1;
     each ids' (\<lambda>q. dm_matmul q ncores lda A B B1) C }"

lemma dm_fills:
  assumes "lda * lda \<le> length B" "lda * lda \<le> length B1" "set ids = {0..<ncores}" "0 < ncores"
  shows "\<exists>B1'. each ids (\<lambda>q. dm_fill q ncores lda B) B1 = Some B1' \<and> length B1' = length B1 \<and> (\<forall>x < lda * lda. B1' ! x = B ! x)"
proof -
  let ?P = "\<lambda>q. if q = ncores - 1 then {0..<lda * lda div ncores} else {lda * lda div ncores..<lda * lda}"
  have c: "puts ((!) B) (length B1) {lo..<hi} (each [lo..<hi] (\<lambda>i B1. do { b \<leftarrow> rd B i; wr B1 i b }))" if "hi \<le> lda * lda" for lo hi
  proof -
    have "puts ((!) B) (length B1) (\<Union>x \<in> set [lo..<hi]. {x}) (each [lo..<hi] (\<lambda>i B1. do { b \<leftarrow> rd B i; wr B1 i b }))"
      by (rule puts_each, rule puts_rd[OF _ puts_one]) (use that assms in auto)
    then show ?thesis by simp
  qed
  have "lda * lda div ncores \<le> lda * lda" by simp
  then have "puts ((!) B) (length B1) (?P q) (dm_fill q ncores lda B)" for q
    unfolding dm_fill_def using c[OF order.refl, of "lda * lda div ncores"] c[of "lda * lda div ncores" 0] by simp
  then have p: "puts ((!) B) (length B1) (\<Union>q \<in> set ids. ?P q) (each ids (\<lambda>q. dm_fill q ncores lda B))" by (rule puts_each)
  have u: "x \<in> (\<Union>q \<in> set ids. ?P q)" if "x < lda * lda" for x
  proof (cases "x < lda * lda div ncores")
    case True
    then have "x \<in> ?P (ncores - 1)" by simp
    then show ?thesis using assms(3,4) by (intro UN_I[of "ncores - 1"]) simp_all
  next
    case False
    then have "1 < ncores" using that assms(4) by (cases "ncores = 1") simp_all
    then have "x \<in> ?P 0" using False that by simp
    then show ?thesis using assms(3,4) by (intro UN_I[of 0]) simp_all
  qed
  obtain B1' where "each ids (\<lambda>q. dm_fill q ncores lda B) B1 = Some B1'" "length B1' = length B1"
    "\<And>x. x < length B1 \<Longrightarrow> B1' ! x = (if x \<in> (\<Union>q \<in> set ids. ?P q) then B ! x else B1 ! x)"
    using putsD[OF p refl] by blast
  then show ?thesis using u assms(2) by auto
qed

lemma dm_block_adds:
  assumes "lda * lda \<le> length A" "lda * lda \<le> length B'" "lda * lda \<le> L" "i + 4 \<le> lda" "j + 4 \<le> lda" "\<forall>x < lda * lda. B' ! x = B ! x"
  shows "adds lda A B L ({i..<i + 4} \<times> {0..<lda} \<times> {j..<j + 4}) (dm_block lda A B' i j)"
  unfolding dm_block_def
proof (rule adds_block[OF _ _ assms(3)])
  show "block_at lda i 4 j 4 16 (\<lambda>p. j + p mod 4 + (i + p div 4) * lda)"
    using assms(4,5) by (simp add: block_at_def)
  show "does (blk i j 4) (trm lda A B) 16 ({i..<i + 4} \<times> {0..<lda} \<times> {j..<j + 4}) (each [0..<lda] (\<lambda>k. each [0..<4] (\<lambda>c temps. do {
       tempB \<leftarrow> rd B' (j + c + k * lda);
       each [0..<4] (\<lambda>r temps. do {
         a \<leftarrow> rd A (k + (i + r) * lda);
         add_at (4 * r + c) (a * tempB) temps }) temps })))"
  proof (rule does_sums[OF splits_upt], rule does_cols[OF splits_unroll], rule does_rd, goal_cases)
    case (1 k c)
    then show ?case using cell_in[of "j + c" lda k "length B'"] assms(2,5) by simp
  next
    case (2 k c)
    then have b: "k < lda" "j + c < lda" "c < 4" using assms(5) by simp_all
    show ?case
    proof (rule does_rows[OF splits_unroll], rule does_rd)
      fix r assume "r \<in> set [0..<4 :: nat]"
      then have r: "i + r < lda" "r < 4" using assms(4) by simp_all
      show "k + (i + r) * lda < length A" by (rule cell_in[OF b(1) r(1) assms(1)])
      show "does (blk i j 4) (trm lda A B) 16 ({i + r} \<times> {k} \<times> {j + c}) (add_at (4 * r + c) (A ! (k + (i + r) * lda) * B' ! (j + c + k * lda)))"
        by (rule does_term) (use b r assms(6) cell_less[OF b(2,1)] in \<open>simp_all add: ac_simps\<close>)
    qed
  qed
qed

lemma dm_main_adds:
  assumes "lda * lda \<le> length A" "lda * lda \<le> length B'" "lda * lda \<le> L" "4 dvd lda" "lo \<le> bound" "4 dvd lo" "4 dvd bound" "bound \<le> lda"
    and "\<forall>x < lda * lda. B' ! x = B ! x"
  shows "adds lda A B L ({lo..<bound} \<times> {0..<lda} \<times> {0..<lda}) (dm_main lo bound lda A B')"
proof -
  have d: "4 dvd bound - lo" using assms(6,7) by (rule dvd_diff_nat[rotated])
  show ?thesis
    unfolding dm_main_def dvd_div_mult_self[OF assms(4)] dvd_div_mult_self[OF assms(7)]
  proof (rule does_rows[OF splits_steps[OF assms(5) d]], simp, rule does_cols[OF splits_steps], goal_cases)
    case (4 i j)
    have "i + 4 \<le> lda" "j + 4 \<le> lda" using steps_mem(2)[OF 4(1) d] steps_mem(2)[OF 4(2)] assms(4,8) by simp_all
    then show ?case using dm_block_adds assms by simp
  qed (use assms(4) in simp_all)
qed

lemma dm_run_product:
  assumes "lda * lda \<le> length A" "lda * lda \<le> length B" "lda * lda \<le> length C" "lda * lda \<le> length B1" "4 dvd lda div ncores" "ncores dvd lda"
    and "0 < ncores" "0 < lda" "set ids = {0..<ncores}" "distinct ids'" "set ids' = {0..<ncores}"
  shows "\<exists>C'. dm_run ids ids' B1 ncores lda A B C = Some C' \<and> adds_product lda UNIV A B C C'"
proof -
  obtain B1' where B1: "each ids (\<lambda>q. dm_fill q ncores lda B) B1 = Some B1'" "length B1' = length B1" "\<forall>x < lda * lda. B1' ! x = B ! x"
    using dm_fills[OF assms(2,4,9,7)] by blast
  let ?s = "lda div ncores"
  have lda: "ncores * ?s = lda" using assms(6) by simp
  then have "4 dvd lda" using assms(5) by (metis dvd_mult)
  have "adds lda A B (length C) ({0..<lda} \<times> {0..<lda} \<times> {0..<lda}) (each ids' (\<lambda>q. dm_matmul q ncores lda A B B1'))"
  proof (rule does_rows[OF splits_shares[OF assms(10,11,6,8)]])
    fix q assume "q \<in> set ids'"
    then have q: "q < ncores" unfolding assms(11) by simp
    have le: "(q + 1) * ?s \<le> lda" by (rule share_le[OF q assms(6)])
    have e: "(q + 1) * ?s = ?s * q + ?s" by simp
    show "adds lda A B (length C) ({q * ?s..<(q + 1) * ?s} \<times> {0..<lda} \<times> {0..<lda}) (dm_matmul q ncores lda A B B1')"
    proof (cases "q = ncores - 1")
      case True
      then have "q + 1 = ncores" using q by simp
      then have "(q + 1) * ?s = lda" using lda by simp
      then have "adds lda A B (length C) ({q * ?s..<lda} \<times> {0..<lda} \<times> {0..<lda}) (dm_main (?s * q) lda lda A B1')"
        using dm_main_adds[of lda A B1' "length C" "?s * q" lda B] assms B1(2,3) \<open>4 dvd lda\<close> by (simp add: mult.commute)
      moreover have "dm_matmul q ncores lda A B B1' = dm_main (?s * q) lda lda A B1'"
        by (rule ext) (simp add: dm_matmul_def True)
      ultimately show ?thesis unfolding \<open>(q + 1) * ?s = lda\<close> by simp
    next
      case False
      have "adds lda A B (length C) ({?s * q..<?s * q + ?s} \<times> {0..<lda} \<times> {0..<lda}) (dm_main (?s * q) (?s * q + ?s) lda A B)"
        by (rule dm_main_adds) (use assms \<open>4 dvd lda\<close> le in \<open>simp_all add: e mult.commute add.commute\<close>)
      moreover have "dm_matmul q ncores lda A B B1' = dm_main (?s * q) (?s * q + ?s) lda A B"
        using False by (intro ext) (simp add: dm_matmul_def Let_def)
      ultimately show ?thesis unfolding e by (simp add: mult.commute add.commute)
    qed
  qed
  from all_terms[OF this assms(3) refl] show ?thesis using B1(1) by (simp add: dm_run_def)
qed

end
