(* ===== verification/Mt_Blocks.thy ===== *)
theory Mt_Blocks
  imports Mt_Kernels
begin

text \<open>
  The multiplications of \<open>mt/\<close> with register blocks that take the dimension from \<open>lda\<close>: \<open>ak\<close> and \<open>ck\<close>,
  which divide the rows into blocks of 16, and \<open>bh\<close> and \<open>bj\<close>, written for two cores.
\<close>

section \<open>\<open>ak\<close>: eight columns in locals\<close>

text \<open>The locals \<open>c1\<close> to \<open>c8\<close> are the elements \<open>C[i + j*lda]\<close> to \<open>C[i + j*lda + 7]\<close>.\<close>

definition ak_block :: "nat \<Rightarrow> s32 list \<Rightarrow> s32 list \<Rightarrow> nat \<Rightarrow> nat \<Rightarrow> s32 list \<Rightarrow> s32 list option" where
  "ak_block lda A B j i C = do {
     c \<leftarrow> load C (\<lambda>p. i + j * lda + p) 8;
     c \<leftarrow> each (steps 0 lda 4) (\<lambda>k. each [0..<4] (\<lambda>x.
       reg_step A B (\<lambda>_. j * lda + k + x) 1 (\<lambda>p. (k + x) * lda + i + p) 8)) c;
     store c (\<lambda>p. i + j * lda + p) 8 C }"

definition ak_matmul :: matmul_fun where
  "ak_matmul coreid ncores lda A B = (let bsize = 16 in
     each (steps (bsize * coreid) lda (bsize * ncores)) (\<lambda>jj. each (steps 0 lda bsize) (\<lambda>ii.
       each [jj..<min lda (jj + bsize)] (\<lambda>j. each (steps ii (min lda (ii + bsize)) 8) (ak_block lda A B j)))))"

lemma ak_block_adds:
  assumes "lda * lda \<le> length A" "lda * lda \<le> length B" "lda * lda \<le> L" "j < lda" "i + 8 \<le> lda" "4 dvd lda"
  shows "adds lda A B L ({j} \<times> {0..<lda} \<times> {i..<i + 8}) (ak_block lda A B j i)"
proof -
  have "does (blk j i 8) (trm lda A B) 8 ({j..<j + 1} \<times> {0..<lda} \<times> {i..<i + 8}) (each (steps 0 lda 4) (\<lambda>k. each [0..<4] (\<lambda>x.
       reg_step A B (\<lambda>_. j * lda + k + x) 1 (\<lambda>p. (k + x) * lda + i + p) 8)))"
  proof (rule does_sums[OF splits_steps], simp, use assms(6) in simp, simp, rule does_sums[OF splits_unroll])
    fix k x assume k: "k \<in> set (steps 0 lda 4)" and x: "x \<in> set [0..<4]"
    have kx: "k + x < lda" using steps_mem(2)[OF k] assms(6) x by simp
    show "does (blk j i 8) (trm lda A B) 8 ({j..<j + 1} \<times> {k + x} \<times> {i..<i + 8})
        (reg_step A B (\<lambda>_. j * lda + k + x) 1 (\<lambda>p. (k + x) * lda + i + p) 8)"
      by (rule does_reg_step) (use assms(1,2,4,5) kx row_less[of j lda "k + x" "length A"]
        row_less[of "k + x" lda "i + _" "length B"] in \<open>auto simp: add.assoc\<close>)
  qed
  from adds_block[OF this, where f = "\<lambda>p. i + j * lda + p" and L = L] have "adds lda A B L ({j..<j + 1} \<times> {0..<lda} \<times> {i..<i + 8}) (ak_block lda A B j i)"
    using assms(3-5) unfolding ak_block_def by (simp add: block_at_def)
  then show ?thesis by simp
qed

lemma ak_adds:
  assumes "lda * lda \<le> length A" "lda * lda \<le> length B" "lda * lda \<le> L" "16 dvd lda" "q < ncores"
  shows "adds lda A B L (bstride 16 ncores lda q \<times> {0..<lda} \<times> {0..<lda}) (ak_matmul q ncores lda A B)"
  unfolding ak_matmul_def Let_def
proof (rule does_rows[OF splits_bstride[OF assms(4) _ assms(5)]], simp, rule does_cols[OF splits_steps], goal_cases)
  case (4 jj ii)
  have jj: "jj + 16 \<le> lda" using bstride_mem[OF 4(1) assms(4) _ assms(5)] by auto
  have ii: "ii + 16 \<le> lda" using steps_mem(2)[OF 4(2)] assms(4) by simp
  have d: "4 dvd lda" using dvd_trans[of 4 16 lda] assms(4) by simp
  show ?case unfolding min_absorb2[OF jj] min_absorb2[OF ii]
  proof (rule does_rows[OF splits_upt], rule does_cols[OF splits_steps], goal_cases)
    case (4 j i)
    then show ?case using steps_mem(2)[OF 4(2)] ii jj d assms(1-3) by (intro ak_block_adds) simp_all
  qed simp_all
qed (use assms(4) in simp_all)

section \<open>\<open>ck\<close>: four rows and two columns in locals\<close>

text \<open>The locals \<open>c1\<close> to \<open>c8\<close> are numbered by rows: \<open>c1\<close>, \<open>c2\<close> for row \<open>j\<close>, \<open>c3\<close>, \<open>c4\<close> for row \<open>j + 1\<close> and so on.\<close>

definition ck_block :: "nat \<Rightarrow> s32 list \<Rightarrow> s32 list \<Rightarrow> nat \<Rightarrow> nat \<Rightarrow> s32 list \<Rightarrow> s32 list option" where
  "ck_block lda A B j i C = do {
     c \<leftarrow> load C (\<lambda>p. i + (j + p div 2) * lda + p mod 2) 8;
     c \<leftarrow> each (steps 0 lda 8) (\<lambda>k. each [0..<8] (\<lambda>x.
       reg_step A B (\<lambda>r. (j + r) * lda + k + x) 4 (\<lambda>p. (k + x) * lda + i + p) 2)) c;
     store c (\<lambda>p. i + (j + p div 2) * lda + p mod 2) 8 C }"

text \<open>
  \<open>for (ii = start; ii != start || first; ii = (bsize+ii) % lda)\<close>: the values of \<open>ii\<close> in turn, \<open>None\<close>
  when \<open>fuel\<close> passes are not enough.
\<close>

fun ck_blocks :: "nat \<Rightarrow> nat \<Rightarrow> nat \<Rightarrow> nat \<Rightarrow> nat list option" where
  "ck_blocks 0 lda start ii = None"
| "ck_blocks (Suc fuel) lda start ii = (let ii' = (16 + ii) mod lda in
     if ii' \<noteq> start then map_option (\<lambda>iis. ii # iis) (ck_blocks fuel lda start ii') else Some [ii])"

definition ck_matmul :: matmul_fun where
  "ck_matmul coreid ncores lda A B = (let bsize = 16; start = bsize * coreid in
     each (steps start lda (bsize * ncores)) (\<lambda>jj C. do {
       iis \<leftarrow> ck_blocks lda lda start start;
       each iis (\<lambda>ii. each (steps jj (min lda (jj + bsize)) 4) (\<lambda>j.
         each (steps ii (min lda (ii + bsize)) 2) (ck_block lda A B j))) C }))"

lemma ck_block_adds:
  assumes "lda * lda \<le> length A" "lda * lda \<le> length B" "lda * lda \<le> L" "j + 4 \<le> lda" "i + 2 \<le> lda" "8 dvd lda"
  shows "adds lda A B L ({j..<j + 4} \<times> {0..<lda} \<times> {i..<i + 2}) (ck_block lda A B j i)"
proof -
  have "does (blk j i 2) (trm lda A B) 8 ({j..<j + 4} \<times> {0..<lda} \<times> {i..<i + 2}) (each (steps 0 lda 8) (\<lambda>k. each [0..<8] (\<lambda>x.
       reg_step A B (\<lambda>r. (j + r) * lda + k + x) 4 (\<lambda>p. (k + x) * lda + i + p) 2)))"
  proof (rule does_sums[OF splits_steps], simp, use assms(6) in simp, simp, rule does_sums[OF splits_unroll])
    fix k x assume k: "k \<in> set (steps 0 lda 8)" and x: "x \<in> set [0..<8]"
    have kx: "k + x < lda" using steps_mem(2)[OF k] assms(6) x by simp
    show "does (blk j i 2) (trm lda A B) 8 ({j..<j + 4} \<times> {k + x} \<times> {i..<i + 2})
        (reg_step A B (\<lambda>r. (j + r) * lda + k + x) 4 (\<lambda>p. (k + x) * lda + i + p) 2)"
      by (rule does_reg_step) (use assms(1,2,4,5) kx row_less[of "j + _" lda "k + x" "length A"]
        row_less[of "k + x" lda "i + _" "length B"] in \<open>auto simp: add.assoc\<close>)
  qed
  from adds_block[OF this, where f = "\<lambda>p. i + (j + p div 2) * lda + p mod 2" and L = L] show ?thesis
    using assms(3-5) unfolding ck_block_def by (simp add: block_at_def)
qed

text \<open>The loop over \<open>ii\<close> visits every block of 16 columns once, and ends within \<open>lda\<close> passes.\<close>

lemma ck_blocks_eq:
  assumes "lda = 16 * m" "start = 16 * s" "s < m" "t < m" "m \<le> t + fuel"
  shows "ck_blocks fuel lda start (16 * ((s + t) mod m)) = Some (map (\<lambda>t. 16 * ((s + t) mod m)) [t..<m])"
  using assms(4,5)
proof (induction fuel arbitrary: t)
  case 0 then show ?case by simp
next
  case (Suc fuel)
  have n: "(16 + 16 * ((s + t) mod m)) mod lda = 16 * ((s + Suc t) mod m)"
  proof -
    have "(16 + 16 * ((s + t) mod m)) mod lda = (16 * Suc ((s + t) mod m)) mod (16 * m)"
      unfolding assms(1) mult_Suc_right ..
    also have "\<dots> = 16 * (Suc ((s + t) mod m) mod m)" by (rule mult_mod_right[symmetric])
    finally show ?thesis by (simp add: mod_Suc_eq)
  qed
  have u: "[t..<m] = t # [Suc t..<m]" using Suc.prems(1) by (simp add: upt_conv_Cons)
  show ?case
  proof (cases "Suc t = m")
    case True
    have "s + Suc t = s + m" using True by simp
    then have "(s + Suc t) mod m = s" using assms(3) by simp
    then have "(16 + 16 * ((s + t) mod m)) mod lda = start" using n assms(2) by simp
    moreover have "[t..<m] = [t]" using True by (metis upt_rec lessI less_irrefl)
    ultimately show ?thesis by simp
  next
    case False
    then have t: "Suc t < m" using Suc.prems by simp
    have "(s + Suc t) mod m = (if s + Suc t < m then s + Suc t else s + Suc t - m)"
      using assms(3) t by (auto simp: mod_if)
    then have "(s + Suc t) mod m \<noteq> s" using t by (auto split: if_splits)
    then have "(16 + 16 * ((s + t) mod m)) mod lda \<noteq> start" using n assms(2) by simp
    moreover have "ck_blocks fuel lda start (16 * ((s + Suc t) mod m)) = Some (map (\<lambda>t. 16 * ((s + t) mod m)) [Suc t..<m])"
      by (rule Suc.IH) (use t Suc.prems in simp_all)
    ultimately show ?thesis using n u by (simp add: Let_def)
  qed
qed

lemma splits_rotated:
  assumes "s < m"
  shows "splits (map (\<lambda>t. 16 * ((s + t) mod m)) [0..<m]) (\<lambda>ii. {ii..<ii + 16}) {0..<16 * m :: nat}"
proof -
  have inj: "inj_on (\<lambda>t. (s + t) mod m) {0..<m}"
  proof (rule inj_onI)
    fix x y assume xy: "x \<in> {0..<m}" "y \<in> {0..<m}" "(s + x) mod m = (s + y) mod m"
    have "(s + x) mod m = (if s + x < m then s + x else s + x - m)" "(s + y) mod m = (if s + y < m then s + y else s + y - m)"
      using xy(1,2) assms by (auto simp: mod_if)
    then show "x = y" using xy by (auto split: if_splits)
  qed
  have "(\<lambda>t. (s + t) mod m) ` {0..<m} \<subseteq> {0..<m}" using assms by auto
  then have img: "(\<lambda>t. (s + t) mod m) ` {0..<m} = {0..<m}" using inj by (intro card_subset_eq) (simp_all add: card_image)
  have "(\<Union>ii \<in> (\<lambda>t. 16 * ((s + t) mod m)) ` {0..<m}. {ii..<ii + 16}) = (\<Union>u \<in> (\<lambda>t. (s + t) mod m) ` {0..<m}. {16 * u..<16 * u + 16})"
    by (simp only: image_image)
  also have "\<dots> = {0..<16 * m}" using tiles[where st = 16 and m = m and lo = 0] unfolding img by (simp add: mult.commute)
  finally have cover: "(\<Union>ii \<in> (\<lambda>t. 16 * ((s + t) mod m)) ` {0..<m}. {ii..<ii + 16}) = {0..<16 * m}" .
  have inj16: "inj_on (\<lambda>t. 16 * ((s + t) mod m)) {0..<m}"
  proof (rule inj_onI)
    fix x y assume xy: "x \<in> {0..<m}" "y \<in> {0..<m}" and "16 * ((s + x) mod m) = 16 * ((s + y) mod m)"
    then have "(s + x) mod m = (s + y) mod m" by linarith
    then show "x = y" using inj_onD[OF inj] xy by blast
  qed
  have "{ii..<ii + 16} \<inter> {ii'..<ii' + 16} = {}"
    if ii: "ii \<in> (\<lambda>t. 16 * ((s + t) mod m)) ` {0..<m}" "ii' \<in> (\<lambda>t. 16 * ((s + t) mod m)) ` {0..<m}" "ii \<noteq> ii'" for ii ii'
  proof -
    obtain u u' where "ii = 16 * u" "ii' = 16 * u'" using ii(1,2) by (elim imageE)
    then show ?thesis using ii(3) tiles_disjoint[where q = u and r = u' and lo = 0 and st = 16]
      by (simp add: mult.commute del: Int_atLeastLessThan)
  qed
  then show ?thesis unfolding splits_def set_map set_upt distinct_map using inj16 cover
    by (simp only: distinct_upt set_upt simp_thms) blast
qed

lemma ck_adds:
  assumes "lda * lda \<le> length A" "lda * lda \<le> length B" "lda * lda \<le> L" "16 dvd lda" "q < ncores"
  shows "adds lda A B L (bstride 16 ncores lda q \<times> {0..<lda} \<times> {0..<lda}) (ck_matmul q ncores lda A B)"
  unfolding ck_matmul_def Let_def
proof (rule does_rows[OF splits_bstride[OF assms(4) _ assms(5)]], simp)
  fix jj assume 1: "jj \<in> set (steps (16 * q) lda (16 * ncores))"
  have jj: "jj + 16 \<le> lda" using bstride_mem[OF 1 assms(4) _ assms(5)] by auto
  have d: "8 dvd lda" using dvd_trans[of 8 16 lda] assms(4) by simp
  obtain m where m: "lda = 16 * m" using assms(4) by (auto elim: dvdE)
  have "16 * q \<le> jj" using 1 assms(5) by (auto simp: steps_iff)
  then have q: "q < m" using jj m by simp
  let ?iis = "map (\<lambda>t. 16 * ((q + t) mod m)) [0..<m]"
  have iis: "ck_blocks lda lda (16 * q) (16 * q) = Some ?iis"
    using ck_blocks_eq[OF m refl q, of 0 lda] q m by simp
  have "adds lda A B L ({jj..<jj + 16} \<times> {0..<lda} \<times> {0..<lda}) (each ?iis (\<lambda>ii. each (steps jj (min lda (jj + 16)) 4) (\<lambda>j.
         each (steps ii (min lda (ii + 16)) 2) (ck_block lda A B j))))"
    unfolding min_absorb2[OF jj]
  proof (rule does_cols[OF splits_rotated[OF q, folded m]], rule does_rows[OF splits_steps], goal_cases)
    case (4 ii j)
    have "(q + t) mod m < m" for t using q by simp
    then have "16 * ((q + t) mod m) + 16 \<le> lda" for t using m by (metis Suc_leI mult_le_mono2 mult_Suc_right add.commute)
    then have ii: "ii + 16 \<le> lda" using 4(1) by auto
    show ?case unfolding min_absorb2[OF ii]
    proof (rule does_cols[OF splits_steps], goal_cases)
      case i: (4 i)
      show ?case using steps_mem(2)[OF i] steps_mem(2)[OF 4(2)] ii jj d assms(1-3) by (intro ck_block_adds) simp_all
    qed simp_all
  qed simp_all
  then show "adds lda A B L ({jj..<jj + 16} \<times> {0..<lda} \<times> {0..<lda}) (\<lambda>C. do {
       iis \<leftarrow> ck_blocks lda lda (16 * q) (16 * q);
       each iis (\<lambda>ii. each (steps jj (min lda (jj + 16)) 4) (\<lambda>j.
         each (steps ii (min lda (ii + 16)) 2) (ck_block lda A B j))) C })"
    unfolding iis by simp
qed

section \<open>\<open>bh\<close> and \<open>bj\<close>: pairs of terms, the halves of \<open>A\<close> and \<open>B\<close> one after the other\<close>

text \<open>
  Core 0: \<open>tempC0\<close> to \<open>tempC7\<close> are \<open>C[i + j*lda]\<close> to \<open>C[i + j*lda + 7]\<close>. The index \<open>iB0\<close> starts at
  \<open>m*lda*lda/2 + i\<close> and advances by \<open>2*lda\<close> whenever \<open>k\<close> advances by 2; \<open>iB1\<close> is one row further.
\<close>

definition bh_up :: "nat \<Rightarrow> s32 list \<Rightarrow> s32 list \<Rightarrow> nat \<Rightarrow> nat \<Rightarrow> nat \<Rightarrow> s32 list \<Rightarrow> s32 list option" where
  "bh_up lda A B m j i C = do {
     tempC \<leftarrow> load C (\<lambda>p. i + j * lda + p) 8;
     tempC \<leftarrow> each (steps (m * lda div 2) ((m + 1) * lda div 2) 2) (\<lambda>k tempC. (
       let iB0 = m * lda * lda div 2 + i + (k - m * lda div 2) * lda; iB1 = iB0 + lda in do {
         tempA0 \<leftarrow> rd A (j * lda + k);
         tempA1 \<leftarrow> rd A (j * lda + k + 1);
         each [0..<8] (\<lambda>p tempC. do {
           b0 \<leftarrow> rd B (iB0 + p);
           b1 \<leftarrow> rd B (iB1 + p);
           add_at p (tempA0 * b0 + tempA1 * b1) tempC }) tempC })) tempC;
     store tempC (\<lambda>p. i + j * lda + p) 8 C }"

definition bh_core0 :: "nat \<Rightarrow> s32 list \<Rightarrow> s32 list \<Rightarrow> s32 list \<Rightarrow> s32 list option" where
  "bh_core0 lda A B = each [0..<2] (\<lambda>m. each [0..<lda div 2] (\<lambda>j. each (steps 0 lda 8) (bh_up lda A B m j)))"

text \<open>Core 1 goes downwards: \<open>tempC0\<close> to \<open>tempC7\<close> are \<open>C[i + j*lda]\<close> to \<open>C[i + j*lda - 7]\<close>.\<close>

definition bh_down :: "nat \<Rightarrow> s32 list \<Rightarrow> s32 list \<Rightarrow> nat \<Rightarrow> nat \<Rightarrow> nat \<Rightarrow> s32 list \<Rightarrow> s32 list option" where
  "bh_down lda A B m j i C = do {
     tempC \<leftarrow> load C (\<lambda>p. i + j * lda - p) 8;
     tempC \<leftarrow> each (downs ((m - 1) * lda div 2) (m * lda div 2) 2) (\<lambda>k tempC. do {
       tempA0 \<leftarrow> rd A (j * lda + k);
       tempA1 \<leftarrow> rd A (j * lda + k - 1);
       each [0..<8] (\<lambda>p tempC. do {
         b0 \<leftarrow> rd B (k * lda + i - p);
         b1 \<leftarrow> rd B ((k - 1) * lda + i - p);
         add_at p (tempA0 * b0 + tempA1 * b1) tempC }) tempC }) tempC;
     store tempC (\<lambda>p. i + j * lda - p) 8 C }"

definition bh_core1 :: "nat \<Rightarrow> s32 list \<Rightarrow> s32 list \<Rightarrow> s32 list \<Rightarrow> s32 list option" where
  "bh_core1 lda A B = each [2, 1] (\<lambda>m. each (downs (lda div 2) lda 1) (\<lambda>j. each (downs 0 lda 8) (bh_down lda A B m j)))"

definition bh_matmul :: matmul_fun where
  "bh_matmul coreid ncores lda A B C = (if coreid > 1 then Some C
     else two_cores (bh_core0 lda A B) (bh_core1 lda A B) coreid ncores C)"

text \<open>\<open>bj_matmul.c\<close> has the same code; only the early return stands after the declarations.\<close>

definition bj_matmul :: matmul_fun where
  "bj_matmul coreid ncores lda A B C = (if coreid > 1 then Some C
     else two_cores (bh_core0 lda A B) (bh_core1 lda A B) coreid ncores C)"

lemma bh_up_adds:
  assumes "lda * lda \<le> length A" "lda * lda \<le> length B" "lda * lda \<le> L" "j < lda" "i + 8 \<le> lda" "4 dvd lda" "m < 2"
  shows "adds lda A B L ({j} \<times> {m * lda div 2..<(m + 1) * lda div 2} \<times> {i..<i + 8}) (bh_up lda A B m j i)"
proof -
  obtain h where h: "lda = 4 * h" using assms(6) by (auto elim: dvdE)
  let ?lo = "m * lda div 2"
  have lo: "?lo = m * (2 * h)" "(m + 1) * lda div 2 = m * (2 * h) + 2 * h" "m * lda * lda div 2 = ?lo * lda"
    unfolding h by (simp_all add: algebra_simps)
  have "does (blk j i 8) (trm lda A B) 8 ({j..<j + 1} \<times> {?lo..<(m + 1) * lda div 2} \<times> {i..<i + 8})
     (each (steps ?lo ((m + 1) * lda div 2) 2) (\<lambda>k tempC. (
       let iB0 = m * lda * lda div 2 + i + (k - ?lo) * lda; iB1 = iB0 + lda in do {
         tempA0 \<leftarrow> rd A (j * lda + k);
         tempA1 \<leftarrow> rd A (j * lda + k + 1);
         each [0..<8] (\<lambda>p tempC. do {
           b0 \<leftarrow> rd B (iB0 + p);
           b1 \<leftarrow> rd B (iB1 + p);
           add_at p (tempA0 * b0 + tempA1 * b1) tempC }) tempC })))"
    unfolding Let_def
  proof (rule does_sums[OF splits_steps], goal_cases)
    case (4 k)
    have d: "2 dvd (m + 1) * lda div 2 - ?lo" unfolding lo by simp
    have k: "?lo \<le> k" "k + 2 \<le> lda"
      using steps_mem[OF 4 d] assms(7) lo(2) h by (auto simp: less_2_cases_iff)
    have b: "m * lda * lda div 2 + i + (k - ?lo) * lda + p = k * lda + (i + p)"
      "k * lda + (i + lda) + p = (k + 1) * lda + (i + p)" for p
      using k(1) unfolding lo(3) by (simp_all add: algebra_simps diff_mult_distrib)
    have s1: "{j..<j + 1} = {j}" by auto
    show ?case unfolding b s1
    proof (rule does_rd[OF row_less[OF assms(4) _ assms(1)]], use k in simp, rule does_rd, goal_cases)
      case 1 then show ?case using row_less[OF assms(4) _ assms(1), of "k + 1"] k by simp
    next
      case 2
      show ?case
      proof (rule does_cols[OF splits_unroll], rule does_rd[OF row_less], goal_cases)
        case (4 p)
        have "i + p < lda" using 4 assms(5) by simp
        then show ?case using k assms(2) by (intro does_rd[OF row_less] does_pair[where x = p]) (use 4 in \<open>simp_all add: add.assoc\<close>)
      qed (use k assms in simp_all)
    qed
  qed (unfold lo, simp_all)
  from adds_block[OF this, where f = "\<lambda>p. i + j * lda + p" and L = L] show ?thesis
    using assms(3-5) unfolding bh_up_def by (simp add: block_at_def)
qed

lemma bh_down_adds:
  assumes "lda * lda \<le> length A" "lda * lda \<le> length B" "lda * lda \<le> L" "j < lda" "i + 8 \<le> lda" "4 dvd lda" "0 < m" "m \<le> 2"
  shows "adds lda A B L ({j} \<times> {(m - 1) * lda div 2..<m * lda div 2} \<times> {i..<i + 8}) (bh_down lda A B m j (i + 7))"
  unfolding bh_down_def
proof (rule does_block[where h = "\<lambda>(j', k, i'). i + 7 - i'"], goal_cases)
  let ?h = "\<lambda>(j', k, i'). i + 7 - i'"
  case 1
  show "does ?h (trm lda A B) 8 ({j} \<times> {(m - 1) * lda div 2..<m * lda div 2} \<times> {i..<i + 8})
     (each (downs ((m - 1) * lda div 2) (m * lda div 2) 2) (\<lambda>k tempC. do {
       tempA0 \<leftarrow> rd A (j * lda + k);
       tempA1 \<leftarrow> rd A (j * lda + k - 1);
       each [0..<8] (\<lambda>p tempC. do {
         b0 \<leftarrow> rd B (k * lda + (i + 7) - p);
         b1 \<leftarrow> rd B ((k - 1) * lda + (i + 7) - p);
         add_at p (tempA0 * b0 + tempA1 * b1) tempC }) tempC }))"
  proof (rule does_sums[OF splits_downs])
    obtain h where h: "lda = 4 * h" using assms(6) by (auto elim: dvdE)
    have lo: "(m - 1) * lda div 2 = (m - 1) * (2 * h)" "m * lda div 2 = m * (2 * h)" unfolding h by simp_all
    have d: "(m - 1) * lda div 2 \<le> m * lda div 2" "2 dvd m * lda div 2 - (m - 1) * lda div 2" "0 < (2 :: nat)"
      unfolding lo by simp_all
    then show "(m - 1) * lda div 2 \<le> m * lda div 2" "2 dvd m * lda div 2 - (m - 1) * lda div 2" "0 < (2 :: nat)" by blast+
    fix k assume "k \<in> set (downs ((m - 1) * lda div 2) (m * lda div 2) 2)"
    then obtain k0 where k0: "k = k0 + 1" "k0 + 2 \<le> m * lda div 2" using downs_mem[OF _ d] by auto
    have "m * lda div 2 \<le> lda" using div_le_mono[OF mult_le_mono1[OF assms(8), of lda], of 2] by simp
    then have k: "k0 < lda" "k0 + 1 < lda" using k0(2) by simp_all
    have s: "{k - (2 - 1)..<k + 1} = {k0..<k0 + 2}" using k0(1) by simp
    show "does ?h (trm lda A B) 8 ({j} \<times> {k - (2 - 1)..<k + 1} \<times> {i..<i + 8}) (\<lambda>tempC. do {
       tempA0 \<leftarrow> rd A (j * lda + k);
       tempA1 \<leftarrow> rd A (j * lda + k - 1);
       each [0..<8] (\<lambda>p tempC. do {
         b0 \<leftarrow> rd B (k * lda + (i + 7) - p);
         b1 \<leftarrow> rd B ((k - 1) * lda + (i + 7) - p);
         add_at p (tempA0 * b0 + tempA1 * b1) tempC }) tempC })"
      unfolding s
    proof (rule does_rd, goal_cases)
      case 1 then show ?case using row_less[OF assms(4) k(2) assms(1)] k0(1) by simp
    next
      case 2
      have e: "j * lda + k - 1 = j * lda + k0" using k0(1) by simp
      show ?case unfolding e
      proof (rule does_rd[OF row_less[OF assms(4) k(1) assms(1)]], rule does_cols)
        show "splits [0..<8] (\<lambda>p. {i + 7 - p}) {i..<i + 8}"
        proof -
          have "x \<in> (\<Union>p \<in> {0..<8}. {i + 7 - p}) \<longleftrightarrow> x \<in> {i..<i + 8}" for x
            by (auto intro!: bexI[of _ "i + 7 - x"])
          then show ?thesis by (auto simp: splits_def simp del: upt_rec_numeral)
        qed
        fix p assume "p \<in> set [0..<8 :: nat]"
        then have p: "p < 8" by simp
        have b: "k * lda + (i + 7) - p = (k0 + 1) * lda + (i + 7 - p)" "(k - 1) * lda + (i + 7) - p = k0 * lda + (i + 7 - p)"
          using p k0(1) by simp_all
        have ip: "i + 7 - p < lda" using assms(5) by simp
        have jk: "j * lda + k = j * lda + (k0 + 1)" using k0(1) by simp
        show "does ?h (trm lda A B) 8 ({j} \<times> {k0..<k0 + 2} \<times> {i + 7 - p}) (\<lambda>tempC. do {
            b0 \<leftarrow> rd B (k * lda + (i + 7) - p);
            b1 \<leftarrow> rd B ((k - 1) * lda + (i + 7) - p);
            add_at p (A ! (j * lda + k) * b0 + A ! (j * lda + k0) * b1) tempC })"
          unfolding b jk
          by (intro does_rd[OF row_less] does_pair) (use ip k p assms(2) in \<open>simp_all add: add.commute\<close>)
      qed
    qed
  qed
next
  case (2 p)
  have "i + 7 + j * lda < lda * lda" using cell_less[of "i + 7" lda j] assms(4,5) by simp
  then show ?case using assms(3) by simp
next
  case 3 show ?case by (auto simp: inj_on_def)
next
  case (4 t)
  then obtain k i' where t: "t = (j, k, i')" "i \<le> i'" "i' < i + 8" by auto
  then show ?case by auto
qed

lemma bh_adds:
  assumes "lda * lda \<le> length A" "lda * lda \<le> length B" "lda * lda \<le> L" "8 dvd lda"
  shows "adds lda A B L ({0..<lda div 2} \<times> {0..<lda} \<times> {0..<lda}) (bh_core0 lda A B)"
    "adds lda A B L ({lda div 2..<lda} \<times> {0..<lda} \<times> {0..<lda}) (bh_core1 lda A B)"
proof -
  have d: "4 dvd lda" "2 dvd lda" using dvd_trans[of 4 8 lda] dvd_trans[of 2 8 lda] assms(4) by simp_all
  obtain h where h: "lda = 2 * h" using d(2) by (auto elim: dvdE)
  have "splits [0, 1] (\<lambda>m. {m * lda div 2..<(m + 1) * lda div 2}) {0..<lda}"
    unfolding splits_def h by auto
  moreover have "[0..<2] = [0, 1 :: nat]" by (simp add: upt_rec)
  ultimately have "splits [0..<2] (\<lambda>m. {m * lda div 2..<(m + 1) * lda div 2}) {0..<lda}" by (simp only:)
  then show "adds lda A B L ({0..<lda div 2} \<times> {0..<lda} \<times> {0..<lda}) (bh_core0 lda A B)"
    unfolding bh_core0_def
  proof (rule does_sums, goal_cases)
    case (1 m)
    show ?case
    proof (rule does_rows[OF splits_upt], rule does_cols[OF splits_steps], goal_cases)
      case (4 j i)
      then show ?case using steps_mem(2)[OF 4(2)] 1 d assms by (intro bh_up_adds) simp_all
    qed (use assms(4) in simp_all)
  qed
  have "splits [2, 1] (\<lambda>m. {(m - 1) * lda div 2..<m * lda div 2}) {0..<lda}"
    unfolding splits_def h by auto
  then show "adds lda A B L ({lda div 2..<lda} \<times> {0..<lda} \<times> {0..<lda}) (bh_core1 lda A B)"
    unfolding bh_core1_def
  proof (rule does_sums, goal_cases)
    case (1 m)
    show ?case
    proof (rule does_rows[OF splits_downs], simp, simp, simp, rule does_cols[OF splits_downs], goal_cases)
      case (4 j i)
      obtain i0 where i0: "i = i0 + 7" "i0 + 8 \<le> lda" using downs_mem[OF 4(2)] assms(4) by auto
      have j: "j < lda" using 4(1) by (rule downs_mem) (use assms(4) in simp_all)
      have m: "0 < m" "m \<le> 2" using 1 by auto
      have "{j - (1 - 1)..<j + 1} = {j}" "{i - (8 - 1)..<i + 1} = {i0..<i0 + 8}" using i0(1) by auto
      then show ?case using bh_down_adds[OF assms(1-3) j i0(2) d(1) m] i0(1) by (simp only:)
    qed (use assms(4) in simp_all)
  qed
qed

end
