(* ===== verification/Mt_Matmul.thy ===== *)
theory Mt_Matmul
  imports Mt_Lib
begin

text \<open>
  Matrix multiplications of \<open>mt/\<close> for two cores and matrices of dimension 32: the code of each
  core as it is unrolled, and that it adds exactly its part of the product.
\<close>

section \<open>cv_matmul.c: tiles of 8 by 8 with both operands in locals\<close>

definition cv_tile :: "nat \<Rightarrow> s32 list \<Rightarrow> s32 list \<Rightarrow> nat \<Rightarrow> nat \<Rightarrow> nat \<Rightarrow> s32 list \<Rightarrow> s32 list option" where
  "cv_tile lda TempA B j m n = each [0..<8] (\<lambda>r C. do {
     TempB \<leftarrow> load B (\<lambda>b. (r + 8 * m) * lda + b + 8 * n) 8;
     each [0..<8] (\<lambda>b. add_at (b + 8 * n + j * lda) (TempA ! r * TempB ! b)) C })"

definition cv_rows :: "nat \<Rightarrow> nat \<Rightarrow> nat \<Rightarrow> s32 list \<Rightarrow> s32 list \<Rightarrow> s32 list \<Rightarrow> s32 list option" where
  "cv_rows lo hi lda A B = each [lo..<hi] (\<lambda>j. each [0..<4] (\<lambda>m C. do {
     TempA \<leftarrow> load A (\<lambda>a. j * lda + a + 8 * m) 8;
     each [0..<4] (\<lambda>n. cv_tile lda TempA B j m n) C }))"

definition cv_core1 :: "nat \<Rightarrow> s32 list \<Rightarrow> s32 list \<Rightarrow> s32 list \<Rightarrow> s32 list option" where
  "cv_core1 lda A B = cv_rows 16 32 lda A B"

definition cv_core0 :: "nat \<Rightarrow> s32 list \<Rightarrow> s32 list \<Rightarrow> s32 list \<Rightarrow> s32 list option" where
  "cv_core0 lda A B = cv_rows 0 16 lda A B"

definition cv_matmul :: "nat \<Rightarrow> nat \<Rightarrow> nat \<Rightarrow> s32 list \<Rightarrow> s32 list \<Rightarrow> s32 list \<Rightarrow> s32 list option" where
  "cv_matmul coreid ncores lda A B C = do {
     C \<leftarrow> (if coreid = 1 \<or> ncores = 1 then cv_core1 lda A B C else Some C);
     if coreid = 0 then cv_core0 lda A B C else Some C }"

section \<open>av_matmul.c: the same tiles, summed in locals\<close>

definition av_tile :: "nat \<Rightarrow> s32 list \<Rightarrow> s32 list \<Rightarrow> nat \<Rightarrow> nat \<Rightarrow> nat \<Rightarrow> s32 list \<Rightarrow> s32 list option" where
  "av_tile lda TempA B j m n C = do {
     Bs \<leftarrow> load B (\<lambda>b. (0 + 8 * m) * lda + b + 8 * n) 8;
     let TempC = map (\<lambda>v. TempA ! 0 * v) Bs;
     TempC \<leftarrow> each [1..<8] (\<lambda>r. each [0..<8] (\<lambda>b TempC. do {
       v \<leftarrow> rd B ((r + 8 * m) * lda + b + 8 * n);
       add_at b (TempA ! r * v) TempC })) TempC;
     each [0..<8] (\<lambda>b. add_at (b + 8 * n + j * lda) (TempC ! b)) C }"

definition av_rows :: "nat \<Rightarrow> nat \<Rightarrow> nat \<Rightarrow> s32 list \<Rightarrow> s32 list \<Rightarrow> s32 list \<Rightarrow> s32 list option" where
  "av_rows lo hi lda A B = each [lo..<hi] (\<lambda>j. each [0..<4] (\<lambda>m C. do {
     TempA \<leftarrow> load A (\<lambda>a. j * lda + a + 8 * m) 8;
     each [0..<4] (\<lambda>n. av_tile lda TempA B j m n) C }))"

definition av_core1 :: "nat \<Rightarrow> s32 list \<Rightarrow> s32 list \<Rightarrow> s32 list \<Rightarrow> s32 list option" where
  "av_core1 lda A B = av_rows 16 32 lda A B"

definition av_core0 :: "nat \<Rightarrow> s32 list \<Rightarrow> s32 list \<Rightarrow> s32 list \<Rightarrow> s32 list option" where
  "av_core0 lda A B = av_rows 0 16 lda A B"

definition av_matmul :: "nat \<Rightarrow> nat \<Rightarrow> nat \<Rightarrow> s32 list \<Rightarrow> s32 list \<Rightarrow> s32 list \<Rightarrow> s32 list option" where
  "av_matmul coreid ncores lda A B C = do {
     C \<leftarrow> (if coreid = 1 \<or> ncores = 1 then av_core1 lda A B C else Some C);
     if coreid = 0 then av_core0 lda A B C else Some C }"

section \<open>df_matmul.c and cl_matmul.c: half a row in sixteen locals\<close>

text \<open>
  The locals \<open>temp0\<close> to \<open>temp15\<close> hold the elements of row \<open>j\<close> from column \<open>col\<close> on, which is 0 or 16.
\<close>

definition df_half_row :: "nat \<Rightarrow> nat \<Rightarrow> s32 list \<Rightarrow> s32 list \<Rightarrow> nat \<Rightarrow> s32 list \<Rightarrow> s32 list option" where
  "df_half_row col lda A B j C = do {
     temps \<leftarrow> load C (\<lambda>p. p + col + j * lda) 16;
     temps \<leftarrow> each [0..<32] (\<lambda>k. each [0..<16] (\<lambda>p. mac A B (j * lda + k) (p + col + k * lda) p)) temps;
     store temps (\<lambda>p. p + col + j * lda) 16 C }"

definition df_core0 :: "nat \<Rightarrow> s32 list \<Rightarrow> s32 list \<Rightarrow> s32 list \<Rightarrow> s32 list option" where
  "df_core0 lda A B C = do {
     C \<leftarrow> each [0..<16] (df_half_row 0 lda A B) C;
     each [16..<32] (df_half_row 0 lda A B) C }"

definition df_core1 :: "nat \<Rightarrow> s32 list \<Rightarrow> s32 list \<Rightarrow> s32 list \<Rightarrow> s32 list option" where
  "df_core1 lda A B C = do {
     C \<leftarrow> each [16..<32] (df_half_row 16 lda A B) C;
     each [0..<16] (df_half_row 16 lda A B) C }"

definition df_matmul :: "nat \<Rightarrow> nat \<Rightarrow> nat \<Rightarrow> s32 list \<Rightarrow> s32 list \<Rightarrow> s32 list \<Rightarrow> s32 list option" where
  "df_matmul coreid ncores lda A B C = do {
     C \<leftarrow> (if coreid = 0 then df_core0 lda A B C else Some C);
     if coreid = 1 \<or> ncores = 1 then df_core1 lda A B C else Some C }"

text \<open>\<open>cl_matmul.c\<close> has the same half rows; core 0 takes them in one loop.\<close>

definition cl_core0 :: "nat \<Rightarrow> s32 list \<Rightarrow> s32 list \<Rightarrow> s32 list \<Rightarrow> s32 list option" where
  "cl_core0 lda A B = each [0..<32] (df_half_row 0 lda A B)"

definition cl_core1 :: "nat \<Rightarrow> s32 list \<Rightarrow> s32 list \<Rightarrow> s32 list \<Rightarrow> s32 list option" where
  "cl_core1 lda A B C = do {
     C \<leftarrow> each [16..<32] (df_half_row 16 lda A B) C;
     each [0..<16] (df_half_row 16 lda A B) C }"

definition cl_matmul :: "nat \<Rightarrow> nat \<Rightarrow> nat \<Rightarrow> s32 list \<Rightarrow> s32 list \<Rightarrow> s32 list \<Rightarrow> s32 list option" where
  "cl_matmul coreid ncores lda A B C =
    (if coreid > 1 then Some C
     else do {
       C \<leftarrow> (if coreid = 0 then cl_core0 lda A B C else Some C);
       if coreid = 1 \<or> ncores = 1 then cl_core1 lda A B C else Some C })"

section \<open>bm_matmul.c: blocks of four rows and four columns in locals\<close>

text \<open>
  The local \<open>4 * r + c\<close> holds the element of row \<open>i + r\<close> and column \<open>j + c\<close> (\<open>temp1\<close> to \<open>temp4\<close> for row
  \<open>i\<close>, \<open>temp1_1\<close> to \<open>temp4_1\<close> for row \<open>i + 1\<close> and so on).
\<close>

definition bm_block :: "nat \<Rightarrow> s32 list \<Rightarrow> s32 list \<Rightarrow> nat \<Rightarrow> nat \<Rightarrow> s32 list \<Rightarrow> s32 list option" where
  "bm_block lda A B i j C = do {
     temps \<leftarrow> load C (\<lambda>p. j + p mod 4 + (i + p div 4) * lda) 16;
     temps \<leftarrow> each [0..<lda] (\<lambda>k. each [0..<4] (\<lambda>r temps. do {
       temp \<leftarrow> rd A (k + (i + r) * lda);
       each [0..<4] (\<lambda>c temps. do {
         b \<leftarrow> rd B (j + c + k * lda);
         add_at (4 * r + c) (temp * b) temps }) temps })) temps;
     store temps (\<lambda>p. j + p mod 4 + (i + p div 4) * lda) 16 C }"

text \<open>The two copies of the loop nest: of every core but the last, and of the last.\<close>

definition bm_main :: "nat \<Rightarrow> nat \<Rightarrow> nat \<Rightarrow> s32 list \<Rightarrow> s32 list \<Rightarrow> s32 list \<Rightarrow> s32 list option" where
  "bm_main lo bound lda A B = each (steps lo (bound div 4 * 4) 4) (\<lambda>i. each (steps 0 lda 4) (\<lambda>j. bm_block lda A B i j))"

definition bm_last :: "nat \<Rightarrow> nat \<Rightarrow> s32 list \<Rightarrow> s32 list \<Rightarrow> s32 list \<Rightarrow> s32 list option" where
  "bm_last lo lda A B = each (steps lo (lda div 4 * 4) 4) (\<lambda>i. each (steps 0 lda 4) (\<lambda>j. bm_block lda A B i j))"

definition bm_matmul :: "nat \<Rightarrow> nat \<Rightarrow> nat \<Rightarrow> s32 list \<Rightarrow> s32 list \<Rightarrow> s32 list \<Rightarrow> s32 list option" where
  "bm_matmul coreid ncores lda A B C = (
     let space = lda div ncores; bound = space * coreid + space
     in if coreid \<noteq> ncores - 1 then bm_main (space * coreid) bound lda A B C
        else bm_last (space * coreid) lda A B C)"

section \<open>The updates of a tile\<close>

definition tile_updates :: "s32 list \<Rightarrow> s32 list \<Rightarrow> nat \<Rightarrow> nat \<Rightarrow> nat \<Rightarrow> (nat \<times> s32) list" where
  "tile_updates A B j m n = concat (map (\<lambda>r. concat (map (\<lambda>b.
     [(b + 8 * n + j * 32, prod_term 32 A B j (r + 8 * m) (b + 8 * n))]) [0..<8])) [0..<8])"

definition rows_updates :: "nat \<Rightarrow> nat \<Rightarrow> s32 list \<Rightarrow> s32 list \<Rightarrow> (nat \<times> s32) list" where
  "rows_updates lo hi A B = concat (map (\<lambda>j. concat (map (\<lambda>m. concat (map (\<lambda>n.
     tile_updates A B j m n) [0..<4])) [0..<4])) [lo..<hi])"

lemma tgt_rows_updates:
  assumes "i < 32"
  shows "tgt (rows_updates lo hi A B) (i + j * 32) = (if j \<in> {lo..<hi} then product 32 A B j i else 0)"
proof -
  let ?g = "\<lambda>j' k i'. if i' + j' * 32 = i + j * 32 then prod_term 32 A B j' k i' else 0"
  have "tgt (rows_updates lo hi A B) (i + j * 32) =
      (\<Sum>j' \<in> {lo..<hi}. \<Sum>m < 4. \<Sum>n < 4. \<Sum>r < 8. \<Sum>b < 8. ?g j' (r + 8 * m) (b + 8 * n))"
    unfolding rows_updates_def tile_updates_def tgt_concat tgt_upt tgt_simps add_0_right atLeast0LessThan ..
  also have "\<dots> = (\<Sum>j' \<in> {lo..<hi}. \<Sum>k < 32. \<Sum>i' < 32. ?g j' k i')"
    by (rule sum.cong[OF refl]) (use sum_tiles2[of "?g _" 8 8 4 4] in simp)
  also have "\<dots> = (if j \<in> {lo..<hi} \<and> i \<in> {..<32} then \<Sum>k < 32. prod_term 32 A B j k i else 0)"
    by (rule pick) (use assms in auto)
  finally show ?thesis using assms by (simp add: product_def)
qed

lemma rows_updates_small: "(y, t) \<in> set (rows_updates lo hi A B) \<Longrightarrow> hi \<le> 32 \<Longrightarrow> y < 32 * 32"
  by (auto simp: rows_updates_def tile_updates_def simp del: upt_rec_numeral)

lemma rows_add_product:
  "hi \<le> 32 \<Longrightarrow> 32 * 32 \<le> length C \<Longrightarrow> adds_product 32 ({lo..<hi} \<times> UNIV) A B C (bump (rows_updates lo hi A B) C)"
  by (rule bump_adds_product) (use tgt_rows_updates rows_updates_small in auto)

lemma load_row:
  assumes "32 * 32 \<le> length A" "j < 32" "m < 4"
  shows "load A (\<lambda>a. j * 32 + a + 8 * m) 8 = Some (map (\<lambda>a. A ! (j * 32 + a + 8 * m)) [0..<8])"
  by (rule load_eq) (use assms in simp)

lemma cv_tile_bump:
  assumes "32 * 32 \<le> length B" "32 * 32 \<le> length C" "j < 32" "m < 4" "n < 4"
  shows "cv_tile 32 (map (\<lambda>a. A ! (j * 32 + a + 8 * m)) [0..<8]) B j m n C = Some (bump (tile_updates A B j m n) C)"
  unfolding cv_tile_def tile_updates_def
proof (rule each_bump[OF _ refl], goal_cases)
  case (1 r X)
  then have r: "r < 8" by simp
  have "load B (\<lambda>b. (r + 8 * m) * 32 + b + 8 * n) 8 = Some (map (\<lambda>b. B ! ((r + 8 * m) * 32 + b + 8 * n)) [0..<8])"
    by (rule load_eq) (use assms r in simp)
  moreover have "each [0..<8] (\<lambda>b. add_at (b + 8 * n + j * 32)
      (map (\<lambda>a. A ! (j * 32 + a + 8 * m)) [0..<8] ! r * map (\<lambda>b. B ! ((r + 8 * m) * 32 + b + 8 * n)) [0..<8] ! b)) X =
    Some (bump (concat (map (\<lambda>b. [(b + 8 * n + j * 32, prod_term 32 A B j (r + 8 * m) (b + 8 * n))]) [0..<8])) X)"
  proof (rule each_bump[OF _ refl], goal_cases)
    case (1 b Y)
    then show ?case using assms r \<open>length X = length C\<close>
      by (subst add_at_bump) (simp_all add: prod_term_def add.assoc del: upt_rec_numeral)
  qed
  ultimately show ?case by (simp del: upt_rec_numeral)
qed

lemma cv_rows_bump:
  assumes "32 * 32 \<le> length A" "32 * 32 \<le> length B" "32 * 32 \<le> length C" "hi \<le> 32"
  shows "cv_rows lo hi 32 A B C = Some (bump (rows_updates lo hi A B) C)"
  unfolding cv_rows_def rows_updates_def
  using assms
  by (intro each_bump[OF _ refl]) (simp add: load_row del: upt_rec_numeral, intro each_bump[OF _ refl] cv_tile_bump, auto)

lemma av_tile_bump:
  assumes "32 * 32 \<le> length B" "32 * 32 \<le> length C" "j < 32" "m < 4" "n < 4"
  shows "av_tile 32 (map (\<lambda>a. A ! (j * 32 + a + 8 * m)) [0..<8]) B j m n C = Some (bump (tile_updates A B j m n) C)"
proof -
  let ?TA = "map (\<lambda>a. A ! (j * 32 + a + 8 * m)) [0..<8]"
  let ?T = "\<lambda>r b. prod_term 32 A B j (r + 8 * m) (b + 8 * n)"
  let ?TC0 = "map (\<lambda>b. ?T 0 b) [0..<8]"
  let ?us = "concat (map (\<lambda>r. concat (map (\<lambda>b. [(b, ?T r b)]) [0..<8])) [1..<8])"
  have l: "load B (\<lambda>b. (0 + 8 * m) * 32 + b + 8 * n) 8 = Some (map (\<lambda>b. B ! ((0 + 8 * m) * 32 + b + 8 * n)) [0..<8])"
    by (rule load_eq) (use assms in simp)
  have t0: "map (\<lambda>v. ?TA ! 0 * v) (map (\<lambda>b. B ! ((0 + 8 * m) * 32 + b + 8 * n)) [0..<8]) = ?TC0"
    by (rule nth_equalityI) (simp_all add: prod_term_def add.assoc del: upt_rec_numeral)
  have "each [1..<8] (\<lambda>r. each [0..<8] (\<lambda>b TempC. do {
       v \<leftarrow> rd B ((r + 8 * m) * 32 + b + 8 * n);
       add_at b (?TA ! r * v) TempC })) ?TC0 = Some (bump ?us ?TC0)"
  proof (rule each_bump[OF _ refl], goal_cases)
    case (1 r X)
    then have r: "r < 8" "length X = 8" by simp_all
    show ?case
    proof (rule each_bump[OF _ refl], goal_cases)
      case (1 b Y)
      then show ?case using r assms
        by (simp add: add_at_bump prod_term_def add.assoc del: upt_rec_numeral)
    qed
  qed
  moreover have "each [0..<8] (\<lambda>b. add_at (b + 8 * n + j * 32) (bump ?us ?TC0 ! b)) C =
    Some (bump (concat (map (\<lambda>b. [(b + 8 * n + j * 32, bump ?us ?TC0 ! b)]) [0..<8])) C)"
    by (rule each_bump[OF _ refl], subst add_at_bump) (use assms in auto)
  moreover have "bump (concat (map (\<lambda>b. [(b + 8 * n + j * 32, bump ?us ?TC0 ! b)]) [0..<8])) C =
      bump (tile_updates A B j m n) C"
  proof (rule bump_cong)
    fix x
    have sum: "bump ?us ?TC0 ! b = (\<Sum>r < 8. ?T r b)" if b: "b < 8" for b
    proof -
      have "tgt ?us b = (\<Sum>r \<in> {1..<8}. \<Sum>b' \<in> {0..<8}. if b' = b then ?T r b' else 0)"
        unfolding tgt_concat tgt_upt tgt_simps add_0_right ..
      also have "\<dots> = (\<Sum>r \<in> {1..<8}. ?T r b)" using b by (intro sum.cong) simp_all
      finally have "bump ?us ?TC0 ! b = ?T 0 b + (\<Sum>r \<in> {1..<8}. ?T r b)"
        using b by (subst bump_nth) (simp_all del: upt_rec_numeral)
      also have "\<dots> = (\<Sum>r \<in> {0..<8}. ?T r b)" by (subst (2) sum.atLeast_Suc_lessThan) simp_all
      finally show ?thesis by (simp add: atLeast0LessThan)
    qed
    have "tgt (concat (map (\<lambda>b. [(b + 8 * n + j * 32, bump ?us ?TC0 ! b)]) [0..<8])) x =
        (\<Sum>b < 8. if b + 8 * n + j * 32 = x then bump ?us ?TC0 ! b else 0)"
      unfolding tgt_concat tgt_upt tgt_simps add_0_right atLeast0LessThan ..
    also have "\<dots> = (\<Sum>b < 8. \<Sum>r < 8. if b + 8 * n + j * 32 = x then ?T r b else 0)"
      by (rule sum.cong[OF refl]) (use sum in auto)
    also have "\<dots> = (\<Sum>r < 8. \<Sum>b < 8. if b + 8 * n + j * 32 = x then ?T r b else 0)"
      by (rule sum.swap)
    finally show "tgt (concat (map (\<lambda>b. [(b + 8 * n + j * 32, bump ?us ?TC0 ! b)]) [0..<8])) x =
        tgt (tile_updates A B j m n) x"
      unfolding tile_updates_def tgt_concat tgt_upt tgt_simps add_0_right atLeast0LessThan .
  qed
  ultimately show ?thesis
    unfolding av_tile_def l by (simp only: Option.bind.simps Let_def t0)
qed

lemma av_rows_bump:
  assumes "32 * 32 \<le> length A" "32 * 32 \<le> length B" "32 * 32 \<le> length C" "hi \<le> 32"
  shows "av_rows lo hi 32 A B C = Some (bump (rows_updates lo hi A B) C)"
  unfolding av_rows_def rows_updates_def
  using assms
  by (intro each_bump[OF _ refl]) (simp add: load_row del: upt_rec_numeral, intro each_bump[OF _ refl] av_tile_bump, auto)

section \<open>Half rows\<close>

lemma half_row_adds:
  assumes "32 * 32 \<le> length A" "32 * 32 \<le> length B" "32 * 32 \<le> length C" "col = 0 \<or> col = 16" "j < 32"
  shows "\<exists>C'. df_half_row col 32 A B j C = Some C' \<and> adds_product 32 ({j} \<times> {col..<col + 16}) A B C C'"
proof -
  let ?f = "\<lambda>p. p + col + j * 32"
  let ?us = "concat (map (\<lambda>k. concat (map (\<lambda>p. [(p, prod_term 32 A B j k (p + col))]) [0..<16])) [0..<32])"
  let ?t0 = "map (\<lambda>p. C ! ?f p) [0..<16]"
  have c: "col \<le> 16" using assms(4) by auto
  have fl: "?f p < length C" if "p < 16" for p using assms(3,5) that c by simp
  have l: "load C ?f 16 = Some ?t0" by (rule load_eq) (use fl in simp)
  have e: "each [0..<32] (\<lambda>k. each [0..<16] (\<lambda>p. mac A B (j * 32 + k) (p + col + k * 32) p)) ?t0 = Some (bump ?us ?t0)"
  proof (rule each_bump[OF _ refl], goal_cases)
    case (1 k X)
    show ?case
    proof (rule each_bump[OF _ refl], goal_cases)
      case (1 p Y)
      then show ?case using assms c \<open>k \<in> _\<close> \<open>length X = _\<close>
        by (subst mac_bump) (simp_all add: prod_term_def add.commute del: upt_rec_numeral)
    qed
  qed
  have s: "store (bump ?us ?t0) ?f 16 C = Some (bump (map (\<lambda>(y, t). (?f y, t)) ?us) C)"
    by (rule store_bump) (use fl in \<open>auto simp: inj_on_def simp del: upt_rec_numeral\<close>)
  have "map (\<lambda>(y, t). (?f y, t)) ?us =
      concat (map (\<lambda>k. concat (map (\<lambda>p. [(?f p, prod_term 32 A B j k (p + col))]) [0..<16])) [0..<32])"
    by (simp add: map_concat comp_def del: upt_rec_numeral)
  moreover have "adds_product 32 ({j} \<times> {col..<col + 16}) A B C (bump \<dots> C)"
  proof (rule bump_adds_product)
    fix i j' :: nat assume i: "i < 32" "j' < 32"
    have "tgt (concat (map (\<lambda>k. concat (map (\<lambda>p. [(?f p, prod_term 32 A B j k (p + col))]) [0..<16])) [0..<32])) (i + j' * 32) =
      (\<Sum>k < 32. \<Sum>p \<in> {0..<16}. if p + col + j * 32 = i + j' * 32 then prod_term 32 A B j k (p + col) else 0)"
      unfolding tgt_concat tgt_upt tgt_simps add_0_right atLeast0LessThan ..
    also have "\<dots> = (\<Sum>k < 32. \<Sum>i' \<in> {col..<col + 16}. if i' + j * 32 = i + j' * 32 then prod_term 32 A B j k i' else 0)"
    proof (rule sum.cong[OF refl])
      fix k
      show "(\<Sum>p \<in> {0..<16}. if p + col + j * 32 = i + j' * 32 then prod_term 32 A B j k (p + col) else 0) =
          (\<Sum>i' \<in> {col..<col + 16}. if i' + j * 32 = i + j' * 32 then prod_term 32 A B j k i' else 0)"
        using sum.shift_bounds_nat_ivl[of "\<lambda>i'. if i' + j * 32 = i + j' * 32 then prod_term 32 A B j k i' else 0" 0 col 16]
        unfolding add_0_left add.commute[of 16 col] by (rule sym)
    qed
    also have "\<dots> = (\<Sum>jj \<in> {j}. \<Sum>k < 32. \<Sum>i' \<in> {col..<col + 16}. if i' + jj * 32 = i + j' * 32 then prod_term 32 A B jj k i' else 0)"
      by simp
    also have "\<dots> = (if j' \<in> {j} \<and> i \<in> {col..<col + 16} then \<Sum>k < 32. prod_term 32 A B j' k i else 0)"
      by (rule pick) (use i c in auto)
    finally show "tgt (concat (map (\<lambda>k. concat (map (\<lambda>p. [(?f p, prod_term 32 A B j k (p + col))]) [0..<16])) [0..<32])) (i + j' * 32) =
        (if (j', i) \<in> {j} \<times> {col..<col + 16} then product 32 A B j' i else 0)"
      by (simp add: product_def)
  next
    fix y t assume "(y, t) \<in> set (concat (map (\<lambda>k. concat (map (\<lambda>p. [(?f p, prod_term 32 A B j k (p + col))]) [0..<16])) [0..<32]))"
    then show "y < 32 * 32" using assms(5) c by (auto simp del: upt_rec_numeral)
  qed (use assms in simp)
  ultimately show ?thesis unfolding df_half_row_def l e s by (simp only: Option.bind.simps e s) simp
qed

lemma half_rows_add:
  assumes "32 * 32 \<le> length A" "32 * 32 \<le> length B" "32 * 32 \<le> length C" "col = 0 \<or> col = 16" "hi \<le> 32"
  shows "\<exists>C'. each [lo..<hi] (df_half_row col 32 A B) C = Some C' \<and>
    adds_product 32 ({lo..<hi} \<times> {col..<col + 16}) A B C C'"
proof -
  have "\<exists>C'. each [lo..<hi] (df_half_row col 32 A B) C = Some C' \<and>
      adds_product 32 (\<Union>j \<in> set [lo..<hi]. {j} \<times> {col..<col + 16}) A B C C'"
    by (rule each_adds_product[OF half_row_adds]) (use assms in auto)
  moreover have "(\<Union>j \<in> set [lo..<hi]. {j} \<times> {col..<col + 16}) = {lo..<hi} \<times> {col..<col + 16}" by auto
  ultimately show ?thesis by simp
qed

lemma half_rows_twice:
  assumes "32 * 32 \<le> length A" "32 * 32 \<le> length B" "32 * 32 \<le> length C" "col = 0 \<or> col = 16"
    and "{lo..<hi} \<inter> {lo'..<hi'} = {}" "{lo..<hi} \<union> {lo'..<hi'} = {0..<32}" "hi \<le> 32" "hi' \<le> 32"
  shows "\<exists>C'. do { C \<leftarrow> each [lo..<hi] (df_half_row col 32 A B) C; each [lo'..<hi'] (df_half_row col 32 A B) C } = Some C' \<and>
    adds_product 32 ({0..<32} \<times> {col..<col + 16}) A B C C'"
proof -
  obtain C1 where C1: "each [lo..<hi] (df_half_row col 32 A B) C = Some C1"
      "adds_product 32 ({lo..<hi} \<times> {col..<col + 16}) A B C C1"
    using half_rows_add[OF assms(1-4,7)] by blast
  have "32 * 32 \<le> length C1" using assms(3) adds_product_length[OF C1(2)] by simp
  from half_rows_add[OF assms(1,2) this assms(4,8), of lo'] obtain C2
    where C2: "each [lo'..<hi'] (df_half_row col 32 A B) C1 = Some C2"
      "adds_product 32 ({lo'..<hi'} \<times> {col..<col + 16}) A B C1 C2"
    by blast
  have d: "({lo..<hi} \<times> {col..<col + 16}) \<inter> ({lo'..<hi'} \<times> {col..<col + 16}) = {}" using assms(5) by auto
  have u: "({lo..<hi} \<times> {col..<col + 16}) \<union> ({lo'..<hi'} \<times> {col..<col + 16}) = {0..<32} \<times> {col..<col + 16}"
    unfolding assms(6)[symmetric] by auto
  show ?thesis using C1(1) C2(1) adds_product_trans[OF C1(2) C2(2) d] u by simp
qed

section \<open>Blocks of four by four\<close>

lemma inj_block: "n \<le> 4 * q \<Longrightarrow> j + 4 \<le> lda \<Longrightarrow> inj_on (\<lambda>p. j + p mod 4 + (i + p div 4) * lda) {..<n}" for i j lda :: nat
proof (rule inj_onI)
  fix p p' assume "j + 4 \<le> lda" and e: "j + p mod 4 + (i + p div 4) * lda = j + p' mod 4 + (i + p' div 4) * lda"
  then have "j + p' mod 4 = j + p mod 4 \<and> i + p' div 4 = i + p div 4"
    by (intro iffD1[OF index_eq[of "j + p mod 4" lda "j + p' mod 4"]]) (simp_all add: less_le_trans[of _ "j + 4"])
  then show "p = p'" by (metis add_left_cancel div_mod_decomp)
qed

lemma shift4: "(\<Sum>r < 4. f (i + r)) = sum f {i..<i + 4}" for f :: "nat \<Rightarrow> 'a::comm_monoid_add"
  using sum.shift_bounds_nat_ivl[of f 0 i 4] by (simp add: atLeast0LessThan add.commute)

lemma bm_block_adds:
  assumes "lda * lda \<le> length A" "lda * lda \<le> length B" "lda * lda \<le> length C" "i + 4 \<le> lda" "j + 4 \<le> lda"
  shows "\<exists>C'. bm_block lda A B i j C = Some C' \<and> adds_product lda ({i..<i + 4} \<times> {j..<j + 4}) A B C C'"
proof -
  let ?f = "\<lambda>p. j + p mod 4 + (i + p div 4) * lda"
  let ?P = "\<lambda>k r c. prod_term lda A B (i + r) k (j + c)"
  let ?us = "concat (map (\<lambda>k. concat (map (\<lambda>r. concat (map (\<lambda>c. [(4 * r + c, ?P k r c)]) [0..<4])) [0..<4])) [0..<lda])"
  let ?vs = "concat (map (\<lambda>k. concat (map (\<lambda>r. concat (map (\<lambda>c. [(j + c + (i + r) * lda, ?P k r c)]) [0..<4])) [0..<4])) [0..<lda])"
  let ?t0 = "map (\<lambda>p. C ! ?f p) [0..<16]"
  have sq: "x + y * lda < lda * lda" if "x < lda" "y < lda" for x y
    using square_index_less[OF that(2,1)] by (simp add: add.commute)
  have fl: "?f p < length C" if "p < 16" for p
    using sq[of "j + p mod 4" "i + p div 4"] that assms(3-5)
    by (simp add: less_le_trans[OF _ assms(3)] less_mult_imp_div_less less_le_trans[OF _ assms(4)] less_le_trans[OF _ assms(5)])
  have l: "load C ?f 16 = Some ?t0" by (rule load_eq) (use fl in simp)
  have e: "each [0..<lda] (\<lambda>k. each [0..<4] (\<lambda>r temps. do {
       temp \<leftarrow> rd A (k + (i + r) * lda);
       each [0..<4] (\<lambda>c temps. do {
         b \<leftarrow> rd B (j + c + k * lda);
         add_at (4 * r + c) (temp * b) temps }) temps })) ?t0 = Some (bump ?us ?t0)"
  proof (rule each_bump[OF _ refl], goal_cases)
    case (1 k X)
    show ?case
    proof (rule each_bump[OF _ refl], goal_cases)
      case (1 r Y)
      have a: "k + (i + r) * lda < length A"
        using sq[of k "i + r"] assms(1,4) \<open>k \<in> _\<close> \<open>r \<in> _\<close> by (simp add: less_le_trans[OF _ assms(1)])
      have "each [0..<4] (\<lambda>c temps. do {
           b \<leftarrow> rd B (j + c + k * lda);
           add_at (4 * r + c) (A ! (k + (i + r) * lda) * b) temps }) Y =
        Some (bump (concat (map (\<lambda>c. [(4 * r + c, ?P k r c)]) [0..<4])) Y)"
      proof (rule each_bump[OF _ refl], goal_cases)
        case (1 c Z)
        have "j + c + k * lda < length B"
          using sq[of "j + c" k] assms(2,5) \<open>k \<in> _\<close> \<open>c \<in> _\<close> by (simp add: less_le_trans[OF _ assms(2)])
        moreover have "4 * r + c < length Z" using \<open>length Z = _\<close> \<open>length Y = _\<close> \<open>length X = _\<close> \<open>r \<in> _\<close> \<open>c \<in> _\<close> by simp
        ultimately show ?case by (simp add: add_at_bump prod_term_def ac_simps)
      qed
      then show ?case using a by simp
    qed
  qed
  have s: "store (bump ?us ?t0) ?f 16 C = Some (bump (map (\<lambda>(y, t). (?f y, t)) ?us) C)"
  proof (rule store_bump)
    show "inj_on ?f {..<16}" by (rule inj_block[of _ 4]) (use assms in simp_all)
  qed (use fl in auto)
  have "map (\<lambda>(y, t). (?f y, t)) ?us = ?vs"
    unfolding map_concat map_map comp_def list.map case_prod_conv
    by (intro arg_cong[where f = concat] map_cong refl) simp
  moreover have "adds_product lda ({i..<i + 4} \<times> {j..<j + 4}) A B C (bump ?vs C)"
  proof (rule bump_adds_product[OF _ _ assms(3)])
    fix i' j' assume i': "i' < lda" "j' < lda"
    let ?g = "\<lambda>jj k ii. if ii + jj * lda = i' + j' * lda then prod_term lda A B jj k ii else 0"
    have "tgt ?vs (i' + j' * lda) = (\<Sum>k < lda. \<Sum>r < 4. \<Sum>c < 4. ?g (i + r) k (j + c))"
      unfolding tgt_concat tgt_upt tgt_simps add_0_right atLeast0LessThan ..
    also have "\<dots> = (\<Sum>r < 4. \<Sum>k < lda. \<Sum>c < 4. ?g (i + r) k (j + c))" by (rule sum.swap)
    also have "\<dots> = (\<Sum>jj \<in> {i..<i + 4}. \<Sum>k < lda. \<Sum>ii \<in> {j..<j + 4}. ?g jj k ii)"
      unfolding shift4[of "\<lambda>ii. ?g _ _ ii"] shift4[of "\<lambda>jj. \<Sum>k < lda. \<Sum>ii \<in> {j..<j + 4}. ?g jj k ii"] ..
    also have "\<dots> = (if j' \<in> {i..<i + 4} \<and> i' \<in> {j..<j + 4} then \<Sum>k < lda. prod_term lda A B j' k i' else 0)"
      by (rule pick) (use i' assms(5) in auto)
    finally show "tgt ?vs (i' + j' * lda) =
        (if (j', i') \<in> {i..<i + 4} \<times> {j..<j + 4} then product lda A B j' i' else 0)"
      by (simp add: product_def)
  next
    fix y t assume "(y, t) \<in> set ?vs"
    then obtain r c where "r < 4" "c < 4" "y = j + c + (i + r) * lda" by auto
    then show "y < lda * lda" using sq[of "j + c" "i + r"] assms(4,5) by simp
  qed
  ultimately show ?thesis unfolding bm_block_def l e s by (simp only: Option.bind.simps e s) simp
qed

lemma steps_4: "4 dvd lo \<Longrightarrow> 4 dvd hi \<Longrightarrow> steps lo hi 4 = map (\<lambda>q. 4 * q) [lo div 4..<hi div 4]"
proof -
  assume "4 dvd lo" "4 dvd hi"
  then obtain a b where ab: "lo = 4 * a" "hi = 4 * b" by (auto elim!: dvdE)
  have "(4 * b - 4 * a + 4 - 1) div 4 = b - a" by (simp add: diff_mult_distrib2[symmetric])
  then have "steps lo hi 4 = map (\<lambda>q. 4 * (a + q)) [0..<b - a]" by (simp add: steps_def ab mult.commute)
  also have "\<dots> = map (\<lambda>q. 4 * q) (map (\<lambda>q. q + a) [0..<b - a])" by (simp add: comp_def add.commute)
  also have "map (\<lambda>q. q + a) [0..<b - a] = [a..<b]"
    by (cases "a \<le> b") (simp_all add: map_add_upt)
  finally show ?thesis by (simp add: ab)
qed

lemma tiles_4: "4 dvd lo \<Longrightarrow> 4 dvd hi \<Longrightarrow> (\<Union>i \<in> set (steps lo hi 4). {i..<i + 4}) = {lo..<hi}"
proof -
  assume "4 dvd lo" "4 dvd hi"
  then obtain a b where ab: "lo = 4 * a" "hi = 4 * b" by (auto elim!: dvdE)
  have "x \<in> (\<Union>q \<in> {a..<b}. {4 * q..<4 * q + 4}) \<longleftrightarrow> 4 * a \<le> x \<and> x < 4 * b" for x
  proof
    assume "4 * a \<le> x \<and> x < 4 * b"
    then show "x \<in> (\<Union>q \<in> {a..<b}. {4 * q..<4 * q + 4})" by (intro UN_I[of "x div 4"]) auto
  qed auto
  then show ?thesis by (simp add: steps_4 ab) auto
qed

lemma bm_rows_add:
  assumes "lda * lda \<le> length A" "lda * lda \<le> length B" "lda * lda \<le> length C" "4 dvd lda" "4 dvd lo" "4 dvd hi" "hi \<le> lda"
  shows "\<exists>C'. each (steps lo hi 4) (\<lambda>i. each (steps 0 lda 4) (\<lambda>j. bm_block lda A B i j)) C = Some C' \<and>
    adds_product lda ({lo..<hi} \<times> {0..<lda}) A B C C'"
proof -
  have fits: "i + 4 \<le> h" if "i \<in> set (steps l h 4)" "4 dvd l" "4 dvd h" for i l h
    using that(1) dvd_mult_div_cancel[OF that(3)] unfolding steps_4[OF that(2,3)] by auto
  have apart: "{i..<i + 4} \<inter> {i'..<i' + 4} = {}" if "i \<in> set (steps l h 4)" "i' \<in> set (steps l h 4)" "i \<noteq> i'" "4 dvd l" "4 dvd h" for i i' l h
    using that(1-3) unfolding steps_4[OF that(4,5)] by auto
  have dist: "distinct (steps l h 4)" if "4 dvd l" "4 dvd h" for l h
    unfolding steps_4[OF that] by (simp add: distinct_map inj_on_def)
  have row: "\<exists>C'. each (steps 0 lda 4) (\<lambda>j. bm_block lda A B i j) C = Some C' \<and>
      adds_product lda ({i..<i + 4} \<times> {0..<lda}) A B C C'"
    if i: "i \<in> set (steps lo hi 4)" and C: "length C = L" "lda * lda \<le> L" for i C L
  proof -
    have "\<exists>C'. each (steps 0 lda 4) (\<lambda>j. bm_block lda A B i j) C = Some C' \<and>
        adds_product lda (\<Union>j \<in> set (steps 0 lda 4). {i..<i + 4} \<times> {j..<j + 4}) A B C C'"
    proof (rule each_adds_product[OF bm_block_adds dist _ C(1)], goal_cases)
      case (3 j D) then show ?case using C by simp
    next
      case (4 j D) then show ?case using fits[OF i assms(5,6)] assms(7) by simp
    next
      case (5 j D) then show ?case using fits[OF _ dvd_0_right assms(4)] by simp
    next
      case (8 j j') then show ?case using apart[OF _ _ _ dvd_0_right assms(4)] by blast
    qed (use assms in simp_all)
    moreover have "(\<Union>j \<in> set (steps 0 lda 4). {i..<i + 4} \<times> {j..<j + 4}) = {i..<i + 4} \<times> {0..<lda}"
      unfolding tiles_4[OF dvd_0_right assms(4), symmetric] by auto
    ultimately show ?thesis by simp
  qed
  have "\<exists>C'. each (steps lo hi 4) (\<lambda>i. each (steps 0 lda 4) (\<lambda>j. bm_block lda A B i j)) C = Some C' \<and>
      adds_product lda (\<Union>i \<in> set (steps lo hi 4). {i..<i + 4} \<times> {0..<lda}) A B C C'"
  proof (rule each_adds_product[OF row[where L = "length C"] dist _ refl], goal_cases)
    case (6 i i') then show ?case using apart[OF _ _ _ assms(5,6)] by blast
  qed (use assms in simp_all)
  moreover have "(\<Union>i \<in> set (steps lo hi 4). {i..<i + 4} \<times> {0..<lda}) = {lo..<hi} \<times> {0..<lda}"
    unfolding tiles_4[OF assms(5,6), symmetric] by auto
  ultimately show ?thesis by simp
qed

end
