(* ===== verification/Mt_Cores.thy ===== *)
theory Mt_Cores
  imports Mt_Matmul "HOL-Library.Multiset"
begin

text \<open>
  The cores of a matrix multiplication of \<open>mt/\<close> on the shared array \<open>C\<close>: run one after the other in
  any order, or interleaved update by update, they add the whole product.
\<close>

section \<open>The cores together\<close>

lemma all_cores:
  assumes "ncores = 1 \<Longrightarrow> \<exists>C'. f 0 C = Some C' \<and> adds_product n UNIV A B C C'"
    and "\<And>C. ncores \<noteq> 1 \<Longrightarrow> length C = L \<Longrightarrow> \<exists>C'. f 0 C = Some C' \<and> adds_product n R A B C C'"
    and "\<And>C. ncores \<noteq> 1 \<Longrightarrow> length C = L \<Longrightarrow> \<exists>C'. f (1 :: nat) C = Some C' \<and> adds_product n R' A B C C'"
    and "\<And>x C. ncores \<noteq> 1 \<Longrightarrow> 1 < x \<Longrightarrow> f x C = Some C"
    and "R \<inter> R' = {}" "\<And>j i. j < n \<Longrightarrow> i < n \<Longrightarrow> (j, i) \<in> R \<union> R'" "length C = L"
    and "distinct ids" "set ids = {0..<ncores}" "0 < ncores"
  shows "\<exists>C'. each ids f C = Some C' \<and> adds_product n UNIV A B C C'"
proof (cases "ncores = 1")
  case True
  then have "set ids = {0}" "length ids = 1" using assms(8,9) distinct_card[OF assms(8)] by auto
  then have "ids = [0]" by (cases ids) simp_all
  then show ?thesis using assms(1)[OF True] by auto
next
  case False
  let ?R = "\<lambda>x. if x = 0 then R else if x = (1 :: nat) then R' else {}"
  have "\<exists>C'. each ids f C = Some C' \<and> adds_product n (\<Union>x \<in> set ids. ?R x) A B C C'"
  proof (rule each_adds_product[OF _ assms(8) _ assms(7)], goal_cases)
    case (1 x D)
    consider "x = 0" | "x = 1" | "1 < x" by linarith
    then show ?case
      using assms(2)[OF False 1(2)] assms(3)[OF False 1(2)] assms(4)[OF False, of x D]
      by cases (simp_all add: adds_product_refl)
  next
    case (2 x y) then show ?case using assms(5) by (simp add: Int_commute)
  qed
  then obtain C' where C': "each ids f C = Some C'" "adds_product n (\<Union>x \<in> set ids. ?R x) A B C C'" by blast
  have "(\<Union>x \<in> set ids. ?R x) = R \<union> R'" unfolding assms(9) using False assms(10) by (auto split: if_splits)
  then have "adds_product n UNIV A B C C'" using adds_product_cong[OF C'(2)] assms(6) by simp
  then show ?thesis using C'(1) by blast
qed

lemma add_both:
  assumes "\<exists>C'. a = Some C' \<and> adds_product n R A B C C'"
    and "\<And>C1. length C1 = length C \<Longrightarrow> \<exists>C'. f C1 = Some C' \<and> adds_product n R' A B C1 C'"
    and "R \<inter> R' = {}" "\<And>j i. j < n \<Longrightarrow> i < n \<Longrightarrow> (j, i) \<in> R \<union> R'"
  shows "\<exists>C'. Option.bind a f = Some C' \<and> adds_product n UNIV A B C C'"
proof -
  obtain C1 where C1: "a = Some C1" "adds_product n R A B C C1" using assms(1) by blast
  obtain C2 where C2: "f C1 = Some C2" "adds_product n R' A B C1 C2"
    using assms(2)[of C1] adds_product_length[OF C1(2)] by blast
  show ?thesis
    using C1(1) C2(1) adds_product_cong[OF adds_product_trans[OF C1(2) C2(2) assms(3)]] assms(4) by auto
qed

lemma cv_cores:
  assumes "32 * 32 \<le> length A" "32 * 32 \<le> length B" "32 * 32 \<le> length C"
  shows "\<exists>C'. cv_core0 32 A B C = Some C' \<and> adds_product 32 ({0..<16} \<times> UNIV) A B C C'"
    "\<exists>C'. cv_core1 32 A B C = Some C' \<and> adds_product 32 ({16..<32} \<times> UNIV) A B C C'"
  unfolding cv_core0_def cv_core1_def using assms by (simp_all add: cv_rows_bump rows_add_product)

lemma av_cores:
  assumes "32 * 32 \<le> length A" "32 * 32 \<le> length B" "32 * 32 \<le> length C"
  shows "\<exists>C'. av_core0 32 A B C = Some C' \<and> adds_product 32 ({0..<16} \<times> UNIV) A B C C'"
    "\<exists>C'. av_core1 32 A B C = Some C' \<and> adds_product 32 ({16..<32} \<times> UNIV) A B C C'"
  unfolding av_core0_def av_core1_def using assms by (simp_all add: av_rows_bump rows_add_product)

lemma df_cores:
  assumes "32 * 32 \<le> length A" "32 * 32 \<le> length B" "32 * 32 \<le> length C"
  shows "\<exists>C'. df_core0 32 A B C = Some C' \<and> adds_product 32 ({0..<32} \<times> {0..<16}) A B C C'"
    "\<exists>C'. df_core1 32 A B C = Some C' \<and> adds_product 32 ({0..<32} \<times> {16..<32}) A B C C'"
  unfolding df_core0_def df_core1_def
  using half_rows_twice[OF assms, of 0 0 16 16 32] half_rows_twice[OF assms, of 16 16 32 0 16]
  by (simp_all add: ivl_disj_un_two(3) Un_commute del: upt_rec_numeral)

lemma cl_cores:
  assumes "32 * 32 \<le> length A" "32 * 32 \<le> length B" "32 * 32 \<le> length C"
  shows "\<exists>C'. cl_core0 32 A B C = Some C' \<and> adds_product 32 ({0..<32} \<times> {0..<16}) A B C C'"
    "\<exists>C'. cl_core1 32 A B C = Some C' \<and> adds_product 32 ({0..<32} \<times> {16..<32}) A B C C'"
  using half_rows_add[OF assms, of 0 32 0] df_cores(2)[OF assms]
  by (simp_all add: cl_core0_def cl_core1_def df_core1_def del: upt_rec_numeral)

lemma cv_matmul_simps:
  "ncores = 1 \<Longrightarrow> cv_matmul 0 ncores lda A B C = Option.bind (cv_core1 lda A B C) (cv_core0 lda A B)"
  "ncores \<noteq> 1 \<Longrightarrow> cv_matmul 0 ncores lda A B C = cv_core0 lda A B C"
  "ncores \<noteq> 1 \<Longrightarrow> cv_matmul 1 ncores lda A B C = cv_core1 lda A B C"
  "ncores \<noteq> 1 \<Longrightarrow> 1 < x \<Longrightarrow> cv_matmul x ncores lda A B C = Some C"
  by (simp_all add: cv_matmul_def)

lemma cv_all:
  assumes "32 * 32 \<le> length A" "32 * 32 \<le> length B" "32 * 32 \<le> length C"
    and "distinct ids" "set ids = {0..<ncores}" "0 < ncores"
  shows "\<exists>C'. each ids (\<lambda>q. cv_matmul q ncores 32 A B) C = Some C' \<and> adds_product 32 UNIV A B C C'"
proof (rule all_cores[where R = "{0..<16} \<times> UNIV" and R' = "{16..<32} \<times> UNIV", OF _ _ _ _ _ _ refl assms(4-6)], goal_cases)
  case 1
  show ?case unfolding cv_matmul_simps(1)[OF 1]
    by (rule add_both[OF cv_cores(2) cv_cores(1)]) (use assms in auto)
next
  case (2 D) then show ?case using assms cv_cores(1)[of A B D] by (simp add: cv_matmul_simps)
next
  case (3 D) then show ?case using assms cv_cores(2)[of A B D] cv_matmul_simps(3) by simp
next
  case (4 x D) then show ?case by (rule cv_matmul_simps)
qed auto

lemma av_matmul_simps:
  "ncores = 1 \<Longrightarrow> av_matmul 0 ncores lda A B C = Option.bind (av_core1 lda A B C) (av_core0 lda A B)"
  "ncores \<noteq> 1 \<Longrightarrow> av_matmul 0 ncores lda A B C = av_core0 lda A B C"
  "ncores \<noteq> 1 \<Longrightarrow> av_matmul 1 ncores lda A B C = av_core1 lda A B C"
  "ncores \<noteq> 1 \<Longrightarrow> 1 < x \<Longrightarrow> av_matmul x ncores lda A B C = Some C"
  by (simp_all add: av_matmul_def)

lemma av_all:
  assumes "32 * 32 \<le> length A" "32 * 32 \<le> length B" "32 * 32 \<le> length C"
    and "distinct ids" "set ids = {0..<ncores}" "0 < ncores"
  shows "\<exists>C'. each ids (\<lambda>q. av_matmul q ncores 32 A B) C = Some C' \<and> adds_product 32 UNIV A B C C'"
proof (rule all_cores[where R = "{0..<16} \<times> UNIV" and R' = "{16..<32} \<times> UNIV", OF _ _ _ _ _ _ refl assms(4-6)], goal_cases)
  case 1
  show ?case unfolding av_matmul_simps(1)[OF 1]
    by (rule add_both[OF av_cores(2) av_cores(1)]) (use assms in auto)
next
  case (2 D) then show ?case using assms av_cores(1)[of A B D] by (simp add: av_matmul_simps)
next
  case (3 D) then show ?case using assms av_cores(2)[of A B D] av_matmul_simps(3) by simp
next
  case (4 x D) then show ?case by (rule av_matmul_simps)
qed auto

lemma df_matmul_simps:
  "ncores = 1 \<Longrightarrow> df_matmul 0 ncores lda A B C = Option.bind (df_core0 lda A B C) (df_core1 lda A B)"
  "ncores \<noteq> 1 \<Longrightarrow> df_matmul 0 ncores lda A B C = df_core0 lda A B C"
  "ncores \<noteq> 1 \<Longrightarrow> df_matmul 1 ncores lda A B C = df_core1 lda A B C"
  "ncores \<noteq> 1 \<Longrightarrow> 1 < x \<Longrightarrow> df_matmul x ncores lda A B C = Some C"
  by (simp_all add: df_matmul_def)

lemma df_all:
  assumes "32 * 32 \<le> length A" "32 * 32 \<le> length B" "32 * 32 \<le> length C"
    and "distinct ids" "set ids = {0..<ncores}" "0 < ncores"
  shows "\<exists>C'. each ids (\<lambda>q. df_matmul q ncores 32 A B) C = Some C' \<and> adds_product 32 UNIV A B C C'"
proof (rule all_cores[where R = "{0..<32} \<times> {0..<16}" and R' = "{0..<32} \<times> {16..<32}", OF _ _ _ _ _ _ refl assms(4-6)], goal_cases)
  case 1
  show ?case unfolding df_matmul_simps(1)[OF 1]
    by (rule add_both[OF df_cores(1) df_cores(2)]) (use assms in auto)
next
  case (2 D) then show ?case using assms df_cores(1)[of A B D] by (simp add: df_matmul_simps)
next
  case (3 D) then show ?case using assms df_cores(2)[of A B D] df_matmul_simps(3) by simp
next
  case (4 x D) then show ?case by (rule df_matmul_simps)
qed auto

lemma cl_matmul_simps:
  "ncores = 1 \<Longrightarrow> cl_matmul 0 ncores lda A B C = Option.bind (cl_core0 lda A B C) (cl_core1 lda A B)"
  "ncores \<noteq> 1 \<Longrightarrow> cl_matmul 0 ncores lda A B C = cl_core0 lda A B C"
  "ncores \<noteq> 1 \<Longrightarrow> cl_matmul 1 ncores lda A B C = cl_core1 lda A B C"
  "ncores \<noteq> 1 \<Longrightarrow> 1 < x \<Longrightarrow> cl_matmul x ncores lda A B C = Some C"
  by (simp_all add: cl_matmul_def)

lemma cl_all:
  assumes "32 * 32 \<le> length A" "32 * 32 \<le> length B" "32 * 32 \<le> length C"
    and "distinct ids" "set ids = {0..<ncores}" "0 < ncores"
  shows "\<exists>C'. each ids (\<lambda>q. cl_matmul q ncores 32 A B) C = Some C' \<and> adds_product 32 UNIV A B C C'"
proof (rule all_cores[where R = "{0..<32} \<times> {0..<16}" and R' = "{0..<32} \<times> {16..<32}", OF _ _ _ _ _ _ refl assms(4-6)], goal_cases)
  case 1
  show ?case unfolding cl_matmul_simps(1)[OF 1]
    by (rule add_both[OF cl_cores(1) cl_cores(2)]) (use assms in auto)
next
  case (2 D) then show ?case using assms cl_cores(1)[of A B D] by (simp add: cl_matmul_simps)
next
  case (3 D) then show ?case using assms cl_cores(2)[of A B D] cl_matmul_simps(3) by simp
next
  case (4 x D) then show ?case by (rule cl_matmul_simps)
qed auto

definition bm_part :: "nat \<Rightarrow> nat \<Rightarrow> nat \<Rightarrow> (nat \<times> nat) set" where
  "bm_part ncores lda q = {lda div ncores * q..<if q = ncores - 1 then lda else lda div ncores * Suc q} \<times> {0..<lda}"

lemma space_le: "Suc q \<le> ncores \<Longrightarrow> lda div ncores * Suc q \<le> lda" for q ncores lda :: nat
  using mult_le_mono2[of "Suc q" ncores "lda div ncores"] div_times_less_eq_dividend[of lda ncores] by linarith

lemma bm_core:
  assumes "lda * lda \<le> length A" "lda * lda \<le> length B" "lda * lda \<le> length C"
    and "4 dvd lda" "4 dvd lda div ncores" "q < ncores"
  shows "\<exists>C'. bm_matmul q ncores lda A B C = Some C' \<and> adds_product lda (bm_part ncores lda q) A B C C'"
proof (cases "q = ncores - 1")
  case True
  have "4 dvd lda div 4 * 4" "lda div 4 * 4 = lda" using assms(4) by simp_all
  then show ?thesis
    using bm_rows_add[OF assms(1-4), of "lda div ncores * q" lda] True assms(4,5)
    by (simp add: bm_matmul_def bm_last_def bm_part_def)
next
  case False
  let ?b = "lda div ncores * q + lda div ncores"
  have "4 dvd ?b" using assms(5) by simp
  then have "?b div 4 * 4 = ?b" by simp
  moreover have "?b \<le> lda" using space_le[of q ncores lda] assms(6) by simp
  ultimately show ?thesis
    using bm_rows_add[OF assms(1-4), of "lda div ncores * q" ?b] False assms(5) \<open>4 dvd ?b\<close>
    by (simp add: bm_matmul_def bm_main_def bm_part_def Let_def add.commute)
qed

lemma bm_parts_disjoint:
  assumes "q < ncores" "q' < ncores" "q \<noteq> q'"
  shows "bm_part ncores lda q \<inter> bm_part ncores lda q' = {}"
proof -
  have *: "bm_part ncores lda a \<inter> bm_part ncores lda b = {}" if "a < b" "b < ncores" for a b
  proof -
    have "lda div ncores * Suc a \<le> lda div ncores * b" using that(1) by (intro mult_le_mono2) simp
    then show ?thesis using that by (auto simp: bm_part_def)
  qed
  show ?thesis using *[of q q'] *[of q' q] assms by (cases "q < q'") (auto simp: Int_commute)
qed

lemma bm_parts_cover:
  assumes "j < lda" "i < lda" "0 < ncores"
  shows "(j, i) \<in> (\<Union>q \<in> {0..<ncores}. bm_part ncores lda q)"
proof (cases "lda div ncores * (ncores - 1) \<le> j")
  case True then show ?thesis using assms by (intro UN_I[of "ncores - 1"]) (auto simp: bm_part_def)
next
  case False
  then have s: "0 < lda div ncores" by (cases "lda div ncores = 0") auto
  let ?q = "j div (lda div ncores)"
  have q: "?q < ncores - 1" using False s by (simp add: less_mult_imp_div_less mult.commute)
  have "lda div ncores * ?q \<le> j" "j < lda div ncores * Suc ?q"
    using s by (simp_all add: dividend_less_times_div[of "lda div ncores" j, simplified])
  then have "(j, i) \<in> bm_part ncores lda ?q" using q assms by (simp add: bm_part_def)
  then show ?thesis using q by (intro UN_I[of ?q]) auto
qed

lemma bm_all:
  assumes "lda * lda \<le> length A" "lda * lda \<le> length B" "lda * lda \<le> length C"
    and "4 dvd lda" "4 dvd lda div ncores" "distinct ids" "set ids = {0..<ncores}" "0 < ncores"
  shows "\<exists>C'. each ids (\<lambda>q. bm_matmul q ncores lda A B) C = Some C' \<and> adds_product lda UNIV A B C C'"
proof -
  have "\<exists>C'. each ids (\<lambda>q. bm_matmul q ncores lda A B) C = Some C' \<and>
      adds_product lda (\<Union>q \<in> set ids. bm_part ncores lda q) A B C C'"
  proof (rule each_adds_product[OF _ assms(6) _ refl], goal_cases)
    case (1 q D) then show ?case using bm_core[OF assms(1,2) _ assms(4,5), of D q] assms(3,7) by simp
  next
    case (2 q q') then show ?case using bm_parts_disjoint assms(7) by simp
  qed
  then obtain C' where C': "each ids (\<lambda>q. bm_matmul q ncores lda A B) C = Some C'"
      "adds_product lda (\<Union>q \<in> set ids. bm_part ncores lda q) A B C C'" by blast
  show ?thesis
    using C'(1) adds_product_cong[OF C'(2), of UNIV] bm_parts_cover[OF _ _ assms(8)] assms(7) by auto
qed

section \<open>Interleaved cores\<close>

lemma tgt_perm: "mset us = mset vs \<Longrightarrow> tgt us x = tgt vs x"
proof -
  assume "mset us = mset vs"
  then have "sum_mset (image_mset (\<lambda>(y, t). if y = x then t else 0) (mset us)) =
      sum_mset (image_mset (\<lambda>(y, t). if y = x then t else 0) (mset vs))" by simp
  then show ?thesis unfolding tgt_def mset_map[symmetric] sum_mset_sum_list .
qed

lemma shuffles_mset: "zs \<in> shuffles xs ys \<Longrightarrow> mset zs = mset xs + mset ys"
  by (induction xs ys arbitrary: zs rule: shuffles.induct) (auto simp: Cons_shuffles_subset1)

lemma each_add_at:
  assumes "\<forall>(x, t) \<in> set us. x < length C"
  shows "each us (\<lambda>(x, t). add_at x t) C = Some (bump us C)"
proof -
  have "each us (\<lambda>(x, t). add_at x t) C = Some (bump (concat (map (\<lambda>u. [u]) us)) C)"
    by (rule each_bump[OF _ refl]) (use assms in \<open>auto simp: add_at_bump\<close>)
  moreover have "concat (map (\<lambda>u. [u]) us) = us" by (induction us) simp_all
  ultimately show ?thesis by simp
qed

lemma shuffled_cores:
  assumes "zs \<in> shuffles (rows_updates 0 16 A B) (rows_updates 16 32 A B)" "32 * 32 \<le> length C"
  shows "\<exists>C'. each zs (\<lambda>(x, t). add_at x t) C = Some C' \<and> adds_product 32 UNIV A B C C'"
proof -
  let ?us = "rows_updates 0 16 A B @ rows_updates 16 32 A B"
  have "mset zs = mset ?us" using shuffles_mset[OF assms(1)] by simp
  then have e: "bump zs C = bump ?us C" and s: "set zs = set ?us"
    using tgt_perm by (auto intro!: bump_cong dest: mset_eq_setD simp del: mset_append set_append)
  have sm: "(y, t) \<in> set ?us \<Longrightarrow> y < 32 * 32" for y t using rows_updates_small by fastforce
  have "adds_product 32 UNIV A B C (bump ?us C)"
    by (rule bump_adds_product[OF _ sm assms(2)]) (auto simp: tgt_rows_updates)
  moreover have "each zs (\<lambda>(x, t). add_at x t) C = Some (bump zs C)"
    by (rule each_add_at) (use sm assms(2) s in fastforce)
  ultimately show ?thesis using e by simp
qed

section \<open>Properties\<close>

text \<open>
  The unrolled multiplications \<open>cv\<close>, \<open>av\<close>, \<open>df\<close> and \<open>cl\<close> of two matrices of dimension 32 are correct
  for any number of cores: when the cores run in any order, none fails, and afterwards every
  element of \<open>C\<close> has the element of the product added (modulo 2^32), nothing else being changed.
\<close>

lemma unrolled_matmul_cores:
  assumes "matmul \<in> {cv_matmul, av_matmul, df_matmul, cl_matmul}"
    and "32 * 32 \<le> length A" "32 * 32 \<le> length B" "32 * 32 \<le> length C"
    and "distinct ids" "set ids = {0..<ncores}" "0 < ncores"
  shows "\<exists>C'. each ids (\<lambda>q. matmul q ncores 32 A B) C = Some C' \<and> adds_product 32 UNIV A B C C'"
  using assms(1) cv_all[OF assms(2-)] av_all[OF assms(2-)] df_all[OF assms(2-)] cl_all[OF assms(2-)] by blast

lemma unrolled_matmul_cores_witness:
  "\<exists>C'. each [1, 0] (\<lambda>q. df_matmul q 2 32 (replicate 1024 3) (replicate 1024 5)) (replicate 1024 7) = Some C' \<and>
    C' ! 33 = 487"
proof -
  have "\<exists>C'. each [1, 0] (\<lambda>q. df_matmul q 2 32 (replicate 1024 3) (replicate 1024 5)) (replicate 1024 7) = Some C' \<and>
      adds_product 32 UNIV (replicate 1024 3) (replicate 1024 5) (replicate 1024 7) C'"
    by (rule unrolled_matmul_cores) auto
  moreover have "C' ! 33 = 487"
    if "adds_product 32 UNIV (replicate 1024 3) (replicate 1024 5) (replicate 1024 7) C'" for C'
  proof -
    have "C' ! (1 + 1 * 32) = replicate 1024 7 ! (1 + 1 * 32) + product 32 (replicate 1024 3) (replicate 1024 5) 1 1"
      using that unfolding adds_product_def by (elim conjE) (drule spec[of _ 1], simp, drule spec[of _ 1], simp)
    moreover have "product 32 (replicate 1024 3) (replicate 1024 5) 1 1 = 480"
      by (simp add: product_def prod_term_def)
    ultimately show ?thesis by simp
  qed
  ultimately show ?thesis by blast
qed



end
