(* ===== verification/Mt_Fixed.thy ===== *)
theory Mt_Fixed
  imports Mt_Kernels Mt_Matmul
begin

text \<open>
  The multiplications of \<open>mt/\<close> that add to \<open>C\<close> and are written for matrices of dimension 32.
\<close>

section \<open>\<open>al\<close>: half rows\<close>

definition al_matmul :: matmul_fun where
  "al_matmul coreid ncores lda A B C = (if coreid > 1 then Some C
     else two_cores (each [0..<32] (df_half_row 0 lda A B)) (each [0..<32] (df_half_row 16 lda A B)) coreid ncores C)"

section \<open>\<open>bk\<close> and \<open>dv\<close>: eight columns in locals, halves of the sum\<close>

definition bk_block :: "s32 list \<Rightarrow> s32 list \<Rightarrow> nat \<Rightarrow> nat \<Rightarrow> nat \<Rightarrow> s32 list \<Rightarrow> s32 list option" where
  "bk_block A B kk j i C = do {
     temps \<leftarrow> load C (\<lambda>p. i + j * 32 + p) 8;
     temps \<leftarrow> each [kk..<min (kk + 16) 32] (\<lambda>k. reg_step A B (\<lambda>_. j * 32 + k) 1 (\<lambda>p. k * 32 + i + p) 8) temps;
     store temps (\<lambda>p. i + j * 32 + p) 8 C }"

definition bk_rows :: "nat \<Rightarrow> nat \<Rightarrow> s32 list \<Rightarrow> s32 list \<Rightarrow> s32 list \<Rightarrow> s32 list option" where
  "bk_rows lo hi A B = each (steps 0 32 16) (\<lambda>kk. each [lo..<hi] (\<lambda>j. each (steps 0 32 8) (bk_block A B kk j)))"

definition bk_matmul :: matmul_fun where
  "bk_matmul coreid ncores lda A B C = (if coreid > 1 then Some C
     else two_cores (bk_rows 0 16 A B) (bk_rows 16 32 A B) coreid ncores C)"

text \<open>\<open>dv_matmul.c\<close> has the same loops with the rows of the cores exchanged.\<close>

definition dv_matmul :: matmul_fun where
  "dv_matmul coreid ncores lda A B C = (if coreid > 1 then Some C
     else do {
       C \<leftarrow> (if coreid \<noteq> 0 \<or> ncores = 1 then bk_rows 0 16 A B C else Some C);
       if coreid = 0 then bk_rows 16 32 A B C else Some C })"

lemma bk_block_adds:
  assumes "32 * 32 \<le> length A" "32 * 32 \<le> length B" "32 * 32 \<le> L" "j < 32" "i + 8 \<le> 32" "kk + 16 \<le> 32"
  shows "adds 32 A B L ({j} \<times> {kk..<kk + 16} \<times> {i..<i + 8}) (bk_block A B kk j i)"
proof -
  have "does (blk j i 8) (trm 32 A B) 8 ({j..<j + 1} \<times> {kk..<kk + 16} \<times> {i..<i + 8})
      (each [kk..<min (kk + 16) 32] (\<lambda>k. reg_step A B (\<lambda>_. j * 32 + k) 1 (\<lambda>p. k * 32 + i + p) 8))"
    unfolding min_absorb1[OF assms(6)]
  proof (rule does_sums[OF splits_upt])
    fix k assume "k \<in> set [kk..<kk + 16]"
    then show "does (blk j i 8) (trm 32 A B) 8 ({j..<j + 1} \<times> {k} \<times> {i..<i + 8})
        (reg_step A B (\<lambda>_. j * 32 + k) 1 (\<lambda>p. k * 32 + i + p) 8)"
      by (intro does_reg_step) (use assms in \<open>auto simp: add.assoc\<close>)
  qed
  from adds_block[OF this, where f = "\<lambda>p. i + j * 32 + p" and L = L] show ?thesis
    using assms(3-5) unfolding bk_block_def by (simp add: block_at_def)
qed

lemma bk_adds:
  assumes "32 * 32 \<le> length A" "32 * 32 \<le> length B" "32 * 32 \<le> L" "hi \<le> 32"
  shows "adds 32 A B L ({lo..<hi} \<times> {0..<32} \<times> {0..<32}) (bk_rows lo hi A B)"
  unfolding bk_rows_def
proof (rule does_sums[OF splits_steps], goal_cases)
  case k: (4 kk)
  show ?case
  proof (rule does_rows[OF splits_upt], rule does_cols[OF splits_steps], goal_cases)
    case (4 j i)
    then show ?case using steps_mem(2)[OF k] steps_mem(2)[OF 4(2)] assms by (intro bk_block_adds) simp_all
  qed simp_all
qed simp_all

section \<open>\<open>bc\<close> and \<open>dc\<close>: blocks of eight columns and two rows\<close>

text \<open>The local \<open>c[ri][rj]\<close> has the number \<open>8 * rj + ri\<close>.\<close>

definition bc_step :: "s32 list \<Rightarrow> s32 list \<Rightarrow> nat \<Rightarrow> nat \<Rightarrow> nat \<Rightarrow> s32 list \<Rightarrow> s32 list option" where
  "bc_step A B j i k c = do {
     a \<leftarrow> load A (\<lambda>rj. j * 32 + k + rj * 32) 2;
     b \<leftarrow> load B (\<lambda>ri. i + k * 32 + ri) 8;
     each [0..<8] (\<lambda>ri. each [0..<2] (\<lambda>rj. add_at (8 * rj + ri) (b ! ri * a ! rj))) c }"

definition dc_step :: "s32 list \<Rightarrow> s32 list \<Rightarrow> nat \<Rightarrow> nat \<Rightarrow> nat \<Rightarrow> s32 list \<Rightarrow> s32 list option" where
  "dc_step A B j i k c = do {
     b \<leftarrow> load B (\<lambda>ri. i + k * 32 + ri) 8;
     each [0..<2] (\<lambda>rj c. do {
       a \<leftarrow> rd A (j * 32 + rj * 32 + k);
       each [0..<8] (\<lambda>ri. add_at (8 * rj + ri) (a * b ! ri)) c }) c }"

text \<open>The loops over \<open>j\<close> and \<open>i\<close> for the blocks \<open>jj\<close> and \<open>kk\<close>, with the one or the other step.\<close>

definition bc_blocks :: "(nat \<Rightarrow> nat \<Rightarrow> nat \<Rightarrow> s32 list \<Rightarrow> s32 list option) \<Rightarrow> nat \<Rightarrow> nat \<Rightarrow> nat \<Rightarrow> s32 list \<Rightarrow> s32 list option" where
  "bc_blocks step bound jj kk = each (steps jj (min bound (jj + 16)) 2) (\<lambda>j. each (steps 0 32 8) (\<lambda>i C. do {
     c \<leftarrow> load C (\<lambda>p. i + p mod 8 + (j + p div 8) * 32) 16;
     c \<leftarrow> each [kk..<min 32 (kk + 16)] (step j i) c;
     store c (\<lambda>p. i + p mod 8 + (j + p div 8) * 32) 16 C }))"

definition bc_naive :: "nat \<Rightarrow> s32 list \<Rightarrow> s32 list \<Rightarrow> s32 list \<Rightarrow> s32 list option" where
  "bc_naive lda A B = each [0..<lda] (\<lambda>i. each [0..<lda] (\<lambda>j. each [0..<lda] (\<lambda>k.
     mac A B (j * lda + k) (k * lda + i) (i + j * lda))))"

definition bc_matmul :: matmul_fun where
  "bc_matmul coreid ncores lda A B C = (
     let start = coreid * (32 div 2); bound = (if coreid = 2 - 1 then 32 else (coreid + 1) * (32 div 2))
     in if ncores = 2 \<and> lda = 32
        then each (steps start bound 16) (\<lambda>jj. each (steps 0 32 16) (bc_blocks (bc_step A B) bound jj)) C
        else if coreid > 0 then Some C else bc_naive lda A B C)"

definition dc_matmul :: matmul_fun where
  "dc_matmul coreid ncores lda A B C = (
     let start = coreid * (32 div 2); bound = (if coreid = 2 - 1 then 32 else (coreid + 1) * (32 div 2))
     in if ncores = 2 \<and> lda = 32
        then do {
          C \<leftarrow> each (steps start bound 16) (\<lambda>jj.
            let kk_start = (if coreid = 0 then 0 else 32 div 2); kk_end = (if coreid = 0 then 32 div 2 else 32)
            in each (steps kk_start kk_end 16) (bc_blocks (dc_step A B) bound jj)) C;
          each (steps start bound 16) (\<lambda>jj.
            let kk_start = (if coreid \<noteq> 0 then 0 else 32 div 2); kk_end = (if coreid \<noteq> 0 then 32 div 2 else 32)
            in each (steps kk_start kk_end 16) (bc_blocks (dc_step A B) bound jj)) C }
        else if coreid > 0 then Some C else bc_naive lda A B C)"

lemma bc_step_does:
  assumes "32 * 32 \<le> length A" "32 * 32 \<le> length B" "j + 2 \<le> 32" "i + 8 \<le> 32" "k < 32"
  shows "does (blk j i 8) (trm 32 A B) 16 ({j..<j + 2} \<times> {k} \<times> {i..<i + 8}) (bc_step A B j i k)"
    "does (blk j i 8) (trm 32 A B) 16 ({j..<j + 2} \<times> {k} \<times> {i..<i + 8}) (dc_step A B j i k)"
proof -
  show "does (blk j i 8) (trm 32 A B) 16 ({j..<j + 2} \<times> {k} \<times> {i..<i + 8}) (bc_step A B j i k)"
    unfolding bc_step_def
  proof (rule does_load, goal_cases)
    case 2
    show ?case
    proof (rule does_load, goal_cases)
      case 2
      show ?case
        by (rule does_cols[OF splits_unroll], rule does_rows[OF splits_unroll], rule does_term)
          (auto simp: algebra_simps simp del: upt_rec_numeral)
    qed (use assms in simp)
  qed (use assms in simp)
  show "does (blk j i 8) (trm 32 A B) 16 ({j..<j + 2} \<times> {k} \<times> {i..<i + 8}) (dc_step A B j i k)"
    unfolding dc_step_def
  proof (rule does_load, goal_cases)
    case 2
    show ?case
    proof (rule does_rows[OF splits_unroll], rule does_rd, goal_cases)
      case (2 r)
      show ?case
        by (rule does_cols[OF splits_unroll], rule does_term)
          (use 2 in \<open>auto simp: add.assoc add.commute distrib_right simp del: upt_rec_numeral\<close>)
    qed (use assms in simp)
  qed (use assms in simp)
qed

lemma bc_blocks_adds:
  assumes "\<And>j i k. j + 2 \<le> 32 \<Longrightarrow> i + 8 \<le> 32 \<Longrightarrow> k < 32 \<Longrightarrow>
      does (blk j i 8) (trm 32 A B) 16 ({j..<j + 2} \<times> {k} \<times> {i..<i + 8}) (step j i k)"
    and "32 * 32 \<le> L" "jj + 16 \<le> bound" "bound \<le> 32" "kk + 16 \<le> 32"
  shows "adds 32 A B L ({jj..<jj + 16} \<times> {kk..<kk + 16} \<times> {0..<32}) (bc_blocks step bound jj kk)"
  unfolding bc_blocks_def min_absorb2[OF assms(3)] min_absorb2[OF assms(5)]
proof (rule does_rows[OF splits_steps], simp, simp, simp, rule does_cols[OF splits_steps], goal_cases)
  case (4 j i)
  then have ji: "j + 2 \<le> 32" "i + 8 \<le> 32" using steps_mem(2)[OF 4(1)] steps_mem(2)[OF 4(2)] assms by simp_all
  show ?case
  proof (rule adds_block)
    show "does (blk j i 8) (trm 32 A B) 16 ({j..<j + 2} \<times> {kk..<kk + 16} \<times> {i..<i + 8}) (each [kk..<kk + 16] (step j i))"
      by (rule does_sums[OF splits_upt]) (use assms(1)[OF ji] assms(5) in simp)
  qed (use ji assms(2) in \<open>simp_all add: block_at_def\<close>)
qed simp_all

lemma bc_naive_adds:
  assumes "lda * lda \<le> length A" "lda * lda \<le> length B" "lda * lda \<le> L"
  shows "adds lda A B L ({0..<lda} \<times> {0..<lda} \<times> {0..<lda}) (bc_naive lda A B)"
  unfolding bc_naive_def mac_def
  by (rule does_cols[OF splits_upt], rule does_rows[OF splits_upt], rule does_sums[OF splits_upt],
    intro does_rd adds_term) (use assms in \<open>simp_all add: row_less\<close>)

text \<open>The cores of \<open>bc\<close> and \<open>dc\<close>, for any dimension and any number of cores.\<close>

lemma bc_all:
  assumes "lda * lda \<le> length A" "lda * lda \<le> length B" "lda * lda \<le> L"
    and "distinct ids" "set ids = {0..<ncores}" "0 < ncores" "matmul \<in> {bc_matmul, dc_matmul}"
  shows "adds lda A B L ({0..<lda} \<times> {0..<lda} \<times> {0..<lda}) (each ids (\<lambda>q. matmul q ncores lda A B))"
proof (cases "ncores = 2 \<and> lda = 32")
  case True
  then have l: "32 * 32 \<le> length A" "32 * 32 \<le> length B" "32 * 32 \<le> L" using assms(1-3) by simp_all
  have b: "adds 32 A B L ({jj..<jj + 16} \<times> {kk..<kk + 16} \<times> {0..<32}) (bc_blocks (bc_step A B) bound jj kk)"
    "adds 32 A B L ({jj..<jj + 16} \<times> {kk..<kk + 16} \<times> {0..<32}) (bc_blocks (dc_step A B) bound jj kk)"
    if "jj + 16 \<le> bound" "bound \<le> 32" "kk + 16 \<le> 32" for jj bound kk
    using bc_blocks_adds[OF bc_step_does(1)[OF l(1,2)] l(3) that] bc_blocks_adds[OF bc_step_does(2)[OF l(1,2)] l(3) that] by blast+
  have s: "steps 0 16 16 = [0]" "steps 16 32 16 = [16]" "steps 0 32 16 = [0, 16]" by (simp_all add: steps_def upt_rec)
  have halves: "splits [0, 16] (\<lambda>kk. {kk..<kk + 16}) {0..<32 :: nat}" by (auto simp: splits_def)
  have one: "each [x] f = f x" for x :: nat and f :: "nat \<Rightarrow> s32 list \<Rightarrow> s32 list option" by (rule ext) (simp add: each_Nil)
  have bc: "adds 32 A B L ({jj..<jj + 16} \<times> {0..<32} \<times> {0..<32}) (each [0, 16] (bc_blocks (bc_step A B) bound jj))"
    if "jj + 16 \<le> bound" "bound \<le> 32" for jj bound
    by (rule does_sums[OF halves]) (use b(1)[OF that] in auto)
  have dc: "adds 32 A B L ({jj..<jj + 16} \<times> {0..<32} \<times> {0..<32})
      (\<lambda>C. Option.bind (bc_blocks (dc_step A B) bound jj kk C) (bc_blocks (dc_step A B) bound jj kk'))"
    if "jj + 16 \<le> bound" "bound \<le> 32" "(kk, kk') \<in> {(0, 16), (16, 0)}" for jj bound kk kk'
    by (rule does_two[OF b(2)[OF that(1,2)] b(2)[OF that(1,2)]]) (use that(3) in auto)
  have "adds 32 A B L (({0..<16} \<union> {16..<32}) \<times> {0..<32} \<times> {0..<32}) (each ids (\<lambda>q. matmul q 2 32 A B))"
    unfolding Sigma_Un_distrib1
  proof (rule cores_does[OF _ _ _ _ _ assms(4) assms(5)[unfolded conjunct1[OF True]]], goal_cases)
    case 2
    have "bc_matmul 0 2 32 A B = each [0, 16] (bc_blocks (bc_step A B) 16 0)"
      "dc_matmul 0 2 32 A B = (\<lambda>C. Option.bind (bc_blocks (dc_step A B) 16 0 0 C) (bc_blocks (dc_step A B) 16 0 16))"
      by (simp_all add: fun_eq_iff bc_matmul_def dc_matmul_def s one Let_def del: each.simps)
    then show ?case using assms(7) bc[of 0 16] dc[of 0 16 0 16] by auto
  next
    case 3
    have "bc_matmul 1 2 32 A B = each [0, 16] (bc_blocks (bc_step A B) 32 16)"
      "dc_matmul 1 2 32 A B = (\<lambda>C. Option.bind (bc_blocks (dc_step A B) 32 16 16 C) (bc_blocks (dc_step A B) 32 16 0))"
      by (simp_all add: fun_eq_iff bc_matmul_def dc_matmul_def s one Let_def del: each.simps)
    then show ?case using assms(7) bc[of 16 32] dc[of 16 32 16 0] by auto
  qed auto
  moreover have "{0..<16} \<union> {16..<32} = {0..<32 :: nat}" by auto
  ultimately show ?thesis using True by simp
next
  case False
  have n: "matmul 0 ncores lda A B = bc_naive lda A B" "\<And>q. 0 < q \<Longrightarrow> matmul q ncores lda A B = Some"
    using False assms(7) by (auto simp: bc_matmul_def dc_matmul_def fun_eq_iff)
  have "adds lda A B L ({0..<lda} \<times> {0..<lda} \<times> {0..<lda} \<union> {}) (each ids (\<lambda>q. matmul q ncores lda A B))"
    by (rule cores_does) (use assms n bc_naive_adds[OF assms(1-3)] does_skip in auto)
  then show ?thesis by simp
qed

section \<open>\<open>ad\<close>: plain rows\<close>

definition ad_matmul :: matmul_fun where
  "ad_matmul coreid ncores lda A B =
     each [coreid * (lda div ncores)..<(coreid + 1) * (lda div ncores)] (\<lambda>j. each (steps 0 32 2) (\<lambda>k C. do {
       Aj32k \<leftarrow> rd A (k + j * 32);
       Aj32k2 \<leftarrow> rd A (k + 1 + j * 32);
       each (steps 0 32 4) (\<lambda>i. each [0..<4] (\<lambda>p C. do {
         b \<leftarrow> rd B (k * 32 + i + p);
         C \<leftarrow> add_at (j * 32 + i + p) (Aj32k * b) C;
         b2 \<leftarrow> rd B (k * 32 + 32 + i + p);
         add_at (j * 32 + i + p) (Aj32k2 * b2) C })) C }))"

lemma ad_adds:
  assumes "32 * 32 \<le> length A" "32 * 32 \<le> length B" "32 * 32 \<le> L" "(q + 1) * (32 div ncores) \<le> 32"
  shows "adds 32 A B L ({q * (32 div ncores)..<(q + 1) * (32 div ncores)} \<times> {0..<32} \<times> {0..<32}) (ad_matmul q ncores 32 A B)"
  unfolding ad_matmul_def
proof (rule does_rows[OF splits_upt], rule does_sums[OF splits_steps], goal_cases)
  case (4 j k)
  have j: "j < 32" using 4(1) assms(4) by simp
  have k: "k + 2 \<le> 32" using steps_mem(2)[OF 4(2)] by simp
  show ?case
  proof (rule does_rd, use j k assms(1) in simp, rule does_rd, use j k assms(1) in simp,
      rule does_cols[OF splits_steps], simp, simp, simp, rule does_cols[OF splits_unroll])
    fix i p assume i: "i \<in> set (steps 0 32 4)" and p: "p \<in> set [0..<4]"
    have ip: "i + p < 32" using steps_mem(2)[OF i] p by simp
    have "adds 32 A B L ({j} \<times> {k} \<times> {i + p}) (add_at (j * 32 + i + p) (A ! (k + j * 32) * B ! (k * 32 + i + p)))"
      "adds 32 A B L ({j} \<times> {k + 1} \<times> {i + p}) (add_at (j * 32 + i + p) (A ! (k + 1 + j * 32) * B ! (k * 32 + 32 + i + p)))"
      by (rule adds_term; use j ip assms(3) in \<open>simp add: ac_simps\<close>)+
    note two = this
    have u: "{j} \<times> {k..<k + 2} \<times> {i + p} = {j} \<times> {k} \<times> {i + p} \<union> {j} \<times> {k + 1} \<times> {i + p}" by auto
    have "adds 32 A B L ({j} \<times> {k..<k + 2} \<times> {i + p}) (\<lambda>C. do {
        C \<leftarrow> add_at (j * 32 + i + p) (A ! (k + j * 32) * B ! (k * 32 + i + p)) C;
        add_at (j * 32 + i + p) (A ! (k + 1 + j * 32) * B ! (k * 32 + 32 + i + p)) C })"
      by (rule does_two[OF two _ u]) auto
    then show "adds 32 A B L ({j} \<times> {k..<k + 2} \<times> {i + p}) (\<lambda>C. do {
        b \<leftarrow> rd B (k * 32 + i + p);
        C \<leftarrow> add_at (j * 32 + i + p) (A ! (k + j * 32) * b) C;
        b2 \<leftarrow> rd B (k * 32 + 32 + i + p);
        add_at (j * 32 + i + p) (A ! (k + 1 + j * 32) * b2) C })"
      using k ip assms(2) by simp
  qed
qed simp_all

section \<open>\<open>at\<close>: a transposed copy of \<open>B\<close>\<close>

text \<open>The array \<open>bTrans\<close> of 1024 elements is on the stack of each core and holds \<open>U\<close> at first.\<close>

definition at_transpose :: "nat \<Rightarrow> s32 list \<Rightarrow> s32 list \<Rightarrow> s32 list option" where
  "at_transpose lda B = each [0..<32] (\<lambda>counti. each [0..<32] (\<lambda>countj bTrans. do {
     b \<leftarrow> rd B (countj + counti * lda);
     wr bTrans (counti + countj * lda) b }))"

definition at_matmul :: "s32 list \<Rightarrow> matmul_fun" where
  "at_matmul U coreid ncores lda A B C = do {
     bTrans \<leftarrow> at_transpose lda B U;
     each [0..<lda] (\<lambda>j. each (steps (coreid * lda div ncores) ((coreid + 1) * lda div ncores) 8) (\<lambda>i.
       each [i..<i + 8] (\<lambda>iTemp. each (steps 0 lda 16) (\<lambda>k. each [0..<16] (\<lambda>x.
         mac A bTrans (j * lda + k + x) (iTemp * lda + k + x) (j * lda + iTemp)))))) C }"

lemma at_transposes:
  assumes "32 * 32 \<le> length B" "32 * 32 \<le> length U"
  shows "\<exists>T. at_transpose 32 B U = Some T \<and> length T = length U \<and> (\<forall>i < 32. \<forall>k < 32. T ! (i * 32 + k) = B ! (k * 32 + i))"
proof -
  have "puts (transposed 32 B) (length U) (cells 32 {0..<32} {0..<32}) (at_transpose 32 B)"
    unfolding at_transpose_def
  proof (rule puts_cols[OF splits_upt], rule puts_rows[OF splits_upt], rule puts_rd)
    fix x y assume xy: "x \<in> set [0..<32 :: nat]" "y \<in> set [0..<32 :: nat]"
    then show "y + x * 32 < length B" using assms(1) by simp
    show "puts (transposed 32 B) (length U) (cells 32 {y} {x}) (\<lambda>T. wr T (x + y * 32) (B ! (y + x * 32)))"
      by (rule puts_cell) (use xy assms(2) in \<open>simp_all add: add.commute del: upt_rec_numeral\<close>)
  qed
  from puts_transposed[OF this refl] show ?thesis using assms by auto
qed

lemma at_adds:
  assumes "32 * 32 \<le> length A" "32 * 32 \<le> length B" "32 * 32 \<le> L" "32 * 32 \<le> length U" "hi \<le> 32"
    and "lo = q * 32 div ncores" "hi = (q + 1) * 32 div ncores" "8 dvd hi - lo" "lo \<le> hi"
  shows "adds 32 A B L ({0..<32} \<times> {0..<32} \<times> {lo..<hi}) (at_matmul U q ncores 32 A B)"
proof -
  obtain T where t: "at_transpose 32 B U = Some T" "length T = length U" "\<forall>i < 32. \<forall>k < 32. T ! (i * 32 + k) = B ! (k * 32 + i)"
    using at_transposes[OF assms(2,4)] by blast
  have "adds 32 A B L ({0..<32} \<times> {0..<32} \<times> {lo..<hi}) (each [0..<32] (\<lambda>j. each (steps lo hi 8) (\<lambda>i.
       each [i..<i + 8] (\<lambda>iTemp. each (steps 0 32 16) (\<lambda>k. each [0..<16] (\<lambda>x.
         mac A T (j * 32 + k + x) (iTemp * 32 + k + x) (j * 32 + iTemp)))))))"
  proof (rule does_rows[OF splits_upt], rule does_cols[OF splits_steps[OF assms(9,8)]], simp, rule does_cols[OF splits_upt],
      rule does_sums[OF splits_steps], simp, simp, simp, rule does_sums[OF splits_unroll])
    fix j i i' k x assume j: "j \<in> set [0..<32 :: nat]" and i: "i \<in> set (steps lo hi 8)" "i' \<in> set [i..<i + 8]"
      and k: "k \<in> set (steps 0 32 16)" and x: "x \<in> set [0..<16 :: nat]"
    have b: "j < 32" "i' < 32" "k + x < 32"
      using j i steps_mem(2)[OF i(1) assms(8)] steps_mem(2)[OF k] x assms(5) by simp_all
    have e: "j * 32 + k + x = j * 32 + (k + x)" "i' * 32 + k + x = i' * 32 + (k + x)" by simp_all
    show "adds 32 A B L ({j} \<times> {k + x} \<times> {i'}) (mac A T (j * 32 + k + x) (i' * 32 + k + x) (j * 32 + i'))"
      unfolding mac_def e
    proof (rule does_rd, use b assms(1) in simp, rule does_rd, use b t(2) assms(4) in simp, rule adds_term)
      show "A ! (j * 32 + (k + x)) * T ! (i' * 32 + (k + x)) = A ! (j * 32 + (k + x)) * B ! ((k + x) * 32 + i')"
        using t(3) b by simp
    qed (use b assms(3) in simp_all)
  qed
  then show ?thesis using t(1) assms(6,7) by (simp add: does_cong at_matmul_def)
qed

end
