(* ===== verification/Mt_Generic.thy ===== *)
theory Mt_Generic
  imports Mt_Kernels
begin

text \<open>
  The multiplications of \<open>mt/\<close> that add to \<open>C\<close> and take the dimension from their argument \<open>lda\<close>.
  Where the code divides the rows among the cores, a core has the share \<open>lda / ncores\<close>. The barriers
  inside the loops have no effect on the result: a core never reads what another one writes.
\<close>

section \<open>Plain loops: \<open>an\<close>, \<open>ap\<close>, \<open>aq\<close>\<close>

definition an_matmul :: matmul_fun where
  "an_matmul coreid ncores lda A B = (let limit = lda div ncores in
     each [coreid * limit..<(coreid + 1) * limit] (\<lambda>j. each [0..<lda] (\<lambda>k C. do {
       tempA1 \<leftarrow> rd A (j * lda + k);
       each [0..<lda] (\<lambda>i C. do {
         b \<leftarrow> rd B (k * lda + i);
         add_at (i + j * lda) (tempA1 * b) C }) C })))"

definition ap_matmul :: matmul_fun where
  "ap_matmul coreid ncores lda A B = (let block = lda div ncores; start = block * coreid in
     each [start..<start + block] (\<lambda>j. each [0..<lda] (\<lambda>k. each [0..<lda] (\<lambda>i.
       mac A B (j * lda + k) (k * lda + i) (i + j * lda)))))"

definition aq_matmul :: matmul_fun where
  "aq_matmul coreid ncores lda A B =
     each (steps coreid lda (ncores * 2)) (\<lambda>i. each [0..<lda] (\<lambda>j. each [0..<lda] (\<lambda>k C. do {
       A12 \<leftarrow> rd A (j * lda + k);
       B1 \<leftarrow> rd B (k * lda + i);
       B2 \<leftarrow> rd B (k * lda + i + ncores);
       C \<leftarrow> add_at (i + j * lda) (A12 * B1) C;
       add_at (i + ncores + j * lda) (A12 * B2) C })))"

lemma an_adds:
  assumes "lda * lda \<le> length A" "lda * lda \<le> length B" "lda * lda \<le> L" "(q + 1) * (lda div ncores) \<le> lda"
  shows "adds lda A B L ({q * (lda div ncores)..<(q + 1) * (lda div ncores)} \<times> {0..<lda} \<times> {0..<lda}) (an_matmul q ncores lda A B)"
  unfolding an_matmul_def Let_def
  by (rule does_rows[OF splits_upt], rule does_sums[OF splits_upt], rule does_rd, (use assms in \<open>simp add: row_less\<close>),
    rule does_cols[OF splits_upt], rule does_rd, (use assms in \<open>simp add: row_less\<close>), rule does_term,
    insert assms, simp_all add: cell_in)

lemma ap_adds:
  assumes "lda * lda \<le> length A" "lda * lda \<le> length B" "lda * lda \<le> L" "(q + 1) * (lda div ncores) \<le> lda"
  shows "adds lda A B L ({q * (lda div ncores)..<(q + 1) * (lda div ncores)} \<times> {0..<lda} \<times> {0..<lda}) (ap_matmul q ncores lda A B)"
proof -
  have h: "(lda div ncores) * q + lda div ncores \<le> lda" using assms(4) by (simp add: algebra_simps)
  have "adds lda A B L ({(lda div ncores) * q..<(lda div ncores) * q + lda div ncores} \<times> {0..<lda} \<times> {0..<lda}) (ap_matmul q ncores lda A B)"
    unfolding ap_matmul_def Let_def mac_def
    by (rule does_rows[OF splits_upt], rule does_sums[OF splits_upt], rule does_cols[OF splits_upt],
      rule does_rd, (use assms h in \<open>simp add: row_less\<close>), rule does_rd, (use assms in \<open>simp add: row_less\<close>), rule does_term,
      insert assms h, simp_all add: cell_in)
  then show ?thesis by (simp add: algebra_simps)
qed

text \<open>\<open>aq\<close> gives the columns in pairs at a distance of \<open>ncores\<close> to the cores.\<close>

lemma aq_adds:
  assumes "lda * lda \<le> length A" "lda * lda \<le> length B" "lda * lda \<le> L" "2 * ncores dvd lda" "q < ncores"
  shows "adds lda A B L ({0..<lda} \<times> {0..<lda} \<times> stride ncores lda q) (aq_matmul q ncores lda A B)"
proof -
  have "adds lda A B L ({0..<lda} \<times> {0..<lda} \<times> stride ncores lda q) (each (steps q lda (2 * ncores)) (\<lambda>i.
      each [0..<lda] (\<lambda>j. each [0..<lda] (\<lambda>k C. do {
        A12 \<leftarrow> rd A (j * lda + k);
        B1 \<leftarrow> rd B (k * lda + i);
        B2 \<leftarrow> rd B (k * lda + i + ncores);
        C \<leftarrow> add_at (i + j * lda) (A12 * B1) C;
        add_at (i + ncores + j * lda) (A12 * B2) C }))))"
  proof (rule does_cols[OF splits_stride[OF assms(4,5)]], simp, rule does_rows[OF splits_upt], rule does_sums[OF splits_upt])
    fix i j k assume i: "i \<in> set (steps q lda (2 * ncores))" and jk: "j \<in> set [0..<lda]" "k \<in> set [0..<lda]"
    then have "i < lda" "i + ncores < lda" using stride_less[OF i, of 0] stride_less[OF i, of 1] assms(4,5) by simp_all
    then show "adds lda A B L ({j} \<times> {k} \<times> (\<lambda>r. i + r * ncores) ` {0..<2}) (\<lambda>C. do {
        A12 \<leftarrow> rd A (j * lda + k);
        B1 \<leftarrow> rd B (k * lda + i);
        B2 \<leftarrow> rd B (k * lda + i + ncores);
        C \<leftarrow> add_at (i + j * lda) (A12 * B1) C;
        add_at (i + ncores + j * lda) (A12 * B2) C })"
      using assms jk
      by (intro does_rd does_two[where T = "{j} \<times> {k} \<times> {i}" and T' = "{j} \<times> {k} \<times> {i + ncores}"] does_term)
        (use cell_in[of "i + ncores" lda j L] row_less[of k lda "i + ncores" "length B"] in
          \<open>auto simp: row_less cell_in add.assoc numeral_2_eq_2 less_Suc_eq\<close>)
  qed
  then show ?thesis by (simp add: aq_matmul_def mult.commute)
qed

section \<open>Several rows at once: \<open>bs\<close>, \<open>ds\<close>\<close>

definition bs_matmul :: matmul_fun where
  "bs_matmul coreid ncores lda A B =
     each (steps coreid lda (4 * ncores)) (\<lambda>j. each [0..<lda] (\<lambda>k. each [0..<lda] (\<lambda>i C. do {
       c \<leftarrow> rd B (k * lda + i);
       each [0..<4] (\<lambda>r C. do {
         a \<leftarrow> rd A ((j + r * ncores) * lda + k);
         add_at (i + (j + r * ncores) * lda) (a * c) C }) C })))"

definition ds_matmul :: matmul_fun where
  "ds_matmul coreid ncores lda A B =
     each (steps (coreid * 4) lda (4 * ncores)) (\<lambda>j. each (steps 0 lda 2) (\<lambda>k. each [0..<lda] (\<lambda>i C. do {
       c \<leftarrow> rd B (k * lda + i);
       c1 \<leftarrow> rd B ((k + 1) * lda + i);
       C \<leftarrow> each [0..<4] (\<lambda>r C. do {
         a \<leftarrow> rd A ((j + r) * lda + k);
         add_at (i + (j + r) * lda) (a * c) C }) C;
       each [0..<4] (\<lambda>r C. do {
         a \<leftarrow> rd A ((j + r) * lda + k + 1);
         add_at (i + (j + r) * lda) (a * c1) C }) C })))"

lemma bs_adds:
  assumes "lda * lda \<le> length A" "lda * lda \<le> length B" "lda * lda \<le> L" "4 * ncores dvd lda" "q < ncores"
  shows "adds lda A B L (stride ncores lda q \<times> {0..<lda} \<times> {0..<lda}) (bs_matmul q ncores lda A B)"
  unfolding bs_matmul_def
proof (rule does_rows[OF splits_stride[OF assms(4,5)]], simp, rule does_sums[OF splits_upt], rule does_cols[OF splits_upt],
    rule does_rd, goal_cases)
  case (1 j k i) then show ?case using assms(2) by (simp add: row_less)
next
  case (2 j k i)
  show ?case
  proof (rule does_rows[OF splits_stride_unroll], use assms(5) in simp, rule does_rd)
    fix r assume "r \<in> set [0..<4]"
    then have "j + r * ncores < lda" using stride_less[OF 2(1), of r] assms(4,5) by simp
    then show "(j + r * ncores) * lda + k < length A"
      "adds lda A B L ({j + r * ncores} \<times> {k} \<times> {i}) (add_at (i + (j + r * ncores) * lda) (A ! ((j + r * ncores) * lda + k) * B ! (k * lda + i)))"
      using 2 assms by (simp add: row_less, intro adds_term) simp_all
  qed
qed

lemma does_four_rows:
  assumes "lda * lda \<le> length A" "lda * lda \<le> L" "j + 4 \<le> lda" "k < lda" "i < lda" "b = B ! (k * lda + i)"
  shows "adds lda A B L ({j..<j + 4} \<times> {k} \<times> {i}) (each [0..<4] (\<lambda>r C. do {
      a \<leftarrow> rd A ((j + r) * lda + k);
      add_at (i + (j + r) * lda) (a * b) C }))"
proof (rule does_rows[OF splits_unroll], rule does_rd)
  fix r assume "r \<in> set [0..<4]"
  then have "j + r < lda" using assms(3) by simp
  then show "(j + r) * lda + k < length A"
    "adds lda A B L ({j + r} \<times> {k} \<times> {i}) (add_at (i + (j + r) * lda) (A ! ((j + r) * lda + k) * b))"
    using assms by (simp add: row_less, intro adds_term) simp_all
qed

lemma splits_pair: "{j} \<times> {k} \<times> I \<inter> {j} \<times> {k + 1} \<times> I = {}" for k :: nat
  by auto

lemma ds_adds:
  assumes "lda * lda \<le> length A" "lda * lda \<le> length B" "lda * lda \<le> L" "4 dvd lda" "q < ncores"
  shows "adds lda A B L (bstride 4 ncores lda q \<times> {0..<lda} \<times> {0..<lda}) (ds_matmul q ncores lda A B)"
  unfolding ds_matmul_def mult.commute[of q 4]
proof (rule does_rows[OF splits_bstride[OF assms(4) _ assms(5)]], simp, rule does_sums[OF splits_steps], goal_cases)
  case (4 j k)
  have k: "k < lda" "k + 1 < lda" using steps_mem(2)[OF 4(2)] dvd_trans[of 2 4 lda] assms(4) by auto
  have j: "j + 4 \<le> lda" using bstride_mem[OF 4(1) assms(4) _ assms(5)] by auto
  show ?case
  proof (rule does_cols[OF splits_upt], rule does_rd, goal_cases)
    case (2 i)
    have i: "i < lda" using 2 by simp
    show ?case
    proof (rule does_rd)
      show "(k + 1) * lda + i < length B" by (rule row_less[OF k(2) i assms(2)])
      show "adds lda A B L ({j..<j + 4} \<times> {k..<k + 2} \<times> {i}) (\<lambda>C. do {
          C \<leftarrow> each [0..<4] (\<lambda>r C. do {
            a \<leftarrow> rd A ((j + r) * lda + k);
            add_at (i + (j + r) * lda) (a * B ! (k * lda + i)) C }) C;
          each [0..<4] (\<lambda>r C. do {
            a \<leftarrow> rd A ((j + r) * lda + k + 1);
            add_at (i + (j + r) * lda) (a * B ! ((k + 1) * lda + i)) C }) C })"
        using does_four_rows[OF assms(1,3) j k(1) i refl, of B] does_four_rows[OF assms(1,3) j k(2) i refl, of B]
        by (intro does_two[where T = "{j..<j + 4} \<times> {k} \<times> {i}" and T' = "{j..<j + 4} \<times> {k + 1} \<times> {i}"]) auto
    qed
  qed (use k row_less[of k lda _ "length B"] assms(2) in simp)
qed (use assms(4) dvd_trans[of 2 4 lda] in simp_all)

section \<open>Blocks of four terms: \<open>ag\<close>, \<open>cg\<close>\<close>

text \<open>Rows \<open>j\<close> to \<open>j + 3\<close> and columns \<open>i\<close>, \<open>i + 1\<close>; \<open>d\<close> and \<open>c\<close> are the elements of \<open>B\<close> in these columns.\<close>

definition ag_block :: "nat \<Rightarrow> s32 list \<Rightarrow> nat \<Rightarrow> nat \<Rightarrow> s32 list \<Rightarrow> s32 list \<Rightarrow> nat \<Rightarrow> s32 list \<Rightarrow> s32 list option" where
  "ag_block lda A k i d c j = each [0..<4] (\<lambda>r C. do {
     as \<leftarrow> load A (\<lambda>m. (j + r) * lda + k + m) 4;
     C \<leftarrow> add_at ((j + r) * lda + i) (dot4 as d) C;
     as \<leftarrow> load A (\<lambda>m. (j + r) * lda + k + m) 4;
     add_at ((j + r) * lda + i + 1) (dot4 as c) C })"

definition ag_matmul :: matmul_fun where
  "ag_matmul coreid ncores lda A B = each (steps 0 lda 2) (\<lambda>i. each (steps 0 lda 4) (\<lambda>k C. do {
     d \<leftarrow> load B (\<lambda>m. (k + m) * lda + i) 4;
     c \<leftarrow> load B (\<lambda>m. (k + m) * lda + i + 1) 4;
     each (steps (coreid * (lda div ncores)) ((coreid + 1) * (lda div ncores)) 4) (ag_block lda A k i d c) C }))"

text \<open>\<open>cg_matmul.c\<close> has the same code.\<close>

definition cg_matmul :: matmul_fun where
  "cg_matmul coreid ncores lda A B = each (steps 0 lda 2) (\<lambda>i. each (steps 0 lda 4) (\<lambda>k C. do {
     d \<leftarrow> load B (\<lambda>m. (k + m) * lda + i) 4;
     c \<leftarrow> load B (\<lambda>m. (k + m) * lda + i + 1) 4;
     each (steps (coreid * (lda div ncores)) ((coreid + 1) * (lda div ncores)) 4) (ag_block lda A k i d c) C }))"

lemma ag_block_adds:
  assumes "lda * lda \<le> length A" "lda * lda \<le> L" "j + 4 \<le> lda" "k + 4 \<le> lda" "i + 2 \<le> lda"
    and "d = map (\<lambda>m. B ! ((k + m) * lda + i)) [0..<4]" "c = map (\<lambda>m. B ! ((k + m) * lda + i + 1)) [0..<4]"
  shows "adds lda A B L ({j..<j + 4} \<times> {k..<k + 4} \<times> {i..<i + 2}) (ag_block lda A k i d c j)"
  unfolding ag_block_def
proof (rule does_rows[OF splits_unroll])
  fix r assume "r \<in> set [0..<4]"
  then have j: "j + r < lda" using assms(3) by simp
  let ?as = "map (\<lambda>m. A ! ((j + r) * lda + k + m)) [0..<4]"
  have l: "load A (\<lambda>m. (j + r) * lda + k + m) 4 = Some ?as"
    by (rule load_eq) (use row_less[OF j, of _ "length A"] assms(1,4) in \<open>simp add: add.assoc\<close>)
  have at: "adds lda A B L ({j + r} \<times> {k..<k + 4} \<times> {i'}) (add_at (i' + (j + r) * lda) (dot4 ?as bs))"
    if "i' < lda" "bs = map (\<lambda>m. B ! ((k + m) * lda + i')) [0..<4]" for i' bs
    by (rule does_dot4) (use that j assms(2) cell_less[OF that(1) j] in \<open>auto simp: add.assoc simp del: upt_rec_numeral\<close>)
  have "adds lda A B L ({j + r} \<times> {k..<k + 4} \<times> {i..<i + 2})
    (\<lambda>C. do { C \<leftarrow> add_at (i + (j + r) * lda) (dot4 ?as d) C; add_at (i + 1 + (j + r) * lda) (dot4 ?as c) C })"
    by (rule does_two[OF at at]) (use assms in \<open>auto simp: add.assoc simp del: upt_rec_numeral\<close>)
  then show "adds lda A B L ({j + r} \<times> {k..<k + 4} \<times> {i..<i + 2}) (\<lambda>C. do {
     as \<leftarrow> load A (\<lambda>m. (j + r) * lda + k + m) 4;
     C \<leftarrow> add_at ((j + r) * lda + i) (dot4 as d) C;
     as \<leftarrow> load A (\<lambda>m. (j + r) * lda + k + m) 4;
     add_at ((j + r) * lda + i + 1) (dot4 as c) C })"
    unfolding l by (simp only: Option.bind.simps ac_simps)
qed

lemma ag_adds:
  assumes "lda * lda \<le> length A" "lda * lda \<le> length B" "lda * lda \<le> L" "4 dvd lda"
    and "(q + 1) * (lda div ncores) \<le> lda" "4 dvd lda div ncores"
  shows "adds lda A B L ({q * (lda div ncores)..<(q + 1) * (lda div ncores)} \<times> {0..<lda} \<times> {0..<lda}) (ag_matmul q ncores lda A B)"
  unfolding ag_matmul_def
proof (rule does_cols[OF splits_steps], goal_cases)
  case (4 i)
  have "2 dvd lda - 0" using dvd_trans[of 2 4 lda] assms(4) by simp
  then have i: "i + 2 \<le> lda" using steps_mem(2)[OF 4] by simp
  show ?case
  proof (rule does_sums[OF splits_steps], goal_cases)
    case (4 k)
    have k: "k + 4 \<le> lda" using steps_mem(2)[OF 4] assms(4) by simp
    have b: "(k + m) * lda + i < length B" "(k + m) * lda + i + 1 < length B" if "m < 4" for m
      using row_less[of "k + m" lda i "length B"] row_less[of "k + m" lda "i + 1" "length B"] that k i assms(2) by simp_all
    show ?case
    proof (rule does_load[OF b(1)], simp, rule does_load[OF b(2)], simp, rule does_rows[OF splits_steps], goal_cases)
      case (4 j)
      have "j + 4 \<le> (q + 1) * (lda div ncores)" using steps_mem(2)[OF 4] assms(6) by (simp add: diff_mult_distrib[symmetric])
      then show ?case by (intro ag_block_adds refl) (use assms k i in simp_all)
    qed (use assms(6) in \<open>simp_all add: diff_mult_distrib[symmetric]\<close>)
  qed (use assms(4) in simp_all)
qed (use assms(4) dvd_trans[of 2 4 lda] in simp_all)

section \<open>A transposed copy: \<open>ar\<close>\<close>

text \<open>
  Each core has its own array \<open>B_t\<close> of 32 by 32 elements on its stack; \<open>U\<close> is what this array holds at
  first. The first loops copy \<open>B\<close> transposed.
\<close>

definition ar_transpose :: "nat \<Rightarrow> s32 list \<Rightarrow> s32 list \<Rightarrow> s32 list option" where
  "ar_transpose lda B = each [0..<lda] (\<lambda>x. each [0..<lda] (\<lambda>y B_t. do {
     b \<leftarrow> rd B (x * lda + y);
     wr B_t (y * lda + x) b }))"

definition ar_matmul :: "s32 list \<Rightarrow> matmul_fun" where
  "ar_matmul U coreid ncores lda A B C = do {
     B_t \<leftarrow> ar_transpose lda B U;
     each [coreid * (lda div ncores)..<min ((coreid + 1) * (lda div ncores)) lda] (\<lambda>i. each [0..<lda] (\<lambda>j. each [0..<lda] (\<lambda>k.
       mac A B_t (i * lda + k) (j * lda + k) (i * lda + j)))) C }"

lemma ar_transposes:
  assumes "lda * lda \<le> length B" "lda * lda \<le> length U"
  shows "\<exists>B_t. ar_transpose lda B U = Some B_t \<and> length B_t = length U \<and> (\<forall>i < lda. \<forall>k < lda. B_t ! (i * lda + k) = B ! (k * lda + i))"
proof -
  have "puts (transposed lda B) (length U) (cells lda {0..<lda} {0..<lda}) (ar_transpose lda B)"
    unfolding ar_transpose_def
  proof (rule puts_cols[OF splits_upt], rule puts_rows[OF splits_upt], rule puts_rd)
    fix x y assume xy: "x \<in> set [0..<lda]" "y \<in> set [0..<lda]"
    then show "x * lda + y < length B" using assms(1) by (simp add: row_less)
    show "puts (transposed lda B) (length U) (cells lda {y} {x}) (\<lambda>B_t. wr B_t (y * lda + x) (B ! (x * lda + y)))"
      by (rule puts_cell) (use xy assms(2) cell_less[of x lda y] in \<open>simp_all add: add.commute[of "y * lda"]\<close>)
  qed
  from puts_transposed[OF this refl] show ?thesis using assms by auto
qed

lemma ar_adds:
  assumes "lda * lda \<le> length A" "lda * lda \<le> length B" "lda * lda \<le> L" "lda * lda \<le> length U" "(q + 1) * (lda div ncores) \<le> lda"
  shows "adds lda A B L ({q * (lda div ncores)..<(q + 1) * (lda div ncores)} \<times> {0..<lda} \<times> {0..<lda}) (ar_matmul U q ncores lda A B)"
proof -
  obtain B_t where t: "ar_transpose lda B U = Some B_t" "length B_t = length U" "\<forall>i < lda. \<forall>k < lda. B_t ! (i * lda + k) = B ! (k * lda + i)"
    using ar_transposes[OF assms(2,4)] by blast
  have "adds lda A B L ({q * (lda div ncores)..<(q + 1) * (lda div ncores)} \<times> {0..<lda} \<times> {0..<lda})
    (each [q * (lda div ncores)..<(q + 1) * (lda div ncores)] (\<lambda>i. each [0..<lda] (\<lambda>j. each [0..<lda] (\<lambda>k.
       mac A B_t (i * lda + k) (j * lda + k) (i * lda + j)))))"
  proof (rule does_rows[OF splits_upt], rule does_cols[OF splits_upt], rule does_sums[OF splits_upt])
    fix i j k assume "i \<in> set [q * (lda div ncores)..<(q + 1) * (lda div ncores)]" "j \<in> set [0..<lda]" "k \<in> set [0..<lda]"
    then show "adds lda A B L ({i} \<times> {k} \<times> {j}) (mac A B_t (i * lda + k) (j * lda + k) (i * lda + j))"
      unfolding mac_def using assms t(2,3) by (intro does_rd adds_term) (simp_all add: row_less)
  qed
  then show ?thesis using t(1) assms(5) by (simp add: does_cong ar_matmul_def min_absorb1)
qed

end
