(* ===== verification/Mt_Variants.thy ===== *)
theory Mt_Variants
  imports Mt_Cores Mt_Generic Mt_Blocks Mt_Fixed Mt_Rowpairs Mt_Overwrite Mt_Barrier Mt_Vvadd
begin

text \<open>
  The multiplications and vector additions of \<open>src/riscv_riscv-tests/mt\<close> as they are run: every core calls
  the function once, in any order.
\<close>

section \<open>Shares of the cores\<close>

lemma shares_adds:
  assumes "\<And>q. q < ncores \<Longrightarrow> adds n A B L (S q \<times> {0..<n} \<times> {0..<n}) (f q)" "splits ids S {0..<n}" "set ids = {0..<ncores}"
    and "n * n \<le> L" "length C = L"
  shows "\<exists>C'. each ids f C = Some C' \<and> adds_product n UNIV A B C C'"
  by (rule all_terms[OF does_rows[OF assms(2)] assms(4,5)]) (use assms(1,3) in simp)

lemma shares_adds_cols:
  assumes "\<And>q. q < ncores \<Longrightarrow> adds n A B L ({0..<n} \<times> {0..<n} \<times> S q) (f q)" "splits ids S {0..<n}" "set ids = {0..<ncores}"
    and "n * n \<le> L" "length C = L"
  shows "\<exists>C'. each ids f C = Some C' \<and> adds_product n UNIV A B C C'"
  by (rule all_terms[OF does_cols[OF assms(2)] assms(4,5)]) (use assms(1,3) in simp)

lemma shares_fill:
  assumes "\<And>q. q < ncores \<Longrightarrow> fills n A B L (S q) {0..<n} (f q)" "splits ids S {0..<n}" "set ids = {0..<ncores}"
    and "n * n \<le> L" "length C = L"
  shows "\<exists>C'. each ids f C = Some C' \<and> is_product n A B C C'"
  by (rule fills_product[OF puts_rows[OF assms(2)] assms(4,5)]) (use assms(1,3) in simp)

section \<open>Any dimension\<close>

lemma cg_eq: "cg_matmul = ag_matmul"
  by (simp add: fun_eq_iff ag_matmul_def cg_matmul_def)

lemma bj_eq: "bj_matmul = bh_matmul"
  by (simp add: fun_eq_iff bh_matmul_def bj_matmul_def)

lemma two_of:
  assumes "\<And>q C. f q C = (if q > 1 then Some C else two_cores f0 f1 q ncores C)" "q < ncores"
  shows "f q = two_cores f0 f1 q ncores"
  using assms by (auto simp: fun_eq_iff two_cores_def)

lemma any_dimension:
  assumes "matmul \<in> {an_matmul, ap_matmul, aq_matmul, bs_matmul, ds_matmul, ag_matmul, cg_matmul, ak_matmul, ck_matmul,
      bh_matmul, bj_matmul, bm_matmul, ar_matmul U}"
    and "lda * lda \<le> length A" "lda * lda \<le> length B" "lda * lda \<le> length C" "lda * lda \<le> length U"
    and "0 < lda" "16 dvd lda" "4 * ncores dvd lda" "distinct ids" "set ids = {0..<ncores}"
  shows "\<exists>C'. each ids (\<lambda>q. matmul q ncores lda A B) C = Some C' \<and> adds_product lda UNIV A B C C'"
proof -
  have n: "ncores dvd lda" "2 * ncores dvd lda" "4 dvd lda" "8 dvd lda"
    using dvd_trans[of ncores "4 * ncores" lda] dvd_trans[of "2 * ncores" "4 * ncores" lda] dvd_trans[of 4 16 lda] dvd_trans[of 8 16 lda] assms(7,8)
    by simp_all
  have nc: "0 < ncores" using n(1) assms(6) by (cases ncores) simp_all
  have d: "4 dvd lda div ncores" using assms(8) by (metis dvd_div_iff_mult n(1) nc less_not_refl mult.commute)
  note a = assms(2-4)
  note sh = splits_shares[OF assms(9,10) n(1) assms(6)] assms(10) assms(4) refl
  note st = splits_stride_cores[OF assms(9,10) nc] assms(10) assms(4) refl
  note bst = splits_bstride_cores[OF assms(9,10) nc] assms(10) assms(4) refl
  have le: "(q + 1) * (lda div ncores) \<le> lda" if "q < ncores" for q by (rule share_le[OF that n(1)])
  have bh: "\<exists>C'. each ids (\<lambda>q. bh_matmul q ncores lda A B) C = Some C' \<and> adds_product lda UNIV A B C C'"
  proof (rule all_terms[OF _ assms(4) refl])
    have "{0..<lda} = {0..<lda div 2} \<union> {lda div 2..<lda}" by auto
    then have u: "{0..<lda} \<times> {0..<lda} \<times> {0..<lda} = {0..<lda div 2} \<times> {0..<lda} \<times> {0..<lda} \<union> {lda div 2..<lda} \<times> {0..<lda} \<times> {0..<lda}"
      by blast
    show "adds lda A B (length C) ({0..<lda} \<times> {0..<lda} \<times> {0..<lda}) (each ids (\<lambda>q. bh_matmul q ncores lda A B))"
      unfolding u by (rule two_cores_does[OF bh_adds(1)[OF a n(4)] bh_adds(2)[OF a n(4)] _ two_of assms(9,10) nc])
        (auto simp: bh_matmul_def)
  qed
  from assms(1) consider "matmul = an_matmul" | "matmul = ap_matmul" | "matmul = aq_matmul" | "matmul = bs_matmul" | "matmul = ds_matmul"
    | "matmul = ag_matmul \<or> matmul = cg_matmul" | "matmul = ak_matmul" | "matmul = ck_matmul" | "matmul = bh_matmul \<or> matmul = bj_matmul"
    | "matmul = bm_matmul" | "matmul = ar_matmul U"
    by blast
  then show ?thesis
  proof cases
    case 1 show ?thesis unfolding 1 by (rule shares_adds[OF an_adds[OF a le] sh])
  next
    case 2 show ?thesis unfolding 2 by (rule shares_adds[OF ap_adds[OF a le] sh])
  next
    case 3 show ?thesis unfolding 3 by (rule shares_adds_cols[OF aq_adds[OF a n(2)] st])
  next
    case 4 show ?thesis unfolding 4 by (rule shares_adds[OF bs_adds[OF a assms(8)] st])
  next
    case 5 show ?thesis unfolding 5 by (rule shares_adds[OF ds_adds[OF a n(3)] bst])
  next
    case 6
    then have "matmul = ag_matmul" by (simp add: cg_eq)
    then show ?thesis using shares_adds[OF ag_adds[OF a n(3) le d] sh] by simp
  next
    case 7 show ?thesis unfolding 7 by (rule shares_adds[OF ak_adds[OF a assms(7)] bst])
  next
    case 8 show ?thesis unfolding 8 by (rule shares_adds[OF ck_adds[OF a assms(7)] bst])
  next
    case 9
    then have "matmul = bh_matmul" by (simp add: bj_eq)
    then show ?thesis using bh by simp
  next
    case 10 show ?thesis unfolding 10 by (rule bm_all[OF a n(3) d assms(9,10) nc])
  next
    case 11 show ?thesis unfolding 11 by (rule shares_adds[OF ar_adds[OF a assms(5) le] sh])
  qed
qed

section \<open>Dimension 32\<close>

lemma al_all:
  assumes "32 * 32 \<le> length A" "32 * 32 \<le> length B" "32 * 32 \<le> length C"
    and "distinct ids" "set ids = {0..<ncores}" "0 < ncores"
  shows "\<exists>C'. each ids (\<lambda>q. al_matmul q ncores 32 A B) C = Some C' \<and> adds_product 32 UNIV A B C C'"
proof (rule all_cores[where R = "{0..<32} \<times> {0..<16}" and R' = "{0..<32} \<times> {16..<32}", OF _ _ _ _ _ _ refl assms(4-6)], goal_cases)
  case 1
  have "al_matmul 0 ncores 32 A B C = Option.bind (each [0..<32] (df_half_row 0 32 A B) C) (each [0..<32] (df_half_row 16 32 A B))"
    using 1 by (simp add: al_matmul_def two_cores_def del: upt_rec_numeral)
  moreover have "\<exists>C'. Option.bind (each [0..<32] (df_half_row 0 32 A B) C) (each [0..<32] (df_half_row 16 32 A B)) = Some C' \<and> adds_product 32 UNIV A B C C'"
    by (rule add_both[OF half_rows_add[of A B C 0 32 0] half_rows_add[of A B _ 16 32 0]]) (use assms in auto)
  ultimately show ?case by (simp only:)
next
  case (2 D)
  then have "al_matmul 0 ncores 32 A B D = each [0..<32] (df_half_row 0 32 A B) D"
    by (simp add: al_matmul_def two_cores_def del: upt_rec_numeral)
  then show ?case using half_rows_add[of A B D 0 32 0] 2 assms by (simp del: upt_rec_numeral)
next
  case (3 D)
  then have "al_matmul 1 ncores 32 A B D = each [0..<32] (df_half_row 16 32 A B) D"
    by (simp add: al_matmul_def two_cores_def del: upt_rec_numeral)
  then show ?case using half_rows_add[of A B D 16 32 0] 3 assms by (simp del: upt_rec_numeral)
next
  case (4 x D) then show ?case by (simp add: al_matmul_def)
qed auto

lemma bk_all:
  assumes "32 * 32 \<le> length A" "32 * 32 \<le> length B" "32 * 32 \<le> L"
    and "distinct ids" "set ids = {0..<ncores}" "0 < ncores" "matmul \<in> {bk_matmul, dv_matmul}"
  shows "adds 32 A B L ({0..<32} \<times> {0..<32} \<times> {0..<32}) (each ids (\<lambda>q. matmul q ncores 32 A B))"
proof -
  let ?T0 = "{0..<16 :: nat} \<times> {0..<32 :: nat} \<times> {0..<32 :: nat}" and ?T1 = "{16..<32 :: nat} \<times> {0..<32 :: nat} \<times> {0..<32 :: nat}"
  have r: "adds 32 A B L ?T0 (bk_rows 0 16 A B)" "adds 32 A B L ?T1 (bk_rows 16 32 A B)"
    by (rule bk_adds[OF assms(1-3)], simp)+
  have u: "{0..<32} \<times> {0..<32} \<times> {0..<32} = ?T0 \<union> ?T1" by auto
  have d: "?T0 \<inter> ?T1 = {}" by auto
  from assms(7) consider "matmul = bk_matmul" | "matmul = dv_matmul" by blast
  then show ?thesis
  proof cases
    case 1
    show ?thesis unfolding u 1
      by (rule two_cores_does[OF r d two_of assms(4-6)]) (auto simp: bk_matmul_def)
  next
    case 2
    have one: "dv_matmul 0 1 32 A B = (\<lambda>C. Option.bind (bk_rows 0 16 A B C) (bk_rows 16 32 A B))"
      by (simp add: fun_eq_iff dv_matmul_def)
    have two: "dv_matmul 0 ncores 32 A B = bk_rows 16 32 A B" "dv_matmul 1 ncores 32 A B = bk_rows 0 16 A B" if "ncores \<noteq> 1"
      using that by (simp_all add: fun_eq_iff dv_matmul_def)
    have "adds 32 A B L (?T1 \<union> ?T0) (each ids (\<lambda>q. dv_matmul q ncores 32 A B))"
    proof (rule cores_does[OF _ _ _ _ _ assms(4-6)])
      show "adds 32 A B L (?T1 \<union> ?T0) (dv_matmul 0 ncores 32 A B)" if "ncores = 1"
        unfolding that one Un_commute[of ?T1] by (rule does_bind[OF r d])
      show "dv_matmul q ncores 32 A B = Some" if "1 < q" for q using that by (simp add: fun_eq_iff dv_matmul_def)
    qed (use two r d in auto)
    then show ?thesis unfolding u 2 by (simp only: Un_commute)
  qed
qed

lemma dimension_32:
  assumes "matmul \<in> {al_matmul, bk_matmul, dv_matmul, cf_matmul, cm_matmul, bc_matmul, dc_matmul} \<or>
      matmul \<in> {ad_matmul, at_matmul U, br_matmul U, dr_matmul U} \<and> ncores \<in> {1, 2}"
    and "32 * 32 \<le> length A" "32 * 32 \<le> length B" "32 * 32 \<le> length C" "32 * 32 \<le> length U"
    and "distinct ids" "set ids = {0..<ncores}" "0 < ncores"
  shows "\<exists>C'. each ids (\<lambda>q. matmul q ncores 32 A B) C = Some C' \<and> adds_product 32 UNIV A B C C'"
proof -
  note a = assms(2-4)
  note all = all_terms[OF _ a(3) refl]
  show ?thesis
  proof (cases "ncores \<in> {1, 2} \<and> matmul \<in> {ad_matmul, at_matmul U, br_matmul U, dr_matmul U}")
    case True
    have n: "ncores dvd 32" "(0 :: nat) < 32" and s: "16 dvd 32 div ncores" "8 dvd 32 div ncores" using True by auto
    note sh = splits_shares[OF assms(6,7) n] assms(7) a(3) refl
    have le: "(q + 1) * (32 div ncores) \<le> 32" if "q < ncores" for q by (rule share_le[OF that n(1)])
    have sd: "q * 32 div ncores = q * (32 div ncores)" for q by (rule div_mult_swap[OF n(1), symmetric])
    from True consider "matmul = ad_matmul" | "matmul = at_matmul U" | "matmul = br_matmul U \<or> matmul = dr_matmul U" by blast
    then show ?thesis
    proof cases
      case 1 show ?thesis unfolding 1 by (rule shares_adds[OF ad_adds[OF a le] sh])
    next
      case 2
      have "adds 32 A B (length C) ({0..<32} \<times> {0..<32} \<times> {q * (32 div ncores)..<(q + 1) * (32 div ncores)}) (at_matmul U q ncores 32 A B)"
        if "q < ncores" for q
        by (rule at_adds[OF a assms(5) le[OF that] sd[symmetric] sd[symmetric]]) (use s in \<open>simp_all add: diff_mult_distrib[symmetric]\<close>)
      then show ?thesis unfolding 2 by (rule shares_adds_cols[OF _ sh])
    next
      case 3 show ?thesis by (rule shares_adds_cols[OF br_adds[OF a assms(5) _ s(1) le 3] sh]) simp_all
    qed
  next
    case False
    then consider "matmul = al_matmul" | "matmul \<in> {bk_matmul, dv_matmul}" | "matmul \<in> {cf_matmul, cm_matmul}" | "matmul \<in> {bc_matmul, dc_matmul}"
      using assms(1) by blast
    then show ?thesis
    proof cases
      case 1 show ?thesis unfolding 1 by (rule al_all[OF a assms(6-8)])
    next
      case 2 show ?thesis by (rule all[OF bk_all[OF a assms(6-8) 2]])
    next
      case 3 show ?thesis by (rule all[OF cf_all[OF a assms(6-8) 3]])
    next
      case 4 show ?thesis by (rule all[OF bc_all[OF a assms(6-8) 4]])
    qed
  qed
qed

section \<open>Overwriting\<close>

lemma cells_halves:
  "cells n {0..<32} I = cells n {0..<16} I \<union> cells n {16..<32} I"
  "cells n J {0..<32} = cells n J {0..<16} \<union> cells n J {16..<32}"
proof -
  have "{0..<32} = {0..<16} \<union> {16..<32 :: nat}" by auto
  then show "cells n {0..<32} I = cells n {0..<16} I \<union> cells n {16..<32} I"
    "cells n J {0..<32} = cells n J {0..<16} \<union> cells n J {16..<32}"
    unfolding cells_def by (auto simp only: Sigma_Un_distrib1 Sigma_Un_distrib2 image_Un)
qed

lemma bf_all:
  assumes "32 * 32 \<le> length A" "32 * 32 \<le> length B" "32 * 32 \<le> L"
    and "distinct ids" "set ids = {0..<ncores}" "0 < ncores"
  shows "fills 32 A B L {0..<32} {0..<32} (each ids (\<lambda>q. bf_matmul q ncores 32 A B))"
proof -
  have u: "cells 32 {0..<32} {0..<32} = cells 32 {0..<32} {0..<0 + 16} \<union> cells 32 {0..<32} {16..<16 + 16}"
    using cells_halves(2) by simp
  show ?thesis unfolding u
    by (rule two_cores_puts[OF bf_fills[OF assms(1-3)] bf_fills[OF assms(1-3)] _ assms(4-6)]) (simp_all add: bf_matmul_def)
qed

lemma bo_all:
  assumes "32 * 32 \<le> length A" "32 * 32 \<le> length B" "32 * 32 \<le> L" "length U = 1024"
    and "distinct ids" "set ids = {0..<ncores}" "0 < ncores"
  shows "fills 32 A B L {0..<32} {0..<32} (each ids (\<lambda>q. bo_matmul U q ncores 32 A B))"
proof -
  let ?P0 = "cells 32 {0..<16} {0..<32}" and ?P1 = "cells 32 {16..<32} {0..<32}"
  have r: "puts_local 1024 (entry 32 A B) L ?P0 (bo_cols 0 16 32 A B)" "puts_local 1024 (entry 32 A B) L ?P1 (bo_cols 16 32 32 A B)"
    by (rule bo_cols_fills[OF assms(1-3)], simp, simp, simp)+
  have u: "cells 32 {0..<32} {0..<32} = ?P0 \<union> ?P1" by (rule cells_halves(1))
  have e: "bo_matmul U q ncores 32 A B = (\<lambda>C. map_option snd (two_cores (bo_cols 0 16 32 A B) (bo_cols 16 32 32 A B) q ncores (U, C)))" for q
    by (rule ext) (simp add: bo_matmul_def)
  show ?thesis unfolding u
  proof (rule cores_puts[OF _ _ _ _ assms(5-7)])
    show "puts (entry 32 A B) L (?P0 \<union> ?P1) (bo_matmul U 0 ncores 32 A B)" if "ncores = 1"
      unfolding e unfolding that two_cores_parts by (rule puts_local_snd[OF puts_local_bind[OF r] assms(4)])
    show "puts (entry 32 A B) L ?P0 (bo_matmul U 0 ncores 32 A B)" if "ncores \<noteq> 1"
      unfolding e two_cores_parts(2)[OF that] by (rule puts_local_snd[OF r(1) assms(4)])
    show "puts (entry 32 A B) L ?P1 (bo_matmul U 1 ncores 32 A B)" if "ncores \<noteq> 1"
      unfolding e two_cores_parts(3)[OF that] by (rule puts_local_snd[OF r(2) assms(4)])
    show "bo_matmul U q ncores 32 A B = Some" if "ncores \<noteq> 1" "1 < q" for q
      unfolding e two_cores_parts(4)[OF that] by (rule ext) simp
  qed
qed

lemma overwriting:
  assumes "matmul \<in> {ai_matmul, ci_matmul, bb_matmul, cs_matmul} \<and> 4 * ncores dvd lda \<or>
      lda = 32 \<and> (matmul \<in> {do_matmul, am_matmul, du_matmul} \<and> ncores dvd 16 \<or> matmul \<in> {bf_matmul, bo_matmul U, ay_matmul, az_matmul, cy_matmul})"
    and "lda * lda \<le> length A" "lda * lda \<le> length B" "lda * lda \<le> length C" "length U = 1024"
    and "0 < lda" "distinct ids" "set ids = {0..<ncores}" "0 < ncores"
  shows "\<exists>C'. each ids (\<lambda>q. matmul q ncores lda A B) C = Some C' \<and> is_product lda A B C C'"
proof -
  note a = assms(2-4)
  from assms(1) show ?thesis
  proof (elim disjE conjE)
    assume m: "matmul \<in> {ai_matmul, ci_matmul, bb_matmul, cs_matmul}" and d: "4 * ncores dvd lda"
    have n: "ncores dvd lda" "2 * ncores dvd lda" "4 dvd lda"
      using dvd_trans[of ncores "4 * ncores" lda] dvd_trans[of "2 * ncores" "4 * ncores" lda] dvd_trans[of 4 "4 * ncores" lda] d by simp_all
    have d4: "4 dvd lda div ncores" using d by (metis dvd_div_iff_mult n(1) assms(9) less_not_refl mult.commute)
    note sh = splits_shares[OF assms(7,8) n(1) assms(6)] assms(8,4) refl
    note st = splits_stride_cores[OF assms(7,8,9)] assms(8,4) refl
    from m consider "matmul \<in> {ai_matmul, ci_matmul}" | "matmul = bb_matmul" | "matmul = cs_matmul" by blast
    then show ?thesis
    proof cases
      case 1 show ?thesis by (rule shares_fill[OF ai_fills[OF a n(1,3) _ 1] sh])
    next
      case 2 show ?thesis unfolding 2 by (rule shares_fill[OF bb_fills[OF a n(1) d4] sh])
    next
      case 3 show ?thesis unfolding 3 by (rule shares_fill[OF cs_fills[OF a n(2)] st])
    qed
  next
    assume l: "lda = 32" and m: "matmul \<in> {do_matmul, am_matmul, du_matmul}" and d: "ncores dvd 16"
    have n: "ncores dvd 32" using dvd_trans[OF d, of 32] by simp
    have h: "2 dvd 32 div ncores" using div_mult_swap[OF d, of 2] dvd_triv_left[of 2 "16 div ncores"] by simp
    note a32 = a[unfolded l]
    note sh = splits_shares[OF assms(7,8) n] assms(8) a32(3) refl
    have "fills 32 A B (length C) {q * (32 div ncores)..<(q + 1) * (32 div ncores)} {0..<32} (am_matmul q ncores 32 A B)" if "q < ncores" for q
    proof (rule am_fills[OF a32])
      show "q * (32 div ncores) = q * 32 div ncores" "(q + 1) * (32 div ncores) = 32 * (1 + q) div ncores"
        using div_mult_swap[OF n] by (simp_all add: mult.commute)
    qed (use share_le[OF that n] h in \<open>simp_all add: diff_mult_distrib[symmetric]\<close>)
    from shares_fill[OF this sh] shares_fill[OF do_fills[OF a32 n] sh] m l show ?thesis by (auto simp: du_eq)
  next
    assume l: "lda = 32" and m: "matmul \<in> {bf_matmul, bo_matmul U, ay_matmul, az_matmul, cy_matmul}"
    note a32 = a[unfolded l]
    note fp = fills_product[OF _ a32(3) refl]
    from m consider "matmul = bf_matmul" | "matmul = bo_matmul U" | "matmul \<in> {ay_matmul, az_matmul, cy_matmul}" by blast
    then show ?thesis
    proof cases
      case 1 show ?thesis unfolding 1 l by (rule fp[OF bf_all[OF a32 assms(7-9)]])
    next
      case 2 show ?thesis unfolding 2 l by (rule fp[OF bo_all[OF a32 assms(5,7-9)]])
    next
      case 3 show ?thesis unfolding l by (rule fp[OF ay_all[OF a32 assms(7-9) 3]])
    qed
  qed
qed

section \<open>Outside the arrays\<close>

text \<open>
  The makefile of this directory takes \<open>dataset.h\<close> of the benchmark \<open>mt-matmul\<close>, where \<open>DIM_SIZE\<close> is 16. The
  variants with the dimension 32 in their code then access elements behind the end.
\<close>

lemma mac_None: "length B \<le> b \<Longrightarrow> mac A B a b x X = None"
  by (simp add: mac_def rd_def bind_eq_None_conv)

lemma load_None: "p < m \<Longrightarrow> length X \<le> f p \<Longrightarrow> load X f m = None"
proof -
  assume "p < m" "length X \<le> f p"
  then have "None \<in> set (map (\<lambda>p. rd X (f p)) [0..<m])" by (force simp: rd_def)
  moreover have "None \<in> set os \<Longrightarrow> those os = None" for os :: "'a option list"
    by (induction os) (auto split: option.splits)
  ultimately show ?thesis by (simp add: load_def)
qed

lemma bk_rows_16: "length B = 256 \<Longrightarrow> lo < hi \<Longrightarrow> bk_rows lo hi A B C = None"
proof -
  assume B: "length B = 256" and lo: "lo < hi"
  have r: "each [16..<min (16 + 16) 32] (\<lambda>k. reg_step A B (\<lambda>_. j * 32 + k) 1 (\<lambda>p. k * 32 + i + p) 8) temps = None" for j i temps
  proof (rule each_None[of 16])
    show "reg_step A B (\<lambda>_. j * 32 + 16) 1 (\<lambda>p. 16 * 32 + i + p) 8 s = None" for s
      using load_None[of 0 8 B "\<lambda>p. 16 * 32 + i + p"] B by (simp add: reg_step_def bind_eq_None_conv)
  qed simp
  have b: "bk_block A B 16 j i X = None" for j i X
    unfolding bk_block_def by (cases "load X (\<lambda>p. i + j * 32 + p) 8") (simp_all only: Option.bind.simps r)
  show ?thesis
    unfolding bk_rows_def
    by (rule each_None[of 16], simp add: steps_def upt_rec, rule each_None[of lo], use lo in simp, rule each_None[of 0], simp add: steps_iff, rule b)
qed

lemma ay_eight_16: "length A = 256 \<Longrightarrow> ay_eight 16 A B 256 C = None"
  by (simp add: ay_eight_def Let_def steps_def upt_rec rd_def push_bit_eq_mult drop_bit_eq_div)

lemma bf_half_row_16: "length B = 256 \<Longrightarrow> bf_half_row col 16 A B j C = None"
proof -
  assume B: "length B = 256"
  have "each [0..<32] (\<lambda>k. each [0..<16] (\<lambda>p. mac A B (j * 16 + k) (p + col + k * 16) p)) temps = None" for temps
    by (rule each_None[of 31], simp, rule each_None[of 0], simp, rule mac_None) (use B in simp)
  then show ?thesis by (simp add: bf_half_row_def bind_eq_None_conv del: upt_rec_numeral replicate_Suc)
qed

lemma df_half_row_16: "length B = 256 \<Longrightarrow> df_half_row col 16 A B j C = None"
proof -
  assume B: "length B = 256"
  have "each [0..<32] (\<lambda>k. each [0..<16] (\<lambda>p. mac A B (j * 16 + k) (p + col + k * 16) p)) temps = None" for temps
    by (rule each_None[of 31], simp, rule each_None[of 0], simp, rule mac_None) (use B in simp)
  then show ?thesis by (simp add: df_half_row_def bind_eq_None_conv del: upt_rec_numeral)
qed

lemma overruns_16:
  assumes "length A = 256" "length B = 256"
    and "matmul \<in> {do_matmul, ad_matmul, bk_matmul, dv_matmul, bf_matmul, al_matmul, ay_matmul, az_matmul, cy_matmul, bo_matmul U}"
  shows "matmul 0 2 16 A B C = None"
proof -
  have ay: "each (ay_range 0 2) (ay_eight 16 A B) C = None"
    by (rule each_None[of 256]) (use assms(1) in \<open>simp_all add: ay_range_def Let_def push_bit_eq_mult steps_iff ay_eight_16\<close>)
  have az: "az_eight 16 A B = ay_eight 16 A B" by (intro ext) (rule az_eight_eq)
  have z: "0 \<in> set [0..<32 :: nat]" by simp
  have bf: "each [0..<32] (bf_half_row 0 16 A B) C = None" by (rule each_None[OF z bf_half_row_16[OF assms(2)]])
  have df: "each [0..<32] (df_half_row 0 16 A B) C = None" by (rule each_None[OF z df_half_row_16[OF assms(2)]])
  from assms(3) consider "matmul = do_matmul" | "matmul = ad_matmul" | "matmul \<in> {bk_matmul, dv_matmul}" | "matmul = bf_matmul" | "matmul = al_matmul"
    | "matmul = ay_matmul" | "matmul = az_matmul" | "matmul = cy_matmul" | "matmul = bo_matmul U"
    by blast
  then show ?thesis
  proof cases
    case 1
    have "each [0..<32] (\<lambda>k. mac A B (0 * 32 + k) (0 + k * 32) 0) t = None" for t
      by (rule each_None[of 31], simp, rule mac_None) (use assms(2) in simp)
    then show ?thesis unfolding 1 do_matmul_def
      by (intro each_None[OF z], intro each_None[of 0]) (simp_all add: bind_eq_None_conv del: upt_rec_numeral replicate_Suc)
  next
    case 2
    have b: "rd B (30 * 32 + i + p) = None" for i p using assms(2) by (simp add: rd_def)
    have s: "30 \<in> set (steps 0 32 2)" "0 \<in> set (steps 0 32 4)" by (auto simp: steps_iff)
    have e: "each (steps 0 32 4) (\<lambda>i. each [0..<4] (\<lambda>p C. do {
         b \<leftarrow> rd B (30 * 32 + i + p);
         C \<leftarrow> add_at (0 * 32 + i + p) (a * b) C;
         b2 \<leftarrow> rd B (30 * 32 + 32 + i + p);
         add_at (0 * 32 + i + p) (a' * b2) C })) X = None" for a a' X
      by (rule each_None[OF s(2)], rule each_None[of 0]) (simp_all only: b Option.bind.simps, simp)
    show ?thesis unfolding 2 ad_matmul_def
      by (rule each_None[of 0], simp, rule each_None[OF s(1)]) (simp only: e bind_eq_None_conv simp_thms)
  next
    case 3 then show ?thesis using bk_rows_16[OF assms(2)] by (auto simp: bk_matmul_def dv_matmul_def two_cores_def)
  next
    case 4 show ?thesis unfolding 4 by (simp add: bf_matmul_def two_cores_def bf del: upt_rec_numeral)
  next
    case 5 show ?thesis unfolding 5 by (simp add: al_matmul_def two_cores_def df del: upt_rec_numeral)
  next
    case 6 show ?thesis unfolding 6 by (simp add: ay_matmul_def ay)
  next
    case 7 show ?thesis unfolding 7 by (simp add: az_matmul_def az ay)
  next
    case 8 show ?thesis unfolding 8 by (simp add: cy_matmul_def ay)
  next
    case 9
    have "each [0..<32] (\<lambda>z B_trans. do { b \<leftarrow> rd B (0 + z * 32); wr B_trans (0 * 32 + z) b }) T = None" for T
      by (rule each_None[of 31]) (use assms(2) in \<open>simp_all add: rd_def\<close>)
    then have "bo_cols 0 16 16 A B s = None" for s
      unfolding bo_cols_def by (intro each_None[OF z]) (simp split: prod.splits del: upt_rec_numeral)
    then show ?thesis unfolding 9 by (simp add: bo_matmul_def two_cores_def)
  qed
qed

section \<open>Properties\<close>









text \<open>
  C27. With the data set of the makefile, of dimension 16, ten of the variants written for the dimension
  32 access elements behind the end of \<open>A\<close> or \<open>B\<close> on core 0 of two, whatever the arrays hold. \<open>af\<close> does so even with
  matrices of dimension 32: it reads one pass ahead.
\<close>

theorem matmul_overruns:
  assumes "lda = 16 \<and> matmul \<in> {do_matmul, ad_matmul, bk_matmul, dv_matmul, bf_matmul, al_matmul, ay_matmul, az_matmul, cy_matmul, bo_matmul U} \<or>
      lda = 32 \<and> matmul = af_matmul"
    and "length A = lda * lda" "length B = lda * lda"
  shows "matmul 0 2 lda A B C = None"
  using assms(1)
proof (elim disjE conjE)
  assume "lda = 16" "matmul \<in> {do_matmul, ad_matmul, bk_matmul, dv_matmul, bf_matmul, al_matmul, ay_matmul, az_matmul, cy_matmul, bo_matmul U}"
  then show ?thesis using overruns_16[of A B matmul U C] assms(2,3) by simp
next
  assume "lda = 32" "matmul = af_matmul"
  then show ?thesis using af_overruns[of B 0 2 A C] assms(3) by simp
qed

theorem matmul_overruns_witness:
  "do_matmul 0 2 16 (replicate 256 3) (replicate 256 5) (replicate 256 7) = None"
  by (rule matmul_overruns) auto

end
