(* ===== verification/Simple_System.thy ===== *)
theory Simple_System
  imports Ee_Format
begin

text \<open>
  The runtime of the simulated system, \<open>c_sim/simple_system.c\<close>: printing to the UART, commands to the
  testbench, and the registration and dispatch of interrupt and exception handlers. What the code
  does to the outside, stores to device registers, accesses of control registers and calls of
  handlers, is a list of events.
\<close>

datatype csr = Mstatus | Mie | Mcycle | Mcountinhibit | Mepc | Pmpcfg nat | Pmpaddr nat

datatype event =
    Store32 u32 u32
  | Store8 u32 u8
  | Csr_set csr u32
  | Csr_clear csr u32
  | Csr_write csr u32
  | Nop
  | Call u32 u32

definition CMD :: u32 where "CMD = 0xfffffff0"
definition ARG :: u32 where "ARG = 0xfffffff8"
definition UART :: u32 where "UART = 0xfffffff4"

definition PASS :: u32 where "PASS = 0"
definition FAIL :: u32 where "FAIL = 2"
definition IRQ :: u32 where "IRQ = 3"
definition TIMER :: u32 where "TIMER = 4"

definition EXTERN_IRQ_REQ :: u32 where "EXTERN_IRQ_REQ = 0"
definition SOFT_IRQ_REQ :: u32 where "SOFT_IRQ_REQ = 1"
definition TIMER_IRQ_REQ :: u32 where "TIMER_IRQ_REQ = 2"
definition EXTERN_IRQ_RLS :: u32 where "EXTERN_IRQ_RLS = 3"
definition SOFT_IRQ_RLS :: u32 where "SOFT_IRQ_RLS = 4"
definition TIMER_IRQ_RLS :: u32 where "TIMER_IRQ_RLS = 5"

definition REG_WR :: "u32 \<Rightarrow> u32 \<Rightarrow> event list" where
  "REG_WR addr val = [Store32 addr val]"

section \<open>Printing\<close>

definition my_putchar :: "u8 \<Rightarrow> event list" where
  "my_putchar c = [Store8 UART c]"

definition putchar :: "s32 \<Rightarrow> event list \<times> s32" where
  "putchar c = (REG_WR UART (ucast (ucast c :: u8)), c)"

function print_dec :: "u32 \<Rightarrow> event list" where
  "print_dec n =
    (if n \<ge> 10 then print_dec (n div 10) @ my_putchar (ucast (n mod 10 + ucast (ch CHR ''0'')))
     else my_putchar (ucast (n + ucast (ch CHR ''0''))))"
  by pat_completeness auto

termination
proof (relation "measure unat")
  fix n :: u32 assume "10 \<le> n"
  then have "unat (n div 10) < unat n" by (simp add: unat_div word_le_nat_alt)
  then show "(n div 10, n) \<in> measure unat" by simp
qed simp

declare print_dec.simps [simp del]

definition hex_char :: "u8 \<Rightarrow> u8" where
  "hex_char c = (if c < 0xa then c + ch CHR ''0'' else c - 0xa + ch CHR ''a'')"

fun print_hex_loop :: "nat \<Rightarrow> u32 \<Rightarrow> event list" where
  "print_hex_loop 0 temp = []"
| "print_hex_loop (Suc i) temp =
    my_putchar (hex_char (ucast (drop_bit 28 (temp AND 0xF0000000)))) @ print_hex_loop i (push_bit 4 temp)"

definition print_hex :: "u32 \<Rightarrow> event list" where
  "print_hex hex = my_putchar (ch CHR ''0'') @ my_putchar (ch CHR ''x'') @ print_hex_loop 8 hex"

text \<open>
  The message is the memory from \<open>msg\<close> on; running past it is \<open>None\<close>. After a percent sign the next
  byte is skipped whatever it is, also a zero.
\<close>

fun printinfo :: "u8 list \<Rightarrow> u32 \<Rightarrow> event list option" where
  "printinfo [] sig = None"
| "printinfo (c # msg) sig =
    (if c = 0 then Some []
     else if c = ch CHR ''%'' then
       (case msg of
          [] \<Rightarrow> None
        | d # msg \<Rightarrow> map_option ((@) (if d = ch CHR ''d'' then print_dec sig else print_hex sig)) (printinfo msg sig))
     else map_option ((@) (my_putchar c)) (printinfo msg sig))"

section \<open>Commands to the testbench\<close>

definition pass :: "u8 list \<Rightarrow> event list option" where
  "pass msg = map_option (\<lambda>es. es @ REG_WR CMD PASS) (printinfo msg 0)"

definition fail :: "u8 list \<Rightarrow> event list option" where
  "fail msg = map_option (\<lambda>es. es @ REG_WR CMD FAIL) (printinfo msg 0)"

definition extern_irq_set :: "event list" where
  "extern_irq_set = REG_WR CMD IRQ @ REG_WR ARG EXTERN_IRQ_REQ @ [Nop]"

definition extern_irq_clr :: "event list" where
  "extern_irq_clr = REG_WR CMD IRQ @ REG_WR ARG EXTERN_IRQ_RLS @ [Nop]"

definition timer_irq_set :: "event list" where
  "timer_irq_set = REG_WR CMD IRQ @ REG_WR ARG TIMER_IRQ_REQ @ [Nop]"

definition timer_irq_clr :: "event list" where
  "timer_irq_clr = REG_WR CMD IRQ @ REG_WR ARG TIMER_IRQ_RLS @ [Nop]"

definition soft_irq_set :: "event list" where
  "soft_irq_set = REG_WR CMD IRQ @ REG_WR ARG SOFT_IRQ_REQ @ [Nop]"

definition soft_irq_clr :: "event list" where
  "soft_irq_clr = REG_WR CMD IRQ @ REG_WR ARG SOFT_IRQ_RLS @ [Nop]"

definition timer_config :: "u32 \<Rightarrow> event list" where
  "timer_config count = REG_WR CMD TIMER @ REG_WR ARG count"

definition pcount_reset :: "event list" where
  "pcount_reset = [Csr_write Mcycle 0]"

definition pcount_enable :: "s32 \<Rightarrow> event list" where
  "pcount_enable enable = [Csr_write Mcountinhibit enable]"

section \<open>Traps\<close>

text \<open>The tables of handlers with their arguments, 32 for interrupts and one for exceptions.\<close>

record trap_tables =
  interrupt_handle :: "(u32 \<times> u32) list"
  exc_handle :: "u32 \<times> u32"

definition tables_init :: trap_tables where
  "tables_init = \<lparr>interrupt_handle = replicate 32 (0, 0), exc_handle = (0, 0)\<rparr>"

definition interupt_enable :: "s32 \<Rightarrow> u32 \<Rightarrow> u32 \<Rightarrow> trap_tables \<Rightarrow> (event list \<times> trap_tables) option" where
  "interupt_enable interupt_num handle arg t =
    (if sint interupt_num < 0 then None
     else do {
       rows \<leftarrow> wr (interrupt_handle t) (unat interupt_num) (handle, arg);
       Some ([Csr_set Mstatus (push_bit 3 1), Csr_set Mie (push_bit (unat interupt_num) 1)], t\<lparr>interrupt_handle := rows\<rparr>) })"

text \<open>A call through a null pointer is undefined.\<close>

definition call :: "u32 \<times> u32 \<Rightarrow> event list option" where
  "call h = (if fst h = 0 then None else Some [Call (fst h) (snd h)])"

text \<open>
  The conditions \<open>interrupt_handle[num] != 0\<close> and \<open>exc_handle != 0\<close> compare the address of an array,
  a row of the table or the table itself, with null.
\<close>

definition array_not_null :: bool where
  "array_not_null = True"

definition trap_handle :: "u32 \<Rightarrow> u32 \<Rightarrow> trap_tables \<Rightarrow> event list option" where
  "trap_handle mcause mepc t = do {
     let num = mcause AND NOT (push_bit 31 1);
     row \<leftarrow> rd (interrupt_handle t) (unat num);
     if array_not_null then call row
     else printinfo (bytes ''interrupt handle not registerd'' @ [10, 0]) 1 }"

definition exception_enable :: "u32 \<Rightarrow> u32 \<Rightarrow> trap_tables \<Rightarrow> trap_tables" where
  "exception_enable handle arg t = t\<lparr>exc_handle := (handle, arg)\<rparr>"

definition exception_handle :: "u32 \<Rightarrow> u32 \<Rightarrow> trap_tables \<Rightarrow> event list option" where
  "exception_handle mcause mepc t = do {
     es \<leftarrow> printinfo (bytes ''enter exception handle!!!'' @ [10, 0]) 1;
     fs \<leftarrow> printinfo (bytes ''mcause is %h'' @ [10, 0]) mcause;
     gs \<leftarrow> (if array_not_null then call (exc_handle t) else fail (bytes ''Fail Hart Exception'' @ [10, 0]));
     Some (es @ fs @ gs) }"

section \<open>What is printed\<close>

text \<open>The bytes stored to the UART\<close>

definition printed :: "event list \<Rightarrow> u8 list" where
  "printed es = concat (map (\<lambda>e. case e of Store8 a c \<Rightarrow> if a = UART then [c] else []
    | Store32 a w \<Rightarrow> if a = UART then [ucast w] else [] | _ \<Rightarrow> []) es)"

lemma printed_simps [simp]: "printed [] = []" "printed (es @ fs) = printed es @ printed fs" "printed (my_putchar c) = [c]"
  by (simp_all add: printed_def my_putchar_def)

lemma dec_char: "w < 10 \<Longrightarrow> ucast (w + ucast (ch CHR ''0'') :: u32) = digit_byte (unat w)"
proof -
  assume "w < 10"
  then have u: "unat w < 10" by (simp add: word_less_nat_alt)
  have "ucast ((of_nat d :: u32) + ucast (ch CHR ''0'')) = digit_byte d" if "d < 10" for d
    using that by (rule ball_less_10[rotated]) code_simp
  from this[OF u] show ?thesis by simp
qed

lemma print_dec_digits: "\<exists>ds. printed (print_dec n) = map digit_byte ds \<and> radix_digits 10 (unat n) ds"
proof (induction n rule: print_dec.induct)
  case (1 n)
  show ?case
  proof (cases "n \<ge> 10")
    case True
    then obtain ds where ds: "printed (print_dec (n div 10)) = map digit_byte ds" "radix_digits 10 (unat (n div 10)) ds"
      using 1 by blast
    have "n mod 10 < 10" by (simp add: word_less_nat_alt unat_mod)
    then have "printed (print_dec n) = map digit_byte (ds @ [unat (n mod 10)])"
      using True ds(1) dec_char[of "n mod 10"] by (subst print_dec.simps) simp
    moreover have "unat (n div 10) = unat n div 10" "unat (n mod 10) = unat n mod 10" by (simp_all add: unat_div unat_mod)
    moreover have "unat n div 10 \<noteq> 0" using True by (simp add: word_le_nat_alt)
    ultimately show ?thesis using ds(2)
      by (intro exI[of _ "ds @ [unat (n mod 10)]"]) (auto simp: radix_digits_def radix_value_snoc radix_value_def)
  next
    case False
    then have l: "n < 10" "unat n < 10" by (simp_all add: word_less_nat_alt word_le_nat_alt)
    then have "printed (print_dec n) = [digit_byte (unat n)]"
      using dec_char[OF l(1)] False by (subst print_dec.simps) simp
    then show ?thesis using l by (intro exI[of _ "[unat n]"]) (simp add: radix_digits_def radix_value_def)
  qed
qed

lemma hex_char_digit: "d < 16 \<Longrightarrow> hex_char (of_nat d) = digits ! d"
proof -
  assume "d < 16"
  moreover have "list_all (\<lambda>d. hex_char (of_nat d) = digits ! d) [0..<16]" by code_simp
  ultimately show ?thesis by (simp add: list_all_iff del: upt_rec_numeral)
qed

lemma top_nibble: "ucast (drop_bit 28 ((temp :: u32) AND 0xF0000000)) = (of_nat (unat temp div 2 ^ 28) :: u8)"
proof -
  have "drop_bit 28 (temp AND 0xF0000000) = drop_bit 28 temp AND drop_bit 28 (0xF0000000 :: u32)" by (rule drop_bit_and)
  also have "drop_bit 28 (0xF0000000 :: u32) = mask 4" by (simp add: mask_eq_exp_minus_1)
  also have "drop_bit 28 temp AND mask 4 = take_bit 4 (drop_bit 28 temp)" by (simp add: take_bit_eq_mask)
  also have "take_bit 4 (drop_bit 28 temp) = drop_bit 28 temp"
    by (rule bit_eqI) (auto simp: bit_simps dest: bit_imp_le_length)
  finally have "ucast (drop_bit 28 (temp AND 0xF0000000)) = (ucast (drop_bit 28 temp) :: u8)" by (rule arg_cong)
  also have "\<dots> = of_nat (unat (drop_bit 28 temp))" by (rule of_nat_unat[symmetric])
  also have "unat (drop_bit 28 temp) = drop_bit 28 (unat temp)" by (rule unat_drop_bit_eq)
  also have "drop_bit 28 (unat temp) = unat temp div 2 ^ 28" by (rule drop_bit_eq_div)
  finally show ?thesis .
qed

lemma div_split: "M = m * c \<Longrightarrow> 0 < m \<Longrightarrow> n div m = (n div M) * c + (n mod M) div m" for M m c n :: nat
proof -
  assume M: "M = m * c" "0 < m"
  have "n = n mod M + (n div M) * c * m" using div_mult_mod_eq[of n M] unfolding M(1) by (simp add: ac_simps)
  then have "n div m = (n mod M + (n div M) * c * m) div m" by (rule arg_cong)
  also have "\<dots> = (n div M) * c + (n mod M) div m" using M(2) by simp
  finally show ?thesis .
qed

lemma print_hex_loop_digits:
  assumes "k \<le> 8"
  shows "\<exists>ds. printed (print_hex_loop k temp) = map ((!) digits) ds \<and> length ds = k \<and> (\<forall>d \<in> set ds. d < 16) \<and>
    radix_value 16 ds = unat temp div 2 ^ (32 - 4 * k)"
  using assms
proof (induction k arbitrary: temp)
  case 0
  have "unat temp < 2 ^ 32" using unsigned_less[of temp, where ?'a = nat] by simp
  then show ?case by (simp add: radix_value_def)
next
  case (Suc k)
  obtain ds where ds: "printed (print_hex_loop k (push_bit 4 temp)) = map ((!) digits) ds" "length ds = k" "\<forall>d \<in> set ds. d < 16"
    "radix_value 16 ds = unat (push_bit 4 temp) div 2 ^ (32 - 4 * k)"
    using Suc by fastforce
  let ?d = "unat temp div 2 ^ 28" and ?r = "unat temp mod 2 ^ 28"
  have t: "unat temp < 2 ^ 32" using unsigned_less[of temp, where ?'a = nat] by simp
  then have d: "?d < 16" by (simp add: less_mult_imp_div_less)
  have "32 - 4 * k = 4 + (28 - 4 * k)" using Suc.prems by simp
  then have e: "(2 :: nat) ^ (32 - 4 * k) = 16 * 2 ^ (28 - 4 * k)" by (simp only: power_add) simp
  have "unat (push_bit 4 temp) = unat temp * 16 mod 2 ^ 32"
    by (simp add: push_bit_eq_mult unat_word_ariths)
  also have "\<dots> = 16 * ?r" using mult_mod_right[of 16 "unat temp" "2 ^ 28"] by (simp add: mult.commute)
  finally have "radix_value 16 ds = ?r div 2 ^ (28 - 4 * k)"
    using ds(4) e by (simp add: div_mult2_eq)
  moreover have p: "(2 :: nat) ^ 28 = 2 ^ (28 - 4 * k) * 16 ^ k"
  proof -
    have "28 = 28 - 4 * k + 4 * k" using Suc.prems by simp
    then have "(2 :: nat) ^ 28 = 2 ^ (28 - 4 * k) * 2 ^ (4 * k)" by (metis power_add)
    moreover have "(2 :: nat) ^ (4 * k) = 16 ^ k" unfolding power_mult by simp
    ultimately show ?thesis by (simp only:)
  qed
  have "unat temp div 2 ^ (28 - 4 * k) = ?d * 16 ^ k + ?r div 2 ^ (28 - 4 * k)"
    by (rule div_split[OF p]) simp
  ultimately have "radix_value 16 (?d # ds) = unat temp div 2 ^ (32 - 4 * Suc k)"
    by (simp add: radix_value_Cons ds(2))
  moreover have "printed (print_hex_loop (Suc k) temp) = map ((!) digits) (?d # ds)"
    by (simp only: print_hex_loop.simps top_nibble hex_char_digit[OF d] printed_simps ds(1) list.map append.simps)
  ultimately show ?case using ds(2,3) d by (intro exI[of _ "?d # ds"]) simp
qed

text \<open>
  \<open>print_dec\<close> prints the decimal digits of the number without leading zeros; \<open>print_hex\<close> prints \<open>0x\<close>
  and the eight hexadecimal digits of the number.
\<close>

lemma print_numbers:
  "(\<exists>ds. printed (print_dec n) = map digit_byte ds \<and> radix_digits 10 (unat n) ds) \<and>
   (\<exists>ds. printed (print_hex n) = bytes ''0x'' @ map ((!) digits) ds \<and> length ds = 8 \<and> radix_value 16 ds = unat n)"
  using print_dec_digits[of n] print_hex_loop_digits[of 8 n] by (auto simp: print_hex_def bytes_def)

section \<open>Messages\<close>

text \<open>A percent sign with nothing after it\<close>

fun dangling :: "u8 list \<Rightarrow> bool" where
  "dangling [] = False"
| "dangling [c] = (c = ch CHR ''%'')"
| "dangling (c # d # s) = (if c = ch CHR ''%'' then dangling s else dangling (d # s))"

text \<open>
  \<open>printinfo\<close> prints a string to its end, except when it ends in a percent sign: then it steps over
  the zero byte and runs on behind the string.
\<close>

lemma printinfo_overruns:
  assumes "0 \<notin> set s"
  shows "printinfo (s @ [0]) sig = None \<longleftrightarrow> dangling s"
  using assms by (induction s rule: dangling.induct) (auto simp: ch_def)

lemma printinfo_overruns_witness:
  "printinfo (bytes ''100%'' @ [0]) 5 = None \<and> printinfo (bytes ''%d!'' @ [0]) 5 \<noteq> None"
  using printinfo_overruns[of "bytes ''100%''" 5] printinfo_overruns[of "bytes ''%d!''" 5] by (simp add: bytes_def ch_def)

section \<open>Dispatch\<close>

text \<open>
  C28. After \<open>interupt_enable\<close> with a handler, a trap whose cause has that number calls the handler with
  its argument; the other rows of the table are as before. A trap for which nothing was registered
  calls a null pointer or reads outside the table: the message for it is never printed.
\<close>

theorem trap_dispatch:
  assumes "length (interrupt_handle t) = 32" "unat num < 32" "handle \<noteq> 0"
  shows "\<exists>es t'. interupt_enable num handle arg t = Some (es, t') \<and>
    (\<forall>mcause mepc. mcause AND NOT (push_bit 31 1) = num \<longrightarrow> trap_handle mcause mepc t' = Some [Call handle arg]) \<and>
    (\<forall>k. k \<noteq> unat num \<longrightarrow> rd (interrupt_handle t') k = rd (interrupt_handle t) k) \<and>
    (\<forall>mcause mepc. trap_handle mcause mepc tables_init = None)"
proof -
  have "sint num = int (unat num)" using sint_of_nat_small[of "unat num"] assms(2) by simp
  then have "interupt_enable num handle arg t = Some ([Csr_set Mstatus (push_bit 3 1), Csr_set Mie (push_bit (unat num) 1)],
      t\<lparr>interrupt_handle := (interrupt_handle t)[unat num := (handle, arg)]\<rparr>)"
    using assms(1,2) by (simp add: interupt_enable_def)
  moreover have "trap_handle mcause mepc tables_init = None" for mcause mepc
    by (cases "unat (mcause AND NOT (push_bit 31 1)) < 32")
      (simp_all only: trap_handle_def Let_def rd_def tables_init_def trap_tables.simps length_replicate nth_replicate
        if_True if_False Option.bind.simps array_not_null_def call_def fst_conv simp_thms)
  ultimately show ?thesis
    using assms by (auto simp: trap_handle_def array_not_null_def call_def rd_def)
qed

theorem trap_dispatch_witness:
  "\<exists>es t'. interupt_enable 7 0x100 0x200 tables_init = Some (es, t') \<and> trap_handle 0x80000007 0 t' = Some [Call 0x100 0x200]"
proof -
  have "\<exists>es t'. interupt_enable 7 0x100 0x200 tables_init = Some (es, t') \<and>
    (\<forall>mcause mepc. mcause AND NOT (push_bit 31 1) = 7 \<longrightarrow> trap_handle mcause mepc t' = Some [Call 0x100 0x200]) \<and>
    (\<forall>k. k \<noteq> unat (7 :: u32) \<longrightarrow> rd (interrupt_handle t') k = rd (interrupt_handle tables_init) k) \<and>
    (\<forall>mcause mepc. trap_handle mcause mepc tables_init = None)"
    by (rule trap_dispatch) (simp_all add: tables_init_def)
  moreover have "(0x80000007 :: u32) AND NOT (push_bit 31 1) = 7" by code_simp
  ultimately show ?thesis by (elim ex_forward) blast
qed

end
