(* ===== verification/Sim_Cases.thy ===== *)
theory Sim_Cases
  imports Simple_System
begin

text \<open>
  The test programs \<open>c_sim/case/*.c\<close> on the runtime: hello, an exception by \<open>ecall\<close>, a timer interrupt
  that ends \<open>wfi\<close>, and the configuration of the physical memory protection. A trap runs the dispatcher
  of the runtime and the handler it calls; \<open>crt0.S\<close> passes it \<open>mcause\<close> and \<open>mepc\<close>.
\<close>

section \<open>hello_test.c\<close>

definition soft_irq :: "event list option" where
  "soft_irq = map_option (\<lambda>es. es @ soft_irq_clr) (printinfo (bytes ''enter software irq'' @ [10, 0]) 1)"

definition timer_irq :: "event list option" where
  "timer_irq = map_option (\<lambda>es. es @ timer_irq_clr) (printinfo (bytes ''enter timer irq'' @ [10, 0]) 1)"

definition extern_irq :: "event list option" where
  "extern_irq = map_option (\<lambda>es. es @ extern_irq_clr) (printinfo (bytes ''enter extern irq'' @ [10, 0]) 1)"

definition hello_main :: "event list option" where
  "hello_main = do {
     es \<leftarrow> printinfo (bytes ''hello-word : %d'' @ [10, 0]) 1;
     fs \<leftarrow> pass (bytes ''pass'' @ [10, 0]);
     Some (es @ fs) }"

section \<open>ecall.c\<close>

text \<open>
  The handler moves \<open>mepc\<close> over the instruction; \<open>handler\<close> is the address of \<open>ecall_irq\<close> and \<open>pc\<close> that of
  the \<open>ecall\<close>, whose cause is 11 in machine mode. The result has the address where \<open>main\<close> goes on.
\<close>

definition ecall_irq :: "u32 \<Rightarrow> (event list \<times> u32) option" where
  "ecall_irq mepc = do {
     es \<leftarrow> printinfo (bytes ''enter ecall irq'' @ [10, 0]) 1;
     Some (es @ [Csr_write Mepc (mepc + 4)], mepc + 4) }"

definition ecall_main :: "u32 \<Rightarrow> u32 \<Rightarrow> (event list \<times> u32) option" where
  "ecall_main handler pc = do {
     let t = exception_enable handler 1 tables_init;
     es \<leftarrow> exception_handle 11 pc t;
     (fs, resume) \<leftarrow> ecall_irq pc;
     gs \<leftarrow> pass (bytes ''pass'' @ [10, 0]);
     Some (es @ fs @ gs, resume) }"

section \<open>sim_wfi.c\<close>

text \<open>The timer interrupt, with cause 7 and the interrupt bit, ends the wait; \<open>TIMER_IRQ\<close> is 7.\<close>

definition TIMER_IRQ :: s32 where "TIMER_IRQ = 7"

definition wfi_main :: "u32 \<Rightarrow> u32 \<Rightarrow> event list option" where
  "wfi_main handler pc = do {
     (es, t) \<leftarrow> interupt_enable TIMER_IRQ handler 1 tables_init;
     let fs = timer_config 1000;
     gs \<leftarrow> trap_handle (push_bit 31 1 OR 7) pc t;
     hs \<leftarrow> timer_irq;
     is \<leftarrow> pass (bytes ''pass'' @ [10, 0]);
     Some (es @ fs @ gs @ hs @ is) }"

section \<open>pmp_test.c\<close>

definition OFF :: u32 where "OFF = 0"
definition TOR :: u32 where "TOR = 1"
definition NA4 :: u32 where "NA4 = 2"
definition NAPOT :: u32 where "NAPOT = 3"

definition pmpcfg :: "u32 list" where
  "pmpcfg = (push_bit 7 0 OR push_bit 3 TOR OR 0x7) # replicate 15 (push_bit 7 0 OR push_bit 3 OFF OR 0x0)"

definition pmpaddr :: "u32 list" where
  "pmpaddr = 0xFFFFFFFC # replicate 15 0x0"

definition pmp_tor_cfg :: "event list" where
  "pmp_tor_cfg =
     map (\<lambda>k. Csr_set (Pmpcfg k) (push_bit 24 (pmpcfg ! (4 * k + 3)) OR push_bit 16 (pmpcfg ! (4 * k + 2)) OR
       push_bit 8 (pmpcfg ! (4 * k + 1)) OR pmpcfg ! (4 * k))) [0..<4] @
     map (\<lambda>k. Csr_set (Pmpaddr k) (drop_bit 2 (pmpaddr ! k))) [0..<16]"

definition pmp_ecall_irq :: "u32 \<Rightarrow> (event list \<times> u32) option" where
  "pmp_ecall_irq mepc = do {
     es \<leftarrow> printinfo (bytes ''enter ecall irq'' @ [10, 0]) 1;
     Some (es @ [Csr_write Mepc (mepc + 4), Csr_clear Mstatus 0x3], mepc + 4) }"

definition pmp_main :: "u32 \<Rightarrow> u32 \<Rightarrow> (event list \<times> u32) option" where
  "pmp_main handler pc = do {
     let t = exception_enable handler 1 tables_init;
     es \<leftarrow> exception_handle 11 pc t;
     (fs, resume) \<leftarrow> pmp_ecall_irq pc;
     gs \<leftarrow> pass (bytes ''pass'' @ [10, 0]);
     Some (pmp_tor_cfg @ es @ fs @ gs, resume) }"

section \<open>What the programs print\<close>

text \<open>The calls of handlers, and the last command to the testbench\<close>

definition calls :: "event list \<Rightarrow> (u32 \<times> u32) list" where
  "calls es = concat (map (\<lambda>e. case e of Call h a \<Rightarrow> [(h, a)] | _ \<Rightarrow> []) es)"

definition line :: "string \<Rightarrow> u8 list" where
  "line s = bytes s @ [10]"

lemma printed_map: "printed (map (Store8 UART) s) = s"
  by (induction s) (simp_all add: printed_def)

lemma printed_other [simp]:
  "printed (Csr_set c v # es) = printed es" "printed (Csr_clear c v # es) = printed es" "printed (Csr_write c v # es) = printed es"
  "printed (Call h a # es) = printed es" "printed (Nop # es) = printed es" "printed (Store32 CMD v # es) = printed es"
  "printed (Store32 ARG v # es) = printed es" "printed (Store8 UART b # es) = b # printed es"
  by (simp_all add: printed_def CMD_def ARG_def UART_def)

lemma calls_simps [simp]:
  "calls [] = []" "calls (es @ fs) = calls es @ calls fs" "calls (Csr_set c v # es) = calls es" "calls (Csr_clear c v # es) = calls es"
  "calls (Csr_write c v # es) = calls es" "calls (Call h a # es) = (h, a) # calls es" "calls (Nop # es) = calls es"
  "calls (Store32 d v # es) = calls es" "calls (Store8 d b # es) = calls es" "calls (map (Store8 d) s) = []"
  by (induction s) (simp_all add: calls_def)

lemma plain_messages:
  "printinfo (bytes ''enter software irq'' @ [10, 0]) 1 = Some (map (Store8 UART) (line ''enter software irq''))"
  "printinfo (bytes ''enter timer irq'' @ [10, 0]) 1 = Some (map (Store8 UART) (line ''enter timer irq''))"
  "printinfo (bytes ''enter extern irq'' @ [10, 0]) 1 = Some (map (Store8 UART) (line ''enter extern irq''))"
  "printinfo (bytes ''enter ecall irq'' @ [10, 0]) 1 = Some (map (Store8 UART) (line ''enter ecall irq''))"
  "printinfo (bytes ''enter exception handle!!!'' @ [10, 0]) 1 = Some (map (Store8 UART) (line ''enter exception handle!!!''))"
  "pass (bytes ''pass'' @ [10, 0]) = Some (map (Store8 UART) (line ''pass'') @ [Store32 CMD PASS])"
  by (simp_all add: pass_def REG_WR_def line_def bytes_def ch_def my_putchar_def)

lemma print_hex_11: "print_hex 11 = map (Store8 UART) (bytes ''0x0000000b'')"
  by code_simp

lemma print_dec_1: "print_dec 1 = map (Store8 UART) (bytes ''1'')"
  by (subst print_dec.simps) (simp add: my_putchar_def bytes_def ch_def word_le_nat_alt)

lemma drop_2: "drop_bit 2 (0xFFFFFFFC :: u32) = 0x3FFFFFFF"
  by code_simp

lemma mcause_message:
  "printinfo (bytes ''mcause is %h'' @ [10, 0]) 11 = Some (map (Store8 UART) (line ''mcause is 0x0000000b''))"
  by (simp add: line_def bytes_def ch_def my_putchar_def print_hex_11)

lemma hello_message:
  "printinfo (bytes ''hello-word : %d'' @ [10, 0]) 1 = Some (map (Store8 UART) (line ''hello-word : 1''))"
  by (simp add: line_def bytes_def ch_def my_putchar_def print_dec_1)

section \<open>The protected region\<close>

text \<open>
  The control registers after the accesses, and the protection of the architecture for entries that are
  off or give the top of a range: the first of the sixteen entries that matches decides.
\<close>

fun csrs_after :: "event list \<Rightarrow> (csr \<Rightarrow> u32) \<Rightarrow> (csr \<Rightarrow> u32)" where
  "csrs_after [] s = s"
| "csrs_after (Csr_set c v # es) s = csrs_after es (s(c := s c OR v))"
| "csrs_after (Csr_clear c v # es) s = csrs_after es (s(c := s c AND NOT v))"
| "csrs_after (Csr_write c v # es) s = csrs_after es (s(c := v))"
| "csrs_after (e # es) s = csrs_after es s"

definition pmp_byte :: "(csr \<Rightarrow> u32) \<Rightarrow> nat \<Rightarrow> u32" where
  "pmp_byte s k = take_bit 8 (drop_bit (8 * (k mod 4)) (s (Pmpcfg (k div 4))))"

definition pmp_matches :: "(csr \<Rightarrow> u32) \<Rightarrow> u32 \<Rightarrow> nat \<Rightarrow> bool" where
  "pmp_matches s a k \<longleftrightarrow> take_bit 2 (drop_bit 3 (pmp_byte s k)) = TOR \<and>
     (if k = 0 then 0 else 4 * unat (s (Pmpaddr (k - 1)))) \<le> unat a \<and> unat a < 4 * unat (s (Pmpaddr k))"

definition pmp_permits :: "(csr \<Rightarrow> u32) \<Rightarrow> u32 \<Rightarrow> bool" where
  "pmp_permits s a = (case filter (pmp_matches s a) [0..<16] of [] \<Rightarrow> False | k # _ \<Rightarrow> take_bit 3 (pmp_byte s k) = 7)"

lemma indices: "[0..<4] = [0, 1, 2, 3]" "[0..<16] = [0, 1, 2, 3, 4, 5, 6, 7, 8, 9, 10, 11, 12, 13, 14, 15]"
  by code_simp+

lemma pmp_csrs:
  "csrs_after pmp_tor_cfg (\<lambda>c. 0) = (\<lambda>c. 0)(Pmpcfg 0 := 0xF, Pmpaddr 0 := 0x3FFFFFFF)"
  by (simp add: pmp_tor_cfg_def pmpcfg_def pmpaddr_def TOR_def OFF_def fun_eq_iff drop_2 indices)

lemma pmp_region: "pmp_permits (csrs_after pmp_tor_cfg (\<lambda>c. 0)) a \<longleftrightarrow> a < 0xFFFFFFFC"
proof -
  let ?s = "csrs_after pmp_tor_cfg (\<lambda>c. 0)"
  have b: "pmp_byte ?s k = (if k = 0 then 0xF else 0)" if "k < 16" for k
  proof -
    have "k div 4 = 0 \<Longrightarrow> k mod 4 = k" by auto
    moreover have "take_bit 8 (drop_bit (8 * k) (0xF :: u32)) = 0" if "0 < k" "k < 4" for k :: nat
    proof -
      have "k = 1 \<or> k = 2 \<or> k = 3" using that by auto
      then show ?thesis by (elim disjE) simp_all
    qed
    ultimately show ?thesis by (auto simp: pmp_byte_def pmp_csrs)
  qed
  have m: "pmp_matches ?s a k \<longleftrightarrow> k = 0 \<and> a < 0xFFFFFFFC" if "k < 16" for k
    unfolding pmp_matches_def b[OF that] using that by (auto simp: pmp_csrs TOR_def word_less_nat_alt)
  have "filter (pmp_matches ?s a) [0..<16] = filter (\<lambda>k. k = 0 \<and> a < 0xFFFFFFFC) [0..<16]"
    by (rule filter_cong[OF refl]) (simp add: m)
  then show ?thesis using b[of 0] by (simp add: pmp_permits_def indices)
qed

text \<open>
  The programs \<open>hello_test\<close>, \<open>ecall\<close>, \<open>sim_wfi\<close> and \<open>pmp_test\<close> run to their end: they print their
  lines, each trap calls exactly the registered handler once, an exception resumes after the \<open>ecall\<close>,
  and the last action is the command that reports success. The protection that \<open>pmp_test\<close> sets up
  permits exactly the addresses below 0xFFFFFFFC, which include the device registers.
\<close>

lemma sim_cases_pass:
  assumes "handler \<noteq> 0"
  shows "\<exists>es fs gs hs.
    hello_main = Some (es @ [Store32 CMD PASS]) \<and> printed es = line ''hello-word : 1'' @ line ''pass'' \<and> calls es = [] \<and>
    ecall_main handler pc = Some (fs @ [Store32 CMD PASS], pc + 4) \<and> calls fs = [(handler, 1)] \<and>
    printed fs = line ''enter exception handle!!!'' @ line ''mcause is 0x0000000b'' @ line ''enter ecall irq'' @ line ''pass'' \<and>
    wfi_main handler pc = Some (gs @ [Store32 CMD PASS]) \<and> calls gs = [(handler, 1)] \<and>
    printed gs = line ''enter timer irq'' @ line ''pass'' \<and>
    pmp_main handler pc = Some (pmp_tor_cfg @ hs @ [Store32 CMD PASS], pc + 4) \<and> calls hs = [(handler, 1)] \<and>
    printed hs = printed fs \<and>
    (\<forall>a. pmp_permits (csrs_after pmp_tor_cfg (\<lambda>c. 0)) a \<longleftrightarrow> a < 0xFFFFFFFC)"
proof -
  note msgs = plain_messages mcause_message hello_message printed_map
  have t: "trap_handle (push_bit 31 1 OR 7) pc
      (tables_init\<lparr>interrupt_handle := (interrupt_handle tables_init)[7 := (handler, 1)]\<rparr>) = Some [Call handler 1]"
    using assms by (simp add: trap_handle_def tables_init_def array_not_null_def call_def)
  have w: "wfi_main handler pc = Some (([Csr_set Mstatus 8, Csr_set Mie 128] @ timer_config 1000 @ [Call handler 1] @
      map (Store8 UART) (line ''enter timer irq'') @ timer_irq_clr @ map (Store8 UART) (line ''pass'')) @ [Store32 CMD PASS])"
    using t by (simp add: wfi_main_def interupt_enable_def TIMER_IRQ_def timer_irq_def plain_messages tables_init_def)
  have h: "hello_main = Some ((map (Store8 UART) (line ''hello-word : 1'') @ map (Store8 UART) (line ''pass'')) @ [Store32 CMD PASS])"
    by (simp add: hello_main_def msgs)
  have x: "exception_handle 11 pc (exception_enable handler 1 tables_init) = Some (map (Store8 UART) (line ''enter exception handle!!!'') @
      map (Store8 UART) (line ''mcause is 0x0000000b'') @ [Call handler 1])"
    using assms by (simp add: exception_handle_def exception_enable_def array_not_null_def call_def msgs)
  let ?fs = "\<lambda>rs. map (Store8 UART) (line ''enter exception handle!!!'') @ map (Store8 UART) (line ''mcause is 0x0000000b'') @
    [Call handler 1] @ map (Store8 UART) (line ''enter ecall irq'') @ rs @ map (Store8 UART) (line ''pass'')"
  have e: "ecall_main handler pc = Some (?fs [Csr_write Mepc (pc + 4)] @ [Store32 CMD PASS], pc + 4)"
    by (simp add: ecall_main_def ecall_irq_def x msgs)
  have p: "pmp_main handler pc = Some (pmp_tor_cfg @ ?fs [Csr_write Mepc (pc + 4), Csr_clear Mstatus 0x3] @ [Store32 CMD PASS], pc + 4)"
    by (simp add: pmp_main_def pmp_ecall_irq_def x msgs)
  show ?thesis
    unfolding h e w p
    by (rule exI[of _ "map (Store8 UART) (line ''hello-word : 1'') @ map (Store8 UART) (line ''pass'')"],
      rule exI[of _ "?fs [Csr_write Mepc (pc + 4)]"],
      rule exI[of _ "[Csr_set Mstatus 8, Csr_set Mie 128] @ timer_config 1000 @ [Call handler 1] @
        map (Store8 UART) (line ''enter timer irq'') @ timer_irq_clr @ map (Store8 UART) (line ''pass'')"],
      rule exI[of _ "?fs [Csr_write Mepc (pc + 4), Csr_clear Mstatus 0x3]"]) (simp add: msgs pmp_region timer_config_def timer_irq_clr_def REG_WR_def)
qed

lemma sim_cases_pass_witness:
  "\<exists>fs. ecall_main 0x80001000 0x80000100 = Some (fs @ [Store32 CMD PASS], 0x80000104) \<and> calls fs = [(0x80001000, 1)]"
proof -
  have "(0x80001000 :: u32) \<noteq> 0" by simp
  from sim_cases_pass[OF this, where pc = "0x80000100"] show ?thesis by fastforce
qed

end
