(* ===== verification/Tiny_Malloc.thy ===== *)
theory Tiny_Malloc
  imports Byte_Memory
begin

text \<open>
  The allocator \<open>debug/programs/tiny-malloc.c\<close> with \<open>MALLOC_DIRECTION\<close> 1, on a memory of bytes with
  addresses of 32 bits: the free list runs through the free blocks, each with its size in its
  first word and the next free block in its second. \<open>limit\<close> is the frame address that
  \<open>__builtin_frame_address\<close> returns, \<open>start\<close> the address of the linker's symbol \<open>__malloc_start\<close>.
\<close>

section \<open>State\<close>

record malloc_state =
  memory :: memory
  malloc_end :: u32
  malloc_freelist :: u32

definition fle_size :: "malloc_state \<Rightarrow> u32 \<Rightarrow> u32" where
  "fle_size st block = rd32 (memory st) block"

definition fle_next :: "malloc_state \<Rightarrow> u32 \<Rightarrow> u32" where
  "fle_next st block = rd32 (memory st) (block + 4)"

definition set_size :: "u32 \<Rightarrow> u32 \<Rightarrow> malloc_state \<Rightarrow> malloc_state" where
  "set_size block v st = st\<lparr>memory := wr32 (memory st) block v\<rparr>"

definition set_next :: "u32 \<Rightarrow> u32 \<Rightarrow> malloc_state \<Rightarrow> malloc_state" where
  "set_next block v st = st\<lparr>memory := wr32 (memory st) (block + 4) v\<rparr>"

text \<open>The variable that \<open>nextfree\<close> points to: \<open>__malloc_freelist\<close> or the \<open>next\<close> of a block.\<close>

datatype link = Freelist | Next u32

definition get_link :: "malloc_state \<Rightarrow> link \<Rightarrow> u32" where
  "get_link st l = (case l of Freelist \<Rightarrow> malloc_freelist st | Next b \<Rightarrow> fle_next st b)"

definition set_link :: "link \<Rightarrow> u32 \<Rightarrow> malloc_state \<Rightarrow> malloc_state" where
  "set_link l v st = (case l of Freelist \<Rightarrow> st\<lparr>malloc_freelist := v\<rparr> | Next b \<Rightarrow> set_next b v st)"

section \<open>Macros\<close>

definition M_ALIGN :: "u32 \<Rightarrow> u32 \<Rightarrow> u32" where
  "M_ALIGN x align = - x AND (align - 1)"

definition CAN_ALLOC_P :: "u32 \<Rightarrow> malloc_state \<Rightarrow> u32 \<Rightarrow> bool" where
  "CAN_ALLOC_P limit st required \<longleftrightarrow> limit - malloc_end st - 32 \<ge> required"

definition REAL_SIZE :: "u32 \<Rightarrow> u32" where
  "REAL_SIZE sz = (if sz < 8 - 4 then 8 else sz + 4 + M_ALIGN sz 4)"

section \<open>malloc\<close>

text \<open>\<open>done: block->size = real_size; return (void *)&block->next;\<close>\<close>

definition malloc_done :: "u32 \<Rightarrow> u32 \<Rightarrow> malloc_state \<Rightarrow> u32 \<times> malloc_state" where
  "malloc_done block real_size st = (block + 4, set_size block real_size st)"

text \<open>After the loop: no free block is large enough.\<close>

definition malloc_new :: "u32 \<Rightarrow> u32 \<Rightarrow> malloc_state \<Rightarrow> u32 \<times> malloc_state" where
  "malloc_new limit real_size st =
    (if \<not> CAN_ALLOC_P limit st real_size then (0, st)
     else let block = malloc_end st
       in malloc_done block real_size (st\<lparr>malloc_end := malloc_end st + real_size\<rparr>))"

text \<open>The block found is large enough: take it, or split it.\<close>

definition malloc_take :: "u32 \<Rightarrow> link \<Rightarrow> malloc_state \<Rightarrow> u32 \<times> malloc_state" where
  "malloc_take real_size nextfree st = (
     let block = get_link st nextfree
     in if fle_size st block < real_size + 8 then (block + 4, set_link nextfree (fle_next st block) st)
        else
          let newsize = fle_size st block - real_size;
              newnext = fle_next st block;
              rest = block + real_size
          in malloc_done block real_size (set_next rest newnext (set_size rest newsize (set_link nextfree rest st))))"

text \<open>The last free block ends at the end of the heap: enlarge it.\<close>

definition malloc_enlarge :: "u32 \<Rightarrow> u32 \<Rightarrow> link \<Rightarrow> malloc_state \<Rightarrow> u32 \<times> malloc_state" where
  "malloc_enlarge limit real_size nextfree st = (
     let block = get_link st nextfree; moresize = real_size - fle_size st block
     in if \<not> CAN_ALLOC_P limit st moresize then (0, st)
        else malloc_done block real_size ((set_link nextfree 0 st)\<lparr>malloc_end := block + real_size\<rparr>))"

text \<open>The search need not end when the free list is cyclic; then the result is \<open>None\<close>.\<close>

partial_function (option) malloc_search :: "u32 \<Rightarrow> u32 \<Rightarrow> link \<Rightarrow> malloc_state \<Rightarrow> (u32 \<times> malloc_state) option" where
  "malloc_search limit real_size nextfree st = (
     let block = get_link st nextfree
     in if block = 0 then Some (malloc_new limit real_size st)
        else if fle_size st block \<ge> real_size then Some (malloc_take real_size nextfree st)
        else if fle_next st block = 0 \<and> malloc_end st = block + fle_size st block
          then Some (malloc_enlarge limit real_size nextfree st)
        else malloc_search limit real_size (Next block) st)"

definition malloc :: "u32 \<Rightarrow> u32 \<Rightarrow> malloc_state \<Rightarrow> (u32 \<times> malloc_state) option" where
  "malloc limit sz st = malloc_search limit (REAL_SIZE sz) Freelist st"

section \<open>free\<close>

text \<open>A free block ends where \<open>block\<close> starts: extend it, and join the next one if that follows.\<close>

definition free_after :: "u32 \<Rightarrow> u32 \<Rightarrow> malloc_state \<Rightarrow> malloc_state" where
  "free_after thisblock block st = (
     let st = set_size thisblock (fle_size st thisblock + fle_size st block) st
     in if fle_next st thisblock \<noteq> 0 \<and> block + fle_size st block = fle_next st thisblock then
          let st = set_size thisblock (fle_size st thisblock + fle_size st (fle_next st thisblock)) st
          in set_next thisblock (fle_next st (fle_next st thisblock)) st
        else st)"

text \<open>A free block starts where \<open>block\<close> ends: \<open>block\<close> takes its place.\<close>

definition free_before :: "link \<Rightarrow> u32 \<Rightarrow> u32 \<Rightarrow> malloc_state \<Rightarrow> malloc_state" where
  "free_before nextfree thisblock block st = (
     let st = set_size block (fle_size st block + fle_size st thisblock) st;
         st = set_next block (fle_next st thisblock) st
     in set_link nextfree block st)"

definition free_insert :: "link \<Rightarrow> u32 \<Rightarrow> malloc_state \<Rightarrow> malloc_state" where
  "free_insert nextfree block st = (
     let st = set_next block (get_link st nextfree) st
     in set_link nextfree block st)"

partial_function (option) free_search :: "u32 \<Rightarrow> link \<Rightarrow> malloc_state \<Rightarrow> malloc_state option" where
  "free_search block nextfree st = (
     let thisblock = get_link st nextfree
     in if thisblock = 0 then Some (free_insert nextfree block st)
        else if thisblock + fle_size st thisblock = block then Some (free_after thisblock block st)
        else if thisblock = block + fle_size st block then Some (free_before nextfree thisblock block st)
        else if thisblock > block then Some (free_insert nextfree block st)
        else free_search block (Next thisblock) st)"

definition free :: "u32 \<Rightarrow> malloc_state \<Rightarrow> malloc_state option" where
  "free block_p st = (
     let block = block_p - 4
     in if block_p = 0 then Some st else free_search block Freelist st)"

definition cfree :: "u32 \<Rightarrow> malloc_state \<Rightarrow> malloc_state option" where
  "cfree p st = free p st"

section \<open>realloc and calloc\<close>

definition realloc :: "u32 \<Rightarrow> u32 \<Rightarrow> u32 \<Rightarrow> malloc_state \<Rightarrow> (u32 \<times> malloc_state) option" where
  "realloc limit block_p sz st = (
     let block = block_p - 4; real_size = REAL_SIZE sz
     in if block_p = 0 then malloc limit sz st
     else
       let old_real_size = fle_size st block
       in if old_real_size < real_size then do {
            let old_size = old_real_size - 4;
            (result, st) \<leftarrow> malloc limit sz st;
            if result = 0 then Some (0, st)
            else do {
              let st = st\<lparr>memory := memcpy (memory st) result block_p (if old_size < sz then old_size else sz)\<rparr>;
              st \<leftarrow> free block_p st;
              Some (result, st) } }
          else if old_real_size - real_size \<ge> 8 then do {
            let newblock = block + real_size;
            let st = set_size newblock (old_real_size - real_size) (set_size block real_size st);
            st \<leftarrow> free (newblock + 4) st;
            Some (block_p, st) }
          else Some (block_p, st))"

definition calloc :: "u32 \<Rightarrow> u32 \<Rightarrow> u32 \<Rightarrow> malloc_state \<Rightarrow> (u32 \<times> malloc_state) option" where
  "calloc limit n elem_size st = do {
     let sz = n * elem_size;
     (result, st) \<leftarrow> malloc limit sz st;
     if result \<noteq> 0 then Some (result, st\<lparr>memory := memset (memory st) result 0 sz\<rparr>) else Some (result, st) }"

section \<open>memalign\<close>

text \<open>The free list has ended: a block at the end of the heap becomes its last block.\<close>

definition memalign_new :: "u32 \<Rightarrow> u32 \<Rightarrow> u32 \<Rightarrow> link \<Rightarrow> malloc_state \<Rightarrow> malloc_state option" where
  "memalign_new limit align real_size nextfree st = (
     let block = malloc_end st;
         old_size = real_size + M_ALIGN (malloc_end st + 4) align
     in if \<not> CAN_ALLOC_P limit st old_size then None
        else Some (set_next block 0 (set_size block old_size
          (set_link nextfree block (st\<lparr>malloc_end := malloc_end st + old_size\<rparr>)))))"

definition before_size :: "u32 \<Rightarrow> u32 \<Rightarrow> u32" where
  "before_size block align =
    (if M_ALIGN (block + 4) align \<noteq> 0 then 8 + M_ALIGN (block + 8 + 4) align else 0)"

text \<open>The block is large enough for \<open>before\<close> bytes and the aligned block.\<close>

definition memalign_take :: "u32 \<Rightarrow> u32 \<Rightarrow> link \<Rightarrow> malloc_state \<Rightarrow> u32 \<times> malloc_state" where
  "memalign_take real_size before nextfree st = (
     let block = get_link st nextfree; old_size = fle_size st block
     in if before \<noteq> 0 then
          let old_block = block;
              st = set_size old_block before st;
              block = block + before
          in if old_size - before \<le> real_size + 8 then
               (block + 4, set_size block (old_size - before) st)
             else
               let new_block = block + real_size;
                   st = set_size new_block (old_size - before - real_size) st;
                   st = set_next new_block (fle_next st old_block) st;
                   st = set_next old_block new_block st
               in malloc_done block real_size st
        else if old_size \<le> real_size + 8 then (block + 4, set_link nextfree (fle_next st block) st)
        else
          let newsize = old_size - real_size;
              newnext = fle_next st block;
              rest = block + real_size
          in malloc_done block real_size (set_next rest newnext (set_size rest newsize (set_link nextfree rest st))))"

partial_function (option) memalign_search :: "u32 \<Rightarrow> u32 \<Rightarrow> u32 \<Rightarrow> link \<Rightarrow> malloc_state \<Rightarrow> (u32 \<times> malloc_state) option" where
  "memalign_search limit align real_size nextfree st =
    (case (if get_link st nextfree = 0 then memalign_new limit align real_size nextfree st else Some st) of
       None \<Rightarrow> Some (0, st)
     | Some st1 \<Rightarrow>
         let block = get_link st1 nextfree;
             old_size = fle_size st1 block;
             before = before_size block align
         in if fle_next st1 block = 0 \<and> old_size < real_size + before \<and> malloc_end st1 = block + fle_size st1 block then
              if \<not> CAN_ALLOC_P limit st1 (before + real_size - fle_size st1 block) then Some (0, st1)
              else Some (memalign_take real_size before nextfree
                (set_size block (before + real_size) (st1\<lparr>malloc_end := block + before + real_size\<rparr>)))
            else if old_size \<ge> real_size + before then Some (memalign_take real_size before nextfree st1)
            else memalign_search limit align real_size (Next block) st1)"

definition memalign :: "u32 \<Rightarrow> u32 \<Rightarrow> u32 \<Rightarrow> malloc_state \<Rightarrow> (u32 \<times> malloc_state) option" where
  "memalign limit align sz st = (
     let real_size = REAL_SIZE sz
     in if align AND (align - 1) \<noteq> 0 \<or> align \<le> 0 then Some (0, st)
        else memalign_search limit align real_size Freelist st)"

definition valloc :: "u32 \<Rightarrow> u32 \<Rightarrow> malloc_state \<Rightarrow> (u32 \<times> malloc_state) option" where
  "valloc limit sz st = memalign limit 128 sz st"

definition pvalloc :: "u32 \<Rightarrow> u32 \<Rightarrow> malloc_state \<Rightarrow> (u32 \<times> malloc_state) option" where
  "pvalloc limit sz st = memalign limit 128 (sz + M_ALIGN sz 128) st"

section \<open>Statistics\<close>

record mallinfo =
  arena :: u32
  ordblks :: u32
  uordblks :: u32
  fordblks :: u32
  keepcost :: u32

text \<open>The loop over the free list: the bytes and the number of free blocks, and \<open>keepcost\<close>.\<close>

partial_function (option) mallinfo_loop :: "malloc_state \<Rightarrow> u32 \<Rightarrow> u32 \<Rightarrow> u32 \<Rightarrow> u32 \<Rightarrow> (u32 \<times> u32 \<times> u32) option" where
  "mallinfo_loop st fr free_size free_blocks keep =
    (if fr = 0 then Some (free_size, free_blocks, keep)
     else mallinfo_loop st (fle_next st fr) (free_size + fle_size st fr) (free_blocks + 1)
       (if fle_next st fr = 0 \<and> fr + fle_size st fr = malloc_end st then fle_size st fr else keep))"

definition mallinfo :: "u32 \<Rightarrow> malloc_state \<Rightarrow> mallinfo option" where
  "mallinfo start st = do {
     (free_size, free_blocks, keep) \<leftarrow> mallinfo_loop st (malloc_freelist st) 0 0 0;
     let total_size = malloc_end st - start;
     Some \<lparr>arena = total_size, ordblks = free_blocks, uordblks = total_size - free_size, fordblks = free_size, keepcost = keep\<rparr> }"

definition malloc_usable_size :: "malloc_state \<Rightarrow> u32 \<Rightarrow> u32" where
  "malloc_usable_size st block_p = fle_size st (block_p - 4) - 4"

definition mallopt :: "s32 \<Rightarrow> s32 \<Rightarrow> s32" where
  "mallopt n v = 0"

end
