(* ===== verification/Tiny_Heap.thy ===== *)
theory Tiny_Heap
  imports Tiny_Malloc
begin

text \<open>
  The heap of \<open>tiny-malloc.c\<close> as a sequence of blocks: which memory each operation reads and writes,
  the invariant that ties the headers and the free list to the blocks, and what malloc and free do
  to the sequence. Sizes and addresses are counted in words of four bytes.
\<close>

section \<open>The memory by words\<close>

text \<open>The contents of the memory by words, and what the setters do to them.\<close>

definition view :: "malloc_state \<Rightarrow> nat \<Rightarrow> u32" where
  "view st k = (if k < words then rd32 (memory st) (adr k) else 0)"

lemma view_write: "a < words \<Longrightarrow> view (st\<lparr>memory := wr32 (memory st) (adr a) v\<rparr>) = (view st)(a := v)"
  by (rule ext) (simp add: view_def rd32_wr32_same rd32_wr32_other)

lemma view_other [simp]: "view (st\<lparr>malloc_end := e\<rparr>) = view st" "view (st\<lparr>malloc_freelist := h\<rparr>) = view st"
  by (simp_all add: view_def fun_eq_iff)

lemma view_set_size [simp]: "a < words \<Longrightarrow> view (set_size (adr a) v st) = (view st)(a := v)"
  by (simp add: set_size_def view_write)

lemma view_set_next [simp]: "a + 1 < words \<Longrightarrow> view (set_next (adr a) v st) = (view st)(a + 1 := v)"
  using view_write[of "a + 1" st v] by (simp add: set_next_def adr_4 adr_add)

lemma fle_view: "a < words \<Longrightarrow> fle_size st (adr a) = view st a" "a + 1 < words \<Longrightarrow> fle_next st (adr a) = view st (a + 1)"
  by (simp_all add: fle_size_def fle_next_def view_def adr_4 adr_add)

lemma set_other [simp]:
  "malloc_end (set_size a v st) = malloc_end st" "malloc_freelist (set_size a v st) = malloc_freelist st"
  "malloc_end (set_next a v st) = malloc_end st" "malloc_freelist (set_next a v st) = malloc_freelist st"
  "malloc_end (set_link l v st) = malloc_end st"
  by (simp_all add: set_size_def set_next_def set_link_def split: link.split)

section \<open>Blocks\<close>

text \<open>The sizes of the blocks from the start of the heap on, and whether they are in use.\<close>

type_synonym blocks = "(nat \<times> bool) list"

fun heads :: "nat \<Rightarrow> blocks \<Rightarrow> (nat \<times> nat) list" where
  "heads a [] = []"
| "heads a ((n, u) # bs) = (a, n) # heads (a + n) bs"

fun frees :: "nat \<Rightarrow> blocks \<Rightarrow> nat list" where
  "frees a [] = []"
| "frees a ((n, u) # bs) = (if u then frees (a + n) bs else a # frees (a + n) bs)"

fun useds :: "nat \<Rightarrow> blocks \<Rightarrow> (nat \<times> nat) list" where
  "useds a [] = []"
| "useds a ((n, u) # bs) = (if u then (a, n) # useds (a + n) bs else useds (a + n) bs)"

definition total :: "blocks \<Rightarrow> nat" where
  "total bs = sum_list (map fst bs)"

definition fine :: "nat \<Rightarrow> blocks \<Rightarrow> bool" where
  "fine S bs \<longleftrightarrow> 0 < S \<and> (\<forall>b \<in> set bs. 2 \<le> fst b) \<and> S + total bs < words"

lemma total_simps [simp]: "total [] = 0" "total (b # bs) = fst b + total bs" "total (bs @ cs) = total bs + total cs"
  by (simp_all add: total_def)

lemma parts_append [simp]:
  "heads a (bs @ cs) = heads a bs @ heads (a + total bs) cs"
  "frees a (bs @ cs) = frees a bs @ frees (a + total bs) cs"
  "useds a (bs @ cs) = useds a bs @ useds (a + total bs) cs"
  by (induction bs arbitrary: a) (auto simp: add.assoc)

lemma heads_range: "(b, n) \<in> set (heads a bs) \<Longrightarrow> a \<le> b \<and> b + n \<le> a + total bs"
  by (induction bs arbitrary: a) fastforce+

lemma head_size: "(b, n) \<in> set (heads a bs) \<Longrightarrow> \<forall>b \<in> set bs. 2 \<le> fst b \<Longrightarrow> 2 \<le> n"
  by (induction bs arbitrary: a) fastforce+

lemma used_is_head: "(b, n) \<in> set (useds a bs) \<Longrightarrow> (b, n) \<in> set (heads a bs)"
  by (induction bs arbitrary: a) (auto split: if_splits)

lemma useds_size: "(b, n) \<in> set (useds a bs) \<Longrightarrow> \<forall>b \<in> set bs. 2 \<le> fst b \<Longrightarrow> 2 \<le> n"
  by (induction bs arbitrary: a) (fastforce split: if_splits)+

lemma useds_range: "(b, n) \<in> set (useds a bs) \<Longrightarrow> a \<le> b \<and> b + n \<le> a + total bs"
  by (induction bs arbitrary: a) (fastforce split: if_splits)+

lemma frees_range: "f \<in> set (frees a bs) \<Longrightarrow> \<forall>b \<in> set bs. 2 \<le> fst b \<Longrightarrow> a \<le> f \<and> f + 2 \<le> a + total bs"
  by (induction bs arbitrary: a) (fastforce split: if_splits)+

lemma frees_distinct: "\<forall>b \<in> set bs. 2 \<le> fst b \<Longrightarrow> distinct (frees a bs)"
  by (induction bs arbitrary: a) (fastforce dest: frees_range)+

text \<open>A word after the start of a free block starts no block, and is in no block in use.\<close>

lemma free_head: "f \<in> set (frees a bs) \<Longrightarrow> \<forall>b \<in> set bs. 2 \<le> fst b \<Longrightarrow> (b, n) \<in> set (heads a bs) \<Longrightarrow> b \<noteq> f + 1"
proof (induction bs arbitrary: a)
  case Nil then show ?case by simp
next
  case (Cons x bs)
  obtain m u where x: "x = (m, u)" by (cases x)
  have "b \<noteq> f + 1" if "f \<in> set (frees (a + m) bs)" "(b, n) = (a, m)" using frees_range[OF that(1)] that(2) Cons.prems(2) by simp
  moreover have "b \<noteq> f + 1" if "f = a" "(b, n) \<in> set (heads (a + m) bs)"
    using heads_range[OF that(2)] that(1) Cons.prems(2) x by auto
  ultimately show ?case using Cons x by (auto split: if_splits)
qed

lemma free_used:
  "f \<in> set (frees a bs) \<Longrightarrow> \<forall>b \<in> set bs. 2 \<le> fst b \<Longrightarrow> (b, n) \<in> set (useds a bs) \<Longrightarrow> f + 1 < b \<or> b + n \<le> f"
proof (induction bs arbitrary: a)
  case Nil then show ?case by simp
next
  case (Cons x bs)
  obtain m u where x: "x = (m, u)" by (cases x)
  have "f + 1 < b" if "f = a" "(b, n) \<in> set (useds (a + m) bs)"
    using useds_range[OF that(2)] that(1) Cons.prems(2) x by auto
  moreover have "b + n \<le> f" if "f \<in> set (frees (a + m) bs)" "(b, n) = (a, m)"
    using frees_range[OF that(1)] that(2) Cons.prems(2) by simp
  ultimately show ?case using Cons x by (auto split: if_splits)
qed

lemma frees_split:
  "frees a bs = fs @ f # gs \<Longrightarrow> \<exists>pre n post. bs = pre @ (n, False) # post \<and> frees a pre = fs \<and> f = a + total pre \<and> gs = frees (f + n) post"
proof (induction bs arbitrary: a fs)
  case Nil then show ?case by simp
next
  case (Cons x bs)
  obtain n u where x: "x = (n, u)" by (cases x)
  show ?case
  proof (cases "u \<or> fs \<noteq> []")
    case True
    define fs' where "fs' = (if u then fs else tl fs)"
    have fs': "frees (a + n) bs = fs' @ f # gs" "fs = (if u then fs' else a # fs')"
      using Cons.prems x True unfolding fs'_def by (cases u; cases fs; simp)+
    from Cons.IH[OF fs'(1)] obtain pre m post where "bs = pre @ (m, False) # post" "frees (a + n) pre = fs'"
      "f = a + n + total pre" "gs = frees (f + m) post" by blast
    then have "x # bs = (x # pre) @ (m, False) # post \<and> frees a (x # pre) = fs \<and> f = a + total (x # pre) \<and> gs = frees (f + m) post"
      using x fs'(2) by simp
    then show ?thesis by blast
  next
    case False
    then have "x # bs = [] @ (n, False) # bs \<and> frees a [] = fs \<and> f = a + total [] \<and> gs = frees (f + n) bs"
      using Cons.prems x by auto
    then show ?thesis by blast
  qed
qed

section \<open>The free list\<close>

text \<open>The pointers from \<open>h\<close> through the blocks \<open>fs\<close> to the pointer \<open>x\<close>.\<close>

fun linked :: "(nat \<Rightarrow> u32) \<Rightarrow> u32 \<Rightarrow> nat list \<Rightarrow> u32 \<Rightarrow> bool" where
  "linked V h [] x \<longleftrightarrow> h = x"
| "linked V h (f # fs) x \<longleftrightarrow> h = adr f \<and> linked V (V (f + 1)) fs x"

lemma linked_append: "linked V h (fs @ gs) x \<longleftrightarrow> (\<exists>y. linked V h fs y \<and> linked V y gs x)"
  by (induction fs arbitrary: h) auto

lemma linked_frame: "linked V h fs x \<Longrightarrow> \<forall>f \<in> set fs. V' (f + 1) = V (f + 1) \<Longrightarrow> linked V' h fs x"
  by (induction fs arbitrary: h) auto

lemma linked_end: "linked V h fs x \<Longrightarrow> x = (if fs = [] then h else V (last fs + 1))"
  by (induction fs arbitrary: h) auto

text \<open>The variable that ends the list \<open>fs\<close>.\<close>

definition lnk :: "nat list \<Rightarrow> link" where
  "lnk fs = (if fs = [] then Freelist else Next (adr (last fs)))"

lemma lnk_snoc: "lnk (fs @ [f]) = Next (adr f)"
  by (simp add: lnk_def)

lemma get_lnk: "linked (view st) (malloc_freelist st) fs x \<Longrightarrow> \<forall>f \<in> set fs. f + 1 < words \<Longrightarrow> get_link st (lnk fs) = x"
  using linked_end[of "view st" "malloc_freelist st" fs x] by (auto simp: get_link_def lnk_def fle_view)

lemma view_set_lnk: "\<forall>f \<in> set fs. f + 1 < words \<Longrightarrow>
    view (set_link (lnk fs) x st) = (if fs = [] then view st else (view st)(last fs + 1 := x))"
  by (simp add: set_link_def lnk_def)

lemma linked_set_lnk:
  assumes "linked (view st) (malloc_freelist st) fs y" "\<forall>f \<in> set fs. f + 1 < words" "distinct fs"
  shows "linked (view (set_link (lnk fs) x st)) (malloc_freelist (set_link (lnk fs) x st)) fs x"
proof (cases fs rule: rev_cases)
  case Nil then show ?thesis by (simp add: set_link_def lnk_def)
next
  case (snoc gs f)
  then have "linked (view st) (malloc_freelist st) gs (adr f)" using assms(1) by (auto simp: linked_append)
  then have "linked ((view st)(f + 1 := x)) (malloc_freelist st) gs (adr f)"
    by (rule linked_frame) (use assms(3) snoc in auto)
  then show ?thesis using assms(2) snoc by (simp add: set_link_def lnk_def linked_append)
qed

section \<open>The invariant\<close>

definition headers :: "(nat \<Rightarrow> u32) \<Rightarrow> nat \<Rightarrow> blocks \<Rightarrow> bool" where
  "headers V S bs \<longleftrightarrow> (\<forall>(a, n) \<in> set (heads S bs). V a = adr n)"

definition heap_ok :: "nat \<Rightarrow> blocks \<Rightarrow> malloc_state \<Rightarrow> bool" where
  "heap_ok S bs st \<longleftrightarrow> fine S bs \<and> malloc_end st = adr (S + total bs) \<and> headers (view st) S bs \<and>
    linked (view st) (malloc_freelist st) (frees S bs) 0"

text \<open>The words of the blocks in use, headers included, are the same.\<close>

definition keeps :: "nat \<Rightarrow> blocks \<Rightarrow> malloc_state \<Rightarrow> malloc_state \<Rightarrow> bool" where
  "keeps S bs st st' \<longleftrightarrow> (\<forall>(a, n) \<in> set (useds S bs). \<forall>k. a \<le> k \<and> k < a + n \<longrightarrow> view st' k = view st k)"

lemma headers_append: "headers V S (bs @ cs) \<longleftrightarrow> headers V S bs \<and> headers V (S + total bs) cs"
  by (auto simp: headers_def)

lemma headers_Nil [simp]: "headers V S []"
  by (simp add: headers_def)

lemma headers_Cons [simp]: "headers V S ((n, u) # bs) \<longleftrightarrow> V S = adr n \<and> headers V (S + n) bs"
  by (simp add: headers_def)

lemma headers_frame: "headers V S bs \<Longrightarrow> \<forall>(a, n) \<in> set (heads S bs). V' a = V a \<Longrightarrow> headers V' S bs"
  by (fastforce simp: headers_def)

lemma fine_append: "fine S (bs @ cs) \<Longrightarrow> fine S bs \<and> fine (S + total bs) cs"
  by (auto simp: fine_def)

lemma heap_fine: "heap_ok S bs st \<Longrightarrow> fine S bs"
  by (simp add: heap_ok_def)

lemma fine_sizes: "fine S bs \<Longrightarrow> \<forall>b \<in> set bs. 2 \<le> fst b"
  by (simp add: fine_def)

lemma free_words: "fine S bs \<Longrightarrow> f \<in> set (frees S bs) \<Longrightarrow> 0 < f \<and> f + 1 < words"
  using frees_range[of f S bs] by (auto simp: fine_def)

lemma head_words: "fine S bs \<Longrightarrow> (a, n) \<in> set (heads S bs) \<Longrightarrow> 0 < a \<and> a + n < words"
  using heads_range[of a n S bs] by (auto simp: fine_def)

lemma get_lnk_heap:
  assumes "heap_ok S bs st" "frees S bs = fs @ gs"
  shows "get_link st (lnk fs) = (case gs of [] \<Rightarrow> 0 | g # _ \<Rightarrow> adr g)"
proof -
  obtain y where y: "linked (view st) (malloc_freelist st) fs y" "linked (view st) y gs 0"
    using assms by (auto simp: heap_ok_def linked_append)
  have "get_link st (lnk fs) = y"
    by (rule get_lnk[OF y(1)]) (use assms free_words[OF heap_fine[OF assms(1)]] in auto)
  then show ?thesis using y(2) by (cases gs) auto
qed

section \<open>malloc on blocks\<close>

lemma malloc_search_blocks:
  assumes "heap_ok S bs st" "frees S bs = fs @ gs" "\<forall>f \<in> set fs. view st f < adr r"
  shows "(\<forall>f \<in> set (frees S bs). view st f < adr r) \<and>
      malloc_search limit (adr r) (lnk fs) st = Some (malloc_new limit (adr r) st) \<or>
    (\<exists>fs' f gs'. frees S bs = fs' @ f # gs' \<and> adr r \<le> view st f \<and>
      malloc_search limit (adr r) (lnk fs) st = Some (malloc_take (adr r) (lnk fs') st)) \<or>
    (\<exists>fs' f. frees S bs = fs' @ [f] \<and> malloc_end st = adr f + view st f \<and> (\<forall>f \<in> set (frees S bs). view st f < adr r) \<and>
      malloc_search limit (adr r) (lnk fs) st = Some (malloc_enlarge limit (adr r) (lnk fs') st))"
  using assms(2,3)
proof (induction gs arbitrary: fs)
  case Nil
  then show ?case using get_lnk_heap[OF assms(1), of fs "[]"]
    by (subst malloc_search.simps) (simp add: malloc_search.simps)
next
  case (Cons g gs)
  have g: "get_link st (lnk fs) = adr g" using get_lnk_heap[OF assms(1) Cons.prems(1)] by simp
  have w: "0 < g \<and> g + 1 < words" by (rule free_words[OF heap_fine[OF assms(1)]]) (simp add: Cons.prems)
  then have nz: "adr g \<noteq> 0" using adr_inj[of g 0] by (simp add: adr_4)
  have nx: "fle_next st (adr g) = (case gs of [] \<Rightarrow> 0 | x # _ \<Rightarrow> adr x)"
    using get_lnk_heap[OF assms(1), of "fs @ [g]" gs] Cons.prems by (simp add: lnk_snoc get_link_def)
  have sz: "fle_size st (adr g) = view st g" using w by (simp add: fle_view)
  show ?case
  proof (cases "adr r \<le> view st g")
    case True
    then have "malloc_search limit (adr r) (lnk fs) st = Some (malloc_take (adr r) (lnk fs) st)"
      using nz by (subst malloc_search.simps) (simp add: g sz)
    then show ?thesis using True Cons.prems by blast
  next
    case False
    then have small: "\<forall>f \<in> set (fs @ [g]). view st f < adr r" using Cons.prems(2) by auto
    show ?thesis
    proof (cases "gs = [] \<and> malloc_end st = adr g + view st g")
      case True
      then have "malloc_search limit (adr r) (lnk fs) st = Some (malloc_enlarge limit (adr r) (lnk fs) st)"
        using nz nx False by (subst malloc_search.simps) (simp add: g sz)
      then show ?thesis using True small Cons.prems by auto
    next
      case more: False
      have ne: "fle_next st (adr g) \<noteq> 0" if "gs \<noteq> []"
      proof -
        obtain x xs where x: "gs = x # xs" using \<open>gs \<noteq> []\<close> by (cases gs) auto
        then have "0 < x \<and> x + 1 < words"
          by (intro free_words[OF heap_fine[OF assms(1)]]) (simp add: Cons.prems)
        then show ?thesis using nx x adr_inj[of x 0] by (simp add: adr_4)
      qed
      then have "malloc_search limit (adr r) (lnk fs) st = malloc_search limit (adr r) (lnk (fs @ [g])) st"
        using nz False more by (subst malloc_search.simps) (auto simp: g sz lnk_snoc)
      then show ?thesis using Cons.IH[of "fs @ [g]"] Cons.prems small by simp
    qed
  qed
qed

text \<open>Redirecting the end of a part of the free list\<close>

lemma set_lnk_heap:
  assumes "heap_ok S bs st" "frees S bs = fs @ gs"
  shows "linked (view (set_link (lnk fs) x st)) (malloc_freelist (set_link (lnk fs) x st)) fs x"
    and "headers (view (set_link (lnk fs) x st)) S bs"
    and "\<forall>g \<in> set gs. view (set_link (lnk fs) x st) (g + 1) = view st (g + 1)"
    and "keeps S bs st (set_link (lnk fs) x st)"
    and "(a, n) \<in> set (useds S bs) \<Longrightarrow> a \<le> k \<Longrightarrow> k < a + n \<Longrightarrow> view (set_link (lnk fs) x st) k = view st k"
proof -
  have fine: "fine S bs" using assms(1) by (rule heap_fine)
  have w: "\<forall>f \<in> set fs. f + 1 < words" using free_words[OF fine] assms(2) by auto
  have d: "distinct (fs @ gs)" using frees_distinct[OF fine_sizes[OF fine], of S] assms(2) by simp
  obtain y where y: "linked (view st) (malloc_freelist st) fs y" using assms by (auto simp: heap_ok_def linked_append)
  show "linked (view (set_link (lnk fs) x st)) (malloc_freelist (set_link (lnk fs) x st)) fs x"
    by (rule linked_set_lnk[OF y w]) (use d in simp)
  have l: "last fs \<in> set (frees S bs)" if "fs \<noteq> []" using that assms(2) by simp
  have v: "view (set_link (lnk fs) x st) k = view st k" if "fs = [] \<or> k \<noteq> last fs + 1" for k
    using view_set_lnk[OF w, of x st] that by auto
  show "headers (view (set_link (lnk fs) x st)) S bs"
  proof (rule headers_frame)
    show "headers (view st) S bs" using assms(1) by (simp add: heap_ok_def)
    show "\<forall>(a, n) \<in> set (heads S bs). view (set_link (lnk fs) x st) a = view st a"
      using v free_head[OF l fine_sizes[OF fine]] by blast
  qed
  show "\<forall>g \<in> set gs. view (set_link (lnk fs) x st) (g + 1) = view st (g + 1)"
    using d v by (metis Un_iff add_right_cancel disjoint_iff distinct_append last_in_set)
  show u: "view (set_link (lnk fs) x st) k = view st k" if "(a, n) \<in> set (useds S bs)" "a \<le> k" "k < a + n" for a n k
  proof (rule v, cases "fs = []")
    case False
    from free_used[OF l[OF False] fine_sizes[OF fine] that(1)] show "fs = [] \<or> k \<noteq> last fs + 1" using that(2,3) by auto
  qed simp
  show "keeps S bs st (set_link (lnk fs) x st)" using u by (auto simp: keeps_def)
qed

text \<open>What the operations establish: the block \<open>(a, n)\<close> is new among the blocks in use.\<close>

definition allocates :: "nat \<Rightarrow> blocks \<Rightarrow> malloc_state \<Rightarrow> nat \<Rightarrow> nat \<Rightarrow> blocks \<Rightarrow> malloc_state \<Rightarrow> bool" where
  "allocates S bs st a n bs' st' \<longleftrightarrow> heap_ok S bs' st' \<and> keeps S bs st st' \<and>
    set (useds S bs') = insert (a, n) (set (useds S bs)) \<and>
    (\<forall>(b, m) \<in> set (useds S bs). b + m \<le> a \<or> a + n \<le> b)"

lemma block_apart: "(b, m) \<in> set (useds S (pre @ (n, False) # post)) \<Longrightarrow>
    b + m \<le> S + total pre \<or> S + total pre + n \<le> b"
  using useds_range[of b m S pre] useds_range[of b m "S + total pre + n" post] by auto

lemma fine_block: "fine S (pre @ (n, u) # post) \<Longrightarrow>
    0 < S \<and> 2 \<le> n \<and> S + total pre + n + total post < words \<and> S + total pre + 1 < words"
  by (auto simp: fine_def)

lemma malloc_take_exact:
  assumes "heap_ok S (pre @ (n, False) # post) st" "r \<le> n" "n < r + 2" "r + 2 < words"
  defines "f \<equiv> S + total pre"
  shows "malloc_take (adr r) (lnk (frees S pre)) st = (adr (f + 1), set_link (lnk (frees S pre)) (view st (f + 1)) st) \<and>
    allocates S (pre @ (n, False) # post) st f n (pre @ (n, True) # post) (set_link (lnk (frees S pre)) (view st (f + 1)) st)"
proof -
  let ?bs = "pre @ (n, False) # post"
  let ?st = "set_link (lnk (frees S pre)) (view st (f + 1)) st"
  have fr: "frees S ?bs = frees S pre @ f # frees (f + n) post" by (simp add: f_def)
  have w: "0 < S \<and> 2 \<le> n \<and> f + n + total post < words \<and> f + 1 < words"
    using fine_block[OF heap_fine[OF assms(1)]] by (simp add: f_def)
  have g: "get_link st (lnk (frees S pre)) = adr f" using get_lnk_heap[OF assms(1) fr] by simp
  have v: "view st f = adr n" using assms(1) by (auto simp: heap_ok_def headers_append f_def)
  have "malloc_take (adr r) (lnk (frees S pre)) st = (adr (f + 1), ?st)"
    using w assms(2-4) by (simp add: malloc_take_def Let_def g fle_view v adr_4 adr_add adr_less)
  moreover have "heap_ok S (pre @ (n, True) # post) ?st"
  proof -
    have l: "linked (view st) (view st (f + 1)) (frees (f + n) post) 0"
      using assms(1) fr by (auto simp: heap_ok_def linked_append)
    have "linked (view ?st) (view st (f + 1)) (frees (f + n) post) 0"
      by (rule linked_frame[OF l]) (use set_lnk_heap(3)[OF assms(1) fr, of "view st (f + 1)"] in auto)
    then have "linked (view ?st) (malloc_freelist ?st) (frees S (pre @ (n, True) # post)) 0"
      using set_lnk_heap(1)[OF assms(1) fr, of "view st (f + 1)"] by (auto simp: linked_append f_def)
    moreover have "headers (view ?st) S (pre @ (n, True) # post)"
      using set_lnk_heap(2)[OF assms(1) fr, of "view st (f + 1)"] by (simp add: headers_append)
    ultimately show ?thesis using assms(1) by (auto simp: heap_ok_def fine_def)
  qed
  ultimately show ?thesis
    using set_lnk_heap(4)[OF assms(1) fr, of "view st (f + 1)"] block_apart[of _ _ S pre n post]
    by (auto simp: allocates_def f_def)
qed

lemma malloc_take_split:
  assumes "heap_ok S (pre @ (n, False) # post) st" "r + 2 \<le> n" "2 \<le> r"
  defines "f \<equiv> S + total pre"
  shows "\<exists>st'. malloc_take (adr r) (lnk (frees S pre)) st = (adr (f + 1), st') \<and>
    allocates S (pre @ (n, False) # post) st f r (pre @ (r, True) # (n - r, False) # post) st'"
proof -
  let ?bs = "pre @ (n, False) # post"
  let ?st1 = "set_link (lnk (frees S pre)) (adr (f + r)) st"
  let ?st2 = "set_next (adr (f + r)) (view st (f + 1)) (set_size (adr (f + r)) (adr (n - r)) ?st1)"
  let ?st = "set_size (adr f) (adr r) ?st2"
  have fr: "frees S ?bs = frees S pre @ f # frees (f + n) post" by (simp add: f_def)
  have w: "0 < S \<and> 2 \<le> n \<and> f + n + total post < words \<and> f + 1 < words"
    using fine_block[OF heap_fine[OF assms(1)]] by (simp add: f_def)
  have g: "get_link st (lnk (frees S pre)) = adr f" using get_lnk_heap[OF assms(1) fr] by simp
  have v: "view st f = adr n" using assms(1) by (auto simp: heap_ok_def headers_append f_def)
  have "malloc_take (adr r) (lnk (frees S pre)) st = (adr (f + 1), ?st)"
    using w assms(2,3) by (simp add: malloc_take_def malloc_done_def Let_def g fle_view v adr_4 adr_add adr_less adr_diff)
  moreover have vw: "view ?st = (view ?st1)(f + r := adr (n - r), f + r + 1 := view st (f + 1), f := adr r)"
    using w assms(2,3) by simp
  note low = heads_range[of _ _ S pre] and high = heads_range[of _ _ "f + n" post]
  have sz: "\<forall>b \<in> set pre. 2 \<le> fst b" "\<forall>b \<in> set post. 2 \<le> fst b"
    using assms(1) by (auto simp: heap_ok_def fine_def)
  have "heap_ok S (pre @ (r, True) # (n - r, False) # post) ?st"
  proof -
    have h: "headers (view ?st1) S pre" "headers (view ?st1) (f + n) post"
      using set_lnk_heap(2)[OF assms(1) fr, of "adr (f + r)"] by (simp_all add: headers_append f_def)
    have lt: "a < f" if "(a, m) \<in> set (heads S pre)" for a m
      using low[OF that] head_size[OF that sz(1)] by (simp add: f_def)
    have "headers (view ?st) S pre"
      by (rule headers_frame[OF h(1)]) (unfold vw, auto dest!: lt)
    moreover have "headers (view ?st) (f + n) post"
      by (rule headers_frame[OF h(2)]) (unfold vw, use high assms(2,3) in fastforce)
    moreover have l: "linked (view st) (view st (f + 1)) (frees (f + n) post) 0"
      using assms(1) fr by (auto simp: heap_ok_def linked_append)
    have "linked (view ?st) (view st (f + 1)) (frees (f + n) post) 0"
    proof (rule linked_frame[OF l], rule ballI)
      fix x assume x: "x \<in> set (frees (f + n) post)"
      then have "view ?st1 (x + 1) = view st (x + 1)" using set_lnk_heap(3)[OF assms(1) fr, of "adr (f + r)"] by simp
      then show "view ?st (x + 1) = view st (x + 1)" unfolding vw using frees_range[OF x sz(2)] assms(2,3) by simp
    qed
    moreover have "linked (view ?st) (malloc_freelist ?st) (frees S pre) (adr (f + r))"
    proof -
      have "linked (view ?st) (malloc_freelist ?st1) (frees S pre) (adr (f + r))"
      proof (rule linked_frame[OF set_lnk_heap(1)[OF assms(1) fr]], rule ballI)
        fix x assume "x \<in> set (frees S pre)"
        then show "view ?st (x + 1) = view ?st1 (x + 1)" unfolding vw using frees_range[of x S pre] sz(1) by (auto simp: f_def)
      qed
      then show ?thesis by simp
    qed
    ultimately show ?thesis using assms w
      by (auto simp: heap_ok_def fine_def headers_append linked_append vw f_def add.assoc)
  qed
  moreover have "keeps S ?bs st ?st"
    unfolding keeps_def
  proof (intro ballI, clarify)
    fix a m k assume u: "(a, m) \<in> set (useds S ?bs)" "a \<le> k" "k < a + m"
    then have "view ?st1 k = view st k" by (rule set_lnk_heap(5)[OF assms(1) fr])
    then show "view ?st k = view st k" unfolding vw using block_apart[OF u(1)] u(2,3) assms(2,3) by (auto simp: f_def)
  qed
  moreover have "b + m \<le> f \<or> f + r \<le> b" if "(b, m) \<in> set (useds S ?bs)" for b m
    using block_apart[OF that] assms(2) by (auto simp: f_def)
  ultimately show ?thesis using assms(2) by (auto simp: allocates_def f_def add.assoc)
qed

lemma can_alloc_heap:
  assumes "malloc_end st = adr e" "e < words" "4 * e + 32 \<le> unat limit" "r < words"
  shows "CAN_ALLOC_P limit st (adr r) \<longleftrightarrow> 4 * (e + r) + 32 \<le> unat limit"
proof -
  have "adr (e + 8) \<le> limit" using assms(3) unsigned_less[of limit, where ?'a = nat]
    by (simp add: word_le_nat_alt unat_adr)
  then have u: "unat (limit - adr (e + 8)) = unat limit - 4 * (e + 8)"
    using assms(3) unsigned_less[of limit, where ?'a = nat] by (simp add: unat_sub unat_adr)
  have l: "limit - malloc_end st - 32 = limit - adr (e + 8)"
    by (simp add: assms(1) adr_4 adr_add[symmetric])
  show ?thesis
    using assms(3) unfolding CAN_ALLOC_P_def l word_le_nat_alt unat_adr[OF assms(4)] u by auto
qed

lemma limit_words: "4 * k + 32 \<le> unat (limit :: u32) \<Longrightarrow> k < words"
  using unsigned_less[of limit, where ?'a = nat] by simp

lemma allocates_last:
  assumes "heap_ok S (pre @ old) st" "old = [] \<or> (\<exists>n. old = [(n, False)] \<and> n \<le> r)" "2 \<le> r"
    and "S + total pre + r < words"
    and "linked (view st1) (malloc_freelist st1) (frees S pre) 0" "headers (view st1) S pre" "keeps S (pre @ old) st st1"
    and "malloc_end st1 = adr (S + total pre + r)"
  shows "allocates S (pre @ old) st (S + total pre) r (pre @ [(r, True)]) (set_size (adr (S + total pre)) (adr r) st1)"
proof -
  let ?f = "S + total pre"
  have v: "view (set_size (adr ?f) (adr r) st1) = (view st1)(?f := adr r)" using assms(4) by simp
  have pre: "fine S pre" using fine_append[of S pre old] heap_fine[OF assms(1)] by simp
  have sz: "\<forall>b \<in> set pre. 2 \<le> fst b" using pre by (rule fine_sizes)
  have lt: "a < ?f" if "(a, m) \<in> set (heads S pre)" for a m
    using heads_range[OF that] head_size[OF that sz] by simp
  have us: "useds S (pre @ old) = useds S pre" "useds S (pre @ [(r, True)]) = useds S pre @ [(?f, r)]"
    "frees S (pre @ [(r, True)]) = frees S pre" using assms(2) by auto
  have "headers ((view st1)(?f := adr r)) S pre"
    by (rule headers_frame[OF assms(6)]) (auto dest!: lt)
  moreover have "linked ((view st1)(?f := adr r)) (malloc_freelist st1) (frees S pre) 0"
  proof (rule linked_frame[OF assms(5)], rule ballI)
    fix x assume "x \<in> set (frees S pre)"
    then show "((view st1)(?f := adr r)) (x + 1) = view st1 (x + 1)" using frees_range[of x S pre] sz by auto
  qed
  ultimately have "heap_ok S (pre @ [(r, True)]) (set_size (adr ?f) (adr r) st1)"
    unfolding heap_ok_def v us using assms(3,4,8) pre by (simp add: fine_def headers_append add.assoc)
  moreover have "keeps S (pre @ old) st (set_size (adr ?f) (adr r) st1)"
    unfolding keeps_def
  proof (intro ballI, clarify)
    fix a n k assume u: "(a, n) \<in> set (useds S (pre @ old))" "a \<le> k" "k < a + n"
    then have "view st1 k = view st k" using assms(7) by (auto simp: keeps_def)
    moreover have "k < ?f" using useds_range[of a n S pre] u us(1) by auto
    ultimately show "view (set_size (adr ?f) (adr r) st1) k = view st k" by (simp add: v)
  qed
  ultimately show ?thesis
    unfolding allocates_def us using useds_range[of _ _ S pre] by auto
qed

text \<open>Free blocks next to each other do not occur.\<close>

definition coalesced :: "blocks \<Rightarrow> bool" where
  "coalesced bs \<longleftrightarrow> successively (\<lambda>x y. snd x \<or> snd y) bs"

text \<open>malloc either returns null and changes nothing, or allocates; null only when nothing fits.\<close>

lemma malloc_blocks:
  assumes "heap_ok S bs st" "2 \<le> r" "r + 2 < words" "4 * (S + total bs) + 32 \<le> unat limit"
  shows "\<exists>p st'. malloc_search limit (adr r) Freelist st = Some (p, st') \<and>
    (p = 0 \<and> st' = st \<and> unat limit < 4 * (S + total bs + r) + 32 \<and> (\<forall>f \<in> set (frees S bs). view st f < adr r) \<or>
     (\<exists>a n bs'. p = adr (a + 1) \<and> r \<le> n \<and> allocates S bs st a n bs' st' \<and>
       4 * (S + total bs') + 32 \<le> unat limit \<and> (coalesced bs \<longrightarrow> coalesced bs')))"
proof -
  have fine: "fine S bs" and e: "malloc_end st = adr (S + total bs)" using assms(1) by (simp_all add: heap_ok_def)
  have result: ?thesis if "malloc_search limit (adr r) Freelist st = Some (adr (a + 1), st')" "r \<le> n"
      "allocates S bs st a n bs' st'" "4 * (S + total bs') + 32 \<le> unat limit" "coalesced bs \<longrightarrow> coalesced bs'" for a n bs' st'
    using that by blast
  note co = coalesced_def successively_append_iff successively_Cons
  have "lnk [] = Freelist" by (simp add: lnk_def)
  with malloc_search_blocks[OF assms(1), of "[]" "frees S bs" r limit]
  consider
      (new) "\<forall>f \<in> set (frees S bs). view st f < adr r" "malloc_search limit (adr r) Freelist st = Some (malloc_new limit (adr r) st)"
    | (take) fs f gs where "frees S bs = fs @ f # gs" "adr r \<le> view st f"
        "malloc_search limit (adr r) Freelist st = Some (malloc_take (adr r) (lnk fs) st)"
    | (enlarge) fs f where "frees S bs = fs @ [f]" "malloc_end st = adr f + view st f" "\<forall>f \<in> set (frees S bs). view st f < adr r"
        "malloc_search limit (adr r) Freelist st = Some (malloc_enlarge limit (adr r) (lnk fs) st)"
    by auto
  then show ?thesis
  proof cases
    case new
    have c: "CAN_ALLOC_P limit st (adr r) \<longleftrightarrow> 4 * (S + total bs + r) + 32 \<le> unat limit"
      by (rule can_alloc_heap[OF e]) (use fine assms in \<open>auto simp: fine_def\<close>)
    show ?thesis
    proof (cases "CAN_ALLOC_P limit st (adr r)")
      case True
      have "allocates S (bs @ []) st (S + total bs) r (bs @ [(r, True)]) (set_size (adr (S + total bs)) (adr r)
          (st\<lparr>malloc_end := adr (S + total bs + r)\<rparr>))"
        by (rule allocates_last)
          (use assms c True limit_words[of "S + total bs + r" limit] in \<open>auto simp: heap_ok_def keeps_def\<close>)
      moreover have "malloc_new limit (adr r) st = (adr (S + total bs + 1), set_size (adr (S + total bs)) (adr r)
          (st\<lparr>malloc_end := adr (S + total bs + r)\<rparr>))"
        using True by (simp add: malloc_new_def malloc_done_def Let_def e adr_4 adr_add)
      ultimately show ?thesis using new c True
        by (intro result[of "S + total bs" _ r "bs @ [(r, True)]"]) (auto simp: add.assoc co)
    next
      case False
      then show ?thesis using new c by (simp add: malloc_new_def)
    qed
  next
    case take
    obtain pre n post where b: "bs = pre @ (n, False) # post" "frees S pre = fs" "f = S + total pre"
      using frees_split[OF take(1)] by blast
    have v: "view st f = adr n" using assms(1) by (auto simp: heap_ok_def headers_append b)
    have "n < words" using fine b by (simp add: fine_def)
    then have rn: "r \<le> n" using take(2) assms(3) by (simp add: v adr_le)
    have tot: "total (pre @ (n, True) # post) = total bs" "r + 2 \<le> n \<Longrightarrow> total (pre @ (r, True) # (n - r, False) # post) = total bs"
      using rn by (simp_all add: b)
    show ?thesis
    proof (cases "r + 2 \<le> n")
      case True
      obtain st' where st': "malloc_take (adr r) (lnk fs) st = (adr (f + 1), st')"
          "allocates S bs st f r (pre @ (r, True) # (n - r, False) # post) st'"
        using malloc_take_split[of S pre n post st r] assms(1,2) True b by auto
      show ?thesis by (rule result[OF _ _ st'(2)]) (use st'(1) take(3) tot(2)[OF True] assms(4) in \<open>auto simp: co b\<close>)
    next
      case False
      then obtain st' where st': "malloc_take (adr r) (lnk fs) st = (adr (f + 1), st')"
          "allocates S bs st f n (pre @ (n, True) # post) st'"
        using malloc_take_exact[of S pre n post st r] assms(1,3) rn b by auto
      show ?thesis by (rule result[OF _ rn st'(2)]) (use st'(1) take(3) tot(1) assms(4) in \<open>auto simp: co b\<close>)
    qed
  next
    case enlarge
    obtain pre n post where b: "bs = pre @ (n, False) # post" "frees S pre = fs" "f = S + total pre"
      using frees_split[of S bs fs f "[]"] enlarge(1) by auto
    have v: "view st f = adr n" using assms(1) by (auto simp: heap_ok_def headers_append b)
    have w: "S + total bs < words" "2 \<le> n" using fine b by (auto simp: fine_def)
    have "adr (S + total bs) = adr (f + n)" using enlarge(2) e by (simp add: v adr_add)
    then have "S + total bs = f + n" using w b adr_inj[of "S + total bs" "f + n"] by simp
    moreover have "\<forall>c \<in> set post. 2 \<le> fst c" using fine b by (auto simp: fine_def)
    ultimately have post: "post = []" using b by (cases post) auto
    have nr: "n < r" using enlarge(1,3) v w assms(3) adr_less[of n r] b post by auto
    have g: "get_link st (lnk fs) = adr f" using get_lnk_heap[OF assms(1) enlarge(1)] by simp
    have sz: "fle_size st (adr f) = adr n" using w b v by (simp add: fle_view)
    have c: "CAN_ALLOC_P limit st (adr (r - n)) \<longleftrightarrow> 4 * (f + r) + 32 \<le> unat limit"
      using can_alloc_heap[OF e w(1) assms(4), of "r - n"] assms(3) nr b post by (simp add: add.assoc)
    show ?thesis
    proof (cases "CAN_ALLOC_P limit st (adr (r - n))")
      case True
      let ?st1 = "(set_link (lnk fs) 0 st)\<lparr>malloc_end := adr (f + r)\<rparr>"
      have fr: "frees S (pre @ [(n, False)]) = frees S pre @ [f]" by (simp add: b)
      have h: "heap_ok S (pre @ [(n, False)]) st" using assms(1) b post by simp
      have "allocates S (pre @ [(n, False)]) st (S + total pre) r (pre @ [(r, True)]) (set_size (adr (S + total pre)) (adr r) ?st1)"
      proof (rule allocates_last[OF h])
        show "linked (view ?st1) (malloc_freelist ?st1) (frees S pre) 0"
          using set_lnk_heap(1)[OF h fr, of 0] b by simp
        show "headers (view ?st1) S pre" using set_lnk_heap(2)[OF h fr, of 0] b by (simp add: headers_append)
        show "keeps S (pre @ [(n, False)]) st ?st1" using set_lnk_heap(4)[OF h fr, of 0] b by (simp add: keeps_def)
      qed (use nr assms(2) c True limit_words[of "f + r" limit] b in auto)
      moreover have "malloc_enlarge limit (adr r) (lnk fs) st = (adr (f + 1), set_size (adr f) (adr r) ?st1)"
        using True nr by (simp add: malloc_enlarge_def malloc_done_def Let_def g sz adr_diff adr_4 adr_add)
      ultimately show ?thesis using enlarge(4) c True b post
        by (intro result[of f _ r "pre @ [(r, True)]"]) (auto simp: add.assoc co)
    next
      case False
      then have "malloc_enlarge limit (adr r) (lnk fs) st = (0, st)"
        using nr by (simp add: malloc_enlarge_def Let_def g sz adr_diff)
      then show ?thesis using enlarge(3,4) False c b post nr by auto
    qed
  qed
qed

section \<open>free on blocks\<close>

text \<open>A free block of \<open>k\<close> words between the blocks \<open>pre\<close> and \<open>post\<close>, from a state with the same \<open>post\<close>\<close>

lemma put_free:
  assumes "fine S (pre @ (k, False) # post)" "headers (view st') S pre" "headers (view st) (S + total pre + k) post"
    and "linked (view st') (malloc_freelist st') (frees S pre) (adr (S + total pre))"
    and "linked (view st) x (frees (S + total pre + k) post) 0"
    and "\<forall>j \<ge> S + total pre + k. view st' j = view st j"
    and "view st' (S + total pre) = adr k" "view st' (S + total pre + 1) = x"
    and "malloc_end st' = adr (S + total pre + k + total post)"
  shows "heap_ok S (pre @ (k, False) # post) st'"
proof -
  have sz: "\<forall>b \<in> set post. 2 \<le> fst b" using assms(1) by (auto simp: fine_def)
  have "headers (view st') (S + total pre + k) post"
    by (rule headers_frame[OF assms(3)]) (use assms(6) heads_range[of _ _ "S + total pre + k" post] in fastforce)
  moreover have "linked (view st') x (frees (S + total pre + k) post) 0"
  proof (rule linked_frame[OF assms(5)], rule ballI)
    fix f assume "f \<in> set (frees (S + total pre + k) post)"
    from frees_range[OF this sz] show "view st' (f + 1) = view st (f + 1)" using assms(6) by auto
  qed
  ultimately show ?thesis
    using assms(1,2,4,7-9) by (auto simp: heap_ok_def headers_append linked_append add.assoc)
qed

lemma heap_parts:
  assumes "heap_ok S (pre @ (n, u) # post) st"
  shows "view st (S + total pre) = adr n" "headers (view st) S pre" "headers (view st) (S + total pre + n) post"
    "malloc_end st = adr (S + total pre + n + total post)" "fine S (pre @ (n, u) # post)"
  using assms by (auto simp: heap_ok_def headers_append add.assoc)

text \<open>Extending a free block over the blocks \<open>mid\<close> that follow it\<close>

lemma extend_free:
  assumes "heap_ok S (pre @ (m, False) # mid @ post) st" "k = m + total mid"
    and "view st' = (view st)(S + total pre := adr k, S + total pre + 1 := x)"
    and "malloc_end st' = malloc_end st" "malloc_freelist st' = malloc_freelist st"
    and "linked (view st) x (frees (S + total pre + k) post) 0"
  shows "heap_ok S (pre @ (k, False) # post) st'"
proof (rule put_free[where st = st and x = x])
  let ?f = "S + total pre"
  have fine: "fine S (pre @ (m, False) # mid @ post)" using assms(1) by (rule heap_fine)
  then show "fine S (pre @ (k, False) # post)" by (auto simp: fine_def assms(2))
  have sz: "\<forall>b \<in> set pre. 2 \<le> fst b" and k: "2 \<le> k" using fine by (auto simp: fine_def assms(2))
  show "headers (view st') S pre"
  proof (rule headers_frame[OF heap_parts(2)[OF assms(1)]], clarify)
    fix a n assume a: "(a, n) \<in> set (heads S pre)"
    then show "view st' a = view st a" using heads_range[OF a] head_size[OF a sz] by (simp add: assms(3))
  qed
  show "headers (view st) (?f + k) post" using heap_parts(3)[OF assms(1)] by (simp add: headers_append assms(2) add.assoc)
  have "linked (view st) (malloc_freelist st) (frees S pre) (adr ?f)"
    using assms(1) by (auto simp: heap_ok_def linked_append)
  then have "linked (view st') (malloc_freelist st) (frees S pre) (adr ?f)"
  proof (rule linked_frame, intro ballI)
    fix x assume "x \<in> set (frees S pre)"
    then show "view st' (x + 1) = view st (x + 1)" using frees_range[of x S pre] sz by (auto simp: assms(3))
  qed
  then show "linked (view st') (malloc_freelist st') (frees S pre) (adr ?f)" by (simp add: assms(5))
  show "\<forall>j \<ge> ?f + k. view st' j = view st j" using k by (simp add: assms(3))
  show "malloc_end st' = adr (?f + k + total post)" using heap_parts(4)[OF assms(1)] by (simp add: assms(2,4) add.assoc)
qed (use assms(3,6) in simp_all)

text \<open>Making a free block of the blocks \<open>mid\<close>\<close>

lemma insert_free:
  assumes "heap_ok S (pre @ mid @ post) st" "k = total mid" "mid \<noteq> []"
    and "view st1 = (view st)(S + total pre := adr k, S + total pre + 1 := x)"
    and "malloc_end st1 = malloc_end st" "malloc_freelist st1 = malloc_freelist st"
    and "linked (view st) x (frees (S + total pre + k) post) 0"
  shows "heap_ok S (pre @ (k, False) # post) (set_link (lnk (frees S pre)) (adr (S + total pre)) st1)"
proof (rule put_free[where st = st and x = x])
  let ?f = "S + total pre"
  let ?st = "set_link (lnk (frees S pre)) (adr ?f) st1"
  have fine: "fine S (pre @ mid @ post)" using assms(1) by (rule heap_fine)
  have k: "2 \<le> k" using fine assms(2,3) by (cases mid) (auto simp: fine_def)
  with fine show "fine S (pre @ (k, False) # post)" by (auto simp: fine_def assms(2))
  have sz: "\<forall>b \<in> set pre. 2 \<le> fst b" using fine by (auto simp: fine_def)
  have w: "\<forall>f \<in> set (frees S pre). f + 1 < ?f \<and> f + 1 < words"
    using frees_range[of _ S pre] sz fine by (fastforce simp: fine_def)
  then have w1: "\<forall>f \<in> set (frees S pre). f + 1 < words" by blast
  have v: "view ?st j = view st1 j" if "frees S pre = [] \<or> j \<noteq> last (frees S pre) + 1" for j
    using view_set_lnk[OF w1, of "adr ?f" st1] that by auto
  have hi: "view ?st j = view st1 j" if "?f \<le> j" for j
    by (rule v) (use w that in \<open>force dest: last_in_set\<close>)
  have h1: "headers (view st1) S pre"
  proof (rule headers_frame)
    show "headers (view st) S pre" using assms(1) by (simp add: heap_ok_def headers_append)
    show "\<forall>(a, n) \<in> set (heads S pre). view st1 a = view st a"
      using heads_range[of _ _ S pre] head_size[OF _ sz] by (fastforce simp: assms(4))
  qed
  show "headers (view ?st) S pre"
  proof (rule headers_frame[OF h1], clarify)
    fix a n assume "(a, n) \<in> set (heads S pre)"
    then show "view ?st a = view st1 a" using free_head[OF _ sz] by (intro v) (metis last_in_set)
  qed
  show "headers (view st) (?f + k) post" using assms(1) by (simp add: heap_ok_def headers_append assms(2))
  obtain y where "linked (view st) (malloc_freelist st) (frees S pre) y"
    using assms(1) by (auto simp: heap_ok_def linked_append)
  then have "linked (view st1) (malloc_freelist st1) (frees S pre) y"
    unfolding assms(6) by (rule linked_frame) (use w in \<open>auto simp: assms(4)\<close>)
  then show "linked (view ?st) (malloc_freelist ?st) (frees S pre) (adr ?f)"
    by (rule linked_set_lnk[OF _ w1 frees_distinct[OF sz]])
  show "\<forall>j \<ge> ?f + k. view ?st j = view st j" using hi k by (simp add: assms(4))
  show "view ?st ?f = adr k" "view ?st (?f + 1) = x" using hi[of ?f] hi[of "?f + 1"] by (simp_all add: assms(4))
  show "malloc_end ?st = adr (?f + k + total post)" using assms(1) by (simp add: heap_ok_def assms(2,5) add.assoc)
qed (rule assms(7))

lemma frees_block:
  assumes "heap_ok S bs st" "f \<in> set (frees S bs)"
  obtains pre n post where "bs = pre @ (n, False) # post" "f = S + total pre" "view st f = adr n"
proof -
  obtain fs gs where "frees S bs = fs @ f # gs" using split_list[OF assms(2)] by blast
  from frees_split[OF this] obtain pre n post where "bs = pre @ (n, False) # post" "f = S + total pre" by blast
  then show ?thesis using that heap_parts(1)[of S pre n False post st] assms(1) by simp
qed

lemma free_search_skip:
  assumes "heap_ok S bs st" "frees S bs = fs @ gs @ hs" "a < words"
    and "\<forall>f \<in> set gs. f < a \<and> view st f \<noteq> adr (a - f) \<and> adr f \<noteq> adr a + fle_size st (adr a)"
  shows "free_search (adr a) (lnk fs) st = free_search (adr a) (lnk (fs @ gs)) st"
  using assms(2,4)
proof (induction gs arbitrary: fs)
  case Nil then show ?case by simp
next
  case (Cons g gs)
  have g: "get_link st (lnk fs) = adr g" using get_lnk_heap[OF assms(1), of fs "g # gs @ hs"] Cons.prems(1) by simp
  have w: "0 < g \<and> g + 1 < words" by (rule free_words[OF heap_fine[OF assms(1)]]) (simp add: Cons.prems)
  have l: "g < a" "view st g \<noteq> adr (a - g)" "adr g \<noteq> adr a + fle_size st (adr a)" using Cons.prems(2) by auto
  have "adr g \<noteq> 0" using w adr_inj[of g 0] by (simp add: adr_4)
  moreover have "adr g + view st g \<noteq> adr a"
  proof
    assume "adr g + view st g = adr a"
    then have "view st g = adr a - adr g" by (metis add_diff_cancel_left')
    then show False using l adr_diff[of g a] by simp
  qed
  moreover have "\<not> adr g > adr a" using l(1) w assms(3) adr_less[of a g] by simp
  moreover have "fle_size st (adr g) = view st g" using w by (simp add: fle_view)
  ultimately have "free_search (adr a) (lnk fs) st = free_search (adr a) (lnk (fs @ [g])) st"
    using l(3) by (subst free_search.simps) (simp add: g lnk_snoc)
  then show ?case using Cons.IH[of "fs @ [g]"] Cons.prems by simp
qed

lemma useds_apart:
  "(a, n) \<in> set (useds S bs) \<Longrightarrow> (b, m) \<in> set (useds S bs) \<Longrightarrow> (a, n) \<noteq> (b, m) \<Longrightarrow> a + n \<le> b \<or> b + m \<le> a"
proof (induction bs arbitrary: S)
  case Nil then show ?case by simp
next
  case (Cons x bs)
  obtain k u where x: "x = (k, u)" by (cases x)
  show ?case using Cons useds_range[of _ _ "S + k" bs] x by (fastforce split: if_splits)
qed

definition releases :: "nat \<Rightarrow> blocks \<Rightarrow> malloc_state \<Rightarrow> nat \<Rightarrow> nat \<Rightarrow> blocks \<Rightarrow> malloc_state \<Rightarrow> bool" where
  "releases S bs st a n bs' st' \<longleftrightarrow> heap_ok S bs' st' \<and> total bs' = total bs \<and>
    set (useds S bs') = set (useds S bs) - {(a, n)} \<and>
    (\<forall>(b, m) \<in> set (useds S bs) - {(a, n)}. \<forall>k. b \<le> k \<and> k < b + m \<longrightarrow> view st' k = view st k)"

lemma useds_remove:
  "0 < n \<Longrightarrow> set (useds S (pre @ (n, True) # post)) - {(S + total pre, n)} =
    set (useds S pre) \<union> set (useds (S + total pre + n) post)"
  using useds_range[of "S + total pre" n S pre] useds_range[of "S + total pre" n "S + total pre + n" post] by auto

lemma next_free:
  assumes "heap_ok S (pre @ (m, False) # post) st" "f = S + total pre"
  shows "view st (f + 1) = (case frees (f + m) post of [] \<Rightarrow> 0 | g # _ \<Rightarrow> adr g)"
    and "linked (view st) (view st (f + 1)) (frees (f + m) post) 0"
proof -
  show l: "linked (view st) (view st (f + 1)) (frees (f + m) post) 0"
    using assms by (auto simp: heap_ok_def linked_append)
  then show "view st (f + 1) = (case frees (f + m) post of [] \<Rightarrow> 0 | g # _ \<Rightarrow> adr g)"
    by (cases "frees (f + m) post") auto
qed

lemma adr_nonzero: "0 < k \<Longrightarrow> k < words \<Longrightarrow> adr k \<noteq> 0"
  using adr_inj[of k 0] by (simp add: adr_4)

text \<open>Case 1: a free block ends where the block starts.\<close>

lemma free_after_blocks:
  assumes "heap_ok S (pre @ (m, False) # (n, True) # post) st"
  defines "f \<equiv> S + total pre"
  shows "\<exists>bs'. releases S (pre @ (m, False) # (n, True) # post) st (f + m) n bs' (free_after (adr f) (adr (f + m)) st) \<and>
    (coalesced (pre @ (m, False) # (n, True) # post) \<longrightarrow> coalesced bs')"
proof -
  let ?bs = "pre @ (m, False) # (n, True) # post"
  let ?a = "f + m"
  let ?st1 = "set_size (adr f) (adr (m + n)) st"
  have fine: "0 < S" "2 \<le> m" "2 \<le> n" "f + m + n + total post < words" "\<forall>b \<in> set post. 2 \<le> fst b" "\<forall>b \<in> set ?bs. 2 \<le> fst b"
    using heap_fine[OF assms(1)] by (auto simp: fine_def f_def)
  have V: "view st f = adr m" "view st ?a = adr n"
    using assms(1) by (auto simp: heap_ok_def headers_append f_def)
  have size: "fle_size st (adr f) + fle_size st (adr ?a) = adr (m + n)"
    using fine V by (simp add: fle_view adr_add)
  have nx: "fle_next ?st1 (adr f) = (case frees (?a + n) post of [] \<Rightarrow> 0 | g # _ \<Rightarrow> adr g)"
    using next_free(1)[OF assms(1) f_def[THEN meta_eq_to_obj_eq]] fine by (simp add: fle_view add.assoc)
  have bsz: "fle_size ?st1 (adr ?a) = adr n" using fine V by (simp add: fle_view)
  have l: "linked (view st) (view st (f + 1)) (frees (?a + n) post) 0"
    using next_free(2)[OF assms(1) f_def[THEN meta_eq_to_obj_eq]] by (simp add: add.assoc)
  have ff: "f \<in> set (frees S ?bs)" by (simp add: f_def)
  have rel: "releases S ?bs st ?a n bs' st'"
    if "heap_ok S bs' st'" "total bs' = total ?bs" "set (useds S bs') = set (useds S pre) \<union> set (useds (?a + n) post)"
      "\<forall>j. j \<noteq> f \<and> j \<noteq> f + 1 \<longrightarrow> view st' j = view st j" for bs' st'
  proof -
    have U: "set (useds S ?bs) - {(?a, n)} = set (useds S pre) \<union> set (useds (?a + n) post)"
      using useds_remove[of n S "pre @ [(m, False)]" post] fine by (simp add: f_def add.assoc)
    have K: "view st' k = view st k" if "(b, c) \<in> set (useds S ?bs)" "b \<le> k" "k < b + c" for b c k
      using free_used[OF ff fine(6) that(1)] that(2,3) \<open>\<forall>j. j \<noteq> f \<and> j \<noteq> f + 1 \<longrightarrow> view st' j = view st j\<close> by auto
    show ?thesis unfolding releases_def U[symmetric] using that(1-3) U K by blast
  qed
  show ?thesis
  proof (cases "\<exists>q post'. post = (q, False) # post'")
    case True
    then obtain q post' where post: "post = (q, False) # post'" by blast
    let ?k = "m + n + q"
    let ?st = "set_next (adr f) (view st (?a + n + 1)) (set_size (adr f) (adr ?k) ?st1)"
    have q: "2 \<le> q" "?a + n + q + total post' < words" using fine post by auto
    have Vq: "view st (?a + n) = adr q"
      using assms(1) post by (auto simp: heap_ok_def headers_append f_def add.assoc)
    have "free_after (adr f) (adr ?a) st = ?st"
      using fine q nx bsz Vq size adr_nonzero[of "?a + n"] post
      by (simp add: free_after_def Let_def adr_add fle_view add.assoc)
    moreover have "heap_ok S (pre @ (?k, False) # post') ?st"
    proof (rule extend_free[where m = m and mid = "[(n, True), (q, False)]" and st = st and x = "view st (?a + n + 1)"])
      show "linked (view st) (view st (?a + n + 1)) (frees (S + total pre + ?k) post') 0"
        using l post by (simp add: f_def add.assoc)
    qed (use assms(1) post fine in \<open>simp_all add: f_def add.assoc\<close>)
    moreover have "coalesced (pre @ (?k, False) # post')" if "coalesced ?bs"
      using that post by (auto simp: coalesced_def successively_append_iff successively_Cons)
    ultimately show ?thesis
      using rel[of "pre @ (?k, False) # post'" ?st] post fine by (intro exI[of _ "pre @ (?k, False) # post'"]) (simp add: f_def add.assoc)
  next
    case False
    have "\<not> (fle_next ?st1 (adr f) \<noteq> 0 \<and> adr ?a + fle_size ?st1 (adr ?a) = fle_next ?st1 (adr f))"
    proof (cases "frees (?a + n) post")
      case Nil then show ?thesis by (simp add: nx)
    next
      case (Cons g gs)
      have "g \<noteq> ?a + n"
      proof (cases post)
        case (Cons b post')
        then have "?a + n + fst b \<le> g" using False \<open>frees (?a + n) post = g # gs\<close> fine(5) frees_range[of g "?a + n + fst b" post'] by (cases b) auto
        then show ?thesis using fine(5) Cons by auto
      qed (use Cons in simp)
      moreover have "g < words" "?a + n < words" using frees_range[of g "?a + n" post] fine Cons by auto
      ultimately show ?thesis using Cons by (auto simp: nx bsz adr_add adr_inj)
    qed
    then have "free_after (adr f) (adr ?a) st = ?st1"
      unfolding free_after_def size Let_def by (rule if_not_P)
    moreover have "heap_ok S (pre @ (m + n, False) # post) ?st1"
    proof (rule extend_free[where m = m and mid = "[(n, True)]" and st = st and x = "view st (f + 1)"])
      show "linked (view st) (view st (f + 1)) (frees (S + total pre + (m + n)) post) 0" using l by (simp add: f_def add.assoc)
    qed (use assms(1) fine in \<open>simp_all add: f_def fun_eq_iff\<close>)
    moreover have "coalesced (pre @ (m + n, False) # post)" if "coalesced ?bs"
      using that False by (cases post) (auto simp: coalesced_def successively_append_iff successively_Cons)
    ultimately show ?thesis
      using rel[of "pre @ (m + n, False) # post" ?st1] fine by (intro exI[of _ "pre @ (m + n, False) # post"]) (simp add: f_def add.assoc)
  qed
qed

text \<open>Cases 2 and 3: the block becomes a free block of its own, with the free block after it if any.\<close>

lemma new_free_releases:
  assumes "heap_ok S (pre @ (n, True) # post) st" "mid = [] \<or> (\<exists>q. mid = [(q, False)])" "post = mid @ post'"
    and "k = n + total mid" "view st1 = (view st)(S + total pre := adr k, S + total pre + 1 := x)"
    and "malloc_end st1 = malloc_end st" "malloc_freelist st1 = malloc_freelist st"
    and "linked (view st) x (frees (S + total pre + k) post') 0"
  shows "releases S (pre @ (n, True) # post) st (S + total pre) n (pre @ (k, False) # post')
      (set_link (lnk (frees S pre)) (adr (S + total pre)) st1)"
proof -
  let ?bs = "pre @ (n, True) # post"
  let ?st = "set_link (lnk (frees S pre)) (adr (S + total pre)) st1"
  let ?a = "S + total pre"
  have fine: "\<forall>b \<in> set ?bs. 2 \<le> fst b" "fine S ?bs" "2 \<le> n"
    using heap_fine[OF assms(1)] by (auto simp: fine_def)
  have "heap_ok S (pre @ (k, False) # post') ?st"
    by (rule insert_free[where mid = "(n, True) # mid" and st = st and x = x]) (use assms in simp_all)
  moreover have "total (pre @ (k, False) # post') = total ?bs" by (simp add: assms(3,4))
  moreover have U: "set (useds S ?bs) - {(?a, n)} = set (useds S pre) \<union> set (useds (?a + n) post)"
    by (rule useds_remove) (use fine in simp)
  moreover have "set (useds S (pre @ (k, False) # post')) = set (useds S pre) \<union> set (useds (?a + n) post)"
    using assms(2) by (auto simp: assms(3,4) add.assoc)
  moreover have "view ?st j = view st j" if "(b, c) \<in> set (useds S ?bs) - {(?a, n)}" "b \<le> j" "j < b + c" for b c j
  proof -
    have "(b, c) \<in> set (useds S ?bs)" "(?a, n) \<in> set (useds S ?bs)" using that(1) by auto
    then have "b + c \<le> ?a \<or> ?a + n \<le> b" using useds_apart[of ?a n S ?bs b c] that(1) by auto
    then have "view st1 j = view st j" using that(2,3) fine(3) by (auto simp: assms(5))
    moreover have "view ?st j = view st1 j"
    proof (cases "frees S pre = []")
      case True then show ?thesis by (simp add: lnk_def set_link_def)
    next
      case False
      then have f: "last (frees S pre) \<in> set (frees S ?bs)" by simp
      then have "last (frees S pre) + 1 < words" using free_words[OF fine(2)] by blast
      moreover have "j \<noteq> last (frees S pre) + 1"
        using free_used[OF f fine(1) \<open>(b, c) \<in> set (useds S ?bs)\<close>] that(2,3) by auto
      ultimately show ?thesis using False by (simp add: lnk_def set_link_def)
    qed
    ultimately show ?thesis by simp
  qed
  ultimately show ?thesis unfolding releases_def by blast
qed

lemma free_before_blocks:
  assumes "heap_ok S (pre @ (n, True) # (q, False) # post) st"
  defines "a \<equiv> S + total pre"
  shows "releases S (pre @ (n, True) # (q, False) # post) st a n (pre @ (n + q, False) # post)
    (free_before (lnk (frees S pre)) (adr (a + n)) (adr a) st)"
proof -
  let ?st1 = "set_next (adr a) (view st (a + n + 1)) (set_size (adr a) (adr (n + q)) st)"
  have fine: "0 < S" "2 \<le> n" "2 \<le> q" "a + n + q + total post < words"
    using heap_fine[OF assms(1)] by (auto simp: fine_def a_def)
  have V: "view st a = adr n" "view st (a + n) = adr q"
    using assms(1) by (auto simp: heap_ok_def headers_append a_def add.assoc)
  have "free_before (lnk (frees S pre)) (adr (a + n)) (adr a) st = set_link (lnk (frees S pre)) (adr a) ?st1"
    using fine V by (simp add: free_before_def Let_def fle_view adr_add)
  moreover have "linked (view st) (view st (a + n + 1)) (frees (a + n + q) post) 0"
    using next_free(2)[of S "pre @ [(n, True)]" q post st "a + n"] assms(1) by (simp add: a_def add.assoc)
  ultimately show ?thesis
    using new_free_releases[OF assms(1), of "[(q, False)]" post "n + q" ?st1 "view st (a + n + 1)"] fine
    by (simp add: a_def add.assoc)
qed

lemma free_insert_blocks:
  assumes "heap_ok S (pre @ (n, True) # post) st"
  defines "a \<equiv> S + total pre"
  shows "releases S (pre @ (n, True) # post) st a n (pre @ (n, False) # post) (free_insert (lnk (frees S pre)) (adr a) st)"
proof -
  obtain x where x: "linked (view st) (malloc_freelist st) (frees S pre) x" "linked (view st) x (frees (a + n) post) 0"
    using assms(1) by (auto simp: heap_ok_def linked_append a_def)
  have fine: "2 \<le> n" "a + n + total post < words" using heap_fine[OF assms(1)] by (auto simp: fine_def a_def)
  have g: "get_link st (lnk (frees S pre)) = x"
    by (rule get_lnk[OF x(1)]) (use free_words[OF heap_fine[OF assms(1)]] in auto)
  have "view st a = adr n" using assms(1) by (auto simp: heap_ok_def headers_append a_def)
  then have "view (set_next (adr a) x st) = (view st)(a := adr n, a + 1 := x)" using fine by (simp add: fun_eq_iff)
  then show ?thesis
    using new_free_releases[OF assms(1), of "[]" post n "set_next (adr a) x st" x] x(2)
    by (simp add: free_insert_def g Let_def a_def)
qed

text \<open>free releases the block, joins it with the free blocks next to it, and changes no other block in use.\<close>

lemma free_blocks:
  assumes "heap_ok S bs st" "(a, n) \<in> set (useds S bs)"
  shows "\<exists>bs' st'. free (adr (a + 1)) st = Some st' \<and> releases S bs st a n bs' st' \<and> (coalesced bs \<longrightarrow> coalesced bs')"
proof -
  obtain pre post where b: "bs = pre @ (n, True) # post" "a = S + total pre"
    using assms(2)
  proof (induction bs arbitrary: S thesis)
    case Nil then show ?case by simp
  next
    case (Cons x bs)
    obtain m u where x: "x = (m, u)" by (cases x)
    show ?case
    proof (cases "u \<and> (a, n) = (S, m)")
      case True then show ?thesis using Cons.prems(1)[of "[]" bs] x by simp
    next
      case False
      then have "(a, n) \<in> set (useds (S + m) bs)" using Cons.prems(2) x by (auto split: if_splits)
      then show ?thesis using Cons.IH[of "S + m"] Cons.prems(1)[of "x # _"] x by (metis append_Cons add.assoc fst_conv total_simps(2))
    qed
  qed
  have fine: "0 < S" "2 \<le> n" "a + n + total post < words" "\<forall>c \<in> set pre. 2 \<le> fst c" "\<forall>c \<in> set post. 2 \<le> fst c"
    using heap_fine[OF assms(1)] by (auto simp: fine_def b)
  have "adr (a + 1) \<noteq> 0" by (rule adr_nonzero) (use fine in simp_all)
  moreover have "adr (a + 1) - 4 = adr a" by (simp add: adr_4 adr_diff)
  ultimately have fr: "free (adr (a + 1)) st = free_search (adr a) (lnk []) st" by (simp add: free_def lnk_def)
  have V: "fle_size st (adr a) = adr n" using assms(1) fine by (auto simp: heap_ok_def headers_append b fle_view)
  have skip: "\<forall>f \<in> set fs. f < a \<and> view st f \<noteq> adr (a - f) \<and> adr f \<noteq> adr a + fle_size st (adr a)"
    if fs: "frees S pre = fs @ gs" "gs = [] \<longrightarrow> pre = [] \<or> snd (last pre)" for fs gs
  proof
    fix f assume f: "f \<in> set fs"
    then obtain f1 f2 where s: "fs = f1 @ f # f2" by (auto dest: split_list)
    then have "frees S pre = f1 @ f # f2 @ gs" using fs(1) by simp
    from frees_split[OF this] obtain p1 m p2 where p: "pre = p1 @ (m, False) # p2" "f = S + total p1" "f2 @ gs = frees (f + m) p2"
      by blast
    have am: "a = f + m + total p2" by (simp add: b p)
    have V': "view st f = adr m" using heap_parts(1)[of S p1 m False "p2 @ (n, True) # post" st] assms(1) by (simp add: b p)
    have m: "2 \<le> m" using fine(4) p by simp
    have "total p2 \<noteq> 0"
    proof
      assume "total p2 = 0"
      then have "p2 = []" using fine(4) p(1) by (cases p2) auto
      then show False using p fs(2) by auto
    qed
    then have "m \<noteq> a - f" using am by simp
    then have "view st f \<noteq> adr (a - f)" using adr_inj[of m "a - f"] V' am fine(3) by auto
    moreover have "adr a + fle_size st (adr a) = adr (a + n)" by (simp add: V adr_add)
    then have "adr f \<noteq> adr a + fle_size st (adr a)" using adr_inj[of f "a + n"] am fine(3,2) by simp
    ultimately show "f < a \<and> view st f \<noteq> adr (a - f) \<and> adr f \<noteq> adr a + fle_size st (adr a)" using am m by simp
  qed
  show ?thesis
  proof (cases "\<exists>pre' m. pre = pre' @ [(m, False)]")
    case True
    then obtain pre' m where pre: "pre = pre' @ [(m, False)]" by blast
    let ?f = "S + total pre'"
    have h: "heap_ok S (pre' @ (m, False) # (n, True) # post) st" using assms(1) by (simp add: b pre)
    have fs: "frees S bs = [] @ frees S pre' @ [?f] @ frees (a + n) post" by (simp add: b pre add.assoc)
    have "free_search (adr a) (lnk []) st = free_search (adr a) (lnk (frees S pre')) st"
      using free_search_skip[OF assms(1) fs _ skip] fine pre by simp
    also have "\<dots> = Some (free_after (adr ?f) (adr (?f + m)) st)"
    proof -
      have "get_link st (lnk (frees S pre')) = adr ?f" using get_lnk_heap[OF assms(1), of "frees S pre'" "?f # frees (a + n) post"] fs by simp
      moreover have "adr ?f \<noteq> 0" "fle_size st (adr ?f) = adr m" "a = ?f + m"
        using adr_nonzero[of ?f] fine heap_parts(1)[OF h] by (simp_all add: b pre fle_view)
      ultimately show ?thesis by (subst free_search.simps) (simp add: adr_add)
    qed
    finally show ?thesis using free_after_blocks[OF h] fr by (auto simp: b pre add.assoc)
  next
    case False
    then have last: "pre = [] \<or> snd (last pre)" by (cases pre rule: rev_cases) auto
    have fs: "frees S bs = [] @ frees S pre @ frees (a + n) post" by (simp add: b)
    have "free_search (adr a) (lnk []) st = free_search (adr a) (lnk (frees S pre)) st"
      using free_search_skip[OF assms(1) fs _ skip[of "frees S pre" "[]"]] fine last by simp
    note fr = fr[unfolded this]
    have g: "get_link st (lnk (frees S pre)) = (case frees (a + n) post of [] \<Rightarrow> 0 | g # _ \<Rightarrow> adr g)"
      by (rule get_lnk_heap[OF assms(1)]) (use fs in simp)
    have co: "coalesced (pre @ (k, False) # post')" if "coalesced bs" "post = post' \<and> (post = [] \<or> snd (hd post)) \<or> (\<exists>q. post = (q, False) # post')" for k post'
      using that last by (cases post') (auto simp: coalesced_def successively_append_iff successively_Cons b)
    have "(post = [] \<or> snd (hd post)) \<or> (\<exists>q post'. post = (q, False) # post')"
      by (cases post) auto
    then consider (other) "post = [] \<or> snd (hd post)" | (free) q post' where "post = (q, False) # post'"
      by blast
    then show ?thesis
    proof cases
      case free
      have "adr (a + n) \<noteq> 0" by (rule adr_nonzero) (use fine in simp_all)
      moreover have "adr (a + n) + fle_size st (adr (a + n)) \<noteq> adr a"
      proof -
        have "fle_size st (adr (a + n)) = adr q" using assms(1) fine free by (auto simp: heap_ok_def headers_append b fle_view add.assoc)
        then show ?thesis using adr_inj[of "a + n + q" a] fine free by (simp add: adr_add)
      qed
      ultimately have "free (adr (a + 1)) st = Some (free_before (lnk (frees S pre)) (adr (a + n)) (adr a) st)"
        using fr free by (simp add: free_search.simps[of "adr a" "lnk (frees S pre)"] g V adr_add)
      then show ?thesis using free_before_blocks[of S pre n q post' st] assms(1) co free by (auto simp: b)
    next
      case other
      have "free_search (adr a) (lnk (frees S pre)) st = Some (free_insert (lnk (frees S pre)) (adr a) st)"
      proof (cases "frees (a + n) post")
        case Nil
        then show ?thesis by (subst free_search.simps) (simp add: g)
      next
        case (Cons x xs)
        then have "x \<in> set (frees S bs)" using fs by simp
        from frees_block[OF assms(1) this] obtain p1 m p2 where x: "bs = p1 @ (m, False) # p2" "x = S + total p1" "view st x = adr m" by blast
        have xw: "x + m < words" using heap_fine[OF assms(1)] x by (simp add: fine_def)
        have "a + n < x"
        proof (cases post)
          case Nil then show ?thesis using Cons by simp
        next
          case (Cons c post')
          then have "snd c" "2 \<le> fst c" using other fine(5) by simp_all
          then have "x \<in> set (frees (a + n + fst c) post')" using \<open>frees (a + n) post = x # xs\<close> Cons by (cases c) simp
          then show ?thesis using frees_range[of x "a + n + fst c" post'] fine(5) Cons \<open>2 \<le> fst c\<close> by simp
        qed
        then have "adr x \<noteq> 0" "adr x + fle_size st (adr x) \<noteq> adr a" "adr x \<noteq> adr (a + n)" "adr a < adr x"
          using adr_nonzero[of x] adr_inj[of "x + m" a] adr_inj[of x "a + n"] adr_less[of a x] xw fine(1) x(3)
          by (simp_all add: fle_view adr_add)
        then show ?thesis using Cons by (subst free_search.simps) (simp add: g V adr_add)
      qed
      then show ?thesis using fr free_insert_blocks[of S pre n post st] assms(1) co[of post n] other by (auto simp: b)
    qed
  qed
qed

end
