(* ===== verification/Tiny_Correct.thy ===== *)
theory Tiny_Correct
  imports Tiny_Heap
begin

text \<open>
  The contract of \<open>malloc\<close> and \<open>free\<close>: blocks in use never overlap and keep their contents, through
  every sequence of calls; and the requests for which the allocator breaks it.
\<close>

section \<open>The size of a block\<close>

lemma uint_M_ALIGN_4: "uint (M_ALIGN sz 4) = (- uint sz) mod 4"
proof -
  have "M_ALIGN sz 4 = take_bit 2 (- sz)" by (simp add: M_ALIGN_def take_bit_eq_mask mask_eq_exp_minus_1)
  then have "uint (M_ALIGN sz 4) = take_bit 2 (uint (- sz))" by (simp add: unsigned_take_bit_eq)
  also have "\<dots> = ((- uint sz) mod 2 ^ 32) mod 4" by (simp add: take_bit_eq_mod uint_word_ariths)
  also have "\<dots> = (- uint sz) mod 4" by (rule mod_mod_cancel) simp
  finally show ?thesis .
qed

definition real_words :: "nat \<Rightarrow> nat" where
  "real_words n = (if n < 4 then 2 else (n + 3) div 4 + 1)"

lemma REAL_SIZE_adr: "REAL_SIZE sz = adr (real_words (unat sz))"
proof (cases "sz < 4")
  case True
  then have "unat sz < 4" by (simp add: word_less_nat_alt)
  then show ?thesis using True by (simp add: REAL_SIZE_def real_words_def adr_def)
next
  case False
  then have n: "\<not> unat sz < 4" by (simp add: word_less_nat_alt)
  have m: "M_ALIGN sz 4 = of_int ((- uint sz) mod 4)" unfolding uint_M_ALIGN_4[symmetric] by simp
  have s: "sz = of_int (uint sz)" by simp
  have "REAL_SIZE sz = sz + 4 + M_ALIGN sz 4" using False by (simp add: REAL_SIZE_def)
  also have "\<dots> = of_int (uint sz) + of_int 4 + of_int ((- uint sz) mod 4)" unfolding m using s by (simp only: of_int_numeral)
  also have "\<dots> = of_int (uint sz + 4 + (- uint sz) mod 4)" by (simp only: of_int_add)
  also have "uint sz + 4 + (- uint sz) mod 4 = 4 * ((uint sz + 3) div 4 + 1)" by presburger
  also have "uint sz = int (unat sz)" by simp
  also have "4 * ((int (unat sz) + 3) div 4 + 1) = int (4 * ((unat sz + 3) div 4 + 1))"
    by (simp only: of_nat_mult of_nat_add of_nat_div of_nat_numeral of_nat_1)
  finally show ?thesis using n unfolding real_words_def adr_def by simp
qed

lemma real_words_bounds: "2 \<le> real_words n" "n + 4 \<le> 4 * real_words n" "4 * real_words n \<le> n + 8"
  by (auto simp: real_words_def)

section \<open>malloc and free\<close>

lemma malloc_allocates_any:
  assumes "heap_ok S bs st" "coalesced bs" "unat sz + 20 \<le> 2 ^ 32" "4 * (S + total bs) + 32 \<le> unat limit"
  shows "\<exists>p st'. malloc limit sz st = Some (p, st') \<and> ((p = 0 \<and> st' = st) \<or>
     (\<exists>a n bs'. p = adr (a + 1) \<and> unat sz + 4 \<le> 4 * n \<and> allocates S bs st a n bs' st' \<and> coalesced bs'))"
proof -
  have w: "real_words (unat sz) + 2 < words" using real_words_bounds(3)[of "unat sz"] assms(3) by simp
  obtain p st' where p: "malloc limit sz st = Some (p, st')" and c: "(p = 0 \<and> st' = st) \<or>
     (\<exists>a n bs'. p = adr (a + 1) \<and> real_words (unat sz) \<le> n \<and> allocates S bs st a n bs' st' \<and> coalesced bs')"
    using malloc_blocks[OF assms(1) real_words_bounds(1) w assms(4)] assms(2) unfolding malloc_def REAL_SIZE_adr by blast
  have "unat sz + 4 \<le> 4 * n" if "real_words (unat sz) \<le> n" for n
    using real_words_bounds(2)[of "unat sz"] that by simp
  then show ?thesis using p c by blast
qed


text \<open>A heap of 64 words from the address 4096 on, nothing allocated\<close>

definition empty_heap :: malloc_state where
  "empty_heap = \<lparr>memory = (\<lambda>a. 0), malloc_end = 4096, malloc_freelist = 0\<rparr>"

lemma empty_heap_ok: "heap_ok 1024 [] empty_heap"
  by (simp add: heap_ok_def fine_def empty_heap_def adr_def)


text \<open>
  C4. \<open>free\<close> of a block in use returns; it releases exactly this block, joins it with the free blocks
  before and after it so that none are adjacent, and no other block in use changes.
\<close>

theorem free_releases:
  assumes "heap_ok S bs st" "coalesced bs" "(a, n) \<in> set (useds S bs)"
  shows "\<exists>bs' st'. free (adr (a + 1)) st = Some st' \<and> releases S bs st a n bs' st' \<and> coalesced bs'"
  using free_blocks[OF assms(1,3)] assms(2) by blast

text \<open>Two blocks in use of two words each, with a free one between them\<close>

definition sample_heap :: malloc_state where
  "sample_heap = set_size 4096 8 (set_size 4104 8 (set_next 4104 0 (set_size 4112 8
    (empty_heap\<lparr>malloc_end := 4120, malloc_freelist := 4104\<rparr>))))"

lemma sample_heap_ok: "heap_ok 1024 [(2, True), (2, False), (2, True)] sample_heap"
proof -
  have a: "(4096 :: u32) = adr 1024" "(4104 :: u32) = adr 1026" "(4112 :: u32) = adr 1028" "(4120 :: u32) = adr 1030"
    by (simp_all add: adr_def)
  show ?thesis
    unfolding sample_heap_def a by (simp add: heap_ok_def fine_def headers_def empty_heap_def adr_4)
qed

theorem free_releases_witness:
  "\<exists>st'. free 4116 sample_heap = Some st' \<and> (\<exists>bs'. heap_ok 1024 bs' st' \<and> set (useds 1024 bs') = {(1024, 2)})"
proof -
  have "\<exists>bs' st'. free (adr (1028 + 1)) sample_heap = Some st' \<and>
      releases 1024 [(2, True), (2, False), (2, True)] sample_heap 1028 2 bs' st' \<and> coalesced bs'"
    by (rule free_releases[OF sample_heap_ok]) (simp_all add: coalesced_def)
  moreover have "adr (1028 + 1) = 4116" by (simp add: adr_def)
  ultimately show ?thesis by (auto simp: releases_def insert_Diff_if)
qed

section \<open>Sequences of calls\<close>

text \<open>
  The states a program reaches by calls of \<open>malloc\<close> that leave room for the stack and calls of
  \<open>free\<close> for blocks it has, with the blocks it has: their addresses and sizes in words.
\<close>

inductive client :: "nat \<Rightarrow> malloc_state \<Rightarrow> (nat \<times> nat) set \<Rightarrow> bool" for S :: nat where
  init: "0 < S \<Longrightarrow> S < words \<Longrightarrow> malloc_end st = adr S \<Longrightarrow> malloc_freelist st = 0 \<Longrightarrow> client S st {}"
| refused: "client S st U \<Longrightarrow> unat sz + 20 \<le> 2 ^ 32 \<Longrightarrow> unat (malloc_end st) + 32 \<le> unat limit \<Longrightarrow>
    malloc limit sz st = Some (0, st') \<Longrightarrow> client S st' U"
| granted: "client S st U \<Longrightarrow> unat sz + 20 \<le> 2 ^ 32 \<Longrightarrow> unat (malloc_end st) + 32 \<le> unat limit \<Longrightarrow>
    malloc limit sz st = Some (adr (a + 1), st') \<Longrightarrow> a + 1 < words \<Longrightarrow> view st' a = adr n \<Longrightarrow> n < words \<Longrightarrow>
    client S st' (insert (a, n) U)"
| released: "client S st U \<Longrightarrow> (a, n) \<in> U \<Longrightarrow> free (adr (a + 1)) st = Some st' \<Longrightarrow> client S st' (U - {(a, n)})"
| stored: "client S st U \<Longrightarrow> (a, n) \<in> U \<Longrightarrow> a < k \<Longrightarrow> k < a + n \<Longrightarrow>
    client S (st\<lparr>memory := wr32 (memory st) (adr k) v\<rparr>) U"

inductive_cases client_cases: "client S st U"

lemma used_head: "(a, n) \<in> set (useds S bs) \<Longrightarrow> (b, m) \<in> set (heads S bs) \<Longrightarrow> a < k \<Longrightarrow> k < a + n \<Longrightarrow> b \<noteq> k"
proof (induction bs arbitrary: S)
  case Nil then show ?case by simp
next
  case (Cons x bs)
  obtain c u where x: "x = (c, u)" by (cases x)
  have "b \<noteq> k" if "(a, n) = (S, c)" "(b, m) \<in> set (heads (S + c) bs)" using heads_range[OF that(2)] that(1) Cons.prems by auto
  moreover have "b \<noteq> k" if "(b, m) = (S, c)" "(a, n) \<in> set (useds (S + c) bs)" using useds_range[OF that(2)] that(1) Cons.prems by auto
  ultimately show ?case using Cons x by (auto split: if_splits)
qed

lemma store_heap_ok:
  assumes "heap_ok S bs st" "(a, n) \<in> set (useds S bs)" "a < k" "k < a + n"
  shows "heap_ok S bs (st\<lparr>memory := wr32 (memory st) (adr k) v\<rparr>)"
proof -
  let ?st = "st\<lparr>memory := wr32 (memory st) (adr k) v\<rparr>"
  have f: "fine S bs" using assms(1) by (rule heap_fine)
  then have "k < words" using useds_range[OF assms(2)] assms(4) by (simp add: fine_def)
  then have v: "view ?st = (view st)(k := v)" by (rule view_write)
  have "headers (view ?st) S bs"
    by (rule headers_frame) (use assms used_head[OF assms(2) _ assms(3,4)] in \<open>auto simp: heap_ok_def v\<close>)
  moreover have "linked (view ?st) (malloc_freelist st) (frees S bs) 0"
  proof (rule linked_frame)
    show "linked (view st) (malloc_freelist st) (frees S bs) 0" using assms(1) by (simp add: heap_ok_def)
    show "\<forall>x \<in> set (frees S bs). view ?st (x + 1) = view st (x + 1)"
      using free_used[OF _ fine_sizes[OF f] assms(2)] assms(3,4) by (fastforce simp: v)
  qed
  ultimately show ?thesis using assms(1) by (simp add: heap_ok_def)
qed

lemma limit_ok: "heap_ok S bs st \<Longrightarrow> unat (malloc_end st) + 32 \<le> unat limit \<Longrightarrow> 4 * (S + total bs) + 32 \<le> unat limit"
  using unat_adr[of "S + total bs"] by (simp add: heap_ok_def fine_def)

lemma malloc_result:
  assumes "heap_ok S bs st" "coalesced bs" "unat sz + 20 \<le> 2 ^ 32" "unat (malloc_end st) + 32 \<le> unat limit"
    and "malloc limit sz st = Some (p, st')"
  shows "(p = 0 \<and> st' = st) \<or> (\<exists>a n bs'. p = adr (a + 1) \<and> a + 1 < words \<and> p \<noteq> 0 \<and> view st' a = adr n \<and> n < words \<and>
    allocates S bs st a n bs' st' \<and> coalesced bs')"
proof -
  have w: "real_words (unat sz) + 2 < words" using real_words_bounds(3)[of "unat sz"] assms(3) by simp
  from malloc_blocks[OF assms(1) real_words_bounds(1) w limit_ok[OF assms(1,4)]] assms(5)
  consider "p = 0" "st' = st" | (block) a n bs' where "p = adr (a + 1)" "allocates S bs st a n bs' st'" "coalesced bs'"
    using assms(2) by (auto simp: malloc_def REAL_SIZE_adr)
  then show ?thesis
  proof cases
    case block
    have h: "heap_ok S bs' st'" "(a, n) \<in> set (useds S bs')" using block(2) by (auto simp: allocates_def)
    have f: "fine S bs'" using h(1) by (rule heap_fine)
    have "a + n < words" "2 \<le> n" using useds_range[OF h(2)] useds_size[OF h(2) fine_sizes[OF f]] f by (simp_all add: fine_def)
    moreover have "(a, n) \<in> set (heads S bs')" using h(2) by (rule used_is_head)
    then have "view st' a = adr n" using h(1) by (auto simp: heap_ok_def headers_def)
    ultimately show ?thesis using block adr_nonzero[of "a + 1"] by (intro disjI2 exI[of _ a] exI[of _ n] exI[of _ bs']) simp
  qed simp
qed

lemma client_heap: "client S st U \<Longrightarrow> \<exists>bs. heap_ok S bs st \<and> coalesced bs \<and> set (useds S bs) = U"
proof (induction rule: client.induct)
  case (init st)
  then show ?case by (intro exI[of _ "[]"]) (simp add: heap_ok_def fine_def coalesced_def)
next
  case (refused st U sz limit st')
  then obtain bs where bs: "heap_ok S bs st" "coalesced bs" "set (useds S bs) = U" by blast
  then show ?case using malloc_result[OF bs(1,2) refused(2,3,4)] by blast
next
  case (granted st U sz limit a st' n)
  then obtain bs where bs: "heap_ok S bs st" "coalesced bs" "set (useds S bs) = U" by blast
  have "adr (a + 1) \<noteq> 0" using granted by (intro adr_nonzero) simp_all
  then obtain b m bs' where b: "adr (a + 1) = adr (b + 1)" "b + 1 < words" "view st' b = adr m" "m < words"
      "allocates S bs st b m bs' st'" "coalesced bs'"
    using malloc_result[OF bs(1,2) granted(2,3,4)] by blast
  then have "b = a" using adr_inj[of "a + 1" "b + 1"] granted by simp
  moreover have "m = n" using adr_inj[of m n] b \<open>b = a\<close> granted by simp
  ultimately show ?case using b bs(3) by (auto simp: allocates_def)
next
  case (released st U a n st')
  then obtain bs where bs: "heap_ok S bs st" "coalesced bs" "set (useds S bs) = U" by blast
  then show ?case using free_blocks[OF bs(1), of a n] released by (auto simp: releases_def)
next
  case (stored st U a n k v)
  then obtain bs where bs: "heap_ok S bs st" "coalesced bs" "set (useds S bs) = U" by blast
  then show ?case using store_heap_ok[OF bs(1), of a n k v] stored by blast
qed

text \<open>
  In every state a program reaches by calls of \<open>malloc\<close>, frees of its blocks and stores into their
  words, the heap is well-formed, its blocks in use are the program's, which do not overlap, and no
  two free blocks are adjacent.
\<close>

lemma client_blocks_apart:
  assumes "client S st U"
  shows "(\<exists>bs. heap_ok S bs st \<and> coalesced bs \<and> set (useds S bs) = U) \<and>
    (\<forall>(a, n) \<in> U. \<forall>(b, m) \<in> U. (a, n) \<noteq> (b, m) \<longrightarrow> a + n \<le> b \<or> b + m \<le> a)"
  using client_heap[OF assms] useds_apart by blast

lemma client_blocks_apart_witness:
  "\<exists>bs. heap_ok 1024 bs empty_heap \<and> coalesced bs \<and> set (useds 1024 bs) = {}"
proof -
  have "client 1024 empty_heap {}" by (rule client.init) (simp_all add: empty_heap_def adr_def)
  from client_blocks_apart[OF this] show ?thesis by blast
qed

section \<open>realloc\<close>

text \<open>Changes inside the words of a block in use, its header excepted, keep the invariant.\<close>

lemma payload_heap_ok:
  assumes "heap_ok S bs st" "(a, n) \<in> set (useds S bs)" "\<And>k. k \<le> a \<or> a + n \<le> k \<Longrightarrow> view st' k = view st k"
    and "malloc_end st' = malloc_end st" "malloc_freelist st' = malloc_freelist st"
  shows "heap_ok S bs st'"
proof -
  have f: "fine S bs" using assms(1) by (rule heap_fine)
  have "headers (view st') S bs"
    by (rule headers_frame) (use assms used_head[OF assms(2)] in \<open>auto simp: heap_ok_def not_le[symmetric] intro!: assms(3)\<close>)
  moreover have "linked (view st') (malloc_freelist st) (frees S bs) 0"
  proof (rule linked_frame)
    show "linked (view st) (malloc_freelist st) (frees S bs) 0" using assms(1) by (simp add: heap_ok_def)
    show "\<forall>x \<in> set (frees S bs). view st' (x + 1) = view st (x + 1)"
    proof
      fix x assume "x \<in> set (frees S bs)"
      from free_used[OF this fine_sizes[OF f] assms(2)] show "view st' (x + 1) = view st (x + 1)" by (intro assms(3)) auto
    qed
  qed
  ultimately show ?thesis using assms(1,4,5) by (simp add: heap_ok_def)
qed

text \<open>Copying words\<close>

lemma rd32_memcpy:
  assumes "d + c < words" "s + c < words" "k < words"
  shows "rd32 (memcpy m (adr d) (adr s) (adr c)) (adr k) =
    (if d \<le> k \<and> k < d + c then rd32 m (adr (s + (k - d))) else rd32 m (adr k))"
proof -
  have u: "unat (adr k + of_nat i - adr d) = (if d \<le> k then 4 * (k - d) + i else 2 ^ 32 + 4 * k + i - 4 * d)" if "i < 4" for i
  proof -
    have "unat (adr k + of_nat i) = 4 * k + i"
    proof -
      have "adr k + of_nat i = of_nat (4 * k + i)" by (simp add: adr_def)
      moreover have "take_bit 32 (4 * k + i) = 4 * k + i" using that assms(3) by (intro take_bit_nat_eq_self) simp
      ultimately show ?thesis by (simp only: unsigned_of_nat) simp
    qed
    then show ?thesis using assms that by (auto simp: unat_sub_if' unat_adr)
  qed
  have b: "memcpy m (adr d) (adr s) (adr c) (adr k + of_nat i) =
      (if d \<le> k \<and> k < d + c then m (adr (s + (k - d)) + of_nat i) else m (adr k + of_nat i))" if "i < 4" for i
  proof -
    have lt: "adr k + of_nat i - adr d < adr c \<longleftrightarrow> d \<le> k \<and> k < d + c"
      using u[OF that] that assms by (auto simp: word_less_nat_alt unat_adr)
    show ?thesis
    proof (cases "d \<le> k \<and> k < d + c")
      case True
      then have "adr s + (adr k + of_nat i - adr d) = adr s + adr (k - d) + of_nat i" by (simp flip: adr_diff)
      then have "adr s + (adr k + of_nat i - adr d) = adr (s + (k - d)) + of_nat i" by (simp only: adr_add)
      then show ?thesis using True lt by (simp only: memcpy_def if_True simp_thms)
    next
      case False then show ?thesis using lt by (simp only: memcpy_def if_False)
    qed
  qed
  show ?thesis using b[of 0] b[of 1] b[of 2] b[of 3] by (simp add: rd32_def)
qed

lemma useds_not_inside: "(a, n) \<in> set (useds S bs) \<Longrightarrow> (b, m) \<in> set (useds S bs) \<Longrightarrow> (b, m) \<noteq> (a, n) \<Longrightarrow> b \<le> k \<Longrightarrow> k < b + m \<Longrightarrow>
    k < a \<or> a + n \<le> k"
  using useds_apart[of a n S bs b m] by auto

lemma kept_ballI:
  "(\<And>c l j. (c, l) \<in> A \<Longrightarrow> (c, l) \<notin> B \<Longrightarrow> c \<le> j \<Longrightarrow> j < c + l \<Longrightarrow> f j = g j) \<Longrightarrow>
    \<forall>(c, l) \<in> A - B. \<forall>j. c \<le> j \<and> j < c + l \<longrightarrow> f j = g (j :: nat)"
  by auto

lemma used_words: "heap_ok S bs st \<Longrightarrow> (a, n) \<in> set (useds S bs) \<Longrightarrow> 0 < a \<and> 2 \<le> n \<and> a + n < words \<and> view st a = adr n"
proof -
  assume h: "heap_ok S bs st" "(a, n) \<in> set (useds S bs)"
  have f: "fine S bs" using h(1) by (rule heap_fine)
  have "(a, n) \<in> set (heads S bs)" using h(2) by (rule used_is_head)
  then have "view st a = adr n" using h(1) by (auto simp: heap_ok_def headers_def)
  then show ?thesis using useds_range[OF h(2)] useds_size[OF h(2) fine_sizes[OF f]] f by (auto simp: fine_def)
qed

text \<open>What \<open>realloc\<close> establishes when it returns the block \<open>(b, m)\<close> for the block \<open>(a, n)\<close>\<close>

definition reallocates :: "nat \<Rightarrow> blocks \<Rightarrow> malloc_state \<Rightarrow> nat \<Rightarrow> nat \<Rightarrow> nat \<Rightarrow> nat \<Rightarrow> blocks \<Rightarrow> malloc_state \<Rightarrow> bool" where
  "reallocates S bs st a n b m bs' st' \<longleftrightarrow> heap_ok S bs' st' \<and> coalesced bs' \<and>
    set (useds S bs') = insert (b, m) (set (useds S bs) - {(a, n)}) \<and>
    (\<forall>i. 0 < i \<and> i < n \<and> i < m \<longrightarrow> view st' (b + i) = view st (a + i)) \<and>
    (\<forall>(c, l) \<in> set (useds S bs) - {(a, n)}. \<forall>k. c \<le> k \<and> k < c + l \<longrightarrow> view st' k = view st k) \<and>
    (\<forall>(c, l) \<in> set (useds S bs) - {(a, n)}. c \<noteq> b)"

lemma others_apart:
  assumes "heap_ok S bs st" "(a, n) \<in> set (useds S bs)"
  shows "\<forall>(c, l) \<in> set (useds S bs) - {(a, n)}. c \<noteq> a"
proof -
  have "c \<noteq> a" if c: "(c, l) \<in> set (useds S bs)" "(c, l) \<noteq> (a, n)" for c l
    using useds_apart[OF c(1) assms(2) c(2)] used_words[OF assms] used_words[OF assms(1) c(1)] by auto
  then show ?thesis by blast
qed

lemma realloc_grow:
  assumes "heap_ok S bs st" "coalesced bs" "(a, n) \<in> set (useds S bs)" "unat sz + 20 \<le> 2 ^ 32"
    and "unat (malloc_end st) + 32 \<le> unat limit" "n < real_words (unat sz)"
  shows "\<exists>p st'. realloc limit (adr (a + 1)) sz st = Some (p, st') \<and>
    (p = 0 \<and> st' = st \<or> (\<exists>b m bs'. p = adr (b + 1) \<and> unat sz + 4 \<le> 4 * m \<and> reallocates S bs st a n b m bs' st'))"
proof -
  let ?r = "real_words (unat sz)"
  note A = used_words[OF assms(1,3)]
  have r: "?r + 2 < words" using real_words_bounds(3)[of "unat sz"] assms(4) by simp
  have nz: "adr (a + 1) \<noteq> 0" by (rule adr_nonzero) (use A in simp_all)
  have blk: "adr (a + 1) - 4 = adr a" by (simp add: adr_4 adr_diff)
  have old: "fle_size st (adr a) = adr n" "adr n < adr ?r" using A r assms(6) by (simp_all add: fle_view adr_less)
  have n1: "adr n - 4 = adr (n - 1)" using A by (simp add: adr_4 adr_diff)
  have sz: "adr (n - 1) \<le> sz" using assms(6) A by (auto simp: real_words_def word_le_nat_alt unat_adr split: if_splits)
  then have cnt: "(if adr n - 4 < sz then adr n - 4 else sz) = adr (n - 1)" by (auto simp: n1)
  have unf: "realloc limit (adr (a + 1)) sz st = do {
      (result, st) \<leftarrow> malloc limit sz st;
      if result = 0 then Some (0, st)
      else do {
        st \<leftarrow> free (adr (a + 1)) (st\<lparr>memory := memcpy (memory st) result (adr (a + 1)) (adr (n - 1))\<rparr>);
        Some (result, st) } }"
    using nz old cnt by (simp only: realloc_def blk REAL_SIZE_adr Let_def if_False if_True simp_thms)
  obtain p st1 where m: "malloc limit sz st = Some (p, st1)"
    and c: "(p = 0 \<and> st1 = st) \<or> (\<exists>b m bs1. p = adr (b + 1) \<and> unat sz + 4 \<le> 4 * m \<and> allocates S bs st b m bs1 st1 \<and> coalesced bs1)"
    using malloc_allocates_any[OF assms(1,2,4) limit_ok[OF assms(1,5)]] by blast
  from c show ?thesis
  proof
    assume "p = 0 \<and> st1 = st"
    then show ?thesis using m unf by simp
  next
    assume "\<exists>b m bs1. p = adr (b + 1) \<and> unat sz + 4 \<le> 4 * m \<and> allocates S bs st b m bs1 st1 \<and> coalesced bs1"
    then obtain b k bs1 where b: "p = adr (b + 1)" "unat sz + 4 \<le> 4 * k" "allocates S bs st b k bs1 st1" "coalesced bs1" by blast
    then have h1: "heap_ok S bs1 st1" "keeps S bs st st1" "set (useds S bs1) = insert (b, k) (set (useds S bs))"
      "a + n \<le> b \<or> b + k \<le> a" using assms(3) by (auto simp: allocates_def)
    have ub: "(b, k) \<in> set (useds S bs1)" and ua: "(a, n) \<in> set (useds S bs1)" using h1(3) assms(3) by auto
    note B = used_words[OF h1(1) ub]
    have nk: "n \<le> k" using b(2) sz A by (auto simp: word_le_nat_alt unat_adr)
    have pnz: "p \<noteq> 0" using B b(1) by (simp add: adr_nonzero)
    let ?st2 = "st1\<lparr>memory := memcpy (memory st1) p (adr (a + 1)) (adr (n - 1))\<rparr>"
    have v2: "view ?st2 j = (if b + 1 \<le> j \<and> j < b + n then view st1 (a + (j - b)) else view st1 j)" for j
      using rd32_memcpy[of "b + 1" "n - 1" "a + 1" j "memory st1"] A B nk by (auto simp: view_def b(1) Suc_diff_Suc)
    have h2: "heap_ok S bs1 ?st2" by (rule payload_heap_ok[OF h1(1) ub]) (use v2 nk in auto)
    obtain bs' st' where f: "free (adr (a + 1)) ?st2 = Some st'" "releases S bs1 ?st2 a n bs' st'" "coalesced bs'"
      using free_blocks[OF h2 ua] b(4) by blast
    have keep: "view st' j = view ?st2 j" if "(c, l) \<in> set (useds S bs1) - {(a, n)}" "c \<le> j" "j < c + l" for c l j
      using f(2) that unfolding releases_def by blast
    have ne: "(b, k) \<noteq> (a, n)" using h1(4) A by auto
    have "reallocates S bs st a n b k bs' st'"
      unfolding reallocates_def
    proof (intro conjI)
      show "heap_ok S bs' st'" using f(2) by (simp add: releases_def)
      show "coalesced bs'" by (rule f(3))
      show "set (useds S bs') = insert (b, k) (set (useds S bs) - {(a, n)})" using f(2) h1(3) ne by (auto simp: releases_def)
      show "\<forall>i. 0 < i \<and> i < n \<and> i < k \<longrightarrow> view st' (b + i) = view st (a + i)"
      proof (intro allI impI)
        fix i assume i: "0 < i \<and> i < n \<and> i < k"
        have "view st' (b + i) = view ?st2 (b + i)" by (rule keep[of b k]) (use ub ne i in auto)
        also have "\<dots> = view st1 (a + i)" unfolding v2 using i by auto
        also have "\<dots> = view st (a + i)" using h1(2) assms(3) i by (auto simp: keeps_def)
        finally show "view st' (b + i) = view st (a + i)" .
      qed
      show "\<forall>(c, l) \<in> set (useds S bs) - {(a, n)}. \<forall>j. c \<le> j \<and> j < c + l \<longrightarrow> view st' j = view st j"
      proof (rule kept_ballI)
        fix c l j assume c: "(c, l) \<in> set (useds S bs)" "(c, l) \<notin> {(a, n)}" "c \<le> j" "j < c + l"
        have "view st' j = view ?st2 j" by (rule keep[of c l]) (use c h1(3) in auto)
        moreover have "j < b \<or> b + k \<le> j" using b(3) c by (auto simp: allocates_def)
        then have "view ?st2 j = view st1 j" unfolding v2 using nk by auto
        moreover have "view st1 j = view st j" using h1(2) c by (auto simp: keeps_def)
        ultimately show "view st' j = view st j" by simp
      qed
      have "c \<noteq> b" if "(c, l) \<in> set (useds S bs)" for c l
        using b(3) that used_words[OF assms(1) that] B by (auto simp: allocates_def)
      then show "\<forall>(c, l) \<in> set (useds S bs) - {(a, n)}. c \<noteq> b" by blast
    qed
    then show ?thesis using b(1,2) f(1) m pnz unf by auto
  qed
qed

lemma useds_split:
  "(a, n) \<in> set (useds S bs) \<Longrightarrow> \<exists>pre post. bs = pre @ (n, True) # post \<and> a = S + total pre"
proof (induction bs arbitrary: S)
  case Nil then show ?case by simp
next
  case (Cons x bs)
  obtain m u where x: "x = (m, u)" by (cases x)
  show ?case
  proof (cases "u \<and> (a, n) = (S, m)")
    case True
    then have "x # bs = [] @ (n, True) # bs \<and> a = S + total []" using x by simp
    then show ?thesis by blast
  next
    case False
    then have "(a, n) \<in> set (useds (S + m) bs)" using Cons.prems x by (auto split: if_splits)
    from Cons.IH[OF this] obtain pre post where "bs = pre @ (n, True) # post \<and> a = S + m + total pre" by blast
    then have "x # bs = (x # pre) @ (n, True) # post \<and> a = S + total (x # pre)" using x by simp
    then show ?thesis by blast
  qed
qed

lemma split_used:
  assumes "heap_ok S (pre @ (n, True) # post) st" "2 \<le> r" "r + 2 \<le> n" "a = S + total pre"
  shows "heap_ok S (pre @ (r, True) # (n - r, True) # post) (set_size (adr (a + r)) (adr (n - r)) (set_size (adr a) (adr r) st))"
proof -
  let ?st = "set_size (adr (a + r)) (adr (n - r)) (set_size (adr a) (adr r) st)"
  have f: "0 < S" "\<forall>b \<in> set pre. 2 \<le> fst b" "\<forall>b \<in> set post. 2 \<le> fst b" "a + n + total post < words"
    using heap_fine[OF assms(1)] by (auto simp: fine_def assms(4))
  have v: "view ?st = (view st)(a := adr r, a + r := adr (n - r))" using f assms(3) by simp
  have h: "headers (view st) S pre" "headers (view st) (a + n) post" "linked (view st) (malloc_freelist st) (frees S pre @ frees (a + n) post) 0"
    using assms(1) by (simp_all add: heap_ok_def headers_append assms(4))
  have lt: "x < a" if "(x, m) \<in> set (heads S pre)" for x m using heads_range[OF that] head_size[OF that f(2)] by (simp add: assms(4))
  have "headers (view ?st) S pre" by (rule headers_frame[OF h(1)]) (unfold v, use lt in fastforce)
  moreover have "headers (view ?st) (a + n) post"
    by (rule headers_frame[OF h(2)]) (unfold v, use heads_range[of _ _ "a + n" post] assms(2,3) in fastforce)
  moreover have "linked (view ?st) (malloc_freelist ?st) (frees S pre @ frees (a + n) post) 0"
  proof -
    have "linked (view ?st) (malloc_freelist st) (frees S pre @ frees (a + n) post) 0"
    proof (rule linked_frame[OF h(3)], rule ballI)
      fix x assume "x \<in> set (frees S pre @ frees (a + n) post)"
      then have "x + 1 < a \<or> a + n \<le> x" using frees_range[of x S pre] frees_range[of x "a + n" post] f assms(4) by auto
      then show "view ?st (x + 1) = view st (x + 1)" unfolding v using assms(2,3) by auto
    qed
    then show ?thesis by simp
  qed
  ultimately show ?thesis
    using assms(1-3) f by (auto simp: heap_ok_def fine_def headers_append v add.assoc assms(4))
qed

lemma realloc_shrink:
  assumes "heap_ok S bs st" "coalesced bs" "(a, n) \<in> set (useds S bs)" "unat sz + 20 \<le> 2 ^ 32"
    and "real_words (unat sz) \<le> n"
  shows "\<exists>st' m bs'. realloc limit (adr (a + 1)) sz st = Some (adr (a + 1), st') \<and> unat sz + 4 \<le> 4 * m \<and>
    reallocates S bs st a n a m bs' st'"
proof -
  let ?r = "real_words (unat sz)"
  note A = used_words[OF assms(1,3)]
  have r: "2 \<le> ?r" "unat sz + 4 \<le> 4 * ?r" by (rule real_words_bounds)+
  have nz: "adr (a + 1) \<noteq> 0" by (rule adr_nonzero) (use A in simp_all)
  have blk: "adr (a + 1) - 4 = adr a" by (simp add: adr_4 adr_diff)
  have old: "fle_size st (adr a) = adr n" "\<not> adr n < adr ?r" using A assms(5) by (simp_all add: fle_view adr_less)
  have d: "adr n - adr ?r = adr (n - ?r)" "8 \<le> adr (n - ?r) \<longleftrightarrow> 2 \<le> n - ?r"
  proof -
    have "n - ?r < words" using A by linarith
    then show "8 \<le> adr (n - ?r) \<longleftrightarrow> 2 \<le> n - ?r" using adr_le[of 2 "n - ?r"] by (simp add: adr_4)
  qed (use assms(5) in \<open>simp add: adr_diff\<close>)
  show ?thesis
  proof (cases "2 \<le> n - ?r")
    case False
    then have "realloc limit (adr (a + 1)) sz st = Some (adr (a + 1), st)"
      using nz old d by (simp only: realloc_def blk REAL_SIZE_adr Let_def if_False if_True)
    moreover have "reallocates S bs st a n a n bs st"
      using assms(1-3) others_apart[OF assms(1,3)] by (auto simp: reallocates_def insert_absorb)
    moreover have "unat sz + 4 \<le> 4 * n" using r(2) assms(5) by linarith
    ultimately show ?thesis by blast
  next
    case True
    let ?st2 = "set_size (adr (a + ?r)) (adr (n - ?r)) (set_size (adr a) (adr ?r) st)"
    obtain pre post where b: "bs = pre @ (n, True) # post" "a = S + total pre" using useds_split[OF assms(3)] by blast
    let ?bs2 = "pre @ (?r, True) # (n - ?r, True) # post"
    have h2: "heap_ok S ?bs2 ?st2" by (rule split_used) (use assms(1) b r True in simp_all)
    have c2: "coalesced ?bs2" using assms(2) by (auto simp: b coalesced_def successively_append_iff successively_Cons)
    have u2: "set (useds S ?bs2) = insert (a, ?r) (insert (a + ?r, n - ?r) (set (useds S bs) - {(a, n)}))"
      using useds_remove[of n S pre post] A True by (auto simp: b add.assoc)
    obtain bs' st' where f: "free (adr (a + ?r + 1)) ?st2 = Some st'" "releases S ?bs2 ?st2 (a + ?r) (n - ?r) bs' st'" "coalesced bs'"
      using free_blocks[OF h2, of "a + ?r" "n - ?r"] u2 c2 by blast
    have nb: "adr (a + ?r) + 4 = adr (a + ?r + 1)" by (simp only: adr_4(1) adr_add)
    have "realloc limit (adr (a + 1)) sz st = Some (adr (a + 1), st')"
      using nz old d True f(1)
      by (simp only: realloc_def blk REAL_SIZE_adr Let_def if_False if_True adr_add nb Option.bind.simps)
    moreover have "reallocates S bs st a n a ?r bs' st'"
    proof -
      have v: "view ?st2 j = view st j" if "j \<noteq> a" "j \<noteq> a + ?r" for j using that A assms(5) by simp
      have n0: "(a + ?r, n - ?r) \<notin> set (useds S bs) - {(a, n)}"
        using useds_apart[OF assms(3), of "a + ?r" "n - ?r"] r A True by auto
      have keep: "view st' j = view ?st2 j" if "(c, l) \<in> set (useds S ?bs2) - {(a + ?r, n - ?r)}" "c \<le> j" "j < c + l" for c l j
        using f(2) that unfolding releases_def by blast
      show ?thesis
        unfolding reallocates_def
      proof (intro conjI)
        show "heap_ok S bs' st'" using f(2) by (simp add: releases_def)
        show "coalesced bs'" by (rule f(3))
        show "set (useds S bs') = insert (a, ?r) (set (useds S bs) - {(a, n)})"
          using f(2) u2 n0 r(1) unfolding releases_def by auto
        show "\<forall>i. 0 < i \<and> i < n \<and> i < ?r \<longrightarrow> view st' (a + i) = view st (a + i)"
        proof (intro allI impI)
          fix i assume i: "0 < i \<and> i < n \<and> i < ?r"
          have "(a, ?r) \<in> set (useds S ?bs2) - {(a + ?r, n - ?r)}" unfolding u2 using r(1) by simp
          then have "view st' (a + i) = view ?st2 (a + i)" by (rule keep) (use i in simp_all)
          then show "view st' (a + i) = view st (a + i)" using v i by simp
        qed
        show "\<forall>(c, l) \<in> set (useds S bs) - {(a, n)}. \<forall>j. c \<le> j \<and> j < c + l \<longrightarrow> view st' j = view st j"
        proof (rule kept_ballI)
          fix c l j assume c: "(c, l) \<in> set (useds S bs)" "(c, l) \<notin> {(a, n)}" "c \<le> j" "j < c + l"
          have "view st' j = view ?st2 j" by (rule keep[of c l]) (use c u2 n0 in auto)
          moreover have "j < a \<or> a + n \<le> j" by (rule useds_not_inside[OF assms(3) c(1)]) (use c in simp_all)
          ultimately show "view st' j = view st j" using v True r(1) by auto
        qed
        show "\<forall>(c, l) \<in> set (useds S bs) - {(a, n)}. c \<noteq> a" by (rule others_apart[OF assms(1,3)])
      qed
    qed
    ultimately show ?thesis using r(2) by blast
  qed
qed

lemma realloc_blocks:
  assumes "heap_ok S bs st" "coalesced bs" "(a, n) \<in> set (useds S bs)" "unat sz + 20 \<le> 2 ^ 32"
    and "unat (malloc_end st) + 32 \<le> unat limit"
  shows "\<exists>p st'. realloc limit (adr (a + 1)) sz st = Some (p, st') \<and>
    (p = 0 \<and> st' = st \<or> (\<exists>b m bs'. p = adr (b + 1) \<and> unat sz + 4 \<le> 4 * m \<and> reallocates S bs st a n b m bs' st'))"
  using realloc_grow[OF assms] realloc_shrink[OF assms(1-4), of limit] by (cases "n < real_words (unat sz)") (auto simp: not_less)



section \<open>Requests that break the contract\<close>

text \<open>
  For a request of more than 2^32 - 5 bytes the size overflows to at most one word: where \<open>malloc\<close>
  has no free block it returns a block at the end of the heap that has no room for even one byte.
\<close>

lemma malloc_size_overflows:
  assumes "2 ^ 32 - 4 \<le> unat sz" "malloc_freelist st = 0" "CAN_ALLOC_P limit st 4"
  shows "REAL_SIZE sz \<le> 4 \<and> malloc limit sz st =
    Some (malloc_end st + 4, set_size (malloc_end st) (REAL_SIZE sz) (st\<lparr>malloc_end := malloc_end st + REAL_SIZE sz\<rparr>))"
proof -
  have "unat sz < 2 ^ 32" using unsigned_less[of sz, where ?'a = nat] by simp
  then have "real_words (unat sz) = words \<or> real_words (unat sz) = words + 1"
    using assms(1) by (auto simp: real_words_def)
  then have r: "REAL_SIZE sz \<le> 4" by (auto simp: REAL_SIZE_adr adr_def)
  then have "CAN_ALLOC_P limit st (REAL_SIZE sz)" using assms(3) by (simp add: CAN_ALLOC_P_def)
  then show ?thesis
    using r assms(2) by (simp add: malloc_def malloc_search.simps get_link_def malloc_new_def malloc_done_def Let_def)
qed

lemma malloc_size_overflows_witness:
  "malloc 8192 (2 ^ 32 - 1) empty_heap = Some (4100, set_size 4096 4 (empty_heap\<lparr>malloc_end := 4100\<rparr>))"
proof -
  have "REAL_SIZE (2 ^ 32 - 1) = (4 :: u32)" by (simp add: REAL_SIZE_def M_ALIGN_def)
  then show ?thesis
    using malloc_size_overflows[of "2 ^ 32 - 1" empty_heap 8192] by (simp add: empty_heap_def CAN_ALLOC_P_def)
qed

text \<open>
  The check for room wraps around: once the stack has come closer than 32 bytes to the end of the
  heap, every request of at most 2^32 - 32 bytes passes it.
\<close>

lemma can_alloc_wraps:
  assumes "limit - malloc_end st < 32" "required \<le> - 32"
  shows "CAN_ALLOC_P limit st required"
proof -
  have "unat (limit - malloc_end st) < 32" using assms(1) by (simp add: word_less_nat_alt)
  then have "unat (limit - malloc_end st + - 32) = unat (limit - malloc_end st) + unat (- 32 :: u32)"
    by (simp only: unat_word_ariths) simp
  then have "limit - malloc_end st - 32 \<ge> - 32" by (simp add: word_le_nat_alt)
  then show ?thesis using assms(2) by (simp add: CAN_ALLOC_P_def)
qed

lemma can_alloc_wraps_witness: "CAN_ALLOC_P 4112 empty_heap 1000000"
  by (rule can_alloc_wraps) (simp_all add: empty_heap_def)

text \<open>The product in \<open>calloc\<close> overflows too: 65536 elements of 65536 bytes are a request of no bytes.\<close>

lemma calloc_overflows: "calloc limit 65536 65536 st = calloc limit 0 0 st"
proof -
  have "(65536 :: u32) * 65536 = 0 * 0" by code_simp
  then show ?thesis unfolding calloc_def by (simp only:)
qed

end
