(* ===== verification/Tiny_Client.thy ===== *)
theory Tiny_Client
  imports Tiny_Correct
begin

text \<open>
  The allocator as an interface, and a client that allocates, resizes, frees and stores in any order
  through it. What the interface promises of one call gives, once for every provider, that the client
  never fails and that its blocks keep what it stored; \<open>tiny-malloc.c\<close> is the provider.
\<close>

section \<open>A client\<close>

text \<open>
  A block is its first word, which holds the header, and its number of words. The client has a list
  of blocks, names them by their place in the list, and remembers what it stored: \<open>known\<close> maps words to
  values. It never uses a block it does not have, and stores behind the header only.
\<close>

type_synonym block = "nat \<times> nat"

datatype ('r, 'w) action = Request 'r | Resize nat 'r | Return nat | Store nat nat 'w

record ('s, 'r, 'w) provider =
  request :: "'r \<Rightarrow> 's \<Rightarrow> (block option \<times> 's) option"
  resize :: "block \<Rightarrow> 'r \<Rightarrow> 's \<Rightarrow> (block option \<times> 's) option"
  return :: "block \<Rightarrow> 's \<Rightarrow> 's option"
  store_word :: "nat \<Rightarrow> 'w \<Rightarrow> 's \<Rightarrow> 's"

definition within :: "block \<Rightarrow> nat \<Rightarrow> bool" where
  "within b k \<longleftrightarrow> fst b < k \<and> k < fst b + snd b"

definition forget :: "block \<Rightarrow> (nat \<rightharpoonup> 'w) \<Rightarrow> nat \<rightharpoonup> 'w" where
  "forget b known k = (if within b k then None else known k)"

text \<open>After the block \<open>b\<close> has become \<open>c\<close>, the words both have are those of \<open>b\<close>.\<close>

definition moved :: "block \<Rightarrow> block \<Rightarrow> (nat \<rightharpoonup> 'w) \<Rightarrow> nat \<rightharpoonup> 'w" where
  "moved b c known k = (
     if within c k then (let j = fst b + (k - fst c) in if within b j then known j else None)
     else forget b known k)"

fun do_action :: "('s, 'r, 'w) provider \<Rightarrow> ('r, 'w) action \<Rightarrow> 's \<times> block list \<times> (nat \<rightharpoonup> 'w) \<Rightarrow> ('s \<times> block list \<times> (nat \<rightharpoonup> 'w)) option" where
  "do_action P (Request r) (s, bs, known) = do {
     (b, s) \<leftarrow> request P r s;
     Some (s, (case b of None \<Rightarrow> bs | Some b \<Rightarrow> b # bs), known) }"
| "do_action P (Resize i r) (s, bs, known) = (if i < length bs then do {
     (b, s) \<leftarrow> resize P (bs ! i) r s;
     Some (case b of None \<Rightarrow> (s, bs, known) | Some c \<Rightarrow> (s, c # remove1 (bs ! i) bs, moved (bs ! i) c known)) }
     else Some (s, bs, known))"
| "do_action P (Return i) (s, bs, known) = (if i < length bs then do {
     s \<leftarrow> return P (bs ! i) s;
     Some (s, remove1 (bs ! i) bs, forget (bs ! i) known) }
     else Some (s, bs, known))"
| "do_action P (Store i j w) (s, bs, known) =
    (if i < length bs \<and> within (bs ! i) (fst (bs ! i) + j)
     then Some (store_word P (fst (bs ! i) + j) w s, bs, known(fst (bs ! i) + j \<mapsto> w))
     else Some (s, bs, known))"

fun do_actions :: "('s, 'r, 'w) provider \<Rightarrow> ('r, 'w) action list \<Rightarrow> 's \<times> block list \<times> (nat \<rightharpoonup> 'w) \<Rightarrow> ('s \<times> block list \<times> (nat \<rightharpoonup> 'w)) option" where
  "do_actions P [] c = Some c"
| "do_actions P (a # as) c = do { c \<leftarrow> do_action P a c; do_actions P as c }"

section \<open>The interface\<close>

locale allocator =
  fixes P :: "('s, 'r, 'w) provider" and ok :: "'s \<Rightarrow> block set \<Rightarrow> bool" and word_at :: "'s \<Rightarrow> nat \<Rightarrow> 'w"
  assumes apart: "ok s U \<Longrightarrow> b \<in> U \<Longrightarrow> c \<in> U \<Longrightarrow> b \<noteq> c \<Longrightarrow> fst b + snd b \<le> fst c \<or> fst c + snd c \<le> fst b"
    and request_ok: "ok s U \<Longrightarrow> request P r s = Some (None, s) \<or>
      (\<exists>b s'. request P r s = Some (Some b, s') \<and> b \<notin> U \<and> ok s' (insert b U) \<and> (\<forall>c \<in> U. \<forall>k. within c k \<longrightarrow> word_at s' k = word_at s k))"
    and resize_ok: "ok s U \<Longrightarrow> b \<in> U \<Longrightarrow> resize P b r s = Some (None, s) \<or>
      (\<exists>c s'. resize P b r s = Some (Some c, s') \<and> c \<notin> U - {b} \<and> ok s' (insert c (U - {b})) \<and>
        (\<forall>i. 0 < i \<longrightarrow> i < snd b \<longrightarrow> i < snd c \<longrightarrow> word_at s' (fst c + i) = word_at s (fst b + i)) \<and>
        (\<forall>c \<in> U - {b}. \<forall>k. within c k \<longrightarrow> word_at s' k = word_at s k))"
    and return_ok: "ok s U \<Longrightarrow> b \<in> U \<Longrightarrow> \<exists>s'. return P b s = Some s' \<and> ok s' (U - {b}) \<and>
      (\<forall>c \<in> U - {b}. \<forall>k. within c k \<longrightarrow> word_at s' k = word_at s k)"
    and store_ok: "ok s U \<Longrightarrow> b \<in> U \<Longrightarrow> within b k \<Longrightarrow> ok (store_word P k w s) U"
    and store_word: "ok s U \<Longrightarrow> b \<in> U \<Longrightarrow> within b k \<Longrightarrow> word_at (store_word P k w s) = (word_at s)(k := w)"
begin

text \<open>The client's blocks are those in use, and its words hold what it stored.\<close>

definition served :: "'s \<times> block list \<times> (nat \<rightharpoonup> 'w) \<Rightarrow> bool" where
  "served c = (case c of (s, bs, known) \<Rightarrow> distinct bs \<and> ok s (set bs) \<and>
     (\<forall>k w. known k = Some w \<longrightarrow> (\<exists>b \<in> set bs. within b k) \<and> word_at s k = w))"

lemma servedI:
  assumes "distinct bs" "ok s (set bs)" "\<And>k w. known k = Some w \<Longrightarrow> (\<exists>b \<in> set bs. within b k) \<and> word_at s k = w"
  shows "served (s, bs, known)"
  using assms by (simp add: served_def)

lemma servedE:
  assumes "served (s, bs, known)"
  obtains "distinct bs" "ok s (set bs)" "\<And>k w. known k = Some w \<Longrightarrow> \<exists>b \<in> set bs. within b k \<and> word_at s k = w"
  using assms by (auto simp: served_def)

text \<open>What is known outside the block \<open>b\<close> survives a call that keeps the other blocks.\<close>

lemma forget_served:
  assumes "served (s, bs, known)" "forget b known k = Some w"
    and "\<forall>c \<in> set bs - {b}. \<forall>k. within c k \<longrightarrow> word_at s' k = word_at s k"
  shows "\<exists>c \<in> set bs - {b}. within c k \<and> word_at s' k = w"
proof -
  have f: "\<not> within b k" "known k = Some w" using assms(2) by (simp_all add: forget_def split: if_splits)
  obtain c where c: "c \<in> set bs" "within c k" "word_at s k = w" using assms(1) f(2) by (elim servedE) blast
  moreover have "c \<noteq> b" using c(2) f(1) by blast
  ultimately show ?thesis using assms(3) by blast
qed

lemma request_served:
  assumes "served (s, bs, known)"
  shows "\<exists>c. do_action P (Request r) (s, bs, known) = Some c \<and> served c"
proof -
  from assms have o: "ok s (set bs)" by (rule servedE)
  from request_ok[OF o, of r] show ?thesis
  proof (elim disjE exE conjE)
    assume "request P r s = Some (None, s)"
    then show ?thesis using assms by simp
  next
    fix b s' assume b: "request P r s = Some (Some b, s')" "b \<notin> set bs" "ok s' (insert b (set bs))"
      "\<forall>c \<in> set bs. \<forall>k. within c k \<longrightarrow> word_at s' k = word_at s k"
    have "served (s', b # bs, known)"
    proof (rule servedI)
      show "distinct (b # bs)" using assms b(2) by (auto elim: servedE)
      show "ok s' (set (b # bs))" using b(3) by simp
      fix k w assume "known k = Some w"
      then obtain c where c: "c \<in> set bs" "within c k" "word_at s k = w" using assms by (elim servedE) blast
      then have "word_at s' k = w" using b(4) by blast
      then show "(\<exists>c \<in> set (b # bs). within c k) \<and> word_at s' k = w" using c by auto
    qed
    then show ?thesis using b(1) by simp
  qed
qed

lemma resize_served:
  assumes "served (s, bs, known)" "i < length bs"
  shows "\<exists>c. do_action P (Resize i r) (s, bs, known) = Some c \<and> served c"
proof -
  let ?b = "bs ! i"
  from assms(1) have o: "ok s (set bs)" and d: "distinct bs" by (auto elim: servedE)
  have m: "?b \<in> set bs" using assms(2) by simp
  from resize_ok[OF o m, of r] show ?thesis
  proof (elim disjE exE conjE)
    assume "resize P ?b r s = Some (None, s)"
    then show ?thesis using assms by simp
  next
    fix b s' assume b: "resize P ?b r s = Some (Some b, s')" "b \<notin> set bs - {?b}" "ok s' (insert b (set bs - {?b}))"
      "\<forall>i. 0 < i \<longrightarrow> i < snd ?b \<longrightarrow> i < snd b \<longrightarrow> word_at s' (fst b + i) = word_at s (fst ?b + i)"
      "\<forall>c \<in> set bs - {?b}. \<forall>k. within c k \<longrightarrow> word_at s' k = word_at s k"
    have "served (s', b # remove1 ?b bs, moved ?b b known)"
    proof (rule servedI)
      show "distinct (b # remove1 ?b bs)" "ok s' (set (b # remove1 ?b bs))" using b(2,3) d by simp_all
      fix k w assume k: "moved ?b b known k = Some w"
      have "(\<exists>c \<in> insert b (set bs - {?b}). within c k) \<and> word_at s' k = w"
      proof (cases "within b k")
        case in_b: True
        define j where "j = k - fst b"
        have j: "k = fst b + j" "0 < j" "j < snd b" using in_b by (auto simp: within_def j_def)
        then have kj: "within ?b (fst ?b + j)" "known (fst ?b + j) = Some w"
          using k in_b by (simp_all add: moved_def Let_def split: if_splits)
        then have "word_at s' k = word_at s (fst ?b + j)" using b(4) j by (simp add: within_def)
        moreover have "word_at s (fst ?b + j) = w" using assms(1) kj(2) by (elim servedE) blast
        ultimately show ?thesis using in_b by blast
      next
        case False
        then have "forget ?b known k = Some w" using k by (simp add: moved_def)
        from forget_served[OF assms(1) this b(5)] show ?thesis by blast
      qed
      then show "(\<exists>c \<in> set (b # remove1 ?b bs). within c k) \<and> word_at s' k = w" using d by simp
    qed
    then show ?thesis using b(1) assms(2) by simp
  qed
qed

lemma return_served:
  assumes "served (s, bs, known)" "i < length bs"
  shows "\<exists>c. do_action P (Return i) (s, bs, known) = Some c \<and> served c"
proof -
  let ?b = "bs ! i"
  from assms(1) have o: "ok s (set bs)" and d: "distinct bs" by (auto elim: servedE)
  have m: "?b \<in> set bs" using assms(2) by simp
  obtain s' where s': "return P ?b s = Some s'" "ok s' (set bs - {?b})"
    "\<forall>c \<in> set bs - {?b}. \<forall>k. within c k \<longrightarrow> word_at s' k = word_at s k"
    using return_ok[OF o m] by blast
  have "served (s', remove1 ?b bs, forget ?b known)"
  proof (rule servedI)
    show "distinct (remove1 ?b bs)" "ok s' (set (remove1 ?b bs))" using s'(2) d by simp_all
    fix k w assume "forget ?b known k = Some w"
    from forget_served[OF assms(1) this s'(3)]
    show "(\<exists>c \<in> set (remove1 ?b bs). within c k) \<and> word_at s' k = w" using d by auto
  qed
  then show ?thesis using s'(1) assms(2) by simp
qed

lemma store_served:
  assumes "served (s, bs, known)" "i < length bs" "within (bs ! i) k"
  shows "served (store_word P k w s, bs, known(k \<mapsto> w))"
proof -
  from assms(1) have o: "ok s (set bs)" and d: "distinct bs" by (auto elim: servedE)
  have m: "bs ! i \<in> set bs" using assms(2) by simp
  show ?thesis
  proof (rule servedI[OF d store_ok[OF o m assms(3)]])
    fix k' w' assume k: "(known(k \<mapsto> w)) k' = Some w'"
    show "(\<exists>b \<in> set bs. within b k') \<and> word_at (store_word P k w s) k' = w'"
    proof (cases "k' = k")
      case True then show ?thesis using k m assms(3) by (auto simp: store_word[OF o m assms(3)])
    next
      case False
      then have "known k' = Some w'" using k by simp
      then have "\<exists>b \<in> set bs. within b k' \<and> word_at s k' = w'" using assms(1) by (elim servedE) blast
      then show ?thesis using False by (auto simp: store_word[OF o m assms(3)])
    qed
  qed
qed

lemma do_action_served:
  assumes "served c"
  shows "\<exists>c'. do_action P a c = Some c' \<and> served c'"
proof -
  obtain s bs known where c: "c = (s, bs, known)" by (cases c)
  show ?thesis
  proof (cases a)
    case (Request r) then show ?thesis using request_served assms c by blast
  next
    case (Resize i r) then show ?thesis
      using resize_served[of s bs known i r] assms c by (cases "i < length bs") auto
  next
    case (Return i) then show ?thesis
      using return_served[of s bs known i] assms c by (cases "i < length bs") auto
  next
    case (Store i j w) then show ?thesis
      using store_served[of s bs known i "fst (bs ! i) + j" w] assms c by auto
  qed
qed

lemma do_actions_served: "served c \<Longrightarrow> \<exists>c'. do_actions P as c = Some c' \<and> served c'"
proof (induction "as" arbitrary: c)
  case Nil then show ?case by simp
next
  case (Cons a "as")
  obtain c1 where "do_action P a c = Some c1" "served c1" using do_action_served[OF Cons.prems] by blast
  then show ?case using Cons.IH by simp
qed

end

section \<open>The allocator as a provider\<close>

text \<open>
  A request is a size with the address of the stack at the call. The client refuses what the
  allocator does not promise to survive, sizes near \<open>2^32\<close> and a stack within 32 bytes of the heap, and
  reads the block at the pointer returned and the size in its header.
\<close>

definition sane :: "u32 \<times> u32 \<Rightarrow> malloc_state \<Rightarrow> bool" where
  "sane r st \<longleftrightarrow> unat (snd r) + 20 \<le> 2 ^ 32 \<and> unat (malloc_end st) + 32 \<le> unat (fst r)"

definition block_at :: "malloc_state \<Rightarrow> u32 \<Rightarrow> block option" where
  "block_at st p = (if p = 0 then None else Some (unat p div 4 - 1, unat (fle_size st (p - 4)) div 4))"

definition tiny :: "(malloc_state, u32 \<times> u32, u32) provider" where
  "tiny = \<lparr>
    request = (\<lambda>r st. if sane r st then do { (p, st) \<leftarrow> malloc (fst r) (snd r) st; Some (block_at st p, st) } else Some (None, st)),
    resize = (\<lambda>b r st. if sane r st then do { (p, st) \<leftarrow> realloc (fst r) (adr (fst b + 1)) (snd r) st; Some (block_at st p, st) }
      else Some (None, st)),
    return = (\<lambda>b st. free (adr (fst b + 1)) st),
    store_word = (\<lambda>k w st. st\<lparr>memory := wr32 (memory st) (adr k) w\<rparr>) \<rparr>"

definition tiny_ok :: "malloc_state \<Rightarrow> block set \<Rightarrow> bool" where
  "tiny_ok st U \<longleftrightarrow> (\<exists>S bs. heap_ok S bs st \<and> coalesced bs \<and> set (useds S bs) = U)"

lemma tiny_okE:
  assumes "tiny_ok st U"
  obtains S bs where "heap_ok S bs st" "coalesced bs" "U = set (useds S bs)"
  using assms by (auto simp: tiny_ok_def)

lemma block_at_used:
  assumes "heap_ok S bs st" "(a, n) \<in> set (useds S bs)"
  shows "block_at st (adr (a + 1)) = Some (a, n)"
proof -
  have w: "0 < a" "2 \<le> n" "a + n < words" "view st a = adr n" using used_words[OF assms] by auto
  have p: "adr (a + 1) \<noteq> 0" by (rule adr_nonzero) (use w in simp_all)
  have "adr (a + 1) - 4 = adr a" by (simp add: adr_def)
  then have "fle_size st (adr (a + 1) - 4) = adr n" using w by (simp add: fle_view)
  moreover have "unat (adr (a + 1)) = 4 * (a + 1)" "unat (adr n) = 4 * n" by (rule unat_adr, use w in simp)+
  ultimately show ?thesis using p by (simp only: block_at_def if_False) simp
qed

lemma block_at_0 [simp]: "block_at st 0 = None"
  by (simp add: block_at_def)

lemma malloc_returns:
  assumes "heap_ok S bs st" "unat sz + 20 \<le> 2 ^ 32" "unat (malloc_end st) + 32 \<le> unat limit"
  shows "\<exists>p st'. malloc limit sz st = Some (p, st')"
proof -
  have w: "real_words (unat sz) + 2 < words" using real_words_bounds(3)[of "unat sz"] assms(2) by simp
  show ?thesis using malloc_blocks[OF assms(1) real_words_bounds(1) w limit_ok[OF assms(1,3)]]
    by (auto simp: malloc_def REAL_SIZE_adr)
qed

text \<open>What the words of the other blocks hold, over blocks as pairs\<close>

lemma kept_words:
  "\<forall>(c, l) \<in> A. \<forall>k. c \<le> k \<and> k < c + l \<longrightarrow> f k = g k \<Longrightarrow> \<forall>c \<in> A. \<forall>k. within c k \<longrightarrow> f k = g k"
  by (auto simp: within_def)

lemma tiny_request:
  assumes "tiny_ok st U"
  shows "request tiny r st = Some (None, st) \<or> (\<exists>b st'. request tiny r st = Some (Some b, st') \<and> b \<notin> U \<and>
    tiny_ok st' (insert b U) \<and> (\<forall>c \<in> U. \<forall>k. within c k \<longrightarrow> view st' k = view st k))"
proof (cases "sane r st")
  case False then show ?thesis by (simp add: tiny_def)
next
  case True
  obtain S bs where bs: "heap_ok S bs st" "coalesced bs" "set (useds S bs) = U" using assms by (auto simp: tiny_ok_def)
  note s = True[unfolded sane_def, THEN conjunct1] True[unfolded sane_def, THEN conjunct2]
  obtain p st' where m: "malloc (fst r) (snd r) st = Some (p, st')" using malloc_returns[OF bs(1) s] by blast
  from malloc_result[OF bs(1,2) s m] show ?thesis
  proof (elim disjE exE conjE)
    assume "p = 0" "st' = st"
    then show ?thesis using True m by (simp add: tiny_def)
  next
    fix a n bs' assume p: "p = adr (a + 1)" and al: "allocates S bs st a n bs' st'" and co: "coalesced bs'"
    have h: "heap_ok S bs' st'" "set (useds S bs') = insert (a, n) U" "keeps S bs st st'"
      "\<forall>(b, m) \<in> U. b + m \<le> a \<or> a + n \<le> b" using al bs(3) by (auto simp: allocates_def)
    have a: "(a, n) \<in> set (useds S bs')" using h(2) by simp
    have "request tiny r st = Some (Some (a, n), st')"
      using True m block_at_used[OF h(1) a] by (simp add: tiny_def p)
    moreover have "(a, n) \<notin> U" using h(4) used_words[OF h(1) a] by fastforce
    moreover have "tiny_ok st' (insert (a, n) U)" using h(1,2) co by (auto simp: tiny_ok_def)
    moreover have "\<forall>c \<in> U. \<forall>k. within c k \<longrightarrow> view st' k = view st k"
      using h(3) bs(3) by (intro kept_words) (simp add: keeps_def)
    ultimately show ?thesis by blast
  qed
qed

lemma tiny_resize:
  assumes "tiny_ok st U" "b \<in> U"
  shows "resize tiny b r st = Some (None, st) \<or> (\<exists>c st'. resize tiny b r st = Some (Some c, st') \<and> c \<notin> U - {b} \<and>
    tiny_ok st' (insert c (U - {b})) \<and>
    (\<forall>i. 0 < i \<longrightarrow> i < snd b \<longrightarrow> i < snd c \<longrightarrow> view st' (fst c + i) = view st (fst b + i)) \<and>
    (\<forall>c \<in> U - {b}. \<forall>k. within c k \<longrightarrow> view st' k = view st k))"
proof (cases "sane r st")
  case False then show ?thesis by (simp add: tiny_def)
next
  case True
  obtain S bs where bs: "heap_ok S bs st" "coalesced bs" "set (useds S bs) = U" using assms by (auto simp: tiny_ok_def)
  note s = True[unfolded sane_def, THEN conjunct1] True[unfolded sane_def, THEN conjunct2]
  obtain a n where b: "b = (a, n)" by (cases b)
  have u: "(a, n) \<in> set (useds S bs)" using assms(2) bs(3) b by simp
  obtain p st' where m: "realloc (fst r) (adr (a + 1)) (snd r) st = Some (p, st')"
    and c: "p = 0 \<and> st' = st \<or> (\<exists>b m bs'. p = adr (b + 1) \<and> unat (snd r) + 4 \<le> 4 * m \<and> reallocates S bs st a n b m bs' st')"
    using realloc_blocks[OF bs(1,2) u s] by blast
  from c show ?thesis
  proof (elim disjE exE conjE)
    assume "p = 0" "st' = st"
    then show ?thesis using True m by (simp add: tiny_def b)
  next
    fix d l bs' assume p: "p = adr (d + 1)" and re: "reallocates S bs st a n d l bs' st'"
    have h: "heap_ok S bs' st'" "set (useds S bs') = insert (d, l) (U - {b})" "coalesced bs'"
      "\<forall>i. 0 < i \<and> i < n \<and> i < l \<longrightarrow> view st' (d + i) = view st (a + i)"
      "\<forall>(c, l) \<in> U - {b}. \<forall>k. c \<le> k \<and> k < c + l \<longrightarrow> view st' k = view st k"
      "\<forall>(c, l) \<in> U - {b}. c \<noteq> d" using re bs(3) by (simp_all add: reallocates_def b)
    have "(d, l) \<in> set (useds S bs')" using h(2) by simp
    then have "resize tiny b r st = Some (Some (d, l), st')"
      using True m block_at_used[OF h(1)] by (simp add: tiny_def p b)
    moreover have "(d, l) \<notin> U - {b}" using h(6) by blast
    moreover have "tiny_ok st' (insert (d, l) (U - {b}))" using h(1-3) by (auto simp: tiny_ok_def)
    moreover have "\<forall>c \<in> U - {b}. \<forall>k. within c k \<longrightarrow> view st' k = view st k" using h(5) by (rule kept_words)
    moreover have "\<forall>i. 0 < i \<longrightarrow> i < snd b \<longrightarrow> i < snd (d, l) \<longrightarrow> view st' (fst (d, l) + i) = view st (fst b + i)"
      using h(4) by (simp add: b)
    ultimately show ?thesis by blast
  qed
qed

lemma tiny_return:
  assumes "tiny_ok st U" "b \<in> U"
  shows "\<exists>st'. return tiny b st = Some st' \<and> tiny_ok st' (U - {b}) \<and>
    (\<forall>c \<in> U - {b}. \<forall>k. within c k \<longrightarrow> view st' k = view st k)"
proof -
  obtain S bs where bs: "heap_ok S bs st" "coalesced bs" "set (useds S bs) = U" using assms by (auto simp: tiny_ok_def)
  obtain a n where b: "b = (a, n)" by (cases b)
  have "(a, n) \<in> set (useds S bs)" using assms(2) bs(3) b by simp
  from free_blocks[OF bs(1) this] obtain bs' st' where f: "free (adr (a + 1)) st = Some st'" "releases S bs st a n bs' st'"
    "coalesced bs'" using bs(2) by blast
  have "tiny_ok st' (U - {b})" using f bs(3) b by (auto simp: tiny_ok_def releases_def)
  moreover have "\<forall>c \<in> U - {b}. \<forall>k. within c k \<longrightarrow> view st' k = view st k"
    using f(2) bs(3) b by (intro kept_words) (simp add: releases_def)
  ultimately show ?thesis using f(1) by (simp add: tiny_def b)
qed

lemma tiny_store:
  assumes "tiny_ok st U" "b \<in> U" "within b k"
  shows "tiny_ok (store_word tiny k w st) U" "view (store_word tiny k w st) = (view st)(k := w)"
proof -
  obtain S bs where bs: "heap_ok S bs st" "coalesced bs" "set (useds S bs) = U" using assms by (auto simp: tiny_ok_def)
  obtain a n where b: "b = (a, n)" by (cases b)
  have u: "(a, n) \<in> set (useds S bs)" and k: "a < k" "k < a + n" using assms(2,3) bs(3) b by (simp_all add: within_def)
  show "tiny_ok (store_word tiny k w st) U" using store_heap_ok[OF bs(1) u k, of w] bs(2,3) by (auto simp: tiny_ok_def tiny_def)
  have "k < words" using used_words[OF bs(1) u] k by simp
  then show "view (store_word tiny k w st) = (view st)(k := w)" by (simp add: tiny_def view_write)
qed

lemma used_blocks_apart:
  assumes "b \<in> set (useds S bs)" "c \<in> set (useds S bs)" "b \<noteq> c"
  shows "fst b + snd b \<le> fst c \<or> fst c + snd c \<le> fst b"
  by (rule useds_apart) (use assms in simp_all)

interpretation heap: allocator tiny tiny_ok view
proof
  fix st U b c assume "tiny_ok st U" "b \<in> U" "c \<in> U" "b \<noteq> c"
  then show "fst b + snd b \<le> fst c \<or> fst c + snd c \<le> fst b"
    by (elim tiny_okE) (rule used_blocks_apart, simp_all)
qed (rule tiny_request tiny_resize tiny_return tiny_store; assumption)+



end
