(* ===== verification/Spec2Isabelle.thy ===== *)
theory Spec2Isabelle
  imports
    Bench_Barrier
    Bench_Harts
    Bench_Kernels
    Bench_Parallel
    Bench_Qsort
    Bench_Rsort
    Bench_Towers
    Byte_Memory
    C_Loops
    Core_List
    Core_List_Bench
    Core_Matrix
    Core_State
    Core_Util
    Debug_Checksum
    Debug_Harts
    Debug_Semihosting
    Debug_Translate
    Ee_Float
    Ee_Format
    Ee_Number
    Ee_Printf
    List_Heap
    List_Sort
    Mt_Barrier
    Mt_Blocks
    Mt_Cores
    Mt_Fixed
    Mt_Generic
    Mt_Kernels
    Mt_Lib
    Mt_Matmul
    Mt_Overwrite
    Mt_Rowpairs
    Mt_Terms
    Mt_Variants
    Mt_Vvadd
    Sim_Cases
    Simple_System
    Tiny_Client
    Tiny_Correct
    Tiny_Heap
    Tiny_Malloc
begin

text \<open>
  A verification library for the C code of the RISC-V core repository: the CoreMark benchmark that
  runs on the simulated core, the simulation runtime, the formatted output library, the multi-core
  matrix multiplications and the programs for the debug tests. Every definition is
  executable or a \<open>partial_function\<close> into \<open>option\<close>; \<open>None\<close> is undefined behaviour or a loop that
  never ends, so a theorem that gives \<open>Some\<close> shows that the code returns and stays inside its objects.

  Parts of the program and where they are modelled:

  \<^item> \<open>c_sim/benchmarks/coremark/coremark/core_util.c\<close>: \<open>Core_Util\<close>. The 16-bit CRC with the locales
    \<open>crc_step\<close> and \<open>crc_register\<close> (no information of the register or the datum is lost), the seeds and
    the parsing of their command line arguments, the checks of the data types.
  \<^item> \<open>core_state.c\<close>: \<open>Core_State\<close>. The state machine that classifies numbers (\<open>state_step\<close> is one turn of
    its loop, \<open>core_state\<close> the enumeration \<open>CORE_STATE\<close>), the benchmark around it on a memory of bytes,
    and the initialisation. The locale \<open>scanner\<close> is what the benchmark needs of the scanner.
  \<^item> \<open>core_matrix.c\<close>: \<open>Core_Matrix\<close> on the loops of \<open>C_Loops\<close>. Matrices are lists of 16 and 32 bit words in
    row order, with the indices computed at 32 bits; products are compared with sums modulo 2^32.
  \<^item> \<open>core_list_join.c\<close>: \<open>List_Heap\<close> (list headers in a heap of cells, insertion, removal, search and
    reversal), \<open>List_Sort\<close> (the in-place merge sort against a stable sort of the abstract list, for any
    comparison that fulfils the locale \<open>comparator\<close>; \<open>data_comparator\<close> for comparisons that read and
    write the data), \<open>Core_List\<close> (the two comparisons of the code as interpretations) and
    \<open>Core_List_Bench\<close> (the benchmark and the initialisation of the list). The components meet here:
    \<open>calc_func\<close> calls the state and the matrix benchmark and folds their CRCs.
  \<^item> \<open>c_sim/common/print.h\<close>: \<open>Ee_Number\<close> (\<open>strnlen\<close>, \<open>skip_atoi\<close>, \<open>number\<close> and the two address formats),
    \<open>Ee_Float\<close> (\<open>parse_float\<close>, \<open>decimal_point\<close>, \<open>cropzeros\<close>, \<open>flt\<close>; the type \<open>double\<close> and the conversion
    functions the file only declares are a parameter), \<open>Ee_Printf\<close> (the interpreter of format strings
    over a list of tagged arguments) and \<open>Ee_Format\<close> (what is printed).
  \<^item> \<open>c_sim/simple_system.c\<close>: \<open>Simple_System\<close>. Stores to device registers, accesses of control registers
    and calls of handlers are a list of events; the tables of handlers are explicit state.
  \<^item> \<open>riscv_riscv-tests/debug/programs/tiny-malloc.c\<close>: \<open>Tiny_Malloc\<close> (the code, on a memory of bytes with
    32-bit addresses), \<open>Tiny_Heap\<close> (the heap as a sequence of used and free blocks, the invariant
    \<open>heap_ok\<close> that ties memory, free list and end of the heap to it, and the search loops on it) and
    \<open>Tiny_Correct\<close> (the contracts of \<open>malloc\<close>, \<open>free\<close> and \<open>realloc\<close>, and the step relation \<open>client\<close> of a
    program that uses them).
  \<^item> \<open>riscv_riscv-tests/mt/\<close>: \<open>Mt_Lib\<close> (loops of additions to array elements and the sum each element
    receives), \<open>Mt_Matmul\<close> (the code of each core) and \<open>Mt_Cores\<close> (all cores in any order, and
    interleaved).

  \<open>Prelude\<close> has the integer types (\<open>s32\<close> is a word of 32 bits read with \<open>sint\<close>), reads and writes that
  fail out of range, and the shared lemmas.

  Bounds and fuel. Loops with a constant bound recurse on it (the eight turns of \<open>crcu8\<close>, the eight
  digits of \<open>print_hex\<close>). Loops whose end depends on data are \<open>partial_function (option)\<close> and their
  termination is a theorem (the merge sort, the searches of \<open>malloc\<close> and \<open>free\<close>, the scans of
  \<open>core_bench_state\<close>). No fuel is used in a theorem. The hypotheses on sizes in the theorems are those
  under which the C code does not overflow; where the code overflows, a theorem says what happens.

  Not modelled: the RTL of the core, its testbench and assembly programs, which are not C; the CoreMark
  driver \<open>core_main.c\<close> and its port files (timing, printing of the report); the printing code under
  \<open>CORE_DEBUG\<close>; \<open>malloc_stats\<close>, which only prints; the branches of \<open>tiny-malloc.c\<close> for a heap that grows
  down, which the configuration in the file does not select; the data sets of the benchmarks; and the
  programs that are only inline assembly.
\<close>

end
